(* ===== verification/Prelude.thy ===== *)
theory Prelude
  imports Main "HOL-Library.Word"
begin

unbundle bit_operations_syntax

text \<open>
  Shared vocabulary of the development: the machine integer types of the C++ code, raw memory
  as byte lists (with \<open>memcpy\<close>, \<open>memset\<close> and reads), little-endian
  encodings of \<open>uint32_t\<close> and \<open>uint64_t\<close>, and the generic facts on words, lists and
  powers of two that several components use. Facts are collected in three bundles:
  \<open>mem_simps\<close> (memory), \<open>wrap_simps\<close> (unsigned arithmetic moved to \<open>nat\<close>)
  and \<open>kv_defs\<close> (the definitions a component wants unfolded together).
\<close>

named_theorems mem_simps \<open>reads, writes and lengths of raw memory\<close>
named_theorems wrap_simps \<open>unsigned word arithmetic as arithmetic on naturals\<close>
named_theorems kv_defs \<open>small definitions of the model, unfolded together\<close>

type_synonym u8 = "8 word"
type_synonym u32 = "32 word"
type_synonym u64 = "64 word"
type_synonym bytes = "8 word list"

section \<open>Raw memory\<close>

definition mem_read :: "nat \<Rightarrow> nat \<Rightarrow> bytes \<Rightarrow> bytes" where
  "mem_read off n buf = take n (drop off buf)"

definition memcpy :: "nat \<Rightarrow> bytes \<Rightarrow> bytes \<Rightarrow> bytes" where
  "memcpy off src buf = take off buf @ src @ drop (off + length src) buf"

definition zeros :: "nat \<Rightarrow> bytes" where
  "zeros n = replicate n 0"

definition le_bytes :: "nat \<Rightarrow> 'a::len word \<Rightarrow> bytes" where
  "le_bytes n w = map (\<lambda>i. ucast (drop_bit (8 * i) w)) [0..<n]"

definition le_word :: "bytes \<Rightarrow> 'a::len word" where
  "le_word bs = foldr (\<lambda>b acc. push_bit 8 acc OR ucast b) bs 0"

definition sub32 :: "nat \<Rightarrow> nat \<Rightarrow> nat" where
  "sub32 a b = (a + 2 ^ 32 - b) mod 2 ^ 32"

lemma length_mem_read [simp]: "length (mem_read off n buf) = min n (length buf - off)"
  by (simp add: mem_read_def)

lemma length_memcpy [mem_simps]:
  "off + length src \<le> length buf \<Longrightarrow> length (memcpy off src buf) = length buf"
  by (simp add: memcpy_def)

lemma length_zeros [simp]: "length (zeros n) = n"
  by (simp add: zeros_def)

lemma length_le_bytes [simp]: "length (le_bytes n w) = n"
  by (simp add: le_bytes_def)

lemma mem_read_memcpy_same [mem_simps]:
  "off \<le> length buf \<Longrightarrow> n = length src \<Longrightarrow> mem_read off n (memcpy off src buf) = src"
  by (simp add: mem_read_def memcpy_def)

lemma mem_read_memcpy_before [mem_simps]:
  "off + n \<le> off' \<Longrightarrow> off' \<le> length buf \<Longrightarrow>
   mem_read off n (memcpy off' src buf) = mem_read off n buf"
  by (simp add: mem_read_def memcpy_def drop_take)

lemma mem_read_memcpy_after [mem_simps]:
  assumes "off' + length src \<le> off" and "off' \<le> length buf"
  shows "mem_read off n (memcpy off' src buf) = mem_read off n buf"
proof -
  have "drop off (memcpy off' src buf) = drop (off - off' - length src) (drop (off' + length src) buf)"
    using assms by (simp add: memcpy_def)
  also have "\<dots> = drop off buf"
    using assms by (simp add: ac_simps)
  finally show ?thesis by (simp add: mem_read_def)
qed

lemma mem_read_all [mem_simps]: "mem_read 0 (length buf) buf = buf"
  by (simp add: mem_read_def)

lemma mem_read_take [mem_simps]: "off + n \<le> m \<Longrightarrow> mem_read off n (take m buf) = mem_read off n buf"
  by (simp add: mem_read_def drop_take min_def)

lemma mem_read_append1 [mem_simps]:
  "off + n \<le> length xs \<Longrightarrow> mem_read off n (xs @ ys) = mem_read off n xs"
  by (simp add: mem_read_def)

lemma bit_le_word_aux:
  "bit (foldr (\<lambda>b acc. push_bit 8 acc OR ucast b) (bs :: bytes) (0::'a::len word)) n \<longleftrightarrow>
     n < LENGTH('a) \<and> n div 8 < length bs \<and> bit (bs ! (n div 8)) (n mod 8)"
proof (induction bs arbitrary: n)
  case Nil
  then show ?case by simp
next
  case (Cons b bs)
  show ?case
  proof (cases "n < 8")
    case True
    then show ?thesis
      by (auto simp: bit_or_iff bit_push_bit_iff bit_ucast_iff)
  next
    case False
    then have "n div 8 = Suc ((n - 8) div 8)" and "n mod 8 = (n - 8) mod 8"
      by (simp_all add: le_div_geq le_mod_geq)
    moreover have "\<not> bit b n"
      using False bit_imp_le_length [of b n] by auto
    ultimately show ?thesis
      using False Cons.IH [of "n - 8"]
      by (auto simp: bit_or_iff bit_push_bit_iff bit_ucast_iff)
  qed
qed

lemma bit_le_word:
  "bit (le_word bs :: 'a::len word) n \<longleftrightarrow>
     n < LENGTH('a) \<and> n div 8 < length bs \<and> bit (bs ! (n div 8)) (n mod 8)"
  unfolding le_word_def by (rule bit_le_word_aux)

lemma le_word_le_bytes:
  fixes w :: "'a::len word"
  assumes "LENGTH('a) \<le> 8 * n"
  shows "le_word (le_bytes n w) = w"
proof (rule bit_word_eqI)
  fix k
  assume k: "k < LENGTH('a)"
  with assms have "k div 8 < n" by (simp add: div_less_iff_less_mult mult.commute)
  moreover have "8 * (k div 8) + k mod 8 = k" by simp
  ultimately show "bit (le_word (le_bytes n w) :: 'a word) k = bit w k"
    using k by (simp add: bit_le_word le_bytes_def bit_ucast_iff bit_drop_bit_eq)
qed

lemma le_word_le_bytes32 [mem_simps]: "le_word (le_bytes 4 w) = (w :: u32)"
  by (rule le_word_le_bytes) simp

lemma le_word_le_bytes64 [mem_simps]: "le_word (le_bytes 8 w) = (w :: u64)"
  by (rule le_word_le_bytes) simp

section \<open>Unsigned arithmetic\<close>

lemma sub32_eq [wrap_simps]:
  assumes "b \<le> a" and "a < 2 ^ 32"
  shows "sub32 a b = a - b"
proof -
  have "a + 2 ^ 32 - b = (a - b) + 2 ^ 32" using assms(1) by simp
  then have "sub32 a b = (a - b) mod 2 ^ 32" by (simp only: sub32_def mod_add_self2)
  with assms(2) show ?thesis by simp
qed

lemma unat_plus_nowrap [wrap_simps]:
  "unat a + unat b < 2 ^ LENGTH('a) \<Longrightarrow> unat (a + b :: 'a::len word) = unat a + unat b"
  by (simp add: unat_word_ariths)

lemma unat_of_nat_nowrap [wrap_simps]:
  "n < 2 ^ LENGTH('a) \<Longrightarrow> unat (of_nat n :: 'a::len word) = n"
  by (simp add: unat_of_nat)

lemma unat_plus_of_nat:
  "unat a + n < 2 ^ LENGTH('a) \<Longrightarrow> unat (a + of_nat n :: 'a::len word) = unat a + n"
  by (simp add: unat_word_ariths unat_of_nat)

lemma unat_less_u32: "unat (w :: u32) < 2 ^ 32"
  using unsigned_less [where ?'a = nat, of w] by simp

lemma unat_less_u64: "unat (w :: u64) < 2 ^ 64"
  using unsigned_less [where ?'a = nat, of w] by simp

lemma unat_ucast_u64: "unat (ucast (w :: u32) :: u64) = unat w"
proof -
  have "unat w < 2 ^ 64" using unat_less_u32 [of w] by simp
  then show ?thesis by (simp add: unsigned_ucast_eq take_bit_nat_eq_self)
qed

lemma unat_mask_bound:
  "unat (w AND mask n :: 'a::len word) < 2 ^ n"
proof -
  have "w AND mask n = take_bit n w" by (simp add: take_bit_eq_mask)
  then have "unat (w AND mask n) = take_bit n (unat w)"
    by (simp add: unsigned_take_bit_eq)
  then show ?thesis by simp
qed

lemma or_eq_plus_of_disjoint:
  fixes a b :: "'a::len word"
  assumes "a = push_bit n x" and "unat b < 2 ^ n"
  shows "a OR b = a + b"
proof -
  have b: "take_bit n b = b"
    using assms(2) by (simp add: word_unat_eq_iff unsigned_take_bit_eq take_bit_nat_eq_self)
  have "\<not> bit a k \<or> \<not> bit b k" for k
  proof (cases "k < n")
    case True
    then show ?thesis by (simp add: assms(1) bit_push_bit_iff)
  next
    case False
    then have "\<not> bit (take_bit n b) k" by (simp add: bit_take_bit_iff)
    then show ?thesis by (simp only: b) simp
  qed
  then show ?thesis by (simp add: disjunctive_add)
qed

end
