(* ===== verification/KvUtil.thy ===== *)
theory KvUtil
  imports Prelude
begin

text \<open>
  The inline helpers of \<open>util/kv_util.h\<close>: rounding up to a block size, clearing low order
  bits, and the bit arithmetic of the pool bitmaps, on 64 and 32 bit words as in the source.
  \<open>rnd\<close> is \<open>nvm_kv_round_upto_blk\<close> at the call sites that the model writes
  with natural number lengths. The lemmas show what the bit tricks compute for a block size that
  is a power of two, which is what every caller passes.
\<close>

definition nvm_kv_round_upto_blk :: "u64 \<Rightarrow> u64 \<Rightarrow> u64" where
  "nvm_kv_round_upto_blk value blk_size = (value + (blk_size - 1)) AND NOT (blk_size - 1)"

definition nvm_kv_mask_lsb :: "u64 \<Rightarrow> u32 \<Rightarrow> u64" where
  "nvm_kv_mask_lsb value lsb = value AND NOT (push_bit (unat lsb) 1 - 1)"

definition round32 :: "u32 \<Rightarrow> u32" where
  "round32 value = (let round32_mask = push_bit 5 1 - 1
                    in (value + round32_mask) AND NOT round32_mask)"

definition bits_per_uint8 :: "u32 \<Rightarrow> u32" where
  "bits_per_uint8 value = drop_bit 3 value"

definition bits_per_uint32 :: "u32 \<Rightarrow> u32" where
  "bits_per_uint32 value = drop_bit 5 value"

definition bit_mask :: "u32 \<Rightarrow> u32" where
  "bit_mask value = (let bm_unit_size = push_bit 5 1 in push_bit (unat (value mod bm_unit_size)) 1)"

definition rnd :: "nat \<Rightarrow> nat \<Rightarrow> nat" where
  "rnd value blk_size = unat (nvm_kv_round_upto_blk (of_nat value) (of_nat blk_size))"

section \<open>Masking and rounding\<close>

lemma unat_and_not_mask:
  fixes w :: "'a::len word"
  shows "unat (w AND NOT (mask k)) = unat w div 2 ^ k * 2 ^ k"
proof -
  have "w AND NOT (mask k) = push_bit k (drop_bit k w)"
    by (rule bit_eqI) (auto simp: bit_simps)
  also have "\<dots> = w - take_bit k w"
    using bits_ident [of k w] by (simp add: algebra_simps)
  finally have eq: "w AND NOT (mask k) = w - take_bit k w" .
  have tb: "unat (take_bit k w) = unat w mod 2 ^ k"
    unfolding unsigned_take_bit_eq by (rule take_bit_eq_mod)
  have "unat (w - take_bit k w) = unat w - unat (take_bit k w)"
    by (rule unat_sub) (simp only: word_le_nat_alt tb mod_less_eq_dividend)
  then show ?thesis by (simp only: eq tb minus_mod_eq_div_mult)
qed

lemma unat_mask:
  assumes "k < LENGTH('a::len)"
  shows "unat (mask k :: 'a word) = 2 ^ k - 1"
proof -
  have "mask k < (2::nat) ^ LENGTH('a)"
    using power_strict_increasing [OF assms, of "2::nat"]
    by (simp add: mask_eq_exp_minus_1 less_imp_diff_less)
  then have "unat (of_nat (mask k) :: 'a word) = mask k" by (simp add: unat_of_nat)
  then show ?thesis by (simp add: of_nat_mask_eq mask_eq_exp_minus_1)
qed

lemma round_upto_blk_eq:
  assumes "k < 64" and "unat v + 2 ^ k \<le> 2 ^ 64"
  shows "unat (nvm_kv_round_upto_blk v (2 ^ k)) = (unat v + (2 ^ k - 1)) div 2 ^ k * 2 ^ k"
proof -
  have m: "(2 ^ k :: u64) - 1 = mask k" by (simp add: mask_eq_exp_minus_1)
  have um: "unat (mask k :: u64) = 2 ^ k - 1"
    using assms(1) by (simp add: unat_mask)
  have "(1::nat) \<le> 2 ^ k" by simp
  with assms(2) have "unat v + unat (mask k :: u64) < 2 ^ 64" unfolding um by linarith
  then have "unat (v + mask k) = unat v + (2 ^ k - 1)"
    by (simp add: unat_word_ariths um)
  then show ?thesis
    by (simp add: nvm_kv_round_upto_blk_def m unat_and_not_mask)
qed

lemma rnd_eq:
  assumes "k < 64" and "n + 2 ^ k \<le> 2 ^ 64"
  shows "rnd n (2 ^ k) = (n + (2 ^ k - 1)) div 2 ^ k * 2 ^ k"
proof -
  have "(1::nat) \<le> 2 ^ k" by simp
  with assms(2) have "n < 2 ^ 64" by linarith
  then have u: "unat (of_nat n :: u64) = n" by (simp add: unat_of_nat)
  show ?thesis
    unfolding rnd_def using round_upto_blk_eq [of k "of_nat n"] assms u by simp
qed

lemma div_round_bounds:
  fixes n b :: nat
  assumes "0 < b"
  shows "n \<le> (n + (b - 1)) div b * b" and "(n + (b - 1)) div b * b < n + b"
proof -
  have eq: "(n + (b - 1)) div b * b = (n + (b - 1)) - (n + (b - 1)) mod b"
    by (simp add: minus_mod_eq_div_mult)
  have "(n + (b - 1)) mod b \<le> b - 1"
    using assms by (simp add: less_Suc_eq_le [symmetric])
  then show "n \<le> (n + (b - 1)) div b * b" unfolding eq by linarith
  show "(n + (b - 1)) div b * b < n + b" unfolding eq using assms by linarith
qed

lemma rnd_bounds:
  assumes "k < 64" and "n + 2 ^ k \<le> 2 ^ 64"
  shows "n \<le> rnd n (2 ^ k)" and "rnd n (2 ^ k) < n + 2 ^ k" and "2 ^ k dvd rnd n (2 ^ k)"
  using assms div_round_bounds [of "2 ^ k" n] by (simp_all add: rnd_eq)

lemma rnd_least:
  assumes "k < 64" and "n + 2 ^ k \<le> 2 ^ 64" and "2 ^ k dvd m" and "n \<le> m"
  shows "rnd n (2 ^ k) \<le> m"
proof -
  obtain q where q: "m = 2 ^ k * q" using assms(3) by blast
  have "(1::nat) \<le> 2 ^ k" by simp
  moreover have "n \<le> 2 ^ k * q" using assms(4) q by simp
  moreover have "2 ^ k * Suc q = 2 ^ k * q + 2 ^ k" by simp
  ultimately have "n + (2 ^ k - 1) < 2 ^ k * Suc q" by linarith
  then have "(n + (2 ^ k - 1)) div 2 ^ k < Suc q"
    by (simp add: div_less_iff_less_mult mult.commute)
  then show ?thesis using assms(1,2) by (simp add: rnd_eq q)
qed

lemma rnd_multiple:
  assumes "k < 64" and "n + 2 ^ k \<le> 2 ^ 64" and "2 ^ k dvd n"
  shows "rnd n (2 ^ k) = n"
  using rnd_least [OF assms(1,2,3)] rnd_bounds(1) [OF assms(1,2)] by simp

lemma rnd_0 [simp]:
  assumes "k < 64"
  shows "rnd 0 (2 ^ k) = 0"
proof -
  have "(0::nat) + 2 ^ k \<le> 2 ^ 64" using assms power_increasing [of k 64 "2::nat"] by simp
  then show ?thesis using rnd_eq [OF assms, of 0] by (simp add: div_eq_0_iff)
qed

lemma rnd_pos: "k < 64 \<Longrightarrow> n + 2 ^ k \<le> 2 ^ 64 \<Longrightarrow> 0 < n \<Longrightarrow> 0 < rnd n (2 ^ k)"
  using rnd_bounds(1) [of k n] by simp

lemma round32_eq:
  assumes "unat v + 31 < 2 ^ 32"
  shows "unat (round32 v) = (unat v + 31) div 32 * 32"
proof -
  have m: "push_bit 5 1 - 1 = (mask 5 :: u32)" by (simp add: mask_eq_exp_minus_1)
  have um: "unat (mask 5 :: u32) = 31" by (simp add: unat_mask)
  have "unat (v + mask 5) = unat v + 31"
    using assms by (simp only: unat_word_ariths um) simp
  then have "unat ((v + mask 5) AND NOT (mask 5)) = (unat v + 31) div 32 * 32"
    using unat_and_not_mask [of "v + mask 5" 5] by (simp only:) simp
  then show ?thesis by (simp only: round32_def Let_def m)
qed

lemma unat_bits_per_uint32 [simp]: "unat (bits_per_uint32 v) = unat v div 32"
  unfolding bits_per_uint32_def unat_drop_bit_eq by (simp add: drop_bit_eq_div)

lemma unat_bits_per_uint8 [simp]: "unat (bits_per_uint8 v) = unat v div 8"
  unfolding bits_per_uint8_def unat_drop_bit_eq by (simp add: drop_bit_eq_div)

lemma bit_mask_eq: "bit_mask v = push_bit (unat v mod 32) 1"
proof -
  have "unat (v mod push_bit 5 1) = unat v mod 32"
    by (simp add: unat_mod)
  then show ?thesis by (simp only: bit_mask_def Let_def)
qed

lemma bit_bit_mask: "bit (bit_mask v) n \<longleftrightarrow> n = unat v mod 32"
proof -
  have "unat v mod 32 < 32" by simp
  then show ?thesis
    unfolding bit_mask_eq by (auto simp: bit_push_bit_iff bit_1_iff simp del: push_bit_of_1)
qed

lemma mask_lsb_eq:
  assumes "unat lsb < 64"
  shows "unat (nvm_kv_mask_lsb v lsb) = unat v div 2 ^ unat lsb * 2 ^ unat lsb"
proof -
  have "push_bit (unat lsb) 1 - 1 = (mask (unat lsb) :: u64)"
    by (simp add: mask_eq_exp_minus_1 push_bit_eq_mult)
  then show ?thesis by (simp add: nvm_kv_mask_lsb_def unat_and_not_mask)
qed

section \<open>Properties\<close>

text \<open>
  \<open>nvm_kv_round_upto_blk\<close>, with its mask arithmetic on 64 bit words, returns the
  least multiple of a power of two block size that is not below the value: no length that the
  store computes is short by a sector or has a sector to spare.
\<close>

theorem round_upto_blk_least:
  assumes "k < 64" and "unat v + 2 ^ k \<le> 2 ^ 64"
  shows "unat (nvm_kv_round_upto_blk v (2 ^ k)) = (LEAST m. unat v \<le> m \<and> 2 ^ k dvd m)"
proof -
  have r: "unat (nvm_kv_round_upto_blk v (2 ^ k)) = rnd (unat v) (2 ^ k)"
    using round_upto_blk_eq [OF assms] rnd_eq [OF assms] by simp
  show ?thesis
    unfolding r using rnd_bounds(1,3) [OF assms] rnd_least [OF assms]
    by (intro Least_equality [symmetric]) simp_all
qed

theorem round_upto_blk_least_witness:
  "unat (nvm_kv_round_upto_blk 1000 (2 ^ 9)) = (LEAST m. 1000 \<le> m \<and> (512::nat) dvd m) \<and>
   nvm_kv_round_upto_blk 1000 512 = 1024"
  using round_upto_blk_least [of 9 1000] by (simp add: nvm_kv_round_upto_blk_def)

end
