(* ===== verification/KvTypes.thy ===== *)
theory KvTypes
  imports KvUtil
begin

text \<open>
  The data that the components share: the error codes of \<open>include/nvm_error.h\<close>, the limits
  and the public structures of \<open>include/nvm_kv.h\<close>, and the structures of
  \<open>src/kv_common.h\<close>. A C++ return code below zero is \<open>Inl e\<close> of the sum type
  \<open>'a res\<close>; \<open>err_code\<close> is the number the header gives to \<open>e\<close>.
  The key header and the store metadata are packed structures that the code overlays on raw
  sector buffers, so they come with the little-endian load and store of that layout, and the
  round trip between the two.
\<close>

section \<open>Error codes\<close>

datatype nvm_error =
    NVM_ERR_INVALID_HANDLE
  | NVM_ERR_DEVICE_NOT_FOUND
  | NVM_ERR_OUT_OF_MEMORY
  | NVM_ERR_INTERNAL_FAILURE
  | NVM_ERR_CAPABILITIES_NOT_SUPPORTED
  | NVM_ERR_NOT_IMPLEMENTED
  | NVM_ERR_FEATURE_NOT_SUPPORTED
  | NVM_ERR_OPERATION_NOT_SUPPORTED
  | NVM_ERR_OBJECT_EXISTS
  | NVM_ERR_IO
  | NVM_ERR_INVALID_INPUT
  | NVM_ERR_OBJECT_NOT_FOUND
  | NVM_ERR_MEMORY_NOT_ALIGNED
  | NVM_ERR_MAX_LIMIT_REACHED

type_synonym 'a res = "nvm_error + 'a"

fun err_code :: "nvm_error \<Rightarrow> int" where
  "err_code NVM_ERR_INVALID_HANDLE = 1"
| "err_code NVM_ERR_DEVICE_NOT_FOUND = 2"
| "err_code NVM_ERR_OUT_OF_MEMORY = 6"
| "err_code NVM_ERR_INTERNAL_FAILURE = 11"
| "err_code NVM_ERR_CAPABILITIES_NOT_SUPPORTED = 17"
| "err_code NVM_ERR_NOT_IMPLEMENTED = 18"
| "err_code NVM_ERR_FEATURE_NOT_SUPPORTED = 19"
| "err_code NVM_ERR_OPERATION_NOT_SUPPORTED = 25"
| "err_code NVM_ERR_OBJECT_EXISTS = 26"
| "err_code NVM_ERR_IO = 35"
| "err_code NVM_ERR_INVALID_INPUT = 36"
| "err_code NVM_ERR_OBJECT_NOT_FOUND = 85"
| "err_code NVM_ERR_MEMORY_NOT_ALIGNED = 86"
| "err_code NVM_ERR_MAX_LIMIT_REACHED = 87"

section \<open>Limits and public types\<close>

definition NVM_KV_MAX_KEY_SIZE :: nat where [kv_defs]: "NVM_KV_MAX_KEY_SIZE = 128"
definition NVM_KV_MAX_VALUE_SIZE :: nat where [kv_defs]: "NVM_KV_MAX_VALUE_SIZE = 1047552"
definition NVM_KV_MAX_POOLS :: nat where [kv_defs]: "NVM_KV_MAX_POOLS = 1048576"
definition NVM_KV_MIN_POOLS :: nat where [kv_defs]: "NVM_KV_MIN_POOLS = 1"
definition NVM_KV_MAX_ITERATORS :: nat where [kv_defs]: "NVM_KV_MAX_ITERATORS = 128"

record nvm_kv_key_info =
  ki_pool_id :: u32
  ki_key_len :: u32
  ki_value_len :: u32
  ki_expiry :: u32
  ki_gen_count :: u32

datatype nvm_kv_pool_status =
  POOL_NOT_IN_USE | POOL_IN_USE | POOL_DELETION_IN_PROGRESS | POOL_IS_INVALID

definition KV_DISABLE_EXPIRY :: u32 where [kv_defs]: "KV_DISABLE_EXPIRY = 0"
definition KV_ARBITRARY_EXPIRY :: u32 where [kv_defs]: "KV_ARBITRARY_EXPIRY = 1"
definition KV_GLOBAL_EXPIRY :: u32 where [kv_defs]: "KV_GLOBAL_EXPIRY = 2"

definition POOL_TAG_SIZE :: nat where [kv_defs]: "POOL_TAG_SIZE = 16"

section \<open>Device and store structures\<close>

record nvm_kv_store_capabilities =
  nvm_max_num_iovs :: nat
  nvm_atomic_write_multiplicity :: nat
  nvm_max_write_size_per_iov :: nat
  nvm_max_trim_size_per_iov :: nat
  nvm_sector_size :: nat
  nvm_max_num_logical_iter_ranges :: nat
  nvm_atomic_write_max_total_size :: nat

record nvm_kv_store_device =
  dev_fd :: int
  dev_handle :: int
  dev_caps :: nvm_kv_store_capabilities

record nvm_kv_key_metadata =
  md_num_key :: u64
  md_gen_count :: u32
  md_expiry :: u32

record nvm_kv_header =
  hdr_metadata_len :: u32
  hdr_key_len :: u32
  hdr_value_len :: u32
  hdr_value_offset :: u32
  hdr_pool_id :: u32
  hdr_reserved :: u32
  hdr_metadata :: nvm_kv_key_metadata

record nvm_kv_store_metadata =
  sm_kv_store_id :: u64
  sm_kv_store_stamp :: u64
  sm_num_keys :: u64
  sm_vsu_id :: u32
  sm_version :: u32
  sm_max_pools :: u32
  sm_max_key_size :: u32
  sm_max_value_size :: u32
  sm_total_no_pools :: u32
  sm_kv_revision :: u32
  sm_expiry_mode :: u32
  sm_global_expiry :: u32
  sm_reserved :: u32

record nvm_kv_cache_entry =
  ce_key :: bytes
  ce_key_len :: u32
  ce_value_len :: u32
  ce_pool_id :: u32
  ce_expiry :: u32
  ce_gen_count :: u32
  ce_index :: u64
  ce_lba :: u64
  ce_ts :: int

datatype nvm_kv_entry_state =
  CACHE_ENTRY_NOT_FOUND | CACHE_ENTRY_EMPTY | CACHE_ENTRY_FOUND | CACHE_ENTRY_DELETE

record nvm_kv_cache_context =
  cc_entry :: nvm_kv_cache_entry
  cc_state :: nvm_kv_entry_state
  cc_expired :: bool

datatype nvm_kv_api =
    KVCREATE | KVPUT | KVGET | KVDELETE | KVPOOLCREATE | KVGETPOOLINFO | KVPOOLDELETE
  | KVDELETEALL | KVCLOSE | KVEXISTS | KVBATCHGET | KVBATCHPUT | KVBEGIN | KVNEXT
  | KVGETCURRENT | KVITEREND | KVGETSTOREINFO | KVGETKEYINFO | KVDELETEWRAPPER
  | KVGETVALLEN | KVSETEXPIRY | KVGETEXPIRY | KVGETPOOLMETADATA

section \<open>Packed layouts\<close>

definition M_KV_HEADER_SIZE :: nat where [kv_defs]: "M_KV_HEADER_SIZE = 40"
definition KV_STORE_METADATA_SIZE :: nat where [kv_defs]: "KV_STORE_METADATA_SIZE = 64"

definition header_bytes :: "nvm_kv_header \<Rightarrow> bytes" where
  "header_bytes h =
     le_bytes 4 (hdr_metadata_len h) @ le_bytes 4 (hdr_key_len h) @
     le_bytes 4 (hdr_value_len h) @ le_bytes 4 (hdr_value_offset h) @
     le_bytes 4 (hdr_pool_id h) @ le_bytes 4 (hdr_reserved h) @
     le_bytes 8 (md_num_key (hdr_metadata h)) @ le_bytes 4 (md_gen_count (hdr_metadata h)) @
     le_bytes 4 (md_expiry (hdr_metadata h))"

definition load_header :: "bytes \<Rightarrow> nvm_kv_header" where
  "load_header buf =
     \<lparr>hdr_metadata_len = le_word (mem_read 0 4 buf),
      hdr_key_len = le_word (mem_read 4 4 buf),
      hdr_value_len = le_word (mem_read 8 4 buf),
      hdr_value_offset = le_word (mem_read 12 4 buf),
      hdr_pool_id = le_word (mem_read 16 4 buf),
      hdr_reserved = le_word (mem_read 20 4 buf),
      hdr_metadata =
        \<lparr>md_num_key = le_word (mem_read 24 8 buf),
         md_gen_count = le_word (mem_read 32 4 buf),
         md_expiry = le_word (mem_read 36 4 buf)\<rparr>\<rparr>"

definition store_header :: "nvm_kv_header \<Rightarrow> bytes \<Rightarrow> bytes" where
  "store_header h buf = memcpy 0 (header_bytes h) buf"

definition metadata_bytes :: "nvm_kv_store_metadata \<Rightarrow> bytes" where
  "metadata_bytes m =
     le_bytes 8 (sm_kv_store_id m) @ le_bytes 8 (sm_kv_store_stamp m) @
     le_bytes 8 (sm_num_keys m) @ le_bytes 4 (sm_vsu_id m) @ le_bytes 4 (sm_version m) @
     le_bytes 4 (sm_max_pools m) @ le_bytes 4 (sm_max_key_size m) @
     le_bytes 4 (sm_max_value_size m) @ le_bytes 4 (sm_total_no_pools m) @
     le_bytes 4 (sm_kv_revision m) @ le_bytes 4 (sm_expiry_mode m) @
     le_bytes 4 (sm_global_expiry m) @ le_bytes 4 (sm_reserved m)"

definition load_metadata :: "bytes \<Rightarrow> nvm_kv_store_metadata" where
  "load_metadata buf =
     \<lparr>sm_kv_store_id = le_word (mem_read 0 8 buf),
      sm_kv_store_stamp = le_word (mem_read 8 8 buf),
      sm_num_keys = le_word (mem_read 16 8 buf),
      sm_vsu_id = le_word (mem_read 24 4 buf),
      sm_version = le_word (mem_read 28 4 buf),
      sm_max_pools = le_word (mem_read 32 4 buf),
      sm_max_key_size = le_word (mem_read 36 4 buf),
      sm_max_value_size = le_word (mem_read 40 4 buf),
      sm_total_no_pools = le_word (mem_read 44 4 buf),
      sm_kv_revision = le_word (mem_read 48 4 buf),
      sm_expiry_mode = le_word (mem_read 52 4 buf),
      sm_global_expiry = le_word (mem_read 56 4 buf),
      sm_reserved = le_word (mem_read 60 4 buf)\<rparr>"

lemma err_code_pos: "0 < err_code e"
  by (cases e) simp_all

lemma err_code_inj: "err_code e = err_code e' \<Longrightarrow> e = e'"
  by (cases e; cases e') simp_all

lemma length_header_bytes [simp]: "length (header_bytes h) = M_KV_HEADER_SIZE"
  by (simp add: header_bytes_def M_KV_HEADER_SIZE_def)

lemma metadata_len:
  assumes "9 \<le> k" "k \<le> 20"
  shows "rnd KV_STORE_METADATA_SIZE (2 ^ k) = 2 ^ k"
proof (rule antisym)
  have pow: "(2::nat) ^ 9 \<le> 2 ^ k" "(2::nat) ^ k \<le> 2 ^ 20" using assms by (intro power_increasing; simp)+
  then have fit: "KV_STORE_METADATA_SIZE + 2 ^ k \<le> 2 ^ 64" by (simp add: KV_STORE_METADATA_SIZE_def)
  show "rnd KV_STORE_METADATA_SIZE (2 ^ k) \<le> 2 ^ k"
    using assms fit pow(1) by (intro rnd_least) (simp_all add: KV_STORE_METADATA_SIZE_def)
  show "2 ^ k \<le> rnd KV_STORE_METADATA_SIZE (2 ^ k)"
    using assms fit rnd_pos [of k KV_STORE_METADATA_SIZE] rnd_bounds(3) [of k KV_STORE_METADATA_SIZE]
    by (intro dvd_imp_le) (simp_all add: KV_STORE_METADATA_SIZE_def)
qed

lemma length_metadata_bytes [simp]: "length (metadata_bytes m) = KV_STORE_METADATA_SIZE"
  by (simp add: metadata_bytes_def KV_STORE_METADATA_SIZE_def)

lemma mem_read_at: "length pre = off \<Longrightarrow> length x = n \<Longrightarrow> mem_read off n (pre @ x @ post) = x"
  by (simp add: mem_read_def)

lemma load_header_bytes: "load_header (header_bytes h @ rest) = h"
  by (cases h) (simp add: load_header_def header_bytes_def mem_read_def
      le_word_le_bytes32 le_word_le_bytes64)

lemma load_store_header: "load_header (store_header h buf) = h"
  by (simp add: store_header_def memcpy_def load_header_bytes)

lemma load_metadata_bytes: "load_metadata (metadata_bytes m @ rest) = m"
  by (cases m) (simp add: load_metadata_def metadata_bytes_def mem_read_def
      le_word_le_bytes32 le_word_le_bytes64)

lemma length_store_header [simp]:
  "M_KV_HEADER_SIZE \<le> length buf \<Longrightarrow> length (store_header h buf) = length buf"
  by (simp add: store_header_def length_memcpy)

lemma load_header_cong:
  "take M_KV_HEADER_SIZE b = take M_KV_HEADER_SIZE b' \<Longrightarrow> load_header b = load_header b'"
proof -
  assume eq: "take M_KV_HEADER_SIZE b = take M_KV_HEADER_SIZE b'"
  have "mem_read off n b = mem_read off n b'" if "off + n \<le> M_KV_HEADER_SIZE" for off n
    using that eq mem_read_take by metis
  then show ?thesis
    by (simp add: load_header_def M_KV_HEADER_SIZE_def)
qed

end
