(* ===== verification/BufferPool.thy ===== *)
theory BufferPool
  imports KvTypes
begin

text \<open>
  The buffer pool of \<open>util/kv_buffer_pool.cpp\<close>: two parallel vectors, of buffers and of
  their sizes, used as a stack. A buffer is an address with the bytes stored there, \<open>None\<close> a null pointer;
  \<open>memalign\<close>, the outcome of \<open>posix_memalign\<close> for a size, is a parameter.
  \<open>get_buf\<close> is \<open>None\<close> where the code goes to sleep on the condition variable.
  The step relation \<open>bp_step\<close> lets a fixed set of threads get and release buffers with
  the wakeup rule of \<open>release_buf\<close> (a signal only when the pool was empty).
\<close>

record membuf =
  mb_addr :: u64
  mb_mem :: bytes

definition M_MAX_BUFFERS :: nat where "M_MAX_BUFFERS = 4096"
definition M_BUFFER_LIMIT :: nat where "M_BUFFER_LIMIT = 4096"
definition M_BUFFER_PAGE_ALIGN :: nat where "M_BUFFER_PAGE_ALIGN = 4096"

record nvm_kv_buffer_pool =
  m_buffers :: "membuf option list"
  m_buffer_sizes :: "nat list"
  m_num_buffers :: nat
  m_buffer_limit :: nat
  m_buffer_alignment :: nat
  m_initialized :: bool

fun bp_alloc_loop ::
  "(nat \<Rightarrow> membuf option) \<Rightarrow> nat \<Rightarrow> nat \<Rightarrow> nvm_kv_buffer_pool \<Rightarrow> bool \<times> nvm_kv_buffer_pool" where
  "bp_alloc_loop memalign buffer_limit 0 bp = (True, bp)"
| "bp_alloc_loop memalign buffer_limit (Suc n) bp =
     (case memalign buffer_limit of
        None \<Rightarrow> (False, bp)
      | Some buffer \<Rightarrow>
          bp_alloc_loop memalign buffer_limit n
            (bp\<lparr>m_buffers := m_buffers bp @ [Some buffer],
                m_buffer_sizes := m_buffer_sizes bp @ [buffer_limit]\<rparr>))"

definition bp_initialize ::
  "(nat \<Rightarrow> membuf option) \<Rightarrow> nat \<Rightarrow> nat \<Rightarrow> nat \<Rightarrow> nvm_kv_buffer_pool
     \<Rightarrow> unit res \<times> nvm_kv_buffer_pool" where
  "bp_initialize memalign num_buffers buffer_limit buffer_alignment bp =
     (if m_initialized bp then (Inr (), bp)
      else if num_buffers > M_MAX_BUFFERS then (Inl NVM_ERR_MAX_LIMIT_REACHED, bp)
      else
        (case bp_alloc_loop memalign buffer_limit num_buffers bp of
           (False, bp') \<Rightarrow> (Inl NVM_ERR_OUT_OF_MEMORY, bp')
         | (True, bp') \<Rightarrow>
             (Inr (), bp'\<lparr>m_num_buffers := num_buffers, m_buffer_limit := buffer_limit,
                          m_buffer_alignment := buffer_alignment, m_initialized := True\<rparr>)))"

definition get_buf ::
  "(nat \<Rightarrow> membuf option) \<Rightarrow> nat \<Rightarrow> nvm_kv_buffer_pool
     \<Rightarrow> (membuf option \<times> nat \<times> nvm_kv_buffer_pool) option" where
  "get_buf memalign sz bp =
     (if m_buffers bp = [] then None
      else
        (let buffer = last (m_buffers bp);
             buffer_size = last (m_buffer_sizes bp);
             bp' = bp\<lparr>m_buffers := butlast (m_buffers bp),
                      m_buffer_sizes := butlast (m_buffer_sizes bp)\<rparr>
         in if buffer_size < sz then
              (case memalign sz of
                 None \<Rightarrow> Some (None, 0, bp)
               | Some new_buffer \<Rightarrow> Some (Some new_buffer, sz, bp'))
            else Some (buffer, buffer_size, bp')))"

definition get_buf_size_limit :: "nvm_kv_buffer_pool \<Rightarrow> nat" where
  "get_buf_size_limit bp = m_buffer_limit bp"

definition release_buf ::
  "membuf option \<Rightarrow> nat \<Rightarrow> nvm_kv_buffer_pool \<Rightarrow> nvm_kv_buffer_pool \<times> bool" where
  "release_buf buff sz bp =
     (let isEmpty = (m_buffers bp = [])
      in (bp\<lparr>m_buffers := m_buffers bp @ [buff], m_buffer_sizes := m_buffer_sizes bp @ [sz]\<rparr>,
          isEmpty))"

section \<open>Well-formed pools\<close>

definition buf_ok :: "membuf option \<Rightarrow> nat \<Rightarrow> bool" where
  "buf_ok b n \<longleftrightarrow> (case b of None \<Rightarrow> False | Some mb \<Rightarrow> length (mb_mem mb) = n)"

definition bp_wf :: "nvm_kv_buffer_pool \<Rightarrow> bool" where
  "bp_wf bp \<longleftrightarrow> list_all2 buf_ok (m_buffers bp) (m_buffer_sizes bp)"

definition memalign_ok :: "(nat \<Rightarrow> membuf option) \<Rightarrow> bool" where
  "memalign_ok memalign \<longleftrightarrow> (\<forall>n mb. memalign n = Some mb \<longrightarrow> length (mb_mem mb) = n)"

lemma bp_wf_length: "bp_wf bp \<Longrightarrow> length (m_buffer_sizes bp) = length (m_buffers bp)"
  by (simp add: bp_wf_def list_all2_lengthD)

lemma list_all2_snoc: "list_all2 P (xs @ [x]) (ys @ [y]) \<longleftrightarrow> list_all2 P xs ys \<and> P x y"
proof (cases "length xs = length ys")
  case True
  then show ?thesis by (simp add: list_all2_append)
next
  case False
  then show ?thesis by (auto dest: list_all2_lengthD)
qed

lemma list_all2_butlast_last:
  assumes "list_all2 P xs ys" and "xs \<noteq> []"
  shows "list_all2 P (butlast xs) (butlast ys) \<and> P (last xs) (last ys)"
proof -
  have "ys \<noteq> []" using assms by (auto dest: list_all2_lengthD)
  then have "xs = butlast xs @ [last xs]" and "ys = butlast ys @ [last ys]"
    using assms(2) by simp_all
  then show ?thesis using assms(1) list_all2_snoc by metis
qed

lemma bp_alloc_loop_wf:
  "memalign_ok memalign \<Longrightarrow> bp_wf bp \<Longrightarrow> bp_alloc_loop memalign lim n bp = (ok, bp') \<Longrightarrow>
   bp_wf bp' \<and> (ok \<longrightarrow> length (m_buffers bp') = length (m_buffers bp) + n)"
proof (induction n arbitrary: bp)
  case 0
  then show ?case by simp
next
  case (Suc n)
  show ?case
  proof (cases "memalign lim")
    case None
    with Suc.prems show ?thesis by simp
  next
    case (Some b)
    let ?bp = "bp\<lparr>m_buffers := m_buffers bp @ [Some b], m_buffer_sizes := m_buffer_sizes bp @ [lim]\<rparr>"
    have "bp_wf ?bp"
      using Suc.prems(1,2) Some by (simp add: bp_wf_def list_all2_snoc buf_ok_def memalign_ok_def)
    from Suc.IH [OF Suc.prems(1) this] Suc.prems(3) Some show ?thesis by simp
  qed
qed

lemma get_buf_wf:
  assumes "memalign_ok memalign" and "bp_wf bp" and "get_buf memalign n bp = Some (b, r, bp')"
  shows "bp_wf bp' \<and> (b \<noteq> None \<longrightarrow> buf_ok b r \<and> n \<le> r \<and>
           length (m_buffers bp) = Suc (length (m_buffers bp'))) \<and> (b = None \<longrightarrow> bp' = bp \<and> r = 0)"
proof -
  from assms(3) have ne: "m_buffers bp \<noteq> []" by (auto simp: get_buf_def split: if_splits)
  with assms(2) have bl: "list_all2 buf_ok (butlast (m_buffers bp)) (butlast (m_buffer_sizes bp))"
    and la: "buf_ok (last (m_buffers bp)) (last (m_buffer_sizes bp))"
    using list_all2_butlast_last unfolding bp_wf_def by blast+
  show ?thesis
  proof (cases "last (m_buffer_sizes bp) < n")
    case True
    show ?thesis
    proof (cases "memalign n")
      case None
      with True assms ne show ?thesis by (auto simp: get_buf_def Let_def)
    next
      case (Some nb)
      with True assms(3) ne have "b = Some nb" "r = n"
        "bp' = bp\<lparr>m_buffers := butlast (m_buffers bp), m_buffer_sizes := butlast (m_buffer_sizes bp)\<rparr>"
        by (simp_all add: get_buf_def Let_def)
      then show ?thesis
        using assms(1) ne bl Some by (simp add: bp_wf_def buf_ok_def memalign_ok_def)
    qed
  next
    case False
    with assms(3) ne la have "b = last (m_buffers bp)" "r = last (m_buffer_sizes bp)" "b \<noteq> None"
      "bp' = bp\<lparr>m_buffers := butlast (m_buffers bp), m_buffer_sizes := butlast (m_buffer_sizes bp)\<rparr>"
      by (auto simp: get_buf_def Let_def buf_ok_def split: option.splits)
    then show ?thesis using False la bl ne by (auto simp: bp_wf_def)
  qed
qed

lemma release_buf_wf:
  "bp_wf bp \<Longrightarrow> buf_ok b n \<Longrightarrow> release_buf b n bp = (bp', sig) \<Longrightarrow>
   bp_wf bp' \<and> length (m_buffers bp') = Suc (length (m_buffers bp)) \<and> (sig \<longleftrightarrow> m_buffers bp = [])"
  by (auto simp: release_buf_def Let_def bp_wf_def list_all2_snoc)

section \<open>Threads around a pool\<close>

datatype bp_thread =
    Running
  | Wanting nat
  | Blocked nat
  | Holding "membuf option" nat

record bp_state =
  bs_pool :: nvm_kv_buffer_pool
  bs_threads :: "bp_thread list"

inductive bp_step :: "(nat \<Rightarrow> membuf option) \<Rightarrow> bp_state \<Rightarrow> bp_state \<Rightarrow> bool"
  for memalign :: "nat \<Rightarrow> membuf option" where
  call_get:
    "t < length (bs_threads s) \<Longrightarrow> bs_threads s ! t = Running \<Longrightarrow>
     bp_step memalign s (s\<lparr>bs_threads := (bs_threads s)[t := Wanting n]\<rparr>)"
| get_ok:
    "t < length (bs_threads s) \<Longrightarrow> bs_threads s ! t = Wanting n \<Longrightarrow>
     get_buf memalign n (bs_pool s) = Some (Some b, r, bp') \<Longrightarrow>
     bp_step memalign s (s\<lparr>bs_pool := bp', bs_threads := (bs_threads s)[t := Holding (Some b) r]\<rparr>)"
| get_null:
    "t < length (bs_threads s) \<Longrightarrow> bs_threads s ! t = Wanting n \<Longrightarrow>
     get_buf memalign n (bs_pool s) = Some (None, r, bp') \<Longrightarrow>
     bp_step memalign s (s\<lparr>bs_pool := bp', bs_threads := (bs_threads s)[t := Running]\<rparr>)"
| get_block:
    "t < length (bs_threads s) \<Longrightarrow> bs_threads s ! t = Wanting n \<Longrightarrow>
     get_buf memalign n (bs_pool s) = None \<Longrightarrow>
     bp_step memalign s (s\<lparr>bs_threads := (bs_threads s)[t := Blocked n]\<rparr>)"
| release_quiet:
    "t < length (bs_threads s) \<Longrightarrow> bs_threads s ! t = Holding b r \<Longrightarrow>
     release_buf b r (bs_pool s) = (bp', sig) \<Longrightarrow>
     \<not> sig \<or> (\<forall>u < length (bs_threads s). \<forall>n. bs_threads s ! u \<noteq> Blocked n) \<Longrightarrow>
     bp_step memalign s (s\<lparr>bs_pool := bp', bs_threads := (bs_threads s)[t := Running]\<rparr>)"
| release_signal:
    "t < length (bs_threads s) \<Longrightarrow> bs_threads s ! t = Holding b r \<Longrightarrow>
     release_buf b r (bs_pool s) = (bp', True) \<Longrightarrow>
     u < length (bs_threads s) \<Longrightarrow> bs_threads s ! u = Blocked n \<Longrightarrow>
     bp_step memalign s (s\<lparr>bs_pool := bp',
                           bs_threads := ((bs_threads s)[t := Running])[u := Wanting n]\<rparr>)"

inductive bp_reach :: "(nat \<Rightarrow> membuf option) \<Rightarrow> bp_state \<Rightarrow> bp_state \<Rightarrow> bool"
  for memalign :: "nat \<Rightarrow> membuf option" where
  bp_refl: "bp_reach memalign s s"
| bp_more: "bp_reach memalign s s' \<Longrightarrow> bp_step memalign s' s'' \<Longrightarrow> bp_reach memalign s s''"

fun holds :: "bp_thread \<Rightarrow> bool" where
  "holds (Holding b r) = True"
| "holds _ = False"

fun held_ok :: "bp_thread \<Rightarrow> bool" where
  "held_ok (Holding b r) = buf_ok b r"
| "held_ok _ = True"

definition bp_total :: "bp_state \<Rightarrow> nat" where
  "bp_total s = length (m_buffers (bs_pool s)) + length (filter holds (bs_threads s))"

definition bs_wf :: "bp_state \<Rightarrow> bool" where
  "bs_wf s \<longleftrightarrow> bp_wf (bs_pool s) \<and> list_all held_ok (bs_threads s)"

lemma filter_update_count:
  "t < length xs \<Longrightarrow>
   length (filter P (xs[t := x])) + (if P (xs ! t) then 1 else 0) =
   length (filter P xs) + (if P x then 1 else 0)"
proof (induction xs arbitrary: t)
  case Nil
  then show ?case by simp
next
  case (Cons y ys)
  then show ?case by (cases t) (auto split: if_splits)
qed

lemma list_all_update: "list_all P xs \<Longrightarrow> P x \<Longrightarrow> list_all P (xs[t := x])"
  by (auto simp: list_all_iff dest!: set_update_subset_insert [THEN subsetD])

lemma bp_step_conserves:
  assumes "bp_step memalign s s'" and "memalign_ok memalign" and "bs_wf s"
  shows "bs_wf s' \<and> bp_total s' = bp_total s"
  using assms
proof (induction rule: bp_step.induct)
  case (call_get t s n)
  then show ?case
    using filter_update_count [of t "bs_threads s" holds "Wanting n"]
    by (simp add: bs_wf_def bp_total_def list_all_update)
next
  case (get_ok t s n b r bp')
  then show ?case
    using get_buf_wf [of memalign "bs_pool s" n "Some b" r bp']
      filter_update_count [of t "bs_threads s" holds "Holding (Some b) r"]
    by (simp add: bs_wf_def bp_total_def list_all_update)
next
  case (get_null t s n r bp')
  then show ?case
    using get_buf_wf [of memalign "bs_pool s" n None r bp']
      filter_update_count [of t "bs_threads s" holds Running]
    by (simp add: bs_wf_def bp_total_def list_all_update)
next
  case (get_block t s n)
  then show ?case
    using filter_update_count [of t "bs_threads s" holds "Blocked n"]
    by (simp add: bs_wf_def bp_total_def list_all_update)
next
  case (release_quiet t s b r bp' sig)
  then have "buf_ok b r" by (auto simp: bs_wf_def list_all_length)
  then show ?case
    using release_quiet release_buf_wf [of "bs_pool s" b r bp' sig]
      filter_update_count [of t "bs_threads s" holds Running]
    by (simp add: bs_wf_def bp_total_def list_all_update)
next
  case (release_signal t s b r bp' u n)
  then have ok: "buf_ok b r" by (auto simp: bs_wf_def list_all_length)
  have "u \<noteq> t" using release_signal by auto
  then show ?case
    using ok release_signal release_buf_wf [of "bs_pool s" b r bp' True]
      filter_update_count [of t "bs_threads s" holds Running]
      filter_update_count [of u "(bs_threads s)[t := Running]" holds "Wanting n"]
    by (simp add: bs_wf_def bp_total_def list_all_update)
qed

lemma bp_reach_conserves:
  assumes "bp_reach memalign s s'" and "memalign_ok memalign" and "bs_wf s"
  shows "bs_wf s' \<and> bp_total s' = bp_total s"
  using assms
proof (induction rule: bp_reach.induct)
  case (bp_refl s)
  then show ?case by simp
next
  case (bp_more s s' s'')
  then show ?case using bp_step_conserves by fastforce
qed

section \<open>Properties\<close>

text \<open>
  C26: no buffer is lost or made up. Under every interleaving of threads that get and release
  buffers, the buffers in the pool and the ones in the hands of threads add up to the number at
  the start, every one of them is as long as the size recorded for it (also after an exchange
  for a larger one), and a pointer is never null.
\<close>

theorem buffer_pool_conserves:
  assumes "memalign_ok memalign" and "bs_wf s" and "bp_reach memalign s s'"
  shows "bs_wf s' \<and>
         length (m_buffers (bs_pool s')) + length (filter holds (bs_threads s')) =
         length (m_buffers (bs_pool s)) + length (filter holds (bs_threads s))"
  using bp_reach_conserves [OF assms(3,1,2)] by (simp add: bp_total_def)

definition one_byte_alloc :: "nat \<Rightarrow> membuf option" where
  "one_byte_alloc n = Some \<lparr>mb_addr = 0, mb_mem = zeros n\<rparr>"

definition four_threads :: "bp_thread list \<Rightarrow> nat \<Rightarrow> bp_state" where
  "four_threads ts n =
     \<lparr>bs_pool = \<lparr>m_buffers = replicate n (one_byte_alloc 1), m_buffer_sizes = replicate n 1,
        m_num_buffers = 2, m_buffer_limit = 1, m_buffer_alignment = 4096, m_initialized = True\<rparr>,
      bs_threads = ts\<rparr>"

abbreviation holding_one :: bp_thread where
  "holding_one \<equiv> Holding (one_byte_alloc 1) 1"

lemma butlast_replicate_Suc: "butlast (replicate (Suc n) x) = replicate n x"
  by (metis butlast_snoc replicate_Suc replicate_append_same)

lemma four_get:
  "t < length ts \<Longrightarrow> ts ! t = Wanting 1 \<Longrightarrow>
   bp_step one_byte_alloc (four_threads ts (Suc n)) (four_threads (ts[t := holding_one]) n)"
  using get_ok [of t "four_threads ts (Suc n)" 1 one_byte_alloc "the (one_byte_alloc 1)" 1]
  by (simp add: four_threads_def get_buf_def one_byte_alloc_def butlast_replicate_Suc
      del: replicate_Suc)

lemma four_block:
  "t < length ts \<Longrightarrow> ts ! t = Wanting 1 \<Longrightarrow>
   bp_step one_byte_alloc (four_threads ts 0) (four_threads (ts[t := Blocked 1]) 0)"
  using get_block [of t "four_threads ts 0" 1 one_byte_alloc]
  by (simp add: four_threads_def get_buf_def)

lemma four_release:
  "t < length ts \<Longrightarrow> ts ! t = holding_one \<Longrightarrow>
   bp_step one_byte_alloc (four_threads ts (Suc n)) (four_threads (ts[t := Running]) (Suc (Suc n)))"
  using release_quiet [of t "four_threads ts (Suc n)" "one_byte_alloc 1" 1 _ False one_byte_alloc]
  by (simp add: four_threads_def release_buf_def replicate_append_same)

lemma four_release_signal:
  "t < length ts \<Longrightarrow> ts ! t = holding_one \<Longrightarrow> u < length ts \<Longrightarrow> ts ! u = Blocked 1 \<Longrightarrow>
   bp_step one_byte_alloc (four_threads ts 0) (four_threads ((ts[t := Running])[u := Wanting 1]) (Suc 0))"
  using release_signal [of t "four_threads ts 0" "one_byte_alloc 1" 1 _ u 1 one_byte_alloc]
  by (simp add: four_threads_def release_buf_def)

theorem buffer_pool_conserves_witness:
  "\<exists>s'. bp_reach one_byte_alloc (four_threads [Wanting 1, Running, Running, Running] 2) s' \<and>
     bs_threads s' ! 0 = holding_one \<and> bs_wf s' \<and>
     length (m_buffers (bs_pool s')) + length (filter holds (bs_threads s')) = 2"
proof -
  let ?s = "four_threads [Wanting 1, Running, Running, Running] 2"
  let ?s' = "four_threads [holding_one, Running, Running, Running] (Suc 0)"
  have "bp_step one_byte_alloc ?s ?s'"
    using four_get [of 0 "[Wanting 1, Running, Running, Running]" "Suc 0"] by (simp add: numeral_2_eq_2)
  then have r: "bp_reach one_byte_alloc ?s ?s'" by (rule bp_more [OF bp_refl])
  have "memalign_ok one_byte_alloc" by (simp add: memalign_ok_def one_byte_alloc_def)
  moreover have "bs_wf ?s"
    by (simp add: bs_wf_def four_threads_def bp_wf_def numeral_2_eq_2 buf_ok_def one_byte_alloc_def)
  moreover have "bs_threads ?s' ! 0 = holding_one"
    "length (m_buffers (bs_pool ?s)) + length (filter holds (bs_threads ?s)) = 2"
    by (simp_all add: four_threads_def)
  ultimately show ?thesis using buffer_pool_conserves [OF _ _ r] r by auto
qed

text \<open>
  A wakeup can be lost. \<open>release_buf\<close> signals only when the pool was empty, so with two
  threads waiting, a second release that comes before the first waiter has run wakes nobody: a
  state is reachable in which every buffer is back in the pool, no thread holds or wants one, and
  a thread is still blocked in \<open>get_buf\<close>.
\<close>

theorem buffer_pool_lost_wakeup:
  "\<exists>s'. bp_reach one_byte_alloc (four_threads [holding_one, holding_one, Wanting 1, Wanting 1] 0) s' \<and>
     length (m_buffers (bs_pool s')) = m_num_buffers (bs_pool s') \<and>
     bs_threads s' = [Running, Running, Running, Blocked 1]"
proof -
  let ?F = four_threads
  let ?R = "bp_reach one_byte_alloc (?F [holding_one, holding_one, Wanting 1, Wanting 1] 0)"
  have "?R (?F [holding_one, holding_one, Blocked 1, Wanting 1] 0)"
    using bp_more [OF bp_refl four_block [of 2 "[holding_one, holding_one, Wanting 1, Wanting 1]"]]
    by simp
  then have "?R (?F [holding_one, holding_one, Blocked 1, Blocked 1] 0)"
    using bp_more [OF _ four_block [of 3 "[holding_one, holding_one, Blocked 1, Wanting 1]"]] by simp
  then have "?R (?F [Running, holding_one, Wanting 1, Blocked 1] 1)"
    using bp_more [OF _ four_release_signal [of 0 "[holding_one, holding_one, Blocked 1, Blocked 1]" 2]]
    by simp
  then have "?R (?F [Running, Running, Wanting 1, Blocked 1] (Suc 1))"
    using bp_more [OF _ four_release [of 1 "[Running, holding_one, Wanting 1, Blocked 1]" 0]] by simp
  then have "?R (?F [Running, Running, holding_one, Blocked 1] 1)"
    using bp_more [OF _ four_get [of 2 "[Running, Running, Wanting 1, Blocked 1]" 1]] by simp
  then have "?R (?F [Running, Running, Running, Blocked 1] (Suc 1))"
    using bp_more [OF _ four_release [of 2 "[Running, Running, holding_one, Blocked 1]" 0]] by simp
  then show ?thesis by (intro exI conjI, assumption) (simp_all add: four_threads_def)
qed

end
