(* ===== verification/Device.thy ===== *)
theory Device
  imports BufferPool
begin

text \<open>
  The boundary to the device: \<open>src/kv_wrappers.cpp\<close>. The NVM primitives, the vectored
  reads and writes of the operating system, the allocators and the clock are not part of the
  repository: they are the fields of \<open>nvm_env\<close>, a parameter of every definition that uses
  them, over an outside world \<open>'w\<close>. What the proofs need of them is the predicate
  \<open>dev_laws\<close>: a batch is applied to the sectors as a whole or not at all, and a read
  returns the stored sectors, with zeros where nothing is stored.
\<close>

datatype iov_opcode = NVM_IOV_WRITE | NVM_IOV_TRIM

record nvm_iovec =
  iov_base :: u64
  iov_len :: nat
  iov_lba :: u64
  iov_opcode :: iov_opcode
  iov_data :: bytes

record nvm_block_range =
  br_start_lba :: u64
  br_length :: nat

record nvm_logical_range_iter =
  it_range_to_iterate :: nvm_block_range
  it_filter_mask :: u64
  it_filter_pattern :: u64
  it_filter_expiry :: int
  it_max_ranges :: nat
  it_ranges :: "nvm_block_range list"

record nvm_capacity =
  cp_total_phys :: nat
  cp_used_phys :: nat
  cp_total_logical :: nat

record 'w nvm_env =
  env_batch_atomic :: "int \<Rightarrow> nvm_iovec list \<Rightarrow> 'w \<Rightarrow> int \<times> 'w"
  env_pwritev :: "int \<Rightarrow> bytes list \<Rightarrow> nat \<Rightarrow> 'w \<Rightarrow> int \<times> 'w"
  env_preadv :: "int \<Rightarrow> nat list \<Rightarrow> nat \<Rightarrow> 'w \<Rightarrow> bytes option"
  env_range_exists :: "int \<Rightarrow> u64 \<Rightarrow> nat \<Rightarrow> 'w \<Rightarrow> nvm_block_range option"
  env_block_exists :: "int \<Rightarrow> u64 \<Rightarrow> 'w \<Rightarrow> int"
  env_range_iter ::
    "int \<Rightarrow> nvm_logical_range_iter \<Rightarrow> 'w \<Rightarrow> int \<times> nvm_logical_range_iter"
  env_capacity :: "int \<Rightarrow> 'w \<Rightarrow> nvm_capacity option"
  env_time :: "'w \<Rightarrow> nat"
  env_memalign :: "'w \<Rightarrow> nat \<Rightarrow> membuf option"
  env_new_iovs :: "'w \<Rightarrow> nat \<Rightarrow> nvm_iovec list option"

definition nvm_writev ::
  "'w nvm_env \<Rightarrow> nvm_kv_store_device \<Rightarrow> nvm_iovec list \<Rightarrow> nat \<Rightarrow> bool \<Rightarrow> 'w \<Rightarrow> int res \<times> 'w" where
  "nvm_writev E device iovec iov_count nvm_atomic_op w =
     (let written =
        (if nvm_atomic_op then
           Inr (env_batch_atomic E (dev_handle device) (take iov_count iovec) w)
         else if iov_count > nvm_max_num_iovs (dev_caps device) then Inl NVM_ERR_INVALID_INPUT
         else
           (case env_new_iovs E w (nvm_max_num_iovs (dev_caps device)) of
              None \<Rightarrow> Inl NVM_ERR_OUT_OF_MEMORY
            | Some _ \<Rightarrow>
                (let offset = unat (iov_lba (iovec ! 0)) * nvm_sector_size (dev_caps device);
                     iovs = map iov_data (take iov_count iovec)
                 in Inr (env_pwritev E (dev_fd device) iovs offset w))))
      in case written of
           Inl e \<Rightarrow> (Inl e, w)
         | Inr (ret_code, w') \<Rightarrow> (if ret_code < 0 then Inl NVM_ERR_IO else Inr ret_code, w'))"

definition nvm_readv ::
  "'w nvm_env \<Rightarrow> nvm_kv_store_device \<Rightarrow> nvm_iovec list \<Rightarrow> 'w \<Rightarrow> bytes res" where
  "nvm_readv E device iovec w =
     (let ss = nvm_sector_size (dev_caps device)
      in if length iovec > nvm_max_num_iovs (dev_caps device) then Inl NVM_ERR_INVALID_INPUT
         else
           (case env_new_iovs E w (nvm_max_num_iovs (dev_caps device)) of
              None \<Rightarrow> Inl NVM_ERR_OUT_OF_MEMORY
            | Some _ \<Rightarrow>
                (if \<exists>iov \<in> set iovec. iov_base iov AND of_nat (ss - 1) \<noteq> 0
                 then Inl NVM_ERR_MEMORY_NOT_ALIGNED
                 else
                   (let offset = unat (iov_lba (iovec ! 0)) * ss
                    in case env_preadv E (dev_fd device) (map iov_len iovec) offset w of
                         None \<Rightarrow> Inl NVM_ERR_IO
                       | Some got \<Rightarrow> Inr got))))"

section \<open>Sectors\<close>

type_synonym sectors = "nat \<Rightarrow> bytes option"

definition iov_first :: "nvm_iovec \<Rightarrow> nat" where
  "iov_first iov = unat (iov_lba iov)"

definition iov_sectors :: "nat \<Rightarrow> nvm_iovec \<Rightarrow> nat" where
  "iov_sectors ss iov = iov_len iov div ss"

definition iov_range :: "nat \<Rightarrow> nvm_iovec \<Rightarrow> nat set" where
  "iov_range ss iov = {iov_first iov ..< iov_first iov + iov_sectors ss iov}"

definition apply_iov :: "nat \<Rightarrow> sectors \<Rightarrow> nvm_iovec \<Rightarrow> sectors" where
  "apply_iov ss s iov =
     (\<lambda>n. if n \<in> iov_range ss iov
          then (case iov_opcode iov of
                  NVM_IOV_TRIM \<Rightarrow> None
                | NVM_IOV_WRITE \<Rightarrow> Some (mem_read ((n - iov_first iov) * ss) ss (iov_data iov)))
          else s n)"

fun disjoint_iovs :: "nat \<Rightarrow> nvm_iovec list \<Rightarrow> bool" where
  "disjoint_iovs ss [] = True"
| "disjoint_iovs ss (iov # iovs) =
     (list_all (\<lambda>x. iov_range ss iov \<inter> iov_range ss x = {}) iovs \<and> disjoint_iovs ss iovs)"

definition sector_at :: "nat \<Rightarrow> sectors \<Rightarrow> nat \<Rightarrow> bytes" where
  "sector_at ss s n = (case s n of None \<Rightarrow> zeros ss | Some bs \<Rightarrow> bs)"

definition read_sectors :: "nat \<Rightarrow> sectors \<Rightarrow> nat \<Rightarrow> nat \<Rightarrow> bytes" where
  "read_sectors ss s first n = concat (map (\<lambda>i. sector_at ss s (first + i)) [0..<n])"

definition batch_law :: "'w nvm_env \<Rightarrow> nvm_kv_store_device \<Rightarrow> ('w \<Rightarrow> sectors) \<Rightarrow> bool" where
  "batch_law E dev view \<longleftrightarrow>
     (\<forall>iovs w rc w'. env_batch_atomic E (dev_handle dev) iovs w = (rc, w') \<longrightarrow>
        (rc < 0 \<longrightarrow> view w' = view w) \<and>
        (0 \<le> rc \<longrightarrow> disjoint_iovs (nvm_sector_size (dev_caps dev)) iovs \<longrightarrow>
           view w' = foldl (apply_iov (nvm_sector_size (dev_caps dev))) (view w) iovs))"

definition read_law :: "'w nvm_env \<Rightarrow> nvm_kv_store_device \<Rightarrow> nat \<Rightarrow> ('w \<Rightarrow> sectors) \<Rightarrow> bool" where
  "read_law E dev capacity view \<longleftrightarrow>
     (\<forall>lens first n w.
        sum_list lens = n * nvm_sector_size (dev_caps dev) \<longrightarrow> first + n \<le> capacity \<longrightarrow>
        env_preadv E (dev_fd dev) lens (first * nvm_sector_size (dev_caps dev)) w =
          Some (read_sectors (nvm_sector_size (dev_caps dev)) (view w) first n))"

definition range_law :: "'w nvm_env \<Rightarrow> nvm_kv_store_device \<Rightarrow> nat \<Rightarrow> ('w \<Rightarrow> sectors) \<Rightarrow> bool" where
  "range_law E dev capacity view \<longleftrightarrow>
     (\<forall>lba n w found. unat lba + n \<le> capacity \<longrightarrow> env_range_exists E (dev_handle dev) lba n w = Some found \<longrightarrow>
        br_length found \<le> n \<and>
        (br_length found = 0 \<longleftrightarrow> (\<forall>i < n. view w (unat lba + i) = None)) \<and>
        (\<forall>m \<le> n. (\<forall>i < m. view w (unat lba + i) \<noteq> None) \<longrightarrow> m \<le> br_length found))"

definition alloc_law :: "'w nvm_env \<Rightarrow> bool" where
  "alloc_law E \<longleftrightarrow>
     (\<forall>w n. (\<exists>iovs. env_new_iovs E w n = Some iovs \<and> length iovs = n)) \<and>
     (\<forall>w. memalign_ok (env_memalign E w))"

definition dev_laws :: "'w nvm_env \<Rightarrow> nvm_kv_store_device \<Rightarrow> nat \<Rightarrow> ('w \<Rightarrow> sectors) \<Rightarrow> bool" where
  "dev_laws E dev capacity view \<longleftrightarrow>
     batch_law E dev view \<and> read_law E dev capacity view \<and> alloc_law E"

lemma nvm_writev_atomic_fail:
  assumes "batch_law E dev view" and "nvm_writev E dev iovec n True w = (Inl e, w')"
  shows "view w' = view w"
  using assms by (auto simp: nvm_writev_def batch_law_def Let_def split: prod.splits if_splits)

lemma nvm_writev_atomic_ok:
  assumes "batch_law E dev view" and "nvm_writev E dev iovec n True w = (Inr r, w')"
    and "disjoint_iovs (nvm_sector_size (dev_caps dev)) (take n iovec)"
  shows "view w' = foldl (apply_iov (nvm_sector_size (dev_caps dev))) (view w) (take n iovec)"
  using assms by (auto simp: nvm_writev_def batch_law_def Let_def split: prod.splits if_splits)

lemma foldl_apply_iov_outside:
  "(\<And>iov. iov \<in> set iovs \<Longrightarrow> n \<notin> iov_range ss iov) \<Longrightarrow> foldl (apply_iov ss) s iovs n = s n"
proof (induction iovs arbitrary: s)
  case Nil
  then show ?case by simp
next
  case (Cons iov iovs)
  then have "foldl (apply_iov ss) (apply_iov ss s iov) iovs n = apply_iov ss s iov n" by simp
  also have "\<dots> = s n" using Cons.prems [of iov] by (simp add: apply_iov_def)
  finally show ?case by simp
qed

lemma foldl_apply_iov_inside:
  "disjoint_iovs ss iovs \<Longrightarrow> iov \<in> set iovs \<Longrightarrow> n \<in> iov_range ss iov \<Longrightarrow>
   foldl (apply_iov ss) s iovs n = apply_iov ss s' iov n"
proof (induction iovs arbitrary: s)
  case Nil
  then show ?case by simp
next
  case (Cons x iovs)
  show ?case
  proof (cases "iov \<in> set iovs")
    case True
    with Cons show ?thesis by simp
  next
    case False
    then have x: "x = iov" using Cons.prems(2) by simp
    have "foldl (apply_iov ss) (apply_iov ss s iov) iovs n = apply_iov ss s iov n"
      using Cons.prems x by (intro foldl_apply_iov_outside) (auto simp: list_all_iff)
    moreover have "apply_iov ss s iov n = apply_iov ss s' iov n"
      using Cons.prems(3) by (simp add: apply_iov_def)
    ultimately show ?thesis by (simp add: x)
  qed
qed

lemma length_read_sectors:
  "(\<And>i bs. s i = Some bs \<Longrightarrow> length bs = ss) \<Longrightarrow> length (read_sectors ss s first n) = n * ss"
proof -
  assume len: "\<And>i bs. s i = Some bs \<Longrightarrow> length bs = ss"
  have "length (sector_at ss s m) = ss" for m
    using len by (simp add: sector_at_def split: option.splits)
  then show ?thesis
    by (simp add: read_sectors_def length_concat o_def sum_list_triv)
qed

lemma read_sectors_Suc:
  "read_sectors ss s first (Suc n) = sector_at ss s first @ read_sectors ss s (Suc first) n"
proof -
  have "[0..<Suc n] = 0 # map Suc [0..<n]" by (simp add: map_Suc_upt upt_conv_Cons del: upt_Suc)
  then show ?thesis by (simp add: read_sectors_def o_def del: upt_Suc)
qed

lemma read_sectors_1 [simp]: "read_sectors ss s first (Suc 0) = sector_at ss s first"
  by (simp add: read_sectors_def)

section \<open>A simulated device\<close>

text \<open>
  A device whose world is its sectors, of 512 bytes each. It meets \<open>dev_laws\<close>, so every
  property that asks for them is about something that exists.
\<close>

definition sim_caps :: nvm_kv_store_capabilities where
  "sim_caps =
     \<lparr>nvm_max_num_iovs = 8, nvm_atomic_write_multiplicity = 1, nvm_max_write_size_per_iov = 1024,
      nvm_max_trim_size_per_iov = 2097152, nvm_sector_size = 512, nvm_max_num_logical_iter_ranges = 8,
      nvm_atomic_write_max_total_size = 4096\<rparr>"

definition sim_device :: nvm_kv_store_device where
  "sim_device = \<lparr>dev_fd = 3, dev_handle = 4, dev_caps = sim_caps\<rparr>"

definition sim_env :: "sectors nvm_env" where
  "sim_env =
     \<lparr>env_batch_atomic = (\<lambda>h iovs w. (0, foldl (apply_iov 512) w iovs)),
      env_pwritev = (\<lambda>fd iovs off w. (-1, w)),
      env_preadv = (\<lambda>fd lens off w. Some (read_sectors 512 w (off div 512) (sum_list lens div 512))),
      env_range_exists = (\<lambda>h lba n w.
        (case dropWhile (\<lambda>i. w i = None) [unat lba..<unat lba + n] of
           [] \<Rightarrow> Some \<lparr>br_start_lba = 0, br_length = 0\<rparr>
         | i # is \<Rightarrow> Some \<lparr>br_start_lba = of_nat i,
                           br_length = Suc (length (takeWhile (\<lambda>i. w i \<noteq> None) is))\<rparr>)),
      env_block_exists = (\<lambda>h lba w. if w (unat lba) = None then 0 else 1),
      env_range_iter = (\<lambda>h it w. (-1, it)),
      env_capacity = (\<lambda>h w. None),
      env_time = (\<lambda>w. 0),
      env_memalign = (\<lambda>w n. Some \<lparr>mb_addr = 0, mb_mem = zeros n\<rparr>),
      env_new_iovs = (\<lambda>w n. Some (replicate n
        \<lparr>iov_base = 0, iov_len = 0, iov_lba = 0, iov_opcode = NVM_IOV_WRITE, iov_data = []\<rparr>))\<rparr>"

lemma sim_laws: "dev_laws sim_env sim_device capacity (\<lambda>w. w)"
  by (auto simp: dev_laws_def batch_law_def read_law_def alloc_law_def memalign_ok_def sim_env_def
      sim_device_def sim_caps_def)

lemma dropWhile_upt_first:
  "dropWhile P [a..<b] = i # is \<Longrightarrow> a \<le> i \<and> i < b \<and> is = [Suc i..<b] \<and> \<not> P i \<and> (\<forall>j. a \<le> j \<longrightarrow> j < i \<longrightarrow> P j)"
proof (induction "b - a" arbitrary: a)
  case 0
  then show ?case by simp
next
  case (Suc d)
  then have ab: "[a..<b] = a # [Suc a..<b]" by (simp add: upt_conv_Cons)
  show ?case
  proof (cases "P a")
    case True
    then have "dropWhile P [Suc a..<b] = i # is" using Suc.prems ab by simp
    moreover have "d = b - Suc a" using Suc.hyps(2) by simp
    ultimately have ih: "Suc a \<le> i \<and> i < b \<and> is = [Suc i..<b] \<and> \<not> P i \<and> (\<forall>j. Suc a \<le> j \<longrightarrow> j < i \<longrightarrow> P j)"
      using Suc.hyps(1) [of "Suc a"] by blast
    have "P j" if "a \<le> j" "j < i" for j
      using that True ih by (cases "j = a") simp_all
    then show ?thesis using ih by simp
  next
    case False
    then show ?thesis using Suc.prems ab Suc.hyps(2) by auto
  qed
qed

lemma takeWhile_upt_run:
  "(\<And>i. a \<le> i \<Longrightarrow> i < m \<Longrightarrow> P i) \<Longrightarrow> m \<le> b \<Longrightarrow> m - a \<le> length (takeWhile P [a..<b])"
proof (induction "m - a" arbitrary: a)
  case 0
  then show ?case by simp
next
  case (Suc d)
  then have "[a..<b] = a # [Suc a..<b]" by (simp add: upt_conv_Cons)
  moreover have "m - Suc a \<le> length (takeWhile P [Suc a..<b])" using Suc by (intro Suc.hyps(1)) auto
  moreover have "P a" using Suc by simp
  ultimately show ?case by simp
qed

lemma sim_range_law: "range_law sim_env sim_device capacity (\<lambda>w. w)"
  unfolding range_law_def
proof (intro allI impI)
  fix lba n w found
  assume "env_range_exists sim_env (dev_handle sim_device) lba n w = Some found"
  then have f: "(case dropWhile (\<lambda>i. w i = None) [unat lba..<unat lba + n] of
      [] \<Rightarrow> Some \<lparr>br_start_lba = 0, br_length = 0\<rparr>
    | i # is \<Rightarrow> Some \<lparr>br_start_lba = of_nat i,
        br_length = Suc (length (takeWhile (\<lambda>i. w i \<noteq> None) is))\<rparr>) = Some found"
    by (simp add: sim_env_def)
  show "br_length found \<le> n \<and> (br_length found = 0 \<longleftrightarrow> (\<forall>i < n. w (unat lba + i) = None)) \<and>
    (\<forall>m \<le> n. (\<forall>i < m. w (unat lba + i) \<noteq> None) \<longrightarrow> m \<le> br_length found)"
  proof (cases "dropWhile (\<lambda>i. w i = None) [unat lba..<unat lba + n]")
    case Nil
    then have none: "\<forall>i<n. w (unat lba + i) = None" by (auto simp: dropWhile_eq_Nil_conv)
    have "br_length found = 0" using f Nil by auto
    moreover have "m = 0" if "m \<le> n" "\<forall>i<m. w (unat lba + i) \<noteq> None" for m
      using that none by (cases m) auto
    ultimately show ?thesis using none by auto
  next
    case (Cons i "is")
    from dropWhile_upt_first [OF this] have i: "unat lba \<le> i" "i < unat lba + n"
      "is = [Suc i..<unat lba + n]" "w i \<noteq> None" "\<forall>j. unat lba \<le> j \<longrightarrow> j < i \<longrightarrow> w j = None" by auto
    have len: "br_length found = Suc (length (takeWhile (\<lambda>i. w i \<noteq> None) is))" using f Cons by auto
    have "length (takeWhile (\<lambda>i. w i \<noteq> None) is) \<le> length is" by (rule length_takeWhile_le)
    then have "br_length found \<le> n" using len i by simp
    moreover have "\<exists>j<n. w (unat lba + j) \<noteq> None" using i by (intro exI [of _ "i - unat lba"]) auto
    moreover have "m \<le> br_length found" if m: "m \<le> n" "\<forall>j<m. w (unat lba + j) \<noteq> None" for m
    proof (cases m)
      case (Suc m')
      then have "i = unat lba" using i(1,5) m(2) [rule_format, of 0] by (metis add.right_neutral le_less zero_less_Suc)
      have "w j \<noteq> None" if "Suc i \<le> j" "j < unat lba + m" for j
        using that m(2) [rule_format, of "j - unat lba"] \<open>i = unat lba\<close> by simp
      then have "unat lba + m - Suc i \<le> length (takeWhile (\<lambda>i. w i \<noteq> None) is)"
        unfolding i(3) using m(1) by (intro takeWhile_upt_run) simp_all
      then show ?thesis using len \<open>i = unat lba\<close> Suc by simp
    qed simp
    ultimately show ?thesis using len by auto
  qed
qed

end
