(* ===== verification/Bitmap.thy ===== *)
theory Bitmap
  imports KvUtil
begin

text \<open>
  The pool bitmaps of \<open>util/kv_bitmap.cpp\<close>: an array of 32 bit words. Set, clear, test
  and the search routine \<open>bitmap_helper\<close> with its three actions are translated word for
  word, with the loop variables \<open>i\<close> and \<open>j\<close> of the search carried from one
  iteration to the next as the C++ code does. The set of the bits that are one is the abstract
  view; the locale \<open>bit_set\<close> states what the pool manager relies on.
  Reading a word past the end of the array is undefined in C++ and unspecified here
  (\<open>pbm ! i\<close>), so the facts below ask for an index inside the bitmap.
\<close>

type_synonym kv_bitmap = "u32 list"

datatype bm_action = BM_FIND_FIRST_CLEAR | BM_FIND_FIRST_SET | BM_FIND_FIRST_CLEAR_AND_SET

definition BM_FULL :: int where
  "BM_FULL = -1"

definition bit_index_sector :: "u32 \<Rightarrow> u32 \<Rightarrow> u32" where
  "bit_index_sector pool_id sector_bits =
     (let sector_bits = sector_bits + 3 in drop_bit (unat sector_bits) pool_id)"

definition bitmap_alloc :: "bool \<Rightarrow> u32 \<Rightarrow> kv_bitmap option" where
  "bitmap_alloc calloc_ok nbits =
     (if calloc_ok then Some (replicate (unat (bits_per_uint32 (round32 nbits))) 0) else None)"

definition bitmap_alloc_aligned :: "bool \<Rightarrow> u32 \<Rightarrow> u32 \<Rightarrow> kv_bitmap option" where
  "bitmap_alloc_aligned memalign_ok nbits alignment =
     (let size = ucast (nvm_kv_round_upto_blk (ucast (bits_per_uint8 (round32 nbits)))
                                              (ucast alignment)) :: u32
      in if memalign_ok then Some (replicate (unat size div 4) 0) else None)"

definition bitmap_set :: "kv_bitmap \<Rightarrow> u32 \<Rightarrow> kv_bitmap" where
  "bitmap_set pbm index =
     (let i = unat (bits_per_uint32 index) in pbm[i := (pbm ! i) OR bit_mask index])"

definition bitmap_clear :: "kv_bitmap \<Rightarrow> u32 \<Rightarrow> kv_bitmap" where
  "bitmap_clear pbm index =
     (let i = unat (bits_per_uint32 index) in pbm[i := (pbm ! i) AND NOT (bit_mask index)])"

definition bitmap_test :: "kv_bitmap \<Rightarrow> u32 \<Rightarrow> u32" where
  "bitmap_test pbm index = (pbm ! unat (bits_per_uint32 index)) AND bit_mask index"

definition bm_hit :: "bm_action \<Rightarrow> u32 \<Rightarrow> bool" where
  "bm_hit action is_set =
     (case action of
        BM_FIND_FIRST_CLEAR \<Rightarrow> is_set = 0
      | BM_FIND_FIRST_SET \<Rightarrow> is_set \<noteq> 0
      | BM_FIND_FIRST_CLEAR_AND_SET \<Rightarrow> is_set = 0)"

function scan_word :: "bm_action \<Rightarrow> u32 \<Rightarrow> nat \<Rightarrow> nat" where
  "scan_word action w j =
     (if j < 32 then
        (let is_set = w AND bit_mask (of_nat j)
         in if bm_hit action is_set then j else scan_word action w (Suc j))
      else j)"
  by pat_completeness auto
termination
  by (relation "measure (\<lambda>(a, w, j). 32 - j)") auto

definition bm_words :: "u32 \<Rightarrow> nat" where
  "bm_words nbits = unat (bits_per_uint32 (round32 nbits))"

definition bm_result :: "u32 \<Rightarrow> nat \<Rightarrow> nat \<Rightarrow> bool \<Rightarrow> int" where
  "bm_result nbits i j found =
     (let idx = i * 32 + j in if found \<and> idx < unat nbits then int idx else BM_FULL)"

function bitmap_loop ::
  "bm_action \<Rightarrow> u32 \<Rightarrow> kv_bitmap \<Rightarrow> nat \<Rightarrow> nat \<Rightarrow> int \<times> kv_bitmap" where
  "bitmap_loop action nbits pbm i j =
     (if i < bm_words nbits then
        (if pbm ! i \<noteq> 0xffffffff then
           (let j = scan_word action (pbm ! i) 0
            in if j < 32 then
                 (if action = BM_FIND_FIRST_CLEAR_AND_SET then
                    (if i * 32 + j < unat nbits
                     then (int (i * 32 + j), pbm[i := (pbm ! i) OR bit_mask (of_nat j)])
                     else (BM_FULL, pbm))
                  else (bm_result nbits i j True, pbm))
               else bitmap_loop action nbits pbm (Suc i) j)
         else if action = BM_FIND_FIRST_SET then (bm_result nbits i j True, pbm)
         else bitmap_loop action nbits pbm (Suc i) j)
      else (bm_result nbits i j False, pbm))"
  by pat_completeness auto
termination
  by (relation "measure (\<lambda>(a, nbits, pbm, i, j). bm_words nbits - i)") auto

declare scan_word.simps [simp del] bitmap_loop.simps [simp del]

definition bitmap_helper :: "kv_bitmap \<Rightarrow> u32 \<Rightarrow> bm_action \<Rightarrow> int \<times> kv_bitmap" where
  "bitmap_helper pbm nbits action = bitmap_loop action nbits pbm 0 0"

definition bitmap_ffc :: "kv_bitmap \<Rightarrow> u32 \<Rightarrow> int" where
  "bitmap_ffc pbm nbits = fst (bitmap_helper pbm nbits BM_FIND_FIRST_CLEAR)"

definition bitmap_ffs :: "kv_bitmap \<Rightarrow> u32 \<Rightarrow> int" where
  "bitmap_ffs pbm nbits = fst (bitmap_helper pbm nbits BM_FIND_FIRST_SET)"

definition bitmap_ffa :: "kv_bitmap \<Rightarrow> u32 \<Rightarrow> int \<times> kv_bitmap" where
  "bitmap_ffa pbm nbits = bitmap_helper pbm nbits BM_FIND_FIRST_CLEAR_AND_SET"

section \<open>The abstract view: a set of bit positions\<close>

definition bm_bits :: "kv_bitmap \<Rightarrow> nat set" where
  "bm_bits pbm = {n. n div 32 < length pbm \<and> bit (pbm ! (n div 32)) (n mod 32)}"

definition bm_nbits :: "kv_bitmap \<Rightarrow> nat" where
  "bm_nbits pbm = 32 * length pbm"

lemma bm_bits_iff:
  "n \<in> bm_bits pbm \<longleftrightarrow> n div 32 < length pbm \<and> bit (pbm ! (n div 32)) (n mod 32)"
  by (simp add: bm_bits_def)

lemma bm_index_ok: "n < bm_nbits pbm \<longleftrightarrow> n div 32 < length pbm"
  by (simp add: bm_nbits_def div_less_iff_less_mult mult.commute)

lemma and_bit_mask_eq_0: "w AND bit_mask v = 0 \<longleftrightarrow> \<not> bit w (unat v mod 32)"
proof
  assume z: "w AND bit_mask v = 0"
  have "bit (w AND bit_mask v) (unat v mod 32) \<longleftrightarrow> bit w (unat v mod 32)"
    by (simp add: bit_and_iff bit_bit_mask)
  then show "\<not> bit w (unat v mod 32)" by (simp add: z)
next
  assume "\<not> bit w (unat v mod 32)"
  then show "w AND bit_mask v = 0"
    by (intro bit_word_eqI) (auto simp: bit_and_iff bit_bit_mask)
qed

lemma bitmap_test_iff:
  "unat i < bm_nbits pbm \<Longrightarrow> bitmap_test pbm i \<noteq> 0 \<longleftrightarrow> unat i \<in> bm_bits pbm"
  by (simp add: bitmap_test_def and_bit_mask_eq_0 bm_bits_iff bm_index_ok)

lemma bm_nbits_set [simp]: "bm_nbits (bitmap_set pbm i) = bm_nbits pbm"
  by (simp add: bitmap_set_def bm_nbits_def Let_def)

lemma bm_nbits_clear [simp]: "bm_nbits (bitmap_clear pbm i) = bm_nbits pbm"
  by (simp add: bitmap_clear_def bm_nbits_def Let_def)

lemma length_bitmap_set [simp]: "length (bitmap_set pbm i) = length pbm"
  by (simp add: bitmap_set_def Let_def)

lemma length_bitmap_clear [simp]: "length (bitmap_clear pbm i) = length pbm"
  by (simp add: bitmap_clear_def Let_def)

lemma divmod32_eq: "(n::nat) = m \<longleftrightarrow> n div 32 = m div 32 \<and> n mod 32 = m mod 32"
  by (metis div_mult_mod_eq)

lemma bm_bits_set:
  assumes "unat i < bm_nbits pbm"
  shows "bm_bits (bitmap_set pbm i) = insert (unat i) (bm_bits pbm)"
proof (rule set_eqI)
  fix n
  have i: "unat i div 32 < length pbm" using assms by (simp add: bm_index_ok)
  show "n \<in> bm_bits (bitmap_set pbm i) \<longleftrightarrow> n \<in> insert (unat i) (bm_bits pbm)"
  proof (cases "n div 32 = unat i div 32")
    case True
    then show ?thesis
      using i divmod32_eq [of n "unat i"]
      by (simp add: bm_bits_iff bitmap_set_def Let_def bit_or_iff bit_bit_mask) blast
  next
    case False
    then show ?thesis
      using divmod32_eq [of n "unat i"] by (simp add: bm_bits_iff bitmap_set_def Let_def)
  qed
qed

lemma bm_bits_clear:
  assumes "unat i < bm_nbits pbm"
  shows "bm_bits (bitmap_clear pbm i) = bm_bits pbm - {unat i}"
proof (rule set_eqI)
  fix n
  have i: "unat i div 32 < length pbm" using assms by (simp add: bm_index_ok)
  show "n \<in> bm_bits (bitmap_clear pbm i) \<longleftrightarrow> n \<in> bm_bits pbm - {unat i}"
  proof (cases "n div 32 = unat i div 32")
    case True
    then show ?thesis
      using i divmod32_eq [of n "unat i"]
      by (simp add: bm_bits_iff bitmap_clear_def Let_def bit_and_iff bit_not_iff bit_bit_mask)
  next
    case False
    then show ?thesis
      using divmod32_eq [of n "unat i"] by (simp add: bm_bits_iff bitmap_clear_def Let_def)
  qed
qed

section \<open>The searches\<close>

lemma bm_words_eq:
  "unat nbits + 31 < 2 ^ 32 \<Longrightarrow> bm_words nbits = (unat nbits + 31) div 32"
  by (simp add: bm_words_def round32_eq)

lemma nbits_le_bm_words: "unat nbits + 31 < 2 ^ 32 \<Longrightarrow> unat nbits \<le> 32 * bm_words nbits"
  using div_round_bounds(1) [of 32 "unat nbits"] by (simp add: bm_words_eq mult.commute)

lemma bm_hit_bit:
  assumes "k < 32"
  shows "bm_hit a (w AND bit_mask (of_nat k)) \<longleftrightarrow> (a = BM_FIND_FIRST_SET) = bit w k"
proof -
  have "unat (of_nat k :: u32) mod 32 = k"
    using assms by (simp add: unat_of_nat)
  then show ?thesis
    using and_bit_mask_eq_0 [of w "of_nat k"] by (cases a) (simp_all add: bm_hit_def)
qed

lemma scan_word_spec:
  "j \<le> 32 \<Longrightarrow>
   j \<le> scan_word a w j \<and> scan_word a w j \<le> 32 \<and>
   (\<forall>k. j \<le> k \<longrightarrow> k < scan_word a w j \<longrightarrow> ((a = BM_FIND_FIRST_SET) \<noteq> bit w k)) \<and>
   (scan_word a w j < 32 \<longrightarrow> (a = BM_FIND_FIRST_SET) = bit w (scan_word a w j))"
proof (induction a w j rule: scan_word.induct)
  case (1 a w j)
  show ?case
  proof (cases "j < 32")
    case False
    then have "scan_word a w j = j" by (simp add: scan_word.simps [of a w j])
    with False "1.prems" show ?thesis by simp
  next
    case j: True
    show ?thesis
    proof (cases "bm_hit a (w AND bit_mask (of_nat j))")
      case True
      with j show ?thesis by (simp add: scan_word.simps [of a w j] bm_hit_bit)
    next
      case False
      with j have eq: "scan_word a w j = scan_word a w (Suc j)"
        by (simp add: scan_word.simps [of a w j] Let_def)
      have no: "(a = BM_FIND_FIRST_SET) \<noteq> bit w j" using False j by (simp add: bm_hit_bit)
      from "1.IH" [OF j refl False] j have IH: "Suc j \<le> scan_word a w (Suc j)"
        "scan_word a w (Suc j) \<le> 32"
        "\<And>k. Suc j \<le> k \<Longrightarrow> k < scan_word a w (Suc j) \<Longrightarrow> (a = BM_FIND_FIRST_SET) \<noteq> bit w k"
        "scan_word a w (Suc j) < 32 \<Longrightarrow> (a = BM_FIND_FIRST_SET) = bit w (scan_word a w (Suc j))"
        by auto
      have "(a = BM_FIND_FIRST_SET) \<noteq> bit w k" if "j \<le> k" "k < scan_word a w (Suc j)" for k
        using that no IH(3) [of k] by (cases "k = j") auto
      with IH show ?thesis by (auto simp: eq)
    qed
  qed
qed

lemma scan_word_0:
  shows "scan_word a w 0 \<le> 32"
    and "k < scan_word a w 0 \<Longrightarrow> (a = BM_FIND_FIRST_SET) \<noteq> bit w k"
    and "scan_word a w 0 < 32 \<Longrightarrow> (a = BM_FIND_FIRST_SET) = bit w (scan_word a w 0)"
  using scan_word_spec [of 0 a w] by auto

lemma bits_below_Suc:
  assumes "\<forall>n<32 * i. P n" and "\<forall>k<32. P (32 * i + k)"
  shows "\<forall>n<32 * Suc i. P (n::nat)"
proof (intro allI impI)
  fix n
  assume n: "n < 32 * Suc i"
  show "P n"
  proof (cases "n < 32 * i")
    case False
    then have "n = 32 * i + (n - 32 * i)" and "n - 32 * i < 32" using n by auto
    then show ?thesis using assms(2) by metis
  qed (use assms in blast)
qed

lemma bm_bits_word:
  "i < length pbm \<Longrightarrow> k < 32 \<Longrightarrow> 32 * i + k \<in> bm_bits pbm \<longleftrightarrow> bit (pbm ! i) k"
  by (simp add: bm_bits_iff)

lemma full_word_bits: "w = 0xffffffff \<Longrightarrow> k < 32 \<Longrightarrow> bit (w :: u32) k"
proof -
  assume w: "w = 0xffffffff" and k: "k < 32"
  have "w = -1" by (simp add: w)
  then show ?thesis using k by simp
qed

definition ff_clear_spec :: "bm_action \<Rightarrow> u32 \<Rightarrow> kv_bitmap \<Rightarrow> int \<times> kv_bitmap \<Rightarrow> bool" where
  "ff_clear_spec action nbits pbm res \<longleftrightarrow>
     (res = (BM_FULL, pbm) \<and> (\<forall>n < unat nbits. n \<in> bm_bits pbm)) \<or>
     (\<exists>n < unat nbits. n \<notin> bm_bits pbm \<and> (\<forall>m < n. m \<in> bm_bits pbm) \<and>
        res = (int n, if action = BM_FIND_FIRST_CLEAR_AND_SET
                      then bitmap_set pbm (of_nat n) else pbm))"

lemma unat_of_nat_u32: "n < 2 ^ 32 \<Longrightarrow> unat (of_nat n :: u32) = n"
  by (simp add: unat_of_nat)

lemma bitmap_set_word:
  assumes "k < 32" and "32 * i + k < 2 ^ 32"
  shows "bitmap_set pbm (of_nat (32 * i + k)) = pbm[i := (pbm ! i) OR bit_mask (of_nat k)]"
proof -
  have u: "unat (of_nat (32 * i + k) :: u32) = 32 * i + k"
    by (rule unat_of_nat_u32 [OF assms(2)])
  have "unat (of_nat k :: u32) = k" using assms(1) by (intro unat_of_nat_u32) simp
  then have "bit_mask (of_nat (32 * i + k)) = bit_mask (of_nat k)"
    using assms(1) unfolding bit_mask_eq u by (simp only: mod_mult_self4)
  moreover have "unat (bits_per_uint32 (of_nat (32 * i + k))) = i"
    unfolding unat_bits_per_uint32 u using assms(1) by simp
  ultimately show ?thesis by (simp only: bitmap_set_def Let_def)
qed

lemma bitmap_loop_clear:
  assumes "action \<noteq> BM_FIND_FIRST_SET"
  shows "bm_words nbits \<le> length pbm \<Longrightarrow> unat nbits + 31 < 2 ^ 32 \<Longrightarrow>
         \<forall>n < 32 * i. n \<in> bm_bits pbm \<Longrightarrow>
         ff_clear_spec action nbits pbm (bitmap_loop action nbits pbm i j)"
  using assms
proof (induction action nbits pbm i j rule: bitmap_loop.induct)
  case (1 action nbits pbm i j)
  note simps = bitmap_loop.simps [of action nbits pbm i j]
  show ?case
  proof (cases "i < bm_words nbits")
    case False
    then have "\<forall>n < unat nbits. n \<in> bm_bits pbm"
      using nbits_le_bm_words [OF "1.prems"(2)] "1.prems"(3) by fastforce
    with False show ?thesis
      by (simp add: simps ff_clear_spec_def bm_result_def)
  next
    case i: True
    then have len: "i < length pbm" using "1.prems"(1) by simp
    define k where "k = scan_word action (pbm ! i) 0"
    have below: "bit (pbm ! i) m" if "m < k" for m
      using scan_word_0(2) [of m action "pbm ! i"] that "1.prems"(4) by (auto simp: k_def)
    have le32: "k \<le> 32" using scan_word_0(1) by (simp add: k_def)
    consider (full) "pbm ! i = 0xffffffff" | (skip) "pbm ! i \<noteq> 0xffffffff" "\<not> k < 32"
      | (hit) "pbm ! i \<noteq> 0xffffffff" "k < 32" by blast
    then show ?thesis
    proof cases
      case full
      then have "\<forall>m < 32. 32 * i + m \<in> bm_bits pbm"
        using full_word_bits len by (simp add: bm_bits_word)
      then have all: "\<forall>n < 32 * Suc i. n \<in> bm_bits pbm"
        by (rule bits_below_Suc [OF "1.prems"(3)])
      have eq: "bitmap_loop action nbits pbm i j = bitmap_loop action nbits pbm (Suc i) j"
        using full i "1.prems"(4) by (simp add: simps)
      show ?thesis
        unfolding eq using i full "1.prems" all
        by (intro "1.IH"(2)) simp_all
    next
      case skip
      then have "\<forall>m < 32. 32 * i + m \<in> bm_bits pbm"
        using below len by (simp add: bm_bits_word)
      then have all: "\<forall>n < 32 * Suc i. n \<in> bm_bits pbm"
        by (rule bits_below_Suc [OF "1.prems"(3)])
      have eq: "bitmap_loop action nbits pbm i j = bitmap_loop action nbits pbm (Suc i) k"
        using skip i by (simp add: simps k_def [symmetric])
      show ?thesis
        unfolding eq k_def using i skip "1.prems" all
        by (intro "1.IH"(1)) (simp_all add: k_def)
    next
      case hit
      let ?n = "32 * i + k"
      have notin: "?n \<notin> bm_bits pbm"
        using scan_word_0(3) [of action "pbm ! i"] hit(2) len "1.prems"(4)
        by (simp add: bm_bits_word k_def)
      have bel: "m \<in> bm_bits pbm" if m: "m < ?n" for m
      proof (cases "m < 32 * i")
        case False
        then have "m = 32 * i + (m - 32 * i)" and "m - 32 * i < k" using m by auto
        then show ?thesis using below bm_bits_word [OF len] hit(2) by (metis less_trans)
      qed (use "1.prems"(3) in blast)
      have res: "bitmap_loop action nbits pbm i j =
        (if action = BM_FIND_FIRST_CLEAR_AND_SET
         then (if i * 32 + k < unat nbits
               then (int (i * 32 + k), pbm[i := (pbm ! i) OR bit_mask (of_nat k)])
               else (BM_FULL, pbm))
         else (bm_result nbits i k True, pbm))"
        using hit i by (simp add: simps k_def [symmetric])
      show ?thesis
      proof (cases "?n < unat nbits")
        case True
        then have "?n < 2 ^ 32" using unat_less_u32 [of nbits] by simp
        then have "bitmap_set pbm (of_nat ?n) = pbm[i := (pbm ! i) OR bit_mask (of_nat k)]"
          by (rule bitmap_set_word [OF hit(2)])
        then show ?thesis
          using True notin bel unfolding ff_clear_spec_def res
          by (intro disjI2 exI [of _ ?n]) (simp add: bm_result_def ac_simps)
      next
        case False
        then have "\<forall>n < unat nbits. n \<in> bm_bits pbm" using bel by simp
        then show ?thesis
          using False unfolding ff_clear_spec_def res
          by (intro disjI1) (simp add: bm_result_def ac_simps)
      qed
    qed
  qed
qed

lemma bitmap_helper_clear:
  assumes "bm_words nbits \<le> length pbm" and "unat nbits + 31 < 2 ^ 32"
    and "action \<noteq> BM_FIND_FIRST_SET"
  shows "ff_clear_spec action nbits pbm (bitmap_helper pbm nbits action)"
  unfolding bitmap_helper_def using assms by (intro bitmap_loop_clear) auto

lemma bitmap_loop_set:
  "bm_words nbits \<le> length pbm \<Longrightarrow> unat nbits + 31 < 2 ^ 32 \<Longrightarrow>
   \<forall>w < bm_words nbits. pbm ! w \<noteq> 0xffffffff \<Longrightarrow>
   \<forall>n < 32 * i. n \<notin> bm_bits pbm \<Longrightarrow> action = BM_FIND_FIRST_SET \<Longrightarrow>
   (let r = fst (bitmap_loop action nbits pbm i j) in
    (r = BM_FULL \<and> (\<forall>n < unat nbits. n \<notin> bm_bits pbm)) \<or>
    (\<exists>n < unat nbits. r = int n \<and> n \<in> bm_bits pbm \<and> (\<forall>m < n. m \<notin> bm_bits pbm)))"
proof (induction action nbits pbm i j rule: bitmap_loop.induct)
  case (1 action nbits pbm i j)
  note simps = bitmap_loop.simps [of action nbits pbm i j]
  show ?case
  proof (cases "i < bm_words nbits")
    case False
    then have "\<forall>n < unat nbits. n \<notin> bm_bits pbm"
      using nbits_le_bm_words [OF "1.prems"(2)] "1.prems"(4) by fastforce
    with False show ?thesis
      by (simp add: simps bm_result_def)
  next
    case i: True
    then have len: "i < length pbm" using "1.prems"(1) by simp
    have nf: "pbm ! i \<noteq> 0xffffffff" using i "1.prems"(3) by blast
    define k where "k = scan_word action (pbm ! i) 0"
    have below: "\<not> bit (pbm ! i) m" if "m < k" for m
      using scan_word_0(2) [of m action "pbm ! i"] that "1.prems"(5) by (auto simp: k_def)
    have le32: "k \<le> 32" using scan_word_0(1) by (simp add: k_def)
    show ?thesis
    proof (cases "k < 32")
      case False
      then have "\<forall>m < 32. 32 * i + m \<notin> bm_bits pbm"
        using below len by (simp add: bm_bits_word)
      then have all: "\<forall>n < 32 * Suc i. n \<notin> bm_bits pbm"
        by (rule bits_below_Suc [OF "1.prems"(4)])
      have eq: "bitmap_loop action nbits pbm i j = bitmap_loop action nbits pbm (Suc i) k"
        using False nf i by (simp add: simps k_def [symmetric])
      show ?thesis
        unfolding eq k_def using i False nf "1.prems" all
        by (intro "1.IH"(1)) (simp_all add: k_def)
    next
      case True
      let ?n = "32 * i + k"
      have isin: "?n \<in> bm_bits pbm"
        using scan_word_0(3) [of action "pbm ! i"] True len "1.prems"(5)
        by (simp add: bm_bits_word k_def)
      have bel: "m \<notin> bm_bits pbm" if m: "m < ?n" for m
      proof (cases "m < 32 * i")
        case False
        then have "m = 32 * i + (m - 32 * i)" and "m - 32 * i < k" using m by auto
        then show ?thesis using below bm_bits_word [OF len] True by (metis less_trans)
      qed (use "1.prems"(4) in blast)
      have res: "fst (bitmap_loop action nbits pbm i j) = bm_result nbits i k True"
        using True nf i "1.prems"(5) unfolding k_def
        by (simp add: bitmap_loop.simps [of _ _ _ i])
      show ?thesis
        using isin bel unfolding res
        by (cases "?n < unat nbits") (auto simp: bm_result_def Let_def ac_simps)
    qed
  qed
qed

section \<open>The interface the pool manager uses\<close>

locale bit_set =
  fixes test :: "'b \<Rightarrow> u32 \<Rightarrow> bool"
    and set_bit_at :: "'b \<Rightarrow> u32 \<Rightarrow> 'b"
    and clear_bit_at :: "'b \<Rightarrow> u32 \<Rightarrow> 'b"
    and members :: "'b \<Rightarrow> nat set"
    and capacity :: "'b \<Rightarrow> nat"
  assumes test_law: "unat i < capacity b \<Longrightarrow> test b i \<longleftrightarrow> unat i \<in> members b"
    and set_law: "unat i < capacity b \<Longrightarrow> members (set_bit_at b i) = insert (unat i) (members b)"
    and clear_law: "unat i < capacity b \<Longrightarrow> members (clear_bit_at b i) = members b - {unat i}"
    and set_capacity: "capacity (set_bit_at b i) = capacity b"
    and clear_capacity: "capacity (clear_bit_at b i) = capacity b"
begin

lemma test_set:
  assumes "unat i < capacity b" and "unat j < capacity b"
  shows "test (set_bit_at b i) j \<longleftrightarrow> j = i \<or> test b j"
  using assms by (auto simp: test_law set_law set_capacity word_unat_eq_iff)

lemma test_clear:
  assumes "unat i < capacity b" and "unat j < capacity b"
  shows "test (clear_bit_at b i) j \<longleftrightarrow> j \<noteq> i \<and> test b j"
  using assms by (auto simp: test_law clear_law clear_capacity word_unat_eq_iff)

lemma clear_set_members:
  assumes "unat i < capacity b" and "\<not> test b i"
  shows "members (clear_bit_at (set_bit_at b i) i) = members b"
  using assms by (auto simp: test_law clear_law set_law set_capacity)

end

interpretation bm: bit_set "\<lambda>b i. bitmap_test b i \<noteq> 0" bitmap_set bitmap_clear bm_bits bm_nbits
  by unfold_locales (simp_all add: bitmap_test_iff bm_bits_set bm_bits_clear)

section \<open>Properties\<close>

lemma least_nat: "P n \<Longrightarrow> \<forall>m<n. \<not> P m \<Longrightarrow> (LEAST k. P k) = (n::nat)"
  by (rule Least_equality) (auto simp: not_less [symmetric])

text \<open>
  The allocation of an identifier. On a bitmap of \<open>nbits\<close> bits, \<open>bitmap_ffa\<close>
  returns the least identifier that is free and takes exactly that one, \<open>bitmap_ffc\<close>
  returns the same identifier and takes none, and both report a full bitmap only when every
  identifier below \<open>nbits\<close> is taken.
\<close>

theorem bitmap_ffa_least_free:
  assumes "bm_words nbits \<le> length pbm" and "unat nbits + 31 < 2 ^ 32"
    and "bitmap_ffa pbm nbits = (r, pbm')"
  shows "bitmap_ffc pbm nbits = r \<and> length pbm' = length pbm \<and>
         (if \<forall>n < unat nbits. n \<in> bm_bits pbm then r = BM_FULL \<and> pbm' = pbm
          else r = int (LEAST n. n \<notin> bm_bits pbm) \<and> (LEAST n. n \<notin> bm_bits pbm) < unat nbits \<and>
               bm_bits pbm' = insert (LEAST n. n \<notin> bm_bits pbm) (bm_bits pbm))"
proof -
  have sp: "ff_clear_spec BM_FIND_FIRST_CLEAR_AND_SET nbits pbm (r, pbm')"
    "ff_clear_spec BM_FIND_FIRST_CLEAR nbits pbm (bitmap_helper pbm nbits BM_FIND_FIRST_CLEAR)"
    using bitmap_helper_clear [OF assms(1,2)] assms(3) unfolding bitmap_ffa_def by force+
  show ?thesis
  proof (cases "\<forall>n < unat nbits. n \<in> bm_bits pbm")
    case True
    then show ?thesis using sp unfolding ff_clear_spec_def bitmap_ffc_def by auto
  next
    case False
    have least: "(LEAST k. k \<notin> bm_bits pbm) = n" if "n \<notin> bm_bits pbm" "\<forall>m<n. m \<in> bm_bits pbm" for n
      using that by (intro least_nat) simp_all
    let ?n = "LEAST n. n \<notin> bm_bits pbm"
    have f: "?n < unat nbits" "r = int ?n" "pbm' = bitmap_set pbm (of_nat ?n)"
      "bitmap_ffc pbm nbits = int ?n"
      using sp False least unfolding ff_clear_spec_def bitmap_ffc_def by auto
    have "?n < 2 ^ 32" using f(1) unat_less_u32 [of nbits] by simp
    then have u: "unat (of_nat ?n :: u32) = ?n" by (rule unat_of_nat_u32)
    have "?n < bm_nbits pbm"
      using f(1) nbits_le_bm_words [OF assms(2)] assms(1) by (simp add: bm_nbits_def)
    then have "bm_bits pbm' = insert ?n (bm_bits pbm)"
      using bm_bits_set [of "of_nat ?n" pbm] unfolding u f(3) by simp
    moreover have "length pbm' = length pbm" by (simp add: f(3))
    ultimately show ?thesis using f(1,2,4) by (simp only: if_not_P [OF False])
  qed
qed

lemma bm_words_64: "bm_words 64 = 2" and bm_words_32: "bm_words 32 = 1"
  by (simp_all add: bm_words_eq)

theorem bitmap_ffa_least_free_witness:
  "\<exists>r pbm'. bitmap_ffa [1] 32 = (r, pbm') \<and> r = int (LEAST n. n \<notin> bm_bits [1]) \<and>
     bm_bits pbm' = insert (LEAST n. n \<notin> bm_bits [1]) (bm_bits [1])"
proof -
  obtain r pbm' where e: "bitmap_ffa [1] 32 = (r, pbm')" by force
  have no: "\<not> (\<forall>n < unat (32::u32). n \<in> bm_bits [1])"
    by (intro notI, drule spec [of _ "1::nat"]) (simp add: bm_bits_iff)
  show ?thesis
    using bitmap_ffa_least_free [OF _ _ e] no e by (simp add: bm_words_32)
qed

text \<open>
  The search for a set bit, which tells the pool manager whether a deletion is pending. It is
  exact on a bitmap that has no word with all its 32 bits set. A full word is taken as a hit with
  the bit position left over from the word before, so the two word bitmap whose pools 32 to 63
  are all marked is reported as empty.
\<close>

theorem bitmap_ffs_exact_without_full_words:
  assumes "bm_words nbits \<le> length pbm" and "unat nbits + 31 < 2 ^ 32"
    and "\<forall>w < bm_words nbits. pbm ! w \<noteq> 0xffffffff"
  shows "(if \<forall>n < unat nbits. n \<notin> bm_bits pbm then bitmap_ffs pbm nbits = BM_FULL
          else bitmap_ffs pbm nbits = int (LEAST n. n \<in> bm_bits pbm)) \<and>
         bitmap_ffs [0, 0xffffffff] 64 = BM_FULL \<and> 32 \<in> bm_bits [0, 0xffffffff]"
proof -
  have "(bitmap_ffs pbm nbits = BM_FULL \<and> (\<forall>n < unat nbits. n \<notin> bm_bits pbm)) \<or>
    (\<exists>n < unat nbits. bitmap_ffs pbm nbits = int n \<and> n \<in> bm_bits pbm \<and> (\<forall>m < n. m \<notin> bm_bits pbm))"
    using bitmap_loop_set [OF assms, of 0 BM_FIND_FIRST_SET 0]
    by (simp add: bitmap_ffs_def bitmap_helper_def Let_def)
  moreover have "(LEAST k. k \<in> bm_bits pbm) = n"
    if "n \<in> bm_bits pbm" "\<forall>m<n. m \<notin> bm_bits pbm" for n
    using that by (intro least_nat) simp_all
  ultimately have exact: "if \<forall>n < unat nbits. n \<notin> bm_bits pbm then bitmap_ffs pbm nbits = BM_FULL
          else bitmap_ffs pbm nbits = int (LEAST n. n \<in> bm_bits pbm)" by auto
  have j: "scan_word BM_FIND_FIRST_SET 0 0 = 32"
    using scan_word_0(1,3) [of BM_FIND_FIRST_SET 0] by (cases "scan_word BM_FIND_FIRST_SET 0 0 < 32") auto
  have "bitmap_ffs [0, 0xffffffff] 64 = BM_FULL"
    by (simp add: bitmap_ffs_def bitmap_helper_def bitmap_loop.simps bm_words_64 j bm_result_def)
  moreover have "32 \<in> bm_bits [0, 0xffffffff]" by (simp add: bm_bits_iff)
  ultimately show ?thesis using exact by blast
qed

theorem bitmap_ffs_exact_without_full_words_witness:
  "bitmap_ffs [4] 32 = int (LEAST n. n \<in> bm_bits [4]) \<and> bitmap_ffs [0, 0xffffffff] 64 = BM_FULL"
proof -
  have "2 \<in> bm_bits [4]" by (simp add: bm_bits_iff bit_iff_odd)
  then have "\<not> (\<forall>n < unat (32::u32). n \<notin> bm_bits [4])" by (auto intro!: exI [of _ 2])
  then show ?thesis
    using bitmap_ffs_exact_without_full_words [of 32 "[4]"] by (simp add: bm_words_32)
qed

end
