(* ===== verification/Layout.thy ===== *)
theory Layout
  imports KvTypes
begin

text \<open>
  The address layout of a store, \<open>src/kv_layout.cpp\<close>. The constructor derives from the
  sector size and the number of sparse address bits how an LBA splits into key bits and value
  bits; the lemmas at the end give these numbers for the sector sizes the store supports and
  state that a key slot of \<open>2 ^ value_bits\<close> sectors is large enough for a header and the
  largest value at every pool offset.
  Fields the constructor leaves uninitialised keep the value of the raw object \<open>l0\<close>.
\<close>

record nvm_kv_layout =
  m_inUseBMLba :: u64
  m_delBMLba :: u64
  m_poolTagsLba :: u64
  m_kvUserDataStartLba :: u64
  m_sectorSize :: u32
  m_sectBits :: u32
  m_valueBits :: u32
  m_keyBits :: u32
  m_maxValueSize :: u64
  m_poolBits :: u32
  m_kv_len :: u64
  m_mdRecs :: u64

definition M_KV_METADATA_LBA :: u64 where "M_KV_METADATA_LBA = 0"
definition M_KV_MAX_VALUE_RANGE :: u64 where "M_KV_MAX_VALUE_RANGE = 2097152"
definition M_KV_STAMP :: u64 where "M_KV_STAMP = 858623104131"

lemma unat_drop_bit_1: "unat (drop_bit 1 (w :: u32)) = unat w div 2"
  unfolding unat_drop_bit_eq by (simp add: drop_bit_eq_div)

function count_shifts :: "u32 \<Rightarrow> u32 \<Rightarrow> u32" where
  "count_shifts w bits =
     (let w' = drop_bit 1 w in if w' \<noteq> 0 then count_shifts w' (bits + 1) else bits)"
  by pat_completeness auto
termination
proof (relation "measure (\<lambda>(w, bits). unat w)")
  fix w w' bits :: u32
  assume w': "w' = drop_bit 1 w" and "w' \<noteq> 0"
  then have "unat w' \<noteq> 0" by (simp only: unat_eq_zero) simp
  moreover have "unat w' = unat w div 2" by (simp only: w' unat_drop_bit_1)
  ultimately show "((w', bits + 1), (w, bits)) \<in> measure (\<lambda>(w, bits). unat w)" by simp
qed simp

declare count_shifts.simps [simp del]

definition layout_new :: "nvm_kv_layout \<Rightarrow> u32 \<Rightarrow> u32 \<Rightarrow> nvm_kv_layout" where
  "layout_new l0 sector_size sparse_addr_bits =
     (let sectBits = count_shifts sector_size 0;
          max_value_in_sector = ucast (M_KV_MAX_VALUE_RANGE div ucast sector_size) :: u32;
          valueBits = count_shifts max_value_in_sector 0
      in l0\<lparr>m_sectorSize := sector_size,
            m_sectBits := sectBits,
            m_inUseBMLba := nvm_kv_round_upto_blk (of_nat KV_STORE_METADATA_SIZE) (ucast sector_size)
                            div ucast sector_size,
            m_poolTagsLba := ucast max_value_in_sector,
            m_maxValueSize := M_KV_MAX_VALUE_RANGE div 2 - ucast sector_size,
            m_valueBits := valueBits,
            m_keyBits := sparse_addr_bits - valueBits,
            m_poolBits := valueBits - 1,
            m_kv_len := push_bit (unat sparse_addr_bits) 1\<rparr>)"

definition set_md_rec :: "u64 \<Rightarrow> nvm_kv_layout \<Rightarrow> nvm_kv_layout" where
  "set_md_rec md_recs l =
     (let md_secs = (md_recs * M_KV_MAX_VALUE_RANGE) div ucast (m_sectorSize l)
      in l\<lparr>m_mdRecs := md_recs, m_kvUserDataStartLba := md_secs\<rparr>)"

definition set_del_bm_lba :: "u32 \<Rightarrow> nvm_kv_layout \<Rightarrow> nvm_kv_layout" where
  "set_del_bm_lba lba l = l\<lparr>m_delBMLba := ucast lba\<rparr>"

definition get_metadata_lba :: "nvm_kv_layout \<Rightarrow> u64" where
  "get_metadata_lba l = M_KV_METADATA_LBA"

definition get_inuse_bm_lba :: "nvm_kv_layout \<Rightarrow> u64" where
  "get_inuse_bm_lba l = m_inUseBMLba l"

definition get_pool_tags_lba :: "nvm_kv_layout \<Rightarrow> u64" where
  "get_pool_tags_lba l = m_poolTagsLba l"

definition get_del_bm_lba :: "nvm_kv_layout \<Rightarrow> u64" where
  "get_del_bm_lba l = m_delBMLba l"

definition get_data_start_lba :: "nvm_kv_layout \<Rightarrow> u64" where
  "get_data_start_lba l = m_kvUserDataStartLba l"

definition get_pool_bits :: "nvm_kv_layout \<Rightarrow> u32" where
  "get_pool_bits l = m_poolBits l"

definition get_val_bits :: "nvm_kv_layout \<Rightarrow> u32" where
  "get_val_bits l = m_valueBits l"

definition get_sect_bits :: "nvm_kv_layout \<Rightarrow> u32" where
  "get_sect_bits l = m_sectBits l"

definition get_key_bits :: "nvm_kv_layout \<Rightarrow> u32" where
  "get_key_bits l = m_keyBits l"

definition get_max_val_range :: "nvm_kv_layout \<Rightarrow> u64" where
  "get_max_val_range l = M_KV_MAX_VALUE_RANGE"

definition get_max_search_range :: "nvm_kv_layout \<Rightarrow> u32" where
  "get_max_search_range l = ucast (M_KV_MAX_VALUE_RANGE div ucast (m_sectorSize l))"

definition get_kv_stamp :: "nvm_kv_layout \<Rightarrow> u64" where
  "get_kv_stamp l = M_KV_STAMP"

definition get_kv_len :: "nvm_kv_layout \<Rightarrow> u64" where
  "get_kv_len l = m_kv_len l"

lemmas layout_getters [kv_defs] =
  get_metadata_lba_def get_inuse_bm_lba_def get_pool_tags_lba_def get_del_bm_lba_def
  get_data_start_lba_def get_pool_bits_def get_val_bits_def get_sect_bits_def get_key_bits_def
  get_max_val_range_def get_kv_stamp_def get_kv_len_def

lemma count_shifts_range:
  "unat w = n \<Longrightarrow> 2 ^ k \<le> n \<Longrightarrow> n < 2 ^ Suc k \<Longrightarrow> count_shifts w bits = bits + of_nat k"
proof (induction k arbitrary: w bits n)
  case 0
  then have "unat (drop_bit 1 w) = 0" using unat_drop_bit_1 [of w] by simp
  then show ?case by (simp only: count_shifts.simps [of w] Let_def unat_eq_zero) simp
next
  case (Suc k)
  have u: "unat (drop_bit 1 w) = n div 2" using unat_drop_bit_1 [of w] Suc.prems(1) by simp
  have b: "2 ^ k \<le> n div 2" "n div 2 < 2 ^ Suc k" using Suc.prems by (simp_all add: div_less_iff_less_mult)
  have "(0::nat) < 2 ^ k" by simp
  then have "drop_bit 1 w \<noteq> 0" using u b(1) by (metis leD unat_eq_zero)
  then have "count_shifts w bits = count_shifts (drop_bit 1 w) (bits + 1)"
    by (simp only: count_shifts.simps [of w] Let_def if_True simp_thms)
  also have "\<dots> = (bits + 1) + of_nat k" by (rule Suc.IH [OF u b])
  finally show ?case by simp
qed

lemma count_shifts_pow2: "k < 32 \<Longrightarrow> count_shifts (2 ^ k) 0 = of_nat k"
proof -
  assume k: "k < 32"
  have "unat ((2::u32) ^ k) = 2 ^ k"
    using power_strict_increasing [OF k, of "2::nat"] unat_of_nat_nowrap [of "2 ^ k", where ?'a = 32]
    by simp
  then show ?thesis using count_shifts_range [of "2 ^ k" "2 ^ k" k 0] by simp
qed

section \<open>The numbers for a sector of \<open>2 ^ k\<close> bytes\<close>

lemma unat_pow2_u32: "k < 32 \<Longrightarrow> unat ((2::u32) ^ k) = 2 ^ k"
  using power_strict_increasing [of k 32 "2::nat"] unat_of_nat_nowrap [of "2 ^ k", where ?'a = 32]
  by simp

lemma max_range_sectors:
  assumes "k \<le> 20"
  shows "unat (M_KV_MAX_VALUE_RANGE div ucast ((2::u32) ^ k)) = 2 ^ (21 - k)"
proof -
  have "unat (ucast ((2::u32) ^ k) :: u64) = 2 ^ k"
    using assms by (simp only: unat_ucast_u64) (simp add: unat_pow2_u32)
  moreover have e: "(2::nat) ^ 21 = 2 ^ (21 - k) * 2 ^ k"
    using assms by (simp only: power_add [symmetric]) simp
  have "(2::nat) ^ 21 div 2 ^ k = 2 ^ (21 - k)"
    unfolding e by (rule nonzero_mult_div_cancel_right) simp
  then have "(2097152::nat) div 2 ^ k = 2 ^ (21 - k)" by simp
  ultimately show ?thesis by (simp add: M_KV_MAX_VALUE_RANGE_def unat_div)
qed

lemma max_range_sectors_u32:
  assumes "k \<le> 20"
  shows "(ucast (M_KV_MAX_VALUE_RANGE div ucast ((2::u32) ^ k)) :: u32) = 2 ^ (21 - k)"
proof -
  have "(2::nat) ^ (21 - k) < 2 ^ 32" by (rule power_strict_increasing) simp_all
  then have "unat (ucast (M_KV_MAX_VALUE_RANGE div ucast ((2::u32) ^ k)) :: u32) = 2 ^ (21 - k)"
    by (simp only: unsigned_ucast_eq max_range_sectors [OF assms]) (simp add: take_bit_nat_eq_self)
  then show ?thesis
    using unat_pow2_u32 [of "21 - k"] by (simp add: word_unat_eq_iff)
qed

lemma layout_new_values:
  fixes l0 :: nvm_kv_layout and sparse :: u32
  assumes "k \<le> 20"
  defines "l \<equiv> layout_new l0 (2 ^ k) sparse"
  shows "m_sectorSize l = 2 ^ k" and "m_sectBits l = of_nat k"
    and "m_valueBits l = of_nat (21 - k)" and "m_poolBits l = of_nat (20 - k)"
    and "m_keyBits l = sparse - of_nat (21 - k)" and "unat (get_max_search_range l) = 2 ^ (21 - k)"
    and "m_kv_len l = push_bit (unat sparse) 1" and "unat (m_poolTagsLba l) = 2 ^ (21 - k)"
proof -
  have c1: "count_shifts (2 ^ k) 0 = of_nat k"
    and c2: "count_shifts (2 ^ (21 - k)) 0 = of_nat (21 - k)"
    using assms by (simp_all add: count_shifts_pow2)
  have "of_nat (21 - k) = of_nat (20 - k) + (1 :: u32)"
    using assms(1) by (simp add: Suc_diff_le [symmetric])
  then have pb: "of_nat (21 - k) - (1 :: u32) = of_nat (20 - k)" by simp
  note d = l_def layout_new_def Let_def c1 c2 max_range_sectors_u32 [OF assms(1)]
  show "m_sectorSize l = 2 ^ k" "m_sectBits l = of_nat k"
    "m_valueBits l = of_nat (21 - k)" "m_poolBits l = of_nat (20 - k)"
    "m_keyBits l = sparse - of_nat (21 - k)" "m_kv_len l = push_bit (unat sparse) 1"
    unfolding d using pb by simp_all
  show "unat (get_max_search_range l) = 2 ^ (21 - k)" "unat (m_poolTagsLba l) = 2 ^ (21 - k)"
    unfolding d get_max_search_range_def
    by (simp_all add: max_range_sectors_u32 [OF assms(1)] unat_ucast_u64 unat_pow2_u32)
qed

lemma slot_capacity:
  assumes "k \<le> 20" and "p < 2 ^ (20 - k)" and "v \<le> NVM_KV_MAX_VALUE_SIZE"
  shows "p + 1 + rnd v (2 ^ k) div 2 ^ k \<le> 2 ^ (21 - k)"
proof -
  have e: "(2::nat) ^ 20 = 2 ^ (20 - k) * 2 ^ k"
    using assms(1) by (simp only: power_add [symmetric]) simp
  have "(2::nat) ^ k \<le> 2 ^ 20" using assms(1) by (intro power_increasing) simp_all
  then have fits: "v + 2 ^ k \<le> 2 ^ 64" using assms(3) by (simp add: NVM_KV_MAX_VALUE_SIZE_def)
  have "v \<le> 2 ^ 20" using assms(3) by (simp add: NVM_KV_MAX_VALUE_SIZE_def)
  then have "rnd v (2 ^ k) \<le> 2 ^ 20"
    using assms(1) fits by (intro rnd_least le_imp_power_dvd) simp_all
  then have "rnd v (2 ^ k) div 2 ^ k \<le> 2 ^ (20 - k)"
    unfolding e by (simp add: div_le_mono [of _ "2 ^ (20 - k) * 2 ^ k" "2 ^ k", simplified])
  moreover have "(2::nat) ^ (21 - k) = 2 ^ (20 - k) + 2 ^ (20 - k)"
    using assms(1) by (simp add: Suc_diff_le [symmetric] flip: mult_2 power_Suc)
  ultimately show ?thesis using assms(2) by linarith
qed

section \<open>Properties\<close>

text \<open>
  C33: a key slot is large enough. For every sector size \<open>2 ^ k\<close> up to 1 MB, every pool
  offset of \<open>m_poolBits\<close> bits and every value the store accepts, the header sector and
  the sectors of the value, starting at that offset, end inside the \<open>2 ^ m_valueBits\<close>
  sectors of the slot, and these are the sectors that a search for a key covers.
\<close>

theorem key_slot_holds_largest_value:
  assumes "k \<le> 20" and "unat p < 2 ^ unat (get_pool_bits (layout_new l0 (2 ^ k) sparse))"
    and "v \<le> NVM_KV_MAX_VALUE_SIZE"
  shows "unat p + 1 + rnd v (2 ^ k) div 2 ^ k \<le> 2 ^ unat (get_val_bits (layout_new l0 (2 ^ k) sparse)) \<and>
         unat (get_max_search_range (layout_new l0 (2 ^ k) sparse)) =
           2 ^ unat (get_val_bits (layout_new l0 (2 ^ k) sparse))"
proof -
  note vals = layout_new_values [OF assms(1), of l0 sparse]
  have "unat (of_nat (20 - k) :: u32) = 20 - k" "unat (of_nat (21 - k) :: u32) = 21 - k"
    by (simp_all add: unat_of_nat)
  then have b: "unat (get_pool_bits (layout_new l0 (2 ^ k) sparse)) = 20 - k"
    "unat (get_val_bits (layout_new l0 (2 ^ k) sparse)) = 21 - k"
    using vals(3,4) by (simp_all add: get_pool_bits_def get_val_bits_def)
  show ?thesis
    using slot_capacity [OF assms(1) _ assms(3), of "unat p"] assms(2) vals(6) unfolding b by simp
qed

definition raw_layout :: nvm_kv_layout where
  "raw_layout =
     \<lparr>m_inUseBMLba = 0, m_delBMLba = 0, m_poolTagsLba = 0, m_kvUserDataStartLba = 0,
      m_sectorSize = 0, m_sectBits = 0, m_valueBits = 0, m_keyBits = 0, m_maxValueSize = 0,
      m_poolBits = 0, m_kv_len = 0, m_mdRecs = 0\<rparr>"

theorem key_slot_holds_largest_value_witness:
  "unat (2047 :: u64) + 1 + rnd 1047552 (2 ^ 9) div 2 ^ 9
     \<le> 2 ^ unat (get_val_bits (layout_new raw_layout (2 ^ 9) 48))"
proof -
  have "unat (get_pool_bits (layout_new raw_layout (2 ^ 9) 48)) = 11"
    using layout_new_values(4) [of 9 raw_layout 48] by (simp add: get_pool_bits_def)
  then show ?thesis
    using key_slot_holds_largest_value [of 9 "2047 :: u64" raw_layout 48 1047552]
    by (simp add: NVM_KV_MAX_VALUE_SIZE_def)
qed

end
