(* ===== verification/HashFunc.thy ===== *)
theory HashFunc
  imports KvTypes
begin

text \<open>
  The hash functions of \<open>util/kv_hash_func.cpp\<close>: FNV-1a over key and pool id, the
  folding to \<open>hash_len\<close> bits, the alignment to the device address space, and the two
  probing methods that resolve collisions. All arithmetic is on 64 bit words. The lemmas give
  the ranges of the hash and of the probes, which keep the hash table accesses of the cache in
  bounds and the key addresses on slot boundaries.
\<close>

datatype hashtype = FNV1A
datatype coltype = SEQUENTIAL_PROBE | POLYNOMIAL_PROBE

record nvm_kv_hash_func =
  m_hashFunType :: hashtype
  m_colHandletype :: coltype
  m_alignmentAddr :: u32
  m_sliceAddr :: u32

definition M_FNV_BASIS :: u64 where "M_FNV_BASIS = 14695981039346656037"
definition M_FNV_PRIME :: u64 where "M_FNV_PRIME = 1099511628211"
definition M_TINY_HASH_LEN :: u32 where "M_TINY_HASH_LEN = 32"

definition hash_new :: "u32 \<Rightarrow> nvm_kv_hash_func" where
  "hash_new slice0 =
     \<lparr>m_hashFunType = FNV1A, m_colHandletype = SEQUENTIAL_PROBE, m_alignmentAddr = 0,
      m_sliceAddr = slice0\<rparr>"

definition hash_initialize ::
  "hashtype \<Rightarrow> coltype \<Rightarrow> u32 \<Rightarrow> u32 \<Rightarrow> nvm_kv_hash_func \<Rightarrow> nvm_kv_hash_func" where
  "hash_initialize hash_type col_type align_addr_bits slice_addr hf =
     hf\<lparr>m_hashFunType := hash_type, m_colHandletype := col_type,
        m_alignmentAddr := align_addr_bits, m_sliceAddr := slice_addr\<rparr>"

definition fnv_step :: "u64 \<Rightarrow> u8 \<Rightarrow> u64" where
  "fnv_step h b = (h XOR ucast b) * M_FNV_PRIME"

definition fnv1a :: "nvm_kv_hash_func \<Rightarrow> bytes \<Rightarrow> u32 \<Rightarrow> u64" where
  "fnv1a hf key pool_id =
     (let h = foldl fnv_step M_FNV_BASIS key;
          h = (if pool_id \<noteq> 0 then foldl fnv_step h (le_bytes 4 pool_id) else h)
      in if h < ucast (m_sliceAddr hf) then h + ucast (m_sliceAddr hf) else h)"

definition fold_hash :: "u32 \<Rightarrow> u64 \<Rightarrow> u64" where
  "fold_hash hash_len hash =
     (let n = unat hash_len in
      if hash_len > M_TINY_HASH_LEN
      then drop_bit n hash XOR (hash AND (push_bit n 1 - 1))
      else (drop_bit n hash XOR hash) AND (push_bit n 1 - 1))"

definition key_hash :: "nvm_kv_hash_func \<Rightarrow> bytes \<Rightarrow> u32 \<Rightarrow> u32 \<Rightarrow> u32 \<Rightarrow> bool \<Rightarrow> u64" where
  "key_hash hf key key_len pool_id hash_len align =
     (if key_len = 0 \<or> hash_len = 0 then 0
      else
        (let hash = (case m_hashFunType hf of
                       FNV1A \<Rightarrow> fnv1a hf (take (unat key_len) key) pool_id);
             hash = fold_hash hash_len hash
         in if align
            then (let align_left = ucast (m_alignmentAddr hf - hash_len) :: u64
                  in push_bit (unat align_left) hash)
            else hash))"

definition sequential_probe :: "nvm_kv_hash_func \<Rightarrow> u64 \<Rightarrow> u32 \<Rightarrow> u32 \<Rightarrow> u64" where
  "sequential_probe hf prev_hash ntimes align_left =
     (let hash = prev_hash + push_bit (unat align_left) (ucast ntimes)
      in hash mod push_bit (unat (m_alignmentAddr hf - align_left)) 1)"

definition polynom_probe :: "nvm_kv_hash_func \<Rightarrow> u64 \<Rightarrow> u32 \<Rightarrow> u32 \<Rightarrow> u64" where
  "polynom_probe hf prev_hash ntimes align_left =
     (let hash = prev_hash + push_bit (unat align_left) (ucast ntimes * ucast ntimes)
      in hash mod push_bit (unat (m_alignmentAddr hf - align_left)) 1)"

definition resolve_coll ::
  "nvm_kv_hash_func \<Rightarrow> u32 \<Rightarrow> u64 \<Rightarrow> u32 \<Rightarrow> u32 \<Rightarrow> bool \<Rightarrow> u64" where
  "resolve_coll hf key_len prev_hash ntimes hash_len align =
     (if key_len = 0 \<or> hash_len = 0 then 0
      else
        (let align_left = (if align then m_alignmentAddr hf - hash_len else 0)
         in case m_colHandletype hf of
              SEQUENTIAL_PROBE \<Rightarrow> sequential_probe hf prev_hash ntimes align_left
            | POLYNOMIAL_PROBE \<Rightarrow> polynom_probe hf prev_hash ntimes align_left))"

section \<open>Ranges of the hash\<close>

lemma take_bit_eq_self_u64: "n \<le> 64 \<Longrightarrow> unat (w :: u64) < 2 ^ n \<Longrightarrow> take_bit n w = w"
  by (simp only: word_unat_eq_iff unsigned_take_bit_eq take_bit_nat_eq_self)

lemma unat_take_bit_less: "unat (take_bit n (w :: u64)) < 2 ^ n"
  by (simp only: unsigned_take_bit_eq take_bit_nat_less_exp)

lemma push_bit_1_minus_1: "push_bit n 1 - 1 = (mask n :: u64)"
  by (simp only: push_bit_of_1 mask_eq_exp_minus_1)

lemma fold_hash_bound:
  assumes "unat hash_len < 64"
  shows "unat (fold_hash hash_len h) < 2 ^ unat hash_len"
proof (cases "hash_len > M_TINY_HASH_LEN")
  case False
  then show ?thesis
    by (simp add: fold_hash_def Let_def push_bit_1_minus_1 unat_mask_bound
        del: push_bit_of_1)
next
  case True
  let ?n = "unat hash_len"
  have n: "32 < ?n" using True by (simp add: M_TINY_HASH_LEN_def word_less_nat_alt)
  have high: "k < ?n" if "bit (drop_bit ?n h) k" for k
    using n bit_imp_le_length [of h "?n + k"] that by (simp add: bit_drop_bit_eq)
  have "fold_hash hash_len h = take_bit ?n (fold_hash hash_len h)"
    using True
    by (intro bit_word_eqI)
       (auto simp: fold_hash_def Let_def push_bit_1_minus_1 bit_xor_iff bit_and_iff bit_mask_iff
          bit_take_bit_iff simp del: push_bit_of_1 dest: high)
  then show ?thesis using unat_take_bit_less [of ?n "fold_hash hash_len h"] by simp
qed

lemma key_hash_unaligned_bound:
  assumes "unat hash_len < 64"
  shows "unat (key_hash hf key key_len pool_id hash_len False) < 2 ^ unat hash_len"
  using fold_hash_bound [OF assms] by (simp add: key_hash_def Let_def split: hashtype.splits)

lemma unat_push_bit_nowrap:
  assumes "unat w < 2 ^ m" and "m + k \<le> 64"
  shows "unat (push_bit k w :: u64) = unat w * 2 ^ k"
proof -
  have "unat w * 2 ^ k < 2 ^ m * 2 ^ k" using assms(1) by simp
  also have "\<dots> \<le> 2 ^ 64" using assms(2) power_increasing [of "m + k" 64 "2::nat"]
    by (simp only: power_add [symmetric])
  finally have small: "unat w * 2 ^ k < 2 ^ 64" .
  have "unat (push_bit k w) = take_bit 64 (push_bit k (unat w))"
    by (simp only: unsigned_push_bit_eq) simp
  also have "\<dots> = take_bit 64 (unat w * 2 ^ k)"
    by (simp only: push_bit_eq_mult)
  also have "\<dots> = unat w * 2 ^ k"
    using small by (simp only: take_bit_nat_eq_self)
  finally show ?thesis .
qed

definition align_left_of :: "nvm_kv_hash_func \<Rightarrow> u32 \<Rightarrow> nat" where
  "align_left_of hf hash_len = unat (m_alignmentAddr hf - hash_len)"

lemma align_left_sum:
  "hash_len \<le> m_alignmentAddr hf \<Longrightarrow>
   unat hash_len + align_left_of hf hash_len = unat (m_alignmentAddr hf)"
  by (simp add: align_left_of_def unat_sub word_le_nat_alt)

lemma key_hash_aligned:
  assumes "hash_len \<le> m_alignmentAddr hf" and "unat (m_alignmentAddr hf) \<le> 63"
  obtains s where "key_hash hf key key_len pool_id hash_len True = push_bit (align_left_of hf hash_len) s"
    and "unat s < 2 ^ unat hash_len"
proof
  let ?s = "key_hash hf key key_len pool_id hash_len False"
  have "unat hash_len < 64" using assms by (simp add: word_le_nat_alt)
  then show "unat ?s < 2 ^ unat hash_len" by (rule key_hash_unaligned_bound)
  have "unat (ucast (m_alignmentAddr hf - hash_len) :: u64) = align_left_of hf hash_len"
    by (simp add: align_left_of_def unat_ucast_u64)
  then show "key_hash hf key key_len pool_id hash_len True = push_bit (align_left_of hf hash_len) ?s"
    by (simp add: key_hash_def Let_def)
qed

section \<open>Ranges of the probes\<close>

lemma unat_push_1: "n < 64 \<Longrightarrow> unat (push_bit n 1 :: u64) = 2 ^ n"
  using unat_push_bit_nowrap [of 1 1 n] by (simp del: push_bit_of_1)

lemma sequential_probe_eq:
  assumes "unat (m_alignmentAddr hf - al) < 64"
    and "unat prev + unat n * 2 ^ unat al < 2 ^ 64"
  shows "unat (sequential_probe hf prev n al) =
         (unat prev + unat n * 2 ^ unat al) mod 2 ^ unat (m_alignmentAddr hf - al)"
proof -
  have "unat (push_bit (unat al) (ucast n) :: u64) = take_bit 64 (push_bit (unat al) (unat n))"
    by (simp only: unsigned_push_bit_eq unat_ucast_u64) simp
  also have "\<dots> = unat n * 2 ^ unat al"
    using assms(2) by (simp only: push_bit_eq_mult) (rule take_bit_nat_eq_self, linarith)
  finally have p: "unat (push_bit (unat al) (ucast n) :: u64) = unat n * 2 ^ unat al" .
  have "unat (prev + push_bit (unat al) (ucast n)) = unat prev + unat n * 2 ^ unat al"
    using assms(2) unfolding unat_word_ariths p by simp
  then show ?thesis
    by (simp only: sequential_probe_def Let_def unat_mod unat_push_1 [OF assms(1)])
qed

lemma resolve_coll_unaligned:
  assumes "m_colHandletype hf = SEQUENTIAL_PROBE" and "key_len \<noteq> 0" and "hash_len \<noteq> 0"
    and "unat (m_alignmentAddr hf) < 64" and "unat prev < 2 ^ 63"
  shows "unat (resolve_coll hf key_len prev n hash_len False) =
         (unat prev + unat n) mod 2 ^ unat (m_alignmentAddr hf)"
  using sequential_probe_eq [of hf 0 prev n] unat_less_u32 [of n] assms
  by (simp add: resolve_coll_def)

lemma resolve_coll_aligned:
  assumes "m_colHandletype hf = SEQUENTIAL_PROBE" and "key_len \<noteq> 0" and "hash_len \<noteq> 0"
    and "hash_len \<le> m_alignmentAddr hf" and "unat (m_alignmentAddr hf) < 64"
    and "unat prev + unat n * 2 ^ align_left_of hf hash_len < 2 ^ 64"
  shows "unat (resolve_coll hf key_len prev n hash_len True) =
         (unat prev + unat n * 2 ^ align_left_of hf hash_len) mod 2 ^ unat hash_len"
proof -
  let ?al = "m_alignmentAddr hf - hash_len"
  have "m_alignmentAddr hf - ?al = hash_len" by simp
  moreover have "unat hash_len < 64" using assms(4,5) by (simp add: word_le_nat_alt)
  ultimately show ?thesis
    using sequential_probe_eq [of hf ?al prev n] assms
    by (simp add: resolve_coll_def align_left_of_def)
qed

lemma aligned_probe_multiple:
  fixes s n a h :: nat
  assumes "a \<le> h"
  shows "(s * 2 ^ a + n * 2 ^ a) mod 2 ^ h = (s + n) mod 2 ^ (h - a) * 2 ^ a"
proof -
  have e: "(2::nat) ^ h = 2 ^ a * 2 ^ (h - a)" using assms by (simp add: power_add [symmetric])
  have "(s * 2 ^ a + n * 2 ^ a) mod 2 ^ h = (2 ^ a * (s + n)) mod (2 ^ a * 2 ^ (h - a))"
    unfolding e [symmetric] by (simp add: algebra_simps)
  also have "\<dots> = 2 ^ a * ((s + n) mod 2 ^ (h - a))" by (rule mod_mult_mult1)
  finally show ?thesis by (simp only: mult.commute)
qed

section \<open>Properties\<close>

text \<open>
  C34: the aligned key hash is the first sector of a key slot: a multiple of
  \<open>2 ^ (m_alignmentAddr - hash_len)\<close> inside the address space of
  \<open>2 ^ m_alignmentAddr\<close> sectors; without alignment the hash has at most
  \<open>hash_len\<close> bits, so it indexes a table of that many entries in bounds.
\<close>

theorem key_hash_in_range:
  assumes "hash_len \<le> m_alignmentAddr hf" and "unat (m_alignmentAddr hf) \<le> 63"
  shows "2 ^ align_left_of hf hash_len dvd unat (key_hash hf key key_len pool_id hash_len True) \<and>
         unat (key_hash hf key key_len pool_id hash_len True) < 2 ^ unat (m_alignmentAddr hf) \<and>
         unat (key_hash hf key key_len pool_id hash_len False) < 2 ^ unat hash_len"
proof -
  obtain s where s: "key_hash hf key key_len pool_id hash_len True = push_bit (align_left_of hf hash_len) s"
    and lt: "unat s < 2 ^ unat hash_len"
    using key_hash_aligned [OF assms] by blast
  have sum: "unat hash_len + align_left_of hf hash_len = unat (m_alignmentAddr hf)"
    using align_left_sum [OF assms(1)] .
  have u: "unat (key_hash hf key key_len pool_id hash_len True) = unat s * 2 ^ align_left_of hf hash_len"
    unfolding s by (rule unat_push_bit_nowrap [OF lt]) (use sum assms(2) in simp)
  have "unat s * 2 ^ align_left_of hf hash_len < 2 ^ unat hash_len * 2 ^ align_left_of hf hash_len"
    using lt by simp
  then have "unat s * 2 ^ align_left_of hf hash_len < 2 ^ unat (m_alignmentAddr hf)"
    by (simp only: power_add [symmetric] sum)
  moreover have "unat hash_len < 64" using sum assms(2) by simp
  ultimately show ?thesis unfolding u using key_hash_unaligned_bound by simp
qed

theorem key_hash_in_range_witness:
  "unat (key_hash (hash_initialize FNV1A SEQUENTIAL_PROBE 48 8192 (hash_new 0)) [1, 2] 2 1 36 True) < 2 ^ 48 \<and>
   (2 ^ 12 :: nat) dvd
     unat (key_hash (hash_initialize FNV1A SEQUENTIAL_PROBE 48 8192 (hash_new 0)) [1, 2] 2 1 36 True)"
  using key_hash_in_range [of 36 "hash_initialize FNV1A SEQUENTIAL_PROBE 48 8192 (hash_new 0)" "[1, 2]" 2 1]
  by (simp add: hash_initialize_def align_left_of_def)

text \<open>
  The sequential probe for a key slot. Started at slot \<open>s\<close>, the \<open>n\<close>-th probe
  is the slot \<open>s + n\<close> modulo \<open>2 ^ (hash_len - align_left)\<close>, not modulo the number of
  slots: it stays on a slot boundary and in the address space, but the upper bits of the slot
  number are lost, so two keys whose slots agree in the low bits share all their probes.
\<close>

theorem sequential_probe_slots:
  assumes "m_colHandletype hf = SEQUENTIAL_PROBE" and "key_len \<noteq> 0" and "hash_len \<noteq> 0"
    and "hash_len \<le> m_alignmentAddr hf" and "unat (m_alignmentAddr hf) < 64"
    and "align_left_of hf hash_len \<le> unat hash_len"
    and "(s + unat n) * 2 ^ align_left_of hf hash_len < 2 ^ 64"
  shows "unat (resolve_coll hf key_len (of_nat (s * 2 ^ align_left_of hf hash_len)) n hash_len True) =
         (s + unat n) mod 2 ^ (unat hash_len - align_left_of hf hash_len) * 2 ^ align_left_of hf hash_len"
proof -
  let ?a = "align_left_of hf hash_len"
  have u: "unat (of_nat (s * 2 ^ ?a) :: u64) = s * 2 ^ ?a"
  proof (rule unat_of_nat_nowrap)
    have "s * 2 ^ ?a \<le> (s + unat n) * 2 ^ ?a" by (simp only: mult_le_mono1 le_add1)
    also have "\<dots> < 2 ^ 64" by (rule assms(7))
    finally show "s * 2 ^ ?a < 2 ^ LENGTH(64)" by simp
  qed
  have "unat (of_nat (s * 2 ^ ?a) :: u64) + unat n * 2 ^ ?a < 2 ^ 64"
    using assms(7) unfolding u by (simp only: add_mult_distrib)
  from resolve_coll_aligned [OF assms(1-5) this]
  show ?thesis unfolding u using aligned_probe_multiple [OF assms(6)] by simp
qed

theorem sequential_probe_slots_witness:
  "unat (resolve_coll (hash_initialize FNV1A SEQUENTIAL_PROBE 48 8192 (hash_new 0)) 2
           (of_nat ((2 ^ 24 + 5) * 2 ^ 12)) 1 36 True) = 6 * 2 ^ 12"
  using sequential_probe_slots [of "hash_initialize FNV1A SEQUENTIAL_PROBE 48 8192 (hash_new 0)" 2 36 "2 ^ 24 + 5" 1]
  by (simp add: hash_initialize_def align_left_of_def)

end
