(* ===== verification/Cache.thy ===== *)
theory Cache
  imports HashFunc
begin

text \<open>
  The collision cache of \<open>src/kv_cache.cpp\<close>: a hash table of key-to-address entries with
  a bounded probe sequence and eviction of the entry with the oldest time stamp. The table is a
  list of entries; the C++ pointers into it are positions, and the \<open>std::map\<close> of eviction
  candidates is the list of its pairs in key order. The clock and the outcome of every
  allocation are arguments. The read-write lock brackets each operation, so an operation is one
  atomic step here.
\<close>

record nvm_kv_cache =
  m_cache_size :: nat
  m_total_entries :: nat
  m_cache_addr_bits :: u32
  m_cache_hash :: nvm_kv_hash_func
  m_hash_table :: "nvm_kv_cache_entry list"

definition M_COLLISION_LIMIT :: nat where "M_COLLISION_LIMIT = 8"

definition CACHE_SLOT_BYTES :: nat where "CACHE_SLOT_BYTES = 8 + 176"

definition cleared_entry :: "nat \<Rightarrow> nvm_kv_cache_entry" where
  "cleared_entry i =
     \<lparr>ce_key = zeros NVM_KV_MAX_KEY_SIZE, ce_key_len = 0, ce_value_len = 0, ce_pool_id = 0,
      ce_expiry = 0, ce_gen_count = 0, ce_index = of_nat i, ce_lba = 0, ce_ts = 0\<rparr>"

definition empty_context :: nvm_kv_cache_context where
  "empty_context =
     \<lparr>cc_entry = cleared_entry 0, cc_state = CACHE_ENTRY_NOT_FOUND, cc_expired = False\<rparr>"

section \<open>Construction\<close>

function addr_bits_loop :: "nat \<Rightarrow> u32 \<Rightarrow> u32" where
  "addr_bits_loop n bits =
     (let n = n div 2 in if n \<noteq> 0 then addr_bits_loop n (bits + 1) else bits)"
  by pat_completeness auto
termination by (relation "measure fst") auto

declare addr_bits_loop.simps [simp del]

definition cache_initialize ::
  "bool \<Rightarrow> bool \<Rightarrow> (nat \<Rightarrow> bool) \<Rightarrow> u64 \<Rightarrow> nvm_kv_cache res" where
  "cache_initialize hash_ok table_ok entry_ok cache_size =
     (let num_cache_entries = unat cache_size div CACHE_SLOT_BYTES;
          bits = addr_bits_loop num_cache_entries 0;
          total = 2 ^ unat bits
      in if \<not> hash_ok then Inl NVM_ERR_OUT_OF_MEMORY
         else if \<not> table_ok then Inl NVM_ERR_OUT_OF_MEMORY
         else if \<exists>count \<in> {0..<total}. \<not> entry_ok count then Inl NVM_ERR_OUT_OF_MEMORY
         else Inr
           \<lparr>m_cache_size = CACHE_SLOT_BYTES * total,
            m_total_entries = total,
            m_cache_addr_bits = bits,
            m_cache_hash = hash_initialize FNV1A SEQUENTIAL_PROBE bits 0 (hash_new 0),
            m_hash_table = map cleared_entry [0..<total]\<rparr>)"

definition kv_cache_get_size :: "nvm_kv_cache \<Rightarrow> nat" where
  "kv_cache_get_size ca = m_cache_size ca"

section \<open>Entries\<close>

definition kv_cache_entry_compare ::
  "nvm_kv_cache_entry \<Rightarrow> bytes \<Rightarrow> u32 \<Rightarrow> u32 \<Rightarrow> bool" where
  "kv_cache_entry_compare cache_entry key key_len pool_id \<longleftrightarrow>
     ce_key_len cache_entry = key_len \<and>
     take (unat key_len) (ce_key cache_entry) = take (unat key_len) key \<and>
     ce_pool_id cache_entry = pool_id"

definition kv_cache_entries_compare ::
  "nvm_kv_cache_entry \<Rightarrow> nvm_kv_cache_entry \<Rightarrow> bool" where
  "kv_cache_entries_compare one two \<longleftrightarrow>
     ce_key_len one = ce_key_len two \<and>
     take (unat (ce_key_len one)) (ce_key one) = take (unat (ce_key_len one)) (ce_key two) \<and>
     ce_pool_id one = ce_pool_id two"

definition kv_cache_entry_set ::
  "nvm_kv_cache_entry \<Rightarrow> bytes \<Rightarrow> u32 \<Rightarrow> u32 \<Rightarrow> u32 \<Rightarrow> u32 \<Rightarrow> u32 \<Rightarrow> u64 \<Rightarrow> int \<Rightarrow>
   nvm_kv_cache_entry" where
  "kv_cache_entry_set cache_entry key key_len pool_id value_len abs_expiry gen_count lba ts =
     cache_entry\<lparr>ce_key := memcpy 0 (take (unat key_len) key) (ce_key cache_entry),
                 ce_key_len := key_len, ce_pool_id := pool_id, ce_value_len := value_len,
                 ce_expiry := abs_expiry, ce_gen_count := gen_count, ce_lba := lba,
                 ce_ts := ts\<rparr>"

text \<open>The eviction map: ordered by time stamp, an insert under a present key has no effect.\<close>

fun evict_insert :: "int \<Rightarrow> nat \<Rightarrow> (int \<times> nat) list \<Rightarrow> (int \<times> nat) list" where
  "evict_insert ts slot [] = [(ts, slot)]"
| "evict_insert ts slot ((t, s) # m) =
     (if ts < t then (ts, slot) # (t, s) # m
      else if ts = t then (t, s) # m
      else (t, s) # evict_insert ts slot m)"

definition cache_hash_slot :: "nvm_kv_cache \<Rightarrow> bytes \<Rightarrow> u32 \<Rightarrow> u32 \<Rightarrow> u64" where
  "cache_hash_slot ca key key_len pool_id =
     key_hash (m_cache_hash ca) key key_len pool_id (m_cache_addr_bits ca) False"

definition cache_next_slot :: "nvm_kv_cache \<Rightarrow> u32 \<Rightarrow> u64 \<Rightarrow> nat \<Rightarrow> nat" where
  "cache_next_slot ca key_len init hash_itr =
     unat (resolve_coll (m_cache_hash ca) key_len init (of_nat hash_itr)
             (m_cache_addr_bits ca) False)"

section \<open>Put\<close>

definition put_in_context ::
  "bytes \<Rightarrow> u32 \<Rightarrow> u32 \<Rightarrow> u32 \<Rightarrow> u32 \<Rightarrow> u32 \<Rightarrow> u64 \<Rightarrow> int \<Rightarrow> nvm_kv_cache_context \<Rightarrow>
   nvm_kv_cache \<Rightarrow> nvm_kv_cache option" where
  "put_in_context key key_len pool_id value_len abs_expiry gen_count lba now ctx ca =
     (let slot = unat (ce_index (cc_entry ctx));
          cache_entry = m_hash_table ca ! slot;
          set_entry = kv_cache_entry_set cache_entry key key_len pool_id value_len abs_expiry
                        gen_count lba now
      in case cc_state ctx of
           CACHE_ENTRY_FOUND \<Rightarrow>
             (if kv_cache_entry_compare cache_entry key key_len pool_id
              then Some (ca\<lparr>m_hash_table := (m_hash_table ca)
                    [slot := cache_entry\<lparr>ce_value_len := value_len, ce_ts := now\<rparr>]\<rparr>)
              else None)
         | CACHE_ENTRY_EMPTY \<Rightarrow>
             (if ce_key_len cache_entry = 0
              then Some (ca\<lparr>m_hash_table := (m_hash_table ca)[slot := set_entry]\<rparr>)
              else None)
         | CACHE_ENTRY_DELETE \<Rightarrow>
             (if kv_cache_entries_compare cache_entry (cc_entry ctx)
              then Some (ca\<lparr>m_hash_table := (m_hash_table ca)[slot := set_entry]\<rparr>)
              else None)
         | CACHE_ENTRY_NOT_FOUND \<Rightarrow> None)"

function put_probe ::
  "nvm_kv_cache \<Rightarrow> bytes \<Rightarrow> u32 \<Rightarrow> u32 \<Rightarrow> u64 \<Rightarrow> nat \<Rightarrow> nat \<Rightarrow> (int \<times> nat) list \<Rightarrow>
   nat \<times> nat \<times> (int \<times> nat) list" where
  "put_probe ca key key_len pool_id init hash_itr slot evict =
     (if hash_itr < M_COLLISION_LIMIT then
        (let cache_entry = m_hash_table ca ! slot in
         if ce_key_len cache_entry \<noteq> 0 then
           (if kv_cache_entry_compare cache_entry key key_len pool_id then (hash_itr, slot, evict)
            else put_probe ca key key_len pool_id init (Suc hash_itr)
                   (cache_next_slot ca key_len init hash_itr)
                   (evict_insert (ce_ts cache_entry) slot evict))
         else (hash_itr, slot, evict))
      else (hash_itr, slot, evict))"
  by pat_completeness auto
termination
  by (relation "measure (\<lambda>(ca, key, key_len, pool_id, init, itr, slot, evict). M_COLLISION_LIMIT - itr)")
    auto

declare put_probe.simps [simp del]

definition kv_cache_put ::
  "bytes \<Rightarrow> u32 \<Rightarrow> u32 \<Rightarrow> u32 \<Rightarrow> u32 \<Rightarrow> u32 \<Rightarrow> u64 \<Rightarrow> nvm_kv_cache_context option \<Rightarrow> int \<Rightarrow>
   nvm_kv_cache \<Rightarrow> nvm_kv_cache" where
  "kv_cache_put key key_len pool_id value_len abs_expiry gen_count lba cache_context now ca =
     (case (case cache_context of
              None \<Rightarrow> None
            | Some ctx \<Rightarrow> put_in_context key key_len pool_id value_len abs_expiry gen_count lba
                            now ctx ca) of
        Some ca' \<Rightarrow> ca'
      | None \<Rightarrow>
          (let init = cache_hash_slot ca key key_len pool_id;
               (hash_itr, slot, evict) =
                 put_probe ca key key_len pool_id init 0 (unat init) [];
               (slot, cache_entry) =
                 (if hash_itr = M_COLLISION_LIMIT
                  then (let victim = snd (hd evict);
                            index = ce_index (m_hash_table ca ! victim)
                        in (victim, (cleared_entry 0)\<lparr>ce_index := index\<rparr>))
                  else (slot, m_hash_table ca ! slot))
           in ca\<lparr>m_hash_table := (m_hash_table ca)
                   [slot := kv_cache_entry_set cache_entry key key_len pool_id value_len
                              abs_expiry gen_count lba now]\<rparr>))"

section \<open>Get\<close>

definition found_context ::
  "u32 \<Rightarrow> int \<Rightarrow> nvm_kv_cache_entry \<Rightarrow> nvm_kv_cache_context \<Rightarrow> nvm_kv_cache_context" where
  "found_context expiry_mode now cache_entry ctx =
     ctx\<lparr>cc_entry := cache_entry, cc_state := CACHE_ENTRY_FOUND,
         cc_expired := (if expiry_mode \<noteq> KV_DISABLE_EXPIRY \<and> ce_expiry cache_entry \<noteq> 0 \<and>
                           word_of_int now > ce_expiry cache_entry
                        then True else cc_expired ctx)\<rparr>"

function get_probe ::
  "u32 \<Rightarrow> int \<Rightarrow> nvm_kv_cache \<Rightarrow> bytes \<Rightarrow> u32 \<Rightarrow> u32 \<Rightarrow> u64 \<Rightarrow> nat \<Rightarrow> nat \<Rightarrow> nvm_kv_cache_context \<Rightarrow>
   (int \<times> nat) list \<Rightarrow> bool \<times> nvm_kv_cache_context \<times> (int \<times> nat) list" where
  "get_probe expiry_mode now ca key key_len pool_id init hash_itr slot ctx evict =
     (if hash_itr < M_COLLISION_LIMIT then
        (let cache_entry = m_hash_table ca ! slot in
         if ce_key_len cache_entry \<noteq> 0 then
           (if kv_cache_entry_compare cache_entry key key_len pool_id
            then (True, found_context expiry_mode now cache_entry ctx, evict)
            else get_probe expiry_mode now ca key key_len pool_id init (Suc hash_itr)
                   (cache_next_slot ca key_len init hash_itr) ctx
                   (evict_insert (ce_ts cache_entry) slot evict))
         else
           (let ctx = (if cc_state ctx = CACHE_ENTRY_NOT_FOUND
                       then ctx\<lparr>cc_entry := (cc_entry ctx)\<lparr>ce_index := of_nat slot\<rparr>,
                                cc_state := CACHE_ENTRY_EMPTY\<rparr>
                       else ctx)
            in get_probe expiry_mode now ca key key_len pool_id init (Suc hash_itr) slot ctx evict))
      else (False, ctx, evict))"
  by pat_completeness auto
termination
  by (relation "measure (\<lambda>(mode, now, ca, key, key_len, pool_id, init, itr, slot, ctx, evict).
        M_COLLISION_LIMIT - itr)") auto

declare get_probe.simps [simp del]

definition kv_cache_get ::
  "u32 \<Rightarrow> int \<Rightarrow> bytes \<Rightarrow> u32 \<Rightarrow> u32 \<Rightarrow> nvm_kv_cache \<Rightarrow> unit res \<times> nvm_kv_cache_context" where
  "kv_cache_get expiry_mode now key key_len pool_id ca =
     (let init = cache_hash_slot ca key key_len pool_id;
          (found, ctx, evict) =
            get_probe expiry_mode now ca key key_len pool_id init 0 (unat init) empty_context []
      in if found then (Inr (), ctx)
         else if cc_state ctx = CACHE_ENTRY_NOT_FOUND
         then (Inl NVM_ERR_OBJECT_NOT_FOUND,
               ctx\<lparr>cc_entry := m_hash_table ca ! snd (hd evict), cc_state := CACHE_ENTRY_DELETE\<rparr>)
         else (Inl NVM_ERR_OBJECT_NOT_FOUND, ctx))"

section \<open>Delete\<close>

function delete_probe ::
  "nvm_kv_cache \<Rightarrow> bytes \<Rightarrow> u32 \<Rightarrow> u32 \<Rightarrow> u64 \<Rightarrow> nat \<Rightarrow> nat \<Rightarrow> nat option" where
  "delete_probe ca key key_len pool_id init hash_itr slot =
     (if hash_itr < M_COLLISION_LIMIT then
        (if kv_cache_entry_compare (m_hash_table ca ! slot) key key_len pool_id then Some slot
         else delete_probe ca key key_len pool_id init (Suc hash_itr)
                (cache_next_slot ca key_len init hash_itr))
      else None)"
  by pat_completeness auto
termination
  by (relation "measure (\<lambda>(ca, key, key_len, pool_id, init, itr, slot). M_COLLISION_LIMIT - itr)")
    auto

declare delete_probe.simps [simp del]

definition kv_cache_delete ::
  "bytes \<Rightarrow> u32 \<Rightarrow> u32 \<Rightarrow> nvm_kv_cache \<Rightarrow> unit res \<times> nvm_kv_cache_entry \<times> nvm_kv_cache" where
  "kv_cache_delete key key_len pool_id ca =
     (let init = cache_hash_slot ca key key_len pool_id
      in case delete_probe ca key key_len pool_id init 0 (unat init) of
           None \<Rightarrow> (Inl NVM_ERR_OBJECT_NOT_FOUND, cleared_entry 0, ca)
         | Some slot \<Rightarrow>
             (let deleted_entry = m_hash_table ca ! slot
              in (Inr (), deleted_entry,
                  ca\<lparr>m_hash_table := (m_hash_table ca)
                       [slot := (cleared_entry 0)\<lparr>ce_index := ce_index deleted_entry\<rparr>]\<rparr>)))"

definition clear_where ::
  "(nvm_kv_cache_entry \<Rightarrow> bool) \<Rightarrow> nvm_kv_cache \<Rightarrow> nvm_kv_cache" where
  "clear_where P ca =
     ca\<lparr>m_hash_table := foldl
          (\<lambda>table i. if ce_key_len (table ! i) \<noteq> 0 \<and> P (table ! i)
                     then table[i := cleared_entry i] else table)
          (m_hash_table ca) [0..<m_total_entries ca]\<rparr>"

definition kv_cache_delete_lbas :: "u64 list \<Rightarrow> nvm_kv_cache \<Rightarrow> nvm_kv_cache" where
  "kv_cache_delete_lbas lba_list ca =
     foldl (\<lambda>ca lba. clear_where (\<lambda>e. ce_lba e = lba) ca) ca lba_list"

definition kv_cache_delete_pools :: "u32 set \<Rightarrow> nvm_kv_cache \<Rightarrow> nvm_kv_cache" where
  "kv_cache_delete_pools pool_ids ca = clear_where (\<lambda>e. ce_pool_id e \<in> pool_ids) ca"

definition kv_cache_delete_all_pools :: "u32 \<Rightarrow> nvm_kv_cache \<Rightarrow> nvm_kv_cache" where
  "kv_cache_delete_all_pools default_pool_id ca =
     clear_where (\<lambda>e. ce_pool_id e \<noteq> default_pool_id) ca"

definition kv_cache_delete_all :: "nvm_kv_cache \<Rightarrow> nvm_kv_cache" where
  "kv_cache_delete_all ca = clear_where (\<lambda>e. True) ca"

section \<open>The table invariant\<close>

definition cache_wf :: "nvm_kv_cache \<Rightarrow> bool" where
  "cache_wf ca \<longleftrightarrow>
     m_total_entries ca = 2 ^ unat (m_cache_addr_bits ca) \<and>
     unat (m_cache_addr_bits ca) < 62 \<and>
     m_cache_hash ca = hash_initialize FNV1A SEQUENTIAL_PROBE (m_cache_addr_bits ca) 0 (hash_new 0) \<and>
     length (m_hash_table ca) = m_total_entries ca \<and>
     (\<forall>i < m_total_entries ca. ce_index (m_hash_table ca ! i) = of_nat i \<and>
        length (ce_key (m_hash_table ca ! i)) = NVM_KV_MAX_KEY_SIZE)"

definition probe_slot :: "nvm_kv_cache \<Rightarrow> bytes \<Rightarrow> u32 \<Rightarrow> u32 \<Rightarrow> nat \<Rightarrow> nat" where
  "probe_slot ca key key_len pool_id i =
     (let init = cache_hash_slot ca key key_len pool_id
      in case i of 0 \<Rightarrow> unat init | Suc j \<Rightarrow> cache_next_slot ca key_len init j)"

definition entry_passed :: "nvm_kv_cache_entry \<Rightarrow> bytes \<Rightarrow> u32 \<Rightarrow> u32 \<Rightarrow> bool" where
  "entry_passed e key key_len pool_id \<longleftrightarrow>
     ce_key_len e \<noteq> 0 \<and> \<not> kv_cache_entry_compare e key key_len pool_id"

lemma addr_bits_loop_bound:
  "n < 2 ^ k \<Longrightarrow> 0 < k \<Longrightarrow> unat b + k < 2 ^ 32 \<Longrightarrow> unat (addr_bits_loop n b) < unat b + k"
proof (induction n b arbitrary: k rule: addr_bits_loop.induct)
  case (1 n b)
  show ?case
  proof (cases "n div 2 = 0")
    case True
    then show ?thesis using 1(3) by (simp add: addr_bits_loop.simps [of n b])
  next
    case False
    then have k: "k - 1 > 0" "n div 2 < 2 ^ (k - 1)"
      using 1(2,3) by (cases k; cases "k - 1"; simp)+
    have b: "unat (b + 1) = unat b + 1"
      using 1(3,4) unat_plus_of_nat [of b 1] by simp
    then have "unat (addr_bits_loop (n div 2) (b + 1)) < unat (b + 1) + (k - 1)"
      using False 1(3,4) k by (intro 1(1)) simp_all
    then show ?thesis using False b k by (simp add: addr_bits_loop.simps [of n b])
  qed
qed

lemma cache_initialize_wf: "cache_initialize h t e bytes_wanted = Inr ca \<Longrightarrow> cache_wf ca"
proof -
  have "unat bytes_wanted div CACHE_SLOT_BYTES < 2 ^ 60"
    using unat_less_u64 [of bytes_wanted] by (simp add: CACHE_SLOT_BYTES_def)
  then have "unat (addr_bits_loop (unat bytes_wanted div CACHE_SLOT_BYTES) 0) < 60"
    using addr_bits_loop_bound [of _ 60 0] by simp
  then show "cache_initialize h t e bytes_wanted = Inr ca \<Longrightarrow> cache_wf ca"
    by (auto simp: cache_initialize_def cache_wf_def Let_def cleared_entry_def split: if_splits)
qed

lemma slot_in_table:
  assumes "cache_wf ca"
  shows "probe_slot ca key key_len pool_id i < m_total_entries ca"
proof -
  let ?hf = "m_cache_hash ca" and ?b = "m_cache_addr_bits ca"
  let ?init = "cache_hash_slot ca key key_len pool_id"
  have b: "unat ?b < 62" and t: "m_total_entries ca = 2 ^ unat ?b"
    using assms by (simp_all add: cache_wf_def)
  have hf: "m_colHandletype ?hf = SEQUENTIAL_PROBE" "m_alignmentAddr ?hf = ?b"
    using assms by (simp_all add: cache_wf_def hash_initialize_def)
  have init: "unat ?init < 2 ^ unat ?b"
    using b by (simp add: cache_hash_slot_def key_hash_unaligned_bound)
  show ?thesis
  proof (cases i)
    case 0
    then show ?thesis using init t by (simp add: probe_slot_def)
  next
    case (Suc j)
    have le: "(2::nat) ^ unat ?b \<le> 2 ^ 62" using b by (intro power_increasing) simp_all
    show ?thesis
    proof (cases "key_len = 0 \<or> ?b = 0")
      case True
      then show ?thesis using Suc t by (simp add: probe_slot_def cache_next_slot_def resolve_coll_def)
    next
      case False
      moreover have "unat ?init < 2 ^ 63"
        using less_le_trans [OF init le] by (rule less_trans) simp
      ultimately have "unat (resolve_coll ?hf key_len ?init (of_nat j) ?b False) < 2 ^ unat ?b"
        using b hf by (subst resolve_coll_unaligned) simp_all
      then show ?thesis using Suc t by (simp add: probe_slot_def cache_next_slot_def)
    qed
  qed
qed

lemma entry_at:
  assumes "cache_wf ca" and "i < m_total_entries ca"
  shows "unat (ce_index (m_hash_table ca ! i)) = i"
    and "length (ce_key (m_hash_table ca ! i)) = NVM_KV_MAX_KEY_SIZE"
    and "i < length (m_hash_table ca)"
proof -
  have le: "(2::nat) ^ unat (m_cache_addr_bits ca) \<le> 2 ^ 62"
    using assms by (intro power_increasing) (simp_all add: cache_wf_def)
  have lt: "i < 2 ^ unat (m_cache_addr_bits ca)" using assms by (simp add: cache_wf_def)
  have "i < 2 ^ 64" using less_le_trans [OF lt le] by (rule less_trans) simp
  then show "unat (ce_index (m_hash_table ca ! i)) = i"
    using assms by (simp add: cache_wf_def unat_of_nat)
  show "length (ce_key (m_hash_table ca ! i)) = NVM_KV_MAX_KEY_SIZE" "i < length (m_hash_table ca)"
    using assms by (simp_all add: cache_wf_def)
qed

lemma cache_wf_update:
  assumes "cache_wf ca" and "ce_index e = of_nat i" and "length (ce_key e) = NVM_KV_MAX_KEY_SIZE"
  shows "cache_wf (ca\<lparr>m_hash_table := (m_hash_table ca)[i := e]\<rparr>)"
proof (cases "i < length (m_hash_table ca)")
  case True
  with assms show ?thesis by (auto simp: cache_wf_def nth_list_update)
next
  case False
  with assms show ?thesis by (simp add: cache_wf_def)
qed

lemma probe_slot_table [simp]:
  "probe_slot (ca\<lparr>m_hash_table := t\<rparr>) key key_len pool_id i = probe_slot ca key key_len pool_id i"
  by (simp add: probe_slot_def cache_hash_slot_def cache_next_slot_def Let_def cong: nat.case_cong)

section \<open>Where a probe stops\<close>

abbreviation slot_passed :: "nvm_kv_cache \<Rightarrow> bytes \<Rightarrow> u32 \<Rightarrow> u32 \<Rightarrow> nat \<Rightarrow> bool" where
  "slot_passed ca key key_len pool_id i \<equiv>
     entry_passed (m_hash_table ca ! probe_slot ca key key_len pool_id i) key key_len pool_id"

lemma next_slot:
  "cache_next_slot ca key_len (cache_hash_slot ca key key_len pool_id) i =
   probe_slot ca key key_len pool_id (Suc i)"
  by (simp add: probe_slot_def)

lemma probe_slot_0: "unat (cache_hash_slot ca key key_len pool_id) = probe_slot ca key key_len pool_id 0"
  by (simp add: probe_slot_def)

lemma put_probe_stop:
  "i \<le> k \<Longrightarrow> k < M_COLLISION_LIMIT \<Longrightarrow> \<forall>j. i \<le> j \<longrightarrow> j < k \<longrightarrow> slot_passed ca key key_len pool_id j \<Longrightarrow>
   \<not> slot_passed ca key key_len pool_id k \<Longrightarrow>
   \<exists>ev'. put_probe ca key key_len pool_id (cache_hash_slot ca key key_len pool_id) i
          (probe_slot ca key key_len pool_id i) ev = (k, probe_slot ca key key_len pool_id k, ev')"
proof (induction "k - i" arbitrary: i ev)
  case 0
  then show ?case by (subst put_probe.simps) (auto simp: Let_def entry_passed_def)
next
  case (Suc n)
  then have "slot_passed ca key key_len pool_id i" and "i < k" by auto
  then show ?case using Suc.prems Suc.hyps(1) [of "Suc i"] Suc.hyps(2)
    by (subst put_probe.simps) (simp add: Let_def entry_passed_def next_slot)
qed

lemma set_evict_insert: "snd ` set (evict_insert t s m) \<subseteq> insert s (snd ` set m)"
  by (induction t s m rule: evict_insert.induct) auto

lemma evict_insert_not_Nil [simp]: "evict_insert t s m \<noteq> []"
  by (induction t s m rule: evict_insert.induct) auto

lemma put_probe_full:
  "i \<le> M_COLLISION_LIMIT \<Longrightarrow>
   \<forall>j. i \<le> j \<longrightarrow> j < M_COLLISION_LIMIT \<longrightarrow> slot_passed ca key key_len pool_id j \<Longrightarrow>
   snd ` set ev \<subseteq> probe_slot ca key key_len pool_id ` {..<i} \<Longrightarrow> 0 < i \<longrightarrow> ev \<noteq> [] \<Longrightarrow>
   \<exists>ev'. put_probe ca key key_len pool_id (cache_hash_slot ca key key_len pool_id) i
            (probe_slot ca key key_len pool_id i) ev =
            (M_COLLISION_LIMIT, probe_slot ca key key_len pool_id M_COLLISION_LIMIT, ev') \<and>
         ev' \<noteq> [] \<and> snd ` set ev' \<subseteq> probe_slot ca key key_len pool_id ` {..<M_COLLISION_LIMIT}"
proof (induction "M_COLLISION_LIMIT - i" arbitrary: i ev)
  case 0
  then have "i = M_COLLISION_LIMIT" by simp
  then show ?case using 0 by (subst put_probe.simps) (simp add: M_COLLISION_LIMIT_def)
next
  case (Suc n)
  let ?s = "probe_slot ca key key_len pool_id"
  let ?ev = "evict_insert (ce_ts (m_hash_table ca ! ?s i)) (?s i) ev"
  have p: "slot_passed ca key key_len pool_id i" and i: "i < M_COLLISION_LIMIT"
    using Suc by auto
  have "snd ` set ?ev \<subseteq> ?s ` {..<Suc i}"
    using set_evict_insert [of "ce_ts (m_hash_table ca ! ?s i)" "?s i" ev] Suc.prems(3)
    by (auto simp: lessThan_Suc)
  then have "\<exists>ev'. put_probe ca key key_len pool_id (cache_hash_slot ca key key_len pool_id) (Suc i)
            (?s (Suc i)) ?ev = (M_COLLISION_LIMIT, ?s M_COLLISION_LIMIT, ev') \<and>
         ev' \<noteq> [] \<and> snd ` set ev' \<subseteq> ?s ` {..<M_COLLISION_LIMIT}"
    using Suc i by (intro Suc.hyps(1)) auto
  then show ?case using p i
    by (subst put_probe.simps) (simp add: Let_def entry_passed_def next_slot)
qed

lemma get_probe_hole:
  "ce_key_len (m_hash_table ca ! slot) = 0 \<Longrightarrow> cc_state ctx \<noteq> CACHE_ENTRY_NOT_FOUND \<Longrightarrow>
   get_probe mode now ca key key_len pool_id init i slot ctx ev = (False, ctx, ev)"
  by (induction "M_COLLISION_LIMIT - i" arbitrary: i; subst get_probe.simps) (auto simp: Let_def)

lemma get_probe_stop:
  "i \<le> k \<Longrightarrow> k < M_COLLISION_LIMIT \<Longrightarrow> \<forall>j. i \<le> j \<longrightarrow> j < k \<longrightarrow> slot_passed ca key key_len pool_id j \<Longrightarrow>
   \<not> slot_passed ca key key_len pool_id k \<Longrightarrow> cc_state ctx = CACHE_ENTRY_NOT_FOUND \<Longrightarrow>
   \<exists>ev'. get_probe mode now ca key key_len pool_id (cache_hash_slot ca key key_len pool_id) i
          (probe_slot ca key key_len pool_id i) ctx ev =
     (let slot = probe_slot ca key key_len pool_id k; e = m_hash_table ca ! slot in
      if ce_key_len e = 0
      then (False, ctx\<lparr>cc_entry := (cc_entry ctx)\<lparr>ce_index := of_nat slot\<rparr>,
                       cc_state := CACHE_ENTRY_EMPTY\<rparr>, ev')
      else (True, found_context mode now e ctx, ev'))"
proof (induction "k - i" arbitrary: i ev)
  case 0
  then have ik: "i = k" by simp
  then show ?case using 0
    by (subst get_probe.simps) (auto simp: Let_def entry_passed_def get_probe_hole)
next
  case (Suc n)
  then have "slot_passed ca key key_len pool_id i" and "i < k" by auto
  then show ?case using Suc.prems Suc.hyps(1) [of "Suc i"] Suc.hyps(2)
    by (subst get_probe.simps) (simp add: Let_def entry_passed_def next_slot)
qed

lemma get_probe_full:
  "i \<le> M_COLLISION_LIMIT \<Longrightarrow>
   \<forall>j. i \<le> j \<longrightarrow> j < M_COLLISION_LIMIT \<longrightarrow> slot_passed ca key key_len pool_id j \<Longrightarrow>
   snd ` set ev \<subseteq> probe_slot ca key key_len pool_id ` {..<i} \<Longrightarrow> 0 < i \<longrightarrow> ev \<noteq> [] \<Longrightarrow>
   \<exists>ev'. get_probe mode now ca key key_len pool_id (cache_hash_slot ca key key_len pool_id) i
            (probe_slot ca key key_len pool_id i) ctx ev = (False, ctx, ev') \<and>
         ev' \<noteq> [] \<and> snd ` set ev' \<subseteq> probe_slot ca key key_len pool_id ` {..<M_COLLISION_LIMIT}"
proof (induction "M_COLLISION_LIMIT - i" arbitrary: i ev)
  case 0
  then have "i = M_COLLISION_LIMIT" by simp
  then show ?case using 0 by (subst get_probe.simps) (simp add: M_COLLISION_LIMIT_def)
next
  case (Suc n)
  let ?s = "probe_slot ca key key_len pool_id"
  let ?ev = "evict_insert (ce_ts (m_hash_table ca ! ?s i)) (?s i) ev"
  have p: "slot_passed ca key key_len pool_id i" and i: "i < M_COLLISION_LIMIT"
    using Suc by auto
  have "snd ` set ?ev \<subseteq> ?s ` {..<Suc i}"
    using set_evict_insert [of "ce_ts (m_hash_table ca ! ?s i)" "?s i" ev] Suc.prems(3)
    by (auto simp: lessThan_Suc)
  then have "\<exists>ev'. get_probe mode now ca key key_len pool_id
            (cache_hash_slot ca key key_len pool_id) (Suc i) (?s (Suc i)) ctx ?ev = (False, ctx, ev') \<and>
         ev' \<noteq> [] \<and> snd ` set ev' \<subseteq> ?s ` {..<M_COLLISION_LIMIT}"
    using Suc i by (intro Suc.hyps(1)) auto
  then show ?case using p i
    by (subst get_probe.simps) (simp add: Let_def entry_passed_def next_slot)
qed

section \<open>Behaviour of the operations\<close>

definition key_arg_ok :: "bytes \<Rightarrow> u32 \<Rightarrow> bool" where
  "key_arg_ok key key_len \<longleftrightarrow>
     0 < unat key_len \<and> unat key_len \<le> NVM_KV_MAX_KEY_SIZE \<and> unat key_len \<le> length key"

definition least_stop :: "nvm_kv_cache \<Rightarrow> bytes \<Rightarrow> u32 \<Rightarrow> u32 \<Rightarrow> nat \<Rightarrow> bool" where
  "least_stop ca key key_len pool_id k \<longleftrightarrow>
     k < M_COLLISION_LIMIT \<and> \<not> slot_passed ca key key_len pool_id k \<and>
     (\<forall>j < k. slot_passed ca key key_len pool_id j)"

definition all_passed :: "nvm_kv_cache \<Rightarrow> bytes \<Rightarrow> u32 \<Rightarrow> u32 \<Rightarrow> bool" where
  "all_passed ca key key_len pool_id \<longleftrightarrow>
     (\<forall>j < M_COLLISION_LIMIT. slot_passed ca key key_len pool_id j)"

lemma stop_cases:
  obtains (stop) k where "least_stop ca key key_len pool_id k"
  | (full) "all_passed ca key key_len pool_id"
proof (cases "all_passed ca key key_len pool_id")
  case False
  then obtain n where n: "n < M_COLLISION_LIMIT" "\<not> slot_passed ca key key_len pool_id n"
    by (auto simp: all_passed_def)
  then obtain k where k: "k \<le> n" "\<forall>i < k. \<not> \<not> slot_passed ca key key_len pool_id i"
    "\<not> slot_passed ca key key_len pool_id k"
    using ex_least_nat_le [of "\<lambda>i. \<not> slot_passed ca key key_len pool_id i" n] by blast
  show thesis
    by (rule stop [of k]) (use k n in \<open>simp add: least_stop_def\<close>)
qed

lemma first_slot:
  assumes "slot \<in> probe_slot ca key key_len pool_id ` {..<M_COLLISION_LIMIT}"
  obtains k where "k < M_COLLISION_LIMIT" and "probe_slot ca key key_len pool_id k = slot"
    and "\<forall>j < k. probe_slot ca key key_len pool_id j \<noteq> slot"
proof -
  from assms obtain n where n: "n < M_COLLISION_LIMIT" "probe_slot ca key key_len pool_id n = slot"
    by auto
  then obtain k where "k \<le> n" "\<forall>i < k. probe_slot ca key key_len pool_id i \<noteq> slot"
    "probe_slot ca key key_len pool_id k = slot"
    using ex_least_nat_le [of "\<lambda>i. probe_slot ca key key_len pool_id i = slot" n] by blast
  then show thesis using n by (intro that [of k]) simp_all
qed

lemma get_stop:
  assumes "least_stop ca key key_len pool_id k"
  shows "kv_cache_get mode now key key_len pool_id ca =
     (let slot = probe_slot ca key key_len pool_id k; e = m_hash_table ca ! slot in
      if ce_key_len e = 0
      then (Inl NVM_ERR_OBJECT_NOT_FOUND,
            empty_context\<lparr>cc_entry := (cleared_entry 0)\<lparr>ce_index := of_nat slot\<rparr>,
                          cc_state := CACHE_ENTRY_EMPTY\<rparr>)
      else (Inr (), found_context mode now e empty_context))"
  using get_probe_stop [of 0 k ca key key_len pool_id empty_context mode now "[]"] assms
  by (auto simp: kv_cache_get_def least_stop_def Let_def probe_slot_0 empty_context_def)

lemma get_full:
  assumes "all_passed ca key key_len pool_id"
  obtains k where "k < M_COLLISION_LIMIT"
    and "\<forall>j < k. probe_slot ca key key_len pool_id j \<noteq> probe_slot ca key key_len pool_id k"
    and "kv_cache_get mode now key key_len pool_id ca =
       (Inl NVM_ERR_OBJECT_NOT_FOUND,
        empty_context\<lparr>cc_entry := m_hash_table ca ! probe_slot ca key key_len pool_id k,
                      cc_state := CACHE_ENTRY_DELETE\<rparr>)"
proof -
  obtain ev where ev: "get_probe mode now ca key key_len pool_id
        (cache_hash_slot ca key key_len pool_id) 0 (probe_slot ca key key_len pool_id 0)
        empty_context [] = (False, empty_context, ev)"
    and "ev \<noteq> []" and sub: "snd ` set ev \<subseteq> probe_slot ca key key_len pool_id ` {..<M_COLLISION_LIMIT}"
    using get_probe_full [of 0 ca key key_len pool_id "[]" mode now empty_context] assms
    by (auto simp: all_passed_def)
  then have "snd (hd ev) \<in> probe_slot ca key key_len pool_id ` {..<M_COLLISION_LIMIT}" by auto
  then obtain k where "k < M_COLLISION_LIMIT" "probe_slot ca key key_len pool_id k = snd (hd ev)"
    "\<forall>j < k. probe_slot ca key key_len pool_id j \<noteq> snd (hd ev)" by (rule first_slot)
  with ev show thesis
    by (intro that [of k]) (simp_all add: kv_cache_get_def Let_def probe_slot_0, simp add: empty_context_def)
qed

text \<open>The slot an uncached write goes to: every earlier probe is occupied by other keys.\<close>

definition put_target :: "nvm_kv_cache \<Rightarrow> bytes \<Rightarrow> u32 \<Rightarrow> u32 \<Rightarrow> nat \<Rightarrow> bool" where
  "put_target ca key key_len pool_id k \<longleftrightarrow>
     k < M_COLLISION_LIMIT \<and>
     (\<forall>j < k. slot_passed ca key key_len pool_id j \<and>
        probe_slot ca key key_len pool_id j \<noteq> probe_slot ca key key_len pool_id k)"

lemma least_stop_target: "least_stop ca key key_len pool_id k \<Longrightarrow> put_target ca key key_len pool_id k"
  unfolding least_stop_def put_target_def by metis

lemma put_fresh:
  assumes wf: "cache_wf ca"
    and fresh: "cache_context = None \<or>
      (\<exists>ctx. cache_context = Some ctx \<and>
         put_in_context key key_len pool_id value_len abs_expiry gen_count lba now ctx ca = None)"
  obtains k base where "put_target ca key key_len pool_id k"
    and "ce_index base = of_nat (probe_slot ca key key_len pool_id k)"
    and "length (ce_key base) = NVM_KV_MAX_KEY_SIZE"
    and "kv_cache_put key key_len pool_id value_len abs_expiry gen_count lba cache_context now ca =
      ca\<lparr>m_hash_table := (m_hash_table ca)[probe_slot ca key key_len pool_id k :=
        kv_cache_entry_set base key key_len pool_id value_len abs_expiry gen_count lba now]\<rparr>"
proof -
  have none: "(case cache_context of None \<Rightarrow> None | Some ctx \<Rightarrow>
      put_in_context key key_len pool_id value_len abs_expiry gen_count lba now ctx ca) = None"
    using fresh by (auto split: option.splits)
  have idx: "ce_index (m_hash_table ca ! probe_slot ca key key_len pool_id k) =
        of_nat (probe_slot ca key key_len pool_id k)" for k
    using wf slot_in_table [OF wf] by (simp add: cache_wf_def)
  have len: "length (ce_key (m_hash_table ca ! probe_slot ca key key_len pool_id k)) =
        NVM_KV_MAX_KEY_SIZE" for k
    using wf slot_in_table [OF wf] by (simp add: cache_wf_def)
  show thesis
  proof (cases rule: stop_cases [of ca key key_len pool_id])
    case (stop k)
    then have "\<exists>ev. put_probe ca key key_len pool_id (cache_hash_slot ca key key_len pool_id) 0
        (probe_slot ca key key_len pool_id 0) [] = (k, probe_slot ca key key_len pool_id k, ev)"
      by (intro put_probe_stop) (auto simp: least_stop_def)
    then show thesis using stop none
      by (intro that [OF least_stop_target [OF stop] idx len])
        (auto simp: kv_cache_put_def Let_def probe_slot_0 least_stop_def)
  next
    case full
    then obtain ev where ev: "put_probe ca key key_len pool_id (cache_hash_slot ca key key_len pool_id) 0
        (probe_slot ca key key_len pool_id 0) [] =
        (M_COLLISION_LIMIT, probe_slot ca key key_len pool_id M_COLLISION_LIMIT, ev)"
      and "ev \<noteq> []" and "snd ` set ev \<subseteq> probe_slot ca key key_len pool_id ` {..<M_COLLISION_LIMIT}"
      using put_probe_full [of 0 ca key key_len pool_id "[]"] by (auto simp: all_passed_def)
    then have "snd (hd ev) \<in> probe_slot ca key key_len pool_id ` {..<M_COLLISION_LIMIT}" by auto
    then obtain k where k: "k < M_COLLISION_LIMIT" "probe_slot ca key key_len pool_id k = snd (hd ev)"
      "\<forall>j < k. probe_slot ca key key_len pool_id j \<noteq> snd (hd ev)" by (rule first_slot)
    have "put_target ca key key_len pool_id k"
      using k full by (simp add: put_target_def all_passed_def)
    then show thesis
      by (rule that [where base = "(cleared_entry 0)\<lparr>ce_index := of_nat (snd (hd ev))\<rparr>"])
        (use k ev none idx [of k] in
          \<open>simp_all add: cleared_entry_def kv_cache_put_def Let_def probe_slot_0\<close>)
  qed
qed

lemma take_memcpy_0: "take n (memcpy 0 (take n src) buf) = take n src" if "n \<le> length src"
  using that by (simp add: memcpy_def)

lemma entry_set_compare:
  "key_arg_ok key key_len \<Longrightarrow>
   kv_cache_entry_compare (kv_cache_entry_set base key key_len pool_id v x g lba now) key key_len pool_id"
  by (simp add: kv_cache_entry_compare_def kv_cache_entry_set_def key_arg_ok_def take_memcpy_0)

lemma entry_set_shape:
  assumes "key_arg_ok key key_len" and "length (ce_key base) = NVM_KV_MAX_KEY_SIZE"
  shows "ce_index (kv_cache_entry_set base key key_len pool_id v x g lba now) = ce_index base"
    and "length (ce_key (kv_cache_entry_set base key key_len pool_id v x g lba now)) = NVM_KV_MAX_KEY_SIZE"
  using assms by (simp_all add: kv_cache_entry_set_def key_arg_ok_def length_memcpy)

lemma get_after_set:
  assumes wf: "cache_wf ca" and target: "put_target ca key key_len pool_id k"
    and e: "kv_cache_entry_compare e key key_len pool_id" and len: "key_len \<noteq> 0"
  shows "kv_cache_get mode now key key_len pool_id
           (ca\<lparr>m_hash_table := (m_hash_table ca)[probe_slot ca key key_len pool_id k := e]\<rparr>) =
         (Inr (), found_context mode now e empty_context)"
proof -
  let ?ca = "ca\<lparr>m_hash_table := (m_hash_table ca)[probe_slot ca key key_len pool_id k := e]\<rparr>"
  have in_table: "probe_slot ca key key_len pool_id i < length (m_hash_table ca)" for i
    using slot_in_table [OF wf] wf by (simp add: cache_wf_def)
  have "least_stop ?ca key key_len pool_id k"
    using target e in_table by (auto simp: least_stop_def put_target_def entry_passed_def)
  moreover have "ce_key_len e \<noteq> 0" using e len by (simp add: kv_cache_entry_compare_def)
  ultimately show ?thesis using in_table by (simp add: get_stop Let_def)
qed

lemma put_wf:
  assumes wf: "cache_wf ca" and key: "key_arg_ok key key_len"
    and ctx: "\<forall>ctx. cache_context = Some ctx \<longrightarrow> unat (ce_index (cc_entry ctx)) < m_total_entries ca"
  shows "cache_wf (kv_cache_put key key_len pool_id v x g lba cache_context now ca)"
proof (cases "\<exists>ctx ca'. cache_context = Some ctx \<and>
    put_in_context key key_len pool_id v x g lba now ctx ca = Some ca'")
  case True
  then obtain ctx ca' where c: "cache_context = Some ctx"
    "put_in_context key key_len pool_id v x g lba now ctx ca = Some ca'" by blast
  let ?i = "unat (ce_index (cc_entry ctx))" and ?e = "m_hash_table ca ! unat (ce_index (cc_entry ctx))"
  have at: "ce_index ?e = of_nat ?i" "length (ce_key ?e) = NVM_KV_MAX_KEY_SIZE"
    using wf ctx c(1) by (auto simp: cache_wf_def)
  have "cache_wf ca'"
    using c(2) at wf entry_set_shape [OF key at(2)]
    by (auto simp: put_in_context_def Let_def intro!: cache_wf_update
        split: nvm_kv_entry_state.splits if_splits)
  then show ?thesis using c by (simp add: kv_cache_put_def)
next
  case False
  then have "cache_context = None \<or> (\<exists>ctx. cache_context = Some ctx \<and>
      put_in_context key key_len pool_id v x g lba now ctx ca = None)"
    by (cases cache_context) auto
  then show ?thesis
  proof (rule put_fresh [OF wf])
    fix k base
    assume base: "ce_index base = of_nat (probe_slot ca key key_len pool_id k)"
      "length (ce_key base) = NVM_KV_MAX_KEY_SIZE"
      and put: "kv_cache_put key key_len pool_id v x g lba cache_context now ca =
        ca\<lparr>m_hash_table := (m_hash_table ca)[probe_slot ca key key_len pool_id k :=
          kv_cache_entry_set base key key_len pool_id v x g lba now]\<rparr>"
    show ?thesis unfolding put using wf base entry_set_shape [OF key base(2)]
      by (intro cache_wf_update) simp_all
  qed
qed

lemma get_context_in_table:
  assumes wf: "cache_wf ca" and get: "kv_cache_get mode now key key_len pool_id ca = (r, ctx)"
  shows "unat (ce_index (cc_entry ctx)) < m_total_entries ca"
proof (cases rule: stop_cases [of ca key key_len pool_id])
  case (stop k)
  have "unat (of_nat (probe_slot ca key key_len pool_id k) :: u64) < m_total_entries ca"
    using entry_at(1) [OF wf slot_in_table [OF wf]] slot_in_table [OF wf] wf
    by (simp add: cache_wf_def)
  moreover have "unat (ce_index (m_hash_table ca ! probe_slot ca key key_len pool_id k)) < m_total_entries ca"
    using entry_at(1) [OF wf slot_in_table [OF wf]] slot_in_table [OF wf] by simp
  ultimately show ?thesis using get stop
    by (auto simp: get_stop Let_def found_context_def split: if_splits)
next
  case full
  then show ?thesis
    using get entry_at(1) [OF wf slot_in_table [OF wf]] slot_in_table [OF wf]
    by (elim get_full [where mode = mode and now = now]) auto
qed

text \<open>
  A key that is not cached: the write, with the context of the lookup that missed, is found by
  the next lookup with all its data.
\<close>

lemma put_after_miss:
  assumes wf: "cache_wf ca" and key: "key_arg_ok key key_len"
    and get: "kv_cache_get mode now key key_len pool_id ca = (Inl err, ctx)"
    and ctx: "cache_context = None \<or> cache_context = Some ctx"
  obtains e where
    "kv_cache_get mode now'' key key_len pool_id
       (kv_cache_put key key_len pool_id v x g lba cache_context now' ca) =
     (Inr (), found_context mode now'' e empty_context)"
    and "ce_value_len e = v" and "ce_expiry e = x" and "ce_gen_count e = g" and "ce_lba e = lba"
    and "ce_ts e = now'" and "kv_cache_entry_compare e key key_len pool_id"
proof -
  let ?new = "\<lambda>base. kv_cache_entry_set base key key_len pool_id v x g lba now'"
  have len: "key_len \<noteq> 0" using key by (auto simp: key_arg_ok_def)
  have "\<exists>k base. put_target ca key key_len pool_id k \<and>
    kv_cache_put key key_len pool_id v x g lba cache_context now' ca =
      ca\<lparr>m_hash_table := (m_hash_table ca)[probe_slot ca key key_len pool_id k := ?new base]\<rparr>"
  proof (cases "\<exists>ca'. cache_context = Some ctx \<and>
      put_in_context key key_len pool_id v x g lba now' ctx ca = Some ca'")
    case False
    with ctx have "cache_context = None \<or> (\<exists>ctx. cache_context = Some ctx \<and>
      put_in_context key key_len pool_id v x g lba now' ctx ca = None)" by auto
    from put_fresh [OF wf this] show ?thesis by metis
  next
    case True
    then have c: "cache_context = Some ctx" by auto
    show ?thesis
    proof (cases rule: stop_cases [of ca key key_len pool_id])
      case (stop k)
      have "unat (of_nat (probe_slot ca key key_len pool_id k) :: u64) = probe_slot ca key key_len pool_id k"
        using entry_at(1) [OF wf slot_in_table [OF wf, of key key_len pool_id k]]
          slot_in_table [OF wf, of key key_len pool_id k] wf by (simp add: cache_wf_def)
      moreover have "ctx = empty_context\<lparr>cc_entry := (cleared_entry 0)\<lparr>ce_index :=
            of_nat (probe_slot ca key key_len pool_id k)\<rparr>, cc_state := CACHE_ENTRY_EMPTY\<rparr>"
        and "ce_key_len (m_hash_table ca ! probe_slot ca key key_len pool_id k) = 0"
        using get by (simp_all add: get_stop [OF stop] Let_def split: if_splits)
      ultimately show ?thesis using c least_stop_target [OF stop]
        by (intro exI [of _ k] exI [of _ "m_hash_table ca ! probe_slot ca key key_len pool_id k"])
          (simp add: put_in_context_def kv_cache_put_def Let_def)
    next
      case full
      then obtain k where k: "k < M_COLLISION_LIMIT"
        "\<forall>j < k. probe_slot ca key key_len pool_id j \<noteq> probe_slot ca key key_len pool_id k"
        and eq: "kv_cache_get mode now key key_len pool_id ca =
         (Inl NVM_ERR_OBJECT_NOT_FOUND,
          empty_context\<lparr>cc_entry := m_hash_table ca ! probe_slot ca key key_len pool_id k,
                      cc_state := CACHE_ENTRY_DELETE\<rparr>)"
        by (rule get_full [where mode = mode and now = now])
      have "put_target ca key key_len pool_id k"
        using k full by (simp add: put_target_def all_passed_def)
      moreover have "unat (ce_index (m_hash_table ca ! probe_slot ca key key_len pool_id k)) =
          probe_slot ca key key_len pool_id k"
        by (rule entry_at(1) [OF wf slot_in_table [OF wf]])
      moreover have "ctx = empty_context\<lparr>cc_entry :=
          m_hash_table ca ! probe_slot ca key key_len pool_id k, cc_state := CACHE_ENTRY_DELETE\<rparr>"
        using get eq by simp
      ultimately show ?thesis using c
        by (intro exI [of _ k] exI [of _ "m_hash_table ca ! probe_slot ca key key_len pool_id k"])
          (simp add: put_in_context_def kv_cache_put_def kv_cache_entries_compare_def Let_def)
    qed
  qed
  then obtain k base where t: "put_target ca key key_len pool_id k"
    and put: "kv_cache_put key key_len pool_id v x g lba cache_context now' ca =
      ca\<lparr>m_hash_table := (m_hash_table ca)[probe_slot ca key key_len pool_id k := ?new base]\<rparr>"
    by blast
  show thesis
    by (rule that [of "?new base"])
      (simp_all add: put get_after_set [OF wf t entry_set_compare [OF key] len]
        entry_set_compare [OF key], simp_all add: kv_cache_entry_set_def)
qed

text \<open>
  A key that is cached: the write through the context of the hit keeps the address, the expiry
  and the generation count of the old entry.
\<close>

lemma get_found:
  assumes "kv_cache_get mode now key key_len pool_id ca = (Inr (), ctx)"
  obtains k where "least_stop ca key key_len pool_id k"
    and "kv_cache_entry_compare (m_hash_table ca ! probe_slot ca key key_len pool_id k) key key_len pool_id"
    and "ctx = found_context mode now (m_hash_table ca ! probe_slot ca key key_len pool_id k) empty_context"
proof (cases rule: stop_cases [of ca key key_len pool_id])
  case (stop k)
  then show thesis using assms that [of k]
    by (auto simp: get_stop Let_def least_stop_def entry_passed_def split: if_splits)
next
  case full
  then show thesis using assms by (elim get_full [where mode = mode and now = now]) auto
qed

lemma put_after_hit:
  assumes wf: "cache_wf ca" and len: "key_len \<noteq> 0"
    and get: "kv_cache_get mode now key key_len pool_id ca = (Inr (), ctx)"
  shows "kv_cache_get mode now'' key key_len pool_id
           (kv_cache_put key key_len pool_id v x g lba (Some ctx) now' ca) =
         (Inr (), found_context mode now''
            ((cc_entry ctx)\<lparr>ce_value_len := v, ce_ts := now'\<rparr>) empty_context)"
proof -
  obtain k where k: "least_stop ca key key_len pool_id k"
    and cmp: "kv_cache_entry_compare (m_hash_table ca ! probe_slot ca key key_len pool_id k) key key_len pool_id"
    and ctx: "ctx = found_context mode now (m_hash_table ca ! probe_slot ca key key_len pool_id k) empty_context"
    using get by (rule get_found)
  let ?slot = "probe_slot ca key key_len pool_id k"
  let ?e = "(m_hash_table ca ! ?slot)\<lparr>ce_value_len := v, ce_ts := now'\<rparr>"
  have "kv_cache_put key key_len pool_id v x g lba (Some ctx) now' ca =
      ca\<lparr>m_hash_table := (m_hash_table ca)[?slot := ?e]\<rparr>"
    using cmp entry_at(1) [OF wf slot_in_table [OF wf]]
    by (simp add: ctx kv_cache_put_def put_in_context_def found_context_def Let_def)
  moreover have "kv_cache_entry_compare ?e key key_len pool_id"
    using cmp by (simp add: kv_cache_entry_compare_def)
  ultimately show ?thesis
    using get_after_set [OF wf least_stop_target [OF k] _ len] by (simp add: ctx found_context_def)
qed

lemma delete_probe_spec:
  "i \<le> M_COLLISION_LIMIT \<Longrightarrow>
   (case delete_probe ca key key_len pool_id (cache_hash_slot ca key key_len pool_id) i
      (probe_slot ca key key_len pool_id i) of
    None \<Rightarrow> \<forall>k. i \<le> k \<longrightarrow> k < M_COLLISION_LIMIT \<longrightarrow> \<not> kv_cache_entry_compare
              (m_hash_table ca ! probe_slot ca key key_len pool_id k) key key_len pool_id
  | Some slot \<Rightarrow> (\<exists>k < M_COLLISION_LIMIT. slot = probe_slot ca key key_len pool_id k \<and>
              kv_cache_entry_compare (m_hash_table ca ! slot) key key_len pool_id))"
proof (induction "M_COLLISION_LIMIT - i" arbitrary: i)
  case 0
  then show ?case by (subst delete_probe.simps) simp
next
  case (Suc n)
  have "k = i \<or> Suc i \<le> k" if "i \<le> k" for k using that by auto
  then show ?case
    using Suc.hyps(1) [of "Suc i"] Suc.hyps(2) Suc.prems
    by (subst delete_probe.simps) (force simp: next_slot split: option.splits)
qed

lemma delete_cases:
  obtains (missing) "kv_cache_delete key key_len pool_id ca =
      (Inl NVM_ERR_OBJECT_NOT_FOUND, cleared_entry 0, ca)"
    and "\<forall>k < M_COLLISION_LIMIT. \<not> kv_cache_entry_compare
           (m_hash_table ca ! probe_slot ca key key_len pool_id k) key key_len pool_id"
  | (deleted) k where "k < M_COLLISION_LIMIT"
    and "kv_cache_entry_compare (m_hash_table ca ! probe_slot ca key key_len pool_id k) key key_len pool_id"
    and "kv_cache_delete key key_len pool_id ca =
      (Inr (), m_hash_table ca ! probe_slot ca key key_len pool_id k,
       ca\<lparr>m_hash_table := (m_hash_table ca)[probe_slot ca key key_len pool_id k :=
         (cleared_entry 0)\<lparr>ce_index := ce_index (m_hash_table ca ! probe_slot ca key key_len pool_id k)\<rparr>]\<rparr>)"
  using delete_probe_spec [of 0 ca key key_len pool_id]
  by (auto simp: kv_cache_delete_def Let_def probe_slot_0 split: option.splits)

lemma delete_wf:
  assumes wf: "cache_wf ca" and del: "kv_cache_delete key key_len pool_id ca = (r, e, ca')"
  shows "cache_wf ca'"
proof (cases rule: delete_cases [where ca = ca and key = key and key_len = key_len and pool_id = pool_id])
  case missing
  then show ?thesis using wf del by simp
next
  case (deleted k)
  let ?s = "probe_slot ca key key_len pool_id k"
  have "ce_index (m_hash_table ca ! ?s) = of_nat ?s"
    using wf slot_in_table [OF wf] by (simp add: cache_wf_def)
  then have "cache_wf (ca\<lparr>m_hash_table := (m_hash_table ca)[?s := (cleared_entry 0)\<lparr>ce_index :=
      ce_index (m_hash_table ca ! ?s)\<rparr>]\<rparr>)"
    by (intro cache_wf_update [OF wf]) (simp_all add: cleared_entry_def)
  then show ?thesis using del deleted(3) by auto
qed

lemma clear_loop:
  "n \<le> length t \<Longrightarrow>
   foldl (\<lambda>table i. if ce_key_len (table ! i) \<noteq> 0 \<and> P (table ! i)
                    then table[i := cleared_entry i] else table) t [0..<n] =
   map (\<lambda>i. if i < n \<and> ce_key_len (t ! i) \<noteq> 0 \<and> P (t ! i) then cleared_entry i else t ! i) [0..<length t]"
proof (induction n)
  case 0
  then show ?case by (simp add: map_nth)
next
  case (Suc n)
  then show ?case by (auto intro!: nth_equalityI simp: nth_list_update less_Suc_eq)
qed

lemma clear_where_nth:
  assumes "cache_wf ca" and "i < m_total_entries ca"
  shows "m_hash_table (clear_where P ca) ! i =
     (let e = m_hash_table ca ! i in if ce_key_len e \<noteq> 0 \<and> P e then cleared_entry i else e)"
  using assms clear_loop [of "m_total_entries ca" "m_hash_table ca" P]
  by (simp add: clear_where_def Let_def cache_wf_def)

lemma clear_where_wf: "cache_wf ca \<Longrightarrow> cache_wf (clear_where P ca)"
  using clear_loop [of "m_total_entries ca" "m_hash_table ca" P]
  by (auto simp: clear_where_def cache_wf_def Let_def cleared_entry_def)

lemma clear_where_probe [simp]:
  "probe_slot (clear_where P ca) key key_len pool_id k = probe_slot ca key key_len pool_id k"
  by (simp add: clear_where_def)

lemma get_compare:
  assumes "kv_cache_get mode now key key_len pool_id ca = (Inr (), ctx)" and "cache_wf ca"
  shows "kv_cache_entry_compare (cc_entry ctx) key key_len pool_id"
    and "cc_entry ctx \<in> set (m_hash_table ca)"
  using assms slot_in_table [OF assms(2)]
  by (auto elim!: get_found simp: found_context_def cache_wf_def)

section \<open>The contract of a lossy cache\<close>

text \<open>
  What a client may rely on: a cache may forget, but what it returns was stored under that very key
  and not purged since. A client stores through a context that an earlier lookup has filled
  (\<open>probe\<close>); between the two the table may have changed. A store may keep part of the record the
  key had (\<open>refresh\<close>), and removing a key promises nothing: an older record of it can reappear.
\<close>

datatype ('q, 'i, 'k, 'v, 'p) cache_op = OpProbe 'q | OpStore 'i 'k 'v | OpRemove 'k | OpPurge 'p

fun live_after ::
  "('v \<Rightarrow> 'v \<Rightarrow> 'v) \<Rightarrow> ('p \<Rightarrow> 'k \<Rightarrow> 'v \<Rightarrow> bool) \<Rightarrow> ('q, 'i, 'k, 'v, 'p) cache_op list \<Rightarrow> ('k \<times> 'v) set" where
  "live_after refresh victim [] = {}"
| "live_after refresh victim (OpProbe q # older) = live_after refresh victim older"
| "live_after refresh victim (OpStore i k v # older) =
     (let old = live_after refresh victim older in insert (k, v) (old \<union> {(k, refresh v v') |v'. (k, v') \<in> old}))"
| "live_after refresh victim (OpRemove k # older) = live_after refresh victim older"
| "live_after refresh victim (OpPurge p # older) =
     {kv \<in> live_after refresh victim older. \<not> victim p (fst kv) (snd kv)}"

fun apply_cache_op ::
  "('q \<Rightarrow> 'c \<Rightarrow> 'c) \<Rightarrow> ('i \<Rightarrow> 'k \<Rightarrow> 'v \<Rightarrow> 'c \<Rightarrow> 'c) \<Rightarrow> ('k \<Rightarrow> 'c \<Rightarrow> 'c) \<Rightarrow> ('p \<Rightarrow> 'c \<Rightarrow> 'c) \<Rightarrow>
   ('q, 'i, 'k, 'v, 'p) cache_op \<Rightarrow> 'c \<Rightarrow> 'c" where
  "apply_cache_op probe store remove purge (OpProbe q) c = probe q c"
| "apply_cache_op probe store remove purge (OpStore i k v) c = store i k v c"
| "apply_cache_op probe store remove purge (OpRemove k) c = remove k c"
| "apply_cache_op probe store remove purge (OpPurge p) c = purge p c"

fun cache_op_ok :: "('k \<Rightarrow> bool) \<Rightarrow> ('q, 'i, 'k, 'v, 'p) cache_op \<Rightarrow> bool" where
  "cache_op_ok key_ok (OpStore i k v) = key_ok k"
| "cache_op_ok key_ok _ = True"

locale lossy_cache =
  fixes inv :: "'c \<Rightarrow> bool"
    and key_ok :: "'k \<Rightarrow> bool"
    and lookup :: "'k \<Rightarrow> 'c \<Rightarrow> 'v option"
    and probe :: "'q \<Rightarrow> 'c \<Rightarrow> 'c"
    and store :: "'i \<Rightarrow> 'k \<Rightarrow> 'v \<Rightarrow> 'c \<Rightarrow> 'c"
    and remove :: "'k \<Rightarrow> 'c \<Rightarrow> 'c"
    and purge :: "'p \<Rightarrow> 'c \<Rightarrow> 'c"
    and refresh :: "'v \<Rightarrow> 'v \<Rightarrow> 'v"
    and victim :: "'p \<Rightarrow> 'k \<Rightarrow> 'v \<Rightarrow> bool"
    and entries :: "'c \<Rightarrow> ('k \<times> 'v) set"
    and takes :: "'q \<Rightarrow> 'i \<Rightarrow> 'k \<Rightarrow> bool"
  assumes probe_inv: "inv c \<Longrightarrow> inv (probe q c)"
    and store_inv: "inv c \<Longrightarrow> key_ok k \<Longrightarrow> inv (store i k v c)"
    and remove_inv: "inv c \<Longrightarrow> inv (remove k c)"
    and purge_inv: "inv c \<Longrightarrow> inv (purge p c)"
    and lookup_entries: "inv c \<Longrightarrow> key_ok k \<Longrightarrow> lookup k c = Some v \<Longrightarrow> (k, v) \<in> entries c"
    and probe_entries: "entries (probe q c) = entries c"
    and probe_lookup: "lookup k (probe q c) = lookup k c"
    and store_entries: "inv c \<Longrightarrow> key_ok k \<Longrightarrow>
      entries (store i k v c) \<subseteq> insert (k, v) (entries c \<union> {(k, refresh v v') |v'. (k, v') \<in> entries c})"
    and remove_entries: "inv c \<Longrightarrow> entries (remove k c) \<subseteq> entries c"
    and purge_entries: "inv c \<Longrightarrow> entries (purge p c) \<subseteq> {kv \<in> entries c. \<not> victim p (fst kv) (snd kv)}"
    and lookup_store: "inv c \<Longrightarrow> key_ok k \<Longrightarrow> takes q i k \<Longrightarrow>
      lookup k (store i k v (probe q c)) = Some (case lookup k c of None \<Rightarrow> v | Some v' \<Rightarrow> refresh v v')"
begin

abbreviation run_ops :: "('q, 'i, 'k, 'v, 'p) cache_op list \<Rightarrow> 'c \<Rightarrow> 'c" where
  "run_ops \<equiv> foldr (apply_cache_op probe store remove purge)"

lemma run_ops_history:
  "inv c \<Longrightarrow> entries c = {} \<Longrightarrow> list_all (cache_op_ok key_ok) ops \<Longrightarrow>
   inv (run_ops ops c) \<and> entries (run_ops ops c) \<subseteq> live_after refresh victim ops"
proof (induction ops)
  case Nil
  then show ?case by simp
next
  case (Cons op ops)
  let ?c = "run_ops ops c"
  have IH: "inv ?c" "entries ?c \<subseteq> live_after refresh victim ops" using Cons by simp_all
  show ?case
  proof (cases op)
    case (OpProbe q)
    then show ?thesis using IH by (simp add: probe_inv probe_entries)
  next
    case (OpStore i k v)
    then have ok: "key_ok k" using Cons.prems(3) by simp
    have "entries (store i k v ?c) \<subseteq> live_after refresh victim (OpStore i k v # ops)"
      using store_entries [OF IH(1) ok, of i v] IH(2) by (auto simp: Let_def)
    then show ?thesis using OpStore store_inv [OF IH(1) ok] by simp
  next
    case (OpRemove k)
    then show ?thesis using IH remove_inv [of ?c k] remove_entries [of ?c k] by auto
  next
    case (OpPurge p)
    then show ?thesis using IH purge_inv [of ?c p] purge_entries [of ?c p] by auto
  qed
qed

lemma lookup_history:
  "inv c \<Longrightarrow> entries c = {} \<Longrightarrow> list_all (cache_op_ok key_ok) ops \<Longrightarrow> key_ok k \<Longrightarrow>
   lookup k (run_ops ops c) = Some v \<Longrightarrow> (k, v) \<in> live_after refresh victim ops"
  using run_ops_history lookup_entries by blast

lemma lookup_purged:
  "inv c \<Longrightarrow> key_ok k \<Longrightarrow> \<forall>v. victim p k v \<Longrightarrow> lookup k (purge p c) = None"
  using lookup_entries [of "purge p c" k] purge_entries [of c p] purge_inv [of c p]
  by (cases "lookup k (purge p c)") auto

lemma lookup_refilled:
  "inv c \<Longrightarrow> key_ok k \<Longrightarrow> takes q i k \<Longrightarrow> \<forall>v. victim p k v \<Longrightarrow>
   lookup k (store i k v (probe q (purge p c))) = Some v"
  by (simp add: lookup_store purge_inv lookup_purged)

end

type_synonym cache_key = "bytes \<times> u32 \<times> u32"
type_synonym cache_val = "u32 \<times> u32 \<times> u32 \<times> u64"

fun cache_key_ok :: "cache_key \<Rightarrow> bool" where
  "cache_key_ok (key, key_len, pool_id) \<longleftrightarrow> key_arg_ok key key_len \<and> length key = unat key_len"

definition entry_key :: "nvm_kv_cache_entry \<Rightarrow> cache_key" where
  "entry_key e = (take (unat (ce_key_len e)) (ce_key e), ce_key_len e, ce_pool_id e)"

definition entry_val :: "nvm_kv_cache_entry \<Rightarrow> cache_val" where
  "entry_val e = (ce_value_len e, ce_expiry e, ce_gen_count e, ce_lba e)"

definition cache_entries :: "nvm_kv_cache \<Rightarrow> (cache_key \<times> cache_val) set" where
  "cache_entries ca =
     (\<lambda>e. (entry_key e, entry_val e)) ` {e \<in> set (m_hash_table ca). ce_key_len e \<noteq> 0}"

fun cache_lookup :: "cache_key \<Rightarrow> nvm_kv_cache \<Rightarrow> cache_val option" where
  "cache_lookup (key, key_len, pool_id) ca =
     (case kv_cache_get KV_DISABLE_EXPIRY 0 key key_len pool_id ca of
        (Inr _, ctx) \<Rightarrow> Some (entry_val (cc_entry ctx))
      | (Inl _, ctx) \<Rightarrow> None)"

text \<open>
  The clients of a cache: the table together with the contexts the callers hold, by number. A caller
  fills a context with a lookup or zeroes it, and inserts through it, at a time of its own;
  \<open>run_purge\<close> are the invalidations by pool, by address and of everything.
\<close>

type_synonym cache_client = "nvm_kv_cache \<times> (nat \<Rightarrow> nvm_kv_cache_context)"

datatype cache_probe = ProbeGet nat cache_key u32 int | ProbeReset nat

datatype cache_purge = PurgePools "u32 set" | PurgeAllPools u32 | PurgeLbas "u64 list" | PurgeAll

fun client_probe :: "cache_probe \<Rightarrow> cache_client \<Rightarrow> cache_client" where
  "client_probe (ProbeGet n (key, key_len, pool_id) expiry_mode now) (ca, ctxs) =
     (ca, ctxs(n := snd (kv_cache_get expiry_mode now key key_len pool_id ca)))"
| "client_probe (ProbeReset n) (ca, ctxs) = (ca, ctxs(n := empty_context))"

fun client_put :: "nat \<times> int \<Rightarrow> cache_key \<Rightarrow> cache_val \<Rightarrow> cache_client \<Rightarrow> cache_client" where
  "client_put (n, now) (key, key_len, pool_id) (value_len, expiry, gen_count, lba) (ca, ctxs) =
     (kv_cache_put key key_len pool_id value_len expiry gen_count lba (Some (ctxs n)) now ca, ctxs)"

fun client_remove :: "cache_key \<Rightarrow> cache_client \<Rightarrow> cache_client" where
  "client_remove (key, key_len, pool_id) (ca, ctxs) = (snd (snd (kv_cache_delete key key_len pool_id ca)), ctxs)"

fun run_purge :: "cache_purge \<Rightarrow> nvm_kv_cache \<Rightarrow> nvm_kv_cache" where
  "run_purge (PurgePools pools) ca = kv_cache_delete_pools pools ca"
| "run_purge (PurgeAllPools default_id) ca = kv_cache_delete_all_pools default_id ca"
| "run_purge (PurgeLbas lbas) ca = kv_cache_delete_lbas lbas ca"
| "run_purge PurgeAll ca = kv_cache_delete_all ca"

fun client_purge :: "cache_purge \<Rightarrow> cache_client \<Rightarrow> cache_client" where
  "client_purge p (ca, ctxs) = (run_purge p ca, ctxs)"

fun cache_victim :: "cache_purge \<Rightarrow> cache_key \<Rightarrow> cache_val \<Rightarrow> bool" where
  "cache_victim (PurgePools pools) (key, key_len, pool_id) v \<longleftrightarrow> pool_id \<in> pools"
| "cache_victim (PurgeAllPools default_id) (key, key_len, pool_id) v \<longleftrightarrow> pool_id \<noteq> default_id"
| "cache_victim (PurgeLbas lbas) k (value_len, expiry, gen_count, lba) \<longleftrightarrow> lba \<in> set lbas"
| "cache_victim PurgeAll k v \<longleftrightarrow> True"

text \<open>An insertion that refreshes an entry takes over the value length only.\<close>

fun refreshed :: "cache_val \<Rightarrow> cache_val \<Rightarrow> cache_val" where
  "refreshed (value_len, expiry, gen_count, lba) (value_len', expiry', gen_count', lba') =
     (value_len, expiry', gen_count', lba')"

fun client_inv :: "cache_client \<Rightarrow> bool" where
  "client_inv (ca, ctxs) \<longleftrightarrow> cache_wf ca \<and> (\<forall>n. unat (ce_index (cc_entry (ctxs n))) < m_total_entries ca)"

fun client_lookup :: "cache_key \<Rightarrow> cache_client \<Rightarrow> cache_val option" where
  "client_lookup k (ca, ctxs) = cache_lookup k ca"

fun client_entries :: "cache_client \<Rightarrow> (cache_key \<times> cache_val) set" where
  "client_entries (ca, ctxs) = cache_entries ca"

fun probe_for :: "cache_probe \<Rightarrow> nat \<times> int \<Rightarrow> cache_key \<Rightarrow> bool" where
  "probe_for (ProbeGet n k expiry_mode now) (m, later) k' \<longleftrightarrow> n = m \<and> k = k'"
| "probe_for (ProbeReset n) i k' \<longleftrightarrow> False"

lemma compare_entry_key:
  assumes "kv_cache_entry_compare e key key_len pool_id" and "cache_key_ok (key, key_len, pool_id)"
  shows "entry_key e = (key, key_len, pool_id)" and "ce_key_len e \<noteq> 0"
  using assms by (auto simp: kv_cache_entry_compare_def entry_key_def key_arg_ok_def)

lemma cache_entries_update:
  "cache_entries (ca\<lparr>m_hash_table := (m_hash_table ca)[i := e]\<rparr>) \<subseteq>
   (if ce_key_len e = 0 then {} else {(entry_key e, entry_val e)}) \<union> cache_entries ca"
  using set_update_subset_insert [of "m_hash_table ca" i e] by (auto simp: cache_entries_def)

lemma cache_entries_clear:
  assumes "cache_wf ca"
  shows "cache_entries (clear_where P ca) \<subseteq>
         (\<lambda>e. (entry_key e, entry_val e)) ` {e \<in> set (m_hash_table ca). ce_key_len e \<noteq> 0 \<and> \<not> P e}"
proof -
  have len: "length (m_hash_table (clear_where P ca)) = m_total_entries ca"
    using clear_where_wf [OF assms, of P]
    by (simp only: cache_wf_def) (simp add: clear_where_def)
  have total: "length (m_hash_table ca) = m_total_entries ca" using assms by (simp add: cache_wf_def)
  have "e \<in> set (m_hash_table ca) \<and> \<not> P e"
    if mem: "e \<in> set (m_hash_table (clear_where P ca))" and "ce_key_len e \<noteq> 0" for e
  proof -
    from mem obtain i where i: "i < m_total_entries ca" and "e = m_hash_table (clear_where P ca) ! i"
      by (metis in_set_conv_nth len)
    then have "e = m_hash_table ca ! i" and "\<not> P e"
      using \<open>ce_key_len e \<noteq> 0\<close>
      by (auto simp: clear_where_nth [OF assms i] Let_def cleared_entry_def split: if_splits)
    then show ?thesis using i total by simp
  qed
  then show ?thesis by (auto simp: cache_entries_def)
qed

lemma purge_lbas_entries:
  "cache_wf ca \<Longrightarrow> cache_wf (kv_cache_delete_lbas lbas ca) \<and>
   cache_entries (kv_cache_delete_lbas lbas ca) \<subseteq> {kv \<in> cache_entries ca. \<not> cache_victim (PurgeLbas lbas) (fst kv) (snd kv)}"
proof (induction lbas arbitrary: ca)
  case Nil
  then show ?case by (auto simp: kv_cache_delete_lbas_def)
next
  case (Cons a lbas)
  let ?ca = "clear_where (\<lambda>e. ce_lba e = a) ca"
  have e: "kv_cache_delete_lbas (a # lbas) ca = kv_cache_delete_lbas lbas ?ca" by (simp add: kv_cache_delete_lbas_def)
  have wf: "cache_wf ?ca" by (rule clear_where_wf [OF Cons.prems])
  show ?case unfolding e
  proof (intro conjI subsetI)
    show "cache_wf (kv_cache_delete_lbas lbas ?ca)" using Cons.IH [OF wf] by blast
    fix kv assume "kv \<in> cache_entries (kv_cache_delete_lbas lbas ?ca)"
    then have kv: "kv \<in> cache_entries ?ca" "\<not> cache_victim (PurgeLbas lbas) (fst kv) (snd kv)"
      using Cons.IH [OF wf] by blast+
    from kv(1) obtain en where "kv = (entry_key en, entry_val en)" "en \<in> set (m_hash_table ca)" "ce_key_len en \<noteq> 0"
      "ce_lba en \<noteq> a" using cache_entries_clear [OF Cons.prems, of "\<lambda>e. ce_lba e = a"] by blast
    then show "kv \<in> {kv \<in> cache_entries ca. \<not> cache_victim (PurgeLbas (a # lbas)) (fst kv) (snd kv)}"
      using kv(2) by (auto simp: cache_entries_def entry_val_def)
  qed
qed

lemma run_purge_entries:
  assumes "cache_wf ca"
  shows "cache_wf (run_purge p ca)"
    and "cache_entries (run_purge p ca) \<subseteq> {kv \<in> cache_entries ca. \<not> cache_victim p (fst kv) (snd kv)}"
proof -
  show "cache_wf (run_purge p ca)"
    using assms purge_lbas_entries [OF assms]
    by (cases p) (simp_all add: kv_cache_delete_pools_def kv_cache_delete_all_pools_def kv_cache_delete_all_def clear_where_wf)
  have cleared: "cache_entries (clear_where P ca) \<subseteq> {kv \<in> cache_entries ca. \<not> Q (fst kv) (snd kv)}"
    if "\<And>e. Q (entry_key e) (entry_val e) \<Longrightarrow> P e" for P Q
  proof
    fix kv assume "kv \<in> cache_entries (clear_where P ca)"
    then obtain en where "kv = (entry_key en, entry_val en)" "en \<in> set (m_hash_table ca)" "ce_key_len en \<noteq> 0" "\<not> P en"
      using cache_entries_clear [OF assms, of P] by blast
    then show "kv \<in> {kv \<in> cache_entries ca. \<not> Q (fst kv) (snd kv)}"
      using that [of en] by (auto simp: cache_entries_def)
  qed
  show "cache_entries (run_purge p ca) \<subseteq> {kv \<in> cache_entries ca. \<not> cache_victim p (fst kv) (snd kv)}"
  proof (cases p)
    case (PurgeLbas lbas)
    then show ?thesis using purge_lbas_entries [OF assms, of lbas] by simp
  next
    case (PurgePools S)
    then show ?thesis unfolding PurgePools run_purge.simps kv_cache_delete_pools_def
      by (intro cleared) (simp add: entry_key_def)
  next
    case (PurgeAllPools d)
    then show ?thesis unfolding PurgeAllPools run_purge.simps kv_cache_delete_all_pools_def
      by (intro cleared) (simp add: entry_key_def)
  next
    case PurgeAll
    then show ?thesis unfolding PurgeAll run_purge.simps kv_cache_delete_all_def
      by (intro cleared) simp
  qed
qed

lemma cache_lookup_entries:
  assumes "cache_wf ca" and "cache_key_ok k" and "cache_lookup k ca = Some v"
  shows "(k, v) \<in> cache_entries ca"
proof -
  obtain key key_len pool_id where k: "k = (key, key_len, pool_id)" by (cases k)
  obtain ctx where get: "kv_cache_get KV_DISABLE_EXPIRY 0 key key_len pool_id ca = (Inr (), ctx)"
    and v: "v = entry_val (cc_entry ctx)"
    using assms(3) by (auto simp: k split: prod.splits sum.splits)
  note c = get_compare [OF get assms(1)]
  show ?thesis using c compare_entry_key [OF c(1)] assms(2)
    by (auto simp: k v cache_entries_def intro!: image_eqI [of _ _ "cc_entry ctx"])
qed

lemma cache_delete_entries:
  "cache_entries (snd (snd (kv_cache_delete key key_len pool_id ca))) \<subseteq> cache_entries ca"
proof (cases rule: delete_cases [where ca = ca and key = key and key_len = key_len and pool_id = pool_id])
  case missing
  then show ?thesis by simp
next
  case (deleted i)
  then show ?thesis
    using cache_entries_update [of ca "probe_slot ca key key_len pool_id i"
        "(cleared_entry 0)\<lparr>ce_index := ce_index (m_hash_table ca ! probe_slot ca key key_len pool_id i)\<rparr>"]
    by (auto simp: cleared_entry_def)
qed

lemma entry_set_pair:
  assumes "cache_key_ok (key, key_len, pool_id)"
  shows "entry_key (kv_cache_entry_set base key key_len pool_id v x g lba now) = (key, key_len, pool_id)"
    and "entry_val (kv_cache_entry_set base key key_len pool_id v x g lba now) = (v, x, g, lba)"
  using compare_entry_key(1) [OF entry_set_compare assms] assms by (simp_all add: entry_val_def kv_cache_entry_set_def)

text \<open>
  An insertion adds at most the record it was asked to add, or its value length to a record of the key,
  whatever state of the table its context comes from.
\<close>

lemma put_entries:
  fixes v x g :: u32 and lba :: u64
  assumes wf: "cache_wf ca" and ok: "cache_key_ok (key, key_len, pool_id)"
    and ctx: "unat (ce_index (cc_entry ctx)) < m_total_entries ca"
  defines "K \<equiv> (key, key_len, pool_id)" and "V \<equiv> (v, x, g, lba)"
  shows "cache_entries (kv_cache_put key key_len pool_id v x g lba (Some ctx) now ca) \<subseteq>
    insert (K, V) (cache_entries ca \<union> {(K, refreshed V v') |v'. (K, v') \<in> cache_entries ca})"
proof (cases "put_in_context key key_len pool_id v x g lba now ctx ca")
  case None
  then have "Some ctx = None \<or> (\<exists>c. Some ctx = Some c \<and>
      put_in_context key key_len pool_id v x g lba now c ca = None)" by simp
  then obtain k base where put: "kv_cache_put key key_len pool_id v x g lba (Some ctx) now ca =
      ca\<lparr>m_hash_table := (m_hash_table ca)[probe_slot ca key key_len pool_id k :=
        kv_cache_entry_set base key key_len pool_id v x g lba now]\<rparr>"
    by (rule put_fresh [OF wf])
  show ?thesis
    using cache_entries_update [of ca "probe_slot ca key key_len pool_id k"
        "kv_cache_entry_set base key key_len pool_id v x g lba now"]
    unfolding put entry_set_pair [OF ok] K_def V_def by (auto split: if_splits)
next
  case (Some ca')
  let ?i = "unat (ce_index (cc_entry ctx))"
  let ?e = "m_hash_table ca ! ?i" and ?new = "kv_cache_entry_set (m_hash_table ca ! ?i) key key_len pool_id v x g lba now"
  let ?upd = "?e\<lparr>ce_value_len := v, ce_ts := now\<rparr>"
  have put: "kv_cache_put key key_len pool_id v x g lba (Some ctx) now ca = ca'" using Some by (simp add: kv_cache_put_def)
  have in_set: "?e \<in> set (m_hash_table ca)" using wf ctx by (simp add: cache_wf_def)
  consider (upd) "kv_cache_entry_compare ?e key key_len pool_id" "ca' = ca\<lparr>m_hash_table := (m_hash_table ca)[?i := ?upd]\<rparr>"
    | (new) "ca' = ca\<lparr>m_hash_table := (m_hash_table ca)[?i := ?new]\<rparr>"
    using Some by (auto simp: put_in_context_def Let_def split: nvm_kv_entry_state.splits if_splits)
  then show ?thesis
  proof cases
    case upd
    note k = compare_entry_key [OF upd(1) ok]
    have "(K, entry_val ?e) \<in> cache_entries ca" using k in_set by (force simp: cache_entries_def K_def)
    moreover have "entry_key ?upd = entry_key ?e" by (simp add: entry_key_def)
    then have "entry_key ?upd = K" using k(1) by (simp only: K_def)
    moreover have "entry_val ?upd = refreshed V (entry_val ?e)" by (simp add: entry_val_def V_def)
    ultimately have "cache_entries (ca\<lparr>m_hash_table := (m_hash_table ca)[?i := ?upd]\<rparr>) \<subseteq>
        insert (K, refreshed V (entry_val ?e)) (cache_entries ca)" and "(K, entry_val ?e) \<in> cache_entries ca"
      using cache_entries_update [of ca ?i ?upd] by (simp_all split: if_splits) blast
    then show ?thesis unfolding put upd(2) by blast
  next
    case new
    show ?thesis
      using cache_entries_update [of ca ?i ?new] unfolding put new entry_set_pair [OF ok] K_def V_def
      by (auto split: if_splits)
  qed
qed

lemma put_total [simp]:
  "m_total_entries (kv_cache_put key key_len pool_id v x g lba cache_context now ca) = m_total_entries ca"
  by (auto simp: kv_cache_put_def put_in_context_def Let_def split: option.splits prod.splits
      nvm_kv_entry_state.splits if_splits)

lemma delete_total [simp]:
  "m_total_entries (snd (snd (kv_cache_delete key key_len pool_id ca))) = m_total_entries ca"
  by (cases rule: delete_cases [where ca = ca and key = key and key_len = key_len and pool_id = pool_id]) simp_all

lemma clear_total [simp]: "m_total_entries (clear_where P ca) = m_total_entries ca"
  by (simp add: clear_where_def)

lemma purge_total [simp]: "m_total_entries (run_purge p ca) = m_total_entries ca"
proof (cases p)
  case (PurgeLbas lbas)
  have "m_total_entries (foldl (\<lambda>ca lba. clear_where (\<lambda>e. ce_lba e = lba) ca) c lbas) = m_total_entries c" for c
    by (induction lbas arbitrary: c) simp_all
  then show ?thesis by (simp add: PurgeLbas kv_cache_delete_lbas_def)
qed (simp_all add: kv_cache_delete_pools_def kv_cache_delete_all_pools_def kv_cache_delete_all_def)

text \<open>An insertion through the context of a lookup of the same key in the same table is found.\<close>

lemma lookup_mode:
  "cache_lookup (key, key_len, pool_id) ca =
     (case kv_cache_get mode now key key_len pool_id ca of
        (Inr _, ctx) \<Rightarrow> Some (entry_val (cc_entry ctx)) | (Inl _, ctx) \<Rightarrow> None)"
proof (cases rule: stop_cases [of ca key key_len pool_id])
  case (stop k)
  then show ?thesis by (simp add: get_stop [OF stop] Let_def found_context_def)
next
  case full
  obtain ctx1 where 1: "kv_cache_get mode now key key_len pool_id ca = (Inl NVM_ERR_OBJECT_NOT_FOUND, ctx1)"
    using full by (elim get_full [where mode = mode and now = now]) auto
  obtain ctx2 where 2: "kv_cache_get KV_DISABLE_EXPIRY 0 key key_len pool_id ca = (Inl NVM_ERR_OBJECT_NOT_FOUND, ctx2)"
    using full by (elim get_full [where mode = KV_DISABLE_EXPIRY and now = 0]) auto
  show ?thesis by (simp add: 1 2)
qed

lemma lookup_after_put:
  assumes wf: "cache_wf ca" and ok: "cache_key_ok (key, key_len, pool_id)"
    and get: "kv_cache_get mode now key key_len pool_id ca = (r, ctx)"
  shows "cache_lookup (key, key_len, pool_id) (kv_cache_put key key_len pool_id v x g lba (Some ctx) later ca) =
    Some (case cache_lookup (key, key_len, pool_id) ca of None \<Rightarrow> (v, x, g, lba) | Some v' \<Rightarrow> refreshed (v, x, g, lba) v')"
proof (cases r)
  case (Inl err)
  have key: "key_arg_ok key key_len" using ok by simp
  obtain e where "kv_cache_get mode now key key_len pool_id
       (kv_cache_put key key_len pool_id v x g lba (Some ctx) later ca) = (Inr (), found_context mode now e empty_context)"
    and "ce_value_len e = v" "ce_expiry e = x" "ce_gen_count e = g" "ce_lba e = lba"
    using put_after_miss [OF wf key get [unfolded Inl], of "Some ctx"] by blast
  then show ?thesis
    using get by (simp add: lookup_mode [of _ _ _ _ mode now] Inl found_context_def entry_val_def del: cache_lookup.simps)
next
  case (Inr u)
  have "key_len \<noteq> 0" using ok by (auto simp: key_arg_ok_def)
  with get Inr have "kv_cache_get mode now key key_len pool_id
       (kv_cache_put key key_len pool_id v x g lba (Some ctx) later ca) =
     (Inr (), found_context mode now ((cc_entry ctx)\<lparr>ce_value_len := v, ce_ts := later\<rparr>) empty_context)"
    by (intro put_after_hit [OF wf]) simp_all
  then show ?thesis
    using get by (simp add: lookup_mode [of _ _ _ _ mode now] Inr found_context_def entry_val_def del: cache_lookup.simps)
qed

lemma client_inv_keeps:
  assumes "client_inv c"
  shows "client_inv (client_probe q c)" and "cache_key_ok k \<Longrightarrow> client_inv (client_put i k v c)"
    and "client_inv (client_remove k c)" and "client_inv (client_purge p c)"
proof -
  obtain ca ctxs where c: "c = (ca, ctxs)" by (cases c)
  obtain key key_len pool_id where k: "k = (key, key_len, pool_id)" by (cases k)
  have wf: "cache_wf ca" and at: "\<And>n. unat (ce_index (cc_entry (ctxs n))) < m_total_entries ca"
    using assms by (simp_all add: c)
  have pos: "0 < m_total_entries ca" using wf by (simp add: cache_wf_def)
  show "client_inv (client_probe q c)"
  proof (cases q)
    case (ProbeGet n k' mode now)
    obtain key' key_len' pool_id' where k': "k' = (key', key_len', pool_id')" by (cases k')
    obtain r ctx where get: "kv_cache_get mode now key' key_len' pool_id' ca = (r, ctx)" by (metis prod.exhaust)
    show ?thesis using wf at get_context_in_table [OF wf get] by (simp add: ProbeGet c k' get)
  next
    case (ProbeReset n)
    then show ?thesis using wf at pos by (simp add: c empty_context_def cleared_entry_def)
  qed
  show "client_inv (client_put i k v c)" if "cache_key_ok k"
    using wf at that by (cases v; cases i) (auto simp: c k intro!: put_wf)
  obtain r e ca' where del: "kv_cache_delete key key_len pool_id ca = (r, e, ca')" by (metis prod.exhaust)
  show "client_inv (client_remove k c)"
    using delete_wf [OF wf del] at delete_total [of key key_len pool_id ca] by (simp add: c k del)
  show "client_inv (client_purge p c)" using run_purge_entries(1) [OF wf] at by (simp add: c)
qed

interpretation kc: lossy_cache client_inv cache_key_ok client_lookup client_probe client_put client_remove
    client_purge refreshed cache_victim client_entries probe_for
proof unfold_locales
  fix c :: cache_client and k :: cache_key and v :: cache_val and p :: cache_purge and q :: cache_probe and i :: "nat \<times> int"
  obtain ca ctxs where c: "c = (ca, ctxs)" by (cases c)
  obtain key key_len pool_id where k: "k = (key, key_len, pool_id)" by (cases k)
  obtain vl x g lba where v: "v = (vl, x, g, lba)" by (cases v)
  show "client_entries (client_probe q c) = client_entries c" "client_lookup k (client_probe q c) = client_lookup k c"
    by (cases q; simp add: c del: cache_lookup.simps; metis client_probe.simps(1) prod.exhaust client_entries.simps client_lookup.simps)+
  assume inv: "client_inv c"
  then have wf: "cache_wf ca" by (simp add: c)
  show "client_inv (client_probe q c)" "client_inv (client_remove k c)" "client_inv (client_purge p c)"
    by (rule client_inv_keeps [OF inv])+
  show "client_entries (client_remove k c) \<subseteq> client_entries c" by (simp add: c k cache_delete_entries)
  show "client_entries (client_purge p c) \<subseteq> {kv \<in> client_entries c. \<not> cache_victim p (fst kv) (snd kv)}"
    using run_purge_entries(2) [OF wf] by (simp add: c)
  assume ok: "cache_key_ok k"
  show "client_inv (client_put i k v c)" by (rule client_inv_keeps(2) [OF inv ok])
  show "client_entries (client_put i k v c) \<subseteq>
      insert (k, v) (client_entries c \<union> {(k, refreshed v v') |v'. (k, v') \<in> client_entries c})"
    using put_entries [OF wf ok [unfolded k], of "ctxs (fst i)" vl x g lba "snd i"] inv
    by (cases i) (simp add: c k v del: refreshed.simps)
  show "(k, v) \<in> client_entries c" if "client_lookup k c = Some v"
    using cache_lookup_entries [OF wf ok] that by (simp add: c)
  assume takes: "probe_for q i k"
  obtain m later where i: "i = (m, later)" by (cases i)
  then obtain mode now where q: "q = ProbeGet m k mode now" using takes by (cases q) auto
  show "client_lookup k (client_put i k v (client_probe q c)) =
      Some (case client_lookup k c of None \<Rightarrow> v | Some v' \<Rightarrow> refreshed v v')"
    using lookup_after_put [where v = vl and x = x and g = g and lba = lba and later = later and mode = mode and now = now,
        OF wf ok [unfolded k] surjective_pairing]
    unfolding c k v q i by (simp del: cache_lookup.simps refreshed.simps)
qed

text \<open>Invalidating the pool of a key makes the next lookup of the key miss.\<close>

lemma lookup_pools_purged:
  assumes "cache_wf ca" and "cache_key_ok (key, key_len, pool_id)" and "pool_id \<in> S"
  shows "cache_lookup (key, key_len, pool_id) (kv_cache_delete_pools S ca) = None"
proof -
  have "0 < m_total_entries ca" using assms(1) by (simp add: cache_wf_def)
  then have "client_inv (ca, \<lambda>n. empty_context)" using assms(1) by (simp add: empty_context_def cleared_entry_def)
  from kc.lookup_purged [OF this assms(2), of "PurgePools S"] assms(3)
  show ?thesis by (simp del: cache_lookup.simps)
qed

section \<open>A cache of two entries\<close>

text \<open>The smallest cache with a probe sequence, used for the concrete instances below.\<close>

definition tiny_cache :: "nvm_kv_cache_entry list \<Rightarrow> nvm_kv_cache" where
  "tiny_cache t =
     \<lparr>m_cache_size = 368, m_total_entries = 2, m_cache_addr_bits = 1,
      m_cache_hash = hash_initialize FNV1A SEQUENTIAL_PROBE 1 0 (hash_new 0), m_hash_table = t\<rparr>"

lemma tiny_cache_new:
  "cache_initialize True True (\<lambda>_. True) 400 = Inr (tiny_cache [cleared_entry 0, cleared_entry 1])"
proof -
  have "addr_bits_loop 2 0 = 1" by (simp add: addr_bits_loop.simps)
  then show ?thesis
    by (simp add: cache_initialize_def CACHE_SLOT_BYTES_def tiny_cache_def Let_def upt_rec)
qed

lemma tiny_wf: "cache_wf (tiny_cache [cleared_entry 0, cleared_entry 1])"
  by (rule cache_initialize_wf [OF tiny_cache_new])

lemmas tiny_hash_eval =
  key_hash_def fnv1a_def fnv_step_def fold_hash_def Let_def M_FNV_BASIS_def
  M_FNV_PRIME_def M_TINY_HASH_LEN_def hash_initialize_def hash_new_def drop_bit_eq_div

lemma tiny_hash_2:
  "key_hash (hash_initialize FNV1A SEQUENTIAL_PROBE 1 0 (hash_new 0)) [2] 1 0 1 False = 1"
  by (simp add: tiny_hash_eval)

lemma tiny_hash_3:
  "key_hash (hash_initialize FNV1A SEQUENTIAL_PROBE 1 0 (hash_new 0)) [3] 1 0 1 False = 1"
  by (simp add: tiny_hash_eval)

lemma tiny_first_slot:
  "cache_hash_slot (tiny_cache t) [2] 1 0 = 1" "cache_hash_slot (tiny_cache t) [3] 1 0 = 1"
  by (simp_all add: tiny_cache_def cache_hash_slot_def tiny_hash_2 tiny_hash_3)

lemma tiny_slots:
  "cache_next_slot (tiny_cache t) 1 1 0 = 1" "cache_next_slot (tiny_cache t) 1 1 (Suc 0) = 0"
  "m_hash_table (tiny_cache t) = t" "tiny_cache t\<lparr>m_hash_table := t'\<rparr> = tiny_cache t'"
  by (simp_all add: tiny_cache_def cache_next_slot_def
      resolve_coll_def hash_initialize_def hash_new_def sequential_probe_def)

lemmas tiny_eval =
  tiny_first_slot tiny_slots kv_cache_put_def put_probe.simps put_in_context_def get_probe.simps kv_cache_get_def
  kv_cache_delete_def delete_probe.simps M_COLLISION_LIMIT_def cleared_entry_def
  kv_cache_entry_compare_def kv_cache_entry_set_def memcpy_def zeros_def NVM_KV_MAX_KEY_SIZE_def
  empty_context_def found_context_def entry_val_def key_arg_ok_def

section \<open>Properties\<close>


definition tiny_ops :: "(cache_probe, nat \<times> int, cache_key, cache_val, cache_purge) cache_op list" where
  "tiny_ops =
     [OpStore (0, 6) ([2], 1, 0) (9, 5, 1, 90), OpProbe (ProbeGet 0 ([2], 1, 0) 0 0),
      OpStore (1, 5) ([3], 1, 0) (8, 0, 0, 80), OpStore (0, 4) ([2], 1, 0) (7, 0, 0, 70),
      OpProbe (ProbeGet 1 ([3], 1, 0) 0 0), OpProbe (ProbeGet 0 ([2], 1, 0) 0 0)]"


text \<open>
  C40: an insertion through the context of a lookup of its key, made on the table as it is, is found by the
  next lookup, whether the context named a free slot, the entry with the oldest time stamp to be
  replaced, or the entry of the key. If the key was not in the cache, the next lookup returns exactly the
  record inserted. If it was, only the value length is the new one: address, expiry and generation count
  stay those of the cached entry, whatever the caller has written to the device.
\<close>

theorem cache_put_after_lookup:
  assumes "cache_wf ca" and "cache_key_ok (key, key_len, pool_id)"
    and "kv_cache_get mode now key key_len pool_id ca = (r, ctx)"
  shows "cache_lookup (key, key_len, pool_id)
      (kv_cache_put key key_len pool_id v x g lba (Some ctx) later ca) =
    Some (case cache_lookup (key, key_len, pool_id) ca of
            None \<Rightarrow> (v, x, g, lba)
          | Some (v', x', g', lba') \<Rightarrow> (v, x', g', lba'))"
  using lookup_after_put [OF assms] by (simp del: cache_lookup.simps split: option.split prod.split)

theorem cache_put_after_lookup_witness:
  "cache_lookup ([2], 1, 0) (kv_cache_put [2] 1 0 7 5 1 70
       (Some (snd (kv_cache_get 0 0 [2] 1 0 (tiny_cache [cleared_entry 0, cleared_entry 1])))) 3
       (tiny_cache [cleared_entry 0, cleared_entry 1])) = Some (7, 5, 1, 70)"
proof -
  have "cache_lookup ([2], 1, 0) (tiny_cache [cleared_entry 0, cleared_entry 1]) = None" by (simp add: tiny_eval)
  then show ?thesis
    using cache_put_after_lookup [OF tiny_wf, where key = "[2]" and key_len = 1 and pool_id = 0 and mode = 0 and now = 0
        and v = 7 and x = 5 and g = 1 and lba = 70 and later = 3]
    by (simp add: key_arg_ok_def NVM_KV_MAX_KEY_SIZE_def del: cache_lookup.simps) (metis prod.collapse)
qed

text \<open>
  The table invariant (as many entries as the address bits allow, each knowing its own
  position, so that every probe and every context index stays inside the table) holds after
  initialisation and is kept by every operation of the cache.
\<close>

lemma cache_wf_preserved:
  assumes "cache_wf ca"
  shows "(kv_cache_get mode now key key_len pool_id ca = (r, ctx) \<longrightarrow> key_arg_ok key key_len \<longrightarrow>
            cache_wf (kv_cache_put key key_len pool_id v x g lba (Some ctx) now' ca)) \<and>
         (key_arg_ok key key_len \<longrightarrow>
            cache_wf (kv_cache_put key key_len pool_id v x g lba None now' ca)) \<and>
         cache_wf (snd (snd (kv_cache_delete key key_len pool_id ca))) \<and>
         cache_wf (kv_cache_delete_lbas lbas ca) \<and> cache_wf (kv_cache_delete_pools pools ca) \<and>
         cache_wf (kv_cache_delete_all_pools default_id ca) \<and> cache_wf (kv_cache_delete_all ca)"
proof -
  have lbas: "cache_wf (kv_cache_delete_lbas lbas ca)" using assms
    by (induction lbas arbitrary: ca) (simp_all add: kv_cache_delete_lbas_def clear_where_wf)
  have del: "cache_wf (snd (snd (kv_cache_delete key key_len pool_id ca)))"
    using delete_wf [OF assms] by (metis prod.collapse)
  show ?thesis
    using lbas del assms get_context_in_table [OF assms]
    by (auto simp: kv_cache_delete_pools_def kv_cache_delete_all_pools_def kv_cache_delete_all_def
        clear_where_wf intro!: put_wf)
qed

text \<open>
  A deletion removes exactly one entry of the key, at the slot it occupies, and returns its
  old contents; when it reports that there is none, the key could not have been found either.
\<close>

lemma cache_delete_exact:
  assumes "cache_wf ca"
  shows "case kv_cache_delete key key_len pool_id ca of
           (Inr _, e, ca') \<Rightarrow> \<exists>i < m_total_entries ca. m_hash_table ca ! i = e \<and>
              kv_cache_entry_compare e key key_len pool_id \<and>
              ca' = ca\<lparr>m_hash_table := (m_hash_table ca)[i := cleared_entry i]\<rparr>
         | (Inl err, _, ca') \<Rightarrow> err = NVM_ERR_OBJECT_NOT_FOUND \<and> ca' = ca \<and>
              fst (kv_cache_get mode now key key_len pool_id ca) = Inl NVM_ERR_OBJECT_NOT_FOUND"
proof (cases rule: delete_cases [where ca = ca and key = key and key_len = key_len and pool_id = pool_id])
  case missing
  have "fst (kv_cache_get mode now key key_len pool_id ca) = Inl NVM_ERR_OBJECT_NOT_FOUND"
  proof (cases rule: stop_cases [of ca key key_len pool_id])
    case (stop k)
    then show ?thesis using missing(2) by (auto simp: get_stop Let_def least_stop_def entry_passed_def)
  next
    case full
    then show ?thesis by (elim get_full [where mode = mode and now = now]) simp
  qed
  then show ?thesis by (simp add: missing(1))
next
  case (deleted k)
  let ?s = "probe_slot ca key key_len pool_id k"
  have s: "?s < m_total_entries ca" by (rule slot_in_table [OF assms])
  have "(cleared_entry 0)\<lparr>ce_index := ce_index (m_hash_table ca ! ?s)\<rparr> = cleared_entry ?s"
    using assms s by (simp add: cache_wf_def cleared_entry_def)
  then show ?thesis using s deleted by auto
qed


end
