(* ===== verification/PoolMgr.thy ===== *)
theory PoolMgr
  imports Device Bitmap Layout Cache "HOL-Library.Signed_Division"
begin

text \<open>
  The pool manager of \<open>src/kv_pool_manager.cpp\<close>: the in-use and deleted bitmaps, the
  table of pool tags, and their persistent copies. The record holds the state of one
  \<open>NVM_KV_Pool_Mgr\<close> and of the objects it shares by pointer with the store (device,
  layout, hash function, store metadata); the store reaches them through it.

  \<open>pm_locked\<close> is the bitmap mutex as an operation leaves it: an operation that starts
  with it held does not return. Every operation that changes the state is a function on the
  record; \<open>None\<close> as the result of one of them means that it never returns. Pointers in
  the vectors handed to the device are replaced by the bytes they point to (\<open>iov_data\<close>).
\<close>

record nvm_kv_pool_mgr =
  pm_device :: nvm_kv_store_device
  pm_layout :: nvm_kv_layout
  pm_hash :: nvm_kv_hash_func
  pm_md :: nvm_kv_store_metadata
  pm_md_tail :: bytes
  pm_in_use :: kv_bitmap
  pm_deleted :: kv_bitmap
  pm_bm_len :: nat
  pm_tags :: bytes
  pm_tags_map :: "bytes \<rightharpoonup> int"
  pm_tag_size :: nat
  pm_bufpool :: nvm_kv_buffer_pool
  pm_del_status :: bool
  pm_locked :: bool

definition M_KVSTORE_METADATA :: u32 where "M_KVSTORE_METADATA = 1"
definition M_KV_BM_INUSE :: u32 where "M_KV_BM_INUSE = 2"
definition M_KV_BM_DELETED :: u32 where "M_KV_BM_DELETED = 4"
definition M_KV_POOL_TAGS :: u32 where "M_KV_POOL_TAGS = 8"
definition M_DEFAULT_POOL_ID :: u32 where "M_DEFAULT_POOL_ID = 0"
definition M_POOLID_ALL :: int where "M_POOLID_ALL = -1"

lemmas pm_flags =
  M_KVSTORE_METADATA_def M_KV_BM_INUSE_def M_KV_BM_DELETED_def M_KV_POOL_TAGS_def

section \<open>Small accessors\<close>

definition pm_sector_size :: "nvm_kv_pool_mgr \<Rightarrow> nat" where
  "pm_sector_size pm = nvm_sector_size (dev_caps (pm_device pm))"

definition pm_max_pools :: "nvm_kv_pool_mgr \<Rightarrow> nat" where
  "pm_max_pools pm = unat (sm_max_pools (pm_md pm))"

definition get_default_poolid :: u32 where
  "get_default_poolid = M_DEFAULT_POOL_ID"

definition get_all_poolid :: int where
  "get_all_poolid = M_POOLID_ALL"

definition check_pool_del_status :: "nvm_kv_pool_mgr \<Rightarrow> bool" where
  "check_pool_del_status pm = pm_del_status pm"

definition set_pool_del_status :: "bool \<Rightarrow> nvm_kv_pool_mgr \<Rightarrow> nvm_kv_pool_mgr" where
  "set_pool_del_status mode pm = pm\<lparr>pm_del_status := mode\<rparr>"

definition valid_poolid :: "int \<Rightarrow> nvm_kv_pool_mgr \<Rightarrow> bool" where
  "valid_poolid pool_id pm \<longleftrightarrow>
     pool_id = uint get_default_poolid \<or> bitmap_test (pm_in_use pm) (word_of_int pool_id) \<noteq> 0"

definition pool_in_del :: "int \<Rightarrow> nvm_kv_pool_mgr \<Rightarrow> bool" where
  "pool_in_del pool_id pm \<longleftrightarrow>
     sm_max_pools (pm_md pm) \<noteq> 0 \<and> bitmap_test (pm_in_use pm) (word_of_int pool_id) \<noteq> 0 \<and>
     bitmap_test (pm_deleted pm) (word_of_int pool_id) \<noteq> 0"

definition check_pool_status :: "int \<Rightarrow> nvm_kv_pool_mgr \<Rightarrow> nvm_kv_pool_status" where
  "check_pool_status pool_id pm =
     (if pool_id < 0 \<or> pool_id \<ge> int NVM_KV_MAX_POOLS then POOL_IS_INVALID
      else if valid_poolid pool_id pm \<and> \<not> pool_in_del pool_id pm then POOL_IN_USE
      else if pool_in_del pool_id pm then POOL_DELETION_IN_PROGRESS
      else POOL_NOT_IN_USE)"

definition get_poolid_hash :: "nvm_kv_pool_mgr \<Rightarrow> u32 \<Rightarrow> u32" where
  "get_poolid_hash pm pool_id =
     (let pool_bits = get_val_bits (pm_layout pm) - 1
      in if sm_max_pools (pm_md pm) > push_bit (unat pool_bits) 1
         then ucast (key_hash (pm_hash pm) (le_bytes 4 pool_id) 4 0 pool_bits False)
         else pool_id)"

definition has_pools_to_delete :: "nvm_kv_pool_mgr \<Rightarrow> bool" where
  "has_pools_to_delete pm \<longleftrightarrow>
     \<not> (bitmap_ffs (pm_deleted pm) (sm_max_pools (pm_md pm)) = BM_FULL)"

section \<open>Pool tags\<close>

text \<open>The C string that starts at a tag: the bytes before the first zero.\<close>

definition cstr :: "bytes \<Rightarrow> bytes" where
  "cstr tag = takeWhile (\<lambda>b. b \<noteq> 0) tag"

definition tag_at :: "nvm_kv_pool_mgr \<Rightarrow> nat \<Rightarrow> bytes" where
  "tag_at pm i = mem_read (i * POOL_TAG_SIZE) POOL_TAG_SIZE (pm_tags pm)"

definition get_pool_tag_sect :: "nvm_kv_pool_mgr \<Rightarrow> nat \<Rightarrow> nat" where
  "get_pool_tag_sect pm pool_id =
     drop_bit (unat (get_sect_bits (pm_layout pm))) (pool_id * POOL_TAG_SIZE)"

definition get_pool_tag :: "nvm_kv_pool_mgr \<Rightarrow> nat \<Rightarrow> bytes" where
  "get_pool_tag pm pool_id =
     (if check_pool_status (int pool_id) pm = POOL_IN_USE then tag_at pm pool_id
      else zeros POOL_TAG_SIZE)"

definition set_pool_tag :: "nat \<Rightarrow> bytes option \<Rightarrow> nvm_kv_pool_mgr \<Rightarrow> nvm_kv_pool_mgr" where
  "set_pool_tag pool_id pool_tag pm =
     pm\<lparr>pm_tags := memcpy (pool_id * POOL_TAG_SIZE)
          (case pool_tag of Some tag \<Rightarrow> take POOL_TAG_SIZE tag | None \<Rightarrow> zeros POOL_TAG_SIZE)
          (pm_tags pm)\<rparr>"

section \<open>Writing the pool information\<close>

definition bitmap_bytes :: "kv_bitmap \<Rightarrow> bytes" where
  "bitmap_bytes bm = concat (map (le_bytes 4) bm)"

definition bytes_bitmap :: "bytes \<Rightarrow> kv_bitmap" where
  "bytes_bitmap bs = map (\<lambda>i. le_word (mem_read (4 * i) 4 bs)) [0..<length bs div 4]"

definition bitmap_media_len :: "nvm_kv_pool_mgr \<Rightarrow> nat" where
  "bitmap_media_len pm =
     rnd (unat (bits_per_uint8 (round32 (sm_max_pools (pm_md pm))))) (pm_sector_size pm)"

definition write_iov :: "u64 \<Rightarrow> nat \<Rightarrow> bytes \<Rightarrow> nvm_iovec" where
  "write_iov lba len data =
     \<lparr>iov_base = 0, iov_len = len, iov_lba = lba, iov_opcode = NVM_IOV_WRITE, iov_data = data\<rparr>"

definition tag_iov :: "int \<Rightarrow> nvm_kv_pool_mgr \<Rightarrow> nvm_iovec" where
  "tag_iov pool_index pm =
     (let ss = pm_sector_size pm; sect = get_pool_tag_sect pm (nat pool_index)
      in write_iov (get_pool_tags_lba (pm_layout pm) + of_nat sect) ss
           (mem_read (sect * ss) ss (pm_tags pm)))"

definition metadata_iov :: "nvm_kv_pool_mgr \<Rightarrow> nvm_iovec" where
  "metadata_iov pm =
     (let len = rnd KV_STORE_METADATA_SIZE (pm_sector_size pm)
      in write_iov (get_metadata_lba (pm_layout pm)) len
           (take len (metadata_bytes (pm_md pm) @ pm_md_tail pm)))"

definition bitmap_iov :: "int \<Rightarrow> u64 \<Rightarrow> kv_bitmap \<Rightarrow> nvm_kv_pool_mgr \<Rightarrow> nvm_iovec" where
  "bitmap_iov pool_index base_lba bm pm =
     (let ss = pm_sector_size pm;
          sect = bit_index_sector (word_of_int pool_index) (get_sect_bits (pm_layout pm))
      in if pool_index = -1
         then write_iov base_lba (bitmap_media_len pm)
                (mem_read 0 (bitmap_media_len pm) (bitmap_bytes bm))
         else write_iov (base_lba + ucast sect) ss (mem_read (unat sect * ss) ss (bitmap_bytes bm)))"

definition persist_iovs :: "u32 \<Rightarrow> int \<Rightarrow> nvm_kv_pool_mgr \<Rightarrow> nvm_iovec list" where
  "persist_iovs type pool_index pm =
     (if type AND M_KV_POOL_TAGS \<noteq> 0 \<and> pool_index \<noteq> -1 then [tag_iov pool_index pm] else []) @
     (if type AND M_KVSTORE_METADATA \<noteq> 0 then [metadata_iov pm] else []) @
     (if type AND M_KV_BM_INUSE \<noteq> 0
      then [bitmap_iov pool_index (get_inuse_bm_lba (pm_layout pm)) (pm_in_use pm) pm] else []) @
     (if type AND M_KV_BM_DELETED \<noteq> 0
      then [bitmap_iov pool_index (get_del_bm_lba (pm_layout pm)) (pm_deleted pm) pm] else [])"

text \<open>
  The tag writer keeps its numbers in \<open>int\<close> and \<open>uint32_t\<close>: the vector size is the
  product of two capabilities narrowed to \<open>int\<close>, the comparison with the length that
  remains is unsigned, the products with the vector count are \<open>int\<close> and are
  sign-extended when they are added to an address.
\<close>

definition tags_write_size :: "nvm_kv_pool_mgr \<Rightarrow> u32" where
  "tags_write_size pm =
     of_nat (nvm_atomic_write_multiplicity (dev_caps (pm_device pm)) *
       nvm_max_write_size_per_iov (dev_caps (pm_device pm)))"

definition tags_max_iovs :: "nvm_kv_pool_mgr \<Rightarrow> int" where
  "tags_max_iovs pm = sint (of_nat (nvm_max_num_iovs (dev_caps (pm_device pm))) :: u32)"

definition tags_max_total :: "nvm_kv_pool_mgr \<Rightarrow> u32" where
  "tags_max_total pm = of_nat (nvm_atomic_write_max_total_size (dev_caps (pm_device pm)))"

definition tags_vector_sectors :: "nvm_kv_pool_mgr \<Rightarrow> u32" where
  "tags_vector_sectors pm =
     word_of_int (sint (tags_write_size pm) sdiv sint (of_nat (pm_sector_size pm) :: u32))"

function tags_fill ::
  "nvm_kv_pool_mgr \<Rightarrow> nat \<Rightarrow> u32 \<Rightarrow> u32 \<Rightarrow> u32 \<Rightarrow> nvm_iovec list \<times> u32 \<times> u32" where
  "tags_fill pm iov_count total_len count remaining_len =
     (if remaining_len \<noteq> 0 \<and> int iov_count < tags_max_iovs pm \<and> total_len < tags_max_total pm
      then
        (let max_write_size_per_iov = tags_write_size pm;
             vector_size = (if remaining_len < max_write_size_per_iov then remaining_len
                            else max_write_size_per_iov);
             iov = write_iov
                     (get_pool_tags_lba (pm_layout pm) + scast (count * tags_vector_sectors pm))
                     (unat vector_size)
                     (mem_read (unat (scast (count * max_write_size_per_iov) :: u64)) (unat vector_size)
                       (pm_tags pm));
             (iovs, count, remaining_len) =
               tags_fill pm (Suc iov_count) (total_len + vector_size) (count + 1)
                 (remaining_len - vector_size)
         in (iov # iovs, count, remaining_len))
      else ([], count, remaining_len))"
  by pat_completeness auto
termination
  by (relation "measure (\<lambda>(pm, iov_count, t, c, r). nat (tags_max_iovs pm) - iov_count)") auto

declare tags_fill.simps [simp del]

partial_function (option) tags_loop ::
  "'w nvm_env \<Rightarrow> nvm_kv_pool_mgr \<Rightarrow> u32 \<Rightarrow> u32 \<Rightarrow> 'w \<Rightarrow> (unit res \<times> 'w) option" where
  "tags_loop E pm count remaining_len w =
     (if remaining_len = 0 then Some (Inr (), w)
      else
        (let fill = tags_fill pm 0 0 count remaining_len; iovs = fst fill;
             r = nvm_writev E (pm_device pm) iovs (length iovs) True w
         in case fst r of
              Inl e \<Rightarrow> Some (Inl e, snd r)
            | Inr _ \<Rightarrow> tags_loop E pm (fst (snd fill)) (snd (snd fill)) (snd r)))"

definition persist_pool_tags ::
  "'w nvm_env \<Rightarrow> nvm_kv_pool_mgr \<Rightarrow> 'w \<Rightarrow> (unit res \<times> 'w) option" where
  "persist_pool_tags E pm w = tags_loop E pm 0 (of_nat (pm_tag_size pm)) w"

definition persist_store_info ::
  "'w nvm_env \<Rightarrow> u32 \<Rightarrow> int \<Rightarrow> nvm_kv_pool_mgr \<Rightarrow> 'w \<Rightarrow> (unit res \<times> 'w) option" where
  "persist_store_info E type pool_index pm w =
     (case env_new_iovs E w (nvm_max_num_iovs (dev_caps (pm_device pm))) of
        None \<Rightarrow> Some (Inl NVM_ERR_OUT_OF_MEMORY, w)
      | Some _ \<Rightarrow>
          (case (if type AND M_KV_POOL_TAGS \<noteq> 0 \<and> pool_index = -1
                 then persist_pool_tags E pm w else Some (Inr (), w)) of
             None \<Rightarrow> None
           | Some (Inl e, w) \<Rightarrow> Some (Inl e, w)
           | Some (Inr _, w) \<Rightarrow>
               (let iovs = persist_iovs type pool_index pm
                in case nvm_writev E (pm_device pm) iovs (length iovs) True w of
                     (Inl e, w) \<Rightarrow> Some (Inl e, w)
                   | (Inr _, w) \<Rightarrow> Some (Inr (), w))))"

section \<open>Creation of a pool\<close>

definition bump_pools :: "nvm_kv_pool_mgr \<Rightarrow> nvm_kv_pool_mgr" where
  "bump_pools pm = pm\<lparr>pm_md := (pm_md pm)\<lparr>sm_total_no_pools := sm_total_no_pools (pm_md pm) + 1\<rparr>\<rparr>"

definition drop_pools :: "nvm_kv_pool_mgr \<Rightarrow> nvm_kv_pool_mgr" where
  "drop_pools pm = pm\<lparr>pm_md := (pm_md pm)\<lparr>sm_total_no_pools := sm_total_no_pools (pm_md pm) - 1\<rparr>\<rparr>"

definition create_pool_exit ::
  "int \<Rightarrow> unit res \<Rightarrow> nvm_kv_pool_mgr \<Rightarrow> int res \<times> nvm_kv_pool_mgr" where
  "create_pool_exit pool_id retval pm =
     (case retval of
        Inr _ \<Rightarrow> (Inr pool_id, pm\<lparr>pm_locked := False\<rparr>)
      | Inl e \<Rightarrow>
          (let pm = (if pool_id > 0
                     then pm\<lparr>pm_in_use := bitmap_clear (pm_in_use pm) (word_of_int pool_id)\<rparr>
                     else pm)
           in (Inl e, (drop_pools pm)\<lparr>pm_locked := False\<rparr>)))"

definition create_pool ::
  "'w nvm_env \<Rightarrow> bytes option \<Rightarrow> nvm_kv_pool_mgr \<Rightarrow> 'w \<Rightarrow> (int res \<times> nvm_kv_pool_mgr \<times> 'w) option" where
  "create_pool E pool_tag pm w =
     (let pool_tag_str = (case pool_tag of None \<Rightarrow> [] | Some tag \<Rightarrow> cstr tag)
      in if pm_locked pm then None
         else
           (case (if pool_tag_str \<noteq> [] then pm_tags_map pm pool_tag_str else None) of
              Some pool_id \<Rightarrow>
                (let (r, pm) = create_pool_exit pool_id (Inr ()) pm in Some (r, pm, w))
            | None \<Rightarrow>
                if sm_total_no_pools (pm_md pm) > sm_max_pools (pm_md pm)
                then (let (r, pm) = create_pool_exit (-1) (Inl NVM_ERR_INVALID_INPUT) (bump_pools pm)
                      in Some (r, pm, w))
                else
                  (let pm = bump_pools pm;
                       (pool_id, in_use) = bitmap_ffa (pm_in_use pm) (sm_max_pools (pm_md pm));
                       pm = pm\<lparr>pm_in_use := in_use\<rparr>
                   in if pool_id = BM_FULL
                      then (let (r, pm) = create_pool_exit pool_id (Inl NVM_ERR_INVALID_INPUT) pm
                            in Some (r, pm, w))
                      else
                        (let pm = set_pool_tag (nat pool_id) pool_tag pm
                         in case persist_store_info E
                                   (M_KVSTORE_METADATA OR M_KV_BM_INUSE OR M_KV_POOL_TAGS) pool_id pm w of
                              None \<Rightarrow> None
                            | Some (retval, w) \<Rightarrow>
                                (let pm = (if pool_tag_str \<noteq> [] \<and> pool_tag_str \<notin> dom (pm_tags_map pm)
                                           then pm\<lparr>pm_tags_map := (pm_tags_map pm)(pool_tag_str \<mapsto> pool_id)\<rparr>
                                           else pm);
                                     (r, pm) = create_pool_exit pool_id retval pm
                                 in Some (r, pm, w))))))"

section \<open>Deletion of pools\<close>

definition delete_ids :: "int \<Rightarrow> nvm_kv_pool_mgr \<Rightarrow> nat list" where
  "delete_ids pool_id pm =
     (if pool_id = M_POOLID_ALL then [1..<max 2 (pm_max_pools pm)] else [nat pool_id])"

definition mark_deleted :: "nvm_kv_pool_mgr \<Rightarrow> nat \<Rightarrow> nvm_kv_pool_mgr" where
  "mark_deleted pm i =
     (if bitmap_test (pm_in_use pm) (of_nat i) \<noteq> 0
      then pm\<lparr>pm_tags_map := (pm_tags_map pm)(cstr (tag_at pm i) := None),
              pm_tags := memcpy (i * POOL_TAG_SIZE) (zeros POOL_TAG_SIZE) (pm_tags pm),
              pm_deleted := bitmap_set (pm_deleted pm) (of_nat i)\<rparr>
      else pm)"

definition unmark_deleted :: "nvm_kv_pool_mgr \<Rightarrow> nat \<Rightarrow> nvm_kv_pool_mgr" where
  "unmark_deleted pm i =
     (if bitmap_test (pm_in_use pm) (of_nat i) \<noteq> 0
      then pm\<lparr>pm_deleted := bitmap_clear (pm_deleted pm) (of_nat i)\<rparr>
      else pm)"

definition purge_cache :: "int \<Rightarrow> nvm_kv_cache option \<Rightarrow> nvm_kv_cache option" where
  "purge_cache pool_id cache =
     map_option (if pool_id = M_POOLID_ALL
                 then kv_cache_delete_all_pools get_default_poolid
                 else kv_cache_delete_pools {word_of_int pool_id}) cache"

definition delete_pool ::
  "'w nvm_env \<Rightarrow> int \<Rightarrow> nvm_kv_pool_mgr \<Rightarrow> nvm_kv_cache option \<Rightarrow> 'w \<Rightarrow>
   (unit res \<times> bool \<times> nvm_kv_pool_mgr \<times> nvm_kv_cache option \<times> 'w) option" where
  "delete_pool E pool_id pm cache w =
     (let status = check_pool_status pool_id pm
      in if pool_id \<noteq> M_POOLID_ALL \<and> status \<in> {POOL_IS_INVALID, POOL_NOT_IN_USE}
         then Some (Inl NVM_ERR_INVALID_INPUT, False, pm, cache, w)
         else if pool_id \<noteq> M_POOLID_ALL \<and> status = POOL_DELETION_IN_PROGRESS
         then Some (Inr (), False, pm, cache, w)
         else if pm_locked pm then None
         else
           (let pm = foldl mark_deleted pm (delete_ids pool_id pm)
            in case persist_store_info E M_KV_BM_DELETED pool_id pm w of
                 None \<Rightarrow> None
               | Some (Inl e, w) \<Rightarrow>
                   Some (Inl e, False, foldl unmark_deleted pm (delete_ids pool_id pm), cache, w)
               | Some (Inr _, w) \<Rightarrow> Some (Inr (), True, pm, purge_cache pool_id cache, w)))"

section \<open>The pool deletion manager's view\<close>

definition get_pool_deletion_bitmap ::
  "'w nvm_env \<Rightarrow> nvm_kv_pool_mgr \<Rightarrow> 'w \<Rightarrow> (kv_bitmap \<times> bool) res" where
  "get_pool_deletion_bitmap E pm w =
     (case env_memalign E w (pm_bm_len pm) of
        None \<Rightarrow> Inl NVM_ERR_OUT_OF_MEMORY
      | Some _ \<Rightarrow>
          (let n = pm_bm_len pm div 4;
               tmp_bitmap = bitmap_clear (take n (pm_in_use pm)) 0
           in Inr (take n (pm_deleted pm), tmp_bitmap = take n (pm_deleted pm))))"

definition clear_pool_bit :: "kv_bitmap \<Rightarrow> bool \<Rightarrow> nvm_kv_pool_mgr \<Rightarrow> nat \<Rightarrow> nvm_kv_pool_mgr" where
  "clear_pool_bit bitmap already_cleared pm i =
     (if bitmap_test bitmap (of_nat i) \<noteq> 0
      then
        (let pm = (if already_cleared then pm
                   else pm\<lparr>pm_deleted := bitmap_clear (pm_deleted pm) (of_nat i)\<rparr>)
         in drop_pools (pm\<lparr>pm_in_use := bitmap_clear (pm_in_use pm) (of_nat i)\<rparr>))
      else pm)"

definition clear_pool_bitmaps ::
  "'w nvm_env \<Rightarrow> kv_bitmap \<Rightarrow> nvm_kv_pool_mgr \<Rightarrow> 'w \<Rightarrow> (unit res \<times> nvm_kv_pool_mgr \<times> 'w) option" where
  "clear_pool_bitmaps E bitmap pm w =
     (if pm_locked pm then None
      else
        (let n = pm_bm_len pm div 4;
             all_cleared = (take n (pm_deleted pm) = take n bitmap);
             pm = (if all_cleared then pm\<lparr>pm_deleted := replicate n 0 @ drop n (pm_deleted pm)\<rparr> else pm);
             pm = foldl (clear_pool_bit bitmap all_cleared) pm [1..<pm_max_pools pm]
         in case persist_store_info E
                   (M_KVSTORE_METADATA OR M_KV_BM_DELETED OR M_KV_BM_INUSE) (-1) pm w of
              None \<Rightarrow> None
            | Some (Inl e, w) \<Rightarrow> Some (Inl e, pm\<lparr>pm_locked := True\<rparr>, w)
            | Some (Inr _, w) \<Rightarrow> Some (Inr (), pm, w)))"

definition clear_pool_bitmap ::
  "'w nvm_env \<Rightarrow> u32 \<Rightarrow> nvm_kv_pool_mgr \<Rightarrow> 'w \<Rightarrow> (unit res \<times> nvm_kv_pool_mgr \<times> 'w) option" where
  "clear_pool_bitmap E pool_id pm w =
     (if pm_locked pm then None
      else
        (let pm = drop_pools
                    (pm\<lparr>pm_deleted := bitmap_clear (pm_deleted pm) pool_id,
                        pm_in_use := bitmap_clear (pm_in_use pm) pool_id\<rparr>)
         in case persist_store_info E
                   (M_KVSTORE_METADATA OR M_KV_BM_DELETED OR M_KV_BM_INUSE) (sint pool_id) pm w of
              None \<Rightarrow> None
            | Some (retval, w) \<Rightarrow> Some (retval, pm, w)))"

section \<open>Initialisation and recovery\<close>

fun restore_tags :: "nat list \<Rightarrow> nvm_kv_pool_mgr \<Rightarrow> unit res \<times> nvm_kv_pool_mgr" where
  "restore_tags [] pm = (Inr (), pm)"
| "restore_tags (i # is) pm =
     (let pool_tag_str = cstr (get_pool_tag pm i);
          pm = (if pool_tag_str \<noteq> [] \<and> pool_tag_str \<notin> dom (pm_tags_map pm)
                then pm\<lparr>pm_tags_map := (pm_tags_map pm)(pool_tag_str \<mapsto> int i)\<rparr> else pm)
      in if bitmap_test (pm_deleted pm) (of_nat i) \<noteq> 0 \<and> bitmap_test (pm_in_use pm) (of_nat i) = 0
         then (Inl NVM_ERR_INTERNAL_FAILURE, pm)
         else restore_tags is pm)"

definition read_iov :: "u64 \<Rightarrow> nat \<Rightarrow> u64 \<Rightarrow> nvm_iovec" where
  "read_iov base len lba =
     \<lparr>iov_base = base, iov_len = len, iov_lba = lba, iov_opcode = NVM_IOV_WRITE, iov_data = []\<rparr>"

definition restore_pools ::
  "'w nvm_env \<Rightarrow> u64 \<Rightarrow> u64 \<Rightarrow> u64 \<Rightarrow> nvm_kv_pool_mgr \<Rightarrow> 'w \<Rightarrow> unit res \<times> nvm_kv_pool_mgr" where
  "restore_pools E in_use_addr deleted_addr tags_addr pm w =
     (let len = bitmap_media_len pm
      in case nvm_readv E (pm_device pm)
                [read_iov in_use_addr len (get_inuse_bm_lba (pm_layout pm)),
                 read_iov deleted_addr len (get_del_bm_lba (pm_layout pm))] w of
           Inl e \<Rightarrow> (Inl e, pm)
         | Inr bitmaps \<Rightarrow>
             (let pm = pm\<lparr>pm_in_use := bytes_bitmap (mem_read 0 len bitmaps),
                         pm_deleted := bytes_bitmap (mem_read len len bitmaps)\<rparr>
              in case nvm_readv E (pm_device pm)
                        [read_iov tags_addr (pm_tag_size pm) (get_pool_tags_lba (pm_layout pm))] w of
                   Inl e \<Rightarrow> (Inl e, pm)
                 | Inr tags \<Rightarrow> restore_tags [1..<pm_max_pools pm] (pm\<lparr>pm_tags := tags\<rparr>)))"

definition pool_mgr_alloc ::
  "'w nvm_env \<Rightarrow> bool \<Rightarrow> bool \<Rightarrow> nvm_kv_pool_mgr \<Rightarrow> 'w \<Rightarrow> (unit res \<times> u64 \<times> nvm_kv_pool_mgr) option" where
  "pool_mgr_alloc E in_use_ok deleted_ok pm w =
     (let ss = pm_sector_size pm; max_pools = sm_max_pools (pm_md pm);
          tag_size = rnd ((POOL_TAG_SIZE * unat max_pools) mod 2 ^ 32) ss;
          pm = pm\<lparr>pm_tag_size := tag_size\<rparr>
      in case bp_initialize (env_memalign E w) 1 tag_size ss (pm_bufpool pm) of
           (Inl e, bp) \<Rightarrow> Some (Inl e, 0, pm\<lparr>pm_bufpool := bp\<rparr>)
         | (Inr _, bp) \<Rightarrow>
             (case get_buf (env_memalign E w) tag_size bp of
                None \<Rightarrow> None
              | Some (buf, _, bp) \<Rightarrow>
                  (let pm = pm\<lparr>pm_bufpool := bp,
                              pm_tags := (case buf of None \<Rightarrow> [] | Some mb \<Rightarrow> mb_mem mb)\<rparr>;
                       addr = (case buf of None \<Rightarrow> 0 | Some mb \<Rightarrow> mb_addr mb)
                   in case bitmap_alloc_aligned in_use_ok max_pools (of_nat ss) of
                        None \<Rightarrow> Some (Inl NVM_ERR_OUT_OF_MEMORY, addr, pm)
                      | Some in_use \<Rightarrow>
                          (case bitmap_alloc_aligned deleted_ok max_pools (of_nat ss) of
                             None \<Rightarrow> Some (Inl NVM_ERR_OUT_OF_MEMORY, addr, pm\<lparr>pm_in_use := in_use\<rparr>)
                           | Some deleted \<Rightarrow>
                               (let bm_len = bitmap_media_len pm;
                                    del_bm_lba = ucast (get_inuse_bm_lba (pm_layout pm)) +
                                                 of_nat (bm_len div ss)
                                in Some (Inr (), addr,
                                     pm\<lparr>pm_in_use := bitmap_set in_use 0, pm_deleted := deleted,
                                        pm_bm_len := bm_len,
                                        pm_layout := set_del_bm_lba del_bm_lba (pm_layout pm)\<rparr>))))))"

definition pool_mgr_initialize ::
  "'w nvm_env \<Rightarrow> bool \<Rightarrow> bool \<Rightarrow> u64 \<Rightarrow> u64 \<Rightarrow> bool \<Rightarrow> nvm_kv_pool_mgr \<Rightarrow> 'w \<Rightarrow>
   (unit res \<times> nvm_kv_pool_mgr \<times> 'w) option" where
  "pool_mgr_initialize E in_use_ok deleted_ok in_use_addr deleted_addr create_new pm w =
     (if sm_max_pools (pm_md pm) = 0 then Some (Inr (), pm, w)
      else
        (case pool_mgr_alloc E in_use_ok deleted_ok pm w of
           None \<Rightarrow> None
         | Some (Inl e, _, pm) \<Rightarrow> Some (Inl e, pm, w)
         | Some (Inr _, tags_addr, pm) \<Rightarrow>
             if create_new
             then (case persist_store_info E (M_KV_BM_INUSE OR M_KV_BM_DELETED OR M_KV_POOL_TAGS) (-1)
                          pm w of
                     None \<Rightarrow> None
                   | Some (retval, w) \<Rightarrow> Some (retval, pm, w))
             else (let (retval, pm) = restore_pools E in_use_addr deleted_addr tags_addr pm w
                   in Some (retval, pm, w))))"

section \<open>The invariant\<close>

definition tags_map_ok :: "nvm_kv_pool_mgr \<Rightarrow> bool" where
  "tags_map_ok pm \<longleftrightarrow>
     (\<forall>t i. pm_tags_map pm t = Some i \<longleftrightarrow>
        t \<noteq> [] \<and> (\<exists>n. i = int n \<and> n \<noteq> 0 \<and> n \<in> bm_bits (pm_in_use pm) \<and>
                     n \<notin> bm_bits (pm_deleted pm) \<and> cstr (tag_at pm n) = t))"

definition pm_shape :: "nvm_kv_pool_mgr \<Rightarrow> bool" where
  "pm_shape pm \<longleftrightarrow>
     1 \<le> pm_max_pools pm \<and> pm_max_pools pm \<le> NVM_KV_MAX_POOLS \<and>
     pm_max_pools pm \<le> bm_nbits (pm_in_use pm) \<and>
     bm_nbits (pm_deleted pm) = bm_nbits (pm_in_use pm) \<and>
     pm_bm_len pm = 4 * length (pm_in_use pm) \<and>
     POOL_TAG_SIZE * pm_max_pools pm \<le> length (pm_tags pm) \<and>
     bm_bits (pm_in_use pm) \<subseteq> {..<pm_max_pools pm} \<and> 0 \<in> bm_bits (pm_in_use pm) \<and>
     bm_bits (pm_deleted pm) \<subseteq> bm_bits (pm_in_use pm) - {0}"

definition pm_wf :: "nvm_kv_pool_mgr \<Rightarrow> bool" where
  "pm_wf pm \<longleftrightarrow> pm_shape pm \<and> tags_map_ok pm \<and>
     unat (sm_total_no_pools (pm_md pm)) = card (bm_bits (pm_in_use pm))"

lemma pm_id_word:
  assumes "pm_shape pm" and "n < pm_max_pools pm"
  shows "unat (of_nat n :: u32) = n" and "n < bm_nbits (pm_in_use pm)" and "n < bm_nbits (pm_deleted pm)"
    and "word_of_int (int n) = (of_nat n :: u32)" and "n < NVM_KV_MAX_POOLS"
  using assms by (auto simp: pm_shape_def NVM_KV_MAX_POOLS_def unat_of_nat)

lemma pm_test:
  assumes "pm_shape pm" and "n < pm_max_pools pm"
  shows "bitmap_test (pm_in_use pm) (of_nat n) \<noteq> 0 \<longleftrightarrow> n \<in> bm_bits (pm_in_use pm)"
    and "bitmap_test (pm_deleted pm) (of_nat n) \<noteq> 0 \<longleftrightarrow> n \<in> bm_bits (pm_deleted pm)"
  using pm_id_word [OF assms] bm.test_law [of "of_nat n"] by simp_all

lemma pm_status:
  assumes "pm_shape pm" and "n < pm_max_pools pm"
  shows "check_pool_status (int n) pm =
     (if n \<in> bm_bits (pm_deleted pm) then POOL_DELETION_IN_PROGRESS
      else if n \<in> bm_bits (pm_in_use pm) then POOL_IN_USE else POOL_NOT_IN_USE)"
proof -
  have "sm_max_pools (pm_md pm) \<noteq> 0"
    using assms(1) unfolding pm_shape_def pm_max_pools_def by (metis not_one_le_zero unat_0)
  moreover have "bm_bits (pm_deleted pm) \<subseteq> bm_bits (pm_in_use pm) - {0}"
    and "0 \<in> bm_bits (pm_in_use pm)" using assms(1) by (simp_all add: pm_shape_def)
  ultimately show ?thesis
    using pm_test [OF assms] pm_id_word(4,5) [OF assms]
    by (auto simp: check_pool_status_def valid_poolid_def pool_in_del_def get_default_poolid_def
        M_DEFAULT_POOL_ID_def)
qed

lemma tag_at_set:
  assumes "POOL_TAG_SIZE * m \<le> length (pm_tags pm)" and "n < m" and "i < m"
    and "length tag = POOL_TAG_SIZE"
  shows "mem_read (n * POOL_TAG_SIZE) POOL_TAG_SIZE (memcpy (i * POOL_TAG_SIZE) tag (pm_tags pm)) =
         (if n = i then tag else tag_at pm n)"
proof -
  have i: "i * POOL_TAG_SIZE + POOL_TAG_SIZE \<le> length (pm_tags pm)"
    using assms(1,3) by (simp add: POOL_TAG_SIZE_def)
  consider "n = i" | "n < i" | "i < n" by linarith
  then show ?thesis
  proof cases
    case 1
    then show ?thesis using i assms(4) by (simp add: mem_read_memcpy_same)
  next
    case 2
    then have "n * POOL_TAG_SIZE + POOL_TAG_SIZE \<le> i * POOL_TAG_SIZE"
      by (simp add: POOL_TAG_SIZE_def)
    then show ?thesis using 2 i by (simp add: mem_read_memcpy_before tag_at_def)
  next
    case 3
    then have "i * POOL_TAG_SIZE + length tag \<le> n * POOL_TAG_SIZE"
      using assms(4) by (simp add: POOL_TAG_SIZE_def)
    then show ?thesis using 3 i by (simp add: mem_read_memcpy_after tag_at_def)
  qed
qed

lemma length_set_tag:
  assumes "POOL_TAG_SIZE * m \<le> length (pm_tags pm)" and "i < m" and "length tag = POOL_TAG_SIZE"
  shows "length (memcpy (i * POOL_TAG_SIZE) tag (pm_tags pm)) = length (pm_tags pm)"
  using assms by (intro length_memcpy) (simp add: POOL_TAG_SIZE_def)

lemma cstr_zeros [simp]: "cstr (zeros n) = []"
  by (cases n) (simp_all add: cstr_def zeros_def)

lemma cstr_take: "length (cstr tag) < n \<Longrightarrow> n \<le> length tag \<Longrightarrow> cstr (take n tag) = cstr tag"
proof -
  assume "length (cstr tag) < n" "n \<le> length tag"
  moreover have "takeWhile P (take n xs) = take n (takeWhile P xs)" for P :: "u8 \<Rightarrow> bool" and n xs
    by (induction xs arbitrary: n) (auto simp: take_Cons split: nat.splits)
  ultimately show ?thesis by (simp add: cstr_def)
qed

section \<open>The abstract pool table\<close>

datatype apool = Live bytes | Dying

definition pool_view :: "nvm_kv_pool_mgr \<Rightarrow> nat \<Rightarrow> apool option" where
  "pool_view pm n =
     (if n \<notin> bm_bits (pm_in_use pm) then None
      else if n \<in> bm_bits (pm_deleted pm) then Some Dying
      else Some (Live (if n = 0 then [] else cstr (tag_at pm n))))"

definition status_of :: "apool option \<Rightarrow> nvm_kv_pool_status" where
  "status_of v = (case v of None \<Rightarrow> POOL_NOT_IN_USE | Some (Live _) \<Rightarrow> POOL_IN_USE
                  | Some Dying \<Rightarrow> POOL_DELETION_IN_PROGRESS)"

definition tag_arg_ok :: "bytes option \<Rightarrow> bool" where
  "tag_arg_ok tag = (case tag of None \<Rightarrow> True
     | Some t \<Rightarrow> POOL_TAG_SIZE \<le> length t \<and> length (cstr t) < POOL_TAG_SIZE)"

definition tag_str :: "bytes option \<Rightarrow> bytes" where
  "tag_str tag = (case tag of None \<Rightarrow> [] | Some t \<Rightarrow> cstr t)"

definition add_tag :: "bytes \<Rightarrow> int \<Rightarrow> nvm_kv_pool_mgr \<Rightarrow> nvm_kv_pool_mgr" where
  "add_tag t pool_id pm =
     (if t \<noteq> [] \<and> t \<notin> dom (pm_tags_map pm)
      then pm\<lparr>pm_tags_map := (pm_tags_map pm)(t \<mapsto> pool_id)\<rparr> else pm)"

definition with_pool :: "nat \<Rightarrow> bytes option \<Rightarrow> nvm_kv_pool_mgr \<Rightarrow> nvm_kv_pool_mgr" where
  "with_pool n tag pm =
     set_pool_tag n tag ((bump_pools pm)\<lparr>pm_in_use := bitmap_set (pm_in_use pm) (of_nat n)\<rparr>)"

lemma pool_status_view:
  assumes "pm_shape pm" and "n < pm_max_pools pm"
  shows "check_pool_status (int n) pm = status_of (pool_view pm n)"
  using pm_status [OF assms] assms(1) by (auto simp: pool_view_def status_of_def pm_shape_def)

lemma view_in_use: "pm_shape pm \<Longrightarrow> pool_view pm n \<noteq> None \<longleftrightarrow> n \<in> bm_bits (pm_in_use pm)"
  by (simp add: pool_view_def)

lemma with_pool_simps [simp]:
  "pm_in_use (with_pool n tag pm) = bitmap_set (pm_in_use pm) (of_nat n)"
  "pm_deleted (with_pool n tag pm) = pm_deleted pm"
  "pm_tags_map (with_pool n tag pm) = pm_tags_map pm"
  "pm_max_pools (with_pool n tag pm) = pm_max_pools pm"
  "pm_md (with_pool n tag pm) = (pm_md pm)\<lparr>sm_total_no_pools := sm_total_no_pools (pm_md pm) + 1\<rparr>"
  "pm_locked (with_pool n tag pm) = pm_locked pm" "pm_bm_len (with_pool n tag pm) = pm_bm_len pm"
  by (simp_all add: with_pool_def set_pool_tag_def bump_pools_def pm_max_pools_def)

lemma tag_at_with_pool:
  assumes "pm_shape pm" and "n < pm_max_pools pm" and "i < pm_max_pools pm" and "tag_arg_ok tag"
  shows "cstr (tag_at (with_pool i tag pm) n) = (if n = i then tag_str tag else cstr (tag_at pm n))"
    and "length (pm_tags (with_pool i tag pm)) = length (pm_tags pm)"
proof -
  let ?t = "case tag of Some tag \<Rightarrow> take POOL_TAG_SIZE tag | None \<Rightarrow> zeros POOL_TAG_SIZE"
  have len: "length ?t = POOL_TAG_SIZE" using assms(4) by (auto simp: tag_arg_ok_def split: option.splits)
  have c: "cstr ?t = tag_str tag"
    using assms(4) by (auto simp: tag_arg_ok_def tag_str_def cstr_take split: option.splits)
  have tags: "POOL_TAG_SIZE * pm_max_pools pm \<le> length (pm_tags pm)"
    using assms(1) by (simp add: pm_shape_def)
  show "cstr (tag_at (with_pool i tag pm) n) = (if n = i then tag_str tag else cstr (tag_at pm n))"
  proof -
    have "tag_at (with_pool i tag pm) n = (if n = i then ?t else tag_at pm n)"
      using tag_at_set [OF tags assms(2,3) len]
      by (simp only: tag_at_def [of "with_pool i tag pm"]) (simp add: with_pool_def set_pool_tag_def bump_pools_def)
    then show ?thesis using c by (simp only:) (simp split: if_splits)
  qed
  show "length (pm_tags (with_pool i tag pm)) = length (pm_tags pm)"
    using length_set_tag [OF tags assms(3) len]
    by (simp add: with_pool_def set_pool_tag_def bump_pools_def)
qed

lemma bits_with_pool:
  assumes "pm_shape pm" and "n < pm_max_pools pm"
  shows "bm_bits (bitmap_set (pm_in_use pm) (of_nat n)) = insert n (bm_bits (pm_in_use pm))"
  using bm.set_law [of "of_nat n" "pm_in_use pm"] pm_id_word [OF assms] by simp

lemma finite_pools: "pm_shape pm \<Longrightarrow> finite (bm_bits (pm_in_use pm))"
  using finite_subset [of "bm_bits (pm_in_use pm)"] by (auto simp: pm_shape_def)

lemma card_pools:
  assumes "pm_shape pm"
  shows "card (bm_bits (pm_in_use pm)) \<le> pm_max_pools pm"
  using assms card_mono [of "{..<pm_max_pools pm}" "bm_bits (pm_in_use pm)"]
  by (simp add: pm_shape_def)

lemma with_pool_shape:
  assumes "pm_shape pm" and "n < pm_max_pools pm" and "n \<noteq> 0" and "tag_arg_ok tag"
  shows "pm_shape (with_pool n tag pm)"
  using assms bits_with_pool [OF assms(1,2)] tag_at_with_pool(2) [OF assms(1,2,2,4)]
  by (auto simp: pm_shape_def)

lemma add_tag_simps [simp]:
  "pm_in_use (add_tag t i pm) = pm_in_use pm" "pm_deleted (add_tag t i pm) = pm_deleted pm"
  "pm_md (add_tag t i pm) = pm_md pm" "pm_tags (add_tag t i pm) = pm_tags pm"
  "pm_max_pools (add_tag t i pm) = pm_max_pools pm" "tag_at (add_tag t i pm) = tag_at pm"
  "pm_locked (add_tag t i pm) = pm_locked pm" "pm_bm_len (add_tag t i pm) = pm_bm_len pm"
  by (simp_all add: add_tag_def pm_max_pools_def tag_at_def fun_eq_iff)

lemma add_tag_shape [simp]: "pm_shape (add_tag t i pm) = pm_shape pm"
  by (simp add: pm_shape_def)

lemma fresh_not_0: "pm_shape pm \<Longrightarrow> n \<notin> bm_bits (pm_in_use pm) \<Longrightarrow> n \<noteq> 0"
  by (metis pm_shape_def)

lemma with_pool_map_ok:
  assumes wf: "pm_wf pm" and n: "n < pm_max_pools pm" "n \<notin> bm_bits (pm_in_use pm)"
    and tag: "tag_arg_ok tag" and new: "tag_str tag = [] \<or> pm_tags_map pm (tag_str tag) = None"
  shows "tags_map_ok (add_tag (tag_str tag) (int n) (with_pool n tag pm))"
proof -
  let ?pm = "add_tag (tag_str tag) (int n) (with_pool n tag pm)"
  have sh: "pm_shape pm" and map: "tags_map_ok pm" using wf by (simp_all add: pm_wf_def)
  have n0: "n \<noteq> 0" by (rule fresh_not_0 [OF sh n(2)])
  have nd: "n \<notin> bm_bits (pm_deleted pm)" and sub: "bm_bits (pm_in_use pm) \<subseteq> {..<pm_max_pools pm}"
    using sh n by (auto simp: pm_shape_def)
  have bits: "bm_bits (pm_in_use ?pm) = insert n (bm_bits (pm_in_use pm))"
    using bits_with_pool [OF sh n(1)] by simp
  have tags: "cstr (tag_at (with_pool n tag pm) m) = (if m = n then tag_str tag else cstr (tag_at pm m))"
    if "m \<in> insert n (bm_bits (pm_in_use pm))" for m
    using that sub n(1) by (auto simp: tag_at_with_pool [OF sh _ n(1) tag])
  have m_eq: "pm_tags_map ?pm = (if tag_str tag \<noteq> [] then (pm_tags_map pm)(tag_str tag \<mapsto> int n)
                                 else pm_tags_map pm)"
    using new by (auto simp: add_tag_def dom_def)
  show ?thesis unfolding tags_map_ok_def
  proof (intro allI)
    fix t i
    have old: "pm_tags_map pm t = Some i \<longleftrightarrow> t \<noteq> [] \<and> (\<exists>k. i = int k \<and> k \<noteq> 0 \<and>
        k \<in> bm_bits (pm_in_use pm) \<and> k \<notin> bm_bits (pm_deleted pm) \<and> cstr (tag_at pm k) = t)" for i
      using map by (simp add: tags_map_ok_def)
    show "(pm_tags_map ?pm t = Some i) \<longleftrightarrow> t \<noteq> [] \<and> (\<exists>k. i = int k \<and> k \<noteq> 0 \<and>
        k \<in> bm_bits (pm_in_use ?pm) \<and> k \<notin> bm_bits (pm_deleted ?pm) \<and> cstr (tag_at ?pm k) = t)"
    proof (cases "t = tag_str tag \<and> t \<noteq> []")
      case True
      have "\<forall>k \<in> bm_bits (pm_in_use pm). k \<noteq> 0 \<longrightarrow> k \<notin> bm_bits (pm_deleted pm) \<longrightarrow> cstr (tag_at pm k) \<noteq> t"
        using old [of "int _"] True new by (metis option.simps(3))
      then show ?thesis using True n0 nd n(2) unfolding bits m_eq
        by (auto simp: tags split: if_splits)
    next
      case False
      then have "pm_tags_map ?pm t = pm_tags_map pm t" by (auto simp: m_eq)
      moreover have "cstr (tag_at (with_pool n tag pm) n) \<noteq> t \<or> t = []" using False tags [of n] by auto
      ultimately show ?thesis using old [of i] n(2) unfolding bits
        by (auto simp: tags split: if_splits)
    qed
  qed
qed

lemma with_pool_wf:
  assumes wf: "pm_wf pm" and n: "n < pm_max_pools pm" "n \<notin> bm_bits (pm_in_use pm)"
    and tag: "tag_arg_ok tag" and new: "tag_str tag = [] \<or> pm_tags_map pm (tag_str tag) = None"
  shows "pm_wf (add_tag (tag_str tag) (int n) (with_pool n tag pm))"
    and "pool_view (add_tag (tag_str tag) (int n) (with_pool n tag pm)) =
         (pool_view pm)(n \<mapsto> Live (tag_str tag))"
proof -
  have sh: "pm_shape pm" using wf by (simp add: pm_wf_def)
  have n0: "n \<noteq> 0" by (rule fresh_not_0 [OF sh n(2)])
  have nd: "n \<notin> bm_bits (pm_deleted pm)" and sub: "bm_bits (pm_in_use pm) \<subseteq> {..<pm_max_pools pm}"
    using sh n by (auto simp: pm_shape_def)
  have "card (bm_bits (pm_in_use pm)) + 1 < 2 ^ 32"
    using card_pools [OF sh] sh by (simp add: pm_shape_def NVM_KV_MAX_POOLS_def)
  then have "unat (sm_total_no_pools (pm_md pm) + 1) = card (bm_bits (pm_in_use pm)) + 1"
    using wf unat_plus_of_nat [of "sm_total_no_pools (pm_md pm)" 1] by (simp add: pm_wf_def)
  then show "pm_wf (add_tag (tag_str tag) (int n) (with_pool n tag pm))"
    using with_pool_shape [OF sh n(1) n0 tag] with_pool_map_ok [OF wf n tag new]
      bits_with_pool [OF sh n(1)] n(2) finite_pools [OF sh]
    by (simp add: pm_wf_def)
  show "pool_view (add_tag (tag_str tag) (int n) (with_pool n tag pm)) =
         (pool_view pm)(n \<mapsto> Live (tag_str tag))"
    using bits_with_pool [OF sh n(1)] n0 nd n sub tag_at_with_pool [OF sh _ n(1) tag]
    by (auto simp: pool_view_def fun_eq_iff)
qed

section \<open>Creation\<close>

lemma ffa_pools:
  assumes sh: "pm_shape pm" and ffa: "bitmap_ffa (pm_in_use pm) (sm_max_pools (pm_md pm)) = (r, bm)"
  obtains (full) "r = BM_FULL" and "bm = pm_in_use pm" and "\<forall>n < pm_max_pools pm. n \<in> bm_bits (pm_in_use pm)"
  | (free) n where "r = int n" and "n < pm_max_pools pm" and "n \<notin> bm_bits (pm_in_use pm)"
    and "\<forall>m < n. m \<in> bm_bits (pm_in_use pm)" and "bm = bitmap_set (pm_in_use pm) (of_nat n)"
proof -
  let ?max = "sm_max_pools (pm_md pm)"
  have small: "unat ?max + 31 < 2 ^ 32"
    using sh by (simp add: pm_shape_def pm_max_pools_def NVM_KV_MAX_POOLS_def)
  have "unat ?max \<le> 32 * length (pm_in_use pm)"
    using sh by (simp add: pm_shape_def pm_max_pools_def bm_nbits_def)
  then have "bm_words ?max \<le> length (pm_in_use pm)"
    by (simp add: bm_words_eq [OF small])
  then have "ff_clear_spec BM_FIND_FIRST_CLEAR_AND_SET ?max (pm_in_use pm) (r, bm)"
    using bitmap_helper_clear [OF _ small, of "pm_in_use pm" BM_FIND_FIRST_CLEAR_AND_SET] ffa
    by (simp add: bitmap_ffa_def)
  then show thesis using full free by (auto simp: ff_clear_spec_def pm_max_pools_def)
qed

lemma int_not_full [simp]: "int n \<noteq> BM_FULL"
  by (simp add: BM_FULL_def)

definition after_create ::
  "nat \<Rightarrow> bytes option \<Rightarrow> unit res \<Rightarrow> nvm_kv_pool_mgr \<Rightarrow> int res \<times> nvm_kv_pool_mgr" where
  "after_create n tag retval pm =
     create_pool_exit (int n) retval (add_tag (tag_str tag) (int n) (with_pool n tag pm))"

text \<open>The three ways a creation can go, once the tag is known to be new.\<close>

lemma create_pool_cases:
  assumes wf: "pm_wf pm" and "\<not> pm_locked pm"
  obtains (known) pool_id where "tag_str tag \<noteq> []" and "pm_tags_map pm (tag_str tag) = Some pool_id"
    and "create_pool E tag pm w = Some (Inr pool_id, pm, w)"
  | (full) "tag_str tag = [] \<or> pm_tags_map pm (tag_str tag) = None"
    and "\<forall>n < pm_max_pools pm. n \<in> bm_bits (pm_in_use pm)"
    and "create_pool E tag pm w = Some (Inl NVM_ERR_INVALID_INPUT, pm, w)"
  | (free) n where "tag_str tag = [] \<or> pm_tags_map pm (tag_str tag) = None"
    and "n < pm_max_pools pm" and "n \<notin> bm_bits (pm_in_use pm)" and "\<forall>m < n. m \<in> bm_bits (pm_in_use pm)"
    and "create_pool E tag pm w =
      (case persist_store_info E (M_KVSTORE_METADATA OR M_KV_BM_INUSE OR M_KV_POOL_TAGS) (int n)
              (with_pool n tag pm) w of
         None \<Rightarrow> None
       | Some (retval, w) \<Rightarrow> Some (fst (after_create n tag retval pm), snd (after_create n tag retval pm), w))"
proof -
  have sh: "pm_shape pm" using wf by (simp add: pm_wf_def)
  have not_over: "\<not> sm_total_no_pools (pm_md pm) > sm_max_pools (pm_md pm)"
    using wf card_pools [OF sh] by (simp add: pm_wf_def pm_max_pools_def word_less_nat_alt)
  have unlocked: "pm\<lparr>pm_locked := False\<rparr> = pm" using assms(2) by simp
  have restored: "(drop_pools (bump_pools pm))\<lparr>pm_locked := False\<rparr> = pm"
    using assms(2) by (simp add: drop_pools_def bump_pools_def)
  have str: "(case tag of None \<Rightarrow> [] | Some tag \<Rightarrow> cstr tag) = tag_str tag"
    by (simp add: tag_str_def)
  show thesis
  proof (cases "tag_str tag \<noteq> [] \<and> pm_tags_map pm (tag_str tag) \<noteq> None")
    case True
    then show thesis using known assms(2) unlocked
      by (auto simp: create_pool_def str create_pool_exit_def Let_def)
  next
    case False
    then have new: "(if tag_str tag \<noteq> [] then pm_tags_map pm (tag_str tag) else None) = None" by auto
    obtain r bm where ffa: "bitmap_ffa (pm_in_use pm) (sm_max_pools (pm_md pm)) = (r, bm)" by force
    show thesis
    proof (cases rule: ffa_pools [OF sh ffa])
      case 1
      then show thesis using full False assms(2) new not_over ffa restored
        by (auto simp: create_pool_def str create_pool_exit_def Let_def bump_pools_def BM_FULL_def
            drop_pools_def)
    next
      case (2 n)
      have pm': "set_pool_tag n tag ((bump_pools pm)\<lparr>pm_in_use := bm\<rparr>) = with_pool n tag pm"
        by (simp add: with_pool_def 2(5))
      show thesis
      proof (rule free [of n])
        show "tag_str tag = [] \<or> pm_tags_map pm (tag_str tag) = None" using False by auto
        show "create_pool E tag pm w =
          (case persist_store_info E (M_KVSTORE_METADATA OR M_KV_BM_INUSE OR M_KV_POOL_TAGS) (int n)
              (with_pool n tag pm) w of
           None \<Rightarrow> None
         | Some (retval, w) \<Rightarrow> Some (fst (after_create n tag retval pm), snd (after_create n tag retval pm), w))"
          using assms(2) new not_over ffa 2(1) pm'
          by (simp add: create_pool_def str Let_def bump_pools_def after_create_def add_tag_def
              split_beta cong: if_cong option.case_cong split: option.splits)
      qed (use 2 in auto)
    qed
  qed
qed

section \<open>Deletion\<close>

lemma in_use_test:
  assumes "pm_shape pm" and "n < bm_nbits (pm_in_use pm)" and "n < 2 ^ 32"
  shows "bitmap_test (pm_in_use pm) (of_nat n) \<noteq> 0 \<longleftrightarrow> n \<in> bm_bits (pm_in_use pm)"
  using assms bm.test_law [of "of_nat n" "pm_in_use pm"] by (simp add: unat_of_nat)

lemma mark_deleted_step:
  assumes sh: "pm_shape pm" and n: "n < bm_nbits (pm_in_use pm)" "n < 2 ^ 32" "n \<noteq> 0"
  shows "pm_shape (mark_deleted pm n)" and "pm_in_use (mark_deleted pm n) = pm_in_use pm"
    and "bm_bits (pm_deleted (mark_deleted pm n)) =
         bm_bits (pm_deleted pm) \<union> ({n} \<inter> bm_bits (pm_in_use pm))"
    and "pm_md (mark_deleted pm n) = pm_md pm" and "pm_locked (mark_deleted pm n) = pm_locked pm"
    and "m < pm_max_pools pm \<Longrightarrow> tag_at (mark_deleted pm n) m =
         (if m = n \<and> n \<in> bm_bits (pm_in_use pm) then zeros POOL_TAG_SIZE else tag_at pm m)"
    and "pm_tags_map (mark_deleted pm n) t =
         (if n \<in> bm_bits (pm_in_use pm) \<and> t = cstr (tag_at pm n) then None else pm_tags_map pm t)"
proof -
  note test = in_use_test [OF sh n(1,2)]
  have sub: "bm_bits (pm_in_use pm) \<subseteq> {..<pm_max_pools pm}"
    and tags: "POOL_TAG_SIZE * pm_max_pools pm \<le> length (pm_tags pm)"
    using sh by (simp_all add: pm_shape_def)
  have del: "bm_bits (bitmap_set (pm_deleted pm) (of_nat n)) = insert n (bm_bits (pm_deleted pm))"
    using bm.set_law [of "of_nat n" "pm_deleted pm"] n sh by (simp add: pm_shape_def unat_of_nat)
  show bits: "bm_bits (pm_deleted (mark_deleted pm n)) =
         bm_bits (pm_deleted pm) \<union> ({n} \<inter> bm_bits (pm_in_use pm))"
    using del by (simp add: mark_deleted_def test)
  have len: "n \<in> bm_bits (pm_in_use pm) \<Longrightarrow>
      length (memcpy (n * POOL_TAG_SIZE) (zeros POOL_TAG_SIZE) (pm_tags pm)) = length (pm_tags pm)"
    using sub by (intro length_set_tag [OF tags]) auto
  show "pm_shape (mark_deleted pm n)"
    using sh bits len n(3) by (auto simp: pm_shape_def mark_deleted_def test pm_max_pools_def)
  show "pm_in_use (mark_deleted pm n) = pm_in_use pm" "pm_md (mark_deleted pm n) = pm_md pm"
    "pm_locked (mark_deleted pm n) = pm_locked pm"
    by (simp_all add: mark_deleted_def)
  show "pm_tags_map (mark_deleted pm n) t =
         (if n \<in> bm_bits (pm_in_use pm) \<and> t = cstr (tag_at pm n) then None else pm_tags_map pm t)"
    by (simp add: mark_deleted_def test)
  assume m: "m < pm_max_pools pm"
  show "tag_at (mark_deleted pm n) m =
         (if m = n \<and> n \<in> bm_bits (pm_in_use pm) then zeros POOL_TAG_SIZE else tag_at pm m)"
    using tag_at_set [OF tags m, of n "zeros POOL_TAG_SIZE"] sub
    by (auto simp: mark_deleted_def test tag_at_def [of "pm\<lparr>pm_tags_map := _, pm_tags := _, pm_deleted := _\<rparr>"])
qed

lemma mark_deleted_max [simp]: "pm_max_pools (mark_deleted pm n) = pm_max_pools pm"
  by (simp add: mark_deleted_def pm_max_pools_def)

lemma mark_one_wf:
  assumes wf: "pm_wf pm" and n: "n < pm_max_pools pm" "n \<noteq> 0" "pool_view pm n = Some (Live t)"
  shows "pm_wf (mark_deleted pm n)" and "pool_view (mark_deleted pm n) = (pool_view pm)(n \<mapsto> Dying)"
proof -
  have sh: "pm_shape pm" and map: "tags_map_ok pm" using wf by (simp_all add: pm_wf_def)
  have live: "n \<in> bm_bits (pm_in_use pm)" "n \<notin> bm_bits (pm_deleted pm)" "t = cstr (tag_at pm n)"
    using n(2,3) by (auto simp: pool_view_def split: if_splits)
  have "n < bm_nbits (pm_in_use pm)" "n < 2 ^ 32"
    using n(1) sh by (auto simp: pm_shape_def NVM_KV_MAX_POOLS_def)
  note m = mark_deleted_step [OF sh this n(2)]
  have lt: "k \<in> bm_bits (pm_in_use pm) \<Longrightarrow> k < pm_max_pools pm" for k
    using sh by (auto simp: pm_shape_def)
  have old: "pm_tags_map pm t = Some i \<longleftrightarrow> t \<noteq> [] \<and> (\<exists>k. i = int k \<and> k \<noteq> 0 \<and>
      k \<in> bm_bits (pm_in_use pm) \<and> k \<notin> bm_bits (pm_deleted pm) \<and> cstr (tag_at pm k) = t)" for t i
    using map by (simp add: tags_map_ok_def)
  have "tags_map_ok (mark_deleted pm n)"
    unfolding tags_map_ok_def m(2,3,7)
  proof (intro allI)
    fix s i
    show "((if n \<in> bm_bits (pm_in_use pm) \<and> s = cstr (tag_at pm n) then None else pm_tags_map pm s) = Some i)
      \<longleftrightarrow> s \<noteq> [] \<and> (\<exists>k. i = int k \<and> k \<noteq> 0 \<and> k \<in> bm_bits (pm_in_use pm) \<and>
        k \<notin> bm_bits (pm_deleted pm) \<union> {n} \<inter> bm_bits (pm_in_use pm) \<and>
        cstr (tag_at (mark_deleted pm n) k) = s)"
    proof (cases "s = cstr (tag_at pm n)")
      case True
      have "k = n" if "k \<noteq> 0" "k \<in> bm_bits (pm_in_use pm)" "k \<notin> bm_bits (pm_deleted pm)"
        "cstr (tag_at pm k) = s" "s \<noteq> []" for k
        using old [of s "int k"] old [of s "int n"] that live n(2) True by auto
      then show ?thesis using True live lt by (auto simp: m(6))
    next
      case False
      then show ?thesis using old [of s i] live lt by (auto simp: m(6))
    qed
  qed
  then show "pm_wf (mark_deleted pm n)" using wf m by (simp add: pm_wf_def)
  show "pool_view (mark_deleted pm n) = (pool_view pm)(n \<mapsto> Dying)"
    using live m lt by (auto simp: pool_view_def fun_eq_iff)
qed

lemma mark_fold:
  "pm_shape pm \<Longrightarrow> \<forall>n \<in> set ids. n < bm_nbits (pm_in_use pm) \<and> n < 2 ^ 32 \<and> n \<noteq> 0 \<Longrightarrow>
   (let pm' = foldl mark_deleted pm ids in
    pm_shape pm' \<and> pm_in_use pm' = pm_in_use pm \<and> pm_md pm' = pm_md pm \<and> pm_locked pm' = pm_locked pm \<and>
    bm_bits (pm_deleted pm') = bm_bits (pm_deleted pm) \<union> (set ids \<inter> bm_bits (pm_in_use pm)) \<and>
    (\<forall>m < pm_max_pools pm. m \<notin> set ids \<longrightarrow> tag_at pm' m = tag_at pm m) \<and>
    (\<forall>t i. pm_tags_map pm' t = Some i \<longrightarrow> pm_tags_map pm t = Some i \<and>
       (t \<noteq> [] \<longrightarrow> (\<forall>n \<in> set ids \<inter> bm_bits (pm_in_use pm). cstr (tag_at pm n) \<noteq> t))))"
proof (induction ids arbitrary: pm)
  case Nil
  then show ?case by simp
next
  case (Cons n ids)
  have n: "n < bm_nbits (pm_in_use pm)" "n < 2 ^ 32" "n \<noteq> 0" using Cons.prems(2) by auto
  note m = mark_deleted_step [OF Cons.prems(1) n]
  have lt: "k \<in> bm_bits (pm_in_use pm) \<Longrightarrow> k < pm_max_pools pm" for k
    using Cons.prems(1) by (auto simp: pm_shape_def)
  have prems: "\<forall>n \<in> set ids. n < bm_nbits (pm_in_use (mark_deleted pm n')) \<and> n < 2 ^ 32 \<and> n \<noteq> 0" for n'
    using Cons.prems(2) by (simp add: mark_deleted_def)
  note IH = Cons.IH [OF m(1) prems, unfolded Let_def m(2) m(4) m(5)]
  let ?pm = "foldl mark_deleted (mark_deleted pm n) ids"
  have map: "pm_tags_map pm t = Some i \<and> (t \<noteq> [] \<longrightarrow>
      (\<forall>k \<in> set (n # ids) \<inter> bm_bits (pm_in_use pm). cstr (tag_at pm k) \<noteq> t))"
    if some: "pm_tags_map ?pm t = Some i" for t i
  proof -
    have 1: "pm_tags_map (mark_deleted pm n) t = Some i"
      and 2: "t \<noteq> [] \<longrightarrow> (\<forall>k \<in> set ids \<inter> bm_bits (pm_in_use pm). cstr (tag_at (mark_deleted pm n) k) \<noteq> t)"
      using IH some by blast+
    have n_ok: "n \<in> bm_bits (pm_in_use pm) \<longrightarrow> cstr (tag_at pm n) \<noteq> t" and "pm_tags_map pm t = Some i"
      using 1 by (auto simp: m(7) split: if_splits)
    moreover have "cstr (tag_at pm k) \<noteq> t" if "t \<noteq> []" "k \<in> set ids" "k \<in> bm_bits (pm_in_use pm)" for k
    proof (cases "k = n")
      case True
      then show ?thesis using n_ok that by simp
    next
      case False
      then show ?thesis using 2 that m(6) [OF lt [OF that(3)]] by force
    qed
    ultimately show ?thesis by auto
  qed
  have del: "bm_bits (pm_deleted ?pm) = bm_bits (pm_deleted pm) \<union> (set (n # ids) \<inter> bm_bits (pm_in_use pm))"
    using IH by (auto simp: m(3))
  have tag: "tag_at ?pm k = tag_at pm k" if "k < pm_max_pools pm" "k \<notin> set (n # ids)" for k
    using IH that m(6) [OF that(1)] by simp
  show ?case using IH map del tag by (simp add: Let_def m(2,4,5))
qed

lemma mark_all_wf:
  assumes wf: "pm_wf pm"
  defines "pm' \<equiv> foldl mark_deleted pm (delete_ids M_POOLID_ALL pm)"
  shows "pm_wf pm'"
    and "pool_view pm' = (\<lambda>n. if n \<noteq> 0 \<and> pool_view pm n \<noteq> None then Some Dying else pool_view pm n)"
    and "pm_locked pm' = pm_locked pm"
proof -
  have sh: "pm_shape pm" and map: "tags_map_ok pm" using wf by (simp_all add: pm_wf_def)
  have ids: "set (delete_ids M_POOLID_ALL pm) = {1..<max 2 (pm_max_pools pm)}"
    by (simp add: delete_ids_def)
  have "max 2 (pm_max_pools pm) \<le> bm_nbits (pm_in_use pm)" "pm_max_pools pm \<le> 2 ^ 20"
    using sh by (simp_all add: pm_shape_def NVM_KV_MAX_POOLS_def bm_nbits_def)
  then have "\<forall>n \<in> set (delete_ids M_POOLID_ALL pm). n < bm_nbits (pm_in_use pm) \<and> n < 2 ^ 32 \<and> n \<noteq> 0"
    unfolding ids by auto
  note f = mark_fold [OF sh this, folded pm'_def, unfolded Let_def ids]
  have all: "n \<in> {1..<max 2 (pm_max_pools pm)} \<longleftrightarrow> n \<noteq> 0" if "n \<in> bm_bits (pm_in_use pm)" for n
    using that sh by (auto simp: pm_shape_def)
  have "pm_tags_map pm' t = None" for t
  proof (rule ccontr)
    assume "pm_tags_map pm' t \<noteq> None"
    then obtain i where "pm_tags_map pm' t = Some i" by auto
    then have t: "pm_tags_map pm t = Some i" "t \<noteq> [] \<longrightarrow> (\<forall>n \<in> {1..<max 2 (pm_max_pools pm)} \<inter>
        bm_bits (pm_in_use pm). cstr (tag_at pm n) \<noteq> t)"
      using f by blast+
    then obtain n where "t \<noteq> []" "n \<noteq> 0" "n \<in> bm_bits (pm_in_use pm)" "cstr (tag_at pm n) = t"
      using map by (auto simp: tags_map_ok_def)
    then show False using t(2) all by blast
  qed
  moreover have "n = 0 \<or> n \<in> bm_bits (pm_deleted pm')" if "n \<in> bm_bits (pm_in_use pm)" for n
    using f all [OF that] that by auto
  ultimately have "tags_map_ok pm'" using f by (auto simp: tags_map_ok_def)
  then show "pm_wf pm'" using wf f by (simp add: pm_wf_def)
  show "pm_locked pm' = pm_locked pm" using f by simp
  show "pool_view pm' = (\<lambda>n. if n \<noteq> 0 \<and> pool_view pm n \<noteq> None then Some Dying else pool_view pm n)"
    using f all sh by (auto simp: pool_view_def fun_eq_iff pm_shape_def)
qed

section \<open>Removal of deleted pools\<close>

definition remove_pools :: "nat set \<Rightarrow> nvm_kv_pool_mgr \<Rightarrow> nvm_kv_pool_mgr \<Rightarrow> bool" where
  "remove_pools B pm pm' \<longleftrightarrow>
     pm_shape pm' \<and> bm_bits (pm_in_use pm') = bm_bits (pm_in_use pm) - B \<and>
     bm_bits (pm_deleted pm') = bm_bits (pm_deleted pm) - B \<and>
     pm_tags pm' = pm_tags pm \<and> pm_tags_map pm' = pm_tags_map pm \<and>
     pm_max_pools pm' = pm_max_pools pm \<and>
     unat (sm_total_no_pools (pm_md pm')) = card (bm_bits (pm_in_use pm'))"

lemma remove_pools_wf:
  assumes wf: "pm_wf pm" and B: "B \<subseteq> bm_bits (pm_deleted pm)" and r: "remove_pools B pm pm'"
  shows "pm_wf pm'" and "pool_view pm' = (\<lambda>n. if n \<in> B then None else pool_view pm n)"
proof -
  have tag: "tag_at pm' = tag_at pm" using r by (simp add: remove_pools_def tag_at_def fun_eq_iff)
  have live: "n \<in> bm_bits (pm_in_use pm') \<and> n \<notin> bm_bits (pm_deleted pm') \<and> P \<longleftrightarrow>
      n \<in> bm_bits (pm_in_use pm) \<and> n \<notin> bm_bits (pm_deleted pm) \<and> P" for n P
    using r B by (auto simp: remove_pools_def)
  have "tags_map_ok pm'"
    using wf r unfolding tags_map_ok_def tag live by (simp add: pm_wf_def tags_map_ok_def remove_pools_def)
  then show "pm_wf pm'" using wf r by (simp add: pm_wf_def remove_pools_def)
  show "pool_view pm' = (\<lambda>n. if n \<in> B then None else pool_view pm n)"
    using r by (auto simp: pool_view_def fun_eq_iff remove_pools_def tag)
qed

lemma drop_pools_total:
  assumes "unat (sm_total_no_pools (pm_md pm)) = card A" and "finite A" and "n \<in> A"
  shows "unat (sm_total_no_pools (pm_md pm) - 1) = card (A - {n})"
proof -
  have "0 < card A" using assms card_gt_0_iff by blast
  then have "(1 :: u32) \<le> sm_total_no_pools (pm_md pm)" by (simp add: word_le_nat_alt assms(1))
  then show ?thesis using assms by (simp add: unat_sub)
qed

lemma clear_one:
  assumes wf: "pm_wf pm" and n: "n \<in> bm_bits (pm_deleted pm)"
  shows "remove_pools {n} pm (drop_pools
           (pm\<lparr>pm_deleted := bitmap_clear (pm_deleted pm) (of_nat n),
               pm_in_use := bitmap_clear (pm_in_use pm) (of_nat n)\<rparr>))"
proof -
  have sh: "pm_shape pm" using wf by (simp add: pm_wf_def)
  have in_use: "n \<in> bm_bits (pm_in_use pm)" "n \<noteq> 0" "n < pm_max_pools pm"
    using sh n by (auto simp: pm_shape_def)
  note id_word = pm_id_word [OF sh in_use(3)]
  have bits: "bm_bits (bitmap_clear (pm_in_use pm) (of_nat n)) = bm_bits (pm_in_use pm) - {n}"
    "bm_bits (bitmap_clear (pm_deleted pm) (of_nat n)) = bm_bits (pm_deleted pm) - {n}"
    using bm.clear_law [of "of_nat n" "pm_in_use pm"] bm.clear_law [of "of_nat n" "pm_deleted pm"]
      id_word by simp_all
  have "unat (sm_total_no_pools (pm_md pm) - 1) = card (bm_bits (pm_in_use pm) - {n})"
    by (rule drop_pools_total [OF _ finite_pools [OF sh] in_use(1)]) (use wf in \<open>simp add: pm_wf_def\<close>)
  then show ?thesis using sh in_use bits
    by (auto simp: remove_pools_def pm_shape_def drop_pools_def pm_max_pools_def)
qed

lemma clear_fold:
  "pm_wf pm \<Longrightarrow> distinct ids \<Longrightarrow> \<forall>n \<in> set ids. n < 2 ^ 32 \<and> n < bm_nbits bitmap \<Longrightarrow>
   bm_bits bitmap \<inter> set ids \<subseteq> bm_bits (pm_deleted pm) \<Longrightarrow>
   remove_pools (bm_bits bitmap \<inter> set ids) pm (foldl (clear_pool_bit bitmap False) pm ids) \<and>
   pm_locked (foldl (clear_pool_bit bitmap False) pm ids) = pm_locked pm"
proof (induction ids arbitrary: pm)
  case Nil
  then show ?case by (simp add: remove_pools_def pm_wf_def)
next
  case (Cons n ids)
  have test: "bitmap_test bitmap (of_nat n) \<noteq> 0 \<longleftrightarrow> n \<in> bm_bits bitmap"
    using Cons.prems(3) bm.test_law [of "of_nat n" bitmap] by (simp add: unat_of_nat)
  show ?case
  proof (cases "n \<in> bm_bits bitmap")
    case False
    then have "clear_pool_bit bitmap False pm n = pm" using test by (simp add: clear_pool_bit_def)
    then show ?thesis using Cons.IH [of pm] Cons.prems False by simp
  next
    case True
    let ?pm = "clear_pool_bit bitmap False pm n"
    have n: "n \<in> bm_bits (pm_deleted pm)" using True Cons.prems(4) by auto
    have eq: "?pm = drop_pools (pm\<lparr>pm_deleted := bitmap_clear (pm_deleted pm) (of_nat n),
               pm_in_use := bitmap_clear (pm_in_use pm) (of_nat n)\<rparr>)"
      using True test by (simp add: clear_pool_bit_def Let_def)
    have r: "remove_pools {n} pm ?pm" unfolding eq by (rule clear_one [OF Cons.prems(1) n])
    have "pm_wf ?pm" using remove_pools_wf(1) [OF Cons.prems(1) _ r] n by simp
    moreover have "bm_bits bitmap \<inter> set ids \<subseteq> bm_bits (pm_deleted ?pm)"
      using Cons.prems(2,4) r by (auto simp: remove_pools_def)
    ultimately have "remove_pools (bm_bits bitmap \<inter> set ids) ?pm (foldl (clear_pool_bit bitmap False) ?pm ids)"
      and "pm_locked (foldl (clear_pool_bit bitmap False) ?pm ids) = pm_locked ?pm"
      using Cons.IH [of ?pm] Cons.prems(2,3) by simp_all
    moreover have "pm_locked ?pm = pm_locked pm" by (simp add: eq drop_pools_def)
    moreover have "bm_bits bitmap \<inter> set (n # ids) = insert n (bm_bits bitmap \<inter> set ids)"
      using True by auto
    ultimately show ?thesis using r
      by (auto simp: remove_pools_def Diff_insert2 [symmetric])
  qed
qed

text \<open>
  When the bitmap of pools to clear equals the whole deleted bitmap, the code clears the latter
  at once; bit by bit gives the same bits.
\<close>

lemma clear_fold_all:
  "pm_deleted pm2 = replicate (length (pm_deleted pm1)) 0 \<Longrightarrow>
   pm1\<lparr>pm_deleted := []\<rparr> = pm2\<lparr>pm_deleted := []\<rparr> \<Longrightarrow>
   (let r1 = foldl (clear_pool_bit bitmap False) pm1 ids; r2 = foldl (clear_pool_bit bitmap True) pm2 ids
    in r1\<lparr>pm_deleted := []\<rparr> = r2\<lparr>pm_deleted := []\<rparr> \<and> pm_deleted r2 = replicate (length (pm_deleted r1)) 0)"
proof (induction ids arbitrary: pm1 pm2)
  case Nil
  then show ?case by simp
next
  case (Cons n ids)
  have f: "pm_in_use pm2 = pm_in_use pm1" "pm_md pm2 = pm_md pm1"
    using arg_cong [OF Cons.prems(2), of pm_in_use] arg_cong [OF Cons.prems(2), of pm_md] by simp_all
  show ?case unfolding foldl_Cons
  proof (rule Cons.IH)
    show "pm_deleted (clear_pool_bit bitmap True pm2 n) =
        replicate (length (pm_deleted (clear_pool_bit bitmap False pm1 n))) 0"
      using Cons.prems(1) by (simp add: clear_pool_bit_def drop_pools_def Let_def)
    show "(clear_pool_bit bitmap False pm1 n)\<lparr>pm_deleted := []\<rparr> =
        (clear_pool_bit bitmap True pm2 n)\<lparr>pm_deleted := []\<rparr>"
      using Cons.prems(2) f
      by (cases pm1; cases pm2) (simp add: clear_pool_bit_def drop_pools_def Let_def)
  qed
qed

lemma clear_pool_bitmaps_ok:
  assumes wf: "pm_wf pm" and B: "bm_bits bitmap \<subseteq> bm_bits (pm_deleted pm)"
    and len: "length bitmap = length (pm_in_use pm)"
    and ok: "clear_pool_bitmaps E bitmap pm w = Some (Inr (), pm', w')"
  shows "remove_pools (bm_bits bitmap) pm pm'" and "pm_locked pm' = pm_locked pm"
proof -
  have sh: "pm_shape pm" using wf by (simp add: pm_wf_def)
  let ?ids = "[1..<pm_max_pools pm]" and ?n = "length (pm_in_use pm)"
  have n: "pm_bm_len pm div 4 = ?n" "length (pm_deleted pm) = ?n"
    using sh by (simp_all add: pm_shape_def bm_nbits_def)
  have ids: "bm_bits bitmap \<inter> set ?ids = bm_bits bitmap"
  proof -
    have deleted_in_use: "bm_bits (pm_deleted pm) \<subseteq> bm_bits (pm_in_use pm) - {0}"
      and in_use_max: "bm_bits (pm_in_use pm) \<subseteq> {..<pm_max_pools pm}"
      using sh by (simp_all add: pm_shape_def)
    have "bm_bits bitmap \<subseteq> set ?ids"
    proof
      fix n assume "n \<in> bm_bits bitmap"
      then have "n \<in> bm_bits (pm_in_use pm)" "n \<noteq> 0" using B deleted_in_use by auto
      then have "n \<noteq> 0 \<and> n < pm_max_pools pm" using in_use_max by auto
      then show "n \<in> set ?ids" by simp
    qed
    then show ?thesis by blast
  qed
  have bound: "\<forall>n \<in> set ?ids. n < 2 ^ 32 \<and> n < bm_nbits bitmap"
  proof
    fix n assume "n \<in> set ?ids"
    then have "n < pm_max_pools pm" by simp
    then show "n < 2 ^ 32 \<and> n < bm_nbits bitmap"
      using sh len by (simp add: pm_shape_def NVM_KV_MAX_POOLS_def bm_nbits_def)
  qed
  let ?r1 = "foldl (clear_pool_bit bitmap False) pm ?ids"
  have r1: "remove_pools (bm_bits bitmap) pm ?r1" "pm_locked ?r1 = pm_locked pm"
    using clear_fold [OF wf _ bound] B unfolding ids by simp_all
  show "remove_pools (bm_bits bitmap) pm pm'" "pm_locked pm' = pm_locked pm"
  proof (atomize (full), cases "pm_deleted pm = bitmap")
    case False
    then have "pm' = ?r1" using ok n len
      by (auto simp: clear_pool_bitmaps_def Let_def split: if_splits option.splits prod.splits sum.splits)
    then show "remove_pools (bm_bits bitmap) pm pm' \<and> pm_locked pm' = pm_locked pm" using r1 by simp
  next
    case True
    let ?pm2 = "pm\<lparr>pm_deleted := replicate ?n 0\<rparr>"
    let ?r2 = "foldl (clear_pool_bit bitmap True) ?pm2 ?ids"
    have eq: "?r1\<lparr>pm_deleted := []\<rparr> = ?r2\<lparr>pm_deleted := []\<rparr>"
      and del: "pm_deleted ?r2 = replicate (length (pm_deleted ?r1)) 0"
      using clear_fold_all [of ?pm2 pm bitmap ?ids] n by (simp_all add: Let_def)
    have f: "pm_in_use ?r2 = pm_in_use ?r1" "pm_tags ?r2 = pm_tags ?r1" "pm_md ?r2 = pm_md ?r1"
      "pm_tags_map ?r2 = pm_tags_map ?r1" "pm_locked ?r2 = pm_locked ?r1" "pm_bm_len ?r2 = pm_bm_len ?r1"
      using arg_cong [OF eq, of pm_in_use] arg_cong [OF eq, of pm_tags] arg_cong [OF eq, of pm_md]
        arg_cong [OF eq, of pm_tags_map] arg_cong [OF eq, of pm_locked] arg_cong [OF eq, of pm_bm_len]
      by simp_all
    have none: "bm_bits (replicate k 0) = {}" for k by (simp add: bm_bits_def)
    have drop_all: "drop (pm_bm_len pm div 4) (pm_deleted pm) = []" using n by simp
    have "pm' = ?r2" using ok unfolding clear_pool_bitmaps_def Let_def n(1) True
      by (simp add: drop_all [unfolded n(1) True] pm_max_pools_def split: if_splits option.splits prod.splits sum.splits)
    then show "remove_pools (bm_bits bitmap) pm pm' \<and> pm_locked pm' = pm_locked pm"
      using r1 f del True
      by (auto simp: remove_pools_def pm_shape_def none pm_max_pools_def bm_nbits_def)
  qed
qed

section \<open>The life cycle of a pool\<close>

text \<open>One successful call of the pool manager, with any device and any cache around it.\<close>

inductive pm_step :: "'w nvm_env \<Rightarrow> nvm_kv_pool_mgr \<Rightarrow> nvm_kv_pool_mgr \<Rightarrow> bool" for E where
  step_create: "tag_arg_ok tag \<Longrightarrow> \<not> pm_locked pm \<Longrightarrow>
    create_pool E tag pm w = Some (Inr pool_id, pm', w') \<Longrightarrow> pm_step E pm pm'"
| step_delete: "0 < pool_id \<and> pool_id < int (pm_max_pools pm) \<or> pool_id = M_POOLID_ALL \<Longrightarrow>
    \<not> pm_locked pm \<Longrightarrow>
    delete_pool E pool_id pm cache w = Some (Inr (), wake, pm', cache', w') \<Longrightarrow> pm_step E pm pm'"
| step_clear_one: "pool_in_del (uint pool_id) pm \<Longrightarrow> unat pool_id < pm_max_pools pm \<Longrightarrow>
    clear_pool_bitmap E pool_id pm w = Some (Inr (), pm', w') \<Longrightarrow> pm_step E pm pm'"
| step_clear_some: "bm_bits bitmap \<subseteq> bm_bits (pm_deleted pm) \<Longrightarrow>
    length bitmap = length (pm_in_use pm) \<Longrightarrow>
    clear_pool_bitmaps E bitmap pm w = Some (Inr (), pm', w') \<Longrightarrow> pm_step E pm pm'"

definition view_step :: "(nat \<Rightarrow> apool option) \<Rightarrow> (nat \<Rightarrow> apool option) \<Rightarrow> bool" where
  "view_step v v' \<longleftrightarrow>
     v' = v \<or>
     (\<exists>n t. v n = None \<and> (\<forall>m < n. v m \<noteq> None) \<and> (t = [] \<or> (\<forall>m. m \<noteq> 0 \<longrightarrow> v m \<noteq> Some (Live t))) \<and>
            v' = v(n \<mapsto> Live t)) \<or>
     (\<exists>n t. n \<noteq> 0 \<and> v n = Some (Live t) \<and> v' = v(n \<mapsto> Dying)) \<or>
     v' = (\<lambda>n. if n \<noteq> 0 \<and> v n \<noteq> None then Some Dying else v n) \<or>
     (\<exists>B. (\<forall>n \<in> B. v n = Some Dying) \<and> v' = (\<lambda>n. if n \<in> B then None else v n))"

lemma view_step_all: "view_step v (\<lambda>n. if n \<noteq> 0 \<and> v n \<noteq> None then Some Dying else v n)"
  unfolding view_step_def by (rule disjI2, rule disjI2, rule disjI2, rule disjI1, rule refl)

lemma view_step_create:
  "v n = None \<Longrightarrow> \<forall>m < n. v m \<noteq> None \<Longrightarrow> t = [] \<or> (\<forall>m. m \<noteq> 0 \<longrightarrow> v m \<noteq> Some (Live t)) \<Longrightarrow>
   view_step v (v(n \<mapsto> Live t))"
  unfolding view_step_def by (rule disjI2, rule disjI1) blast

lemma view_step_delete: "n \<noteq> 0 \<Longrightarrow> v n = Some (Live t) \<Longrightarrow> view_step v (v(n \<mapsto> Dying))"
  unfolding view_step_def by (rule disjI2, rule disjI2, rule disjI1) blast

lemma view_step_clear:
  "\<forall>n \<in> B. v n = Some Dying \<Longrightarrow> view_step v (\<lambda>n. if n \<in> B then None else v n)"
  unfolding view_step_def by (intro disjI2) blast

lemma create_refines:
  assumes wf: "pm_wf pm" and un: "\<not> pm_locked pm" and tag: "tag_arg_ok tag"
    and ok: "create_pool E tag pm w = Some (Inr pool_id, pm', w')"
  obtains (known) "pm' = pm" and "pm_tags_map pm (tag_str tag) = Some pool_id"
  | (fresh) n where "pool_id = int n" and "n < pm_max_pools pm" and "pool_view pm n = None"
    and "\<forall>m < n. pool_view pm m \<noteq> None" and "pm_wf pm'" and "\<not> pm_locked pm'"
    and "pool_view pm' = (pool_view pm)(n \<mapsto> Live (tag_str tag))"
    and "tag_str tag = [] \<or> pm_tags_map pm (tag_str tag) = None"
proof (cases rule: create_pool_cases [OF wf un, of tag E w])
  case (1 i)
  then show thesis using known ok by simp
next
  case 2
  then show thesis using ok by simp
next
  case free: (3 n)
  have sh: "pm_shape pm" using wf by (simp add: pm_wf_def)
  let ?pm = "add_tag (tag_str tag) (int n) (with_pool n tag pm)"
  have id: "pool_id = int n" and pm': "pm' = ?pm\<lparr>pm_locked := False\<rparr>"
    using ok free(5) by (auto simp: after_create_def create_pool_exit_def Let_def
        split: option.splits sum.splits if_splits)
  have "\<not> pm_locked ?pm" using un by simp
  then have "pm' = ?pm" unfolding pm' by simp
  show thesis
  proof (rule fresh [of n])
    show "pool_view pm n = None" "\<forall>m < n. pool_view pm m \<noteq> None"
      using view_in_use [OF sh] free(3,4) by (metis, metis)
  qed (use id free \<open>pm' = ?pm\<close> un with_pool_wf [OF wf free(2,3) tag free(1)] in simp_all)
qed

lemma live_tag_bound:
  assumes "pm_wf pm" and "t \<noteq> []" and "n \<noteq> 0" and "pool_view pm n = Some (Live t)"
  shows "pm_tags_map pm t = Some (int n)"
proof -
  have "n \<in> bm_bits (pm_in_use pm)" "n \<notin> bm_bits (pm_deleted pm)" "cstr (tag_at pm n) = t"
    using assms(3,4) by (auto simp: pool_view_def split: if_splits)
  then show ?thesis using assms unfolding pm_wf_def tags_map_ok_def by blast
qed

lemma live_tag_mapped:
  "pm_wf pm \<Longrightarrow> t \<noteq> [] \<Longrightarrow> pm_tags_map pm t = None \<Longrightarrow> n \<noteq> 0 \<Longrightarrow> pool_view pm n \<noteq> Some (Live t)"
  using live_tag_bound by fastforce

lemma delete_refines:
  assumes wf: "pm_wf pm" and un: "\<not> pm_locked pm"
    and id: "0 < pool_id \<and> pool_id < int (pm_max_pools pm)"
    and ok: "delete_pool E pool_id pm cache w = Some (Inr (), wake, pm', cache', w')"
  obtains (dying) "pm' = pm" and "pool_view pm (nat pool_id) = Some Dying"
  | (live) t where "pool_view pm (nat pool_id) = Some (Live t)" and "pm_wf pm'"
    and "pool_view pm' = (pool_view pm)(nat pool_id \<mapsto> Dying)" and "\<not> pm_locked pm'"
    and "cache' = purge_cache pool_id cache"
proof -
  have sh: "pm_shape pm" using wf by (simp add: pm_wf_def)
  let ?n = "nat pool_id"
  have n: "?n < pm_max_pools pm" "?n \<noteq> 0" "int ?n = pool_id" and no_all: "pool_id \<noteq> M_POOLID_ALL"
    using id by (auto simp: M_POOLID_ALL_def)
  have st: "check_pool_status pool_id pm = status_of (pool_view pm ?n)"
    using pool_status_view [OF sh n(1)] n(3) by simp
  show thesis
  proof (cases "pool_view pm ?n")
    case None
    then show thesis using ok no_all by (simp add: delete_pool_def st status_of_def)
  next
    case (Some p)
    show thesis
    proof (cases p)
      case Dying
      then show thesis using ok no_all Some dying by (simp add: delete_pool_def st status_of_def)
    next
      case (Live t)
      have "pm' = mark_deleted pm ?n" and "cache' = purge_cache pool_id cache"
        using ok no_all Some Live un by (auto simp: delete_pool_def st status_of_def delete_ids_def
            Let_def split: option.splits sum.splits prod.splits)
      moreover have "pm_locked (mark_deleted pm ?n) = pm_locked pm"
        by (simp add: mark_deleted_def)
      ultimately show thesis using live mark_one_wf [OF wf n(1,2)] Some Live un by simp
    qed
  qed
qed

lemma delete_all_refines:
  assumes wf: "pm_wf pm" and un: "\<not> pm_locked pm"
    and ok: "delete_pool E M_POOLID_ALL pm cache w = Some (Inr (), wake, pm', cache', w')"
  shows "pm_wf pm'" and "\<not> pm_locked pm'"
    and "pool_view pm' = (\<lambda>n. if n \<noteq> 0 \<and> pool_view pm n \<noteq> None then Some Dying else pool_view pm n)"
proof -
  have "pm' = foldl mark_deleted pm (delete_ids M_POOLID_ALL pm)"
    using ok un by (auto simp: delete_pool_def Let_def split: option.splits sum.splits prod.splits)
  then show "pm_wf pm'" "\<not> pm_locked pm'"
    "pool_view pm' = (\<lambda>n. if n \<noteq> 0 \<and> pool_view pm n \<noteq> None then Some Dying else pool_view pm n)"
    using mark_all_wf [OF wf] un by simp_all
qed

lemma clear_one_refines:
  assumes wf: "pm_wf pm" and del: "pool_in_del (uint pool_id) pm" and n: "unat pool_id < pm_max_pools pm"
    and ok: "clear_pool_bitmap E pool_id pm w = Some (Inr (), pm', w')"
  shows "remove_pools {unat pool_id} pm pm'" and "\<not> pm_locked pm'"
    and "unat pool_id \<in> bm_bits (pm_deleted pm)"
proof -
  have sh: "pm_shape pm" using wf by (simp add: pm_wf_def)
  show in_del: "unat pool_id \<in> bm_bits (pm_deleted pm)"
    using del pm_test(2) [OF sh n] by (simp add: pool_in_del_def)
  show "remove_pools {unat pool_id} pm pm'" "\<not> pm_locked pm'"
    using ok clear_one [OF wf in_del]
    by (auto simp: clear_pool_bitmap_def drop_pools_def Let_def
        split: if_splits option.splits prod.splits)
qed

lemma pm_step_refines:
  assumes "pm_step E pm pm'" and wf: "pm_wf pm"
  shows "pm_wf pm' \<and> view_step (pool_view pm) (pool_view pm') \<and> (\<not> pm_locked pm \<longrightarrow> \<not> pm_locked pm')"
  using assms(1)
proof (cases rule: pm_step.cases)
  case (step_create tag w i w')
  from wf step_create(2,1,3) show ?thesis
  proof (cases rule: create_refines)
    case known
    then show ?thesis using wf by (simp add: view_step_def)
  next
    case (fresh n)
    have "tag_str tag = [] \<or> (\<forall>m. m \<noteq> 0 \<longrightarrow> pool_view pm m \<noteq> Some (Live (tag_str tag)))"
      using fresh(8) live_tag_mapped [OF wf] by blast
    then show ?thesis using fresh view_step_create [of "pool_view pm" n "tag_str tag"] by simp
  qed
next
  case step: (step_delete i c w wake c' w')
  show ?thesis
  proof (cases "i = M_POOLID_ALL")
    case True
    note r = delete_all_refines [OF wf step(2) step(3) [unfolded True]]
    have "view_step (pool_view pm) (pool_view pm')" unfolding r(3) by (rule view_step_all)
    then show ?thesis using r(1,2) by simp
  next
    case False
    then have i: "0 < i \<and> i < int (pm_max_pools pm)" using step(1) by simp
    from wf step(2) i step(3) show ?thesis
    proof (cases rule: delete_refines)
      case dying
      then show ?thesis using wf by (simp add: view_step_def)
    next
      case (live t)
      have "nat i \<noteq> 0" using i by simp
      then show ?thesis using live view_step_delete [of "nat i" "pool_view pm" t] by simp
    qed
  qed
next
  case step: (step_clear_one i w w')
  note r = clear_one_refines [OF wf step]
  have "pool_view pm (unat i) = Some Dying"
    using r(3) wf by (auto simp: pool_view_def pm_wf_def pm_shape_def)
  then have "\<forall>n \<in> {unat i}. pool_view pm n = Some Dying" by simp
  then have "view_step (pool_view pm) (\<lambda>n. if n \<in> {unat i} then None else pool_view pm n)"
    by (rule view_step_clear)
  then show ?thesis using remove_pools_wf [OF wf _ r(1)] r(2,3) by simp
next
  case step: (step_clear_some bitmap w w')
  note r = clear_pool_bitmaps_ok [OF wf step]
  have "\<forall>n \<in> bm_bits bitmap. pool_view pm n = Some Dying"
    using step(1) wf by (auto simp: pool_view_def pm_wf_def pm_shape_def)
  then have "view_step (pool_view pm) (\<lambda>n. if n \<in> bm_bits bitmap then None else pool_view pm n)"
    by (rule view_step_clear)
  then show ?thesis using remove_pools_wf [OF wf step(1) r(1)] r(2) by simp
qed

section \<open>The contract of the pool table\<close>

definition tags_distinct :: "(nat \<Rightarrow> apool option) \<Rightarrow> bool" where
  "tags_distinct v \<longleftrightarrow> (\<forall>m n t. m \<noteq> 0 \<longrightarrow> n \<noteq> 0 \<longrightarrow> t \<noteq> [] \<longrightarrow>
     v m = Some (Live t) \<longrightarrow> v n = Some (Live t) \<longrightarrow> m = n)"

definition status_next :: "nvm_kv_pool_status \<Rightarrow> nvm_kv_pool_status set" where
  "status_next st = (case st of
       POOL_NOT_IN_USE \<Rightarrow> {POOL_NOT_IN_USE, POOL_IN_USE}
     | POOL_IN_USE \<Rightarrow> {POOL_IN_USE, POOL_DELETION_IN_PROGRESS}
     | POOL_DELETION_IN_PROGRESS \<Rightarrow> {POOL_DELETION_IN_PROGRESS, POOL_NOT_IN_USE}
     | POOL_IS_INVALID \<Rightarrow> {POOL_IS_INVALID})"

lemma view_step_status: "view_step v v' \<Longrightarrow> status_of (v' n) \<in> status_next (status_of (v n))"
  unfolding view_step_def status_next_def status_of_def
  by (elim disjE exE conjE) (auto split: option.splits apool.splits)

lemma view_step_distinct:
  assumes "view_step v v'" and "tags_distinct v"
  shows "tags_distinct v'"
  using assms(1) unfolding view_step_def
proof (elim disjE exE conjE)
  fix n t assume v: "\<forall>m. m \<noteq> 0 \<longrightarrow> v m \<noteq> Some (Live t)" "v' = v(n \<mapsto> Live t)"
  then show ?thesis using assms(2) unfolding tags_distinct_def
    by (auto split: if_splits)
qed (use assms(2) in \<open>auto simp: tags_distinct_def split: if_splits\<close>)

locale pool_table =
  fixes inv :: "'s \<Rightarrow> bool"
    and view :: "'s \<Rightarrow> nat \<Rightarrow> apool option"
    and step :: "'s \<Rightarrow> 's \<Rightarrow> bool"
    and pools :: "'s \<Rightarrow> nat"
    and status :: "nat \<Rightarrow> 's \<Rightarrow> nvm_kv_pool_status"
  assumes step_inv: "inv s \<Longrightarrow> step s s' \<Longrightarrow> inv s'"
    and step_view: "inv s \<Longrightarrow> step s s' \<Longrightarrow> view_step (view s) (view s')"
    and step_pools: "step s s' \<Longrightarrow> pools s' = pools s"
    and status_view: "inv s \<Longrightarrow> n < pools s \<Longrightarrow> status n s = status_of (view s n)"
    and default_pool: "inv s \<Longrightarrow> view s 0 = Some (Live [])"
    and default_id: "inv s \<Longrightarrow> 0 < pools s"
begin

lemma run_inv: "step\<^sup>*\<^sup>* s s' \<Longrightarrow> inv s \<Longrightarrow> inv s' \<and> pools s' = pools s"
  by (induction rule: rtranclp_induct) (auto simp: step_pools intro: step_inv)

lemma default_in_use: "step\<^sup>*\<^sup>* s s' \<Longrightarrow> inv s \<Longrightarrow> status 0 s' = POOL_IN_USE"
  using run_inv [of s s'] status_view [of s' 0] default_pool [of s'] default_id [of s']
  by (simp add: status_of_def)

lemma status_step: "inv s \<Longrightarrow> step s s' \<Longrightarrow> n < pools s \<Longrightarrow> status n s' \<in> status_next (status n s)"
  using step_view [of s s'] view_step_status [of "view s" "view s'" n] status_view step_inv step_pools
  by simp

lemma run_distinct: "step\<^sup>*\<^sup>* s s' \<Longrightarrow> inv s \<Longrightarrow> tags_distinct (view s) \<Longrightarrow> tags_distinct (view s')"
proof (induction rule: rtranclp_induct)
  case (step s' s'')
  then show ?case using run_inv [of s s'] step_view view_step_distinct by blast
qed

end

lemma remove_pools_max: "remove_pools B pm pm' \<Longrightarrow> pm_max_pools pm' = pm_max_pools pm"
  by (simp add: remove_pools_def)

lemma foldl_mark_max [simp]: "pm_max_pools (foldl mark_deleted pm ids) = pm_max_pools pm"
  by (induction ids arbitrary: pm) simp_all

lemma pool_view_default: "pm_wf pm \<Longrightarrow> pool_view pm 0 = Some (Live [])"
  by (auto simp: pool_view_def pm_wf_def pm_shape_def)

lemma create_max:
  assumes "pm_wf pm" "\<not> pm_locked pm" "tag_arg_ok tag" "create_pool E tag pm w = Some (Inr i, pm', w')"
  shows "pm_max_pools pm' = pm_max_pools pm"
proof (cases rule: create_pool_cases [OF assms(1,2), of tag E w])
  case (1 i)
  then show ?thesis using assms(4) by simp
next
  case 2
  then show ?thesis using assms(4) by simp
next
  case (3 n)
  then show ?thesis using assms(4)
    by (auto simp: after_create_def create_pool_exit_def Let_def pm_max_pools_def drop_pools_def
        split: option.splits sum.splits if_splits)
qed

lemma step_max:
  assumes "pm_step E pm pm'" and wf: "pm_wf pm"
  shows "pm_max_pools pm' = pm_max_pools pm"
  using assms(1)
proof (cases rule: pm_step.cases)
  case (step_create tag w i w')
  then show ?thesis using create_max [OF wf step_create(2,1,3)] by simp
next
  case (step_delete i c w wake c' w')
  then show ?thesis
    by (auto simp: delete_pool_def Let_def split: if_splits option.splits sum.splits prod.splits)
next
  case step: (step_clear_one i w w')
  show ?thesis by (rule remove_pools_max [OF clear_one_refines(1) [OF wf step]])
next
  case step: (step_clear_some bitmap w w')
  show ?thesis by (rule remove_pools_max [OF clear_pool_bitmaps_ok(1) [OF wf step]])
qed

definition pm_step_ok :: "'w nvm_env \<Rightarrow> nvm_kv_pool_mgr \<Rightarrow> nvm_kv_pool_mgr \<Rightarrow> bool" where
  "pm_step_ok E pm pm' \<longleftrightarrow> pm_wf pm \<and> pm_step E pm pm'"

interpretation pt: pool_table pm_wf pool_view "pm_step_ok E" pm_max_pools
    "\<lambda>n pm. check_pool_status (int n) pm"
proof unfold_locales
  fix s s' :: nvm_kv_pool_mgr and n :: nat
  show "pm_wf s \<Longrightarrow> pm_step_ok E s s' \<Longrightarrow> pm_wf s'"
    and "pm_wf s \<Longrightarrow> pm_step_ok E s s' \<Longrightarrow> view_step (pool_view s) (pool_view s')"
    using pm_step_refines [of E s s'] by (simp_all add: pm_step_ok_def)
  show "pm_step_ok E s s' \<Longrightarrow> pm_max_pools s' = pm_max_pools s"
    using step_max [of E s s'] by (simp add: pm_step_ok_def)
  show "pm_wf s \<Longrightarrow> n < pm_max_pools s \<Longrightarrow> check_pool_status (int n) s = status_of (pool_view s n)"
    using pool_status_view by (simp add: pm_wf_def)
  show "pm_wf s \<Longrightarrow> pool_view s 0 = Some (Live [])" by (rule pool_view_default)
  show "pm_wf s \<Longrightarrow> 0 < pm_max_pools s" by (auto simp: pm_wf_def pm_shape_def)
qed

section \<open>Termination of the tag writer\<close>

definition tags_vector_size :: "nvm_kv_pool_mgr \<Rightarrow> u32 \<Rightarrow> u32" where
  "tags_vector_size pm r = (if r < tags_write_size pm then r else tags_write_size pm)"

lemma unat_vector_size: "unat (tags_vector_size pm r) = min (unat r) (unat (tags_write_size pm))"
  by (auto simp: tags_vector_size_def word_less_nat_alt)

lemma unat_rest: "unat (r - tags_vector_size pm r) = unat r - unat (tags_write_size pm)"
  by (auto simp: tags_vector_size_def word_less_nat_alt unat_sub word_le_nat_alt)

lemma tags_fill_le: "unat (snd (snd (tags_fill pm i t c r))) \<le> unat r"
proof (induction pm i t c r rule: tags_fill.induct)
  case (1 pm i t c r)
  show ?case
  proof (cases "r \<noteq> 0 \<and> int i < tags_max_iovs pm \<and> t < tags_max_total pm")
    case True
    let ?v = "tags_vector_size pm r"
    have "unat (snd (snd (tags_fill pm (Suc i) (t + ?v) (c + 1) (r - ?v)))) \<le> unat (r - ?v)"
      using 1 [OF True] by (simp add: tags_vector_size_def)
    then have "unat (snd (snd (tags_fill pm (Suc i) (t + ?v) (c + 1) (r - ?v)))) \<le> unat r"
      unfolding unat_rest by linarith
    then show ?thesis using True
      by (simp add: tags_fill.simps [of pm i t c r] Let_def split_beta tags_vector_size_def)
  next
    case False
    then have "tags_fill pm i t c r = ([], c, r)" by (subst tags_fill.simps) (simp only: if_False)
    then show ?thesis by simp
  qed
qed

definition tags_progress :: "nvm_kv_pool_mgr \<Rightarrow> bool" where
  "tags_progress pm \<longleftrightarrow> 0 < tags_max_iovs pm \<and> tags_max_total pm \<noteq> 0 \<and> tags_write_size pm \<noteq> 0"

lemma tags_fill_less:
  assumes "r \<noteq> 0" and "tags_progress pm"
  shows "unat (snd (snd (tags_fill pm 0 0 c r))) < unat r"
proof -
  let ?v = "tags_vector_size pm r"
  have "unat (snd (snd (tags_fill pm (Suc 0) (0 + ?v) (c + 1) (r - ?v)))) \<le> unat (r - ?v)" by (rule tags_fill_le)
  moreover have "0 < unat r" "0 < unat (tags_write_size pm)"
    using assms by (simp_all add: tags_progress_def unat_gt_0)
  then have "unat (r - ?v) < unat r" unfolding unat_rest by simp
  ultimately show ?thesis using assms
    by (simp add: tags_fill.simps [of pm 0 0 c r] Let_def split_beta tags_vector_size_def tags_progress_def word_neq_0_conv)
qed

text \<open>Without progress a round of the writer leaves the length that remains as it was.\<close>

lemma tags_fill_stuck:
  assumes "\<not> tags_progress pm"
  shows "snd (snd (tags_fill pm i t c r)) = r"
proof (cases "tags_write_size pm = 0")
  case True
  then show ?thesis
  proof (induction pm i t c r rule: tags_fill.induct)
    case (1 pm i t c r)
    show ?case
    proof (cases "r \<noteq> 0 \<and> int i < tags_max_iovs pm \<and> t < tags_max_total pm")
      case True
      have "snd (snd (tags_fill pm (Suc i) t (c + 1) r)) = r"
        using 1(1) [OF True refl refl _ ] 1(2) by simp
      then show ?thesis using True 1(2) by (simp add: tags_fill.simps [of pm i t c r] Let_def split_beta)
    next
      case False
      then have "tags_fill pm i t c r = ([], c, r)" by (subst tags_fill.simps) (simp only: if_False)
      then show ?thesis by simp
    qed
  qed
next
  case False
  then have "\<not> (r \<noteq> 0 \<and> int i < tags_max_iovs pm \<and> t < tags_max_total pm)"
    using assms by (auto simp: tags_progress_def)
  then have "tags_fill pm i t c r = ([], c, r)" by (subst tags_fill.simps) (simp only: if_False)
  then show ?thesis by simp
qed

lemma tags_loop_returns:
  assumes "tags_progress pm"
  shows "\<exists>out. tags_loop E pm c r w = Some out"
proof (induction "unat r" arbitrary: c r w rule: less_induct)
  case less
  show ?case
  proof (cases "r = 0")
    case True
    then show ?thesis by (simp add: tags_loop.simps)
  next
    case False
    let ?fill = "tags_fill pm 0 0 c r"
    have "\<exists>out. tags_loop E pm (fst (snd ?fill)) (snd (snd ?fill)) w' = Some out" for w'
      using less tags_fill_less [OF False assms] by blast
    then show ?thesis using False
      by (subst tags_loop.simps) (simp add: Let_def split: sum.split)
  qed
qed

text \<open>The device accepts every batch of an atomic write.\<close>

definition accepts_writes :: "'w nvm_env \<Rightarrow> nvm_kv_pool_mgr \<Rightarrow> bool" where
  "accepts_writes E pm \<longleftrightarrow> (\<forall>iovs w. 0 \<le> fst (env_batch_atomic E (dev_handle (pm_device pm)) iovs w))"

lemma writev_accepted:
  "accepts_writes E pm \<Longrightarrow> \<exists>n w'. nvm_writev E (pm_device pm) iovs c True w = (Inr n, w')"
  by (simp add: accepts_writes_def nvm_writev_def Let_def split_beta not_less)

lemma tags_loop_stuck:
  assumes "\<not> tags_progress pm" and "accepts_writes E pm" and "r \<noteq> 0"
  shows "tags_loop E pm c r w = None"
proof -
  have "\<not> tags_progress pm \<longrightarrow> accepts_writes E pm \<longrightarrow> r = 0" if "tags_loop E pm c r w = Some out" for out
  proof (rule tags_loop.raw_induct
      [where P = "\<lambda>E pm c r w out. \<not> tags_progress pm \<longrightarrow> accepts_writes E pm \<longrightarrow> r = 0", OF _ that])
    fix loop E pm and c r :: u32 and w :: 'a and out
    assume IH: "\<And>E pm c r w out. loop E pm c r w = Some out \<Longrightarrow>
        \<not> tags_progress pm \<longrightarrow> accepts_writes E pm \<longrightarrow> r = 0"
      and step: "(if r = 0 then Some (Inr (), w)
        else let fill = tags_fill pm 0 0 c r; iovs = fst fill; x = nvm_writev E (pm_device pm) iovs (length iovs) True w
             in case fst x of Inl e \<Rightarrow> Some (Inl e, snd x)
                | Inr _ \<Rightarrow> loop E pm (fst (snd fill)) (snd (snd fill)) (snd x)) = Some out"
    show "\<not> tags_progress pm \<longrightarrow> accepts_writes E pm \<longrightarrow> r = 0"
    proof (intro impI)
      assume stuck: "\<not> tags_progress pm" and acc: "accepts_writes E pm"
      show "r = 0"
      proof (rule ccontr)
        assume r: "r \<noteq> 0"
        let ?fill = "tags_fill pm 0 0 c r"
        obtain n w' where "nvm_writev E (pm_device pm) (fst ?fill) (length (fst ?fill)) True w = (Inr n, w')"
          using writev_accepted [OF acc] by blast
        then have "loop E pm (fst (snd ?fill)) r w' = Some out"
          using step r tags_fill_stuck [OF stuck, of 0 0 c r] by (simp add: Let_def)
        from IH [OF this] show False using stuck acc r by blast
      qed
    qed
  qed
  then show ?thesis using assms by (cases "tags_loop E pm c r w") auto
qed

section \<open>A pool table of two pools\<close>

text \<open>A small pool manager and a device that accepts or refuses every write.\<close>

definition demo_env :: "bool \<Rightarrow> unit nvm_env" where
  "demo_env ok =
     \<lparr>env_batch_atomic = (\<lambda>h iovs w. (if ok then 0 else -1, w)),
      env_pwritev = (\<lambda>fd iovs off w. (-1, w)),
      env_preadv = (\<lambda>fd lens off w. None),
      env_range_exists = (\<lambda>h lba n w. None),
      env_block_exists = (\<lambda>h lba w. -1),
      env_range_iter = (\<lambda>h it w. (-1, it)),
      env_capacity = (\<lambda>h w. None),
      env_time = (\<lambda>w. 0),
      env_memalign = (\<lambda>w n. Some \<lparr>mb_addr = 0, mb_mem = zeros n\<rparr>),
      env_new_iovs = (\<lambda>w n. Some [])\<rparr>"

definition demo_caps :: nvm_kv_store_capabilities where
  "demo_caps =
     \<lparr>nvm_max_num_iovs = 8, nvm_atomic_write_multiplicity = 1, nvm_max_write_size_per_iov = 512,
      nvm_max_trim_size_per_iov = 512, nvm_sector_size = 512, nvm_max_num_logical_iter_ranges = 8,
      nvm_atomic_write_max_total_size = 4096\<rparr>"

definition demo_metadata :: "u32 \<Rightarrow> u32 \<Rightarrow> nvm_kv_store_metadata" where
  "demo_metadata pools expiry =
     \<lparr>sm_kv_store_id = 0, sm_kv_store_stamp = M_KV_STAMP, sm_num_keys = 0, sm_vsu_id = 0,
      sm_version = 1, sm_max_pools = pools, sm_max_key_size = 128, sm_max_value_size = 1047552,
      sm_total_no_pools = 1, sm_kv_revision = 1, sm_expiry_mode = expiry, sm_global_expiry = 0,
      sm_reserved = 0\<rparr>"

definition demo_layout :: nvm_kv_layout where
  "demo_layout = set_md_rec 2 (layout_new
     \<lparr>m_inUseBMLba = 0, m_delBMLba = 2, m_poolTagsLba = 0, m_kvUserDataStartLba = 0,
      m_sectorSize = 0, m_sectBits = 0, m_valueBits = 0, m_keyBits = 0, m_maxValueSize = 0,
      m_poolBits = 0, m_kv_len = 0, m_mdRecs = 0\<rparr> 512 48)"

definition demo_pm :: nvm_kv_pool_mgr where
  "demo_pm =
     \<lparr>pm_device = \<lparr>dev_fd = 3, dev_handle = 4, dev_caps = demo_caps\<rparr>,
      pm_layout = demo_layout,
      pm_hash = hash_initialize FNV1A SEQUENTIAL_PROBE 48 2 (hash_new 0),
      pm_md = demo_metadata 2 0, pm_md_tail = zeros 448, pm_in_use = [1], pm_deleted = [0],
      pm_bm_len = 4, pm_tags = zeros 32, pm_tags_map = (\<lambda>t. None), pm_tag_size = 32,
      pm_bufpool = \<lparr>m_buffers = [], m_buffer_sizes = [], m_num_buffers = 0, m_buffer_limit = 0,
                    m_buffer_alignment = 0, m_initialized = True\<rparr>,
      pm_del_status = False, pm_locked = False\<rparr>"

lemma bm_bits_one: "bm_bits [w] = {n. n < 32 \<and> bit w n}"
  by (auto simp: bm_bits_def)

lemma demo_bits: "bm_bits [1] = {0}" "bm_bits [0] = {}" "bm_bits [3] = {0, 1}" "bm_bits [2] = {1}"
proof -
  have 3: "bit (3 :: u32) n \<longleftrightarrow> n = 0 \<or> n = 1" for n
  proof -
    have "(3 :: u32) = mask 2" by (simp add: mask_eq_exp_minus_1)
    then show ?thesis by (simp only: bit_mask_iff) auto
  qed
  have 2: "bit (2 :: u32) n \<longleftrightarrow> n = 1" for n
  proof -
    have "(2 :: u32) = push_bit 1 1" by simp
    then show ?thesis by (simp only: bit_push_bit_iff) (auto simp: bit_1_iff)
  qed
  show "bm_bits [1] = {0}" "bm_bits [0] = {}" "bm_bits [3] = {0, 1}" "bm_bits [2] = {1}"
    unfolding bm_bits_one 2 3 by (auto simp: bit_1_iff)
qed

lemma demo_wf: "pm_wf demo_pm" and demo_unlocked: "\<not> pm_locked demo_pm"
proof -
  have "tags_map_ok demo_pm"
    by (simp add: tags_map_ok_def demo_pm_def demo_bits)
  then show "pm_wf demo_pm"
    by (simp add: pm_wf_def pm_shape_def demo_pm_def demo_bits pm_max_pools_def demo_metadata_def
        NVM_KV_MAX_POOLS_def bm_nbits_def POOL_TAG_SIZE_def)
  show "\<not> pm_locked demo_pm" by (simp add: demo_pm_def)
qed

lemma demo_persist:
  "pool_index \<noteq> -1 \<Longrightarrow> persist_store_info (demo_env ok) type pool_index pm w =
     Some (if ok then Inr () else Inl NVM_ERR_IO, w)"
  by (simp add: persist_store_info_def demo_env_def nvm_writev_def Let_def)

definition demo_tag :: bytes where
  "demo_tag = 97 # zeros 15"

definition demo_pm2 :: nvm_kv_pool_mgr where
  "demo_pm2 = add_tag [97] 1 (with_pool 1 (Some demo_tag) demo_pm)"

lemma demo_tag_ok: "tag_arg_ok (Some demo_tag)" and demo_tag_str: "tag_str (Some demo_tag) = [97]"
proof -
  have "cstr demo_tag = [97]" by (simp add: cstr_def demo_tag_def zeros_def)
  then show "tag_arg_ok (Some demo_tag)" "tag_str (Some demo_tag) = [97]"
    by (simp_all add: tag_arg_ok_def tag_str_def POOL_TAG_SIZE_def) (simp add: demo_tag_def)
qed

lemma demo_max: "pm_max_pools demo_pm = 2" and demo2_max: "pm_max_pools demo_pm2 = 2"
  by (simp_all add: demo_pm2_def demo_pm_def pm_max_pools_def demo_metadata_def)

lemma demo_distinct: "tags_distinct (pool_view demo_pm)"
  by (simp add: tags_distinct_def pool_view_def demo_pm_def demo_bits)

lemma demo_status: "check_pool_status 1 demo_pm = POOL_NOT_IN_USE"
  using pm_status [of demo_pm 1] demo_wf demo_max
  by (simp add: pm_wf_def demo_pm_def demo_bits)

lemma demo2_wf: "pm_wf demo_pm2" and demo2_unlocked: "\<not> pm_locked demo_pm2"
proof -
  have "1 \<notin> bm_bits (pm_in_use demo_pm)" "pm_tags_map demo_pm (tag_str (Some demo_tag)) = None"
    by (simp_all add: demo_pm_def demo_bits)
  then show "pm_wf demo_pm2"
    using with_pool_wf(1) [OF demo_wf _ _ demo_tag_ok, of 1] demo_max
    by (simp add: demo_pm2_def demo_tag_str)
  show "\<not> pm_locked demo_pm2" using demo_unlocked by (simp add: demo_pm2_def)
qed

lemma demo2_status: "check_pool_status 1 demo_pm2 = POOL_IN_USE"
proof -
  have "bm_bits (pm_in_use demo_pm2) = {0, 1}"
    using bits_with_pool [of demo_pm 1] demo_wf demo_max
    by (simp add: demo_pm2_def pm_wf_def) (simp add: demo_pm_def demo_bits insert_commute)
  moreover have "bm_bits (pm_deleted demo_pm2) = {}"
    by (simp add: demo_pm2_def) (simp add: demo_pm_def demo_bits)
  ultimately show ?thesis
    using pm_status [of demo_pm2 1] demo2_wf demo2_max by (simp add: pm_wf_def)
qed

lemma demo_create_any:
  "\<exists>r pm2. create_pool (demo_env ok) (Some demo_tag) demo_pm () = Some (r, pm2, ()) \<and>
     (if ok then (\<exists>i. r = Inr i) else r = Inl NVM_ERR_IO)"
proof (cases rule: create_pool_cases [OF demo_wf demo_unlocked, of "Some demo_tag" "demo_env ok" "()"])
  case (1 i)
  then show ?thesis by (simp add: demo_pm_def)
next
  case 2
  then have "1 \<in> bm_bits (pm_in_use demo_pm)" by (simp add: demo_max)
  then show ?thesis by (simp add: demo_pm_def demo_bits)
next
  case (3 n)
  then show ?thesis by (auto simp: demo_persist after_create_def create_pool_exit_def Let_def)
qed

lemma demo_create: "\<exists>i pm2. create_pool (demo_env True) (Some demo_tag) demo_pm () = Some (Inr i, pm2, ())"
  using demo_create_any [of True] by auto

lemma demo_create_fails:
  "\<exists>pm2. create_pool (demo_env False) (Some demo_tag) demo_pm () = Some (Inl NVM_ERR_IO, pm2, ())"
  using demo_create_any [of False] by auto

lemma demo_delete:
  "\<exists>wake pm2 c2. delete_pool (demo_env True) (int 1) demo_pm2 c () = Some (Inr (), wake, pm2, c2, ())"
  using demo2_status demo2_unlocked
  by (auto simp add: delete_pool_def M_POOLID_ALL_def demo_persist Let_def)

lemma demo_persist_fails:
  "type AND M_KV_POOL_TAGS = 0 \<Longrightarrow>
   persist_store_info (demo_env False) type pool_index pm w = Some (Inl NVM_ERR_IO, w)"
  by (simp add: persist_store_info_def demo_env_def nvm_writev_def Let_def)

lemma demo_clear_fails:
  "\<exists>e pm2. clear_pool_bitmaps (demo_env False) [0] demo_pm () = Some (Inl e, pm2, ())"
  using demo_unlocked by (simp add: clear_pool_bitmaps_def Let_def demo_persist_fails pm_flags)

section \<open>Properties\<close>

text \<open>
  C17: the status that \<open>check_pool_status\<close> reports follows the life cycle of a pool. A
  successful call of the pool manager (creation, deletion of one or of all pools, removal by the
  deletion manager) moves each pool at most one step along not in use, in use, in deletion, not
  in use; it keeps the invariant; the default pool is in use for ever; and two pools in use
  never share a tag.
\<close>

theorem pool_life_cycle:
  assumes "pm_wf pm" and "tags_distinct (pool_view pm)"
    and "(pm_step_ok E)\<^sup>*\<^sup>* pm pm1" and "pm_step_ok E pm1 pm2" and "n < pm_max_pools pm"
  shows "check_pool_status (int n) pm2 \<in> status_next (check_pool_status (int n) pm1) \<and>
         pm_wf pm2 \<and> check_pool_status 0 pm2 = POOL_IN_USE \<and> tags_distinct (pool_view pm2)"
proof -
  have wf1: "pm_wf pm1" and n: "n < pm_max_pools pm1"
    using pt.run_inv [OF assms(3,1)] assms(5) by simp_all
  have run: "(pm_step_ok E)\<^sup>*\<^sup>* pm pm2" using assms(3,4) by (rule rtranclp.rtrancl_into_rtrancl)
  have "check_pool_status (int 0) pm2 = POOL_IN_USE" by (rule pt.default_in_use [OF run assms(1)])
  then show ?thesis
    using pt.status_step [OF wf1 assms(4) n] pt.run_inv [OF run assms(1)]
      pt.run_distinct [OF run assms(1,2)] by simp
qed

theorem pool_life_cycle_witness:
  "\<exists>pm2. check_pool_status 1 pm2 \<in> status_next POOL_NOT_IN_USE \<and> pm_wf pm2 \<and>
     check_pool_status 0 pm2 = POOL_IN_USE"
proof -
  obtain i pm2 where c: "create_pool (demo_env True) (Some demo_tag) demo_pm () = Some (Inr i, pm2, ())"
    using demo_create by blast
  have "pm_step_ok (demo_env True) demo_pm pm2"
    unfolding pm_step_ok_def using demo_wf step_create [OF demo_tag_ok demo_unlocked c] by blast
  then show ?thesis
    using pool_life_cycle [OF demo_wf demo_distinct rtranclp.rtrancl_refl, of _ pm2 1] demo_status
    by (simp add: demo_max) blast
qed

text \<open>
  Creating a pool. A tag that is already bound gives the pool it is bound to and changes
  nothing; otherwise the pool gets the least free identifier, reports the status in use, carries
  its tag, and every other pool is as before.
\<close>

theorem create_pool_correct:
  assumes "pm_wf pm" and "\<not> pm_locked pm" and "tag_arg_ok tag"
    and "create_pool E tag pm w = Some (Inr pool_id, pm', w')"
  shows "if tag_str tag \<noteq> [] \<and> pm_tags_map pm (tag_str tag) \<noteq> None
         then pm_tags_map pm (tag_str tag) = Some pool_id \<and> pm' = pm
         else (\<exists>n. pool_id = int n \<and> n < pm_max_pools pm \<and>
                 check_pool_status (int n) pm = POOL_NOT_IN_USE \<and>
                 (\<forall>m < n. check_pool_status (int m) pm \<noteq> POOL_NOT_IN_USE) \<and>
                 check_pool_status (int n) pm' = POOL_IN_USE \<and>
                 (tag_str tag \<noteq> [] \<longrightarrow> pm_tags_map pm' (tag_str tag) = Some (int n)) \<and>
                 pool_view pm' = (pool_view pm)(n \<mapsto> Live (tag_str tag)) \<and> pm_wf pm')"
  using assms
proof (cases rule: create_refines)
  case known
  have "tag_str tag \<noteq> []" using known(2) assms(1) unfolding pm_wf_def tags_map_ok_def by metis
  then show ?thesis using known by simp
next
  case (fresh n)
  have sh: "pm_shape pm" "pm_shape pm'" using assms(1) fresh(5) by (simp_all add: pm_wf_def)
  have max: "pm_max_pools pm' = pm_max_pools pm" by (rule create_max [OF assms])
  have st: "check_pool_status (int m) pm = status_of (pool_view pm m)" if "m \<le> n" for m
    using pool_status_view [OF sh(1)] that fresh(2) by simp
  have before: "status_of (pool_view pm m) \<noteq> POOL_NOT_IN_USE" if "m < n" for m
    using fresh(4) that by (auto simp: status_of_def split: option.splits apool.splits)
  have n0: "n \<noteq> 0" using fresh(3) pool_view_default [OF assms(1)] by (metis option.distinct(1))
  have view_n: "pool_view pm' n = Some (Live (tag_str tag))" by (simp add: fresh(7))
  have mapped: "pm_tags_map pm' (tag_str tag) = Some (int n)" if "tag_str tag \<noteq> []"
    by (rule live_tag_bound [OF fresh(5) that n0 view_n])
  have st': "check_pool_status (int n) pm' = POOL_IN_USE"
    using pool_status_view [OF sh(2), of n] max fresh(2) by (simp add: view_n status_of_def)
  have old: "check_pool_status (int n) pm = POOL_NOT_IN_USE"
    "\<forall>m < n. check_pool_status (int m) pm \<noteq> POOL_NOT_IN_USE"
    using st before fresh(3) by (simp_all add: status_of_def)
  have "\<not> (tag_str tag \<noteq> [] \<and> pm_tags_map pm (tag_str tag) \<noteq> None)" using fresh(8) by auto
  then show ?thesis using fresh(1,2,5,7) st' old mapped by (simp only: if_False) blast
qed

theorem create_pool_correct_witness:
  "\<exists>i pm2. create_pool (demo_env True) (Some demo_tag) demo_pm () = Some (Inr i, pm2, ()) \<and>
     pm_tags_map pm2 [97] = Some i"
proof -
  obtain i pm2 where c: "create_pool (demo_env True) (Some demo_tag) demo_pm () = Some (Inr i, pm2, ())"
    using demo_create by blast
  have "pm_tags_map demo_pm [97] = None" by (simp add: demo_pm_def)
  then have "pm_tags_map pm2 [97] = Some i"
    using create_pool_correct [OF demo_wf demo_unlocked demo_tag_ok c] by (auto simp: demo_tag_str)
  then show ?thesis using c by blast
qed

text \<open>
  Deleting a pool that is in use. On success the pool reports that its deletion is in
  progress, its tag is free again, no cached record of one of its keys can be found any more, and
  every other pool is as before.
\<close>

theorem delete_pool_correct:
  assumes "pm_wf pm" and "\<not> pm_locked pm" and "0 < n \<and> n < pm_max_pools pm"
    and "check_pool_status (int n) pm = POOL_IN_USE" and "cache_wf ca"
    and "delete_pool E (int n) pm (Some ca) w = Some (Inr (), wake, pm', cache', w')"
    and "cache_key_ok (key, key_len, of_nat n)"
  shows "check_pool_status (int n) pm' = POOL_DELETION_IN_PROGRESS \<and>
         pool_view pm' = (pool_view pm)(n \<mapsto> Dying) \<and> pm_wf pm' \<and>
         (\<forall>t. pm_tags_map pm' t \<noteq> Some (int n)) \<and>
         (\<exists>ca'. cache' = Some ca' \<and> cache_lookup (key, key_len, of_nat n) ca' = None)"
proof -
  have sh: "pm_shape pm" using assms(1) by (simp add: pm_wf_def)
  have id: "0 < int n \<and> int n < int (pm_max_pools pm)" using assms(3) by simp
  from assms(1,2) id assms(6) show ?thesis
  proof (cases rule: delete_refines)
    case dying
    then show ?thesis using assms(3,4) pool_status_view [OF sh, of n] by (simp add: status_of_def)
  next
    case (live t)
    have sh': "pm_shape pm'" using live(2) by (simp add: pm_wf_def)
    have step: "pm_step E pm pm'"
      by (rule step_delete [OF _ assms(2,6)]) (use assms(3) in simp)
    have n': "n < pm_max_pools pm'" using step_max [OF step assms(1)] assms(3) by simp
    have v: "pool_view pm' = (pool_view pm)(n \<mapsto> Dying)" using live(3) by simp
    have "pool_view pm' n = Some Dying" by (simp add: v)
    then have in_del: "n \<in> bm_bits (pm_deleted pm')" by (simp add: pool_view_def split: if_splits)
    have no_tag: "\<forall>t. pm_tags_map pm' t \<noteq> Some (int n)"
      using live(2) in_del unfolding pm_wf_def tags_map_ok_def by auto
    have cache': "cache' = Some (kv_cache_delete_pools {of_nat n} ca)"
      using live(5) by (simp add: purge_cache_def M_POOLID_ALL_def)
    have "cache_lookup (key, key_len, of_nat n) (kv_cache_delete_pools {of_nat n} ca) = None"
      by (rule lookup_pools_purged [OF assms(5,7)]) simp
    then show ?thesis
      using v live(2) no_tag cache' pool_status_view [OF sh' n'] by (simp add: status_of_def)
  qed
qed

theorem delete_pool_correct_witness:
  "\<exists>pm2. check_pool_status 1 pm2 = POOL_DELETION_IN_PROGRESS"
proof -
  obtain wake pm2 c2 where d: "delete_pool (demo_env True) (int 1) demo_pm2
      (Some (tiny_cache [cleared_entry 0, cleared_entry 1])) () = Some (Inr (), wake, pm2, c2, ())"
    using demo_delete by blast
  have "cache_key_ok ([1], 1, of_nat 1)" by (simp add: key_arg_ok_def NVM_KV_MAX_KEY_SIZE_def)
  then show ?thesis
    using delete_pool_correct [OF demo2_wf demo2_unlocked _ _ tiny_wf d, of "[1]" 1] demo2_status demo2_max
    by auto
qed

text \<open>
  C35: on a device that accepts every atomic write, the writer of the pool tags returns if and only
  if there is nothing to write or the three capabilities it uses are usable after the code has
  narrowed them: the maximal number of vectors is positive as an \<open>int\<close>, the maximal
  total size is not 0 as a \<open>uint32_t\<close>, and the size of a vector, the product of
  multiplicity and maximal vector size, is not 0 modulo \<open>2 ^ 32\<close>. Otherwise, for
  example for a product of exactly \<open>2 ^ 32\<close>, every round writes nothing and the
  loop never ends.
\<close>

theorem persist_pool_tags_returns_iff:
  assumes "accepts_writes E pm"
  shows "(\<exists>out. persist_pool_tags E pm w = Some out) \<longleftrightarrow>
    (of_nat (pm_tag_size pm) :: u32) = 0 \<or>
    0 < tags_max_iovs pm \<and> tags_max_total pm \<noteq> 0 \<and> tags_write_size pm \<noteq> 0"
proof (cases "tags_progress pm")
  case True
  then show ?thesis using tags_loop_returns [OF True, of E 0 "of_nat (pm_tag_size pm)" w]
    by (simp add: persist_pool_tags_def tags_progress_def)
next
  case False
  have "tags_loop E pm 0 0 w = Some (Inr (), w)" by (simp add: tags_loop.simps)
  then show ?thesis using tags_loop_stuck [OF False assms, of "of_nat (pm_tag_size pm)" 0 w] False
    by (auto simp: persist_pool_tags_def tags_progress_def)
qed

theorem persist_pool_tags_returns_iff_witness:
  "(\<exists>out. persist_pool_tags (demo_env True) demo_pm () = Some out) \<and>
   persist_pool_tags (demo_env True)
     (demo_pm\<lparr>pm_device := (pm_device demo_pm)\<lparr>dev_caps := demo_caps
        \<lparr>nvm_atomic_write_multiplicity := 65536, nvm_max_write_size_per_iov := 65536\<rparr>\<rparr>\<rparr>) () = None"
proof -
  let ?big = "demo_pm\<lparr>pm_device := (pm_device demo_pm)\<lparr>dev_caps := demo_caps
      \<lparr>nvm_atomic_write_multiplicity := 65536, nvm_max_write_size_per_iov := 65536\<rparr>\<rparr>\<rparr>"
  have "accepts_writes (demo_env True) pm" for pm by (simp add: accepts_writes_def demo_env_def)
  note r = persist_pool_tags_returns_iff [OF this]
  have "\<exists>out. persist_pool_tags (demo_env True) demo_pm () = Some out"
    by (subst r) (simp add: tags_max_iovs_def tags_max_total_def tags_write_size_def demo_pm_def demo_caps_def)
  moreover have "\<not> (\<exists>out. persist_pool_tags (demo_env True) ?big () = Some out)"
    by (subst r) (simp add: tags_write_size_def demo_pm_def demo_caps_def)
  then have "persist_pool_tags (demo_env True) ?big () = None" by (cases "persist_pool_tags (demo_env True) ?big ()") blast+
  ultimately show ?thesis by blast
qed

text \<open>
  C39: a creation that cannot be persisted reports the error and frees the identifier, but leaves
  the tag bound to it: the next creation with the same tag succeeds and returns the identifier
  of a pool that is not in use.
\<close>

theorem create_pool_failure_binds_tag:
  assumes "pm_wf pm" and "\<not> pm_locked pm" and "tag_arg_ok tag" and "tag_str tag \<noteq> []"
    and "create_pool E tag pm w = Some (Inl e, pm', w')" and "e \<noteq> NVM_ERR_INVALID_INPUT"
  shows "\<exists>n. check_pool_status (int n) pm' = POOL_NOT_IN_USE \<and>
             create_pool E tag pm' w2 = Some (Inr (int n), pm', w2)"
proof (cases rule: create_pool_cases [OF assms(1,2), of tag E w])
  case (1 i)
  then show ?thesis using assms(5) by simp
next
  case 2
  then show ?thesis using assms(5,6) by simp
next
  case free: (3 n)
  have sh: "pm_shape pm" using assms(1) by (simp add: pm_wf_def)
  have n0: "n \<noteq> 0" by (rule fresh_not_0 [OF sh free(3)])
  let ?pm = "add_tag (tag_str tag) (int n) (with_pool n tag pm)"
  have pm': "pm' = (drop_pools (?pm\<lparr>pm_in_use := bitmap_clear (pm_in_use ?pm) (of_nat n)\<rparr>))\<lparr>pm_locked := False\<rparr>"
    using assms(5) free(5) n0 by (auto simp: after_create_def create_pool_exit_def Let_def
        split: option.splits sum.splits)
  have bits: "bm_bits (pm_in_use pm') = bm_bits (pm_in_use pm)"
  proof -
    have cap: "unat (of_nat n :: u32) < bm_nbits (pm_in_use pm)"
      and "bitmap_test (pm_in_use pm) (of_nat n) = 0"
      using pm_id_word [OF sh free(2)] pm_test(1) [OF sh free(2)] free(3) by auto
    then have "bm_bits (bitmap_clear (bitmap_set (pm_in_use pm) (of_nat n)) (of_nat n)) = bm_bits (pm_in_use pm)"
      by (intro bm.clear_set_members) auto
    then show ?thesis by (simp add: pm' drop_pools_def)
  qed
  have "pm_shape pm'"
    using with_pool_shape [OF sh free(2) n0 assms(3)] sh bits
    by (simp add: pm_shape_def pm' drop_pools_def pm_max_pools_def)
  moreover have "n < pm_max_pools pm'" using free(2) by (simp add: pm' drop_pools_def pm_max_pools_def)
  ultimately have "check_pool_status (int n) pm' = POOL_NOT_IN_USE"
    using pm_status bits free(3) sh by (auto simp: pm' drop_pools_def pm_shape_def)
  moreover have "pm_tags_map pm' (tag_str tag) = Some (int n)"
    using free(1) assms(4) by (auto simp: pm' drop_pools_def add_tag_def dom_def)
  moreover have "pm'\<lparr>pm_locked := False\<rparr> = pm'" "\<not> pm_locked pm'" by (simp_all add: pm')
  ultimately show ?thesis using assms(4)
    by (intro exI [of _ n]) (simp add: create_pool_def create_pool_exit_def tag_str_def)
qed

theorem create_pool_failure_binds_tag_witness:
  "\<exists>n pm2. check_pool_status (int n) pm2 = POOL_NOT_IN_USE \<and>
     create_pool (demo_env False) (Some demo_tag) pm2 () = Some (Inr (int n), pm2, ())"
proof -
  obtain pm2 where c: "create_pool (demo_env False) (Some demo_tag) demo_pm () = Some (Inl NVM_ERR_IO, pm2, ())"
    using demo_create_fails by blast
  show ?thesis
    using create_pool_failure_binds_tag [OF demo_wf demo_unlocked demo_tag_ok _ c] by (auto simp: demo_tag_str)
qed

text \<open>
  When the deletion manager cannot persist the cleared bitmaps, the bitmap mutex stays
  locked: no later creation or removal returns.
\<close>

theorem clear_pool_bitmaps_failure_deadlocks:
  assumes "clear_pool_bitmaps E bitmap pm w = Some (Inl e, pm', w')"
  shows "create_pool E' tag pm' w1 = None \<and> clear_pool_bitmaps E' bitmap' pm' w1 = None \<and>
         clear_pool_bitmap E' pool_id pm' w1 = None"
proof -
  have "pm_locked pm'" using assms
    by (auto simp: clear_pool_bitmaps_def Let_def split: if_splits option.splits prod.splits sum.splits)
  then show ?thesis by (simp add: create_pool_def clear_pool_bitmaps_def clear_pool_bitmap_def Let_def)
qed

theorem clear_pool_bitmaps_failure_deadlocks_witness:
  "\<exists>pm2 e. clear_pool_bitmaps (demo_env False) [0] demo_pm () = Some (Inl e, pm2, ()) \<and>
     create_pool (demo_env True) None pm2 () = None"
proof -
  obtain e pm2 where c: "clear_pool_bitmaps (demo_env False) [0] demo_pm () = Some (Inl e, pm2, ())"
    using demo_clear_fails by blast
  show ?thesis
    by (intro exI conjI) (rule c, rule conjunct1 [OF clear_pool_bitmaps_failure_deadlocks [OF c]])
qed

end
