(* ===== verification/SyncList.thy ===== *)
theory SyncList
  imports Prelude
begin

text \<open>
  The synchronized list of \<open>util/kv_sync_list.cpp\<close>, which serialises the writers of one
  LBA. \<open>insert_pass\<close> is one evaluation of the loop condition of \<open>insert_entry\<close>
  under the mutex; \<open>insert_entry\<close> runs the loop against the changes other threads make to
  the list during each \<open>pthread_cond_wait\<close>; \<open>delete_entry\<close> is the removal with its
  broadcast. The step relation \<open>sl_step\<close> lets any number of threads interleave these
  operations; the invariants are that an entry has one owner and that no wakeup is lost.
\<close>

section \<open>The operations\<close>

type_synonym sync_list = "u64 set"

definition insert_pass :: "u64 \<Rightarrow> sync_list \<Rightarrow> sync_list option" where
  "insert_pass entry m_list = (if entry \<in> m_list then None else Some (insert entry m_list))"

fun insert_loop ::
  "u64 \<Rightarrow> bool \<Rightarrow> (sync_list \<Rightarrow> sync_list) list \<Rightarrow> sync_list \<Rightarrow> (bool \<times> bool \<times> sync_list) option" where
  "insert_loop entry wait wakes m_list =
     (case insert_pass entry m_list of
        Some m_list' \<Rightarrow> Some (True, wait, m_list')
      | None \<Rightarrow>
          (case wakes of
             [] \<Rightarrow> None
           | others # wakes' \<Rightarrow> insert_loop entry True wakes' (others m_list)))"

declare insert_loop.simps [simp del]

definition insert_entry ::
  "u64 \<Rightarrow> (sync_list \<Rightarrow> sync_list) list \<Rightarrow> sync_list \<Rightarrow> (bool \<times> bool \<times> sync_list) option" where
  "insert_entry entry wakes m_list = insert_loop entry False wakes m_list"

definition delete_entry :: "u64 \<Rightarrow> sync_list \<Rightarrow> bool \<times> sync_list" where
  "delete_entry entry m_list =
     (if entry \<notin> m_list then (False, m_list) else (True, m_list - {entry}))"

lemma insert_loop_contains:
  "insert_loop entry wait wakes m_list = Some (ok, waited, m_list') \<Longrightarrow>
   ok \<and> entry \<in> m_list' \<and> (waited \<longleftrightarrow> wait \<or> entry \<in> m_list)"
proof (induction wakes arbitrary: wait m_list)
  case Nil
  then show ?case
    by (auto simp: insert_loop.simps insert_pass_def split: if_splits)
next
  case (Cons others wakes)
  show ?case
  proof (cases "entry \<in> m_list")
    case True
    with Cons.prems have "insert_loop entry True wakes (others m_list) = Some (ok, waited, m_list')"
      by (simp add: insert_loop.simps [of _ _ "_ # _"] insert_pass_def)
    from Cons.IH [OF this] True show ?thesis by simp
  next
    case False
    with Cons.prems show ?thesis
      by (auto simp: insert_loop.simps insert_pass_def)
  qed
qed

lemma insert_entry_free:
  "entry \<notin> m_list \<Longrightarrow> insert_entry entry wakes m_list = Some (True, False, insert entry m_list)"
  by (simp add: insert_entry_def insert_loop.simps insert_pass_def)

section \<open>Interleaved threads\<close>

datatype sl_thread =
    Outside
  | Inserting u64 bool
  | Sleeping u64
  | Owning u64 bool

record sl_state =
  sl_list :: sync_list
  sl_pc :: "nat \<Rightarrow> sl_thread"

definition sl_wake :: "sl_thread \<Rightarrow> sl_thread" where
  "sl_wake t = (case t of Sleeping e \<Rightarrow> Inserting e True | _ \<Rightarrow> t)"

definition sl_init :: sl_state where
  "sl_init = \<lparr>sl_list = {}, sl_pc = (\<lambda>_. Outside)\<rparr>"

inductive sl_step :: "sl_state \<Rightarrow> sl_state \<Rightarrow> bool" where
  call_insert:
    "sl_pc s t = Outside \<Longrightarrow> sl_step s (s\<lparr>sl_pc := (sl_pc s)(t := Inserting e False)\<rparr>)"
| insert_ok:
    "sl_pc s t = Inserting e w \<Longrightarrow> insert_pass e (sl_list s) = Some l' \<Longrightarrow>
     sl_step s (s\<lparr>sl_list := l', sl_pc := (sl_pc s)(t := Owning e w)\<rparr>)"
| insert_wait:
    "sl_pc s t = Inserting e w \<Longrightarrow> insert_pass e (sl_list s) = None \<Longrightarrow>
     sl_step s (s\<lparr>sl_pc := (sl_pc s)(t := Sleeping e)\<rparr>)"
| spurious_wakeup:
    "sl_pc s t = Sleeping e \<Longrightarrow> sl_step s (s\<lparr>sl_pc := (sl_pc s)(t := Inserting e True)\<rparr>)"
| delete:
    "sl_pc s t = Owning e w \<Longrightarrow> delete_entry e (sl_list s) = (True, l') \<Longrightarrow>
     sl_step s (s\<lparr>sl_list := l', sl_pc := (\<lambda>u. sl_wake (((sl_pc s)(t := Outside)) u))\<rparr>)"
| delete_missing:
    "sl_pc s t = Owning e w \<Longrightarrow> delete_entry e (sl_list s) = (False, l') \<Longrightarrow>
     sl_step s (s\<lparr>sl_list := l', sl_pc := (sl_pc s)(t := Outside)\<rparr>)"

inductive sl_reachable :: "sl_state \<Rightarrow> bool" where
  sl_start: "sl_reachable sl_init"
| sl_next: "sl_reachable s \<Longrightarrow> sl_step s s' \<Longrightarrow> sl_reachable s'"

inductive_cases sl_stepE: "sl_step s s'"

section \<open>Ownership\<close>

definition owned_entry :: "sl_thread \<Rightarrow> u64 option" where
  "owned_entry p = (case p of Owning e w \<Rightarrow> Some e | _ \<Rightarrow> None)"

definition own_inv :: "sync_list \<Rightarrow> (nat \<Rightarrow> u64 option) \<Rightarrow> bool" where
  "own_inv m_list f \<longleftrightarrow>
     (\<forall>e. e \<in> m_list \<longleftrightarrow> (\<exists>t. f t = Some e)) \<and>
     (\<forall>t u e. f t = Some e \<longrightarrow> f u = Some e \<longrightarrow> t = u)"

definition sl_inv :: "sl_state \<Rightarrow> bool" where
  "sl_inv s \<longleftrightarrow>
     own_inv (sl_list s) (owned_entry \<circ> sl_pc s) \<and>
     (\<forall>t e. sl_pc s t = Sleeping e \<longrightarrow> e \<in> sl_list s)"

lemma owned_entry_simps [simp]:
  "owned_entry Outside = None" "owned_entry (Inserting e w) = None"
  "owned_entry (Sleeping e) = None" "owned_entry (Owning e w) = Some e"
  by (simp_all add: owned_entry_def)

lemma owned_sl_wake [simp]: "owned_entry (sl_wake p) = owned_entry p"
  by (cases p) (simp_all add: sl_wake_def)

lemma sl_wake_sleeping [simp]: "sl_wake p \<noteq> Sleeping e"
  by (cases p) (simp_all add: sl_wake_def)

lemma owned_wake_comp: "owned_entry \<circ> (\<lambda>u. sl_wake (pc u)) = owned_entry \<circ> pc"
  by (simp add: fun_eq_iff)

lemma own_inv_insert:
  assumes "own_inv l f" and "e \<notin> l" and "f t = None"
  shows "own_inv (insert e l) (f(t := Some e))"
proof -
  have "\<And>u. f u \<noteq> Some e" using assms(1,2) unfolding own_inv_def by blast
  then show ?thesis using assms unfolding own_inv_def by (auto, metis option.distinct(1))
qed

lemma own_inv_delete:
  assumes "own_inv l f" and "f t = Some e"
  shows "own_inv (l - {e}) (f(t := None))"
proof -
  have only: "\<And>u. f u = Some e \<Longrightarrow> u = t"
    and mem: "\<And>x. x \<in> l \<longleftrightarrow> (\<exists>u. f u = Some x)"
    and one: "\<And>u v x. f u = Some x \<Longrightarrow> f v = Some x \<Longrightarrow> u = v"
    using assms unfolding own_inv_def by blast+
  have "x \<in> l - {e} \<longleftrightarrow> (\<exists>u. (f(t := None)) u = Some x)" for x
  proof
    assume "x \<in> l - {e}"
    then obtain u where u: "f u = Some x" "x \<noteq> e" using mem [of x] by blast
    then have "u \<noteq> t" using assms(2) by auto
    with u show "\<exists>u. (f(t := None)) u = Some x" by (intro exI [of _ u]) simp
  next
    assume "\<exists>u. (f(t := None)) u = Some x"
    then obtain u where "u \<noteq> t" "f u = Some x" by (auto split: if_splits)
    with only mem [of x] show "x \<in> l - {e}" by blast
  qed
  moreover have "u = v" if "(f(t := None)) u = Some x" "(f(t := None)) v = Some x" for u v x
    using that one [of u x v] by (simp split: if_splits)
  ultimately show ?thesis unfolding own_inv_def by blast
qed

lemma own_inv_same: "own_inv l f \<Longrightarrow> f t = x \<Longrightarrow> own_inv l (f(t := x))"
  by (simp add: fun_upd_idem)

lemma sl_inv_init: "sl_inv sl_init"
  by (simp add: sl_inv_def sl_init_def own_inv_def)

lemma sl_inv_move:
  assumes "sl_inv s" and "owned_entry (sl_pc s t) = owned_entry p"
    and "\<And>e. p = Sleeping e \<Longrightarrow> e \<in> sl_list s"
  shows "sl_inv (s\<lparr>sl_pc := (sl_pc s)(t := p)\<rparr>)"
proof -
  have "own_inv (sl_list s) (owned_entry \<circ> (sl_pc s)(t := p))"
    using assms(1,2) unfolding sl_inv_def fun_upd_comp by (intro own_inv_same) simp_all
  then show ?thesis using assms(1,3) unfolding sl_inv_def by (simp split: if_splits)
qed

lemma sl_step_inv: "sl_step s s' \<Longrightarrow> sl_inv s \<Longrightarrow> sl_inv s'"
proof (induction rule: sl_step.induct)
  case (call_insert s t e)
  then show ?case by (intro sl_inv_move) simp_all
next
  case (insert_ok s t e w l')
  then have new: "e \<notin> sl_list s" and l': "l' = insert e (sl_list s)"
    by (auto simp: insert_pass_def split: if_splits)
  have "own_inv l' (owned_entry \<circ> (sl_pc s)(t := Owning e w))"
    using insert_ok new unfolding sl_inv_def fun_upd_comp l' owned_entry_simps
    by (intro own_inv_insert) simp_all
  then show ?case using insert_ok.prems l' unfolding sl_inv_def by (simp split: if_splits)
next
  case (insert_wait s t e w)
  then show ?case by (intro sl_inv_move) (auto simp: insert_pass_def split: if_splits)
next
  case (spurious_wakeup s t e)
  then show ?case by (intro sl_inv_move) simp_all
next
  case (delete s t e w l')
  then have l': "l' = sl_list s - {e}" by (auto simp: delete_entry_def split: if_splits)
  have "own_inv l' (owned_entry \<circ> (sl_pc s)(t := Outside))"
    using delete unfolding sl_inv_def fun_upd_comp l' owned_entry_simps
    by (intro own_inv_delete) simp_all
  then show ?case
    using owned_wake_comp [of "(sl_pc s)(t := Outside)"] unfolding sl_inv_def by simp
next
  case (delete_missing s t e w l')
  then have "(owned_entry \<circ> sl_pc s) t = Some e" by simp
  then have "e \<in> sl_list s" using delete_missing.prems unfolding sl_inv_def own_inv_def by blast
  then show ?case using delete_missing by (simp add: delete_entry_def)
qed

lemma sl_reachable_inv: "sl_reachable s \<Longrightarrow> sl_inv s"
proof (induction rule: sl_reachable.induct)
  case sl_start
  show ?case by (rule sl_inv_init)
next
  case (sl_next s s')
  then show ?case by (blast intro: sl_step_inv)
qed

section \<open>Properties\<close>

text \<open>
  C25: the list serialises the writers of an LBA. Whatever the interleaving of any number of
  threads that insert, wait, wake up (spuriously or by the broadcast) and delete, an entry that
  is in the list has exactly one owner, an owner's entry is in the list (so its deletion never
  fails), and a thread sleeps only for an entry that is still taken: no wakeup is lost.
\<close>

theorem sync_list_exclusive_no_lost_wakeup:
  assumes "sl_reachable s"
  shows "(\<forall>e. e \<in> sl_list s \<longleftrightarrow> (\<exists>!t. \<exists>w. sl_pc s t = Owning e w)) \<and>
         (\<forall>t e w. sl_pc s t = Owning e w \<longrightarrow> delete_entry e (sl_list s) = (True, sl_list s - {e})) \<and>
         (\<forall>t e. sl_pc s t = Sleeping e \<longrightarrow> e \<in> sl_list s)"
proof -
  have inv: "own_inv (sl_list s) (owned_entry \<circ> sl_pc s)" "\<forall>t e. sl_pc s t = Sleeping e \<longrightarrow> e \<in> sl_list s"
    using sl_reachable_inv [OF assms] by (simp_all add: sl_inv_def)
  have own: "(owned_entry \<circ> sl_pc s) t = Some e \<longleftrightarrow> (\<exists>w. sl_pc s t = Owning e w)" for t e
    by (cases "sl_pc s t") auto
  have "e \<in> sl_list s \<longleftrightarrow> (\<exists>t. \<exists>w. sl_pc s t = Owning e w)" for e
    using inv(1) unfolding own_inv_def own by blast
  moreover have "t = u" if "\<exists>w. sl_pc s t = Owning e w" "\<exists>w. sl_pc s u = Owning e w" for t u e
    using inv(1) that unfolding own_inv_def own by blast
  ultimately show ?thesis using inv(2) unfolding delete_entry_def by (auto simp: Ex1_def)
qed

theorem sync_list_exclusive_no_lost_wakeup_witness:
  "\<exists>s. sl_reachable s \<and> sl_pc s 0 = Owning 7 False \<and> sl_pc s 1 = Sleeping 7 \<and>
       7 \<in> sl_list s \<and> delete_entry 7 (sl_list s) = (True, sl_list s - {7})"
proof -
  define s1 where "s1 = sl_init\<lparr>sl_pc := (sl_pc sl_init)(0 := Inserting 7 False)\<rparr>"
  define s2 where "s2 = s1\<lparr>sl_list := {7}, sl_pc := (sl_pc s1)(0 := Owning 7 False)\<rparr>"
  define s3 where "s3 = s2\<lparr>sl_pc := (sl_pc s2)(1 := Inserting 7 False)\<rparr>"
  define s4 where "s4 = s3\<lparr>sl_pc := (sl_pc s3)(1 := Sleeping 7)\<rparr>"
  have "sl_step sl_init s1" unfolding s1_def by (rule call_insert) (simp add: sl_init_def)
  moreover have "sl_step s1 s2" unfolding s2_def
    by (rule insert_ok [where e = 7]) (simp_all add: s1_def sl_init_def insert_pass_def)
  moreover have "sl_step s2 s3" unfolding s3_def
    by (rule call_insert) (simp add: s2_def s1_def sl_init_def)
  moreover have "sl_step s3 s4" unfolding s4_def
    by (rule insert_wait [where w = False]) (simp_all add: s3_def s2_def insert_pass_def)
  ultimately have r: "sl_reachable s4" by (meson sl_start sl_next)
  have "sl_pc s4 0 = Owning 7 False" "sl_pc s4 1 = Sleeping 7"
    by (simp_all add: s4_def s3_def s2_def)
  then show ?thesis using sync_list_exclusive_no_lost_wakeup [OF r] r by blast
qed

text \<open>
  \<open>insert_entry\<close> returns only with the entry in the list and in its hands, whatever
  the other threads did to the list while it waited, and it reports that it waited exactly when the
  entry was taken at the call.
\<close>

theorem insert_entry_acquires:
  assumes "insert_entry entry wakes m_list = Some (ok, waited, m_list')"
  shows "ok \<and> entry \<in> m_list' \<and> (waited \<longleftrightarrow> entry \<in> m_list) \<and>
         delete_entry entry m_list' = (True, m_list' - {entry})"
  using insert_loop_contains [of entry False wakes m_list ok waited m_list'] assms
  by (simp add: insert_entry_def delete_entry_def)

theorem insert_entry_acquires_witness:
  "insert_entry 7 [\<lambda>l. l, \<lambda>l. snd (delete_entry 7 l)] {7, 9} = Some (True, True, {7, 9}) \<and>
   delete_entry 7 {7, 9} = (True, {7, 9} - {7})"
proof -
  have "insert_entry 7 [\<lambda>l. l, \<lambda>l. snd (delete_entry 7 l)] {7, 9} = Some (True, True, {7, 9})"
    by (auto simp: insert_entry_def insert_loop.simps insert_pass_def delete_entry_def)
  then show ?thesis using insert_entry_acquires by blast
qed

end
