(* ===== verification/Store.thy ===== *)
theory Store
  imports PoolMgr SyncList
begin

text \<open>
  One key-value store: \<open>src/kv_store.cpp\<close> and the asynchronous expiry queue of
  \<open>src/kv_async_expiry.cpp\<close>. The record joins what the C++ object points to: the pool
  manager with the objects it shares, the cache, the safe list of LBAs, the expiry queue.

  Other threads appear in one place only. An operation that finds its LBA in the safe list waits;
  what the others do to the store and to the device until the LBA is free is the argument
  \<open>oth\<close>. As in the pool manager, \<open>None\<close> is an operation that never returns.
\<close>

record nvm_kv_store =
  st_pm :: nvm_kv_pool_mgr
  st_cache :: "nvm_kv_cache option"
  st_safe :: sync_list
  st_del_sectors :: nat
  st_exp_status :: bool
  st_queue :: "nvm_iovec list list"

type_synonym 'w others = "u64 \<Rightarrow> nvm_kv_store \<times> 'w \<Rightarrow> nvm_kv_store \<times> 'w"

section \<open>Accessors\<close>

definition get_store_device :: "nvm_kv_store \<Rightarrow> nvm_kv_store_device" where [kv_defs]:
  "get_store_device st = pm_device (st_pm st)"

definition get_layout :: "nvm_kv_store \<Rightarrow> nvm_kv_layout" where [kv_defs]:
  "get_layout st = pm_layout (st_pm st)"

definition get_hash_func :: "nvm_kv_store \<Rightarrow> nvm_kv_hash_func" where [kv_defs]:
  "get_hash_func st = pm_hash (st_pm st)"

definition get_store_metadata :: "nvm_kv_store \<Rightarrow> nvm_kv_store_metadata" where [kv_defs]:
  "get_store_metadata st = pm_md (st_pm st)"

definition get_sector_size :: "nvm_kv_store \<Rightarrow> nat" where [kv_defs]:
  "get_sector_size st = nvm_sector_size (dev_caps (get_store_device st))"

definition get_expiry :: "nvm_kv_store \<Rightarrow> u32" where [kv_defs]:
  "get_expiry st = sm_expiry_mode (get_store_metadata st)"

definition get_del_sec_count :: "nvm_kv_store \<Rightarrow> nat" where [kv_defs]:
  "get_del_sec_count st = st_del_sectors st"

definition expiry_status :: "nvm_kv_store \<Rightarrow> bool" where [kv_defs]:
  "expiry_status st = st_exp_status st"

definition get_max_batch_size :: "nvm_kv_store \<Rightarrow> nat" where
  "get_max_batch_size st = nvm_max_num_iovs (dev_caps (get_store_device st)) div 2"

definition set_metadata :: "(nvm_kv_store_metadata \<Rightarrow> nvm_kv_store_metadata) \<Rightarrow> nvm_kv_store \<Rightarrow> nvm_kv_store" where
  "set_metadata f st = st\<lparr>st_pm := (st_pm st)\<lparr>pm_md := f (pm_md (st_pm st))\<rparr>\<rparr>"

section \<open>The safe list\<close>

definition insert_lba_to_safe_list ::
  "'w others \<Rightarrow> u64 \<Rightarrow> nvm_kv_store \<Rightarrow> 'w \<Rightarrow> bool \<times> nvm_kv_store \<times> 'w" where
  "insert_lba_to_safe_list oth lba st w =
     (let wait = lba \<in> st_safe st; (st, w) = (if wait then oth lba (st, w) else (st, w))
      in (wait, st\<lparr>st_safe := insert lba (st_safe st)\<rparr>, w))"

definition delete_lba_from_safe_list :: "u64 \<Rightarrow> nvm_kv_store \<Rightarrow> nvm_kv_store" where
  "delete_lba_from_safe_list lba st = st\<lparr>st_safe := snd (delete_entry lba (st_safe st))\<rparr>"

section \<open>Device capabilities\<close>

definition initialize_capabilities :: "nat list \<Rightarrow> int \<Rightarrow> nat \<Rightarrow> nvm_kv_store_capabilities res" where
  "initialize_capabilities cap_values ret_val NVM_CAP_FEATURE_ENABLED =
     (if ret_val = int (length cap_values) \<and> length cap_values = 10 then
        (if (\<exists>i < 3. cap_values ! i AND NVM_CAP_FEATURE_ENABLED = 0)
         then Inl NVM_ERR_CAPABILITIES_NOT_SUPPORTED
         else Inr
           \<lparr>nvm_max_num_iovs = cap_values ! 3,
            nvm_atomic_write_multiplicity = cap_values ! 4,
            nvm_max_write_size_per_iov = cap_values ! 5,
            nvm_max_trim_size_per_iov = cap_values ! 8,
            nvm_sector_size = cap_values ! 6,
            nvm_max_num_logical_iter_ranges = cap_values ! 7,
            nvm_atomic_write_max_total_size = cap_values ! 9\<rparr>)
      else Inl NVM_ERR_INTERNAL_FAILURE)"

definition persist_kv_metadata :: "'w nvm_env \<Rightarrow> nvm_kv_store \<Rightarrow> 'w \<Rightarrow> unit res \<times> 'w" where
  "persist_kv_metadata E st w =
     (case nvm_writev E (get_store_device st) [metadata_iov (st_pm st)] 1 True w of
        (Inl e, w) \<Rightarrow> (Inl e, w)
      | (Inr _, w) \<Rightarrow> (Inr (), w))"

section \<open>Deletion of a range\<close>

definition trim_iov :: "u64 \<Rightarrow> nat \<Rightarrow> nvm_iovec" where
  "trim_iov lba len =
     \<lparr>iov_base = 0, iov_len = len, iov_lba = lba, iov_opcode = NVM_IOV_TRIM, iov_data = []\<rparr>"

definition max_trim_size :: "nvm_kv_store_device \<Rightarrow> nat" where
  "max_trim_size device =
     nvm_atomic_write_multiplicity (dev_caps device) * nvm_max_trim_size_per_iov (dev_caps device)"

function trim_fill ::
  "nvm_kv_store_device \<Rightarrow> u64 \<Rightarrow> nat \<Rightarrow> nat \<Rightarrow> nat \<Rightarrow> nvm_iovec list \<times> nat \<times> nat" where
  "trim_fill device del_lba iovec_count total_iovs remaining_len =
     (let max_trim = max_trim_size device; ss = nvm_sector_size (dev_caps device);
          temp_discard_len = (if remaining_len > max_trim then max_trim else remaining_len);
          iov = trim_iov (del_lba + of_nat (total_iovs * (max_trim div ss))) (rnd temp_discard_len ss);
          remaining_len = remaining_len - temp_discard_len
      in if Suc iovec_count < nvm_max_num_iovs (dev_caps device) \<and> remaining_len \<noteq> 0
         then (let (iovs, total_iovs, remaining_len) =
                     trim_fill device del_lba (Suc iovec_count) (Suc total_iovs) remaining_len
               in (iov # iovs, total_iovs, remaining_len))
         else ([iov], Suc total_iovs, remaining_len))"
  by pat_completeness auto
termination
  by (relation "measure (\<lambda>(device, lba, c, t, r). nvm_max_num_iovs (dev_caps device) - c)") auto

declare trim_fill.simps [simp del]

partial_function (option) delete_range_loop ::
  "'w nvm_env \<Rightarrow> nvm_kv_store_device \<Rightarrow> u64 \<Rightarrow> nat \<Rightarrow> nat \<Rightarrow> 'w \<Rightarrow> (unit res \<times> 'w) option" where
  "delete_range_loop E device del_lba total_iovs remaining_len w =
     (let fill = trim_fill device del_lba 0 total_iovs remaining_len;
          r = nvm_writev E device (fst fill) (length (fst fill)) True w
      in if fst r \<noteq> Inr 0 then Some (Inl NVM_ERR_IO, snd r)
         else if snd (snd fill) \<noteq> 0
         then delete_range_loop E device del_lba (fst (snd fill)) (snd (snd fill)) (snd r)
         else Some (Inr (), snd r))"

definition delete_range ::
  "'w nvm_env \<Rightarrow> nvm_kv_store \<Rightarrow> u64 \<Rightarrow> nat \<Rightarrow> 'w \<Rightarrow> (unit res \<times> 'w) option" where
  "delete_range E st del_lba discard_sec w =
     (case env_new_iovs E w (nvm_max_num_iovs (dev_caps (get_store_device st))) of
        None \<Rightarrow> Some (Inl NVM_ERR_OUT_OF_MEMORY, w)
      | Some _ \<Rightarrow>
          delete_range_loop E (get_store_device st) del_lba 0 (discard_sec * get_sector_size st) w)"

section \<open>Batched deletion\<close>

fun safe_insert_all ::
  "'w others \<Rightarrow> nvm_iovec list \<Rightarrow> nvm_kv_store \<Rightarrow> 'w \<Rightarrow> nvm_kv_store \<times> 'w" where
  "safe_insert_all oth [] st w = (st, w)"
| "safe_insert_all oth (iov # iovs) st w =
     (let (wait, st, w) = insert_lba_to_safe_list oth (iov_lba iov) st w
      in safe_insert_all oth iovs st w)"

definition batch_delete ::
  "'w nvm_env \<Rightarrow> nvm_kv_store \<Rightarrow> nvm_iovec list \<Rightarrow> 'w \<Rightarrow> unit res \<times> 'w" where
  "batch_delete E st iovec w =
     (case nvm_writev E (get_store_device st) iovec (length iovec) True w of
        (r, w) \<Rightarrow> (if r = Inr 0 then Inr () else Inl NVM_ERR_IO, w))"

definition batch_delete_sync ::
  "'w nvm_env \<Rightarrow> 'w others \<Rightarrow> nvm_iovec list \<Rightarrow> bool \<Rightarrow> nvm_kv_store \<Rightarrow> 'w \<Rightarrow>
   unit res \<times> nvm_kv_store \<times> 'w" where
  "batch_delete_sync E oth iovec delete_from_cache st w =
     (let (st, w) = safe_insert_all oth iovec st w;
          (ret_code, w) = batch_delete E st iovec w;
          st = (if delete_from_cache
                then st\<lparr>st_cache := map_option (kv_cache_delete_lbas (map iov_lba iovec)) (st_cache st)\<rparr>
                else st);
          st = foldl (\<lambda>st iov. delete_lba_from_safe_list (iov_lba iov) st) st iovec
      in (ret_code, st, w))"

section \<open>Deletion of all user data\<close>

fun delete_ranges ::
  "'w nvm_env \<Rightarrow> 'w others \<Rightarrow> nvm_block_range list \<Rightarrow> nvm_iovec list \<Rightarrow> nvm_kv_store \<Rightarrow> 'w \<Rightarrow>
   nvm_iovec list res \<times> nvm_kv_store \<times> 'w" where
  "delete_ranges E oth [] iovec st w = (Inr iovec, st, w)"
| "delete_ranges E oth (r # rs) iovec st w =
     (let device = get_store_device st; trim_len = br_length r * get_sector_size st
      in if trim_len > max_trim_size device then (Inl NVM_ERR_INTERNAL_FAILURE, st, w)
         else
           (let iovec = iovec @ [trim_iov (br_start_lba r) trim_len]
            in if length iovec = nvm_max_num_iovs (dev_caps device)
               then (case batch_delete_sync E oth iovec False st w of
                       (Inl e, st, w) \<Rightarrow> (Inl e, st, w)
                     | (Inr _, st, w) \<Rightarrow> delete_ranges E oth rs [] st w)
               else delete_ranges E oth rs iovec st w))"

partial_function (option) delete_keys_loop ::
  "'w nvm_env \<Rightarrow> 'w others \<Rightarrow> nvm_logical_range_iter \<Rightarrow> nvm_iovec list \<Rightarrow> nvm_kv_store \<Rightarrow> 'w \<Rightarrow>
   (unit res \<times> nvm_kv_store \<times> 'w) option" where
  "delete_keys_loop E oth it iovec st w =
     (let q = env_range_iter E (dev_handle (get_store_device st)) it w
      in if fst q = -1 then Some (Inl NVM_ERR_INTERNAL_FAILURE, st, w)
         else
           (let found = nat (fst q);
                d = delete_ranges E oth (take found (it_ranges (snd q))) iovec st w
            in case fst d of
                 Inl e \<Rightarrow> Some (Inl e, snd d)
               | Inr iovec' \<Rightarrow>
                   if found < it_max_ranges it
                   then (if iovec' \<noteq> []
                         then Some (batch_delete_sync E oth iovec' False (fst (snd d)) (snd (snd d)))
                         else Some (Inr (), snd d))
                   else delete_keys_loop E oth (snd q) iovec' (fst (snd d)) (snd (snd d))))"

definition delete_all_keys ::
  "'w nvm_env \<Rightarrow> 'w others \<Rightarrow> u64 \<Rightarrow> nat \<Rightarrow> nvm_kv_store \<Rightarrow> 'w \<Rightarrow>
   (unit res \<times> nvm_kv_store \<times> 'w) option" where
  "delete_all_keys E oth start_lba discard_length st w =
     (case env_new_iovs E w (nvm_max_num_iovs (dev_caps (get_store_device st))) of
        None \<Rightarrow> Some (Inl NVM_ERR_OUT_OF_MEMORY, st, w)
      | Some _ \<Rightarrow>
          delete_keys_loop E oth
            \<lparr>it_range_to_iterate = \<lparr>br_start_lba = start_lba, br_length = discard_length\<rparr>,
             it_filter_mask = 0, it_filter_pattern = 0, it_filter_expiry = 0,
             it_max_ranges = nvm_max_num_logical_iter_ranges (dev_caps (get_store_device st)),
             it_ranges = []\<rparr> [] st w)"

definition store_delete_all ::
  "'w nvm_env \<Rightarrow> 'w others \<Rightarrow> nvm_kv_store \<Rightarrow> 'w \<Rightarrow> (unit res \<times> nvm_kv_store \<times> 'w) option" where
  "store_delete_all E oth st w =
     (let st = st\<lparr>st_cache := map_option kv_cache_delete_all (st_cache st)\<rparr>;
          start_lba = get_data_start_lba (get_layout st);
          delete_length = unat (get_kv_len (get_layout st) - start_lba)
      in case delete_all_keys E oth start_lba delete_length st w of
           None \<Rightarrow> None
         | Some (Inl e, st, w) \<Rightarrow> Some (Inl e, st, w)
         | Some (Inr _, st, w) \<Rightarrow> Some (Inr (), set_metadata (\<lambda>m. m\<lparr>sm_num_keys := 0\<rparr>) st, w))"

section \<open>Asynchronous expiry\<close>

definition queue_has_room :: "nat \<Rightarrow> nvm_iovec list list \<Rightarrow> bool" where
  "queue_has_room max_iovecs queue \<longleftrightarrow> queue \<noteq> [] \<and> length (last queue) \<noteq> max_iovecs"

definition expiry_trim_len :: "nvm_kv_header \<Rightarrow> nat \<Rightarrow> nat" where
  "expiry_trim_len hdr ss =
     (let trim_len = unat (hdr_value_offset hdr + hdr_value_len hdr)
      in if trim_len \<le> ss then ss else rnd trim_len ss)"

definition update_expiry_queue ::
  "'w nvm_env \<Rightarrow> u64 \<Rightarrow> nvm_kv_header \<Rightarrow> nvm_kv_store \<Rightarrow> 'w \<Rightarrow> unit res \<times> bool \<times> nvm_kv_store" where
  "update_expiry_queue E key_loc hdr st w =
     (let max_iovecs = nvm_max_num_iovs (dev_caps (get_store_device st)); queue = st_queue st
      in if \<not> queue_has_room max_iovecs queue \<and> env_new_iovs E w max_iovecs = None
         then (Inl NVM_ERR_OUT_OF_MEMORY, False, st)
         else
           (let queue = (if queue_has_room max_iovecs queue then queue else queue @ [[]]);
                block = last queue
            in if \<exists>iov \<in> set block. iov_lba iov = key_loc
               then (Inr (), False, st\<lparr>st_queue := queue\<rparr>)
               else
                 (let block = block @ [trim_iov key_loc (expiry_trim_len hdr (get_sector_size st))];
                      queue = butlast queue @ [block]
                  in (Inr (), length (hd queue) = max_iovecs, st\<lparr>st_queue := queue\<rparr>))))"

definition async_expiry_step ::
  "'w nvm_env \<Rightarrow> 'w others \<Rightarrow> nvm_kv_store \<Rightarrow> 'w \<Rightarrow> (unit res \<times> nvm_kv_store \<times> 'w) option" where
  "async_expiry_step E oth st w =
     (let max_iovecs = nvm_max_num_iovs (dev_caps (get_store_device st))
      in case st_queue st of
           [] \<Rightarrow> None
         | block # queue \<Rightarrow>
             if length block < max_iovecs then None
             else Some (batch_delete_sync E oth (take max_iovecs block) True (st\<lparr>st_queue := queue\<rparr>) w))"

section \<open>What a range deletion trims\<close>

definition trim_set :: "sectors \<Rightarrow> nat set \<Rightarrow> sectors" where
  "trim_set s A = (\<lambda>n. if n \<in> A then None else s n)"

lemma trim_set_empty [simp]: "trim_set s {} = s"
  by (simp add: trim_set_def)

lemma trim_set_union: "trim_set (trim_set s A) B = trim_set s (A \<union> B)"
  by (auto simp: trim_set_def fun_eq_iff)

lemma trim_set_in [simp]: "n \<in> A \<Longrightarrow> trim_set s A n = None"
  by (simp add: trim_set_def)

lemma trim_set_notin [simp]: "n \<notin> A \<Longrightarrow> trim_set s A n = s n"
  by (simp add: trim_set_def)

lemma iov_range_trim:
  "iov_range ss (trim_iov lba len) = {unat lba ..< unat lba + len div ss}"
  by (simp add: iov_range_def iov_first_def iov_sectors_def trim_iov_def)

lemma apply_trim_iov:
  "apply_iov ss s (trim_iov lba len) = trim_set s {unat lba ..< unat lba + len div ss}"
  by (simp add: apply_iov_def trim_set_def iov_range_trim fun_eq_iff) (simp add: trim_iov_def)

definition trim_dev_ok :: "nat \<Rightarrow> nvm_kv_store_device \<Rightarrow> bool" where
  "trim_dev_ok k device \<longleftrightarrow>
     k \<le> 20 \<and> nvm_sector_size (dev_caps device) = 2 ^ k \<and> 0 < max_trim_size device \<and>
     2 ^ k dvd max_trim_size device \<and> max_trim_size device \<le> 2 ^ 63 \<and> 0 < nvm_max_num_iovs (dev_caps device)"

definition trim_sectors :: "nat \<Rightarrow> nvm_kv_store_device \<Rightarrow> nat" where
  "trim_sectors k device = max_trim_size device div 2 ^ k"

lemma trim_step:
  assumes "trim_dev_ok k device" and "2 ^ k dvd r" and "0 < r"
    and "unat lba + t * trim_sectors k device + r div 2 ^ k < 2 ^ 64"
  defines "d \<equiv> min r (max_trim_size device)"
  shows "iov_range (2 ^ k) (trim_iov (lba + of_nat (t * trim_sectors k device)) (rnd d (2 ^ k))) =
           {unat lba + t * trim_sectors k device ..< unat lba + t * trim_sectors k device + d div 2 ^ k}"
    and "2 ^ k dvd d" and "rnd d (2 ^ k) = d"
proof -
  show dvd: "2 ^ k dvd d" using assms(1,2) by (simp add: d_def trim_dev_ok_def min_def)
  have "(2::nat) ^ k \<le> 2 ^ 20" using assms(1) by (intro power_increasing) (simp_all add: trim_dev_ok_def)
  moreover have "d \<le> 2 ^ 63" using assms(1) by (simp add: d_def trim_dev_ok_def min_le_iff_disj)
  ultimately have "d + 2 ^ k \<le> 2 ^ 64" by simp
  then show rd: "rnd d (2 ^ k) = d"
    using assms(1) dvd by (intro rnd_multiple) (simp_all add: trim_dev_ok_def)
  have "unat (lba + of_nat (t * trim_sectors k device)) = unat lba + t * trim_sectors k device"
    using assms(4) by (intro unat_plus_of_nat) simp
  then show "iov_range (2 ^ k) (trim_iov (lba + of_nat (t * trim_sectors k device)) (rnd d (2 ^ k))) =
           {unat lba + t * trim_sectors k device ..< unat lba + t * trim_sectors k device + d div 2 ^ k}"
    by (simp only: iov_range_trim rd)
qed

definition fill_ok ::
  "nat \<Rightarrow> nvm_kv_store_device \<Rightarrow> u64 \<Rightarrow> nat \<Rightarrow> nat \<Rightarrow> nvm_iovec list \<times> nat \<times> nat \<Rightarrow> bool" where
  "fill_ok k device lba t r res \<longleftrightarrow>
     (case res of (iovs, t', r') \<Rightarrow>
        (let first = unat lba + t * trim_sectors k device; last = first + (r - r') div 2 ^ k in
         r' < r \<and> 2 ^ k dvd r' \<and> (r' \<noteq> 0 \<longrightarrow> t' * trim_sectors k device = t * trim_sectors k device + (r - r') div 2 ^ k) \<and>
         (\<forall>s. foldl (apply_iov (2 ^ k)) s iovs = trim_set s {first ..< last}) \<and>
         disjoint_iovs (2 ^ k) iovs \<and> (\<forall>x \<in> set iovs. iov_range (2 ^ k) x \<subseteq> {first ..< last})))"

lemma trim_fill_spec:
  "trim_dev_ok k device \<Longrightarrow> 2 ^ k dvd r \<Longrightarrow> 0 < r \<Longrightarrow>
   unat lba + t * trim_sectors k device + r div 2 ^ k < 2 ^ 64 \<Longrightarrow>
   fill_ok k device lba t r (trim_fill device lba c t r)"
proof (induction device lba c t r rule: trim_fill.induct)
  case (1 device lba c t r)
  let ?M = "max_trim_size device" and ?q = "trim_sectors k device"
  define d where "d = min r ?M"
  let ?first = "unat lba + t * ?q"
  let ?iov = "trim_iov (lba + of_nat (t * ?q)) (rnd d (2 ^ k))"
  note st = trim_step [OF "1.prems", folded d_def]
  have dev: "nvm_sector_size (dev_caps device) = 2 ^ k" "0 < ?M" "2 ^ k dvd ?M"
    using "1.prems"(1) by (simp_all add: trim_dev_ok_def)
  have q: "?M div nvm_sector_size (dev_caps device) = ?q" by (simp add: trim_sectors_def dev)
  have tmp: "(if r > ?M then ?M else r) = d" by (simp add: d_def min_def)
  have dpos: "0 < d" "d \<le> r" using "1.prems"(3) dev(2) by (simp_all add: d_def)
  have dd: "2 ^ k dvd r - d" using st(2) "1.prems"(2) by (simp add: dvd_diff_nat)
  have app: "apply_iov (2 ^ k) s ?iov = trim_set s {?first ..< ?first + d div 2 ^ k}" for s
    using st(1) by (simp add: apply_trim_iov iov_range_trim)
  note simps = trim_fill.simps [of device lba c t r, unfolded Let_def tmp q, unfolded dev(1)]
  show ?case
  proof (cases "Suc c < nvm_max_num_iovs (dev_caps device) \<and> r - d \<noteq> 0")
    case False
    then have eq: "trim_fill device lba c t r = ([?iov], Suc t, r - d)"
      by (simp only: simps if_False)
    have "d = ?M" if "r - d \<noteq> 0" using that by (simp add: d_def min_def split: if_splits)
    then have "r - d \<noteq> 0 \<longrightarrow> Suc t * ?q = t * ?q + d div 2 ^ k" by (simp add: trim_sectors_def)
    then show ?thesis
      unfolding eq fill_ok_def using dpos dd st(1) app by (simp add: Let_def)
  next
    case True
    then have full: "d = ?M" by (simp add: d_def min_def split: if_splits)
    obtain iovs t' r' where rec: "trim_fill device lba (Suc c) (Suc t) (r - d) = (iovs, t', r')"
      by (metis prod_cases3)
    have eq: "trim_fill device lba c t r = (?iov # iovs, t', r')"
      using True rec by (simp add: simps del: One_nat_def)
    have dq: "d div 2 ^ k = ?q" by (simp add: full trim_sectors_def)
    have split: "d div 2 ^ k + (r - d) div 2 ^ k = r div 2 ^ k"
      using div_add [OF st(2) dd] dpos(2) by simp
    have "unat lba + Suc t * ?q + (r - d) div 2 ^ k < 2 ^ 64"
      using "1.prems"(4) split dq by simp
    then have "fill_ok k device lba (Suc t) (r - d) (iovs, t', r')"
      using "1.IH"[OF refl refl, of d] True "1.prems"(1) dd rec tmp q
      by (simp add: Let_def)
    then have IH: "r' < r - d" "2 ^ k dvd r'"
      "r' \<noteq> 0 \<Longrightarrow> t' * ?q = Suc t * ?q + (r - d - r') div 2 ^ k"
      "\<And>s. foldl (apply_iov (2 ^ k)) s iovs =
         trim_set s {?first + ?q ..< ?first + ?q + (r - d - r') div 2 ^ k}"
      "disjoint_iovs (2 ^ k) iovs"
      "\<forall>x \<in> set iovs. iov_range (2 ^ k) x \<subseteq> {?first + ?q ..< ?first + ?q + (r - d - r') div 2 ^ k}"
      by (simp_all add: fill_ok_def Let_def algebra_simps)
    have dvd': "2 ^ k dvd r - d - r'" using dd IH(2) by (rule dvd_diff_nat)
    have "r - r' = d + (r - d - r')" using IH(1) dpos by simp
    then have len: "(r - r') div 2 ^ k = ?q + (r - d - r') div 2 ^ k"
      using div_add [OF st(2) dvd'] dq by simp
    show ?thesis
      unfolding eq fill_ok_def prod.case Let_def len
    proof (intro conjI allI impI ballI)
      show "r' < r" using IH(1) by simp
      show "2 ^ k dvd r'" by (rule IH(2))
      show "t' * ?q = t * ?q + (?q + (r - d - r') div 2 ^ k)" if "r' \<noteq> 0"
        using IH(3) [OF that] by simp
      show "foldl (apply_iov (2 ^ k)) s (?iov # iovs) = trim_set s {?first ..< ?first + (?q + (r - d - r') div 2 ^ k)}" for s
      proof -
        have "{?first ..< ?first + ?q} \<union> {?first + ?q ..< ?first + ?q + (r - d - r') div 2 ^ k} =
          {?first ..< ?first + (?q + (r - d - r') div 2 ^ k)}" by auto
        then show ?thesis using IH(4) app dq by (simp add: trim_set_union)
      qed
      show "disjoint_iovs (2 ^ k) (?iov # iovs)"
        using IH(5,6) st(1) dq by (fastforce simp: list_all_iff)
      show "iov_range (2 ^ k) x \<subseteq> {?first ..< ?first + (?q + (r - d - r') div 2 ^ k)}"
        if "x \<in> set (?iov # iovs)" for x
        using that IH(6) st(1) dq by fastforce
    qed
  qed
qed

lemma trim_fill_all:
  "c < nvm_max_num_iovs (dev_caps device) \<Longrightarrow>
   r \<le> (nvm_max_num_iovs (dev_caps device) - c) * max_trim_size device \<Longrightarrow>
   snd (snd (trim_fill device lba c t r)) = 0"
proof (induction device lba c t r rule: trim_fill.induct)
  case (1 device lba c t r)
  let ?N = "nvm_max_num_iovs (dev_caps device)" and ?M = "max_trim_size device"
  define d where "d = (if r > ?M then ?M else r)"
  note simps = trim_fill.simps [of device lba c t r, unfolded Let_def, folded d_def]
  show ?case
  proof (cases "Suc c < ?N \<and> r - d \<noteq> 0")
    case False
    have "r - d = 0"
    proof (rule ccontr)
      assume ne: "r - d \<noteq> 0"
      then have "?N - c = 1" using False "1.prems"(1) by simp
      then have "r \<le> ?M" using "1.prems"(2) by simp
      then show False using ne by (simp add: d_def)
    qed
    then show ?thesis using False by (simp only: simps if_False) simp
  next
    case True
    have "?N - c = Suc (?N - Suc c)" using "1.prems"(1) by simp
    then have "r \<le> ?M + (?N - Suc c) * ?M" using "1.prems"(2) by simp
    moreover have "r - d \<le> r - ?M" by (simp add: d_def)
    ultimately have "r - d \<le> (?N - Suc c) * ?M" by linarith
    then have "snd (snd (trim_fill device lba (Suc c) (Suc t) (r - d))) = 0"
      using "1.IH" [OF refl refl d_def refl refl] True by simp
    then show ?thesis using True by (auto simp: simps split: prod.split)
  qed
qed

definition status_law :: "'w nvm_env \<Rightarrow> nvm_kv_store_device \<Rightarrow> bool" where
  "status_law E dev \<longleftrightarrow> (\<forall>iovs w. fst (env_batch_atomic E (dev_handle dev) iovs w) \<le> 0)"

lemma nvm_writev_status:
  assumes "status_law E dev" and "nvm_writev E dev iovec n True w = (r, w')"
  shows "r = Inr 0 \<or> r = Inl NVM_ERR_IO"
proof -
  obtain rc w'' where b: "env_batch_atomic E (dev_handle dev) (take n iovec) w = (rc, w'')" by force
  then have "rc \<le> 0" using assms(1) unfolding status_law_def by (metis fst_conv)
  then show ?thesis using assms(2) b by (auto simp: nvm_writev_def Let_def split: if_splits)
qed

definition trimmed_to ::
  "('w \<Rightarrow> sectors) \<Rightarrow> nat \<Rightarrow> nat \<Rightarrow> bool \<Rightarrow> 'w \<Rightarrow> (unit res \<times> 'w) option \<Rightarrow> bool" where
  "trimmed_to view first n one_batch w res \<longleftrightarrow>
     (\<exists>r w' p. res = Some (r, w') \<and> p \<le> n \<and> view w' = trim_set (view w) {first ..< first + p} \<and>
        (case r of Inr _ \<Rightarrow> p = n | Inl e \<Rightarrow> e = NVM_ERR_IO \<and> (one_batch \<longrightarrow> p = 0)))"

lemma trimmed_toE:
  assumes "trimmed_to view first n ob w res"
  obtains r w' p where "res = Some (r, w')" "p \<le> n" "view w' = trim_set (view w) {first ..< first + p}"
    "\<And>u. r = Inr u \<Longrightarrow> p = n" "\<And>e. r = Inl e \<Longrightarrow> e = NVM_ERR_IO \<and> (ob \<longrightarrow> p = 0)"
  using assms unfolding trimmed_to_def by (fastforce split: sum.splits)

lemma trimmed_toI:
  assumes "res = Some (r, w')" and "p \<le> n" and "view w' = trim_set (view w) {first ..< first + p}"
    and "\<And>u. r = Inr u \<Longrightarrow> p = n" and "\<And>e. r = Inl e \<Longrightarrow> e = NVM_ERR_IO \<and> (ob \<longrightarrow> p = 0)"
  shows "trimmed_to view first n ob w res"
  unfolding trimmed_to_def using assms
  by (intro exI [of _ r] exI [of _ w'] exI [of _ p]) (simp split: sum.split)

lemma delete_range_loop_spec:
  assumes dev: "trim_dev_ok k device" and laws: "batch_law E device view" "status_law E device"
  shows "2 ^ k dvd r \<Longrightarrow> 0 < r \<Longrightarrow> unat lba + t * trim_sectors k device + r div 2 ^ k < 2 ^ 64 \<Longrightarrow>
    trimmed_to view (unat lba + t * trim_sectors k device) (r div 2 ^ k)
      (r \<le> nvm_max_num_iovs (dev_caps device) * max_trim_size device) w
      (delete_range_loop E device lba t r w)"
proof (induction r arbitrary: t w rule: less_induct)
  case (less r)
  let ?q = "trim_sectors k device" and ?ob = "r \<le> nvm_max_num_iovs (dev_caps device) * max_trim_size device"
  let ?first = "unat lba + t * ?q"
  obtain iovs t' r' where fill: "trim_fill device lba 0 t r = (iovs, t', r')" by (metis prod_cases3)
  have "fill_ok k device lba t r (iovs, t', r')"
    using trim_fill_spec [OF dev less.prems, of 0] fill by simp
  then have f: "r' < r" "2 ^ k dvd r'" "r' \<noteq> 0 \<Longrightarrow> t' * ?q = t * ?q + (r - r') div 2 ^ k"
    "\<And>s. foldl (apply_iov (2 ^ k)) s iovs = trim_set s {?first ..< ?first + (r - r') div 2 ^ k}"
    "disjoint_iovs (2 ^ k) iovs"
    by (simp_all add: fill_ok_def Let_def)
  have ss: "nvm_sector_size (dev_caps device) = 2 ^ k" using dev by (simp add: trim_dev_ok_def)
  have one: "r' = 0" if "?ob"
    using trim_fill_all [of 0 device r lba t] that fill dev by (simp add: trim_dev_ok_def)
  obtain x w1 where wr: "nvm_writev E device iovs (length iovs) True w = (x, w1)" by force
  have eq: "delete_range_loop E device lba t r w =
    (if x \<noteq> Inr 0 then Some (Inl NVM_ERR_IO, w1)
     else if r' \<noteq> 0 then delete_range_loop E device lba t' r' w1 else Some (Inr (), w1))"
    by (simp add: delete_range_loop.simps [of E device lba t r w] fill wr)
  have part: "(r - r') div 2 ^ k + r' div 2 ^ k = r div 2 ^ k"
    using div_add [of "2 ^ k" "r - r'" r'] f(1,2) less.prems(1) by (simp add: dvd_diff_nat)
  show ?case
  proof (cases "x = Inr 0")
    case False
    then obtain e where "x = Inl e" using nvm_writev_status [OF laws(2) wr] by blast
    then have "view w1 = view w" using nvm_writev_atomic_fail [OF laws(1)] wr by metis
    then show ?thesis
      unfolding eq trimmed_to_def using False by (intro exI [of _ "Inl NVM_ERR_IO"] exI [of _ w1] exI [of _ 0]) simp
  next
    case True
    have v1: "view w1 = trim_set (view w) {?first ..< ?first + (r - r') div 2 ^ k}"
      using nvm_writev_atomic_ok [OF laws(1), of iovs "length iovs" w 0 w1] wr True ss f(4,5) by simp
    show ?thesis
    proof (cases "r' = 0")
      case True
      then show ?thesis
        unfolding eq trimmed_to_def using v1 \<open>x = Inr 0\<close>
        by (intro exI [of _ "Inr ()"] exI [of _ w1] exI [of _ "r div 2 ^ k"]) simp
    next
      case False
      have t': "unat lba + t' * ?q = ?first + (r - r') div 2 ^ k" using f(3) [OF False] by simp
      then have "unat lba + t' * ?q + r' div 2 ^ k < 2 ^ 64" using less.prems(3) part by simp
      from less.IH [OF f(1,2) _ this, of w1] False
      have rec: "trimmed_to view (unat lba + t' * ?q) (r' div 2 ^ k)
          (r' \<le> nvm_max_num_iovs (dev_caps device) * max_trim_size device) w1
          (delete_range_loop E device lba t' r' w1)" by simp
      obtain y w2 p where
        y: "delete_range_loop E device lba t' r' w1 = Some (y, w2)" "p \<le> r' div 2 ^ k"
          "view w2 = trim_set (view w1) {unat lba + t' * ?q ..< unat lba + t' * ?q + p}"
          "\<And>u. y = Inr u \<Longrightarrow> p = r' div 2 ^ k" "\<And>e. y = Inl e \<Longrightarrow> e = NVM_ERR_IO"
        using trimmed_toE [OF rec] by metis
      have "{?first ..< ?first + (r - r') div 2 ^ k} \<union>
          {?first + (r - r') div 2 ^ k ..< ?first + (r - r') div 2 ^ k + p} =
        {?first ..< ?first + ((r - r') div 2 ^ k + p)}" by auto
      then have "view w2 = trim_set (view w) {?first ..< ?first + ((r - r') div 2 ^ k + p)}"
        unfolding y(3) v1 t' by (simp add: trim_set_union)
      moreover have "\<not> ?ob" using one False by blast
      ultimately show ?thesis
        unfolding eq using y(1,2,4,5) part False \<open>x = Inr 0\<close>
        by (intro trimmed_toI [of _ y w2 "(r - r') div 2 ^ k + p"]) auto
    qed
  qed
qed

lemma delete_range_spec:
  assumes "trim_dev_ok k (get_store_device st)" and "batch_law E (get_store_device st) view"
    and "status_law E (get_store_device st)" and "alloc_law E"
    and "0 < n" and "unat lba + n < 2 ^ 64"
  shows "trimmed_to view (unat lba) n
      (n * 2 ^ k \<le> nvm_max_num_iovs (dev_caps (get_store_device st)) * max_trim_size (get_store_device st)) w
      (delete_range E st lba n w)"
proof -
  obtain iovs where "env_new_iovs E w (nvm_max_num_iovs (dev_caps (get_store_device st))) = Some iovs"
    using assms(4) unfolding alloc_law_def by blast
  then have eq: "delete_range E st lba n w = delete_range_loop E (get_store_device st) lba 0 (n * 2 ^ k) w"
    using assms(1) by (simp add: delete_range_def get_sector_size_def trim_dev_ok_def)
  show ?thesis
    unfolding eq using delete_range_loop_spec [OF assms(1-3), of "n * 2 ^ k" lba 0 w] assms(5,6) by simp
qed

section \<open>The queue of expired addresses\<close>

definition block_ok :: "nat \<Rightarrow> nvm_iovec list \<Rightarrow> bool" where
  "block_ok max_iovecs block \<longleftrightarrow>
     block \<noteq> [] \<and> length block \<le> max_iovecs \<and> distinct (map iov_lba block) \<and>
     list_all (\<lambda>iov. iov_opcode iov = NVM_IOV_TRIM) block"

definition queue_ok :: "nat \<Rightarrow> nvm_iovec list list \<Rightarrow> bool" where
  "queue_ok max_iovecs queue \<longleftrightarrow>
     list_all (block_ok max_iovecs) queue \<and> list_all (\<lambda>b. length b = max_iovecs) (butlast queue)"

lemma queue_ok_nil: "queue_ok n []"
  by (simp add: queue_ok_def)

lemma queue_ok_snoc:
  "queue_ok n (q @ [b]) \<longleftrightarrow> list_all (block_ok n) q \<and> list_all (\<lambda>b. length b = n) q \<and> block_ok n b"
  by (auto simp: queue_ok_def)

lemma queue_ok_tl: "queue_ok n (b # q) \<Longrightarrow> queue_ok n q"
  by (cases q) (auto simp: queue_ok_def)

lemma queue_ok_full:
  "queue_ok n q \<Longrightarrow> \<not> queue_has_room n q \<Longrightarrow> list_all (block_ok n) q \<and> list_all (\<lambda>b. length b = n) q"
  by (cases q rule: rev_cases) (auto simp: queue_ok_def queue_has_room_def)

lemma trim_iov_fields [simp]: "iov_lba (trim_iov lba len) = lba" "iov_opcode (trim_iov lba len) = NVM_IOV_TRIM"
  by (simp_all add: trim_iov_def)

lemma update_queue_cases:
  fixes st :: nvm_kv_store and E :: "'w nvm_env"
  defines "n \<equiv> nvm_max_num_iovs (dev_caps (get_store_device st))"
  assumes "0 < n" and "queue_ok n (st_queue st)" and "alloc_law E"
    and "update_expiry_queue E loc hdr st w = (r, wake, st')"
  obtains (known) "st' = st" "\<exists>iov \<in> set (last (st_queue st)). iov_lba iov = loc" "st_queue st \<noteq> []" "\<not> wake"
    | (fresh) q b where "st' = st\<lparr>st_queue := q @ [b @ [trim_iov loc (expiry_trim_len hdr (get_sector_size st))]]\<rparr>"
        "concat (st_queue st) = concat q @ b" "queue_ok n (st_queue st')"
        "wake \<longleftrightarrow> length (hd (st_queue st')) = n"
proof -
  have some: "env_new_iovs E w n \<noteq> None"
    using assms(4) unfolding alloc_law_def by (metis option.distinct(1))
  note upd = assms(5) [unfolded update_expiry_queue_def Let_def, folded n_def]
  show thesis
  proof (cases "queue_has_room n (st_queue st)")
    case False
    let ?b = "[trim_iov loc (expiry_trim_len hdr (get_sector_size st))]"
    have e: "st' = st\<lparr>st_queue := st_queue st @ [?b]\<rparr>" "wake \<longleftrightarrow> length (hd (st_queue st @ [?b])) = n"
      using upd False some by simp_all
    have "block_ok n ?b" using assms(2) by (simp add: block_ok_def)
    then have "queue_ok n (st_queue st @ [?b])"
      using queue_ok_full [OF assms(3) False] by (simp add: queue_ok_snoc)
    then show thesis using e by (intro fresh [of "st_queue st" "[]"]) simp_all
  next
    case True
    then obtain q b where q: "st_queue st = q @ [b]" "length b \<noteq> n"
      by (cases "st_queue st" rule: rev_cases) (auto simp: queue_has_room_def)
    show thesis
    proof (cases "\<exists>iov \<in> set b. iov_lba iov = loc")
      case True
      have "st' = st" "\<not> wake"
        using upd True \<open>queue_has_room n (st_queue st)\<close> q by (cases st; auto)+
      then show thesis using True q by (intro known) simp_all
    next
      case new: False
      let ?b = "b @ [trim_iov loc (expiry_trim_len hdr (get_sector_size st))]"
      have "\<not> (\<exists>iov \<in> set (last (st_queue st)). iov_lba iov = loc)" using new q by simp
      then have e: "st' = st\<lparr>st_queue := butlast (st_queue st) @ [last (st_queue st) @
          [trim_iov loc (expiry_trim_len hdr (get_sector_size st))]]\<rparr>"
        "wake \<longleftrightarrow> length (hd (butlast (st_queue st) @ [last (st_queue st) @
          [trim_iov loc (expiry_trim_len hdr (get_sector_size st))]])) = n"
        using upd \<open>queue_has_room n (st_queue st)\<close> by simp_all
      have ok: "list_all (block_ok n) q \<and> list_all (\<lambda>b. length b = n) q \<and> block_ok n b"
        using assms(3) unfolding q(1) queue_ok_snoc .
      then have "block_ok n ?b" using q(2) new by (auto simp: block_ok_def)
      then have "queue_ok n (q @ [?b])" using ok by (simp add: queue_ok_snoc)
      then show thesis using e q by (intro fresh [of q b]) simp_all
    qed
  qed
qed

section \<open>Batched deletion of free addresses\<close>

lemma insert_lba_free:
  "lba \<notin> st_safe st \<Longrightarrow>
   insert_lba_to_safe_list oth lba st w = (False, st\<lparr>st_safe := insert lba (st_safe st)\<rparr>, w)"
  by (simp add: insert_lba_to_safe_list_def)

lemma delete_lba_inserted:
  "lba \<notin> S \<Longrightarrow> st_safe st = S \<Longrightarrow>
   delete_lba_from_safe_list lba (st\<lparr>st_safe := insert lba S\<rparr>) = st"
  by (cases st) (auto simp: delete_lba_from_safe_list_def delete_entry_def)

lemma safe_insert_all_free:
  "distinct (map iov_lba iovs) \<Longrightarrow> \<forall>iov \<in> set iovs. iov_lba iov \<notin> st_safe st \<Longrightarrow>
   safe_insert_all oth iovs st w = (st\<lparr>st_safe := iov_lba ` set iovs \<union> st_safe st\<rparr>, w)"
proof (induction iovs arbitrary: st)
  case Nil
  then show ?case by simp
next
  case (Cons iov iovs)
  then have "\<forall>x \<in> set iovs. iov_lba x \<notin> st_safe (st\<lparr>st_safe := insert (iov_lba iov) (st_safe st)\<rparr>)"
    by (auto simp: image_iff)
  with Cons show ?case by (auto simp: insert_lba_free)
qed

lemma safe_delete_all:
  "foldl (\<lambda>st iov. delete_lba_from_safe_list (iov_lba iov) st) st iovs =
   st\<lparr>st_safe := st_safe st - iov_lba ` set iovs\<rparr>"
proof (induction iovs arbitrary: st)
  case Nil
  then show ?case by simp
next
  case (Cons iov iovs)
  have "delete_lba_from_safe_list (iov_lba iov) st = st\<lparr>st_safe := st_safe st - {iov_lba iov}\<rparr>"
    by (auto simp: delete_lba_from_safe_list_def delete_entry_def)
  then show ?case using Cons by (simp add: set_diff_eq)
qed

lemma batch_delete_sync_free:
  assumes "distinct (map iov_lba iovs)" and "\<forall>iov \<in> set iovs. iov_lba iov \<notin> st_safe st"
  shows "batch_delete_sync E oth iovs from_cache st w =
    (let (r, w') = batch_delete E st iovs w
     in (r, st\<lparr>st_cache := (if from_cache then map_option (kv_cache_delete_lbas (map iov_lba iovs)) (st_cache st)
                           else st_cache st)\<rparr>, w'))"
proof -
  have dev: "batch_delete E (st\<lparr>st_safe := S\<rparr>) iovs w = batch_delete E st iovs w" for S
    by (simp add: batch_delete_def get_store_device_def)
  have diff: "iov_lba ` set iovs \<union> st_safe st - iov_lba ` set iovs = st_safe st" using assms(2) by auto
  have keep: "st\<lparr>st_cache := c, st_safe := st_safe st\<rparr> = st\<lparr>st_cache := c\<rparr>"
    "st\<lparr>st_safe := st_safe st, st_cache := c\<rparr> = st\<lparr>st_cache := c\<rparr>" for c
    by (cases st; simp)+
  show ?thesis
    unfolding batch_delete_sync_def safe_insert_all_free [OF assms] safe_delete_all
    by (simp add: dev diff keep Let_def split: prod.split)
qed

section \<open>A store on the simulated device\<close>

definition sim_pm :: nvm_kv_pool_mgr where
  "sim_pm = demo_pm\<lparr>pm_device := sim_device\<rparr>"

definition sim_store :: nvm_kv_store where
  "sim_store =
     \<lparr>st_pm = sim_pm, st_cache = None, st_safe = {}, st_del_sectors = 4096, st_exp_status = False,
      st_queue = []\<rparr>"

lemma sim_store_device [simp]: "get_store_device sim_store = sim_device"
  by (simp add: get_store_device_def sim_store_def sim_pm_def)

lemma sim_trim_ok: "trim_dev_ok 9 sim_device"
  by (simp add: trim_dev_ok_def max_trim_size_def sim_device_def sim_caps_def dvd_def)

lemma sim_status: "status_law sim_env sim_device"
  by (simp add: status_law_def sim_env_def)

lemma sim_batch: "batch_law sim_env sim_device (\<lambda>w. w)" and sim_alloc: "alloc_law sim_env"
  using sim_laws unfolding dev_laws_def by blast+

section \<open>Properties\<close>



text \<open>
  C31: the queue of expired addresses. Recording an address keeps every block at most a batch long,
  free of duplicate addresses and full except the last; it appends one trim vector at the end, or
  nothing when the last block already has the address; and it wakes the thread exactly when the
  block at the front has become full.
\<close>

theorem expiry_queue_fifo_without_duplicates:
  assumes "0 < nvm_max_num_iovs (dev_caps (get_store_device st))"
    and "queue_ok (nvm_max_num_iovs (dev_caps (get_store_device st))) (st_queue st)" and "alloc_law E"
    and "update_expiry_queue E loc hdr st w = (r, wake, st')"
  shows "r = Inr () \<and> queue_ok (nvm_max_num_iovs (dev_caps (get_store_device st))) (st_queue st') \<and>
    (concat (st_queue st') =
       concat (st_queue st) @ [trim_iov loc (expiry_trim_len hdr (get_sector_size st))] \<and>
     (wake \<longleftrightarrow> length (hd (st_queue st')) = nvm_max_num_iovs (dev_caps (get_store_device st))) \<or>
     st' = st \<and> \<not> wake \<and> loc \<in> iov_lba ` set (last (st_queue st)))"
proof -
  have "env_new_iovs E w (nvm_max_num_iovs (dev_caps (get_store_device st))) \<noteq> None"
    using assms(3) unfolding alloc_law_def by (metis option.distinct(1))
  then have "r = Inr ()" using assms(4) by (auto simp: update_expiry_queue_def Let_def split: if_splits)
  with assms(2) show ?thesis by (auto intro: update_queue_cases [OF assms])
qed

theorem expiry_queue_fifo_without_duplicates_witness:
  "\<exists>r wake st'. update_expiry_queue sim_env 4096 (load_header []) sim_store (\<lambda>n. None) = (r, wake, st') \<and>
     r = Inr () \<and> queue_ok 8 (st_queue st') \<and>
     concat (st_queue st') = [trim_iov 4096 (expiry_trim_len (load_header []) 512)]"
proof -
  obtain r wake st' where u: "update_expiry_queue sim_env 4096 (load_header []) sim_store (\<lambda>n. None) = (r, wake, st')"
    by (metis prod_cases3)
  have n: "nvm_max_num_iovs (dev_caps (get_store_device sim_store)) = 8" "st_queue sim_store = []"
    "get_sector_size sim_store = 512"
    by (simp_all add: sim_store_def get_sector_size_def) (simp_all add: sim_device_def sim_caps_def get_store_device_def sim_pm_def)
  have "r = Inr () \<and> queue_ok 8 (st_queue st') \<and>
    (concat (st_queue st') = [trim_iov 4096 (expiry_trim_len (load_header []) 512)] \<or> st' = sim_store)"
    using expiry_queue_fifo_without_duplicates [OF _ _ sim_alloc u] n by (auto simp: queue_ok_nil)
  moreover have "st_queue st' \<noteq> []"
    using u n by (auto simp: update_expiry_queue_def queue_has_room_def Let_def sim_env_def)
  ultimately show ?thesis using u n(2) by auto
qed

text \<open>
  One round of the expiry thread. It waits unless the block at the front is full; then it pops
  exactly that block, and, when none of its addresses is being written, hands the whole block to
  the device in one batch without waiting on an address twice: on success every range of the block
  is trimmed, on an error no sector changes, and in both cases the addresses leave the cache and
  the safe list is as before.
\<close>

theorem async_expiry_step_trims_block:
  assumes "queue_ok (nvm_max_num_iovs (dev_caps (get_store_device st))) (block # queue)"
    and "st_queue st = block # queue" and "length block = nvm_max_num_iovs (dev_caps (get_store_device st))"
    and "\<forall>iov \<in> set block. iov_lba iov \<notin> st_safe st"
    and "batch_law E (get_store_device st) view" and "status_law E (get_store_device st)"
    and "disjoint_iovs (nvm_sector_size (dev_caps (get_store_device st))) block"
  shows "\<exists>r st' w'. async_expiry_step E oth st w = Some (r, st', w') \<and>
    st_queue st' = queue \<and> st_safe st' = st_safe st \<and>
    st_cache st' = map_option (kv_cache_delete_lbas (map iov_lba block)) (st_cache st) \<and>
    (case r of
       Inr _ \<Rightarrow> view w' = foldl (apply_iov (nvm_sector_size (dev_caps (get_store_device st)))) (view w) block
     | Inl e \<Rightarrow> e = NVM_ERR_IO \<and> view w' = view w)"
proof -
  let ?dev = "get_store_device st"
  let ?st = "st\<lparr>st_queue := queue\<rparr>"
  have dev: "get_store_device ?st = ?dev" by (simp add: get_store_device_def)
  obtain x w1 where wr: "nvm_writev E ?dev block (length block) True w = (x, w1)" by force
  have "distinct (map iov_lba block)" using assms(1) by (simp add: queue_ok_def block_ok_def)
  then have b: "batch_delete_sync E oth block True ?st w =
    (if x = Inr 0 then Inr () else Inl NVM_ERR_IO,
     ?st\<lparr>st_cache := map_option (kv_cache_delete_lbas (map iov_lba block)) (st_cache st)\<rparr>, w1)"
    using batch_delete_sync_free [of block ?st E oth True w] assms(4)
    by (simp add: batch_delete_def dev wr)
  have "async_expiry_step E oth st w = Some (batch_delete_sync E oth block True ?st w)"
    using assms(2,3) by (simp add: async_expiry_step_def Let_def)
  moreover have "x = Inr 0 \<or> x = Inl NVM_ERR_IO" by (rule nvm_writev_status [OF assms(6) wr])
  ultimately show ?thesis
    using b nvm_writev_atomic_fail [OF assms(5)] nvm_writev_atomic_ok [OF assms(5)] assms(7) wr by auto
qed

theorem async_expiry_step_trims_block_witness:
  "\<exists>r st' w'. async_expiry_step sim_env (\<lambda>l s. s)
       (sim_store\<lparr>st_queue := [map (\<lambda>i. trim_iov (of_nat (4096 * i)) 1024) [1..<9]]\<rparr>)
       (\<lambda>n. Some (zeros 512)) = Some (r, st', w') \<and>
     st_queue st' = [] \<and> st_safe st' = {} \<and> (r = Inr () \<longrightarrow> w' 4097 = None)"
proof -
  define block where "block = map (\<lambda>i. trim_iov (of_nat (4096 * i)) 1024) [1..<9::nat]"
  define st where "st = sim_store\<lparr>st_queue := [block]\<rparr>"
  have b: "block = [trim_iov 4096 1024, trim_iov 8192 1024, trim_iov 12288 1024, trim_iov 16384 1024,
      trim_iov 20480 1024, trim_iov 24576 1024, trim_iov 28672 1024, trim_iov 32768 1024]"
    by (simp add: block_def upt_rec)
  have dev: "get_store_device st = sim_device"
    by (simp add: st_def get_store_device_def sim_store_def sim_pm_def)
  have n: "nvm_max_num_iovs (dev_caps sim_device) = 8" "nvm_sector_size (dev_caps sim_device) = 512"
    by (simp_all add: sim_device_def sim_caps_def)
  have q: "queue_ok 8 (block # [])" by (simp add: queue_ok_def block_ok_def b)
  have d: "disjoint_iovs 512 block" by (simp add: b iov_range_trim)
  have s: "st_queue st = block # []" "st_safe st = {}" by (simp_all add: st_def sim_store_def)
  have len: "length block = 8" by (simp add: b)
  have "\<exists>r st' w'. async_expiry_step sim_env (\<lambda>l s. s) st (\<lambda>n. Some (zeros 512)) = Some (r, st', w') \<and>
    st_queue st' = [] \<and> st_safe st' = {} \<and>
    st_cache st' = map_option (kv_cache_delete_lbas (map iov_lba block)) (st_cache st) \<and>
    (case r of Inr _ \<Rightarrow> w' = foldl (apply_iov 512) (\<lambda>n. Some (zeros 512)) block
     | Inl e \<Rightarrow> e = NVM_ERR_IO \<and> w' = (\<lambda>n. Some (zeros 512)))"
    using async_expiry_step_trims_block [of st block "[]" sim_env "\<lambda>w. w" "\<lambda>l s. s" "\<lambda>n. Some (zeros 512)"]
      q s d len sim_batch sim_status unfolding dev n by simp
  then obtain r st' w' where r: "async_expiry_step sim_env (\<lambda>l s. s) st (\<lambda>n. Some (zeros 512)) = Some (r, st', w')"
    "st_queue st' = []" "st_safe st' = {}"
    "case r of Inr _ \<Rightarrow> w' = foldl (apply_iov 512) (\<lambda>n. Some (zeros 512)) block
     | Inl e \<Rightarrow> e = NVM_ERR_IO \<and> w' = (\<lambda>n. Some (zeros 512))" by blast
  have "foldl (apply_iov 512) (\<lambda>n. Some (zeros 512)) block 4097 = None"
    by (simp add: b apply_trim_iov trim_set_def)
  then show ?thesis using r unfolding st_def block_def by (auto split: sum.splits)
qed

end
