(* ===== verification/Media.thy ===== *)
theory Media
  imports Store
begin

text \<open>
  The internal routines of \<open>src/kv_store_mgr.cpp\<close> that sit between the interface calls
  and the device: parameter validation, the buffer and the vectors of a write, the search for the
  address of a key, the read of a key-value pair, and the check for expiry.

  A user value is an address with the memory behind it: a function from offsets to bytes for a
  value that is read (the code rounds its length up to sectors, so it can read past the end), the
  bytes of the buffer for a value that is written. Lengths are naturals; validation bounds them,
  so that the sums of the C++ code do not wrap.
\<close>

definition M_MAX_COLLISION :: nat where "M_MAX_COLLISION = 8"

record user_value =
  uv_addr :: u64
  uv_mem :: "nat \<Rightarrow> u8"

section \<open>Validation\<close>

definition validate_pool :: "nvm_kv_api \<Rightarrow> int \<Rightarrow> nvm_kv_store \<Rightarrow> bool" where
  "validate_pool api pool_id st \<longleftrightarrow>
     \<not> (api \<in> {KVGETPOOLMETADATA, KVPOOLDELETE} \<and> pool_id = uint get_default_poolid) \<and>
     (check_pool_status pool_id (st_pm st) = POOL_IN_USE \<or> pool_id = get_all_poolid)"

definition validate_key :: "bytes option \<Rightarrow> nat \<Rightarrow> bool" where
  "validate_key key key_len \<longleftrightarrow> key_len \<noteq> 0 \<and> key_len \<le> NVM_KV_MAX_KEY_SIZE \<and> key \<noteq> None"

definition validate_value :: "nvm_kv_api \<Rightarrow> bool \<Rightarrow> nat \<Rightarrow> nvm_kv_store \<Rightarrow> bool" where
  "validate_value api value_null value_len st \<longleftrightarrow>
     value_len \<noteq> 0 \<and> \<not> value_null \<and> value_len \<le> NVM_KV_MAX_VALUE_SIZE \<and>
     \<not> (api \<in> {KVGET, KVBATCHGET} \<and> value_len AND (get_sector_size st - 1) \<noteq> 0)"

definition validate_batch :: "bool \<Rightarrow> nat \<Rightarrow> bool" where
  "validate_batch iov_null iov_count \<longleftrightarrow> \<not> iov_null \<and> iov_count \<noteq> 0"

section \<open>Expiry of a key\<close>

definition header_expired :: "'w nvm_env \<Rightarrow> nvm_kv_store \<Rightarrow> nvm_kv_header \<Rightarrow> 'w \<Rightarrow> bool" where
  "header_expired E st hdr w \<longleftrightarrow>
     get_expiry st \<noteq> KV_DISABLE_EXPIRY \<and>
     (of_nat (env_time E w) :: u32) > md_expiry (hdr_metadata hdr) \<and> md_expiry (hdr_metadata hdr) \<noteq> 0"

definition kv_expire ::
  "'w nvm_env \<Rightarrow> nvm_kv_store \<Rightarrow> nvm_kv_header \<Rightarrow> u64 \<Rightarrow> bool \<Rightarrow> 'w \<Rightarrow> unit res \<times> nvm_kv_store" where
  "kv_expire E st hdr key_loc del_exp w =
     (if \<not> header_expired E st hdr w then (Inr (), st)
      else if \<not> del_exp then (Inl NVM_ERR_OBJECT_NOT_FOUND, st)
      else
        (case update_expiry_queue E key_loc hdr st w of
           (Inl e, _, st) \<Rightarrow> (Inl e, st)
         | (Inr _, _, st) \<Rightarrow> (Inl NVM_ERR_OBJECT_NOT_FOUND, st)))"

section \<open>The buffer of a write\<close>

definition kv_use_user_buf :: "nat \<Rightarrow> nat \<Rightarrow> bool" where
  "kv_use_user_buf sum_write_len sector_size = (\<not> sum_write_len \<le> sector_size)"

function sig_bits :: "nat \<Rightarrow> nat" where
  "sig_bits n = (if n \<noteq> 0 then Suc (sig_bits (n div 2)) else 0)"
  by pat_completeness auto
termination by (relation "measure id") auto

declare sig_bits.simps [simp del]

definition comp_sparse_addr_bits :: "u64 \<Rightarrow> u32 \<Rightarrow> int" where
  "comp_sparse_addr_bits device_size sector_size = int (sig_bits (unat device_size)) - int (sig_bits (unat sector_size))"

definition max_write_size :: "nvm_kv_store_device \<Rightarrow> nat" where
  "max_write_size device =
     nvm_atomic_write_multiplicity (dev_caps device) * nvm_max_write_size_per_iov (dev_caps device)"

record write_plan =
  wp_user :: bool
  wp_offset :: nat
  wp_buf_len :: nat
  wp_iov_len :: nat

definition plan_write :: "nat \<Rightarrow> u64 \<Rightarrow> nat \<Rightarrow> nat \<Rightarrow> write_plan" where
  "plan_write ss addr key_len value_len =
     (let sum_write_len = M_KV_HEADER_SIZE + key_len + value_len;
          user = kv_use_user_buf sum_write_len ss;
          misaligned = addr AND of_nat (ss - 1) \<noteq> 0;
          sum_write_len = (if user \<and> misaligned then ss + value_len else sum_write_len);
          user = (user \<and> \<not> misaligned)
      in if user
         then \<lparr>wp_user = True, wp_offset = ss, wp_buf_len = ss, wp_iov_len = rnd value_len ss\<rparr>
         else \<lparr>wp_user = False,
               wp_offset = (if misaligned \<and> sum_write_len > ss then ss else M_KV_HEADER_SIZE + key_len),
               wp_buf_len = rnd sum_write_len ss, wp_iov_len = rnd sum_write_len ss\<rparr>)"

definition plan_iovs :: "nvm_kv_store_device \<Rightarrow> write_plan \<Rightarrow> nat" where
  "plan_iovs device plan =
     (if wp_user plan then 1 else 0) +
     rnd (wp_iov_len plan) (max_write_size device) div max_write_size device"

text \<open>A maximal write size of zero divides by zero in the C++ code: \<open>None\<close>.\<close>

definition kv_alloc_for_write ::
  "'w nvm_env \<Rightarrow> nvm_kv_store_device \<Rightarrow> nat \<Rightarrow> u64 \<Rightarrow> nat \<Rightarrow> nvm_kv_buffer_pool \<Rightarrow> 'w \<Rightarrow>
   (unit res \<times> membuf option \<times> nat \<times> nat \<times> write_plan \<times> nvm_kv_buffer_pool) option" where
  "kv_alloc_for_write E device key_len addr value_len bufs w =
     (let plan = plan_write (nvm_sector_size (dev_caps device)) addr key_len value_len;
          iov_count = plan_iovs device plan
      in if max_write_size device = 0 then None
         else if iov_count > nvm_max_num_iovs (dev_caps device)
         then Some (Inl NVM_ERR_INVALID_INPUT, None, 0, iov_count, plan, bufs)
         else
           (case get_buf (env_memalign E w) (wp_buf_len plan) bufs of
              None \<Rightarrow> None
            | Some (buf, ret_buf_size, bufs) \<Rightarrow>
                Some (if ret_buf_size < wp_buf_len plan \<or> buf = None
                      then (Inl NVM_ERR_OUT_OF_MEMORY, buf, ret_buf_size, iov_count, plan, bufs)
                      else (Inr (), buf, ret_buf_size, iov_count, plan, bufs))))"

section \<open>The vectors of a write\<close>

definition fill_header ::
  "nat \<Rightarrow> u32 \<Rightarrow> nat \<Rightarrow> nat \<Rightarrow> nat \<Rightarrow> u32 \<Rightarrow> u32 \<Rightarrow> nvm_kv_header \<Rightarrow> nvm_kv_header" where
  "fill_header now pool_id key_len value_len value_offset expiry gen_count hdr =
     hdr\<lparr>hdr_metadata_len := 16,
         hdr_key_len := of_nat key_len,
         hdr_value_len := of_nat value_len,
         hdr_value_offset := of_nat value_offset,
         hdr_pool_id := pool_id,
         hdr_metadata :=
           \<lparr>md_num_key = 0, md_gen_count = gen_count,
            md_expiry = (if expiry = 0 then 0 else expiry + of_nat now)\<rparr>\<rparr>"

definition mem_bytes :: "(nat \<Rightarrow> u8) \<Rightarrow> nat \<Rightarrow> nat \<Rightarrow> bytes" where
  "mem_bytes mem off len = map (\<lambda>i. mem (off + i)) [0..<len]"

function write_iovs_loop ::
  "nvm_kv_store_device \<Rightarrow> (nat \<Rightarrow> nat \<Rightarrow> bytes) \<Rightarrow> u64 \<Rightarrow> u64 \<Rightarrow> nat \<Rightarrow> nat \<Rightarrow> nvm_iovec list option" where
  "write_iovs_loop device source base lba count remaining_len =
     (if remaining_len = 0 then Some []
      else if max_write_size device = 0 then None
      else
        (let max_write = max_write_size device;
             vector_size = (if remaining_len < max_write then remaining_len else max_write);
             iov = \<lparr>iov_base = base + of_nat (count * max_write), iov_len = vector_size,
                    iov_lba = lba + of_nat (count * (max_write div nvm_sector_size (dev_caps device))),
                    iov_opcode = NVM_IOV_WRITE, iov_data = source (count * max_write) vector_size\<rparr>
         in map_option ((#) iov)
              (write_iovs_loop device source base lba (Suc count) (remaining_len - vector_size))))"
  by pat_completeness auto
termination
  by (relation "measure (\<lambda>(d, s, b, l, c, r). r)") (auto simp: Let_def)

declare write_iovs_loop.simps [simp del]

definition write_buffer ::
  "nat \<Rightarrow> u32 \<Rightarrow> bytes \<Rightarrow> nat \<Rightarrow> user_value \<Rightarrow> nat \<Rightarrow> write_plan \<Rightarrow> u32 \<Rightarrow> u32 \<Rightarrow> bytes \<Rightarrow> bytes" where
  "write_buffer now pool_id key key_len value value_len plan expiry gen_count buf =
     (let hdr = fill_header now pool_id key_len value_len (wp_offset plan) expiry gen_count
                  (load_header buf);
          buf = store_header hdr buf;
          buf = memcpy M_KV_HEADER_SIZE (take key_len key) buf
      in if wp_user plan then buf
         else memcpy (wp_offset plan) (mem_bytes (uv_mem value) 0 value_len) buf)"

definition kv_process_for_write ::
  "'w nvm_env \<Rightarrow> nvm_kv_store_device \<Rightarrow> u32 \<Rightarrow> bytes \<Rightarrow> nat \<Rightarrow> user_value \<Rightarrow> nat \<Rightarrow> membuf \<Rightarrow>
   write_plan \<Rightarrow> u32 \<Rightarrow> u32 \<Rightarrow> u64 \<Rightarrow> 'w \<Rightarrow> (nvm_iovec list \<times> membuf \<times> u32) option" where
  "kv_process_for_write E device pool_id key key_len value value_len buf plan expiry gen_count
     key_hash_val w =
     (let ss = nvm_sector_size (dev_caps device);
          mem = write_buffer (env_time E w) pool_id key key_len value value_len plan expiry gen_count
                  (mb_mem buf);
          abs_expiry = (if expiry \<noteq> 0 then md_expiry (hdr_metadata (load_header mem)) else 0);
          first = \<lparr>iov_base = mb_addr buf, iov_len = ss, iov_lba = key_hash_val,
                   iov_opcode = NVM_IOV_WRITE, iov_data = take ss mem\<rparr>
      in map_option (\<lambda>iovs. (iovs, buf\<lparr>mb_mem := mem\<rparr>, abs_expiry))
           (if wp_user plan
            then map_option ((#) first)
                   (write_iovs_loop device (mem_bytes (uv_mem value)) (uv_addr value)
                      (key_hash_val + 1) 0 (rnd value_len ss))
            else write_iovs_loop device (\<lambda>off len. mem_read off len mem) (mb_addr buf)
                   key_hash_val 0 ss))"

definition kv_process_for_trim ::
  "nat \<Rightarrow> nat \<Rightarrow> u64 \<Rightarrow> nvm_kv_store_device \<Rightarrow> nvm_iovec list res" where
  "kv_process_for_trim value_len trim_len lba device =
     (let ss = nvm_sector_size (dev_caps device)
      in if trim_len > max_trim_size device then Inl NVM_ERR_INTERNAL_FAILURE
         else if trim_len \<noteq> 0 then
           (let value_bytes = rnd value_len ss; trim_len = sub32 (rnd trim_len ss) value_bytes
            in if trim_len > 0 then Inr [trim_iov (lba + of_nat (value_bytes div ss)) trim_len]
               else Inr [])
         else Inr [])"

text \<open>Vectors written into a freshly allocated array from a position on.\<close>

fun put_iovs :: "nat \<Rightarrow> nvm_iovec list \<Rightarrow> nvm_iovec list \<Rightarrow> nvm_iovec list" where
  "put_iovs i [] iovec = iovec"
| "put_iovs i (x # xs) iovec = put_iovs (Suc i) xs (iovec[i := x])"

section \<open>Existence of a range\<close>

definition kv_range_exists ::
  "'w nvm_env \<Rightarrow> int \<Rightarrow> u64 \<Rightarrow> nat \<Rightarrow> 'w \<Rightarrow> nvm_block_range res" where
  "kv_range_exists E handle start_lba len w =
     (case env_range_exists E handle start_lba len w of
        None \<Rightarrow> Inl NVM_ERR_INTERNAL_FAILURE
      | Some found \<Rightarrow> if br_length found = 0 then Inl NVM_ERR_OBJECT_NOT_FOUND else Inr found)"

definition key_range :: "'w nvm_env \<Rightarrow> nvm_kv_store \<Rightarrow> u64 \<Rightarrow> 'w \<Rightarrow> nvm_block_range res" where
  "key_range E st lba w =
     kv_range_exists E (dev_handle (get_store_device st)) lba
       (unat (get_max_search_range (get_layout st))) w"

section \<open>Addresses of a key\<close>

definition key_base :: "nvm_kv_store \<Rightarrow> u32 \<Rightarrow> bytes \<Rightarrow> nat \<Rightarrow> u64" where
  "key_base st pool_id key key_len =
     key_hash (get_hash_func st) key (of_nat key_len) pool_id (get_key_bits (get_layout st)) True"

definition pool_hash_of :: "nvm_kv_store \<Rightarrow> u32 \<Rightarrow> u64" where
  "pool_hash_of st pool_id = ucast (get_poolid_hash (st_pm st) pool_id)"

definition next_key_lba :: "nvm_kv_store \<Rightarrow> u32 \<Rightarrow> bytes \<Rightarrow> nat \<Rightarrow> nat \<Rightarrow> u64" where
  "next_key_lba st pool_id key key_len hash_itr =
     resolve_coll (get_hash_func st) (of_nat key_len) (key_base st pool_id key key_len) (of_nat hash_itr)
       (get_key_bits (get_layout st)) True OR pool_hash_of st pool_id"

definition key_matches :: "bytes \<Rightarrow> bytes \<Rightarrow> nat \<Rightarrow> u32 \<Rightarrow> bool" where
  "key_matches buf key key_len pool_id \<longleftrightarrow>
     (let hdr = load_header buf
      in hdr_key_len hdr = of_nat key_len \<and>
         mem_read M_KV_HEADER_SIZE key_len buf = take key_len key \<and> hdr_pool_id hdr = pool_id)"

section \<open>The address for a write\<close>

record 'w gen_state =
  gs_buf :: membuf
  gs_trim_len :: nat
  gs_insert_lba :: bool
  gs_store :: nvm_kv_store
  gs_world :: 'w

definition gs_take_lba :: "'w others \<Rightarrow> u64 \<Rightarrow> 'w gen_state \<Rightarrow> bool \<times> 'w gen_state" where
  "gs_take_lba oth lba gs =
     (let (wait, st, w) = insert_lba_to_safe_list oth lba (gs_store gs) (gs_world gs)
      in (wait, gs\<lparr>gs_insert_lba := True, gs_store := st, gs_world := w\<rparr>))"

definition gs_note_trim :: "nat \<Rightarrow> nvm_kv_header \<Rightarrow> 'w gen_state \<Rightarrow> 'w gen_state" where
  "gs_note_trim value_len hdr gs =
     (if unat (hdr_value_len hdr) > value_len then gs\<lparr>gs_trim_len := unat (hdr_value_len hdr)\<rparr> else gs)"

text \<open>
  The inner loop of \<open>kv_gen_lba\<close>: \<open>Some r\<close> is a return from the whole routine,
  \<open>None\<close> leaves the loop. A second round happens only after a wait, with the LBA held.
\<close>

function gen_lba_read ::
  "'w nvm_env \<Rightarrow> 'w others \<Rightarrow> u32 \<Rightarrow> bytes \<Rightarrow> nat \<Rightarrow> nat \<Rightarrow> bool \<Rightarrow> u64 \<Rightarrow> 'w gen_state \<Rightarrow>
   unit res option \<times> 'w gen_state" where
  "gen_lba_read E oth pool_id key key_len value_len replace lba gs =
     (let ss = get_sector_size (gs_store gs)
      in case nvm_readv E (get_store_device (gs_store gs))
                [read_iov (mb_addr (gs_buf gs)) ss lba] (gs_world gs) of
           Inl e \<Rightarrow> (Some (Inl e), gs)
         | Inr got \<Rightarrow>
             (let gs = gs\<lparr>gs_buf := (gs_buf gs)\<lparr>mb_mem := memcpy 0 (take ss got) (mb_mem (gs_buf gs))\<rparr>\<rparr>;
                  hdr = load_header (mb_mem (gs_buf gs))
              in if key_matches (mb_mem (gs_buf gs)) key key_len pool_id
                 then
                   (if header_expired E (gs_store gs) hdr (gs_world gs)
                    then
                      (if gs_insert_lba gs then (Some (Inr ()), gs)
                       else
                         (let wait_gs = gs_take_lba oth lba gs
                          in if fst wait_gs \<and> gs_insert_lba (snd wait_gs)
                             then gen_lba_read E oth pool_id key key_len value_len replace lba (snd wait_gs)
                             else (Some (Inr ()), snd wait_gs)))
                    else if replace
                    then
                      (if gs_insert_lba gs then (None, gs_note_trim value_len hdr gs)
                       else
                         (let wait_gs = gs_take_lba oth lba gs
                          in if fst wait_gs \<and> gs_insert_lba (snd wait_gs)
                             then gen_lba_read E oth pool_id key key_len value_len replace lba (snd wait_gs)
                             else (None, gs_note_trim value_len hdr (snd wait_gs))))
                    else (Some (Inl NVM_ERR_OBJECT_EXISTS), gs))
                 else
                   (None, if gs_insert_lba gs
                          then gs\<lparr>gs_insert_lba := False,
                                  gs_store := delete_lba_from_safe_list lba (gs_store gs)\<rparr>
                          else gs)))"
  by pat_completeness auto
termination
  by (relation "measure (\<lambda>(E, oth, p, k, kl, vl, r, lba, gs). if gs_insert_lba gs then 0 else 1)")
    (auto simp: Let_def)

declare gen_lba_read.simps [simp del]

function gen_lba_probe ::
  "'w nvm_env \<Rightarrow> 'w others \<Rightarrow> u32 \<Rightarrow> bytes \<Rightarrow> nat \<Rightarrow> nat \<Rightarrow> bool \<Rightarrow> nat \<Rightarrow> u64 \<Rightarrow> 'w gen_state \<Rightarrow>
   unit res \<times> u64 \<times> 'w gen_state" where
  "gen_lba_probe E oth pool_id key key_len value_len replace hash_itr lba gs =
     (let found = key_range E (gs_store gs) lba (gs_world gs);
          take_gs = (if found = Inl NVM_ERR_OBJECT_NOT_FOUND then gs_take_lba oth lba gs else (True, gs));
          read_gs = (if fst take_gs
                     then gen_lba_read E oth pool_id key key_len value_len replace lba (snd take_gs)
                     else (None, snd take_gs))
      in if found = Inl NVM_ERR_INTERNAL_FAILURE then (Inl NVM_ERR_INTERNAL_FAILURE, lba, gs)
         else
           (case read_gs of
              (Some r, gs) \<Rightarrow> (r, lba, gs)
            | (None, gs) \<Rightarrow>
                if gs_insert_lba gs
                then (if hash_itr > M_MAX_COLLISION then Inl NVM_ERR_INTERNAL_FAILURE else Inr (), lba, gs)
                else
                  (let next_lba = next_key_lba (gs_store gs) pool_id key key_len hash_itr
                   in if hash_itr < M_MAX_COLLISION
                      then gen_lba_probe E oth pool_id key key_len value_len replace (Suc hash_itr)
                             next_lba gs
                      else (Inl NVM_ERR_INTERNAL_FAILURE, next_lba, gs))))"
  by pat_completeness auto
termination
  by (relation "measure (\<lambda>(E, oth, p, k, kl, vl, r, i, lba, gs). M_MAX_COLLISION - i)") auto

declare gen_lba_probe.simps [simp del]

text \<open>
  The addresses a batch has already used: a duplicate key ends the search, another key moves it on.
\<close>

type_synonym lba_list = "u64 \<rightharpoonup> bytes \<times> nat"

function gen_lba_batch ::
  "lba_list \<Rightarrow> nvm_kv_store \<Rightarrow> u32 \<Rightarrow> bytes \<Rightarrow> nat \<Rightarrow> nat \<Rightarrow> u64 \<Rightarrow> bool \<times> nat \<times> u64" where
  "gen_lba_batch lba_list st pool_id key key_len hash_itr lba =
     (case lba_list lba of
        None \<Rightarrow> (False, hash_itr, lba)
      | Some (dup_key, dup_len) \<Rightarrow>
          if hash_itr < M_MAX_COLLISION
          then
            (if dup_len = key_len \<and> take key_len dup_key = take key_len key then (True, hash_itr, lba)
             else gen_lba_batch lba_list st pool_id key key_len (Suc hash_itr)
                    (next_key_lba st pool_id key key_len hash_itr))
          else (False, hash_itr, lba))"
  by pat_completeness auto
termination
  by (relation "measure (\<lambda>(l, st, p, k, kl, i, lba). M_MAX_COLLISION - i)") auto

declare gen_lba_batch.simps [simp del]

definition kv_gen_lba ::
  "'w nvm_env \<Rightarrow> 'w others \<Rightarrow> u32 \<Rightarrow> bytes \<Rightarrow> nat \<Rightarrow> nat \<Rightarrow> bool \<Rightarrow> lba_list option \<Rightarrow> 'w gen_state \<Rightarrow>
   unit res \<times> u64 \<times> 'w gen_state" where
  "kv_gen_lba E oth pool_id key key_len value_len replace lba_list gs =
     (let st = gs_store gs;
          lba = key_base st pool_id key key_len OR pool_hash_of st pool_id;
          gs = gs\<lparr>gs_trim_len := 0\<rparr>
      in case lba_list of
           None \<Rightarrow> gen_lba_probe E oth pool_id key key_len value_len replace 1 lba gs
         | Some lbas \<Rightarrow>
             (case gen_lba_batch lbas st pool_id key key_len 1 lba of
                (True, _, lba) \<Rightarrow> (Inr (), lba, gs)
              | (False, hash_itr, lba) \<Rightarrow>
                  if hash_itr = M_MAX_COLLISION then (Inl NVM_ERR_INTERNAL_FAILURE, lba, gs)
                  else gen_lba_probe E oth pool_id key key_len value_len replace hash_itr lba gs))"

section \<open>Reading a key from the device\<close>

text \<open>
  \<open>num_iovs\<close> and the length of the second vector are carried from one probe to the next,
  as in the code: one probe that finds a single sector drops the value vector for good.
  The result is the header found, its address, and the buffers as the reads left them.
\<close>

record read_state =
  rs_buf :: membuf
  rs_value :: bytes
  rs_num_iovs :: nat
  rs_value_iov_len :: nat
  rs_read_len :: nat

definition read_size :: "'w nvm_env \<Rightarrow> nvm_kv_store \<Rightarrow> bool \<Rightarrow> nat \<Rightarrow> u64 \<Rightarrow> 'w \<Rightarrow> read_state \<Rightarrow>
    bool res \<times> read_state" where
  "read_size E st read_exact value_len lba w rs =
     (if read_exact \<and> value_len \<noteq> 0 then
        (case key_range E st lba w of
           Inl e \<Rightarrow> (if e = NVM_ERR_OBJECT_NOT_FOUND then Inr False else Inl e, rs)
         | Inr found \<Rightarrow>
             (let ss = get_sector_size st; temp_val_len = sub32 (br_length found * ss) ss
              in (Inr True,
                  if temp_val_len = 0 then rs\<lparr>rs_num_iovs := 1\<rparr>
                  else if rnd value_len ss > temp_val_len then rs\<lparr>rs_value_iov_len := temp_val_len\<rparr>
                  else rs)))
      else (Inr True, rs))"

definition read_probe ::
  "'w nvm_env \<Rightarrow> nvm_kv_store \<Rightarrow> u64 \<Rightarrow> u64 \<Rightarrow> 'w \<Rightarrow> read_state \<Rightarrow> read_state res" where
  "read_probe E st value_addr lba w rs =
     (let ss = get_sector_size st;
          iovec = read_iov (mb_addr (rs_buf rs)) ss lba #
                  (if rs_num_iovs rs = 2 then [read_iov value_addr (rs_value_iov_len rs) (lba + 1)] else [])
      in case nvm_readv E (get_store_device st) iovec w of
           Inl e \<Rightarrow> Inl e
         | Inr got \<Rightarrow>
             Inr (rs\<lparr>rs_buf := (rs_buf rs)\<lparr>mb_mem := memcpy 0 (take ss got) (mb_mem (rs_buf rs))\<rparr>,
                     rs_value := memcpy 0 (drop ss got) (rs_value rs), rs_read_len := length got\<rparr>))"

function read_media_loop ::
  "'w nvm_env \<Rightarrow> nvm_kv_store \<Rightarrow> u32 \<Rightarrow> bytes \<Rightarrow> nat \<Rightarrow> u64 \<Rightarrow> nat \<Rightarrow> bool \<Rightarrow> nat \<Rightarrow> u64 \<Rightarrow> 'w \<Rightarrow> read_state \<Rightarrow>
   (nvm_kv_header \<times> u64) res \<times> read_state" where
  "read_media_loop E st pool_id key key_len value_addr value_len read_exact hash_itr lba w rs =
     (case read_size E st read_exact value_len lba w rs of
        (Inl e, rs) \<Rightarrow> (Inl e, rs)
      | (Inr exists, rs) \<Rightarrow>
          (case (if exists then read_probe E st value_addr lba w rs else Inr rs) of
             Inl e \<Rightarrow> (Inl e, rs)
           | Inr rs \<Rightarrow>
               if exists \<and> rs_read_len rs \<noteq> 0 \<and> key_matches (mb_mem (rs_buf rs)) key key_len pool_id
               then (Inr (load_header (mb_mem (rs_buf rs)), lba), rs)
               else if hash_itr < M_MAX_COLLISION
               then read_media_loop E st pool_id key key_len value_addr value_len read_exact
                      (Suc hash_itr) (next_key_lba st pool_id key key_len hash_itr) w rs
               else (Inl NVM_ERR_OBJECT_NOT_FOUND, rs)))"
  by pat_completeness auto
termination
  by (relation "measure (\<lambda>(E, st, p, k, kl, va, vl, x, i, lba, w, rs). M_MAX_COLLISION - i)") auto

declare read_media_loop.simps [simp del]

definition kv_read_media ::
  "'w nvm_env \<Rightarrow> nvm_kv_store \<Rightarrow> u32 \<Rightarrow> bytes \<Rightarrow> nat \<Rightarrow> u64 \<Rightarrow> bytes \<Rightarrow> nat \<Rightarrow> bool \<Rightarrow> membuf \<Rightarrow> 'w \<Rightarrow>
   (nvm_kv_header \<times> u64) res \<times> membuf \<times> bytes" where
  "kv_read_media E st pool_id key key_len value_addr value value_len read_exact buf w =
     (let rs = \<lparr>rs_buf = buf, rs_value = value, rs_num_iovs = (if value_len > 0 then 2 else 1),
                rs_value_iov_len = rnd value_len (get_sector_size st), rs_read_len = 0\<rparr>;
          (r, rs) = read_media_loop E st pool_id key key_len value_addr value_len read_exact 1
                      (key_base st pool_id key key_len OR pool_hash_of st pool_id) w rs
      in (r, rs_buf rs, rs_value rs))"

section \<open>Existence of a key\<close>

function exists_loop ::
  "'w nvm_env \<Rightarrow> nvm_kv_store \<Rightarrow> u32 \<Rightarrow> bytes \<Rightarrow> nat \<Rightarrow> nat \<Rightarrow> u64 \<Rightarrow> 'w \<Rightarrow> membuf \<Rightarrow>
   u64 option res \<times> membuf" where
  "exists_loop E st pool_id key key_len hash_itr lba w buf =
     (let ss = get_sector_size st;
          next_probe = (\<lambda>buf.
            if hash_itr < M_MAX_COLLISION
            then exists_loop E st pool_id key key_len (Suc hash_itr)
                   (next_key_lba st pool_id key key_len hash_itr) w buf
            else (Inr None, buf))
      in case key_range E st lba w of
           Inl e \<Rightarrow> (if e = NVM_ERR_OBJECT_NOT_FOUND then next_probe buf
                     else (Inl NVM_ERR_INTERNAL_FAILURE, buf))
         | Inr found \<Rightarrow>
             (case nvm_readv E (get_store_device st) [read_iov (mb_addr buf) ss lba] w of
                Inl e \<Rightarrow>
                  (if key_matches (mb_mem buf) key key_len pool_id then (Inr (Some lba), buf)
                   else next_probe buf)
              | Inr got \<Rightarrow>
                  (let buf = buf\<lparr>mb_mem := memcpy 0 (take ss got) (mb_mem buf)\<rparr>
                   in if got \<noteq> [] \<and> key_matches (mb_mem buf) key key_len pool_id
                      then (Inr (Some lba), buf) else next_probe buf)))"
  by pat_completeness auto
termination
  by (relation "measure (\<lambda>(E, st, p, k, kl, i, lba, w, b). M_MAX_COLLISION - i)") auto

declare exists_loop.simps [simp del]

function val_len_loop ::
  "'w nvm_env \<Rightarrow> nvm_kv_store \<Rightarrow> u32 \<Rightarrow> bytes \<Rightarrow> nat \<Rightarrow> nat \<Rightarrow> u64 \<Rightarrow> nat \<Rightarrow> 'w \<Rightarrow>
   unit res \<times> nat" where
  "val_len_loop E st pool_id key key_len hash_itr lba max_val_len w =
     (case key_range E st lba w of
        Inl e \<Rightarrow>
          (if e = NVM_ERR_OBJECT_NOT_FOUND
           then (if hash_itr < M_MAX_COLLISION
                 then val_len_loop E st pool_id key key_len (Suc hash_itr)
                        (next_key_lba st pool_id key key_len hash_itr) max_val_len w
                 else (if max_val_len > 0 then Inr () else Inl e, max_val_len))
           else (Inl NVM_ERR_INTERNAL_FAILURE, max_val_len))
      | Inr found \<Rightarrow>
          (let max_val_len = max max_val_len (br_length found)
           in if hash_itr < M_MAX_COLLISION
              then val_len_loop E st pool_id key key_len (Suc hash_itr)
                     (next_key_lba st pool_id key key_len hash_itr) max_val_len w
              else (Inr (), max_val_len)))"
  by pat_completeness auto
termination
  by (relation "measure (\<lambda>(E, st, p, k, kl, i, lba, m, w). M_MAX_COLLISION - i)") auto

declare val_len_loop.simps [simp del]

section \<open>What the vectors of a write store\<close>

definition put_sectors :: "sectors \<Rightarrow> nat \<Rightarrow> nat \<Rightarrow> (nat \<Rightarrow> bytes) \<Rightarrow> sectors" where
  "put_sectors s first n f = (\<lambda>i. if first \<le> i \<and> i < first + n then Some (f (i - first)) else s i)"

lemma put_sectors_0 [simp]: "put_sectors s first 0 f = s"
  by (auto simp: put_sectors_def fun_eq_iff)

lemma put_sectors_append:
  "put_sectors (put_sectors s first m f) (first + m) n g =
   put_sectors s first (m + n) (\<lambda>i. if i < m then f i else g (i - m))"
  by (auto simp: put_sectors_def fun_eq_iff)

lemma put_sectors_cong:
  "(\<And>i. i < n \<Longrightarrow> f i = g i) \<Longrightarrow> put_sectors s first n f = put_sectors s first n g"
  by (auto simp: put_sectors_def fun_eq_iff)

definition iovs_store :: "nat \<Rightarrow> nvm_iovec list \<Rightarrow> nat \<Rightarrow> nat \<Rightarrow> (nat \<Rightarrow> bytes) \<Rightarrow> bool" where
  "iovs_store ss iovs first n f \<longleftrightarrow>
     (\<forall>s. foldl (apply_iov ss) s iovs = put_sectors s first n f) \<and>
     disjoint_iovs ss iovs \<and> (\<forall>x \<in> set iovs. iov_range ss x \<subseteq> {first ..< first + n})"

lemma iovs_store_nil: "iovs_store ss [] first 0 f"
  by (simp add: iovs_store_def)

lemma iovs_store_cons:
  assumes "iov_opcode iov = NVM_IOV_WRITE" and "iov_first iov = first" and "iov_sectors ss iov = m"
    and "\<And>i. i < m \<Longrightarrow> mem_read (i * ss) ss (iov_data iov) = f i"
    and "iovs_store ss iovs (first + m) n (\<lambda>i. f (m + i))"
  shows "iovs_store ss (iov # iovs) first (m + n) f"
proof -
  have app: "apply_iov ss s iov = put_sectors s first m f" for s
    using assms(1-4) by (auto simp: apply_iov_def iov_range_def put_sectors_def fun_eq_iff)
  have r: "iov_range ss iov = {first ..< first + m}" using assms(2,3) by (simp add: iov_range_def)
  have "put_sectors (put_sectors s first m f) (first + m) n (\<lambda>i. f (m + i)) = put_sectors s first (m + n) f" for s
    unfolding put_sectors_append by (rule put_sectors_cong) simp
  moreover have "list_all (\<lambda>x. iov_range ss iov \<inter> iov_range ss x = {}) iovs"
    using assms(5) r unfolding iovs_store_def list_all_iff by fastforce
  ultimately show ?thesis using assms(5) app r unfolding iovs_store_def by fastforce
qed

lemma write_iovs_spec:
  assumes dev: "max_write_size device = q * ss" "nvm_sector_size (dev_caps device) = ss" "0 < q" "0 < ss"
    and src: "\<And>off len i. Suc i * ss \<le> len \<Longrightarrow> mem_read (i * ss) ss (source off len) = chunk (off + i * ss)"
  shows "unat lba + count * q + n < 2 ^ 64 \<Longrightarrow>
    \<exists>iovs. write_iovs_loop device source base lba count (n * ss) = Some iovs \<and>
      length iovs = (n + q - 1) div q \<and>
      iovs_store ss iovs (unat lba + count * q) n (\<lambda>i. chunk ((count * q + i) * ss))"
proof (induction n arbitrary: count rule: less_induct)
  case (less n)
  show ?case
  proof (cases "n = 0")
    case True
    then show ?thesis using dev(3) by (simp add: write_iovs_loop.simps iovs_store_nil)
  next
    case False
    define m where "m = min n q"
    have m: "0 < m" "m \<le> n" "m \<le> q" using False dev(3) by (simp_all add: m_def)
    have vs: "(if n * ss < q * ss then n * ss else q * ss) = m * ss" by (simp add: m_def min_def)
    let ?iov = "\<lparr>iov_base = base + of_nat (count * (q * ss)), iov_len = m * ss, iov_lba = lba + of_nat (count * q),
        iov_opcode = NVM_IOV_WRITE, iov_data = source (count * (q * ss)) (m * ss)\<rparr>"
    have "n * ss - m * ss = (n - m) * ss" by (simp add: diff_mult_distrib)
    then have eq: "write_iovs_loop device source base lba count (n * ss) =
      map_option ((#) ?iov) (write_iovs_loop device source base lba (Suc count) ((n - m) * ss))"
      using False dev vs by (simp add: write_iovs_loop.simps [of _ _ _ _ _ "n * ss"] Let_def)
    have next_first: "unat lba + Suc count * q = unat lba + count * q + m" if "n - m \<noteq> 0"
      using that by (simp add: m_def min_def split: if_splits)
    have len: "(n + q - 1) div q = Suc ((n - m + q - 1) div q)"
    proof (cases "n \<le> q")
      case True
      then have "m = n" by (simp add: m_def)
      have "n + q - 1 = (n - 1) + q" using False by simp
      then have "(n + q - 1) div q = Suc ((n - 1) div q)" using dev(3) by (simp only: div_add_self2)
      moreover have "(n - 1) div q = 0" "(q - 1) div q = 0" using True False dev(3) by simp_all
      ultimately show ?thesis using \<open>m = n\<close> by simp
    next
      case big: False
      then have "m = q" "n + q - 1 = (n - q + q - 1) + q" by (simp_all add: m_def)
      then show ?thesis using dev(3) by (simp only: div_add_self2)
    qed
    have first: "iov_first ?iov = unat lba + count * q"
      using unat_plus_of_nat [of lba "count * q"] less.prems by (simp add: iov_first_def)
    obtain iovs where rec: "write_iovs_loop device source base lba (Suc count) ((n - m) * ss) = Some iovs"
      "length iovs = (n - m + q - 1) div q"
      "iovs_store ss iovs (unat lba + count * q + m) (n - m) (\<lambda>i. chunk ((count * q + (m + i)) * ss))"
    proof (cases "n - m = 0")
      case True
      then show thesis using that [of "[]"] dev(3) by (simp add: write_iovs_loop.simps iovs_store_nil)
    next
      case rest: False
      then have mq: "m = q" by (simp add: m_def min_def split: if_splits)
      have "unat lba + Suc count * q + (n - m) < 2 ^ 64" using less.prems rest next_first m by simp
      from less.IH [OF _ this] m False show thesis
        using that mq next_first [OF rest] by (auto simp: algebra_simps)
    qed
    have "iovs_store ss (?iov # iovs) (unat lba + count * q) (m + (n - m)) (\<lambda>i. chunk ((count * q + i) * ss))"
    proof (rule iovs_store_cons)
      show "iov_first ?iov = unat lba + count * q" by (rule first)
      show "iov_sectors ss ?iov = m" using dev(4) by (simp add: iov_sectors_def)
      fix i
      assume "i < m"
      then have "Suc i * ss \<le> m * ss" by (intro mult_le_mono1) simp
      from src [OF this, of "count * (q * ss)"]
      show "mem_read (i * ss) ss (iov_data ?iov) = chunk ((count * q + i) * ss)"
        by (simp add: algebra_simps)
    qed (simp_all add: rec(3))
    then show ?thesis using eq rec(1,2) m(2) len by simp
  qed
qed

section \<open>The header sector of a write\<close>

lemma take_memcpy: "n \<le> off \<Longrightarrow> off \<le> length buf \<Longrightarrow> take n (memcpy off src buf) = take n buf"
  by (simp add: memcpy_def min_def)

lemma length_mem_bytes [simp]: "length (mem_bytes mem off len) = len"
  by (simp add: mem_bytes_def)

lemma mem_read_mem_bytes:
  "off' + n \<le> len \<Longrightarrow> mem_read off' n (mem_bytes mem off len) = mem_bytes mem (off + off') n"
  by (rule nth_equalityI) (simp_all add: mem_read_def mem_bytes_def add.assoc)

definition kv_header :: "nat \<Rightarrow> u32 \<Rightarrow> nat \<Rightarrow> nat \<Rightarrow> write_plan \<Rightarrow> u32 \<Rightarrow> u32 \<Rightarrow> nvm_kv_header \<Rightarrow> bool" where
  "kv_header now pool_id key_len value_len plan expiry gen_count hdr \<longleftrightarrow>
     hdr_key_len hdr = of_nat key_len \<and> hdr_value_len hdr = of_nat value_len \<and>
     hdr_value_offset hdr = of_nat (wp_offset plan) \<and> hdr_pool_id hdr = pool_id \<and>
     md_gen_count (hdr_metadata hdr) = gen_count \<and>
     md_expiry (hdr_metadata hdr) = (if expiry = 0 then 0 else expiry + of_nat now)"

lemma write_buffer_spec:
  fixes now :: nat and pool_id :: u32 and uval :: user_value and expiry gen_count :: u32
  assumes "key_len = length key" and "M_KV_HEADER_SIZE + key_len \<le> length buf"
    and "\<not> wp_user plan \<Longrightarrow> M_KV_HEADER_SIZE + key_len \<le> wp_offset plan \<and>
           wp_offset plan + value_len \<le> length buf"
  defines "mem \<equiv> write_buffer now pool_id key key_len uval value_len plan expiry gen_count buf"
  shows "length mem = length buf"
    and "kv_header now pool_id key_len value_len plan expiry gen_count (load_header mem)"
    and "mem_read M_KV_HEADER_SIZE key_len mem = key"
    and "\<not> wp_user plan \<Longrightarrow> mem_read (wp_offset plan) value_len mem = mem_bytes (uv_mem uval) 0 value_len"
proof -
  define hdr where "hdr = fill_header now pool_id key_len value_len (wp_offset plan) expiry gen_count (load_header buf)"
  define b1 where "b1 = memcpy M_KV_HEADER_SIZE key (store_header hdr buf)"
  have l1: "length b1 = length buf" using assms(1,2) by (simp add: b1_def length_memcpy)
  have "take M_KV_HEADER_SIZE b1 = take M_KV_HEADER_SIZE (store_header hdr buf)"
    unfolding b1_def using assms(2) by (intro take_memcpy) simp_all
  then have h1: "load_header b1 = hdr" using load_header_cong load_store_header by metis
  have k1: "mem_read M_KV_HEADER_SIZE key_len b1 = key"
    unfolding b1_def using assms(1,2) by (intro mem_read_memcpy_same) simp_all
  have kv: "kv_header now pool_id key_len value_len plan expiry gen_count hdr"
    by (simp add: hdr_def fill_header_def kv_header_def)
  have mem: "mem = (if wp_user plan then b1 else memcpy (wp_offset plan) (mem_bytes (uv_mem uval) 0 value_len) b1)"
    using assms(1) by (simp add: mem_def write_buffer_def hdr_def b1_def)
  show "length mem = length buf"
    using assms(3) l1 by (simp add: mem length_memcpy)
  have "take M_KV_HEADER_SIZE mem = take M_KV_HEADER_SIZE b1"
    using assms(3) l1 by (cases "wp_user plan") (simp_all add: mem take_memcpy)
  then have "load_header mem = hdr" using load_header_cong h1 by metis
  then show "kv_header now pool_id key_len value_len plan expiry gen_count (load_header mem)" using kv by simp
  show "mem_read M_KV_HEADER_SIZE key_len mem = key"
    using assms(3) l1 k1 by (cases "wp_user plan") (simp_all add: mem mem_read_memcpy_before)
  show "mem_read (wp_offset plan) value_len mem = mem_bytes (uv_mem uval) 0 value_len" if "\<not> wp_user plan"
    using that assms(3) l1 by (simp add: mem mem_read_memcpy_same)
qed

lemma load_header_take: "M_KV_HEADER_SIZE \<le> n \<Longrightarrow> load_header (take n buf) = load_header buf"
  by (rule load_header_cong) (simp add: min_def)

lemma key_matches_take:
  "M_KV_HEADER_SIZE + key_len \<le> n \<Longrightarrow> key_matches (take n buf) key key_len pool_id = key_matches buf key key_len pool_id"
  by (simp add: key_matches_def load_header_take mem_read_take)

lemma key_matches_append:
  "M_KV_HEADER_SIZE + key_len \<le> length s \<Longrightarrow> key_matches (s @ rest) key key_len pool_id = key_matches s key key_len pool_id"
  using key_matches_take [of key_len "length s" "s @ rest"] by simp

lemma load_header_append: "M_KV_HEADER_SIZE \<le> length s \<Longrightarrow> load_header (s @ rest) = load_header s"
  using load_header_take [of "length s" "s @ rest"] by simp

lemma key_matches_zeros:
  assumes "0 < key_len" and "key_len < 2 ^ 32" and "M_KV_HEADER_SIZE \<le> n"
  shows "\<not> key_matches (zeros n) key key_len pool_id"
proof -
  have "mem_read 4 4 (zeros n) = zeros 4"
    using assms(3) by (simp add: mem_read_def zeros_def M_KV_HEADER_SIZE_def)
  then have "hdr_key_len (load_header (zeros n)) = 0"
    by (simp add: load_header_def le_word_def zeros_def numeral_eq_Suc)
  moreover have "unat (of_nat key_len :: u32) = key_len" using assms(2) by (intro unat_of_nat_nowrap) simp
  ultimately show ?thesis using assms(1) by (auto simp: key_matches_def)
qed

section \<open>Planned writes\<close>

definition write_dev_ok :: "nat \<Rightarrow> nat \<Rightarrow> nvm_kv_store_device \<Rightarrow> bool" where
  "write_dev_ok k j device \<longleftrightarrow>
     9 \<le> k \<and> k \<le> 20 \<and> k \<le> j \<and> j \<le> 40 \<and> nvm_sector_size (dev_caps device) = 2 ^ k \<and>
     max_write_size device = 2 ^ j"

definition value_sectors :: "nat \<Rightarrow> nat \<Rightarrow> nat" where
  "value_sectors k value_len = rnd value_len (2 ^ k) div 2 ^ k"

definition plan_sectors :: "nat \<Rightarrow> write_plan \<Rightarrow> nat \<Rightarrow> nat" where
  "plan_sectors k plan value_len = (if wp_user plan then Suc (value_sectors k value_len) else 1)"

definition value_storable :: "nat \<Rightarrow> nat \<Rightarrow> user_value \<Rightarrow> nat \<Rightarrow> bool" where
  "value_storable k key_len uval value_len \<longleftrightarrow>
     0 < value_len \<and> value_len \<le> NVM_KV_MAX_VALUE_SIZE \<and>
     (M_KV_HEADER_SIZE + key_len + value_len \<le> 2 ^ k \<or> uv_addr uval AND of_nat (2 ^ k - 1) = 0)"

lemma pow2_le_20: "k \<le> 20 \<Longrightarrow> (2::nat) ^ k \<le> 1048576"
  using power_increasing [of k 20 "2::nat"] by simp

lemma pow2_ge_512: "9 \<le> k \<Longrightarrow> (512::nat) \<le> 2 ^ k"
  using power_increasing [of 9 k "2::nat"] by simp

lemma rnd_fits: "k \<le> 20 \<Longrightarrow> (n::nat) \<le> 2 ^ 60 \<Longrightarrow> n + 2 ^ k \<le> 2 ^ 64"
  using pow2_le_20 [of k] by simp

lemma rnd_one: "k \<le> 20 \<Longrightarrow> 0 < n \<Longrightarrow> n \<le> 2 ^ k \<Longrightarrow> rnd n (2 ^ k) = 2 ^ k"
proof -
  assume k: "k \<le> 20" and n: "0 < n" "n \<le> 2 ^ k"
  have f: "n + 2 ^ k \<le> 2 ^ 64" using rnd_fits [of k n] k n pow2_le_20 [OF k] by simp
  have "rnd n (2 ^ k) \<le> 2 ^ k" using k f n by (intro rnd_least) simp_all
  moreover have "0 < rnd n (2 ^ k)" using rnd_pos [of k n] k f n(1) by simp
  moreover have "2 ^ k dvd rnd n (2 ^ k)" using rnd_bounds(3) [of k n] k f by simp
  ultimately show ?thesis by (simp add: dvd_imp_le le_antisym)
qed

lemma value_sectors_mult:
  assumes "k \<le> 20" and "value_len \<le> NVM_KV_MAX_VALUE_SIZE"
  shows "rnd value_len (2 ^ k) = value_sectors k value_len * 2 ^ k"
    and "value_len \<le> value_sectors k value_len * 2 ^ k"
proof -
  have f: "value_len + 2 ^ k \<le> 2 ^ 64"
    using assms(2) by (intro rnd_fits [OF assms(1)]) (simp add: NVM_KV_MAX_VALUE_SIZE_def)
  then have "2 ^ k dvd rnd value_len (2 ^ k)" using rnd_bounds(3) [of k value_len] assms(1) by simp
  then show e: "rnd value_len (2 ^ k) = value_sectors k value_len * 2 ^ k"
    by (simp add: value_sectors_def)
  show "value_len \<le> value_sectors k value_len * 2 ^ k"
    using rnd_bounds(1) [of k value_len] assms(1) f by (simp only: e [symmetric])
qed

lemma plan_write_cases:
  assumes "9 \<le> k" "k \<le> 20" and "value_storable k key_len uval value_len"
    and "key_len \<le> NVM_KV_MAX_KEY_SIZE"
  shows "plan_write (2 ^ k) (uv_addr uval) key_len value_len =
    (if M_KV_HEADER_SIZE + key_len + value_len \<le> 2 ^ k
     then \<lparr>wp_user = False, wp_offset = M_KV_HEADER_SIZE + key_len, wp_buf_len = 2 ^ k, wp_iov_len = 2 ^ k\<rparr>
     else \<lparr>wp_user = True, wp_offset = 2 ^ k, wp_buf_len = 2 ^ k, wp_iov_len = rnd value_len (2 ^ k)\<rparr>)"
proof -
  have "0 < M_KV_HEADER_SIZE + key_len + value_len" by (simp add: M_KV_HEADER_SIZE_def)
  then show ?thesis
    using assms(3) rnd_one [OF assms(2), of "M_KV_HEADER_SIZE + key_len + value_len"]
    by (cases "M_KV_HEADER_SIZE + key_len + value_len \<le> 2 ^ k")
      (auto simp: plan_write_def kv_use_user_buf_def value_storable_def Let_def)
qed

lemma rnd_div_count:
  assumes "k \<le> j" and "j \<le> 40" and "n * 2 ^ k \<le> 2 ^ 60"
  shows "rnd (n * 2 ^ k) (2 ^ j) div 2 ^ j = (n + 2 ^ (j - k) - 1) div 2 ^ (j - k)"
proof -
  have M: "(2::nat) ^ j = 2 ^ (j - k) * 2 ^ k" using assms(1) by (simp add: power_add [symmetric])
  have "(2::nat) ^ j \<le> 2 ^ 40" using assms(2) by (intro power_increasing) simp_all
  then have "n * 2 ^ k + 2 ^ j \<le> 2 ^ 64" using assms(3) by simp
  then have "rnd (n * 2 ^ k) (2 ^ j) div 2 ^ j = (n * 2 ^ k + (2 ^ j - 1)) div 2 ^ j"
    using rnd_eq [of j "n * 2 ^ k"] assms(2) by simp
  also have "\<dots> = (n * 2 ^ k + (2 ^ j - 1)) div 2 ^ k div 2 ^ (j - k)"
    unfolding M by (simp only: mult.commute [of "2 ^ (j - k)"] div_mult2_eq)
  also have "(n * 2 ^ k + (2 ^ j - 1)) div 2 ^ k = n + (2 ^ j - 1) div 2 ^ k"
    by (rule div_mult_self3) simp
  also have "(2 ^ j - 1) div 2 ^ k = (2::nat) ^ (j - k) - 1"
  proof -
    have "(1::nat) \<le> 2 ^ (j - k)" "(1::nat) \<le> 2 ^ k" by simp_all
    then have "(2::nat) ^ j - 1 = (2 ^ (j - k) - 1) * 2 ^ k + (2 ^ k - 1)"
      unfolding M by (simp add: diff_mult_distrib)
    moreover have "((2 ^ (j - k) - 1) * 2 ^ k + (2 ^ k - 1)) div (2::nat) ^ k =
        (2 ^ (j - k) - 1) + (2 ^ k - 1) div 2 ^ k" by (rule div_mult_self3) simp
    ultimately show ?thesis by simp
  qed
  finally show ?thesis by simp
qed

lemma plan_iovs_count:
  assumes "write_dev_ok k j device" and "value_storable k key_len uval value_len"
    and "key_len \<le> NVM_KV_MAX_KEY_SIZE"
  defines "plan \<equiv> plan_write (2 ^ k) (uv_addr uval) key_len value_len"
  shows "plan_iovs device plan =
    (if wp_user plan then Suc ((value_sectors k value_len + 2 ^ (j - k) - 1) div 2 ^ (j - k)) else 1)"
proof -
  have d: "9 \<le> k" "k \<le> 20" "k \<le> j" "j \<le> 40" "max_write_size device = 2 ^ j"
    using assms(1) by (simp_all add: write_dev_ok_def)
  note plan = plan_write_cases [OF d(1,2) assms(2,3), folded plan_def]
  have vl: "value_len \<le> NVM_KV_MAX_VALUE_SIZE" using assms(2) by (simp add: value_storable_def)
  have "rnd value_len (2 ^ k) \<le> 2 ^ 60"
    using rnd_bounds(2) [of k value_len] rnd_fits [OF d(2), of value_len] d(2) vl pow2_le_20 [OF d(2)]
    by (simp add: NVM_KV_MAX_VALUE_SIZE_def)
  then have "value_sectors k value_len * 2 ^ k \<le> 2 ^ 60"
    using value_sectors_mult(1) [OF d(2) vl] by simp
  then have "rnd (rnd value_len (2 ^ k)) (2 ^ j) div 2 ^ j = (value_sectors k value_len + 2 ^ (j - k) - 1) div 2 ^ (j - k)"
    using rnd_div_count [OF d(3,4), of "value_sectors k value_len"] value_sectors_mult(1) [OF d(2) vl] by simp
  moreover have "rnd (2 ^ k) (2 ^ j) div 2 ^ j = 1"
    using rnd_div_count [OF d(3,4), of 1] pow2_le_20 [OF d(2)] by simp
  ultimately show ?thesis
    unfolding plan plan_iovs_def d(5) by simp
qed

definition plan_content :: "nat \<Rightarrow> bytes \<Rightarrow> user_value \<Rightarrow> nat \<Rightarrow> bytes" where
  "plan_content k mem uval i =
     (if i = 0 then take (2 ^ k) mem else mem_bytes (uv_mem uval) ((i - 1) * 2 ^ k) (2 ^ k))"

lemma plan_key_fits:
  "9 \<le> k \<Longrightarrow> key_len \<le> NVM_KV_MAX_KEY_SIZE \<Longrightarrow> M_KV_HEADER_SIZE + key_len \<le> 2 ^ k"
  using pow2_ge_512 [of k] by (simp add: NVM_KV_MAX_KEY_SIZE_def M_KV_HEADER_SIZE_def)

lemma process_write_spec:
  fixes E :: "'w nvm_env" and w :: 'w and lba :: u64 and expiry gen_count pool_id :: u32
  assumes dev: "write_dev_ok k j device" and key: "key_len = length key" "key_len \<le> NVM_KV_MAX_KEY_SIZE"
    and val: "value_storable k key_len uval value_len" and buf: "2 ^ k \<le> length (mb_mem buf)"
  defines "plan \<equiv> plan_write (2 ^ k) (uv_addr uval) key_len value_len"
  assumes fit: "unat lba + plan_sectors k plan value_len < 2 ^ 64"
  obtains iovs mem exp where
    "kv_process_for_write E device pool_id key key_len uval value_len buf plan expiry gen_count lba w =
       Some (iovs, buf\<lparr>mb_mem := mem\<rparr>, exp)"
    "length iovs = plan_iovs device plan"
    "iovs_store (2 ^ k) iovs (unat lba) (plan_sectors k plan value_len) (plan_content k mem uval)"
    "length mem = length (mb_mem buf)"
    "kv_header (env_time E w) pool_id key_len value_len plan expiry gen_count (load_header mem)"
    "mem_read M_KV_HEADER_SIZE key_len mem = key"
    "\<not> wp_user plan \<longrightarrow> mem_read (wp_offset plan) value_len mem = mem_bytes (uv_mem uval) 0 value_len"
proof -
  have d: "9 \<le> k" "k \<le> 20" "k \<le> j" "j \<le> 40" "nvm_sector_size (dev_caps device) = 2 ^ k"
    "max_write_size device = 2 ^ j"
    using dev by (simp_all add: write_dev_ok_def)
  have M: "max_write_size device = 2 ^ (j - k) * 2 ^ k" using d by (simp add: power_add [symmetric])
  note plan = plan_write_cases [OF d(1,2) val key(2), folded plan_def]
  define mem where "mem = write_buffer (env_time E w) pool_id key key_len uval value_len plan expiry gen_count (mb_mem buf)"
  have fits: "M_KV_HEADER_SIZE + key_len \<le> length (mb_mem buf)"
    using plan_key_fits [OF d(1) key(2)] buf by simp
  have off: "M_KV_HEADER_SIZE + key_len \<le> wp_offset plan \<and> wp_offset plan + value_len \<le> length (mb_mem buf)"
    if "\<not> wp_user plan" using that buf by (auto simp: plan split: if_splits)
  have wb: "length mem = length (mb_mem buf)"
    "kv_header (env_time E w) pool_id key_len value_len plan expiry gen_count (load_header mem)"
    "mem_read M_KV_HEADER_SIZE key_len mem = key"
    "\<not> wp_user plan \<longrightarrow> mem_read (wp_offset plan) value_len mem = mem_bytes (uv_mem uval) 0 value_len"
    unfolding mem_def using write_buffer_spec [OF key(1) fits off] by blast+
  define exp where "exp = (if expiry \<noteq> 0 then md_expiry (hdr_metadata (load_header mem)) else 0)"
  have vl: "value_len \<le> NVM_KV_MAX_VALUE_SIZE" using val by (simp add: value_storable_def)
  let ?first = "\<lparr>iov_base = mb_addr buf, iov_len = 2 ^ k, iov_lba = lba,
                   iov_opcode = NVM_IOV_WRITE, iov_data = take (2 ^ k) mem\<rparr>"
  have unf: "kv_process_for_write E device pool_id key key_len uval value_len buf plan expiry gen_count lba w =
    map_option (\<lambda>iovs. (iovs, buf\<lparr>mb_mem := mem\<rparr>, exp))
      (if wp_user plan
       then map_option ((#) ?first)
              (write_iovs_loop device (mem_bytes (uv_mem uval)) (uv_addr uval) (lba + 1) 0 (value_sectors k value_len * 2 ^ k))
       else write_iovs_loop device (\<lambda>off len. mem_read off len mem) (mb_addr buf) lba 0 (1 * 2 ^ k))"
    unfolding kv_process_for_write_def Let_def d(5) mem_def [symmetric] exp_def [symmetric]
      value_sectors_mult(1) [OF d(2) vl] by simp
  have "\<exists>iovs. kv_process_for_write E device pool_id key key_len uval value_len buf plan expiry gen_count lba w =
       Some (iovs, buf\<lparr>mb_mem := mem\<rparr>, exp) \<and> length iovs = plan_iovs device plan \<and>
    iovs_store (2 ^ k) iovs (unat lba) (plan_sectors k plan value_len) (plan_content k mem uval)"
  proof (cases "wp_user plan")
    case True
    have l1: "unat (lba + 1) = Suc (unat lba)"
      using unat_plus_of_nat [of lba 1] fit True by (simp add: plan_sectors_def)
    have lim: "unat (lba + 1) + 0 * 2 ^ (j - k) + value_sectors k value_len < 2 ^ 64"
      using fit True by (simp add: plan_sectors_def l1)
    obtain iovs where iovs:
      "write_iovs_loop device (mem_bytes (uv_mem uval)) (uv_addr uval) (lba + 1) 0 (value_sectors k value_len * 2 ^ k) = Some iovs"
      "length iovs = (value_sectors k value_len + 2 ^ (j - k) - 1) div 2 ^ (j - k)"
      "iovs_store (2 ^ k) iovs (unat (lba + 1) + 0 * 2 ^ (j - k)) (value_sectors k value_len)
         (\<lambda>i. mem_bytes (uv_mem uval) ((0 * 2 ^ (j - k) + i) * 2 ^ k) (2 ^ k))"
      using write_iovs_spec [OF M d(5) _ _ _ lim, of "mem_bytes (uv_mem uval)"
          "\<lambda>off. mem_bytes (uv_mem uval) off (2 ^ k)" "uv_addr uval"]
      by (auto simp: mem_read_mem_bytes)
    have "iovs_store (2 ^ k) (?first # iovs) (unat lba) (1 + value_sectors k value_len) (plan_content k mem uval)"
      using iovs(3) l1 by (intro iovs_store_cons)
        (simp_all add: iov_first_def iov_sectors_def plan_content_def mem_read_def)
    then show ?thesis
      using True iovs plan_iovs_count [OF dev val key(2), folded plan_def]
      by (simp add: unf plan_sectors_def)
  next
    case False
    have lim: "unat lba + 0 * 2 ^ (j - k) + 1 < 2 ^ 64"
      using fit False by (simp add: plan_sectors_def)
    have src: "mem_read (i * 2 ^ k) (2 ^ k) (mem_read off len mem) = mem_read (off + i * 2 ^ k) (2 ^ k) mem"
      if "Suc i * 2 ^ k \<le> len" for off len i
      using that by (simp add: mem_read_def drop_take min_def ac_simps)
    obtain iovs where iovs:
      "write_iovs_loop device (\<lambda>off len. mem_read off len mem) (mb_addr buf) lba 0 (1 * 2 ^ k) = Some iovs"
      "length iovs = (1 + 2 ^ (j - k) - 1) div 2 ^ (j - k)"
      "iovs_store (2 ^ k) iovs (unat lba + 0 * 2 ^ (j - k)) 1
         (\<lambda>i. mem_read ((0 * 2 ^ (j - k) + i) * 2 ^ k) (2 ^ k) mem)"
      using write_iovs_spec [OF M d(5) _ _ _ lim, of "\<lambda>off len. mem_read off len mem"
          "\<lambda>off. mem_read off (2 ^ k) mem" "mb_addr buf"] src by auto
    have "iovs_store (2 ^ k) iovs (unat lba) 1 (plan_content k mem uval)"
      using iovs(3) put_sectors_cong [of 1 "\<lambda>i. mem_read (i * 2 ^ k) (2 ^ k) mem" "plan_content k mem uval"]
      by (simp add: iovs_store_def plan_content_def mem_read_def)
    then show ?thesis
      using False iovs plan_iovs_count [OF dev val key(2), folded plan_def]
      by (simp add: unf plan_sectors_def)
  qed
  then show thesis using that wb by blast
qed

lemma put_iovs_length [simp]: "length (put_iovs i xs iovec) = length iovec"
  by (induction i xs iovec rule: put_iovs.induct) simp_all

lemma put_iovs_take: "i + length xs \<le> length iovec \<Longrightarrow> take (i + length xs) (put_iovs i xs iovec) = take i iovec @ xs"
proof (induction i xs iovec rule: put_iovs.induct)
  case (1 i iovec)
  then show ?case by simp
next
  case (2 i x xs iovec)
  then have "take (Suc i + length xs) (put_iovs (Suc i) xs (iovec[i := x])) = take (Suc i) (iovec[i := x]) @ xs"
    by simp
  moreover have "take (Suc i) (iovec[i := x]) = take i iovec @ [x]"
    using 2 by (simp add: take_Suc_conv_app_nth)
  ultimately show ?case by simp
qed

lemma put_iovs_all: "length xs \<le> length iovec \<Longrightarrow> take (length xs) (put_iovs 0 xs iovec) = xs"
  using put_iovs_take [of 0 xs iovec] by simp

end
