(* ===== verification/KvOps.thy ===== *)
theory KvOps
  imports Media
begin

text \<open>
  The key-value interface of \<open>src/kv_store_mgr.cpp\<close>: put, get, delete, exists, the length
  query and the pool calls, on the manager's map of open stores. Each call validates, works on
  one store and releases what it took; the exits of the C++ functions are the cases of the
  definitions. A negative return code (or \<open>errno\<close> with a return of \<open>-1\<close>) is
  \<open>Inl\<close> of the error.
\<close>

record nvm_kv_store_mgr =
  mg_bufs :: nvm_kv_buffer_pool
  mg_map :: "int \<rightharpoonup> nvm_kv_store"

definition kv_time :: "'w nvm_env \<Rightarrow> 'w \<Rightarrow> int" where
  "kv_time E w = int (env_time E w)"

definition release_if :: "bool \<Rightarrow> membuf option \<Rightarrow> nat \<Rightarrow> nvm_kv_buffer_pool \<Rightarrow> nvm_kv_buffer_pool" where
  "release_if acquired buf sz bufs = (if acquired then fst (release_buf buf sz bufs) else bufs)"

section \<open>Put\<close>

definition put_cache_lookup ::
  "'w nvm_env \<Rightarrow> 'w others \<Rightarrow> u32 \<Rightarrow> bytes \<Rightarrow> nat \<Rightarrow> bool \<Rightarrow> nvm_kv_store \<Rightarrow> 'w \<Rightarrow>
   unit res \<times> nvm_kv_cache_context \<times> bool \<times> nvm_kv_store \<times> 'w" where
  "put_cache_lookup E oth pool_id key key_len replace st w =
     (case st_cache st of
        None \<Rightarrow> (Inr (), empty_context, False, st, w)
      | Some ca \<Rightarrow>
          (case kv_cache_get (get_expiry st) (kv_time E w) key (of_nat key_len) pool_id ca of
             (Inl _, ctx) \<Rightarrow> (Inr (), ctx, False, st, w)
           | (Inr _, ctx) \<Rightarrow>
               if \<not> replace \<and> \<not> cc_expired ctx then (Inl NVM_ERR_OBJECT_EXISTS, ctx, False, st, w)
               else
                 (let lba = ce_lba (cc_entry ctx);
                      (wait, st, w) = insert_lba_to_safe_list oth lba st w
                  in if wait then (Inr (), empty_context, False, delete_lba_from_safe_list lba st, w)
                     else (Inr (), ctx, True, st, w))))"

definition put_address ::
  "'w nvm_env \<Rightarrow> 'w others \<Rightarrow> u32 \<Rightarrow> bytes \<Rightarrow> nat \<Rightarrow> nat \<Rightarrow> bool \<Rightarrow> nvm_kv_cache_context \<Rightarrow> bool \<Rightarrow>
   'w gen_state \<Rightarrow> unit res \<times> u64 \<times> 'w gen_state" where
  "put_address E oth pool_id key key_len value_len replace ctx exists_in_cache gs =
     (if \<not> exists_in_cache then kv_gen_lba E oth pool_id key key_len value_len replace None gs
      else
        (let old_len = unat (ce_value_len (cc_entry ctx))
         in (Inr (), ce_lba (cc_entry ctx),
             if old_len > value_len then gs\<lparr>gs_trim_len := old_len\<rparr> else gs)))"

definition put_expiry :: "nvm_kv_store \<Rightarrow> u32 \<Rightarrow> u32" where
  "put_expiry st expiry =
     (if get_expiry st = KV_GLOBAL_EXPIRY then sm_global_expiry (get_store_metadata st) else expiry)"

definition put_write ::
  "'w nvm_env \<Rightarrow> u32 \<Rightarrow> bytes \<Rightarrow> nat \<Rightarrow> user_value \<Rightarrow> nat \<Rightarrow> u32 \<Rightarrow> u32 \<Rightarrow> write_plan \<Rightarrow> nat \<Rightarrow> u64 \<Rightarrow>
   nvm_kv_cache_context \<Rightarrow> 'w gen_state \<Rightarrow> (unit res \<times> 'w gen_state) option" where
  "put_write E pool_id key key_len value value_len expiry gen_count plan num_iovs lba ctx gs =
     (let st = gs_store gs; w = gs_world gs; device = get_store_device st
      in case env_new_iovs E w (nvm_max_num_iovs (dev_caps device)) of
           None \<Rightarrow> Some (Inl NVM_ERR_OUT_OF_MEMORY, gs)
         | Some iovec \<Rightarrow>
             (case kv_process_for_trim value_len (gs_trim_len gs) lba device of
                Inl e \<Rightarrow> Some (Inl e, gs)
              | Inr trims \<Rightarrow>
                  (case kv_process_for_write E device pool_id key key_len value value_len (gs_buf gs)
                          plan (put_expiry st expiry) gen_count lba w of
                     None \<Rightarrow> None
                   | Some (writes, buf, abs_expiry) \<Rightarrow>
                       (let gs = gs\<lparr>gs_buf := buf\<rparr>
                        in case nvm_writev E device (put_iovs 0 (trims @ writes) iovec) num_iovs True w of
                             (Inl e, w) \<Rightarrow> Some (Inl e, gs\<lparr>gs_world := w\<rparr>)
                           | (Inr _, w) \<Rightarrow>
                               (let st = st\<lparr>st_cache := map_option
                                      (kv_cache_put key (of_nat key_len) pool_id (of_nat value_len)
                                         abs_expiry gen_count lba (Some ctx) (kv_time E w)) (st_cache st)\<rparr>
                                in Some (Inr (), gs\<lparr>gs_store := st, gs_world := w\<rparr>))))))"

definition put_exit ::
  "unit res \<Rightarrow> nat \<Rightarrow> nat \<Rightarrow> u64 \<Rightarrow> membuf option \<Rightarrow> bool \<Rightarrow> nvm_kv_buffer_pool \<Rightarrow> nvm_kv_store \<Rightarrow> 'w \<Rightarrow>
   nat res \<times> nvm_kv_buffer_pool \<times> nvm_kv_store \<times> 'w" where
  "put_exit ret_code value_len buf_len lba buf insert_lba bufs st w =
     (case ret_code of Inl e \<Rightarrow> Inl e | Inr _ \<Rightarrow> Inr value_len,
      release_if (buf_len \<noteq> 0) buf buf_len bufs,
      if insert_lba then delete_lba_from_safe_list lba st else st, w)"

definition put_store ::
  "'w nvm_env \<Rightarrow> 'w others \<Rightarrow> u32 \<Rightarrow> bytes \<Rightarrow> nat \<Rightarrow> user_value \<Rightarrow> nat \<Rightarrow> u32 \<Rightarrow> bool \<Rightarrow> u32 \<Rightarrow>
   nvm_kv_buffer_pool \<Rightarrow> nvm_kv_store \<Rightarrow> 'w \<Rightarrow>
   (nat res \<times> nvm_kv_buffer_pool \<times> nvm_kv_store \<times> 'w) option" where
  "put_store E oth pool_id key key_len value value_len expiry replace gen_count bufs st w =
     (case put_cache_lookup E oth pool_id key key_len replace st w of
        (Inl e, _, _, st, w) \<Rightarrow> Some (put_exit (Inl e) value_len 0 0 None False bufs st w)
      | (Inr _, ctx, exists_in_cache, st, w) \<Rightarrow>
          (case kv_alloc_for_write E (get_store_device st) key_len (uv_addr value) value_len bufs w of
             None \<Rightarrow> None
           | Some (Inl e, buf, buf_len, _, _, bufs) \<Rightarrow>
               Some (put_exit (Inl e) value_len buf_len 0 buf exists_in_cache bufs st w)
           | Some (Inr _, buf, buf_len, num_iovs, plan, bufs) \<Rightarrow>
               (case put_address E oth pool_id key key_len value_len replace ctx exists_in_cache
                       \<lparr>gs_buf = the buf, gs_trim_len = 0, gs_insert_lba = exists_in_cache,
                        gs_store = st, gs_world = w\<rparr> of
                  (Inl e, lba, gs) \<Rightarrow>
                    Some (put_exit (Inl e) value_len buf_len lba (Some (gs_buf gs)) (gs_insert_lba gs) bufs
                            (gs_store gs) (gs_world gs))
                | (Inr _, lba, gs) \<Rightarrow>
                    map_option (\<lambda>(ret_code, gs).
                        put_exit ret_code value_len buf_len lba (Some (gs_buf gs)) (gs_insert_lba gs) bufs
                          (gs_store gs) (gs_world gs))
                      (put_write E pool_id key key_len value value_len expiry gen_count plan num_iovs lba
                         ctx gs))))"

definition on_store ::
  "int \<Rightarrow> (nvm_kv_store \<Rightarrow> ('a res \<times> nvm_kv_buffer_pool \<times> nvm_kv_store \<times> 'w) option) \<Rightarrow>
   nvm_kv_store_mgr \<Rightarrow> 'w \<Rightarrow> ('a res \<times> nvm_kv_store_mgr \<times> 'w) option" where
  "on_store kv_id f mg w =
     (case mg_map mg kv_id of
        None \<Rightarrow> Some (Inl NVM_ERR_INVALID_INPUT, mg, w)
      | Some st \<Rightarrow>
          map_option (\<lambda>(r, bufs, st, w). (r, \<lparr>mg_bufs = bufs, mg_map = (mg_map mg)(kv_id \<mapsto> st)\<rparr>, w)) (f st))"

definition kv_put ::
  "'w nvm_env \<Rightarrow> 'w others \<Rightarrow> int \<Rightarrow> int \<Rightarrow> bytes option \<Rightarrow> nat \<Rightarrow> user_value option \<Rightarrow> nat \<Rightarrow> u32 \<Rightarrow> bool \<Rightarrow> u32 \<Rightarrow>
   nvm_kv_store_mgr \<Rightarrow> 'w \<Rightarrow> (nat res \<times> nvm_kv_store_mgr \<times> 'w) option" where
  "kv_put E oth kv_id pool_id key key_len value value_len expiry replace gen_count mg w =
     on_store kv_id (\<lambda>st.
       if validate_pool KVPUT pool_id st \<and> validate_key key key_len \<and>
          validate_value KVPUT (value = None) value_len st
       then put_store E oth (word_of_int pool_id) (the key) key_len (the value) value_len expiry replace
              gen_count (mg_bufs mg) st w
       else Some (Inl NVM_ERR_INVALID_INPUT, mg_bufs mg, st, w)) mg w"

section \<open>Get\<close>

record kv_get_out =
  go_value :: bytes
  go_info :: nvm_kv_key_info
  go_len :: nat

definition get_result ::
  "nat \<Rightarrow> nvm_kv_key_info \<Rightarrow> nvm_kv_header \<Rightarrow> bytes \<Rightarrow> bytes \<Rightarrow> nat \<Rightarrow> kv_get_out" where
  "get_result ss info hdr buf value value_len =
     \<lparr>go_value =
        (if unat (hdr_value_offset hdr) < ss
         then memcpy 0 (mem_read (unat (hdr_value_offset hdr)) (unat (hdr_value_len hdr)) buf) value
         else value),
      go_info = info\<lparr>ki_gen_count := md_gen_count (hdr_metadata hdr),
                     ki_expiry := md_expiry (hdr_metadata hdr),
                     ki_key_len := hdr_key_len hdr, ki_value_len := hdr_value_len hdr\<rparr>,
      go_len = min (unat (hdr_value_len hdr)) value_len\<rparr>"

definition with_sector_buf ::
  "'w nvm_env \<Rightarrow> nat \<Rightarrow> nvm_kv_buffer_pool \<Rightarrow> 'w \<Rightarrow>
   (membuf \<Rightarrow> 'a res \<times> membuf) \<Rightarrow> ('a res \<times> nvm_kv_buffer_pool) option" where
  "with_sector_buf E ss bufs w f =
     (case get_buf (env_memalign E w) ss bufs of
        None \<Rightarrow> None
      | Some (buf, ret_buf_size, bufs) \<Rightarrow>
          (case buf of
             None \<Rightarrow> Some (Inl NVM_ERR_OUT_OF_MEMORY, bufs)
           | Some mb \<Rightarrow>
               if ret_buf_size < ss then Some (Inl NVM_ERR_OUT_OF_MEMORY, bufs)
               else (let (r, mb) = f mb in Some (r, release_if True (Some mb) ret_buf_size bufs))))"

definition get_store ::
  "'w nvm_env \<Rightarrow> u32 \<Rightarrow> bytes \<Rightarrow> nat \<Rightarrow> u64 \<Rightarrow> bytes \<Rightarrow> nat \<Rightarrow> bool \<Rightarrow> nvm_kv_key_info \<Rightarrow>
   nvm_kv_buffer_pool \<Rightarrow> nvm_kv_store \<Rightarrow> 'w \<Rightarrow>
   (kv_get_out res \<times> nvm_kv_buffer_pool \<times> nvm_kv_store \<times> 'w) option" where
  "get_store E pool_id key key_len value_addr value value_len read_exact info bufs st w =
     map_option (\<lambda>(r, bufs).
         case r of
           Inl e \<Rightarrow> (Inl e, bufs, st, w)
         | Inr (r, st) \<Rightarrow> (r, bufs, st, w))
       (with_sector_buf E (get_sector_size st) bufs w (\<lambda>buf.
          case kv_read_media E st pool_id key key_len value_addr value value_len read_exact buf w of
            (Inl e, buf, _) \<Rightarrow> (Inl e, buf)
          | (Inr (hdr, lba), buf, value) \<Rightarrow>
              (case kv_expire E st hdr lba True w of
                 (Inl e, st) \<Rightarrow> (Inr (Inl e, st), buf)
               | (Inr _, st) \<Rightarrow>
                   (Inr (Inr (get_result (get_sector_size st) info hdr (mb_mem buf) value value_len), st),
                    buf))))"

definition kv_get ::
  "'w nvm_env \<Rightarrow> int \<Rightarrow> int \<Rightarrow> bytes option \<Rightarrow> nat \<Rightarrow> (u64 \<times> bytes) option \<Rightarrow> nat \<Rightarrow> bool \<Rightarrow>
   nvm_kv_key_info option \<Rightarrow> nvm_kv_store_mgr \<Rightarrow> 'w \<Rightarrow> (kv_get_out res \<times> nvm_kv_store_mgr \<times> 'w) option" where
  "kv_get E kv_id pool_id key key_len value value_len read_exact key_info mg w =
     on_store kv_id (\<lambda>st.
       if validate_pool KVGET pool_id st \<and> validate_key key key_len \<and>
          validate_value KVGET (value = None) value_len st \<and> key_info \<noteq> None
       then get_store E (word_of_int pool_id) (the key) key_len (fst (the value)) (snd (the value))
              value_len read_exact (the key_info) (mg_bufs mg) st w
       else Some (Inl NVM_ERR_INVALID_INPUT, mg_bufs mg, st, w)) mg w"

section \<open>Delete\<close>

definition delete_cache ::
  "u32 \<Rightarrow> bytes \<Rightarrow> nat \<Rightarrow> nvm_kv_store \<Rightarrow> u64 option \<times> nvm_kv_store" where
  "delete_cache pool_id key key_len st =
     (case st_cache st of
        None \<Rightarrow> (None, st)
      | Some ca \<Rightarrow>
          (case kv_cache_delete key (of_nat key_len) pool_id ca of
             (Inl _, _, ca) \<Rightarrow> (None, st\<lparr>st_cache := Some ca\<rparr>)
           | (Inr _, e, ca) \<Rightarrow> (Some (ce_lba e), st\<lparr>st_cache := Some ca\<rparr>)))"

definition delete_find ::
  "'w nvm_env \<Rightarrow> u32 \<Rightarrow> bytes \<Rightarrow> nat \<Rightarrow> nvm_kv_store \<Rightarrow> nvm_kv_buffer_pool \<Rightarrow> 'w \<Rightarrow>
   (u64 res \<times> nvm_kv_buffer_pool) option" where
  "delete_find E pool_id key key_len st bufs w =
     with_sector_buf E (get_sector_size st) bufs w (\<lambda>buf.
       case kv_read_media E st pool_id key key_len 0 [] 0 False buf w of
         (Inl e, buf, _) \<Rightarrow> (Inl e, buf)
       | (Inr (hdr, lba), buf, _) \<Rightarrow> (Inr lba, buf))"

definition delete_done :: "unit res \<Rightarrow> unit res" where
  "delete_done r = (if r = Inl NVM_ERR_OBJECT_NOT_FOUND then Inr () else r)"

definition kv_delete_internal ::
  "'w nvm_env \<Rightarrow> u64 \<Rightarrow> nvm_kv_store \<Rightarrow> 'w \<Rightarrow> (unit res \<times> 'w) option" where
  "kv_delete_internal E del_lba st w = delete_range E st del_lba (get_del_sec_count st) w"

definition delete_locked ::
  "'w nvm_env \<Rightarrow> 'w others \<Rightarrow> u32 \<Rightarrow> bytes \<Rightarrow> nat \<Rightarrow> u64 \<Rightarrow> nvm_kv_buffer_pool \<Rightarrow> nvm_kv_store \<Rightarrow> 'w \<Rightarrow>
   (unit res \<times> nvm_kv_buffer_pool \<times> nvm_kv_store \<times> 'w) option" where
  "delete_locked E oth pool_id key key_len held_lba bufs st w =
     (let (wait, st, w) = insert_lba_to_safe_list oth held_lba st w
      in case (if wait then delete_find E pool_id key key_len st bufs w
               else Some (Inr held_lba, bufs)) of
           None \<Rightarrow> None
         | Some (Inl e, bufs) \<Rightarrow>
             Some (delete_done (Inl e), bufs, delete_lba_from_safe_list held_lba st, w)
         | Some (Inr lba, bufs) \<Rightarrow>
             (case kv_delete_internal E lba st w of
                None \<Rightarrow> None
              | Some (r, w) \<Rightarrow> Some (r, bufs, delete_lba_from_safe_list lba st, w)))"

definition kv_delete_sync ::
  "'w nvm_env \<Rightarrow> 'w others \<Rightarrow> u32 \<Rightarrow> bytes \<Rightarrow> nat \<Rightarrow> nvm_kv_buffer_pool \<Rightarrow> nvm_kv_store \<Rightarrow> 'w \<Rightarrow>
   (unit res \<times> nvm_kv_buffer_pool \<times> nvm_kv_store \<times> 'w) option" where
  "kv_delete_sync E oth pool_id key key_len bufs st w =
     (let (cached, st) = delete_cache pool_id key key_len st
      in case (case cached of Some lba \<Rightarrow> Some (Inr lba, bufs)
               | None \<Rightarrow> delete_find E pool_id key key_len st bufs w) of
           None \<Rightarrow> None
         | Some (Inl e, bufs) \<Rightarrow> Some (delete_done (Inl e), bufs, st, w)
         | Some (Inr lba, bufs) \<Rightarrow> delete_locked E oth pool_id key key_len lba bufs st w)"

definition kv_delete ::
  "'w nvm_env \<Rightarrow> 'w others \<Rightarrow> int \<Rightarrow> int \<Rightarrow> bytes option \<Rightarrow> nat \<Rightarrow> nvm_kv_store_mgr \<Rightarrow> 'w \<Rightarrow>
   (unit res \<times> nvm_kv_store_mgr \<times> 'w) option" where
  "kv_delete E oth kv_id pool_id key key_len mg w =
     on_store kv_id (\<lambda>st.
       if validate_pool KVDELETE pool_id st \<and> validate_key key key_len
       then kv_delete_sync E oth (word_of_int pool_id) (the key) key_len (mg_bufs mg) st w
       else Some (Inl NVM_ERR_INVALID_INPUT, mg_bufs mg, st, w)) mg w"

section \<open>Queries on one key\<close>

definition header_info :: "u32 \<Rightarrow> nvm_kv_header \<Rightarrow> nvm_kv_key_info" where
  "header_info pool_id hdr =
     \<lparr>ki_pool_id = pool_id, ki_key_len = hdr_key_len hdr, ki_value_len = hdr_value_len hdr,
      ki_expiry = md_expiry (hdr_metadata hdr), ki_gen_count = md_gen_count (hdr_metadata hdr)\<rparr>"

text \<open>
  \<open>kv_exists\<close> reads the header out of the buffer after it has been released; with one thread
  the contents are still those of the read. The answer \<open>None\<close> is the return value 0.
\<close>

definition exists_store ::
  "'w nvm_env \<Rightarrow> u32 \<Rightarrow> bytes \<Rightarrow> nat \<Rightarrow> nvm_kv_buffer_pool \<Rightarrow> nvm_kv_store \<Rightarrow> 'w \<Rightarrow>
   (nvm_kv_key_info option res \<times> nvm_kv_buffer_pool \<times> nvm_kv_store \<times> 'w) option" where
  "exists_store E pool_id key key_len bufs st w =
     map_option (\<lambda>(r, bufs).
         case r of
           Inl e \<Rightarrow> (Inl e, bufs, st, w)
         | Inr (r, st) \<Rightarrow> (r, bufs, st, w))
       (with_sector_buf E (get_sector_size st) bufs w (\<lambda>buf.
          case exists_loop E st pool_id key key_len 1
                 (key_base st pool_id key key_len OR pool_hash_of st pool_id) w buf of
            (Inl e, buf) \<Rightarrow> (Inl e, buf)
          | (Inr None, buf) \<Rightarrow> (Inr (Inr None, st), buf)
          | (Inr (Some lba), buf) \<Rightarrow>
              (let hdr = load_header (mb_mem buf)
               in case kv_expire E st hdr lba True w of
                    (Inl e, st) \<Rightarrow>
                      (Inr (if e = NVM_ERR_OBJECT_NOT_FOUND then Inr None else Inl e, st), buf)
                  | (Inr _, st) \<Rightarrow> (Inr (Inr (Some (header_info pool_id hdr)), st), buf))))"

definition kv_exists ::
  "'w nvm_env \<Rightarrow> int \<Rightarrow> int \<Rightarrow> bytes option \<Rightarrow> nat \<Rightarrow> bool \<Rightarrow> nvm_kv_store_mgr \<Rightarrow> 'w \<Rightarrow>
   (nvm_kv_key_info option res \<times> nvm_kv_store_mgr \<times> 'w) option" where
  "kv_exists E kv_id pool_id key key_len key_info_null mg w =
     on_store kv_id (\<lambda>st.
       if validate_pool KVEXISTS pool_id st \<and> validate_key key key_len \<and> \<not> key_info_null
       then exists_store E (word_of_int pool_id) (the key) key_len (mg_bufs mg) st w
       else Some (Inl NVM_ERR_INVALID_INPUT, mg_bufs mg, st, w)) mg w"

definition kv_get_val_len ::
  "'w nvm_env \<Rightarrow> int \<Rightarrow> int \<Rightarrow> bytes option \<Rightarrow> nat \<Rightarrow> nvm_kv_store_mgr \<Rightarrow> 'w \<Rightarrow>
   (nat res \<times> nvm_kv_store_mgr \<times> 'w) option" where
  "kv_get_val_len E kv_id pool_id key key_len mg w =
     on_store kv_id (\<lambda>st.
       Some (if validate_pool KVGETVALLEN pool_id st \<and> validate_key key key_len
             then (let pool = word_of_int pool_id
                   in case val_len_loop E st pool (the key) key_len 1
                             (key_base st pool (the key) key_len OR pool_hash_of st pool) 0 w of
                        (Inl e, _) \<Rightarrow> (Inl e, mg_bufs mg, st, w)
                      | (Inr _, max_val_len) \<Rightarrow>
                          (Inr (max_val_len * get_sector_size st), mg_bufs mg, st, w))
             else (Inl NVM_ERR_INVALID_INPUT, mg_bufs mg, st, w))) mg w"

definition key_info_store ::
  "'w nvm_env \<Rightarrow> u32 \<Rightarrow> bytes \<Rightarrow> nat \<Rightarrow> nvm_kv_buffer_pool \<Rightarrow> nvm_kv_store \<Rightarrow> 'w \<Rightarrow>
   (nvm_kv_key_info res \<times> nvm_kv_buffer_pool \<times> nvm_kv_store \<times> 'w) option" where
  "key_info_store E pool_id key key_len bufs st w =
     map_option (\<lambda>(r, bufs).
         case r of
           Inl e \<Rightarrow> (Inl e, bufs, st, w)
         | Inr (r, st) \<Rightarrow> (r, bufs, st, w))
       (with_sector_buf E (get_sector_size st) bufs w (\<lambda>buf.
          case kv_read_media E st pool_id key key_len 0 [] 0 False buf w of
            (Inl e, buf, _) \<Rightarrow> (Inl e, buf)
          | (Inr (hdr, lba), buf, _) \<Rightarrow>
              (case kv_expire E st hdr lba True w of
                 (Inl e, st) \<Rightarrow> (Inr (Inl e, st), buf)
               | (Inr _, st) \<Rightarrow> (Inr (Inr (header_info pool_id hdr), st), buf))))"

definition kv_get_key_info ::
  "'w nvm_env \<Rightarrow> int \<Rightarrow> int \<Rightarrow> bytes option \<Rightarrow> nat \<Rightarrow> bool \<Rightarrow> nvm_kv_store_mgr \<Rightarrow> 'w \<Rightarrow>
   (nvm_kv_key_info res \<times> nvm_kv_store_mgr \<times> 'w) option" where
  "kv_get_key_info E kv_id pool_id key key_len key_info_null mg w =
     on_store kv_id (\<lambda>st.
       if validate_pool KVGETKEYINFO pool_id st \<and> validate_key key key_len \<and> \<not> key_info_null
       then key_info_store E (word_of_int pool_id) (the key) key_len (mg_bufs mg) st w
       else Some (Inl NVM_ERR_INVALID_INPUT, mg_bufs mg, st, w)) mg w"

section \<open>Batched get\<close>

record kv_get_iov =
  gi_key :: "bytes option"
  gi_key_len :: nat
  gi_value :: "(u64 \<times> bytes) option"
  gi_value_len :: nat

fun batch_get_loop ::
  "'w nvm_env \<Rightarrow> int \<Rightarrow> int \<Rightarrow> kv_get_iov list \<Rightarrow> nvm_kv_key_info \<Rightarrow> bytes list \<Rightarrow> nvm_kv_store_mgr \<Rightarrow> 'w \<Rightarrow>
   (bytes list res \<times> nvm_kv_store_mgr \<times> 'w) option" where
  "batch_get_loop E kv_id pool_id [] info got mg w = Some (Inr (rev got), mg, w)"
| "batch_get_loop E kv_id pool_id (iov # iovs) info got mg w =
     (case kv_get E kv_id pool_id (gi_key iov) (gi_key_len iov) (gi_value iov) (gi_value_len iov) True
             (Some info) mg w of
        None \<Rightarrow> None
      | Some (Inl e, mg, w) \<Rightarrow> Some (Inl e, mg, w)
      | Some (Inr out, mg, w) \<Rightarrow>
          batch_get_loop E kv_id pool_id iovs (go_info out) (go_value out # got) mg w)"

definition kv_batch_get ::
  "'w nvm_env \<Rightarrow> int \<Rightarrow> int \<Rightarrow> kv_get_iov list option \<Rightarrow> nvm_kv_key_info \<Rightarrow> nvm_kv_store_mgr \<Rightarrow> 'w \<Rightarrow>
   (bytes list res \<times> nvm_kv_store_mgr \<times> 'w) option" where
  "kv_batch_get E kv_id pool_id kv_iov info mg w =
     (case mg_map mg kv_id of
        None \<Rightarrow> Some (Inl NVM_ERR_INVALID_INPUT, mg, w)
      | Some st \<Rightarrow>
          if validate_pool KVBATCHGET pool_id st \<and>
             validate_batch (kv_iov = None) (length (case kv_iov of None \<Rightarrow> [] | Some iovs \<Rightarrow> iovs))
          then batch_get_loop E kv_id pool_id (the kv_iov) info [] mg w
          else Some (Inl NVM_ERR_INVALID_INPUT, mg, w))"

section \<open>Pools\<close>

definition with_pm :: "nvm_kv_pool_mgr \<Rightarrow> nvm_kv_store \<Rightarrow> nvm_kv_store" where
  "with_pm pm st = st\<lparr>st_pm := pm\<rparr>"

definition kv_pool_create ::
  "'w nvm_env \<Rightarrow> int \<Rightarrow> bytes option \<Rightarrow> nvm_kv_store_mgr \<Rightarrow> 'w \<Rightarrow>
   (int res \<times> nvm_kv_store_mgr \<times> 'w) option" where
  "kv_pool_create E kv_id pool_tag mg w =
     on_store kv_id (\<lambda>st.
       map_option (\<lambda>(r, pm, w). (r, mg_bufs mg, with_pm pm st, w))
         (create_pool E pool_tag (st_pm st) w)) mg w"

definition kv_pool_delete ::
  "'w nvm_env \<Rightarrow> int \<Rightarrow> int \<Rightarrow> nvm_kv_store_mgr \<Rightarrow> 'w \<Rightarrow> (unit res \<times> nvm_kv_store_mgr \<times> 'w) option" where
  "kv_pool_delete E kv_id pool_id mg w =
     on_store kv_id (\<lambda>st.
       if validate_pool KVPOOLDELETE pool_id st
       then map_option (\<lambda>(r, wake, pm, cache, w).
              (r, mg_bufs mg, (with_pm pm st)\<lparr>st_cache := cache\<rparr>, w))
              (delete_pool E pool_id (st_pm st) (st_cache st) w)
       else Some (Inl NVM_ERR_INVALID_INPUT, mg_bufs mg, st, w)) mg w"

definition kv_get_pool_info ::
  "int \<Rightarrow> int \<Rightarrow> bool \<Rightarrow> nvm_kv_store_mgr \<Rightarrow> nvm_kv_pool_status res" where
  "kv_get_pool_info kv_id pool_id info_null mg =
     (if info_null then Inl NVM_ERR_INVALID_INPUT
      else
        (case mg_map mg kv_id of
           None \<Rightarrow> Inl NVM_ERR_INVALID_INPUT
         | Some st \<Rightarrow> Inr (check_pool_status pool_id (st_pm st))))"

definition kv_get_pool_metadata ::
  "int \<Rightarrow> bool \<Rightarrow> nat \<Rightarrow> nat \<Rightarrow> nvm_kv_store_mgr \<Rightarrow> (nat \<times> bytes) list res" where
  "kv_get_pool_metadata kv_id md_null count start_count mg =
     (case mg_map mg kv_id of
        None \<Rightarrow> Inl NVM_ERR_INVALID_INPUT
      | Some st \<Rightarrow>
          if md_null \<or> \<not> validate_pool KVGETPOOLMETADATA (int start_count) st
          then Inl NVM_ERR_INVALID_INPUT
          else
            (let num_pools = unat (sm_total_no_pools (get_store_metadata st)) - NVM_KV_MIN_POOLS
             in Inr (map (\<lambda>pool_id. (pool_id, get_pool_tag (st_pm st) pool_id))
                      (take count [start_count..<Suc num_pools]))))"

section \<open>The whole store\<close>

definition kv_set_global_expiry ::
  "'w nvm_env \<Rightarrow> int \<Rightarrow> u32 \<Rightarrow> nvm_kv_store_mgr \<Rightarrow> 'w \<Rightarrow> (unit res \<times> nvm_kv_store_mgr \<times> 'w) option" where
  "kv_set_global_expiry E kv_id expiry mg w =
     (if expiry = 0 then Some (Inl NVM_ERR_INVALID_INPUT, mg, w)
      else
        on_store kv_id (\<lambda>st.
          if get_expiry st \<noteq> KV_GLOBAL_EXPIRY
          then Some (Inl NVM_ERR_OPERATION_NOT_SUPPORTED, mg_bufs mg, st, w)
          else
            (let st = set_metadata (\<lambda>m. m\<lparr>sm_global_expiry := expiry\<rparr>) st;
                 (r, w) = persist_kv_metadata E st w
             in Some (r, mg_bufs mg, st, w))) mg w)"

definition kv_delete_all ::
  "'w nvm_env \<Rightarrow> 'w others \<Rightarrow> int \<Rightarrow> nvm_kv_store_mgr \<Rightarrow> 'w \<Rightarrow> (unit res \<times> nvm_kv_store_mgr \<times> 'w) option" where
  "kv_delete_all E oth kv_id mg w =
     on_store kv_id (\<lambda>st.
       map_option (\<lambda>(r, st, w). (r, mg_bufs mg, st, w)) (store_delete_all E oth st w)) mg w"

definition kv_close :: "bool \<Rightarrow> int \<Rightarrow> nvm_kv_store_mgr \<Rightarrow> unit res \<times> nvm_kv_store_mgr" where
  "kv_close release_ok kv_id mg =
     (case mg_map mg kv_id of
        None \<Rightarrow> (Inl NVM_ERR_INVALID_INPUT, mg)
      | Some st \<Rightarrow>
          if \<not> release_ok then (Inl NVM_ERR_INVALID_INPUT, mg)
          else (Inr (), mg\<lparr>mg_map := (mg_map mg)(kv_id := None)\<rparr>))"

end
