(* ===== verification/KvIterator.thy ===== *)
theory KvIterator
  imports KvOps
begin

text \<open>
  The iterators of a store, \<open>src/kv_iterator.cpp\<close>: a table of batch iterators, each a
  cursor of the device's logical range iterator with the ranges it fetched last. The object is the
  record \<open>nvm_kv_iterator\<close>; the store it points to is an argument. \<open>malloc\<close> is
  an argument as well: the raw object it returns, whose fields keep their values where the
  code leaves them uninitialised. \<open>range_iter_law\<close> is what the proofs need of the device's
  iterator: a call hands out the next ranges of a fixed list, in order, at most \<open>max_ranges\<close>.
\<close>

datatype kv_iter_type = KV_REGULAR_ITER | KV_POOL_DEL_ITER | KV_ARB_EXP_ITER | KV_GLB_EXP_ITER

record kv_batch_iterator =
  bi_pool_id :: u32
  bi_pool_hash :: u32
  bi_num_ranges_found :: nat
  bi_pos :: nat
  bi_it :: nvm_logical_range_iter

record nvm_kv_iterator =
  ni_iter :: "kv_batch_iterator option list"
  ni_pool_bits :: nat
  ni_pool_mask :: u32
  ni_max_pools :: nat
  ni_all_pool_id :: int
  ni_buffer_pool :: nvm_kv_buffer_pool
  ni_initialized :: bool

definition M_POOL_DEL_ITR :: nat where "M_POOL_DEL_ITR = NVM_KV_MAX_ITERATORS"
definition M_ARB_EXP_ITR :: nat where "M_ARB_EXP_ITR = M_POOL_DEL_ITR + 1"
definition M_GLB_EXP_ITR :: nat where "M_GLB_EXP_ITR = M_ARB_EXP_ITR + 1"
definition M_NO_ITR :: nat where "M_NO_ITR = NVM_KV_MAX_ITERATORS + 3"
definition M_MAX_BUFFERS_IN_POOL :: nat where "M_MAX_BUFFERS_IN_POOL = 128"

lemmas iterator_indices = M_POOL_DEL_ITR_def M_ARB_EXP_ITR_def M_GLB_EXP_ITR_def M_NO_ITR_def
  NVM_KV_MAX_ITERATORS_def

section \<open>The table of iterators\<close>

definition iterator_new :: "nvm_kv_buffer_pool \<Rightarrow> nat \<Rightarrow> nat \<Rightarrow> int \<Rightarrow> nvm_kv_iterator" where
  "iterator_new bufs pool_bits max_pools all_poolid =
     \<lparr>ni_iter = replicate M_NO_ITR None, ni_pool_bits = pool_bits,
      ni_pool_mask = push_bit pool_bits 1 - 1, ni_max_pools = max_pools,
      ni_all_pool_id = all_poolid, ni_buffer_pool = bufs, ni_initialized = False\<rparr>"

definition iterator_initialize :: "(nat \<Rightarrow> membuf option) \<Rightarrow> nvm_kv_iterator \<Rightarrow> unit res \<times> nvm_kv_iterator" where
  "iterator_initialize memalign ni =
     (if ni_initialized ni then (Inr (), ni)
      else
        (case bp_initialize memalign M_MAX_BUFFERS_IN_POOL M_BUFFER_LIMIT M_BUFFER_PAGE_ALIGN (ni_buffer_pool ni) of
           (Inl e, bufs) \<Rightarrow> (Inl e, ni\<lparr>ni_buffer_pool := bufs\<rparr>)
         | (Inr _, bufs) \<Rightarrow> (Inr (), ni\<lparr>ni_buffer_pool := bufs, ni_initialized := True\<rparr>)))"

fun first_free :: "kv_batch_iterator option list \<Rightarrow> nat option" where
  "first_free [] = None"
| "first_free (None # its) = Some 0"
| "first_free (Some bi # its) = map_option Suc (first_free its)"

definition put_iter :: "nat \<Rightarrow> kv_batch_iterator option \<Rightarrow> nvm_kv_iterator \<Rightarrow> nvm_kv_iterator" where
  "put_iter i bi ni = ni\<lparr>ni_iter := (ni_iter ni)[i := bi]\<rparr>"

definition scanner_slot :: "kv_iter_type \<Rightarrow> nat" where
  "scanner_slot iter_type =
     (case iter_type of
        KV_POOL_DEL_ITER \<Rightarrow> M_POOL_DEL_ITR
      | KV_ARB_EXP_ITER \<Rightarrow> M_ARB_EXP_ITR
      | _ \<Rightarrow> M_GLB_EXP_ITR)"

definition alloc_iter ::
  "kv_batch_iterator option \<Rightarrow> kv_iter_type \<Rightarrow> int \<Rightarrow> u32 \<Rightarrow> nvm_kv_iterator \<Rightarrow> nat res \<times> nvm_kv_iterator" where
  "alloc_iter malloc iter_type pool_id pool_hash ni =
     (case malloc of
        None \<Rightarrow> (Inl NVM_ERR_OUT_OF_MEMORY, ni)
      | Some batch_iter \<Rightarrow>
          (let batch_iter =
             (if iter_type \<noteq> KV_POOL_DEL_ITER
              then batch_iter\<lparr>bi_pool_id := word_of_int pool_id, bi_pool_hash := pool_hash, bi_pos := 0,
                              bi_num_ranges_found := 0\<rparr>
              else batch_iter)
           in if iter_type = KV_REGULAR_ITER
              then
                (case first_free (take NVM_KV_MAX_ITERATORS (ni_iter ni)) of
                   None \<Rightarrow> (Inl NVM_ERR_MAX_LIMIT_REACHED, ni)
                 | Some i \<Rightarrow> (Inr i, put_iter i (Some batch_iter) ni))
              else if ni_iter ni ! scanner_slot iter_type \<noteq> None then (Inl NVM_ERR_OBJECT_EXISTS, ni)
              else (Inr (scanner_slot iter_type), put_iter (scanner_slot iter_type) (Some batch_iter) ni)))"

definition iter_id_ok :: "int \<Rightarrow> kv_iter_type \<Rightarrow> bool" where
  "iter_id_ok it_id iter_type \<longleftrightarrow>
     (if iter_type = KV_REGULAR_ITER then 0 \<le> it_id \<and> it_id < int NVM_KV_MAX_ITERATORS
      else it_id = int (scanner_slot iter_type))"

definition get_iter :: "int \<Rightarrow> kv_iter_type \<Rightarrow> nvm_kv_iterator \<Rightarrow> kv_batch_iterator option" where
  "get_iter iter_id iter_type ni =
     (if iter_id_ok iter_id iter_type then ni_iter ni ! nat iter_id else None)"

definition validate_iter :: "nvm_kv_store \<Rightarrow> int \<Rightarrow> kv_iter_type \<Rightarrow> nvm_kv_iterator \<Rightarrow> unit res" where
  "validate_iter st it_id iter_type ni =
     (if \<not> iter_id_ok it_id iter_type then Inl NVM_ERR_INVALID_INPUT
      else
        (case ni_iter ni ! nat it_id of
           None \<Rightarrow> Inl NVM_ERR_INVALID_INPUT
         | Some batch_iter \<Rightarrow>
             if check_pool_status (sint (bi_pool_id batch_iter)) (st_pm st) \<noteq> POOL_IN_USE \<and>
                bi_pool_id batch_iter \<noteq> word_of_int get_all_poolid
             then Inl NVM_ERR_INVALID_INPUT
             else Inr ()))"

text \<open>The iterator an operation works on, after the validation that each of them starts with.\<close>

definition valid_iter :: "nvm_kv_store \<Rightarrow> int \<Rightarrow> kv_iter_type \<Rightarrow> nvm_kv_iterator \<Rightarrow> kv_batch_iterator res" where
  "valid_iter st it_id iter_type ni =
     (case validate_iter st it_id iter_type ni of
        Inl e \<Rightarrow> Inl e
      | Inr _ \<Rightarrow> Inr (the (ni_iter ni ! nat it_id)))"

definition init_iter ::
  "nvm_kv_store \<Rightarrow> int \<Rightarrow> u64 \<Rightarrow> nat \<Rightarrow> kv_iter_type \<Rightarrow> nvm_kv_iterator \<Rightarrow> unit res \<times> nvm_kv_iterator" where
  "init_iter st it_id search_base search_length iter_type ni =
     (case valid_iter st it_id iter_type ni of
        Inl e \<Rightarrow> (Inl e, ni)
      | Inr batch_iter \<Rightarrow>
          (let it = (bi_it batch_iter)
                 \<lparr>it_range_to_iterate := \<lparr>br_start_lba = search_base, br_length = search_length\<rparr>,
                  it_max_ranges := nvm_max_num_logical_iter_ranges (dev_caps (get_store_device st)),
                  it_filter_pattern := ucast (bi_pool_hash batch_iter),
                  it_filter_mask := (if bi_pool_hash batch_iter = 0 then 0 else ucast (ni_pool_mask ni))\<rparr>
           in (Inr (), put_iter (nat it_id) (Some (batch_iter\<lparr>bi_it := it\<rparr>)) ni)))"

definition free_iterator ::
  "nvm_kv_store \<Rightarrow> int \<Rightarrow> kv_iter_type \<Rightarrow> nvm_kv_iterator \<Rightarrow> unit res \<times> nvm_kv_iterator" where
  "free_iterator st it_id iter_type ni =
     (case validate_iter st it_id iter_type ni of
        Inl e \<Rightarrow> (Inl e, ni)
      | Inr _ \<Rightarrow> (Inr (), put_iter (nat it_id) None ni))"

section \<open>Moving an iterator\<close>

definition set_expiry_filter ::
  "'w nvm_env \<Rightarrow> nvm_kv_store \<Rightarrow> kv_iter_type \<Rightarrow> 'w \<Rightarrow> nvm_logical_range_iter \<Rightarrow> nvm_logical_range_iter res" where
  "set_expiry_filter E st iter_type w it =
     (if iter_type = KV_GLB_EXP_ITER
      then
        (let global_expiry = sm_global_expiry (get_store_metadata st)
         in if global_expiry = 0 then Inl NVM_ERR_INTERNAL_FAILURE
            else Inr (it\<lparr>it_filter_expiry := int (env_time E w) - uint global_expiry\<rparr>))
      else Inr (it\<lparr>it_filter_expiry := 0\<rparr>))"

definition iterate ::
  "'w nvm_env \<Rightarrow> nvm_kv_store \<Rightarrow> int \<Rightarrow> kv_iter_type \<Rightarrow> 'w \<Rightarrow> nvm_kv_iterator \<Rightarrow> unit res \<times> nvm_kv_iterator" where
  "iterate E st it_id iter_type w ni =
     (case valid_iter st it_id iter_type ni of
        Inl e \<Rightarrow> (Inl e, ni)
      | Inr batch_iter \<Rightarrow>
          if bi_pos batch_iter + 1 < bi_num_ranges_found batch_iter
          then (Inr (), put_iter (nat it_id) (Some (batch_iter\<lparr>bi_pos := bi_pos batch_iter + 1\<rparr>)) ni)
          else
            (case set_expiry_filter E st iter_type w (bi_it batch_iter) of
               Inl e \<Rightarrow> (Inl e, ni)
             | Inr it \<Rightarrow>
                 (case env_range_iter E (dev_handle (get_store_device st)) it w of
                    (ret_code, it) \<Rightarrow>
                      (let batch_iter = batch_iter\<lparr>bi_pos := 0, bi_it := it\<rparr>
                       in if ret_code < 0
                          then (Inl NVM_ERR_INTERNAL_FAILURE, put_iter (nat it_id) (Some batch_iter) ni)
                          else if ret_code = 0
                          then (Inl NVM_ERR_OBJECT_NOT_FOUND, put_iter (nat it_id) (Some batch_iter) ni)
                          else (Inr (), put_iter (nat it_id)
                                  (Some (batch_iter\<lparr>bi_num_ranges_found := nat ret_code\<rparr>)) ni)))))"

definition current_range :: "kv_batch_iterator \<Rightarrow> nvm_block_range" where
  "current_range batch_iter = it_ranges (bi_it batch_iter) ! bi_pos batch_iter"

definition get_iter_loc ::
  "nvm_kv_store \<Rightarrow> int \<Rightarrow> kv_iter_type \<Rightarrow> nvm_kv_iterator \<Rightarrow> (u64 \<times> nat) res" where
  "get_iter_loc st it_id iter_type ni =
     (case valid_iter st it_id iter_type ni of
        Inl e \<Rightarrow> Inl e
      | Inr batch_iter \<Rightarrow>
          Inr (br_start_lba (current_range batch_iter), br_length (current_range batch_iter)))"

text \<open>
  The pool of the key at an address, read from its header. \<open>None\<close> is a wait for a buffer that no
  thread releases.
\<close>

definition get_poolid ::
  "'w nvm_env \<Rightarrow> nvm_kv_store \<Rightarrow> u64 \<Rightarrow> 'w \<Rightarrow> nvm_kv_iterator \<Rightarrow> (int res \<times> nvm_kv_iterator) option" where
  "get_poolid E st key_loc w ni =
     (let ss = get_sector_size st
      in map_option (\<lambda>(r, bufs). (r, ni\<lparr>ni_buffer_pool := bufs\<rparr>))
           (with_sector_buf E ss (ni_buffer_pool ni) w (\<lambda>buf.
              case nvm_readv E (get_store_device st) [read_iov (mb_addr buf) ss key_loc] w of
                Inl e \<Rightarrow> (Inl e, buf)
              | Inr got \<Rightarrow>
                  (let buf = buf\<lparr>mb_mem := memcpy 0 (take ss got) (mb_mem buf)\<rparr>
                   in (Inr (sint (hdr_pool_id (load_header (mb_mem buf)))), buf)))))"

text \<open>
  The loop of \<open>iter_over_pool\<close>: one round per range. \<open>None\<close> is a loop that does not
  end. A pool id of \<open>2 ^ 31\<close> or more on the media is negative as an \<open>int32_t\<close> and ends the
  call with that number as its error code; no store writes one, and the model calls it an
  internal failure.
\<close>

definition pool_matches :: "kv_batch_iterator \<Rightarrow> nvm_kv_iterator \<Rightarrow> bool" where
  "pool_matches batch_iter ni \<longleftrightarrow>
     bi_pool_hash batch_iter = ucast (br_start_lba (current_range batch_iter)) AND ni_pool_mask ni \<or>
     sint (bi_pool_id batch_iter) = ni_all_pool_id ni"

definition hash_is_id :: "nvm_kv_iterator \<Rightarrow> bool" where
  "hash_is_id ni \<longleftrightarrow> ni_max_pools ni \<le> 2 ^ ni_pool_bits ni"

definition iter_at :: "int \<Rightarrow> nvm_kv_iterator \<Rightarrow> kv_batch_iterator" where
  "iter_at it_id ni = the (ni_iter ni ! nat it_id)"

partial_function (option) iter_over_loop ::
  "'w nvm_env \<Rightarrow> nvm_kv_store \<Rightarrow> int \<Rightarrow> kv_iter_type \<Rightarrow> 'w \<Rightarrow> nvm_kv_iterator \<Rightarrow>
   (unit res \<times> nvm_kv_iterator) option" where
  "iter_over_loop E st it_id iter_type w ni =
     (let s = iterate E st it_id iter_type w ni; batch_iter = iter_at it_id (snd s)
      in if isl (fst s) then Some s
         else if \<not> pool_matches batch_iter (snd s) then iter_over_loop E st it_id iter_type w (snd s)
         else if hash_is_id (snd s) then Some s
         else Option.bind (get_poolid E st (br_start_lba (current_range batch_iter)) w (snd s)) (\<lambda>q.
                case fst q of
                  Inl e \<Rightarrow> Some (Inl e, snd q)
                | Inr found_pool_id \<Rightarrow>
                    if found_pool_id < 0 then Some (Inl NVM_ERR_INTERNAL_FAILURE, snd q)
                    else if found_pool_id = sint (bi_pool_id batch_iter) then Some (Inr (), snd q)
                    else iter_over_loop E st it_id iter_type w (snd q)))"

definition iter_over_pool ::
  "'w nvm_env \<Rightarrow> nvm_kv_store \<Rightarrow> int \<Rightarrow> kv_iter_type \<Rightarrow> 'w \<Rightarrow> nvm_kv_iterator \<Rightarrow>
   (unit res \<times> nvm_kv_iterator) option" where
  "iter_over_pool E st it_id iter_type w ni =
     (case valid_iter st it_id iter_type ni of
        Inl e \<Rightarrow> Some (Inl e, ni)
      | Inr _ \<Rightarrow> iter_over_loop E st it_id iter_type w ni)"

section \<open>Counting\<close>

partial_function (option) count_loop ::
  "'w nvm_env \<Rightarrow> int \<Rightarrow> 'w \<Rightarrow> nvm_logical_range_iter \<Rightarrow> nat \<Rightarrow> nat res option" where
  "count_loop E handle w it num_ranges =
     (let q = env_range_iter E handle it w
      in if fst q < 0 then Some (Inl NVM_ERR_INTERNAL_FAILURE)
         else if fst q = 0 then Some (Inr num_ranges)
         else count_loop E handle w (snd q) (num_ranges + nat (fst q)))"

definition count_ranges ::
  "'w nvm_env \<Rightarrow> nvm_kv_store \<Rightarrow> nvm_logical_range_iter option \<Rightarrow> u64 \<Rightarrow> nat \<Rightarrow> 'w \<Rightarrow> nat res option" where
  "count_ranges E st malloc search_base search_length w =
     (case malloc of
        None \<Rightarrow> Some (Inl NVM_ERR_OUT_OF_MEMORY)
      | Some it \<Rightarrow>
          count_loop E (dev_handle (get_store_device st)) w
            (it\<lparr>it_range_to_iterate := \<lparr>br_start_lba = search_base, br_length = search_length\<rparr>,
                it_max_ranges := nvm_max_num_logical_iter_ranges (dev_caps (get_store_device st)),
                it_filter_mask := 0, it_filter_expiry := 0\<rparr>) 0)"

section \<open>The ranges ahead of an iterator\<close>

definition range_iter_law ::
  "'w nvm_env \<Rightarrow> nvm_kv_store_device \<Rightarrow> ('w \<Rightarrow> nvm_logical_range_iter \<Rightarrow> nvm_block_range list) \<Rightarrow> bool" where
  "range_iter_law E dev ahead \<longleftrightarrow>
     (\<forall>it w.
        let (n, it') = env_range_iter E (dev_handle dev) it w; got = min (it_max_ranges it) (length (ahead w it))
        in n = int got \<and> take got (it_ranges it') = take got (ahead w it) \<and> got \<le> length (it_ranges it') \<and>
           ahead w it' = drop got (ahead w it) \<and> it_max_ranges it' = it_max_ranges it \<and>
           it_filter_expiry it' = it_filter_expiry it)"

text \<open>The ranges a regular iterator still has to visit: the rest of the batch, then the device's.\<close>

definition upcoming ::
  "('w \<Rightarrow> nvm_logical_range_iter \<Rightarrow> nvm_block_range list) \<Rightarrow> 'w \<Rightarrow> kv_batch_iterator \<Rightarrow> nvm_block_range list" where
  "upcoming ahead w bi =
     drop (Suc (bi_pos bi)) (take (bi_num_ranges_found bi) (it_ranges (bi_it bi))) @
     ahead w ((bi_it bi)\<lparr>it_filter_expiry := 0\<rparr>)"

definition iter_wf :: "kv_batch_iterator \<Rightarrow> bool" where
  "iter_wf bi \<longleftrightarrow> 0 < it_max_ranges (bi_it bi) \<and> bi_num_ranges_found bi \<le> length (it_ranges (bi_it bi))"

definition iter_ready :: "nvm_kv_store \<Rightarrow> int \<Rightarrow> nvm_kv_iterator \<Rightarrow> bool" where
  "iter_ready st it_id ni \<longleftrightarrow>
     length (ni_iter ni) = M_NO_ITR \<and> validate_iter st it_id KV_REGULAR_ITER ni = Inr () \<and>
     iter_wf (iter_at it_id ni)"

definition pool_live :: "nvm_kv_store \<Rightarrow> u32 \<Rightarrow> bool" where
  "pool_live st pool_id \<longleftrightarrow>
     check_pool_status (sint pool_id) (st_pm st) = POOL_IN_USE \<or> pool_id = word_of_int get_all_poolid"

lemma validate_iter_ok:
  "validate_iter st it_id iter_type ni = Inr () \<longleftrightarrow>
     iter_id_ok it_id iter_type \<and>
     (case ni_iter ni ! nat it_id of None \<Rightarrow> False | Some bi \<Rightarrow> pool_live st (bi_pool_id bi))"
  by (simp add: validate_iter_def pool_live_def split: option.split)

lemma valid_regular:
  assumes "iter_ready st it_id ni"
  shows "valid_iter st it_id KV_REGULAR_ITER ni = Inr (iter_at it_id ni)" "0 \<le> it_id" "nat it_id < length (ni_iter ni)"
    "ni_iter ni ! nat it_id = Some (iter_at it_id ni)"
proof -
  have v: "validate_iter st it_id KV_REGULAR_ITER ni = Inr ()" "length (ni_iter ni) = M_NO_ITR"
    using assms by (simp_all add: iter_ready_def)
  then show "0 \<le> it_id" "nat it_id < length (ni_iter ni)"
    by (auto simp: validate_iter_ok iter_id_ok_def iterator_indices)
  show "ni_iter ni ! nat it_id = Some (iter_at it_id ni)"
    using v(1) by (auto simp: validate_iter_ok iter_at_def split: option.splits)
  show "valid_iter st it_id KV_REGULAR_ITER ni = Inr (iter_at it_id ni)"
    using v(1) by (simp add: valid_iter_def iter_at_def)
qed

lemma iter_at_put: "nat it_id < length (ni_iter ni) \<Longrightarrow> iter_at it_id (put_iter (nat it_id) (Some bi) ni) = bi"
  by (simp add: iter_at_def put_iter_def)

lemma ready_put:
  assumes "iter_ready st it_id ni" and "bi_pool_id bi = bi_pool_id (iter_at it_id ni)" and "iter_wf bi"
  shows "iter_ready st it_id (put_iter (nat it_id) (Some bi) ni)"
proof -
  note v = valid_regular [OF assms(1)]
  have "iter_id_ok it_id KV_REGULAR_ITER" "length (ni_iter ni) = M_NO_ITR" "pool_live st (bi_pool_id bi)"
    using assms(1,2) v(4) by (simp_all add: iter_ready_def validate_iter_ok)
  then show ?thesis
    using v(3) assms(3) by (simp add: iter_ready_def validate_iter_ok iter_at_put) (simp add: put_iter_def)
qed

lemma put_iter_fields [simp]:
  "ni_pool_mask (put_iter i bi ni) = ni_pool_mask ni" "ni_pool_bits (put_iter i bi ni) = ni_pool_bits ni"
  "ni_max_pools (put_iter i bi ni) = ni_max_pools ni" "ni_all_pool_id (put_iter i bi ni) = ni_all_pool_id ni"
  "ni_buffer_pool (put_iter i bi ni) = ni_buffer_pool ni" "length (ni_iter (put_iter i bi ni)) = length (ni_iter ni)"
  by (simp_all add: put_iter_def)

definition same_iter :: "int \<Rightarrow> nvm_kv_iterator \<Rightarrow> nvm_kv_iterator \<Rightarrow> bool" where
  "same_iter it_id ni ni' \<longleftrightarrow>
     (\<exists>bi. ni' = put_iter (nat it_id) (Some bi) ni \<and> bi_pool_id bi = bi_pool_id (iter_at it_id ni) \<and>
        bi_pool_hash bi = bi_pool_hash (iter_at it_id ni))"

lemma same_iter_refl: "iter_ready st it_id ni \<Longrightarrow> same_iter it_id ni ni"
proof -
  assume "iter_ready st it_id ni"
  then have "ni = put_iter (nat it_id) (Some (iter_at it_id ni)) ni"
    using valid_regular(4) [of st it_id ni] list_update_id [of "ni_iter ni" "nat it_id"]
    by (cases ni) (simp add: put_iter_def)
  then show ?thesis unfolding same_iter_def by blast
qed

lemma same_iter_trans:
  assumes "same_iter it_id ni ni'" "same_iter it_id ni' ni''" "nat it_id < length (ni_iter ni)"
  shows "same_iter it_id ni ni''"
proof -
  obtain bi bi' where b: "ni' = put_iter (nat it_id) (Some bi) ni" "ni'' = put_iter (nat it_id) (Some bi') ni'"
    "bi_pool_id bi = bi_pool_id (iter_at it_id ni)" "bi_pool_hash bi = bi_pool_hash (iter_at it_id ni)"
    "bi_pool_id bi' = bi_pool_id (iter_at it_id ni')" "bi_pool_hash bi' = bi_pool_hash (iter_at it_id ni')"
    using assms(1,2) by (auto simp: same_iter_def)
  have "iter_at it_id ni' = bi" using b(1) assms(3) by (simp add: iter_at_put)
  moreover have "ni'' = put_iter (nat it_id) (Some bi') ni" by (simp add: b(1,2) put_iter_def)
  ultimately show ?thesis using b by (auto simp: same_iter_def)
qed

lemma iterate_step:
  assumes law: "range_iter_law E (get_store_device st) ahead" and ready: "iter_ready st it_id ni"
  obtains (next_range) r ni' rest where "iterate E st it_id KV_REGULAR_ITER w ni = (Inr (), ni')"
      "upcoming ahead w (iter_at it_id ni) = r # rest" "current_range (iter_at it_id ni') = r"
      "upcoming ahead w (iter_at it_id ni') = rest" "iter_ready st it_id ni'" "same_iter it_id ni ni'"
  | (at_end) ni' where "iterate E st it_id KV_REGULAR_ITER w ni = (Inl NVM_ERR_OBJECT_NOT_FOUND, ni')"
      "upcoming ahead w (iter_at it_id ni) = []" "same_iter it_id ni ni'"
proof -
  note v = valid_regular [OF ready]
  define bi where "bi = iter_at it_id ni"
  have wf: "0 < it_max_ranges (bi_it bi)" "bi_num_ranges_found bi \<le> length (it_ranges (bi_it bi))"
    using ready by (simp_all add: iter_ready_def iter_wf_def bi_def)
  have vi: "valid_iter st it_id KV_REGULAR_ITER ni = Inr bi" using v(1) by (simp add: bi_def)
  show thesis
  proof (cases "bi_pos bi + 1 < bi_num_ranges_found bi")
    case True
    let ?bi = "bi\<lparr>bi_pos := bi_pos bi + 1\<rparr>" and ?batch = "take (bi_num_ranges_found bi) (it_ranges (bi_it bi))"
    let ?ni = "put_iter (nat it_id) (Some ?bi) ni"
    have at: "iter_at it_id ?ni = ?bi" by (rule iter_at_put [OF v(3)])
    have "drop (Suc (bi_pos bi)) ?batch = ?batch ! Suc (bi_pos bi) # drop (Suc (Suc (bi_pos bi))) ?batch"
      using True wf(2) by (intro Cons_nth_drop_Suc [symmetric]) simp
    then have up: "upcoming ahead w bi = current_range ?bi # upcoming ahead w ?bi"
      using True by (simp add: upcoming_def current_range_def)
    have "iter_ready st it_id ?ni"
      using ready wf by (intro ready_put) (simp_all add: bi_def iter_wf_def)
    moreover have "same_iter it_id ni ?ni" unfolding same_iter_def bi_def by (intro exI [of _ ?bi]) (simp add: bi_def)
    ultimately show thesis
      using next_range [of ?ni "current_range ?bi" "upcoming ahead w ?bi"] True vi up at
      by (simp add: iterate_def bi_def)
  next
    case False
    let ?it0 = "(bi_it bi)\<lparr>it_filter_expiry := 0\<rparr>"
    obtain n it' where q: "env_range_iter E (dev_handle (get_store_device st)) ?it0 w = (n, it')" by force
    define got where "got = min (it_max_ranges ?it0) (length (ahead w ?it0))"
    have l: "n = int got" "take got (it_ranges it') = take got (ahead w ?it0)" "got \<le> length (it_ranges it')"
      "ahead w it' = drop got (ahead w ?it0)" "it_max_ranges it' = it_max_ranges ?it0" "it_filter_expiry it' = 0"
      using law [unfolded range_iter_law_def, rule_format, of ?it0 w] q by (simp_all add: Let_def got_def)
    have up: "upcoming ahead w bi = ahead w ?it0" using False by (simp add: upcoming_def)
    have it: "iterate E st it_id KV_REGULAR_ITER w ni =
      (let batch_iter = bi\<lparr>bi_pos := 0, bi_it := it'\<rparr>
       in if n < 0 then (Inl NVM_ERR_INTERNAL_FAILURE, put_iter (nat it_id) (Some batch_iter) ni)
          else if n = 0 then (Inl NVM_ERR_OBJECT_NOT_FOUND, put_iter (nat it_id) (Some batch_iter) ni)
          else (Inr (), put_iter (nat it_id) (Some (batch_iter\<lparr>bi_num_ranges_found := nat n\<rparr>)) ni))"
      using False vi q by (simp add: iterate_def set_expiry_filter_def)
    show thesis
    proof (cases "ahead w ?it0")
      case Nil
      then have "n = 0" using l(1) by (simp add: got_def)
      moreover have "same_iter it_id ni (put_iter (nat it_id) (Some (bi\<lparr>bi_pos := 0, bi_it := it'\<rparr>)) ni)"
        unfolding same_iter_def by (intro exI [of _ "bi\<lparr>bi_pos := 0, bi_it := it'\<rparr>"]) (simp add: bi_def)
      ultimately show thesis using at_end it up Nil by (simp add: bi_def)
    next
      case (Cons r rest)
      let ?bi = "bi\<lparr>bi_pos := 0, bi_it := it', bi_num_ranges_found := got\<rparr>"
      let ?ni = "put_iter (nat it_id) (Some ?bi) ni"
      have pos: "0 < got" using Cons wf(1) by (simp add: got_def)
      have at: "iter_at it_id ?ni = ?bi" by (rule iter_at_put [OF v(3)])
      have batch: "take got (it_ranges it') = r # drop 1 (take got (it_ranges it'))"
        using l(2) Cons pos by (cases got) simp_all
      then have cur: "current_range ?bi = r"
        using pos by (cases "it_ranges it'") (auto simp: current_range_def take_Cons')
      have e0: "it'\<lparr>it_filter_expiry := 0\<rparr> = it'" using l(6) by simp
      have "upcoming ahead w ?bi = drop 1 (take got (ahead w ?it0)) @ drop got (ahead w ?it0)"
        using l(2,4) e0 by (simp add: upcoming_def)
      also have "\<dots> = drop 1 (take got (ahead w ?it0) @ drop got (ahead w ?it0))"
        using pos Cons by (cases got) simp_all
      finally have rest: "upcoming ahead w ?bi = rest" using Cons by simp
      have "iter_ready st it_id ?ni"
        using ready wf(1) l(3,5) by (intro ready_put) (simp_all add: bi_def iter_wf_def)
      moreover have "same_iter it_id ni ?ni" unfolding same_iter_def by (intro exI [of _ ?bi]) (simp add: bi_def)
      ultimately show thesis
        using next_range [of ?ni r rest] it pos l(1) up Cons at cur rest by (simp add: Let_def bi_def)
    qed
  qed
qed

section \<open>Visiting a pool\<close>

definition in_pool :: "nvm_kv_iterator \<Rightarrow> kv_batch_iterator \<Rightarrow> nvm_block_range \<Rightarrow> bool" where
  "in_pool ni bi r \<longleftrightarrow>
     bi_pool_hash bi = ucast (br_start_lba r) AND ni_pool_mask ni \<or> sint (bi_pool_id bi) = ni_all_pool_id ni"

lemma same_iter_pool:
  assumes "same_iter it_id ni ni'" and "nat it_id < length (ni_iter ni)"
  shows "in_pool ni' (iter_at it_id ni') = in_pool ni (iter_at it_id ni)" "hash_is_id ni' = hash_is_id ni"
  using assms by (auto simp: same_iter_def in_pool_def hash_is_id_def iter_at_put fun_eq_iff)

definition found_or_end ::
  "('w \<Rightarrow> nvm_logical_range_iter \<Rightarrow> nvm_block_range list) \<Rightarrow> nvm_kv_store \<Rightarrow> int \<Rightarrow> 'w \<Rightarrow> nvm_kv_iterator \<Rightarrow>
   nvm_block_range list \<Rightarrow> (unit res \<times> nvm_kv_iterator) option \<Rightarrow> bool" where
  "found_or_end ahead st it_id w ni rs res \<longleftrightarrow>
     (case rs of
        [] \<Rightarrow> (\<exists>ni'. res = Some (Inl NVM_ERR_OBJECT_NOT_FOUND, ni') \<and> same_iter it_id ni ni')
      | r # rest \<Rightarrow>
          (\<exists>ni'. res = Some (Inr (), ni') \<and> current_range (iter_at it_id ni') = r \<and>
             upcoming ahead w (iter_at it_id ni') = rest \<and> iter_ready st it_id ni' \<and> same_iter it_id ni ni'))"

lemma iter_over_loop_spec:
  assumes law: "range_iter_law E (get_store_device st) ahead"
  shows "iter_ready st it_id ni \<Longrightarrow> hash_is_id ni \<Longrightarrow>
    found_or_end ahead st it_id w ni
      (dropWhile (\<lambda>r. \<not> in_pool ni (iter_at it_id ni) r) (upcoming ahead w (iter_at it_id ni)))
      (iter_over_loop E st it_id KV_REGULAR_ITER w ni)"
proof (induction "upcoming ahead w (iter_at it_id ni)" arbitrary: ni)
  case Nil
  show ?case
  proof (rule iterate_step [OF law Nil.prems(1), where w = w])
    fix ni'
    assume "iterate E st it_id KV_REGULAR_ITER w ni = (Inl NVM_ERR_OBJECT_NOT_FOUND, ni')" "same_iter it_id ni ni'"
    then show ?thesis using Nil.hyps by (simp add: iter_over_loop.simps Let_def found_or_end_def flip: Nil.hyps)
  qed (use Nil.hyps in simp)
next
  case (Cons r rest)
  note v = valid_regular [OF Cons.prems(1)]
  show ?case
  proof (rule iterate_step [OF law Cons.prems(1), where w = w])
    fix r' ni' rest'
    assume it: "iterate E st it_id KV_REGULAR_ITER w ni = (Inr (), ni')"
      "upcoming ahead w (iter_at it_id ni) = r' # rest'" "current_range (iter_at it_id ni') = r'"
      "upcoming ahead w (iter_at it_id ni') = rest'" "iter_ready st it_id ni'" "same_iter it_id ni ni'"
    then have rr: "r' = r" "rest' = rest" using Cons.hyps(2) by simp_all
    note pool = same_iter_pool [OF it(6) v(3)]
    have pm: "pool_matches (iter_at it_id ni') ni' = in_pool ni (iter_at it_id ni) r"
      using it(3) rr(1) pool(1) by (simp add: pool_matches_def in_pool_def fun_eq_iff)
    show ?thesis
    proof (cases "in_pool ni (iter_at it_id ni) r")
      case True
      then have "iter_over_loop E st it_id KV_REGULAR_ITER w ni = Some (Inr (), ni')"
        using it(1) pm pool(2) Cons.prems(2) by (simp add: iter_over_loop.simps [of _ _ _ _ _ ni] Let_def)
      then show ?thesis using True it rr by (simp add: found_or_end_def)
    next
      case False
      then have loop: "iter_over_loop E st it_id KV_REGULAR_ITER w ni = iter_over_loop E st it_id KV_REGULAR_ITER w ni'"
        using it(1) pm by (simp add: iter_over_loop.simps [of _ _ _ _ _ ni] Let_def)
      have IH: "found_or_end ahead st it_id w ni'
          (dropWhile (\<lambda>r. \<not> in_pool ni (iter_at it_id ni) r) rest)
          (iter_over_loop E st it_id KV_REGULAR_ITER w ni')"
        using Cons.hyps(1) [of ni'] it(4,5) rr(2) pool Cons.prems(2) by simp
      have "found_or_end ahead st it_id w ni rs res" if "found_or_end ahead st it_id w ni' rs res" for rs res
        using that same_iter_trans [OF it(6) _ v(3)] by (fastforce simp: found_or_end_def split: list.splits)
      then show ?thesis using IH False it(2) rr loop by simp
    qed
  next
    fix ni'
    assume "upcoming ahead w (iter_at it_id ni) = []"
    then show ?thesis using Cons.hyps(2) by simp
  qed
qed

lemma iter_over_pool_spec:
  assumes "range_iter_law E (get_store_device st) ahead" and "iter_ready st it_id ni" and "hash_is_id ni"
  shows "found_or_end ahead st it_id w ni
      (dropWhile (\<lambda>r. \<not> in_pool ni (iter_at it_id ni) r) (upcoming ahead w (iter_at it_id ni)))
      (iter_over_pool E st it_id KV_REGULAR_ITER w ni)"
  using iter_over_loop_spec [OF assms] valid_regular(1) [OF assms(2)] by (simp add: iter_over_pool_def)

section \<open>Counting all ranges\<close>

lemma count_loop_spec:
  assumes law: "range_iter_law E dev ahead"
  shows "0 < it_max_ranges it \<Longrightarrow> count_loop E (dev_handle dev) w it n = Some (Inr (n + length (ahead w it)))"
proof (induction "length (ahead w it)" arbitrary: it n rule: less_induct)
  case less
  obtain k it' where q: "env_range_iter E (dev_handle dev) it w = (k, it')" by force
  define got where "got = min (it_max_ranges it) (length (ahead w it))"
  have l: "k = int got" "ahead w it' = drop got (ahead w it)" "it_max_ranges it' = it_max_ranges it"
    using law [unfolded range_iter_law_def, rule_format, of it w] q by (simp_all add: Let_def got_def)
  show ?case
  proof (cases "ahead w it = []")
    case True
    then show ?thesis using q l(1) by (simp add: count_loop.simps Let_def got_def)
  next
    case False
    then have pos: "0 < got" using less.prems by (simp add: got_def)
    then have "count_loop E (dev_handle dev) w it n = count_loop E (dev_handle dev) w it' (n + got)"
      using q l(1) by (simp add: count_loop.simps [of _ _ _ it] Let_def)
    also have "\<dots> = Some (Inr (n + got + length (ahead w it')))"
      using less.hyps [of it'] l(2,3) less.prems pos False by (simp add: got_def)
    finally show ?thesis using l(2) by (simp add: got_def)
  qed
qed

end
