(* ===== verification/KvIterOps.thy ===== *)
theory KvIterOps
  imports KvIterator
begin

text \<open>
  The iteration calls of \<open>src/kv_store_mgr.cpp\<close> (\<open>kv_begin\<close>, \<open>kv_next\<close>,
  \<open>kv_get_current\<close>, \<open>kv_iteration_end\<close>, \<open>kv_get_store_info\<close>) on the manager
  extended by the iterator object of every open store.
\<close>

record kv_iter_mgr = nvm_kv_store_mgr +
  mg_iter :: "int \<rightharpoonup> nvm_kv_iterator"

definition store_iter :: "int \<Rightarrow> kv_iter_mgr \<Rightarrow> (nvm_kv_store \<times> nvm_kv_iterator) option" where
  "store_iter kv_id mg =
     (case mg_map mg kv_id of
        None \<Rightarrow> None
      | Some st \<Rightarrow> map_option (Pair st) (mg_iter mg kv_id))"

definition set_iter :: "int \<Rightarrow> nvm_kv_iterator \<Rightarrow> kv_iter_mgr \<Rightarrow> kv_iter_mgr" where
  "set_iter kv_id ni mg = mg\<lparr>mg_iter := (mg_iter mg)(kv_id \<mapsto> ni)\<rparr>"

section \<open>Begin, next, end\<close>

definition user_data_length :: "nvm_kv_store \<Rightarrow> nat" where
  "user_data_length st = unat (get_kv_len (get_layout st) - get_data_start_lba (get_layout st))"

definition begin_exit ::
  "nvm_kv_store \<Rightarrow> nat \<Rightarrow> unit res \<times> nvm_kv_iterator \<Rightarrow> nat res \<times> nvm_kv_iterator" where
  "begin_exit st it_id r =
     (case r of
        (Inl e, ni) \<Rightarrow> (Inl e, snd (free_iterator st (int it_id) KV_REGULAR_ITER ni))
      | (Inr _, ni) \<Rightarrow> (Inr it_id, ni))"

definition begin_iter ::
  "'w nvm_env \<Rightarrow> kv_batch_iterator option \<Rightarrow> int \<Rightarrow> nvm_kv_store \<Rightarrow> 'w \<Rightarrow> nvm_kv_iterator \<Rightarrow>
   (nat res \<times> nvm_kv_iterator) option" where
  "begin_iter E malloc pool_id st w ni =
     (case alloc_iter malloc KV_REGULAR_ITER pool_id (get_poolid_hash (st_pm st) (word_of_int pool_id)) ni of
        (Inl e, ni) \<Rightarrow> Some (Inl e, ni)
      | (Inr it_id, ni) \<Rightarrow>
          (case init_iter st (int it_id) (get_data_start_lba (get_layout st)) (user_data_length st)
                  KV_REGULAR_ITER ni of
             (Inl e, ni) \<Rightarrow> Some (begin_exit st it_id (Inl e, ni))
           | (Inr _, ni) \<Rightarrow>
               map_option (begin_exit st it_id) (iter_over_pool E st (int it_id) KV_REGULAR_ITER w ni)))"

definition kv_begin ::
  "'w nvm_env \<Rightarrow> kv_batch_iterator option \<Rightarrow> int \<Rightarrow> int \<Rightarrow> kv_iter_mgr \<Rightarrow> 'w \<Rightarrow> (nat res \<times> kv_iter_mgr) option" where
  "kv_begin E malloc kv_id pool_id mg w =
     (case store_iter kv_id mg of
        None \<Rightarrow> Some (Inl NVM_ERR_INVALID_INPUT, mg)
      | Some (st, ni) \<Rightarrow>
          if \<not> validate_pool KVBEGIN pool_id st then Some (Inl NVM_ERR_INVALID_INPUT, mg)
          else map_option (\<lambda>(r, ni). (r, set_iter kv_id ni mg)) (begin_iter E malloc pool_id st w ni))"

definition kv_next ::
  "'w nvm_env \<Rightarrow> int \<Rightarrow> int \<Rightarrow> kv_iter_mgr \<Rightarrow> 'w \<Rightarrow> (unit res \<times> kv_iter_mgr) option" where
  "kv_next E kv_id it_id mg w =
     (case store_iter kv_id mg of
        None \<Rightarrow> Some (Inl NVM_ERR_INVALID_INPUT, mg)
      | Some (st, ni) \<Rightarrow>
          map_option (\<lambda>(r, ni). (r, set_iter kv_id ni mg)) (iter_over_pool E st it_id KV_REGULAR_ITER w ni))"

definition kv_iteration_end :: "int \<Rightarrow> int \<Rightarrow> kv_iter_mgr \<Rightarrow> unit res \<times> kv_iter_mgr" where
  "kv_iteration_end kv_id it_id mg =
     (case store_iter kv_id mg of
        None \<Rightarrow> (Inl NVM_ERR_INVALID_INPUT, mg)
      | Some (st, ni) \<Rightarrow>
          (case free_iterator st it_id KV_REGULAR_ITER ni of (r, ni) \<Rightarrow> (r, set_iter kv_id ni mg)))"

section \<open>The key at the current position\<close>

text \<open>
  The state of the loop in \<open>kv_get_current\<close>: the last buffer stays in \<open>cs_buf\<close> after it has
  been released for another round, and the exit releases it once more when the next round ends
  before it gets a new one.
\<close>

record cur_state =
  cs_bufs :: nvm_kv_buffer_pool
  cs_buf :: "membuf option"
  cs_buf_size :: nat
  cs_acquired :: bool
  cs_value :: bytes
  cs_key :: bytes
  cs_info :: nvm_kv_key_info
  cs_iter :: nvm_kv_iterator
  cs_store :: nvm_kv_store

definition cur_exit :: "'a res \<Rightarrow> cur_state \<Rightarrow> 'a res \<times> cur_state" where
  "cur_exit r cs =
     (r, cs\<lparr>cs_bufs := release_if (cs_acquired cs) (cs_buf cs) (cs_buf_size cs) (cs_bufs cs)\<rparr>)"

definition cur_release :: "cur_state \<Rightarrow> cur_state" where
  "cur_release cs = cs\<lparr>cs_bufs := release_if True (cs_buf cs) (cs_buf_size cs) (cs_bufs cs)\<rparr>"

definition cur_vectors :: "nat \<Rightarrow> u64 \<Rightarrow> nat \<Rightarrow> u64 \<Rightarrow> u64 \<Rightarrow> nat \<Rightarrow> nvm_iovec list" where
  "cur_vectors ss value_addr value_len buf_addr key_loc len =
     (let read_len = len * ss; user_buffer_usage = ss < read_len;
          read_len = (if user_buffer_usage then read_len - ss else ss);
          read_len = (if rnd value_len ss < read_len then rnd value_len ss else read_len)
      in read_iov buf_addr ss key_loc #
         (if user_buffer_usage then [read_iov value_addr read_len (key_loc + 1)] else []))"

definition cur_fetch ::
  "'w nvm_env \<Rightarrow> int \<Rightarrow> u64 \<Rightarrow> nat \<Rightarrow> 'w \<Rightarrow> cur_state \<Rightarrow> ((u64 \<times> bool) res \<times> cur_state) option" where
  "cur_fetch E it_id value_addr value_len w cs =
     (let st = cs_store cs; ss = get_sector_size st
      in case get_iter_loc st it_id KV_REGULAR_ITER (cs_iter cs) of
           Inl e \<Rightarrow> Some (Inl e, cs)
         | Inr (key_loc, len) \<Rightarrow>
             (case get_buf (env_memalign E w) ss (cs_bufs cs) of
                None \<Rightarrow> None
              | Some (buf, ret_buf_size, bufs) \<Rightarrow>
                  (let cs = cs\<lparr>cs_bufs := bufs, cs_buf := buf, cs_buf_size := ret_buf_size\<rparr>
                   in case buf of
                        None \<Rightarrow>
                          Some (Inl NVM_ERR_OUT_OF_MEMORY,
                                cs\<lparr>cs_info := (cs_info cs)\<lparr>ki_key_len := 0, ki_value_len := 0\<rparr>\<rparr>)
                      | Some mb \<Rightarrow>
                          if ret_buf_size < ss
                          then Some (Inl NVM_ERR_OUT_OF_MEMORY,
                                     cs\<lparr>cs_info := (cs_info cs)\<lparr>ki_key_len := 0, ki_value_len := 0\<rparr>\<rparr>)
                          else
                            (let cs = cs\<lparr>cs_acquired := True\<rparr>
                             in case nvm_readv E (get_store_device st)
                                       (cur_vectors ss value_addr value_len (mb_addr mb) key_loc len) w of
                                  Inl e \<Rightarrow> Some (Inl e, cs)
                                | Inr got \<Rightarrow>
                                    Some (Inr (key_loc, got \<noteq> []),
                                      cs\<lparr>cs_buf := Some (mb\<lparr>mb_mem := memcpy 0 (take ss got) (mb_mem mb)\<rparr>),
                                         cs_value := memcpy 0 (drop ss got) (cs_value cs)\<rparr>)))))"

definition cur_header :: "cur_state \<Rightarrow> nvm_kv_header" where
  "cur_header cs = load_header (mb_mem (the (cs_buf cs)))"

definition valid_key_len :: "nvm_kv_header \<Rightarrow> bool" where
  "valid_key_len hdr \<longleftrightarrow> hdr_key_len hdr \<noteq> 0 \<and> unat (hdr_key_len hdr) \<le> NVM_KV_MAX_KEY_SIZE"

text \<open>\<open>Inr False\<close> asks for another round: no key there, or an expired one.\<close>

definition cur_check ::
  "'w nvm_env \<Rightarrow> u64 \<Rightarrow> bool \<Rightarrow> 'w \<Rightarrow> cur_state \<Rightarrow> bool res \<times> cur_state" where
  "cur_check E key_loc some_read w cs =
     (let hdr = cur_header cs
      in if \<not> some_read \<or> \<not> valid_key_len hdr then (Inr False, cs)
         else
           (let cs = cs\<lparr>cs_key := mem_read M_KV_HEADER_SIZE (unat (hdr_key_len hdr)) (mb_mem (the (cs_buf cs)))\<rparr>
            in case kv_expire E (cs_store cs) hdr key_loc True w of
                 (Inl e, st) \<Rightarrow>
                   (if e = NVM_ERR_OBJECT_NOT_FOUND then Inr False else Inl e, cs\<lparr>cs_store := st\<rparr>)
               | (Inr _, st) \<Rightarrow> (Inr True, cs\<lparr>cs_store := st\<rparr>)))"

partial_function (option) current_loop ::
  "'w nvm_env \<Rightarrow> int \<Rightarrow> u64 \<Rightarrow> nat \<Rightarrow> 'w \<Rightarrow> cur_state \<Rightarrow> (unit res \<times> cur_state) option" where
  "current_loop E it_id value_addr value_len w cs =
     Option.bind (cur_fetch E it_id value_addr value_len w cs) (\<lambda>f.
       case fst f of
         Inl e \<Rightarrow> Some (Inl e, snd f)
       | Inr found \<Rightarrow>
           (let c = cur_check E (fst found) (snd found) w (snd f); cs = snd c
            in case fst c of
                 Inl e \<Rightarrow> Some (Inl e, cs)
               | Inr valid \<Rightarrow>
                   if valid then Some (Inr (), cs)
                   else Option.bind (iter_over_pool E (cs_store cs) it_id KV_REGULAR_ITER w (cs_iter cs)) (\<lambda>n.
                          case fst n of
                            Inl e \<Rightarrow> Some (Inl e, cs\<lparr>cs_iter := snd n\<rparr>)
                          | Inr _ \<Rightarrow>
                              current_loop E it_id value_addr value_len w (cur_release (cs\<lparr>cs_iter := snd n\<rparr>)))))"

record kv_current_out =
  co_key :: bytes
  co_key_len :: u32
  co_value :: bytes
  co_info :: nvm_kv_key_info
  co_len :: nat

definition current_result :: "nat \<Rightarrow> nat \<Rightarrow> cur_state \<Rightarrow> kv_current_out" where
  "current_result ss value_len cs =
     (let hdr = cur_header cs;
          ret_read_len = (if unat (hdr_value_len hdr) > value_len then value_len else unat (hdr_value_len hdr))
      in \<lparr>co_key = cs_key cs, co_key_len = hdr_key_len hdr,
          co_value =
            (if unat (hdr_value_offset hdr) < ss
             then memcpy 0 (mem_read (unat (hdr_value_offset hdr)) ret_read_len (mb_mem (the (cs_buf cs))))
                    (cs_value cs)
             else cs_value cs),
          co_info = (cs_info cs)\<lparr>ki_key_len := hdr_key_len hdr, ki_value_len := hdr_value_len hdr\<rparr>,
          co_len = ret_read_len\<rparr>)"

definition kv_get_current ::
  "'w nvm_env \<Rightarrow> int \<Rightarrow> int \<Rightarrow> bool \<Rightarrow> (u64 \<times> bytes) option \<Rightarrow> nat \<Rightarrow> nvm_kv_key_info option \<Rightarrow>
   kv_iter_mgr \<Rightarrow> 'w \<Rightarrow> (kv_current_out res \<times> kv_iter_mgr) option" where
  "kv_get_current E kv_id it_id key_null value value_len key_info mg w =
     (case store_iter kv_id mg of
        None \<Rightarrow> Some (Inl NVM_ERR_INVALID_INPUT, mg)
      | Some (st, ni) \<Rightarrow>
          if \<not> validate_value KVGETCURRENT (value = None) value_len st \<or> key_info = None \<or> key_null
          then Some (Inl NVM_ERR_INVALID_INPUT, mg)
          else
            map_option (\<lambda>(r, cs).
                case cur_exit (map_sum id (\<lambda>_. current_result (get_sector_size st) value_len cs) r) cs of
                  (r, cs) \<Rightarrow>
                    (r, (set_iter kv_id (cs_iter cs) mg)
                          \<lparr>mg_bufs := cs_bufs cs, mg_map := (mg_map mg)(kv_id \<mapsto> cs_store cs)\<rparr>))
              (current_loop E it_id (fst (the value)) value_len w
                 \<lparr>cs_bufs = mg_bufs mg, cs_buf = None, cs_buf_size = 0, cs_acquired = False,
                  cs_value = snd (the value), cs_key = [], cs_info = the key_info, cs_iter = ni, cs_store = st\<rparr>))"

section \<open>Information about a store\<close>

record nvm_kv_store_info =
  si_version :: u32
  si_num_pools :: u32
  si_max_pools :: u32
  si_expiry_mode :: u32
  si_global_expiry :: u32
  si_cache_size :: nat
  si_num_keys :: int
  si_free_space :: nat

definition kv_get_store_info ::
  "'w nvm_env \<Rightarrow> nvm_logical_range_iter option \<Rightarrow> int \<Rightarrow> bool \<Rightarrow> nvm_kv_store_mgr \<Rightarrow> 'w \<Rightarrow>
   nvm_kv_store_info res option" where
  "kv_get_store_info E malloc kv_id info_null mg w =
     (if info_null then Some (Inl NVM_ERR_INVALID_INPUT)
      else
        (case mg_map mg kv_id of
           None \<Rightarrow> Some (Inl NVM_ERR_INVALID_INPUT)
         | Some st \<Rightarrow>
             (case env_capacity E (dev_handle (get_store_device st)) w of
                None \<Rightarrow> Some (Inl NVM_ERR_INTERNAL_FAILURE)
              | Some capacity_info \<Rightarrow>
                  map_option (\<lambda>num_keys.
                      let md = get_store_metadata st
                      in Inr \<lparr>si_version = sm_version md, si_num_pools = sm_total_no_pools md,
                              si_max_pools = sm_max_pools md, si_expiry_mode = sm_expiry_mode md,
                              si_global_expiry = sm_global_expiry md,
                              si_cache_size = (case st_cache st of None \<Rightarrow> 0 | Some ca \<Rightarrow> kv_cache_get_size ca),
                              si_num_keys = (case num_keys of Inl e \<Rightarrow> - err_code e | Inr n \<Rightarrow> int n),
                              si_free_space =
                                nat ((int (cp_total_phys capacity_info) - int (cp_used_phys capacity_info)) *
                                     int (get_sector_size st) mod 2 ^ 64)\<rparr>)
                    (count_ranges E st malloc (get_data_start_lba (get_layout st)) (user_data_length st) w))))"

end
