(* ===== verification/Scanner.thy ===== *)
theory Scanner
  imports KvIterOps
begin

text \<open>
  The base of the background scanners, \<open>src/kv_scanner.cpp\<close>: the iterator a scanner owns, its
  scan step and the check of a key on the media. Its mutex and condition variable are
  in the step relations of \<open>Threads\<close> and \<open>AsyncThreads\<close>; creation and cancellation of the threads
  are left out.
\<close>

record nvm_kv_scanner =
  sn_iter_id :: int
  sn_iter_type :: kv_iter_type
  sn_bufs :: nvm_kv_buffer_pool

definition M_MAX_SCANNER_BUFFERS :: nat where "M_MAX_SCANNER_BUFFERS = 8"

definition perform_scan ::
  "'w nvm_env \<Rightarrow> nvm_kv_store \<Rightarrow> 'a nvm_kv_scanner_scheme \<Rightarrow> 'w \<Rightarrow> nvm_kv_iterator \<Rightarrow>
   (u64 \<times> nat) res \<times> nvm_kv_iterator" where
  "perform_scan E st sn w ni =
     (case iterate E st (sn_iter_id sn) (sn_iter_type sn) w ni of
        (Inl e, ni) \<Rightarrow> (Inl e, ni)
      | (Inr _, ni) \<Rightarrow> (get_iter_loc st (sn_iter_id sn) (sn_iter_type sn) ni, ni))"

definition reset_iterator ::
  "nvm_kv_store \<Rightarrow> 'a nvm_kv_scanner_scheme \<Rightarrow> nvm_kv_iterator \<Rightarrow> unit res \<times> nvm_kv_iterator" where
  "reset_iterator st sn ni =
     init_iter st (sn_iter_id sn) (get_data_start_lba (get_layout st)) (user_data_length st) (sn_iter_type sn) ni"

text \<open>
  A scanner starts with an iterator of its type, or with none; the two allocations, of the vectors
  and of the thread handles, are given by their success.
\<close>

definition scanner_initialize ::
  "kv_batch_iterator option \<Rightarrow> bool \<Rightarrow> bool \<Rightarrow> kv_iter_type option \<Rightarrow> nvm_kv_store \<Rightarrow> 'a nvm_kv_scanner_scheme \<Rightarrow>
   nvm_kv_iterator \<Rightarrow> unit res \<times> 'a nvm_kv_scanner_scheme \<times> nvm_kv_iterator" where
  "scanner_initialize malloc new_iovec new_threads iter_type st sn ni =
     (let start_threads = (if new_threads then Inr () else Inl NVM_ERR_OUT_OF_MEMORY)
      in case iter_type of
           None \<Rightarrow> (start_threads, sn, ni)
         | Some iter_type \<Rightarrow>
             (case alloc_iter malloc iter_type get_all_poolid 0 ni of
                (Inl e, ni) \<Rightarrow> (Inl e, sn, ni)
              | (Inr it_id, ni) \<Rightarrow>
                  (let sn = sn\<lparr>sn_iter_id := int it_id, sn_iter_type := iter_type\<rparr>;
                       ni = (if iter_type \<noteq> KV_POOL_DEL_ITER then snd (reset_iterator st sn ni) else ni)
                   in if \<not> new_iovec then (Inl NVM_ERR_OUT_OF_MEMORY, sn, ni)
                      else (start_threads, sn, ni))))"

text \<open>
  Whether the key at an address has expired, and its pool; no pool when there is no key, and the
  caller's variable keeps its value. \<open>None\<close> is a wait for a buffer.
\<close>

definition check_del_header :: "'w nvm_env \<Rightarrow> 'w \<Rightarrow> nvm_kv_header \<Rightarrow> bool \<times> u32 option" where
  "check_del_header E w hdr =
     (if \<not> valid_key_len hdr then (False, None)
      else
        (let expiry = md_expiry (hdr_metadata hdr); curtime = of_nat (env_time E w) :: u32
         in (expiry \<noteq> 0 \<and> curtime > expiry, Some (hdr_pool_id hdr))))"

definition is_valid_for_del ::
  "'w nvm_env \<Rightarrow> nvm_kv_store \<Rightarrow> u64 \<Rightarrow> 'w \<Rightarrow> 'a nvm_kv_scanner_scheme \<Rightarrow>
   ((bool \<times> u32 option) res \<times> 'a nvm_kv_scanner_scheme) option" where
  "is_valid_for_del E st key_loc w sn =
     (let ss = get_sector_size st
      in case bp_initialize (env_memalign E w) M_MAX_SCANNER_BUFFERS ss ss (sn_bufs sn) of
           (Inl e, bufs) \<Rightarrow> Some (Inl e, sn\<lparr>sn_bufs := bufs\<rparr>)
         | (Inr _, bufs) \<Rightarrow>
             (case get_buf (env_memalign E w) ss bufs of
                None \<Rightarrow> None
              | Some (None, ret_buf_size, bufs) \<Rightarrow> Some (Inl NVM_ERR_OUT_OF_MEMORY, sn\<lparr>sn_bufs := bufs\<rparr>)
              | Some (Some buf, ret_buf_size, bufs) \<Rightarrow>
                  (case nvm_readv E (get_store_device st) [read_iov (mb_addr buf) ss key_loc] w of
                     Inl e \<Rightarrow> Some (Inl e, sn\<lparr>sn_bufs := release_if True (Some buf) ret_buf_size bufs\<rparr>)
                   | Inr got \<Rightarrow>
                       (let buf = buf\<lparr>mb_mem := memcpy 0 (take ss got) (mb_mem buf)\<rparr>
                        in Some (Inr (check_del_header E w (load_header (mb_mem buf))),
                                 sn\<lparr>sn_bufs := release_if True (Some buf) ret_buf_size bufs\<rparr>)))))"

end
