(* ===== verification/RangeTrim.thy ===== *)
theory RangeTrim
  imports KvIterator
begin

text \<open>
  Passes that trim what the device's range iterator hands out. \<open>collect\<close> is the loop body that
  the deletion of all user data (\<open>src/kv_store.cpp\<close>) and the deletion of a pool
  (\<open>src/kv_pool_del_manager.cpp\<close>) share: ranges become trim vectors, a full batch is
  flushed. The locale \<open>trimmer\<close> states what a flush promises; the two ways the code flushes
  are its interpretations.
\<close>

section \<open>Sectors of ranges\<close>

definition range_sectors :: "nvm_block_range \<Rightarrow> nat set" where
  "range_sectors r = {unat (br_start_lba r) ..< unat (br_start_lba r) + br_length r}"

definition sectors_of :: "nvm_block_range list \<Rightarrow> nat set" where
  "sectors_of rs = (\<Union>r \<in> set rs. range_sectors r)"

definition apart :: "nvm_block_range list \<Rightarrow> bool" where
  "apart rs \<longleftrightarrow> sorted_wrt (\<lambda>r s. range_sectors r \<inter> range_sectors s = {}) rs"

definition trim_of :: "nat \<Rightarrow> nvm_block_range \<Rightarrow> nvm_iovec" where
  "trim_of ss r = trim_iov (br_start_lba r) (br_length r * ss)"

lemma sectors_of_simps [simp]:
  "sectors_of [] = {}" "sectors_of (r # rs) = range_sectors r \<union> sectors_of rs"
  "sectors_of (rs @ rs') = sectors_of rs \<union> sectors_of rs'"
  by (simp_all add: sectors_of_def)

lemma apart_append:
  "apart (rs @ rs') \<longleftrightarrow> apart rs \<and> apart rs' \<and> sectors_of rs \<inter> sectors_of rs' = {}"
  unfolding apart_def sorted_wrt_append sectors_of_def by blast

lemma apart_simps [simp]:
  "apart []" "apart (r # rs) \<longleftrightarrow> range_sectors r \<inter> sectors_of rs = {} \<and> apart rs"
  by (auto simp: apart_def sectors_of_def)

lemma sectors_of_filter: "sectors_of (filter P rs) \<subseteq> sectors_of rs"
  by (auto simp: sectors_of_def)

lemma iov_range_trim_of: "0 < ss \<Longrightarrow> iov_range ss (trim_of ss r) = range_sectors r"
  by (simp add: trim_of_def iov_range_trim range_sectors_def)

lemma foldl_trims: "0 < ss \<Longrightarrow> foldl (apply_iov ss) s (map (trim_of ss) rs) = trim_set s (sectors_of rs)"
proof (induction rs arbitrary: s)
  case (Cons r rs)
  then show ?case by (simp add: trim_of_def apply_trim_iov range_sectors_def trim_set_union)
qed simp

lemma disjoint_trims: "0 < ss \<Longrightarrow> apart rs \<Longrightarrow> disjoint_iovs ss (map (trim_of ss) rs)"
  by (induction rs) (auto simp: list_all_iff iov_range_trim_of sectors_of_def)

section \<open>Collecting ranges into batches\<close>

fun collect ::
  "(nvm_iovec list \<Rightarrow> 's \<Rightarrow> unit res \<times> 's) \<Rightarrow> nat \<Rightarrow> nat \<Rightarrow> nat \<Rightarrow> (nvm_block_range \<Rightarrow> bool) \<Rightarrow>
   nvm_block_range list \<Rightarrow> nvm_block_range list \<Rightarrow> 's \<Rightarrow> unit res \<times> nvm_block_range list \<times> 's" where
  "collect flush max_iovs limit ss skip [] pend s = (Inr (), pend, s)"
| "collect flush max_iovs limit ss skip (r # rs) pend s =
     (if skip r then collect flush max_iovs limit ss skip rs pend s
      else if br_length r * ss > limit then (Inl NVM_ERR_INTERNAL_FAILURE, pend, s)
      else if length (pend @ [r]) = max_iovs
      then (case flush (map (trim_of ss) (pend @ [r])) s of
              (Inl e, s) \<Rightarrow> (Inl e, pend @ [r], s)
            | (Inr _, s) \<Rightarrow> collect flush max_iovs limit ss skip rs [] s)
      else collect flush max_iovs limit ss skip rs (pend @ [r]) s)"

definition flushed :: "('s \<Rightarrow> sectors) \<Rightarrow> nvm_block_range list \<Rightarrow> 's \<Rightarrow> unit res \<Rightarrow> 's \<Rightarrow> bool" where
  "flushed view rs s r s' \<longleftrightarrow>
     (case r of
        Inr _ \<Rightarrow> view s' = trim_set (view s) (sectors_of rs)
      | Inl e \<Rightarrow> e = NVM_ERR_IO \<and> view s' = view s)"

locale trimmer =
  fixes flush :: "nvm_iovec list \<Rightarrow> 's \<Rightarrow> unit res \<times> 's" and view :: "'s \<Rightarrow> sectors"
    and inv :: "nvm_block_range list \<Rightarrow> 's \<Rightarrow> bool" and ss :: nat
  assumes flush_ok: "inv rs s \<Longrightarrow> apart rs \<Longrightarrow> set ps \<subseteq> set rs \<Longrightarrow> apart ps \<Longrightarrow>
      flush (map (trim_of ss) ps) s = (r, s') \<Longrightarrow> flushed view ps s r s' \<and> inv rs s'"
begin

text \<open>
  What a collection of ranges leaves: the sectors trimmed so far and those pending are together
  those of the selected ranges; an error has trimmed selected sectors only.
\<close>

lemma collect_spec:
  assumes lim: "\<forall>r \<in> set rs. br_length r * ss \<le> limit" and max: "length pend < max_iovs"
    and ap: "apart (pend @ rs)" and "inv all s" and "apart all" and "set (pend @ rs) \<subseteq> set all"
    and "collect flush max_iovs limit ss skip rs pend s = (r, pend', s')"
  shows "inv all s' \<and> (\<exists>A. view s' = trim_set (view s) A \<and>
    A \<subseteq> sectors_of (pend @ filter (\<lambda>r. \<not> skip r) rs) \<and>
    (case r of
       Inl e \<Rightarrow> e = NVM_ERR_IO
     | Inr _ \<Rightarrow> A \<union> sectors_of pend' = sectors_of (pend @ filter (\<lambda>r. \<not> skip r) rs) \<and>
         length pend' < max_iovs \<and> apart pend' \<and> set pend' \<subseteq> set (pend @ rs)))"
  using assms
proof (induction rs arbitrary: pend s)
  case Nil
  then show ?case by (auto intro!: exI [of _ "{}"])
next
  case (Cons x rs)
  have ap: "apart pend" "apart rs" "apart (pend @ rs)" "apart (pend @ [x])" "apart ((pend @ [x]) @ rs)"
    using Cons.prems(3) by (auto simp: apart_append)
  have sub: "set (pend @ rs) \<subseteq> set all" "set (pend @ [x]) \<subseteq> set all" "set rs \<subseteq> set all"
    using Cons.prems(6) by auto
  have lim: "\<forall>r \<in> set rs. br_length r * ss \<le> limit" "\<not> br_length x * ss > limit" using Cons.prems(1) by auto
  show ?case
  proof (cases "skip x")
    case True
    then have "collect flush max_iovs limit ss skip rs pend s = (r, pend', s')" using Cons.prems(7) by simp
    from Cons.IH [OF lim(1) Cons.prems(2) ap(3) Cons.prems(4,5) sub(1) this]
    have ih: "inv all s'" "\<exists>A. view s' = trim_set (view s) A \<and>
        A \<subseteq> sectors_of (pend @ filter (\<lambda>r. \<not> skip r) rs) \<and>
        (case r of Inl e \<Rightarrow> e = NVM_ERR_IO
         | Inr _ \<Rightarrow> A \<union> sectors_of pend' = sectors_of (pend @ filter (\<lambda>r. \<not> skip r) rs) \<and>
             length pend' < max_iovs \<and> apart pend' \<and> set pend' \<subseteq> set (pend @ rs))" by blast+
    have f: "filter (\<lambda>r. \<not> skip r) (x # rs) = filter (\<lambda>r. \<not> skip r) rs" using True by simp
    show ?thesis using ih unfolding f by (auto split: sum.splits)
  next
    case False
    note nskip = this
    show ?thesis
    proof (cases "length (pend @ [x]) = max_iovs")
      case False
      then have c: "collect flush max_iovs limit ss skip rs (pend @ [x]) s = (r, pend', s')"
        using Cons.prems(7) nskip lim(2) by simp
      have m: "length (pend @ [x]) < max_iovs" using False Cons.prems(2) by simp
      have sm: "set ((pend @ [x]) @ rs) \<subseteq> set all" using Cons.prems(6) by auto
      have e: "(pend @ [x]) @ filter (\<lambda>r. \<not> skip r) rs = pend @ filter (\<lambda>r. \<not> skip r) (x # rs)"
        "(pend @ [x]) @ rs = pend @ x # rs" using nskip by simp_all
      from Cons.IH [OF lim(1) m ap(5) Cons.prems(4,5) sm c] show ?thesis unfolding e .
    next
      case True
      obtain q s1 where fl: "flush (map (trim_of ss) (pend @ [x])) s = (q, s1)" by force
      have f: "flushed view (pend @ [x]) s q s1" "inv all s1"
        using flush_ok [OF Cons.prems(4,5) sub(2) ap(4) fl] by simp_all
      show ?thesis
      proof (cases q)
        case (Inl e)
        then have "r = Inl e" "s' = s1" using Cons.prems(7) nskip lim(2) True fl by simp_all
        then show ?thesis using f Inl by (intro conjI exI [of _ "{}"]) (simp_all add: flushed_def)
      next
        case (Inr u)
        then have v1: "view s1 = trim_set (view s) (sectors_of (pend @ [x]))" using f(1) by (simp add: flushed_def)
        have c: "collect flush max_iovs limit ss skip rs [] s1 = (r, pend', s')"
          using Cons.prems(7) nskip lim(2) True fl Inr by simp
        have m: "length [] < max_iovs" "apart ([] @ rs)" "set ([] @ rs) \<subseteq> set all" using True ap(2) sub(3) by simp_all
        from Cons.IH [OF lim(1) m(1,2) f(2) Cons.prems(5) m(3) c] obtain A where A: "inv all s'" "view s' = trim_set (view s1) A" "A \<subseteq> sectors_of (filter (\<lambda>r. \<not> skip r) rs)"
          "case r of Inl e \<Rightarrow> e = NVM_ERR_IO
           | Inr _ \<Rightarrow> A \<union> sectors_of pend' = sectors_of (filter (\<lambda>r. \<not> skip r) rs) \<and>
             length pend' < max_iovs \<and> apart pend' \<and> set pend' \<subseteq> set rs"
          unfolding append_Nil by blast
        have v: "view s' = trim_set (view s) (sectors_of (pend @ [x]) \<union> A)" using A(2) v1 by (simp add: trim_set_union)
        show ?thesis
          by (rule conjI [OF A(1)], rule exI [of _ "sectors_of (pend @ [x]) \<union> A"])
            (use v A(3,4) nskip in \<open>auto split: sum.splits\<close>)
      qed
    qed
  qed
qed

end

section \<open>The two ways to flush\<close>

lemma batch_delete_flushed:
  assumes "batch_law E (get_store_device st) view" and "status_law E (get_store_device st)" and "0 < get_sector_size st"
    and "apart ps" and b: "batch_delete E st (map (trim_of (get_sector_size st)) ps) w = (r, w')"
  shows "flushed view ps w r w'"
proof -
  let ?dev = "get_store_device st" and ?iovs = "map (trim_of (get_sector_size st)) ps"
  have ss: "get_sector_size st = nvm_sector_size (dev_caps ?dev)" by (simp add: get_sector_size_def)
  obtain x w1 where x: "nvm_writev E ?dev ?iovs (length ?iovs) True w = (x, w1)" by force
  have "x = Inr 0 \<or> x = Inl NVM_ERR_IO" by (rule nvm_writev_status [OF assms(2) x])
  moreover have "view w1 = trim_set (view w) (sectors_of ps)" if "x = Inr 0"
  proof -
    have "view w1 = foldl (apply_iov (get_sector_size st)) (view w) (take (length ?iovs) ?iovs)"
      using nvm_writev_atomic_ok [OF assms(1) x [unfolded that]] disjoint_trims [OF assms(3,4)] ss by simp
    then show ?thesis by (simp add: foldl_trims [OF assms(3)])
  qed
  moreover have "view w1 = view w" if "x = Inl e" for e
    using nvm_writev_atomic_fail [OF assms(1) x [unfolded that]] .
  ultimately show ?thesis using b x by (auto simp: batch_delete_def flushed_def)
qed

definition trim_laws :: "'w nvm_env \<Rightarrow> ('w \<Rightarrow> sectors) \<Rightarrow> nvm_kv_store \<Rightarrow> bool" where
  "trim_laws E view st \<longleftrightarrow>
     batch_law E (get_store_device st) view \<and> status_law E (get_store_device st) \<and> 0 < get_sector_size st"

interpretation pool_trims: trimmer "batch_delete E st" view "\<lambda>rs w. trim_laws E view st" "get_sector_size st"
  for E st view
  by unfold_locales (auto simp: trim_laws_def intro: batch_delete_flushed)

text \<open>The store of a synchronised deletion: no other thread holds an address of the ranges.\<close>

definition sync_inv :: "'w nvm_env \<Rightarrow> ('w \<Rightarrow> sectors) \<Rightarrow> nvm_kv_store \<Rightarrow> nvm_block_range list \<Rightarrow> nvm_kv_store \<times> 'w \<Rightarrow> bool" where
  "sync_inv E view st0 rs s \<longleftrightarrow>
     trim_laws E view st0 \<and> fst s = st0 \<and> (\<forall>r \<in> set rs. br_start_lba r \<notin> st_safe st0) \<and> (\<forall>r \<in> set rs. 0 < br_length r)"

lemma apart_distinct: "apart rs \<Longrightarrow> \<forall>r \<in> set rs. 0 < br_length r \<Longrightarrow> distinct (map br_start_lba rs)"
proof (induction rs)
  case (Cons r rs)
  have "br_start_lba r \<noteq> br_start_lba s" if "s \<in> set rs" for s
  proof
    assume "br_start_lba r = br_start_lba s"
    then have "unat (br_start_lba r) \<in> range_sectors r \<inter> range_sectors s"
      using Cons.prems(2) that by (simp add: range_sectors_def)
    then show False using Cons.prems(1) that by (auto simp: sectors_of_def)
  qed
  then show ?case using Cons by auto
qed simp

definition sync_flush ::
  "'w nvm_env \<Rightarrow> 'w others \<Rightarrow> nvm_iovec list \<Rightarrow> nvm_kv_store \<times> 'w \<Rightarrow> unit res \<times> nvm_kv_store \<times> 'w" where
  "sync_flush E oth iovs s = batch_delete_sync E oth iovs False (fst s) (snd s)"

lemma sync_flush_free:
  assumes inv: "sync_inv E view st0 rs s" and "set ps \<subseteq> set rs" and "apart ps"
  shows "sync_flush E oth (map (trim_of ss) ps) s =
     (case batch_delete E st0 (map (trim_of ss) ps) (snd s) of (r, w') \<Rightarrow> (r, st0, w'))"
proof -
  have lbas: "map iov_lba (map (trim_of ss) ps) = map br_start_lba ps" by (simp add: trim_of_def o_def)
  have "\<forall>r \<in> set ps. 0 < br_length r" "\<forall>r \<in> set ps. br_start_lba r \<notin> st_safe st0"
    using inv assms(2) by (auto simp: sync_inv_def)
  then have "distinct (map iov_lba (map (trim_of ss) ps))" "\<forall>iov \<in> set (map (trim_of ss) ps). iov_lba iov \<notin> st_safe st0"
    using apart_distinct [OF assms(3)] unfolding lbas by (auto simp: trim_of_def)
  then show ?thesis
    using inv batch_delete_sync_free [of "map (trim_of ss) ps" st0 E oth False "snd s"]
    by (simp add: sync_flush_def sync_inv_def Let_def split: prod.split)
qed

interpretation sync_trims: trimmer "sync_flush E oth" "\<lambda>s. view (snd s)" "sync_inv E view st0" "get_sector_size st0"
  for E oth view st0
proof
  fix rs ps :: "nvm_block_range list" and s s' :: "nvm_kv_store \<times> 'a" and r
  assume a: "sync_inv E view st0 rs s" "apart rs" "set ps \<subseteq> set rs" "apart ps"
    "sync_flush E oth (map (trim_of (get_sector_size st0)) ps) s = (r, s')"
  obtain q w' where q: "batch_delete E st0 (map (trim_of (get_sector_size st0)) ps) (snd s) = (q, w')" by force
  have e: "r = q" "s' = (st0, w')" using a(5) sync_flush_free [OF a(1,3,4), of oth "get_sector_size st0"] q by simp_all
  have "flushed view ps (snd s) q w'"
    using a(1,4) q by (intro batch_delete_flushed) (simp_all add: sync_inv_def trim_laws_def)
  then show "flushed (\<lambda>s. view (snd s)) ps s r s' \<and> sync_inv E view st0 rs s'"
    using a(1) e by (cases q) (simp_all add: flushed_def sync_inv_def)
qed

section \<open>Deletion of all user data\<close>

text \<open>
  The range iterator of a device whose mapped sectors are \<open>view\<close>: it hands out ranges that do
  not overlap, and trimming sectors outside the ranges ahead does not change what is ahead.
\<close>

definition mapped_iter_law ::
  "'w nvm_env \<Rightarrow> nvm_kv_store_device \<Rightarrow> ('w \<Rightarrow> sectors) \<Rightarrow> ('w \<Rightarrow> nvm_logical_range_iter \<Rightarrow> nvm_block_range list) \<Rightarrow> bool" where
  "mapped_iter_law E dev view ahead \<longleftrightarrow>
     range_iter_law E dev ahead \<and>
     (\<forall>w it. apart (ahead w it) \<and> (\<forall>r \<in> set (ahead w it). 0 < br_length r)) \<and>
     (\<forall>w w' it A. view w' = trim_set (view w) A \<longrightarrow> A \<inter> sectors_of (ahead w it) = {} \<longrightarrow> ahead w' it = ahead w it)"

lemma delete_ranges_collect:
  assumes "get_store_device st0 = dev" and "sync_inv E view st0 all (st, w)" "apart all" "set (pend @ rs) \<subseteq> set all"
    and "apart (pend @ rs)"
  shows "delete_ranges E oth rs (map (trim_of (get_sector_size st0)) pend) st w =
     (case collect (sync_flush E oth) (nvm_max_num_iovs (dev_caps dev)) (max_trim_size dev) (get_sector_size st0)
             (\<lambda>_. False) rs pend (st, w) of
        (Inl e, _, s) \<Rightarrow> (Inl e, s)
      | (Inr _, pend', s) \<Rightarrow> (Inr (map (trim_of (get_sector_size st0)) pend'), s))"
  using assms(2,4,5)
proof (induction rs arbitrary: pend st w)
  case Nil
  then show ?case by simp
next
  case (Cons x rs)
  let ?tr = "trim_of (get_sector_size st0)"
  have st: "st = st0" using Cons.prems(1) by (simp add: sync_inv_def)
  have snoc: "map ?tr pend @ [trim_iov (br_start_lba x) (br_length x * get_sector_size st0)] = map ?tr (pend @ [x])"
    by (simp add: trim_of_def)
  have ap: "apart (pend @ [x])" "apart ((pend @ [x]) @ rs)" "apart ([] @ rs)" using Cons.prems(3) by (auto simp: apart_append)
  have sub: "set (pend @ [x]) \<subseteq> set all" "set ((pend @ [x]) @ rs) \<subseteq> set all" "set ([] @ rs) \<subseteq> set all"
    using Cons.prems(2) by auto
  show ?case
  proof (cases "br_length x * get_sector_size st0 > max_trim_size dev \<or>
      length (pend @ [x]) \<noteq> nvm_max_num_iovs (dev_caps dev)")
    case True
    then show ?thesis
      using Cons.IH [OF Cons.prems(1) sub(2) ap(2)] st assms(1) snoc by (auto simp: Let_def)
  next
    case False
    obtain q s1 where q: "sync_flush E oth (map ?tr (pend @ [x])) (st, w) = (q, s1)" by (meson surj_pair)
    have inv: "sync_inv E view st0 all s1"
      using sync_trims.flush_ok [OF Cons.prems(1) assms(3) sub(1) ap(1) q] by simp
    have b: "batch_delete_sync E oth (map ?tr (pend @ [x])) False st w = (q, s1)" using q by (simp add: sync_flush_def)
    show ?thesis
      using False st assms(1) snoc b q Cons.IH [of "fst s1" "snd s1" "[]"] inv sub(3) ap(3)
      by (auto simp: Let_def split: sum.split prod.split)
  qed
qed

lemma sectors_of_mono: "set ps \<subseteq> set rs \<Longrightarrow> sectors_of ps \<subseteq> sectors_of rs"
  by (auto simp: sectors_of_def)

text \<open>One call of the device's iterator, with the batch it hands out split off what is ahead.\<close>

lemma mapped_iter_step:
  assumes law: "mapped_iter_law E dev view ahead" and max: "0 < it_max_ranges it"
  obtains it' batch rest where "env_range_iter E (dev_handle dev) it w = (int (length batch), it')"
    "take (length batch) (it_ranges it') = batch" "ahead w it = batch @ rest" "ahead w it' = rest"
    "it_max_ranges it' = it_max_ranges it" "length batch \<le> it_max_ranges it"
    "length batch < it_max_ranges it \<Longrightarrow> rest = []" "length batch = it_max_ranges it \<Longrightarrow> length rest < length (ahead w it)"
    "length batch < 2 ^ 32 \<Longrightarrow> nat (int (length batch) mod 2 ^ 32) = length batch"
proof -
  obtain n it' where q: "env_range_iter E (dev_handle dev) it w = (n, it')" by force
  define got where "got = min (it_max_ranges it) (length (ahead w it))"
  have l: "n = int got" "take got (it_ranges it') = take got (ahead w it)" "got \<le> length (it_ranges it')"
    "ahead w it' = drop got (ahead w it)" "it_max_ranges it' = it_max_ranges it"
    using law q unfolding mapped_iter_law_def range_iter_law_def
    by (force simp: Let_def got_def split: prod.splits)+
  let ?b = "take got (ahead w it)"
  have len: "length ?b = got" by (simp add: got_def)
  show thesis
  proof (rule that [of ?b it' "drop got (ahead w it)"])
    show "nat (int (length ?b) mod 2 ^ 32) = length ?b" if "length ?b < 2 ^ 32"
      using that by (simp add: nat_mod_distrib)
  qed (use q l len max in \<open>auto simp: got_def\<close>)
qed

lemma ahead_stable:
  assumes "mapped_iter_law E dev view ahead" and "view w' = trim_set (view w) A" and "A \<inter> sectors_of (ahead w it) = {}"
  shows "ahead w' it = ahead w it"
  using assms unfolding mapped_iter_law_def by blast

definition loop_trimmed ::
  "('w \<Rightarrow> sectors) \<Rightarrow> 'w \<Rightarrow> nvm_block_range list \<Rightarrow> unit res \<Rightarrow> 'w \<Rightarrow> bool" where
  "loop_trimmed view w rs r w' \<longleftrightarrow>
     (\<exists>A. view w' = trim_set (view w) A \<and> A \<subseteq> sectors_of rs \<and>
        (case r of Inl e \<Rightarrow> e = NVM_ERR_IO | Inr _ \<Rightarrow> A = sectors_of rs))"

lemma loop_trimmed_after:
  assumes "view w1 = trim_set (view w) B" and "B \<union> sectors_of pend = sectors_of rs"
    and "loop_trimmed view w1 (pend @ rest) r w'"
  shows "loop_trimmed view w (rs @ rest) r w'"
proof -
  obtain A where A: "view w' = trim_set (view w1) A" "A \<subseteq> sectors_of (pend @ rest)"
    "case r of Inl e \<Rightarrow> e = NVM_ERR_IO | Inr _ \<Rightarrow> A = sectors_of (pend @ rest)"
    using assms(3) by (auto simp: loop_trimmed_def)
  have "view w' = trim_set (view w) (B \<union> A)" using A(1) assms(1) by (simp add: trim_set_union)
  then show ?thesis
    unfolding loop_trimmed_def using A(2,3) assms(2)
    by (intro exI [of _ "B \<union> A"]) (auto split: sum.splits)
qed

lemma loop_trimmed_flush:
  assumes "flushed view pend w1 r w'"
  shows "loop_trimmed view w1 pend r w'"
proof (cases r)
  case (Inl e)
  then show ?thesis using assms unfolding loop_trimmed_def by (intro exI [of _ "{}"]) (simp add: flushed_def)
next
  case (Inr u)
  then show ?thesis
    using assms unfolding loop_trimmed_def by (intro exI [of _ "sectors_of pend"]) (simp add: flushed_def)
qed

lemma delete_keys_loop_spec:
  fixes st0 :: nvm_kv_store
  defines "dev \<equiv> get_store_device st0"
  defines "tr \<equiv> trim_of (get_sector_size st0)"
  assumes law: "mapped_iter_law E dev view ahead" and ap: "apart all"
    and lens: "\<forall>r \<in> set all. br_length r * get_sector_size st0 \<le> max_trim_size dev"
  shows "sync_inv E view st0 all (st0, w) \<Longrightarrow> set (pend @ ahead w it) \<subseteq> set all \<Longrightarrow> apart (pend @ ahead w it) \<Longrightarrow>
    0 < it_max_ranges it \<Longrightarrow> length pend < nvm_max_num_iovs (dev_caps dev) \<Longrightarrow>
    \<exists>r w'. delete_keys_loop E oth it (map tr pend) st0 w = Some (r, st0, w') \<and>
      loop_trimmed view w (pend @ ahead w it) r w'"
proof (induction "length (ahead w it)" arbitrary: w it pend rule: less_induct)
  case less
  let ?max = "nvm_max_num_iovs (dev_caps dev)"
  show ?case
  proof (rule mapped_iter_step [OF law less.prems(4), where w = w])
    fix it' batch rest
    assume q: "env_range_iter E (dev_handle dev) it w = (int (length batch), it')"
      and b: "take (length batch) (it_ranges it') = batch" "ahead w it = batch @ rest" "ahead w it' = rest"
        "it_max_ranges it' = it_max_ranges it" "length batch \<le> it_max_ranges it"
        "length batch < it_max_ranges it \<Longrightarrow> rest = []"
        "length batch = it_max_ranges it \<Longrightarrow> length rest < length (ahead w it)"
    have apb: "apart (pend @ batch)" "apart rest" "sectors_of (pend @ batch) \<inter> sectors_of rest = {}"
      using less.prems(3) unfolding b(2) append_assoc [symmetric] apart_append [of "pend @ batch"] by blast+
    have sub: "set (pend @ batch) \<subseteq> set all" "set batch \<subseteq> set all" "set rest \<subseteq> set all"
      using less.prems(2) b(2) by auto
    obtain r pend' s where c: "collect (sync_flush E oth) ?max (max_trim_size dev) (get_sector_size st0)
        (\<lambda>_. False) batch pend (st0, w) = (r, pend', s)" by (meson prod_cases3)
    have lb: "\<forall>r \<in> set batch. br_length r * get_sector_size st0 \<le> max_trim_size dev" using lens sub(2) by auto
    have e: "filter (\<lambda>r. \<not> False) batch = batch" by simp
    have col: "sync_inv E view st0 all s" "\<exists>A. view (snd s) = trim_set (view w) A \<and>
        A \<subseteq> sectors_of (pend @ batch) \<and>
        (case r of Inl e \<Rightarrow> e = NVM_ERR_IO
         | Inr _ \<Rightarrow> A \<union> sectors_of pend' = sectors_of (pend @ batch) \<and> length pend' < ?max \<and> apart pend' \<and>
             set pend' \<subseteq> set (pend @ batch))"
      using sync_trims.collect_spec [OF lb less.prems(5) apb(1) less.prems(1) ap sub(1) c] unfolding e snd_conv by blast+
    obtain w1 where s: "s = (st0, w1)" using col(1) by (cases s) (simp add: sync_inv_def)
    have dv: "get_store_device st0 = dev" by (simp add: dev_def)
    have d: "delete_ranges E oth batch (map tr pend) st0 w =
        (case r of Inl e \<Rightarrow> (Inl e, s) | Inr _ \<Rightarrow> (Inr (map tr pend'), s))"
      unfolding tr_def delete_ranges_collect [OF dv less.prems(1) ap sub(1) apb(1)] c
      by (simp split: sum.split)
    obtain A where A: "view w1 = trim_set (view w) A" "A \<subseteq> sectors_of (pend @ batch)"
      "case r of Inl e \<Rightarrow> e = NVM_ERR_IO
         | Inr _ \<Rightarrow> A \<union> sectors_of pend' = sectors_of (pend @ batch) \<and> length pend' < ?max \<and> apart pend' \<and>
             set pend' \<subseteq> set (pend @ batch)" using col(2) s by auto
    have loop: "delete_keys_loop E oth it (map tr pend) st0 w =
        (case r of Inl e \<Rightarrow> Some (Inl e, s)
         | Inr _ \<Rightarrow> if length batch < it_max_ranges it
             then (if pend' \<noteq> [] then Some (sync_flush E oth (map tr pend') s) else Some (Inr (), s))
             else delete_keys_loop E oth it' (map tr pend') st0 w1)"
      using q b(1) d s
      by (simp add: delete_keys_loop.simps [of _ _ it] Let_def sync_flush_def flip: dev_def split: sum.split)
    show ?thesis
    proof (cases r)
      case (Inl e)
      have "loop_trimmed view w (pend @ ahead w it) (Inl e) w1"
        unfolding loop_trimmed_def using A(1,2,3) Inl b(2) by (intro exI [of _ A]) auto
      then show ?thesis using loop Inl s by auto
    next
      case (Inr u)
      have p: "A \<union> sectors_of pend' = sectors_of (pend @ batch)" "length pend' < ?max" "apart pend'"
        "set pend' \<subseteq> set (pend @ batch)" using A(3) Inr by simp_all
      have inv1: "sync_inv E view st0 all (st0, w1)" using col(1) s by simp
      have sub': "set pend' \<subseteq> set all" using p(4) sub(1) by blast
      show ?thesis
      proof (cases "length batch < it_max_ranges it")
        case True
        then have rest: "rest = []" by (rule b(6))
        obtain r2 s2 where f: "sync_flush E oth (map tr pend') (st0, w1) = (r2, s2)" by (meson surj_pair)
        have fl: "flushed (\<lambda>s. view (snd s)) pend' (st0, w1) r2 s2 \<and> sync_inv E view st0 all s2"
          using sync_trims.flush_ok [OF inv1 ap sub' p(3)] f unfolding tr_def by blast
        then obtain w2 where w2: "s2 = (st0, w2)" by (cases s2) (simp add: sync_inv_def)
        have "flushed view pend' w1 r2 w2" using fl w2 by (cases r2) (simp_all add: flushed_def)
        then have "loop_trimmed view w (pend @ batch) r2 w2"
          using loop_trimmed_after [OF A(1) p(1), of "[]"] loop_trimmed_flush by force
        moreover have "loop_trimmed view w (pend @ batch) (Inr ()) w1" if "pend' = []"
          unfolding loop_trimmed_def using A(1) p(1) that by (intro exI [of _ A]) simp
        ultimately show ?thesis using loop Inr True f w2 s rest b(2) by (cases "pend' = []") auto
      next
        case False
        then have len: "length rest < length (ahead w it)" using b(5,7) by simp
        have a1: "ahead w1 it' = rest"
          using ahead_stable [OF law A(1), of it'] A(2) apb(3) b(3) by auto
        have ap1: "apart (pend' @ rest)"
          using p(3) apb(2,3) sectors_of_mono [OF p(4)] by (auto simp: apart_append)
        obtain r2 w2 where r2: "delete_keys_loop E oth it' (map tr pend') st0 w1 = Some (r2, st0, w2)"
          "loop_trimmed view w1 (pend' @ rest) r2 w2"
          using less.hyps [of w1 it' pend'] len a1 inv1 sub' sub(3) ap1 b(4) less.prems(4) p(2) by auto
        have "loop_trimmed view w ((pend @ batch) @ rest) r2 w2" by (rule loop_trimmed_after [OF A(1) p(1) r2(2)])
        then show ?thesis using loop Inr False r2(1) b(2) by simp
      qed
    qed
  qed
qed

definition user_data_iter :: "nvm_kv_store \<Rightarrow> nvm_logical_range_iter" where
  "user_data_iter st =
     \<lparr>it_range_to_iterate = \<lparr>br_start_lba = get_data_start_lba (get_layout st),
         br_length = unat (get_kv_len (get_layout st) - get_data_start_lba (get_layout st))\<rparr>,
      it_filter_mask = 0, it_filter_pattern = 0, it_filter_expiry = 0,
      it_max_ranges = nvm_max_num_logical_iter_ranges (dev_caps (get_store_device st)), it_ranges = []\<rparr>"

definition after_delete_all :: "unit res \<Rightarrow> nvm_kv_store \<Rightarrow> nvm_kv_store" where
  "after_delete_all r st =
     (let st = st\<lparr>st_cache := map_option kv_cache_delete_all (st_cache st)\<rparr>
      in case r of Inl _ \<Rightarrow> st | Inr _ \<Rightarrow> set_metadata (\<lambda>m. m\<lparr>sm_num_keys := 0\<rparr>) st)"

lemma store_delete_all_spec:
  assumes law: "mapped_iter_law E (get_store_device st) view ahead" and laws: "trim_laws E view st" "alloc_law E"
    and caps: "0 < nvm_max_num_logical_iter_ranges (dev_caps (get_store_device st))"
      "0 < nvm_max_num_iovs (dev_caps (get_store_device st))"
    and rs: "ahead w (user_data_iter st) = rs"
    and lens: "\<forall>r \<in> set rs. br_length r * get_sector_size st \<le> max_trim_size (get_store_device st)"
    and free: "\<forall>r \<in> set rs. br_start_lba r \<notin> st_safe st"
  shows "\<exists>r w'. store_delete_all E oth st w = Some (r, after_delete_all r st, w') \<and> loop_trimmed view w rs r w'"
proof -
  let ?it = "user_data_iter st"
  define st0 where "st0 = st\<lparr>st_cache := map_option kv_cache_delete_all (st_cache st)\<rparr>"
  have dev: "get_store_device st0 = get_store_device st" "get_sector_size st0 = get_sector_size st"
    "get_layout st0 = get_layout st" "st_safe st0 = st_safe st"
    by (simp_all add: st0_def get_store_device_def get_sector_size_def get_layout_def)
  have ap: "apart rs" and pos: "\<forall>r \<in> set rs. 0 < br_length r"
    using law unfolding mapped_iter_law_def rs [symmetric] by blast+
  have inv: "sync_inv E view st0 rs (st0, w)"
    using laws(1) free pos by (simp add: sync_inv_def trim_laws_def dev)
  have m: "0 < it_max_ranges ?it" using caps by (simp add: user_data_iter_def)
  obtain r w' where d: "delete_keys_loop E oth ?it [] st0 w = Some (r, st0, w')" "loop_trimmed view w rs r w'"
    using delete_keys_loop_spec [of E st0 view ahead rs w "[]" ?it oth] law ap lens inv caps m by (auto simp: rs dev)
  obtain iovs where "env_new_iovs E w (nvm_max_num_iovs (dev_caps (get_store_device st))) = Some iovs"
    using laws(2) unfolding alloc_law_def by blast
  then have "delete_all_keys E oth (get_data_start_lba (get_layout st))
      (unat (get_kv_len (get_layout st) - get_data_start_lba (get_layout st))) st0 w = Some (r, st0, w')"
    using d(1) by (simp add: delete_all_keys_def dev user_data_iter_def)
  then have "store_delete_all E oth st w = Some (r, after_delete_all r st, w')"
    by (cases r) (simp_all add: store_delete_all_def after_delete_all_def Let_def dev st0_def [symmetric])
  then show ?thesis using d(2) by blast
qed
end
