(* ===== verification/PoolDel.thy ===== *)
theory PoolDel
  imports Scanner RangeTrim
begin

text \<open>
  The pool deletion thread, \<open>src/kv_pool_del_manager.cpp\<close>: it copies the deletion bitmap of the
  pool manager, removes the keys of the pools in it from the media with batches of trims over the
  device's range iterator, and clears the pools' bits. \<open>delete_pool\<close> returns its
  \<open>ret_code\<close> as the code leaves it: a non-negative number is \<open>Inr\<close>, which is not
  always zero. As in the pool manager, \<open>None\<close> is a call that never returns.
\<close>

record nvm_kv_pool_del_mgr = nvm_kv_scanner +
  pd_iter :: nvm_logical_range_iter
  pd_pools_to_delete :: kv_bitmap
  pd_validate :: bool
  pd_usr_data_start_lba :: u64
  pd_usr_data_max_lba :: nat

definition pool_mask_of :: "u32 \<Rightarrow> u32" where
  "pool_mask_of pool_bits = push_bit (unat pool_bits) 1 - 1"

definition pool_del_initialize ::
  "kv_batch_iterator option \<Rightarrow> bool \<Rightarrow> bool \<Rightarrow> bool \<Rightarrow> nvm_kv_store \<Rightarrow> nvm_kv_pool_del_mgr \<Rightarrow> nvm_kv_iterator \<Rightarrow>
   unit res \<times> nvm_kv_pool_del_mgr \<times> nvm_kv_iterator" where
  "pool_del_initialize malloc new_iovec new_threads bitmap_ok st pd ni =
     (let max_pools = sm_max_pools (get_store_metadata st); caps = dev_caps (get_store_device st);
          pool_bits = get_pool_bits (get_layout st); start_lba = get_data_start_lba (get_layout st)
      in case scanner_initialize malloc new_iovec new_threads (Some KV_POOL_DEL_ITER) st pd ni of
           (Inl e, pd, ni) \<Rightarrow> (Inl e, pd, ni)
         | (Inr _, pd, ni) \<Rightarrow>
             (let batch_iter = the (get_iter (sn_iter_id pd) KV_POOL_DEL_ITER ni);
                  pd = pd\<lparr>pd_iter := (bi_it batch_iter)
                            \<lparr>it_max_ranges := nvm_max_num_logical_iter_ranges caps,
                             it_filter_mask := ucast (pool_mask_of pool_bits), it_filter_expiry := 0\<rparr>\<rparr>
              in case bitmap_alloc_aligned bitmap_ok max_pools (of_nat (nvm_sector_size caps)) of
                   None \<Rightarrow> (Inl NVM_ERR_OUT_OF_MEMORY, pd, ni)
                 | Some pools \<Rightarrow>
                     (Inr (),
                      pd\<lparr>pd_pools_to_delete := pools,
                         pd_validate := max_pools > push_bit (unat pool_bits) 1,
                         pd_usr_data_start_lba := start_lba,
                         pd_usr_data_max_lba := unat (get_kv_len (get_layout st) - start_lba)\<rparr>, ni)))"

section \<open>Deleting the keys of a pool\<close>

text \<open>
  The variables of \<open>delete_pool\<close>: the vectors collected, \<open>ret_code\<close>,
  \<open>found_pool_id\<close> (which starts with whatever the stack holds) and the manager.
\<close>

record del_run =
  dr_iovec :: "nvm_iovec list"
  dr_ret :: int
  dr_found :: u32
  dr_pd :: nvm_kv_pool_del_mgr

text \<open>Whether a range is left alone.\<close>

definition del_skip ::
  "'w nvm_env \<Rightarrow> nvm_kv_store \<Rightarrow> int \<Rightarrow> nvm_block_range \<Rightarrow> del_run \<Rightarrow> 'w \<Rightarrow> (bool res \<times> del_run) option" where
  "del_skip E st pool_id r d w =
     (if pd_validate (dr_pd d)
      then
        (case is_valid_for_del E st (br_start_lba r) w (dr_pd d) of
           None \<Rightarrow> None
         | Some (Inl e, pd) \<Rightarrow> Some (Inl e, d\<lparr>dr_pd := pd\<rparr>)
         | Some (Inr (expired, found), pd) \<Rightarrow>
             (let found_pool_id = (case found of Some p \<Rightarrow> p | None \<Rightarrow> dr_found d)
              in Some (Inr (pool_id \<noteq> -1 \<and> word_of_int pool_id \<noteq> found_pool_id \<or>
                            pool_id = -1 \<and> found_pool_id = get_default_poolid),
                       d\<lparr>dr_pd := pd, dr_found := found_pool_id, dr_ret := (if expired then 1 else 0)\<rparr>)))
      else
        Some (Inr (pool_id = -1 \<and>
                   ucast (br_start_lba r AND ucast (pool_mask_of (get_pool_bits (get_layout st)))) = get_default_poolid),
              d))"

fun del_batch ::
  "'w nvm_env \<Rightarrow> nvm_kv_store \<Rightarrow> int \<Rightarrow> nvm_block_range list \<Rightarrow> del_run \<Rightarrow> 'w \<Rightarrow> (unit res \<times> del_run \<times> 'w) option" where
  "del_batch E st pool_id [] d w = Some (Inr (), d, w)"
| "del_batch E st pool_id (r # rs) d w =
     Option.bind (del_skip E st pool_id r d w) (\<lambda>c.
       case fst c of
         Inl e \<Rightarrow> Some (Inl e, snd c, w)
       | Inr skip \<Rightarrow>
           if skip then del_batch E st pool_id rs (snd c) w
           else
             (let trim_len = br_length r * get_sector_size st; d = snd c;
                  d' = d\<lparr>dr_iovec := dr_iovec d @ [trim_iov (br_start_lba r) trim_len]\<rparr>
              in if trim_len > max_trim_size (get_store_device st) then Some (Inl NVM_ERR_INTERNAL_FAILURE, d, w)
                 else if length (dr_iovec d') = nvm_max_num_iovs (dev_caps (get_store_device st))
                 then (let b = batch_delete E st (dr_iovec d') w
                       in case fst b of
                            Inl e \<Rightarrow> Some (Inl e, d', snd b)
                          | Inr _ \<Rightarrow> del_batch E st pool_id rs (d'\<lparr>dr_iovec := [], dr_ret := 0\<rparr>) (snd b))
                 else del_batch E st pool_id rs d' w))"

definition del_last :: "'w nvm_env \<Rightarrow> nvm_kv_store \<Rightarrow> del_run \<Rightarrow> 'w \<Rightarrow> unit res \<times> del_run \<times> 'w" where
  "del_last E st d w =
     (if dr_iovec d \<noteq> []
      then (case batch_delete E st (dr_iovec d) w of (r, w) \<Rightarrow> (r, d\<lparr>dr_ret := 0\<rparr>, w))
      else (Inr (), d, w))"

partial_function (option) del_loop ::
  "'w nvm_env \<Rightarrow> nvm_kv_store \<Rightarrow> int \<Rightarrow> del_run \<Rightarrow> 'w \<Rightarrow> (unit res \<times> del_run \<times> 'w) option" where
  "del_loop E st pool_id d w =
     (let q = env_range_iter E (dev_handle (get_store_device st)) (pd_iter (dr_pd d)) w;
          d = d\<lparr>dr_ret := fst q, dr_pd := (dr_pd d)\<lparr>pd_iter := snd q\<rparr>\<rparr>;
          num_ranges_found = nat (fst q mod 2 ^ 32)
      in if fst q = -1 then Some (Inl NVM_ERR_INTERNAL_FAILURE, d, w)
         else Option.bind (del_batch E st pool_id (take num_ranges_found (it_ranges (snd q))) d w) (\<lambda>b.
                case fst b of
                  Inl e \<Rightarrow> Some b
                | Inr _ \<Rightarrow>
                    if num_ranges_found < it_max_ranges (snd q)
                    then Some (del_last E st (fst (snd b)) (snd (snd b)))
                    else del_loop E st pool_id (fst (snd b)) (snd (snd b))))"

definition del_iter :: "nvm_kv_store \<Rightarrow> int \<Rightarrow> nvm_kv_pool_del_mgr \<Rightarrow> nvm_logical_range_iter" where
  "del_iter st pool_id pd =
     (let it = (pd_iter pd)
            \<lparr>it_range_to_iterate := \<lparr>br_start_lba = pd_usr_data_start_lba pd, br_length = pd_usr_data_max_lba pd\<rparr>\<rparr>
      in if pool_id = -1 then it\<lparr>it_filter_mask := 0, it_filter_pattern := 0\<rparr>
         else it\<lparr>it_filter_pattern := ucast (get_poolid_hash (st_pm st) (word_of_int pool_id))\<rparr>)"

definition del_pool_keys ::
  "'w nvm_env \<Rightarrow> nvm_kv_store \<Rightarrow> int \<Rightarrow> u32 \<Rightarrow> nvm_kv_pool_del_mgr \<Rightarrow> 'w \<Rightarrow>
   (int res \<times> nvm_kv_pool_del_mgr \<times> 'w) option" where
  "del_pool_keys E st pool_id garbage pd w =
     map_option (\<lambda>(r, d, w).
         (map_sum id (\<lambda>_. dr_ret d) r,
          (if pool_id = -1
           then (dr_pd d)\<lparr>pd_iter := (pd_iter (dr_pd d))\<lparr>it_filter_mask := it_filter_mask (pd_iter pd)\<rparr>\<rparr>
           else dr_pd d), w))
       (del_loop E st pool_id
          \<lparr>dr_iovec = [], dr_ret = 0, dr_found = garbage, dr_pd = pd\<lparr>pd_iter := del_iter st pool_id pd\<rparr>\<rparr> w)"

section \<open>The pass of the thread\<close>

definition set_pm :: "nvm_kv_pool_mgr \<Rightarrow> nvm_kv_store \<Rightarrow> nvm_kv_store" where
  "set_pm pm st = st\<lparr>st_pm := pm\<rparr>"

definition as_ret :: "unit res \<Rightarrow> int res" where
  "as_ret r = map_sum id (\<lambda>_. 0) r"

fun del_pools ::
  "'w nvm_env \<Rightarrow> u32 \<Rightarrow> nat list \<Rightarrow> nvm_kv_store \<Rightarrow> nvm_kv_pool_del_mgr \<Rightarrow> 'w \<Rightarrow>
   (int res \<times> nvm_kv_store \<times> nvm_kv_pool_del_mgr \<times> 'w) option" where
  "del_pools E garbage [] st pd w = Some (Inr 0, st, pd, w)"
| "del_pools E garbage (i # is) st pd w =
     (if bitmap_test (pd_pools_to_delete pd) (of_nat i) = 0 then del_pools E garbage is st pd w
      else
        (case del_pool_keys E st (int i) garbage pd w of
           None \<Rightarrow> None
         | Some (r, pd, w) \<Rightarrow>
             if r \<noteq> Inr 0 then Some (r, st, pd, w)
             else
               (case clear_pool_bitmap E (of_nat i) (st_pm st) w of
                  None \<Rightarrow> None
                | Some (r, pm, w) \<Rightarrow>
                    if r \<noteq> Inr () then Some (as_ret r, set_pm pm st, pd, w)
                    else del_pools E garbage is (set_pm pm st) pd w)))"

definition start_pool_delete ::
  "'w nvm_env \<Rightarrow> u32 \<Rightarrow> bool \<Rightarrow> nvm_kv_store \<Rightarrow> nvm_kv_pool_del_mgr \<Rightarrow> 'w \<Rightarrow>
   (int res \<times> nvm_kv_store \<times> nvm_kv_pool_del_mgr \<times> 'w) option" where
  "start_pool_delete E garbage delete_all_pools st pd w =
     (if delete_all_pools
      then
        (case del_pool_keys E st (-1) garbage pd w of
           None \<Rightarrow> None
         | Some (r, pd, w) \<Rightarrow>
             if r \<noteq> Inr 0 then Some (r, st, pd, w)
             else
               (case clear_pool_bitmaps E (pd_pools_to_delete pd) (st_pm st) w of
                  None \<Rightarrow> None
                | Some (r, pm, w) \<Rightarrow> Some (as_ret r, set_pm pm st, pd, w)))
      else del_pools E garbage [1..<unat (sm_max_pools (get_store_metadata st))] st pd w)"

text \<open>
  One round of the thread; \<open>None\<close> when there is nothing to delete, it waits. The result of
  \<open>get_pool_deletion_bitmap\<close> is not looked at: when it fails, the round goes on with the
  bitmap and the flag of the round before.
\<close>

definition pool_del_round ::
  "'w nvm_env \<Rightarrow> u32 \<Rightarrow> bool \<Rightarrow> nvm_kv_store \<Rightarrow> nvm_kv_pool_del_mgr \<Rightarrow> 'w \<Rightarrow>
   (int res \<times> bool \<times> nvm_kv_store \<times> nvm_kv_pool_del_mgr \<times> 'w) option" where
  "pool_del_round E garbage delete_all_pools st pd w =
     (if \<not> has_pools_to_delete (st_pm st) then None
      else
        (let (pd, delete_all_pools) =
           (case get_pool_deletion_bitmap E (st_pm st) w of
              Inl e \<Rightarrow> (pd, delete_all_pools)
            | Inr (bitmap, all) \<Rightarrow>
                (pd\<lparr>pd_pools_to_delete := bitmap @ drop (length bitmap) (pd_pools_to_delete pd)\<rparr>, all))
         in map_option (\<lambda>(r, st, pd, w). (r, delete_all_pools, set_pm (set_pool_del_status False (st_pm st)) st, pd, w))
              (start_pool_delete E garbage delete_all_pools (set_pm (set_pool_del_status True (st_pm st)) st) pd w)))"


section \<open>What a deletion trims\<close>

definition pool_skip :: "nvm_kv_store \<Rightarrow> int \<Rightarrow> nvm_block_range \<Rightarrow> bool" where
  "pool_skip st pool_id r \<longleftrightarrow>
     pool_id = -1 \<and>
     ucast (br_start_lba r AND ucast (pool_mask_of (get_pool_bits (get_layout st)))) = get_default_poolid"

lemma del_skip_hash:
  "\<not> pd_validate (dr_pd d) \<Longrightarrow> del_skip E st pool_id r d w = Some (Inr (pool_skip st pool_id r), d)"
  by (simp add: del_skip_def pool_skip_def)

lemma del_batch_collect:
  defines "tr \<equiv> \<lambda>st. trim_of (get_sector_size st)"
  assumes "collect (batch_delete E st) (nvm_max_num_iovs (dev_caps (get_store_device st)))
      (max_trim_size (get_store_device st)) (get_sector_size st) (pool_skip st pool_id) rs pend w = (r, pend', w')"
    and "\<not> pd_validate (dr_pd d)" and "dr_iovec d = map (tr st) pend"
  shows "\<exists>d'. del_batch E st pool_id rs d w = Some (r, d', w') \<and> dr_pd d' = dr_pd d \<and>
     (r = Inr () \<longrightarrow> dr_iovec d' = map (tr st) pend' \<and>
        (pend' \<noteq> [] \<or> dr_ret d' = 0 \<or> pend = [] \<and> (\<forall>x \<in> set rs. pool_skip st pool_id x) \<and> dr_ret d' = dr_ret d))"
  using assms(2-)
proof (induction rs arbitrary: pend d w)
  case Nil
  then show ?case by auto
next
  case (Cons x rs)
  note dsk = del_skip_hash [OF Cons.prems(2)]
  let ?max = "nvm_max_num_iovs (dev_caps (get_store_device st))" and ?lim = "max_trim_size (get_store_device st)"
    and ?ss = "get_sector_size st"
  let ?d = "d\<lparr>dr_iovec := dr_iovec d @ [trim_iov (br_start_lba x) (br_length x * ?ss)]\<rparr>"
  have iov: "dr_iovec ?d = map (tr st) (pend @ [x])" using Cons.prems(3) by (simp add: tr_def trim_of_def)
  consider (skip) "pool_skip st pool_id x" | (long) "\<not> pool_skip st pool_id x" "br_length x * ?ss > ?lim"
    | (full) "\<not> pool_skip st pool_id x" "\<not> br_length x * ?ss > ?lim" "length (pend @ [x]) = ?max"
    | (more) "\<not> pool_skip st pool_id x" "\<not> br_length x * ?ss > ?lim" "length (pend @ [x]) \<noteq> ?max" by blast
  then show ?case
  proof cases
    case skip
    have "del_batch E st pool_id (x # rs) d w = del_batch E st pool_id rs d w" using skip by (simp add: dsk)
    moreover have "collect (batch_delete E st) ?max ?lim ?ss (pool_skip st pool_id) rs pend w = (r, pend', w')"
      using skip Cons.prems(1) by simp
    ultimately show ?thesis using Cons.IH [OF _ Cons.prems(2,3)] skip by fastforce
  next
    case long
    then show ?thesis using Cons.prems(1) by (auto simp: dsk)
  next
    case more
    have "del_batch E st pool_id (x # rs) d w = del_batch E st pool_id rs ?d w"
      using more Cons.prems(3) by (simp add: Let_def dsk)
    moreover have "collect (batch_delete E st) ?max ?lim ?ss (pool_skip st pool_id) rs (pend @ [x]) w = (r, pend', w')"
      using more Cons.prems(1) by simp
    ultimately show ?thesis using Cons.IH [of "pend @ [x]" w ?d] Cons.prems(2) iov by fastforce
  next
    case full
    obtain q w1 where q: "batch_delete E st (map (tr st) (pend @ [x])) w = (q, w1)" by force
    have len: "length (dr_iovec ?d) = ?max" unfolding iov using full(3) by simp
    have b: "del_batch E st pool_id (x # rs) d w =
      (case q of Inl e \<Rightarrow> Some (Inl e, ?d, w1)
       | Inr _ \<Rightarrow> del_batch E st pool_id rs (?d\<lparr>dr_iovec := [], dr_ret := 0\<rparr>) w1)"
      using full(1,2) len q iov by (simp add: Let_def dsk split: sum.split)
    show ?thesis
    proof (cases q)
      case (Inl e)
      then have e: "r = Inl e" "w' = w1" using q full Cons.prems(1) by (auto simp: tr_def)
      show ?thesis unfolding b Inl e by auto
    next
      case (Inr u)
      have "collect (batch_delete E st) ?max ?lim ?ss (pool_skip st pool_id) rs [] w1 = (r, pend', w')"
        using full q Inr Cons.prems(1) by (simp add: tr_def)
      then show ?thesis using b Inr Cons.IH [of "[]" w1 "?d\<lparr>dr_iovec := [], dr_ret := 0\<rparr>"] Cons.prems(2) by auto
    qed
  qed
qed

lemma del_loop_spec:
  fixes st :: nvm_kv_store and pool_id :: int
  defines "dev \<equiv> get_store_device st"
  defines "tr \<equiv> trim_of (get_sector_size st)" and "skip \<equiv> pool_skip st pool_id"
  assumes law: "mapped_iter_law E dev view ahead" and laws: "trim_laws E view st" and ap: "apart all"
    and lens: "\<forall>r \<in> set all. br_length r * get_sector_size st \<le> max_trim_size dev"
  shows "\<not> pd_validate (dr_pd d) \<Longrightarrow> dr_iovec d = map tr pend \<Longrightarrow> pd_iter (dr_pd d) = it \<Longrightarrow>
    set (pend @ ahead w it) \<subseteq> set all \<Longrightarrow> apart (pend @ ahead w it) \<Longrightarrow>
    0 < it_max_ranges it \<Longrightarrow> it_max_ranges it < 2 ^ 32 \<Longrightarrow> length pend < nvm_max_num_iovs (dev_caps dev) \<Longrightarrow>
    \<exists>r d' w'. del_loop E st pool_id d w = Some (r, d', w') \<and>
      loop_trimmed view w (pend @ filter (\<lambda>r. \<not> skip r) (ahead w it)) r w' \<and>
      (r = Inr () \<longrightarrow> (\<forall>x \<in> set (ahead w it). \<not> skip x) \<longrightarrow> dr_ret d' = 0)"
proof (induction "length (ahead w it)" arbitrary: w it pend d rule: less_induct)
  case less
  let ?max = "nvm_max_num_iovs (dev_caps dev)" and ?sel = "filter (\<lambda>r. \<not> skip r)"
  note prems = less.prems
  show ?case
  proof (rule mapped_iter_step [OF law prems(6), where w = w])
    fix it' batch rest
    assume q: "env_range_iter E (dev_handle dev) it w = (int (length batch), it')"
      and b: "take (length batch) (it_ranges it') = batch" "ahead w it = batch @ rest" "ahead w it' = rest"
        "it_max_ranges it' = it_max_ranges it" "length batch \<le> it_max_ranges it"
        "length batch < it_max_ranges it \<Longrightarrow> rest = []"
        "length batch = it_max_ranges it \<Longrightarrow> length rest < length (ahead w it)"
        "length batch < 2 ^ 32 \<Longrightarrow> nat (int (length batch) mod 2 ^ 32) = length batch"
    define d1 where "d1 = d\<lparr>dr_ret := int (length batch), dr_pd := (dr_pd d)\<lparr>pd_iter := it'\<rparr>\<rparr>"
    have num: "nat (int (length batch) mod 2 ^ 32) = length batch" using b(5,8) prems(7) by simp
    have apb: "apart (pend @ batch)" "apart rest" "sectors_of (pend @ batch) \<inter> sectors_of rest = {}"
      using prems(5) unfolding b(2) append_assoc [symmetric] apart_append [of "pend @ batch"] by blast+
    have sub: "set (pend @ batch) \<subseteq> set all" "set batch \<subseteq> set all" "set rest \<subseteq> set all"
      using prems(4) b(2) by auto
    obtain r pend' w1 where c: "collect (batch_delete E st) ?max (max_trim_size dev) (get_sector_size st)
        skip batch pend w = (r, pend', w1)" by (meson prod_cases3)
    have lb: "\<forall>r \<in> set batch. br_length r * get_sector_size st \<le> max_trim_size dev" using lens sub(2) by auto
    have "\<exists>A. view w1 = trim_set (view w) A \<and> A \<subseteq> sectors_of (pend @ ?sel batch) \<and>
        (case r of Inl e \<Rightarrow> e = NVM_ERR_IO
         | Inr _ \<Rightarrow> A \<union> sectors_of pend' = sectors_of (pend @ ?sel batch) \<and> length pend' < ?max \<and> apart pend' \<and>
             set pend' \<subseteq> set (pend @ batch))"
      using pool_trims.collect_spec [OF lb prems(8) apb(1) laws ap sub(1) c] by blast
    then obtain A where A: "view w1 = trim_set (view w) A" "A \<subseteq> sectors_of (pend @ ?sel batch)"
      "case r of Inl e \<Rightarrow> e = NVM_ERR_IO
         | Inr _ \<Rightarrow> A \<union> sectors_of pend' = sectors_of (pend @ ?sel batch) \<and> length pend' < ?max \<and> apart pend' \<and>
             set pend' \<subseteq> set (pend @ batch)" by blast
    have A': "A \<subseteq> sectors_of (pend @ batch)" using A(2) sectors_of_filter [of "\<lambda>r. \<not> skip r" batch] by auto
    have "\<not> pd_validate (dr_pd d1)" "dr_iovec d1 = map tr pend" using prems(1,2) by (simp_all add: d1_def)
    then obtain d2 where d2: "del_batch E st pool_id batch d1 w = Some (r, d2, w1)" "dr_pd d2 = dr_pd d1"
      "r = Inr () \<longrightarrow> dr_iovec d2 = map tr pend' \<and>
        (pend' \<noteq> [] \<or> dr_ret d2 = 0 \<or> pend = [] \<and> (\<forall>x \<in> set batch. skip x) \<and> dr_ret d2 = dr_ret d1)"
      using del_batch_collect [OF c [unfolded dev_def skip_def], of d1] unfolding tr_def skip_def by blast
    have loop: "del_loop E st pool_id d w =
        (case r of Inl e \<Rightarrow> Some (Inl e, d2, w1)
         | Inr _ \<Rightarrow> if length batch < it_max_ranges it then Some (del_last E st d2 w1)
                    else del_loop E st pool_id d2 w1)"
      using q b(1,4) d2(1) num prems(3)
      by (simp add: del_loop.simps [of _ _ _ d] Let_def d1_def flip: dev_def split: sum.split)
    show ?thesis
    proof (cases r)
      case (Inl e)
      have "loop_trimmed view w (pend @ ?sel (ahead w it)) (Inl e) w1"
        unfolding loop_trimmed_def using A Inl b(2) by (intro exI [of _ A]) auto
      then show ?thesis using loop Inl by auto
    next
      case (Inr u)
      have p: "A \<union> sectors_of pend' = sectors_of (pend @ ?sel batch)" "length pend' < ?max" "apart pend'"
        "set pend' \<subseteq> set (pend @ batch)" using A(3) Inr by simp_all
      have i2: "dr_iovec d2 = map tr pend'"
        "pend' \<noteq> [] \<or> dr_ret d2 = 0 \<or> (\<forall>x \<in> set batch. skip x) \<and> dr_ret d2 = int (length batch)"
        using d2(3) Inr by (auto simp: d1_def)
      show ?thesis
      proof (cases "length batch < it_max_ranges it")
        case True
        then have rest: "rest = []" by (rule b(6))
        obtain r2 w2 where f: "batch_delete E st (map tr pend') w1 = (r2, w2)" by force
        have "flushed view pend' w1 r2 w2"
          using pool_trims.flush_ok [OF laws p(3) subset_refl p(3) f [unfolded tr_def]] by simp
        then have t: "loop_trimmed view w (pend @ ?sel batch) r2 w2"
          using loop_trimmed_after [OF A(1) p(1), of "[]"] loop_trimmed_flush by force
        have e: "loop_trimmed view w (pend @ ?sel batch) (Inr ()) w1" if "pend' = []"
          unfolding loop_trimmed_def using A(1) p(1) that by (intro exI [of _ A]) simp
        have z: "dr_ret d2 = 0" if "pend' = []" "\<forall>x \<in> set batch. \<not> skip x"
          using i2(2) that by (cases batch) auto
        show ?thesis
        proof (cases "pend' = []")
          case True
          then show ?thesis
            using loop Inr \<open>length batch < _\<close> e z rest b(2) i2(1) by (simp add: del_last_def)
        next
          case False
          then show ?thesis
            using loop Inr True t f rest b(2) i2(1) by (simp add: del_last_def)
        qed
      next
        case False
        then have len: "length rest < length (ahead w it)" using b(5,7) by simp
        have a1: "ahead w1 it' = rest"
          using ahead_stable [OF law A(1), of it'] A' apb(3) b(3) by auto
        have ap1: "apart (pend' @ rest)"
          using p(3) apb(2,3) sectors_of_mono [OF p(4)] by (auto simp: apart_append)
        have sub1: "set (pend' @ rest) \<subseteq> set all" using p(4) sub by auto
        have pd2: "\<not> pd_validate (dr_pd d2)" "pd_iter (dr_pd d2) = it'" using d2(2) prems(1) by (simp_all add: d1_def)
        have pr: "length (ahead w1 it') < length (ahead w it)" "set (pend' @ ahead w1 it') \<subseteq> set all"
          "apart (pend' @ ahead w1 it')" "0 < it_max_ranges it'" "it_max_ranges it' < 2 ^ 32"
          using len sub1 ap1 b(4) prems(6,7) unfolding a1 by simp_all
        obtain r2 d3 w2 where r2: "del_loop E st pool_id d2 w1 = Some (r2, d3, w2)"
          "loop_trimmed view w1 (pend' @ ?sel rest) r2 w2"
          "r2 = Inr () \<longrightarrow> (\<forall>x \<in> set rest. \<not> skip x) \<longrightarrow> dr_ret d3 = 0"
          using less.hyps [OF pr(1) pd2(1) i2(1) pd2(2) pr(2-5) p(2)] unfolding a1 by blast
        have "loop_trimmed view w ((pend @ ?sel batch) @ ?sel rest) r2 w2" by (rule loop_trimmed_after [OF A(1) p(1) r2(2)])
        then show ?thesis using loop Inr False r2(1,3) b(2) by simp
      qed
    qed
  qed
qed
end
