(* ===== verification/ExpiryMgr.thy ===== *)
theory ExpiryMgr
  imports Complex_Main Scanner RangeTrim
begin

text \<open>
  The expiry thread, \<open>src/kv_expiry_manager.cpp\<close>: the heuristics that decide whether a pass
  over the keys is due, and the pass, which collects expired keys into batches of synchronised
  trims. Percentages are exact rationals where the code has \<open>double\<close>; a total capacity of zero
  is outside the model. \<open>None\<close> is a pass that never returns.
\<close>

record nvm_kv_expiry_mgr = nvm_kv_scanner +
  em_last_seen_capacity :: rat
  em_no_expire_count :: int

definition M_NO_EXPIRY_LIMIT :: int where "M_NO_EXPIRY_LIMIT = 10"
definition M_TRIGGER_PERCENT :: rat where "M_TRIGGER_PERCENT = 25"
definition M_TRIGGER_NEXT :: rat where "M_TRIGGER_NEXT = 5"

section \<open>The heuristics\<close>

definition percent_used :: "nvm_capacity \<Rightarrow> rat" where
  "percent_used c = of_nat (cp_used_phys c) / of_nat (cp_total_phys c) * 100"

definition expire_decide :: "rat \<Rightarrow> nvm_kv_expiry_mgr \<Rightarrow> bool \<times> nvm_kv_expiry_mgr" where
  "expire_decide used em =
     (let last = em_last_seen_capacity em
      in if last \<noteq> 0 \<and> used > last
         then (used - last > M_TRIGGER_NEXT, em\<lparr>em_no_expire_count := 0\<rparr>)
         else if used = last
         then (if em_no_expire_count em > M_NO_EXPIRY_LIMIT
               then (False, em\<lparr>em_no_expire_count := 0\<rparr>)
               else (True, em\<lparr>em_no_expire_count := em_no_expire_count em + 1\<rparr>))
         else if used \<ge> M_TRIGGER_PERCENT
         then (True, em\<lparr>em_no_expire_count := 0\<rparr>)
         else (False, em))"

definition expire_keys ::
  "'w nvm_env \<Rightarrow> nvm_kv_store \<Rightarrow> nvm_kv_expiry_mgr \<Rightarrow> 'w \<Rightarrow> bool \<times> nvm_kv_expiry_mgr" where
  "expire_keys E st em w =
     (case env_capacity E (dev_handle (get_store_device st)) w of
        None \<Rightarrow> (False, em\<lparr>em_last_seen_capacity := 0\<rparr>)
      | Some capacity_info \<Rightarrow>
          (case expire_decide (percent_used capacity_info) em of
             (ret_val, em) \<Rightarrow> (ret_val, em\<lparr>em_last_seen_capacity := percent_used capacity_info\<rparr>)))"

section \<open>The pass\<close>

record exp_run =
  er_iovec :: "nvm_iovec list"
  er_em :: nvm_kv_expiry_mgr
  er_ni :: nvm_kv_iterator
  er_st :: nvm_kv_store

text \<open>Whether the key the scan stands on is to be removed, with the \<open>ret_code\<close> of the check.\<close>

definition expiry_check ::
  "'w nvm_env \<Rightarrow> u64 \<Rightarrow> exp_run \<Rightarrow> 'w \<Rightarrow> ((bool \<times> int) res \<times> exp_run) option" where
  "expiry_check E key_loc r w =
     (if sn_iter_type (er_em r) = KV_GLB_EXP_ITER then Some (Inr (True, 0), r)
      else
        map_option (\<lambda>(c, em).
            (map_sum id (\<lambda>(expired, _). (expired, if expired then 1 else 0)) c, r\<lparr>er_em := em\<rparr>))
          (is_valid_for_del E (er_st r) key_loc w (er_em r)))"

definition expiry_add ::
  "'w nvm_env \<Rightarrow> 'w others \<Rightarrow> u64 \<Rightarrow> nat \<Rightarrow> int \<Rightarrow> exp_run \<Rightarrow> 'w \<Rightarrow> int res \<times> exp_run \<times> 'w" where
  "expiry_add E oth key_loc read_len ret_code r w =
     (let device = get_store_device (er_st r); discard_len = read_len * nvm_sector_size (dev_caps device)
      in if discard_len > max_trim_size device then (Inl NVM_ERR_INTERNAL_FAILURE, r, w)
         else
           (let r = r\<lparr>er_iovec := er_iovec r @ [trim_iov key_loc discard_len]\<rparr>
            in if length (er_iovec r) = nvm_max_num_iovs (dev_caps device)
               then
                 (case batch_delete_sync E oth (er_iovec r) True (er_st r) w of
                    (Inl e, st, w) \<Rightarrow> (Inl e, r\<lparr>er_st := st\<rparr>, w)
                  | (Inr _, st, w) \<Rightarrow> (Inr 0, r\<lparr>er_st := st, er_iovec := []\<rparr>, w))
               else (Inr ret_code, r, w)))"

partial_function (option) expiry_loop ::
  "'w nvm_env \<Rightarrow> 'w others \<Rightarrow> int \<Rightarrow> exp_run \<Rightarrow> 'w \<Rightarrow> (int res \<times> exp_run \<times> 'w) option" where
  "expiry_loop E oth ret_code r w =
     (if check_pool_del_status (st_pm (er_st r)) then Some (Inr ret_code, r, w)
      else
        (let s = perform_scan E (er_st r) (er_em r) w (er_ni r); r = r\<lparr>er_ni := snd s\<rparr>
         in case fst s of
              Inl e \<Rightarrow> Some (Inl e, r, w)
            | Inr loc \<Rightarrow>
                Option.bind (expiry_check E (fst loc) r w) (\<lambda>c.
                  case fst c of
                    Inl e \<Rightarrow> Some (Inl e, snd c, w)
                  | Inr del \<Rightarrow>
                      if \<not> fst del then expiry_loop E oth 0 (snd c) w
                      else
                        (let a = expiry_add E oth (fst loc) (snd loc) (snd del) (snd c) w
                         in case fst a of
                              Inl e \<Rightarrow> Some a
                            | Inr ret_code \<Rightarrow> expiry_loop E oth ret_code (fst (snd a)) (snd (snd a))))))"

definition expiry_finish ::
  "'w nvm_env \<Rightarrow> 'w others \<Rightarrow> int res \<times> exp_run \<times> 'w \<Rightarrow> int res \<times> exp_run \<times> 'w" where
  "expiry_finish E oth s =
     (case s of (ret_code, r, w) \<Rightarrow>
        (let ret_code = (if ret_code = Inl NVM_ERR_OBJECT_NOT_FOUND then Inr 0 else ret_code);
             (ret_code, st, w) =
               (if er_iovec r \<noteq> [] \<and> ret_code = Inr 0
                then (case batch_delete_sync E oth (er_iovec r) True (er_st r) w of
                        (b, st, w) \<Rightarrow> (map_sum id (\<lambda>_. 0) b, st, w))
                else (ret_code, er_st r, w));
             (_, ni) = reset_iterator st (er_em r) (er_ni r)
         in (ret_code, r\<lparr>er_st := st, er_ni := ni\<rparr>, w)))"

definition start_expiry ::
  "'w nvm_env \<Rightarrow> 'w others \<Rightarrow> nvm_kv_expiry_mgr \<Rightarrow> nvm_kv_iterator \<Rightarrow> nvm_kv_store \<Rightarrow> 'w \<Rightarrow>
   (int res \<times> exp_run \<times> 'w) option" where
  "start_expiry E oth em ni st w =
     map_option (expiry_finish E oth) (expiry_loop E oth 0 \<lparr>er_iovec = [], er_em = em, er_ni = ni, er_st = st\<rparr> w)"

text \<open>One round of the thread; \<open>None\<close> inside is a wait for the next trigger.\<close>

definition expiry_round ::
  "'w nvm_env \<Rightarrow> 'w others \<Rightarrow> nvm_kv_expiry_mgr \<Rightarrow> nvm_kv_iterator \<Rightarrow> nvm_kv_store \<Rightarrow> 'w \<Rightarrow>
   (int res option \<times> exp_run \<times> 'w) option" where
  "expiry_round E oth em ni st w =
     (if check_pool_del_status (st_pm st)
      then Some (None, \<lparr>er_iovec = [], er_em = em, er_ni = ni, er_st = st\<rparr>, w)
      else
        (case expire_keys E st em w of
           (False, em) \<Rightarrow> Some (None, \<lparr>er_iovec = [], er_em = em, er_ni = ni, er_st = st\<rparr>, w)
         | (True, em) \<Rightarrow> map_option (\<lambda>(r, run, w). (Some r, run, w)) (start_expiry E oth em ni st w)))"

section \<open>How often the heuristics ask for a pass\<close>

fun expire_calls :: "'w nvm_env \<Rightarrow> nvm_kv_store \<Rightarrow> nat \<Rightarrow> nvm_kv_expiry_mgr \<Rightarrow> 'w \<Rightarrow> bool list \<times> nvm_kv_expiry_mgr" where
  "expire_calls E st 0 em w = ([], em)"
| "expire_calls E st (Suc n) em w =
     (case expire_keys E st em w of (b, em) \<Rightarrow> (case expire_calls E st n em w of (bs, em) \<Rightarrow> (b # bs, em)))"

lemma expire_keys_steady:
  assumes "env_capacity E (dev_handle (get_store_device st)) w = Some c" and "em_last_seen_capacity em = percent_used c"
  shows "expire_keys E st em w =
     (if em_no_expire_count em > M_NO_EXPIRY_LIMIT
      then (False, em\<lparr>em_no_expire_count := 0\<rparr>)
      else (True, em\<lparr>em_no_expire_count := em_no_expire_count em + 1\<rparr>))"
  using assms by (cases em) (simp add: expire_keys_def expire_decide_def Let_def)

lemma expire_calls_steady:
  assumes c: "env_capacity E (dev_handle (get_store_device st)) w = Some c"
  shows "em_last_seen_capacity em = percent_used c \<Longrightarrow> em_no_expire_count em + int n = M_NO_EXPIRY_LIMIT + 1 \<Longrightarrow>
    expire_calls E st (Suc n) em w = (replicate n True @ [False], em\<lparr>em_no_expire_count := 0\<rparr>)"
proof (induction n arbitrary: em)
  case 0
  then show ?case using expire_keys_steady [OF c, of em] by simp
next
  case (Suc n)
  define em1 where "em1 = em\<lparr>em_no_expire_count := em_no_expire_count em + 1\<rparr>"
  have k: "expire_keys E st em w = (True, em1)"
    using expire_keys_steady [OF c Suc.prems(1)] Suc.prems(2) by (simp add: em1_def)
  have "expire_calls E st (Suc n) em1 w = (replicate n True @ [False], em1\<lparr>em_no_expire_count := 0\<rparr>)"
    using Suc.prems by (intro Suc.IH) (simp_all add: em1_def)
  then have "expire_calls E st (Suc (Suc n)) em w = (True # replicate n True @ [False], em1\<lparr>em_no_expire_count := 0\<rparr>)"
    by (simp only: expire_calls.simps(2) [of E st "Suc n"] k prod.case)
  then show ?case by (simp add: em1_def)
qed

section \<open>A scan over a finished iterator\<close>

lemma valid_put:
  assumes v: "valid_iter st it_id ty ni = Inr b" and l: "nat it_id < length (ni_iter ni)" and p: "bi_pool_id b' = bi_pool_id b"
  shows "valid_iter st it_id ty (put_iter (nat it_id) (Some b') ni) = Inr b'"
proof -
  have "validate_iter st it_id ty ni = Inr ()" "the (ni_iter ni ! nat it_id) = b"
    using v by (auto simp: valid_iter_def split: sum.splits)
  then have "validate_iter st it_id ty (put_iter (nat it_id) (Some b') ni) = Inr ()"
    using l p by (auto simp: validate_iter_ok put_iter_def split: option.splits)
  then show ?thesis using l by (simp add: valid_iter_def put_iter_def)
qed

lemma put_put [simp]: "put_iter i b' (put_iter i b ni) = put_iter i b' ni"
  by (simp add: put_iter_def)

lemma scan_next:
  assumes v: "valid_iter st (sn_iter_id sn) (sn_iter_type sn) ni = Inr b" and l: "nat (sn_iter_id sn) < length (ni_iter ni)"
    and p: "Suc (bi_pos b) < bi_num_ranges_found b"
  shows "perform_scan E st sn w ni =
     (Inr (br_start_lba (it_ranges (bi_it b) ! Suc (bi_pos b)), br_length (it_ranges (bi_it b) ! Suc (bi_pos b))),
      put_iter (nat (sn_iter_id sn)) (Some (b\<lparr>bi_pos := Suc (bi_pos b)\<rparr>)) ni)"
  using p v valid_put [OF v l, of "b\<lparr>bi_pos := Suc (bi_pos b)\<rparr>"]
  by (simp add: perform_scan_def iterate_def get_iter_loc_def current_range_def)

lemma scan_end:
  assumes v: "valid_iter st (sn_iter_id sn) (sn_iter_type sn) ni = Inr b"
    and p: "\<not> Suc (bi_pos b) < bi_num_ranges_found b"
    and f: "set_expiry_filter E st (sn_iter_type sn) w (bi_it b) = Inr it"
    and d: "env_range_iter E (dev_handle (get_store_device st)) it w = (0, it')"
  shows "perform_scan E st sn w ni =
     (Inl NVM_ERR_OBJECT_NOT_FOUND, put_iter (nat (sn_iter_id sn)) (Some (b\<lparr>bi_pos := 0, bi_it := it'\<rparr>)) ni)"
  using v p f d by (simp add: perform_scan_def iterate_def)

lemma scan_not_found:
  assumes "perform_scan E st sn w ni = (Inl NVM_ERR_OBJECT_NOT_FOUND, ni')"
    and l: "nat (sn_iter_id sn) < length (ni_iter ni)"
  obtains b it' where "valid_iter st (sn_iter_id sn) (sn_iter_type sn) ni = Inr b"
    "ni' = put_iter (nat (sn_iter_id sn)) (Some (b\<lparr>bi_pos := 0, bi_it := it'\<rparr>)) ni"
    "valid_iter st (sn_iter_id sn) (sn_iter_type sn) ni' = Inr (b\<lparr>bi_pos := 0, bi_it := it'\<rparr>)"
proof (cases "valid_iter st (sn_iter_id sn) (sn_iter_type sn) ni")
  case (Inl e)
  then have "e = NVM_ERR_INVALID_INPUT"
    by (auto simp: valid_iter_def validate_iter_def split: sum.splits option.splits if_splits)
  then show ?thesis using assms(1) Inl by (simp add: perform_scan_def iterate_def)
next
  case (Inr b)
  have n: "\<not> Suc (bi_pos b) < bi_num_ranges_found b"
    using assms(1) scan_next [OF Inr l, of E w] by auto
  obtain it where f: "set_expiry_filter E st (sn_iter_type sn) w (bi_it b) = Inr it"
    using assms(1) Inr n
    by (cases "set_expiry_filter E st (sn_iter_type sn) w (bi_it b)")
      (auto simp: perform_scan_def iterate_def set_expiry_filter_def Let_def split: if_splits)
  obtain c it' where d: "env_range_iter E (dev_handle (get_store_device st)) it w = (c, it')" by force
  have "c = 0"
  proof (rule ccontr)
    assume c: "c \<noteq> 0"
    let ?b = "b\<lparr>bi_pos := 0, bi_it := it', bi_num_ranges_found := nat c\<rparr>"
    show False
      using assms(1) Inr n f d c valid_put [OF Inr l, of ?b]
      by (simp add: perform_scan_def iterate_def Let_def get_iter_loc_def split: if_splits)
  qed
  then have s: "perform_scan E st sn w ni =
     (Inl NVM_ERR_OBJECT_NOT_FOUND, put_iter (nat (sn_iter_id sn)) (Some (b\<lparr>bi_pos := 0, bi_it := it'\<rparr>)) ni)"
    using scan_end [OF Inr n f] d by simp
  then show thesis
    using that [OF Inr] assms(1) valid_put [OF Inr l, of "b\<lparr>bi_pos := 0, bi_it := it'\<rparr>"] by simp
qed

lemma reset_ready:
  assumes v: "valid_iter st (sn_iter_id sn) (sn_iter_type sn) ni = Inr b" and l: "nat (sn_iter_id sn) < length (ni_iter ni)"
  obtains it where "reset_iterator st sn ni = (Inr (), put_iter (nat (sn_iter_id sn)) (Some (b\<lparr>bi_it := it\<rparr>)) ni)"
    "it_ranges it = it_ranges (bi_it b)"
    "valid_iter st (sn_iter_id sn) (sn_iter_type sn) (snd (reset_iterator st sn ni)) = Inr (b\<lparr>bi_it := it\<rparr>)"
  using v valid_put [OF v l] by (simp add: reset_iterator_def init_iter_def)

end
