(* ===== verification/KvOpen.thy ===== *)
theory KvOpen
  imports PoolDel ExpiryMgr
begin

text \<open>
  Opening a store: the constructor and \<open>initialize\<close> of \<open>src/kv_store.cpp\<close> with
  \<open>init_scanners\<close>, \<open>init_pool_del_scanner\<close> of \<open>src/kv_pool_manager.cpp\<close>,
  and \<open>kv_open\<close>, \<open>initialize\<close> and the singleton \<open>instance\<close> of
  \<open>src/kv_store_mgr.cpp\<close>. A failed initialisation leaves nothing behind but what it did to the
  device, because \<open>kv_open\<close> deletes the store. What the allocators give is the record
  \<open>open_allocs\<close>; its raw objects are the contents of fresh memory. \<open>None\<close> is an open
  that never returns, or that follows a null buffer.
\<close>

datatype kv_object =
    DeviceObj | LayoutObj | HashObj | PoolMgrObj | IteratorObj | ExpiryObj | AsyncExpiryObj | PoolDelObj
  | ScannerIovs kv_iter_type | ScannerThreads "kv_iter_type option" | ScannerBitmapObj | InUseBitmapObj | DeletedBitmapObj
  | CacheObj | CacheHashObj | CacheTableObj | StoreObj

record open_allocs =
  oa_new :: "kv_object \<Rightarrow> bool"
  oa_cache_entry :: "nat \<Rightarrow> bool"
  oa_batch_iter :: "kv_iter_type \<Rightarrow> kv_batch_iterator option"
  oa_layout :: nvm_kv_layout
  oa_slice :: u32
  oa_in_use_addr :: u64
  oa_deleted_addr :: u64
  oa_pool :: nvm_kv_buffer_pool
  oa_del_status :: bool

text \<open>Everything a store object owns.\<close>

record kv_store_obj =
  so_store :: nvm_kv_store
  so_iter :: nvm_kv_iterator
  so_expiry :: "nvm_kv_expiry_mgr option"
  so_pool_del :: nvm_kv_pool_del_mgr
  so_bufs :: nvm_kv_buffer_pool

section \<open>Layout, hash function and metadata\<close>

definition bp_fresh :: "nvm_kv_buffer_pool \<Rightarrow> nvm_kv_buffer_pool" where
  "bp_fresh raw = raw\<lparr>m_buffers := [], m_buffer_sizes := [], m_initialized := False\<rparr>"

text \<open>The slices of two megabytes that the metadata and the pool tags take, in 32 bits.\<close>

definition metadata_slices :: "u32 \<Rightarrow> nat \<Rightarrow> u32" where
  "metadata_slices max_pools sector_size =
     (let pool_tag_size = of_nat POOL_TAG_SIZE * max_pools :: u32;
          pool_tag_size = ucast (nvm_kv_round_upto_blk (ucast pool_tag_size) (of_nat sector_size)) :: u32;
          pool_tag_size = ucast (nvm_kv_round_upto_blk (ucast pool_tag_size) M_KV_MAX_VALUE_RANGE) :: u32
      in ucast ((ucast pool_tag_size :: u64) div M_KV_MAX_VALUE_RANGE) + 1)"

definition store_layout :: "open_allocs \<Rightarrow> nvm_kv_store_capabilities \<Rightarrow> u32 \<Rightarrow> u32 \<Rightarrow> nvm_kv_layout" where
  "store_layout oa cap sparse_addr_bits max_pools =
     set_md_rec (ucast (metadata_slices max_pools (nvm_sector_size cap)))
       (layout_new (oa_layout oa) (of_nat (nvm_sector_size cap)) sparse_addr_bits)"

definition store_hash :: "open_allocs \<Rightarrow> nvm_kv_store_capabilities \<Rightarrow> u32 \<Rightarrow> u32 \<Rightarrow> nvm_kv_hash_func" where
  "store_hash oa cap sparse_addr_bits max_pools =
     hash_initialize FNV1A SEQUENTIAL_PROBE sparse_addr_bits (metadata_slices max_pools (nvm_sector_size cap))
       (hash_new (oa_slice oa))"

definition new_metadata ::
  "int \<Rightarrow> u64 \<Rightarrow> u32 \<Rightarrow> u32 \<Rightarrow> u32 \<Rightarrow> nvm_kv_store_metadata \<Rightarrow> nvm_kv_store_metadata" where
  "new_metadata kv_id kv_stamp version max_pools expiry md =
     md\<lparr>sm_kv_store_id := word_of_int kv_id, sm_kv_store_stamp := kv_stamp, sm_version := version,
        sm_max_pools := max_pools, sm_max_key_size := of_nat NVM_KV_MAX_KEY_SIZE,
        sm_max_value_size := of_nat NVM_KV_MAX_VALUE_SIZE, sm_kv_revision := 1,
        sm_total_no_pools := of_nat NVM_KV_MIN_POOLS, sm_expiry_mode := expiry, sm_global_expiry := 0\<rparr>"

text \<open>
  The metadata sector of a new store is written, that of an existing one is read and checked. The
  result of the transfer is kept in an unsigned variable, so its errors are not seen.
\<close>

definition init_metadata ::
  "'w nvm_env \<Rightarrow> nvm_kv_store_device \<Rightarrow> nvm_kv_layout \<Rightarrow> bool \<Rightarrow> int \<Rightarrow> u32 \<Rightarrow> u32 \<Rightarrow> u32 \<Rightarrow> membuf \<Rightarrow> 'w \<Rightarrow>
   (nvm_kv_store_metadata \<times> bytes) res \<times> 'w" where
  "init_metadata E device layout create_new kv_id version max_pools expiry buf w =
     (let len = rnd KV_STORE_METADATA_SIZE (nvm_sector_size (dev_caps device))
      in if create_new then
           (if unat max_pools > NVM_KV_MAX_POOLS then (Inl NVM_ERR_INVALID_INPUT, w)
            else if unat max_pools < NVM_KV_MIN_POOLS then (Inl NVM_ERR_INVALID_INPUT, w)
            else if expiry > KV_GLOBAL_EXPIRY then (Inl NVM_ERR_INVALID_INPUT, w)
            else
              (let md = new_metadata kv_id (get_kv_stamp layout) version max_pools expiry (load_metadata (mb_mem buf));
                   tail = drop KV_STORE_METADATA_SIZE (mb_mem buf);
                   (_, w) = nvm_writev E device
                     [write_iov (get_metadata_lba layout) len (take len (metadata_bytes md @ tail))] 1 True w
               in (Inr (md, tail), w)))
         else
           (let mem = (case nvm_readv E device [read_iov (mb_addr buf) len (get_metadata_lba layout)] w of
                         Inl _ \<Rightarrow> mb_mem buf
                       | Inr got \<Rightarrow> memcpy 0 (take len got) (mb_mem buf));
                md = load_metadata mem
            in if sm_version md \<noteq> version \<or> sm_kv_store_stamp md \<noteq> get_kv_stamp layout
               then (Inl NVM_ERR_INVALID_INPUT, w)
               else (Inr (md, drop KV_STORE_METADATA_SIZE mem), w)))"

section \<open>The scanners\<close>

definition scanner_new :: "open_allocs \<Rightarrow> nvm_kv_scanner" where
  "scanner_new oa =
     \<lparr>sn_iter_id = -1, sn_iter_type = KV_REGULAR_ITER, sn_bufs = bp_fresh (oa_pool oa)\<rparr>"

definition expiry_mgr_new :: "open_allocs \<Rightarrow> nvm_kv_expiry_mgr" where
  "expiry_mgr_new oa =
     nvm_kv_scanner.extend (scanner_new oa) \<lparr>em_last_seen_capacity = 0, em_no_expire_count = 0\<rparr>"

definition pool_del_new :: "open_allocs \<Rightarrow> nvm_kv_pool_del_mgr" where
  "pool_del_new oa =
     nvm_kv_scanner.extend (scanner_new oa)
       \<lparr>pd_iter = \<lparr>it_range_to_iterate = \<lparr>br_start_lba = 0, br_length = 0\<rparr>, it_filter_mask = 0,
                   it_filter_pattern = 0, it_filter_expiry = 0, it_max_ranges = 0, it_ranges = []\<rparr>,
        pd_pools_to_delete = [], pd_validate = False, pd_usr_data_start_lba = 0, pd_usr_data_max_lba = 0\<rparr>"

definition init_expiry ::
  "open_allocs \<Rightarrow> nvm_kv_store \<Rightarrow> nvm_kv_iterator \<Rightarrow> (nvm_kv_expiry_mgr option \<times> nvm_kv_store \<times> nvm_kv_iterator) res" where
  "init_expiry oa st ni =
     (if get_expiry st = KV_DISABLE_EXPIRY then Inr (None, st, ni)
      else if \<not> oa_new oa ExpiryObj then Inl NVM_ERR_OUT_OF_MEMORY
      else
        (let iter_type = (if get_expiry st = KV_ARBITRARY_EXPIRY then KV_ARB_EXP_ITER else KV_GLB_EXP_ITER)
         in case scanner_initialize (oa_batch_iter oa iter_type) (oa_new oa (ScannerIovs iter_type))
                   (oa_new oa (ScannerThreads (Some iter_type))) (Some iter_type) st (expiry_mgr_new oa) ni of
              (Inl e, _, _) \<Rightarrow> Inl e
            | (Inr _, em, ni) \<Rightarrow>
                if \<not> oa_new oa AsyncExpiryObj then Inl NVM_ERR_OUT_OF_MEMORY
                else
                  (case scanner_initialize None True (oa_new oa (ScannerThreads None)) None st (scanner_new oa) ni of
                     (Inl e, _, _) \<Rightarrow> Inl e
                   | (Inr _, _, ni) \<Rightarrow> Inr (Some em, st\<lparr>st_exp_status := True\<rparr>, ni))))"

definition init_pool_del_scanner ::
  "open_allocs \<Rightarrow> nvm_kv_store \<Rightarrow> nvm_kv_iterator \<Rightarrow> (nvm_kv_pool_del_mgr \<times> nvm_kv_iterator) res" where
  "init_pool_del_scanner oa st ni =
     (if \<not> oa_new oa PoolDelObj then Inl NVM_ERR_OUT_OF_MEMORY
      else
        (case pool_del_initialize (oa_batch_iter oa KV_POOL_DEL_ITER) (oa_new oa (ScannerIovs KV_POOL_DEL_ITER))
                (oa_new oa (ScannerThreads (Some KV_POOL_DEL_ITER))) (oa_new oa ScannerBitmapObj) st (pool_del_new oa) ni of
           (Inl e, _, _) \<Rightarrow> Inl e
         | (Inr _, pd, ni) \<Rightarrow> Inr (pd, ni)))"

definition init_scanners ::
  "open_allocs \<Rightarrow> nvm_kv_store \<Rightarrow> nvm_kv_iterator \<Rightarrow>
   (nvm_kv_expiry_mgr option \<times> nvm_kv_pool_del_mgr \<times> nvm_kv_store \<times> nvm_kv_iterator) res" where
  "init_scanners oa st ni =
     (case init_expiry oa st ni of
        Inl e \<Rightarrow> Inl e
      | Inr (em, st, ni) \<Rightarrow>
          (case init_pool_del_scanner oa st ni of
             Inl e \<Rightarrow> Inl e
           | Inr (pd, ni) \<Rightarrow> Inr (em, pd, st, ni)))"

section \<open>The store\<close>

definition pool_mgr_new ::
  "open_allocs \<Rightarrow> nvm_kv_store_device \<Rightarrow> nvm_kv_layout \<Rightarrow> nvm_kv_hash_func \<Rightarrow> nvm_kv_store_metadata \<Rightarrow> bytes \<Rightarrow>
   nvm_kv_pool_mgr" where
  "pool_mgr_new oa device layout hash md tail =
     \<lparr>pm_device = device, pm_layout = layout, pm_hash = hash, pm_md = md, pm_md_tail = tail, pm_in_use = [],
      pm_deleted = [], pm_bm_len = 0, pm_tags = [], pm_tags_map = (\<lambda>t. None), pm_tag_size = 0,
      pm_bufpool = bp_fresh (oa_pool oa), pm_del_status = oa_del_status oa, pm_locked = False\<rparr>"

definition store_of :: "nvm_kv_pool_mgr \<Rightarrow> nvm_kv_store" where
  "store_of pm =
     \<lparr>st_pm = pm, st_cache = None, st_safe = {},
      st_del_sectors = unat (get_max_val_range (pm_layout pm)) div nvm_sector_size (dev_caps (pm_device pm)),
      st_exp_status = False, st_queue = []\<rparr>"

definition init_cache :: "open_allocs \<Rightarrow> u64 \<Rightarrow> nvm_kv_cache option res" where
  "init_cache oa cache_size =
     (if cache_size = 0 then Inr None
      else if \<not> oa_new oa CacheObj then Inl NVM_ERR_OUT_OF_MEMORY
      else map_sum id Some
        (cache_initialize (oa_new oa CacheHashObj) (oa_new oa CacheTableObj) (oa_cache_entry oa) cache_size))"

text \<open>The last part: iterator, scanners and cache of a store whose pool manager is ready.\<close>

definition init_services ::
  "'w nvm_env \<Rightarrow> open_allocs \<Rightarrow> u32 \<Rightarrow> u64 \<Rightarrow> nvm_kv_buffer_pool \<Rightarrow> nvm_kv_pool_mgr \<Rightarrow> 'w \<Rightarrow> kv_store_obj res" where
  "init_services E oa max_pools cache_size bufs pm w =
     (let st = store_of pm; pool_bits = get_val_bits (get_layout st) - 1
      in if \<not> oa_new oa IteratorObj then Inl NVM_ERR_OUT_OF_MEMORY
         else
           (case iterator_initialize (env_memalign E w)
                   (iterator_new (bp_fresh (oa_pool oa)) (unat pool_bits) (unat max_pools) get_all_poolid) of
              (Inl e, _) \<Rightarrow> Inl e
            | (Inr _, ni) \<Rightarrow>
                (case init_scanners oa st ni of
                   Inl e \<Rightarrow> Inl e
                 | Inr (em, pd, st, ni) \<Rightarrow>
                     (case init_cache oa cache_size of
                        Inl e \<Rightarrow> Inl e
                      | Inr cache \<Rightarrow>
                          Inr \<lparr>so_store = st\<lparr>st_cache := cache\<rparr>, so_iter = ni, so_expiry = em,
                               so_pool_del = pd, so_bufs = bufs\<rparr>))))"

definition init_pools ::
  "'w nvm_env \<Rightarrow> open_allocs \<Rightarrow> bool \<Rightarrow> u32 \<Rightarrow> u64 \<Rightarrow> nvm_kv_buffer_pool \<Rightarrow> nvm_kv_pool_mgr \<Rightarrow> 'w \<Rightarrow>
   (kv_store_obj res \<times> 'w) option" where
  "init_pools E oa create_new max_pools cache_size bufs pm w =
     (case pool_mgr_initialize E (oa_new oa InUseBitmapObj) (oa_new oa DeletedBitmapObj) (oa_in_use_addr oa)
             (oa_deleted_addr oa) create_new pm w of
        None \<Rightarrow> None
      | Some (Inl _, _, w) \<Rightarrow> Some (Inl NVM_ERR_INTERNAL_FAILURE, w)
      | Some (Inr _, pm, w) \<Rightarrow> Some (init_services E oa max_pools cache_size bufs pm w, w))"

definition store_initialize ::
  "'w nvm_env \<Rightarrow> open_allocs \<Rightarrow> int \<Rightarrow> int \<Rightarrow> nvm_kv_store_capabilities \<Rightarrow> u32 \<Rightarrow> u32 \<Rightarrow> u32 \<Rightarrow> u32 \<Rightarrow> u64 \<Rightarrow> 'w \<Rightarrow>
   (kv_store_obj res \<times> 'w) option" where
  "store_initialize E oa kv_id handle cap sparse_addr_bits max_pools version expiry cache_size w =
     (let device = \<lparr>dev_fd = kv_id, dev_handle = handle, dev_caps = cap\<rparr>;
          layout = store_layout oa cap sparse_addr_bits max_pools;
          hash = store_hash oa cap sparse_addr_bits max_pools;
          len = rnd KV_STORE_METADATA_SIZE (nvm_sector_size cap);
          found = env_block_exists E handle (get_metadata_lba layout) w
      in if \<not> oa_new oa DeviceObj \<or> \<not> oa_new oa LayoutObj \<or> \<not> oa_new oa HashObj
         then Some (Inl NVM_ERR_OUT_OF_MEMORY, w)
         else if found = -1 then Some (Inl NVM_ERR_INTERNAL_FAILURE, w)
         else if \<not> oa_new oa PoolMgrObj then Some (Inl NVM_ERR_OUT_OF_MEMORY, w)
         else
           (case bp_initialize (env_memalign E w) 1 len (nvm_sector_size cap) (bp_fresh (oa_pool oa)) of
              (Inl e, _) \<Rightarrow> Some (Inl e, w)
            | (Inr _, bufs) \<Rightarrow>
                (case get_buf (env_memalign E w) len bufs of
                   None \<Rightarrow> None
                 | Some (None, _, _) \<Rightarrow> None
                 | Some (Some buf, _, bufs) \<Rightarrow>
                     (case init_metadata E device layout (found = 0) kv_id version max_pools expiry buf w of
                        (Inl e, w) \<Rightarrow> Some (Inl e, w)
                      | (Inr (md, tail), w) \<Rightarrow>
                          init_pools E oa (found = 0) max_pools cache_size bufs
                            (pool_mgr_new oa device layout hash md tail) w))))"

section \<open>Opening\<close>

text \<open>
  What the operating system and the NVM primitives answer for a descriptor: \<open>fstat\<close>, the
  handle (\<open>-1\<close> when there is none), the values of the capabilities, the capacity in sectors, and whether a
  release succeeds.
\<close>

record open_env =
  oe_fstat_ok :: bool
  oe_handle :: int
  oe_cap_values :: "nat list"
  oe_cap_ret :: int
  oe_feature_enabled :: nat
  oe_release_ok :: bool

definition device_size :: "nvm_capacity \<Rightarrow> nvm_kv_store_capabilities \<Rightarrow> u64" where
  "device_size capacity cap = of_nat (cp_total_logical capacity) * of_nat (nvm_sector_size cap)"

definition open_manager :: "int \<Rightarrow> kv_store_obj \<Rightarrow> kv_iter_mgr \<Rightarrow> kv_iter_mgr" where
  "open_manager store_id obj mg =
     mg\<lparr>mg_map := (mg_map mg)(store_id \<mapsto> so_store obj), mg_iter := (mg_iter mg)(store_id \<mapsto> so_iter obj)\<rparr>"

text \<open>
  The id of a store is the one in its metadata, as an \<open>int\<close>. No store written by this code has a
  negative one; the code leaves a dangling pointer in its map then, \<open>None\<close> here.
\<close>

definition stored_id :: "kv_store_obj \<Rightarrow> int" where
  "stored_id obj = sint (ucast (sm_kv_store_id (get_store_metadata (so_store obj))) :: 32 word)"

definition kv_open ::
  "'w nvm_env \<Rightarrow> open_env \<Rightarrow> open_allocs \<Rightarrow> int \<Rightarrow> u32 \<Rightarrow> u32 \<Rightarrow> u32 \<Rightarrow> u64 \<Rightarrow> kv_iter_mgr \<Rightarrow> 'w \<Rightarrow>
   (int res \<times> kv_iter_mgr \<times> 'w) option" where
  "kv_open E oe oa kv_id version max_pools expiry cache_size mg w =
     (if \<not> oe_fstat_ok oe then Some (Inl NVM_ERR_INVALID_HANDLE, mg, w)
      else if oe_handle oe = -1 then Some (Inl NVM_ERR_IO, mg, w)
      else
        (case initialize_capabilities (oe_cap_values oe) (oe_cap_ret oe) (oe_feature_enabled oe) of
           Inl e \<Rightarrow> Some (Inl e, mg, w)
         | Inr cap \<Rightarrow>
             (case env_capacity E (oe_handle oe) w of
                None \<Rightarrow> Some (Inl NVM_ERR_INTERNAL_FAILURE, mg, w)
              | Some capacity \<Rightarrow>
                  (let sparse_addr_bits =
                         word_of_int (comp_sparse_addr_bits (device_size capacity cap) (of_nat (nvm_sector_size cap)))
                   in if \<not> oa_new oa StoreObj then Some (Inl NVM_ERR_OUT_OF_MEMORY, mg, w)
                      else
                        (case store_initialize E oa kv_id (oe_handle oe) cap sparse_addr_bits max_pools version
                                expiry cache_size w of
                           None \<Rightarrow> None
                         | Some (Inl e, w) \<Rightarrow> Some (Inl e, mg, w)
                         | Some (Inr obj, w) \<Rightarrow>
                             (let store_id = stored_id obj
                              in if store_id < 0 then None
                                 else if mg_map mg store_id = None
                                 then Some (Inr store_id, open_manager store_id obj mg, w)
                                 else if \<not> oe_release_ok oe then Some (Inl NVM_ERR_INTERNAL_FAILURE, mg, w)
                                 else Some (Inr store_id, mg, w)))))))"

section \<open>The singleton\<close>

text \<open>
  \<open>m_pInstance\<close> and \<open>m_mtx\<close>. An exception leaves the mutex as it is; \<open>None\<close> as the
  instance is an exception, \<open>None\<close> as the result waits for the mutex for ever.
\<close>

record kv_runtime =
  rt_instance :: "kv_iter_mgr option"
  rt_locked :: bool

definition mgr_initialize ::
  "'w nvm_env \<Rightarrow> 'w \<Rightarrow> nvm_kv_buffer_pool \<Rightarrow> unit res \<times> kv_iter_mgr" where
  "mgr_initialize E w raw =
     (case bp_initialize (env_memalign E w) M_MAX_BUFFERS M_BUFFER_LIMIT M_BUFFER_PAGE_ALIGN (bp_fresh raw) of
        (r, bufs) \<Rightarrow> (r, \<lparr>mg_bufs = bufs, mg_map = (\<lambda>i. None), mg_iter = (\<lambda>i. None)\<rparr>))"

definition mgr_instance ::
  "'w nvm_env \<Rightarrow> bool \<Rightarrow> nvm_kv_buffer_pool \<Rightarrow> bool \<Rightarrow> kv_runtime \<Rightarrow> 'w \<Rightarrow>
   (kv_iter_mgr option \<times> kv_runtime) option" where
  "mgr_instance E new_ok raw sync rt w =
     (if sync \<and> rt_locked rt then None
      else
        (let rt = (if sync then rt\<lparr>rt_locked := True\<rparr> else rt);
             unlock = (\<lambda>rt. if sync then rt\<lparr>rt_locked := False\<rparr> else rt)
         in case rt_instance rt of
              Some mg \<Rightarrow> Some (Some mg, unlock rt)
            | None \<Rightarrow>
                if \<not> new_ok then Some (None, rt)
                else
                  (case mgr_initialize E w raw of
                     (Inl _, mg) \<Rightarrow> Some (None, rt\<lparr>rt_instance := Some mg\<rparr>)
                   | (Inr _, mg) \<Rightarrow> Some (Some mg, unlock (rt\<lparr>rt_instance := Some mg\<rparr>)))))"

end
