(* ===== verification/KvMap.thy ===== *)
theory KvMap
  imports KvOps
begin

text \<open>
  The key-value calls as operations on a map from keys to cells. The abstraction is stated over
  the sectors of the device: a key that is bound has a header sector with its key, pool, expiry and
  generation count at its address, with the value in that sector or in the sectors after it; a key
  that is not bound has an empty slot. The put, the get and the delete of
  \<open>src/kv_store_mgr.cpp\<close> refine the update, the lookup and the removal of the map, for a set
  of keys whose slots do not overlap, on a store without a cache and without expiry, one thread
  at a time.
\<close>

type_synonym kv_key = "u32 \<times> bytes"

record kv_cell =
  kc_value :: bytes
  kc_gen :: u32
  kc_expiry :: u32

type_synonym kv_map = "kv_key \<rightharpoonup> kv_cell"

section \<open>Addresses\<close>

definition key_lba :: "nvm_kv_store \<Rightarrow> kv_key \<Rightarrow> u64" where
  "key_lba st x = key_base st (fst x) (snd x) (length (snd x)) OR pool_hash_of st (fst x)"

definition probe_lba :: "nvm_kv_store \<Rightarrow> kv_key \<Rightarrow> nat \<Rightarrow> u64" where
  "probe_lba st x i = next_key_lba st (fst x) (snd x) (length (snd x)) i"

definition search_range :: "nvm_kv_store \<Rightarrow> nat" where
  "search_range st = unat (get_max_search_range (get_layout st))"

definition key_slot :: "nvm_kv_store \<Rightarrow> kv_key \<Rightarrow> nat set" where
  "key_slot st x = {unat (key_lba st x) ..< unat (key_lba st x) + search_range st}"

definition key_placed :: "nvm_kv_store \<Rightarrow> nat \<Rightarrow> kv_key set \<Rightarrow> kv_key \<Rightarrow> bool" where
  "key_placed st capacity K x \<longleftrightarrow>
     snd x \<noteq> [] \<and> length (snd x) \<le> NVM_KV_MAX_KEY_SIZE \<and>
     unat (key_lba st x) + search_range st \<le> capacity \<and>
     (\<forall>i \<in> {1..<8}. unat (probe_lba st x i) + search_range st \<le> capacity \<and>
        (\<forall>y \<in> K. unat (probe_lba st x i) \<notin> key_slot st y)) \<and>
     (\<forall>y \<in> K. x \<noteq> y \<longrightarrow> key_slot st x \<inter> key_slot st y = {})"

definition keys_spread :: "nvm_kv_store \<Rightarrow> nat \<Rightarrow> kv_key set \<Rightarrow> bool" where
  "keys_spread st capacity K \<longleftrightarrow> (\<forall>x \<in> K. key_placed st capacity K x)"

section \<open>Cells on the device\<close>

definition header_fits :: "nat \<Rightarrow> bytes \<Rightarrow> nvm_kv_header \<Rightarrow> kv_cell \<Rightarrow> bool" where
  "header_fits k s hdr c \<longleftrightarrow>
     unat (hdr_value_len hdr) = length (kc_value c) \<and> length (kc_value c) \<le> NVM_KV_MAX_VALUE_SIZE \<and>
     md_gen_count (hdr_metadata hdr) = kc_gen c \<and> md_expiry (hdr_metadata hdr) = kc_expiry c \<and>
     (unat (hdr_value_offset hdr) < 2 ^ k \<longrightarrow>
        mem_read (unat (hdr_value_offset hdr)) (length (kc_value c)) s = kc_value c)"

definition holds_cell :: "nat \<Rightarrow> sectors \<Rightarrow> nat \<Rightarrow> kv_key \<Rightarrow> kv_cell \<Rightarrow> bool" where
  "holds_cell k V a x c \<longleftrightarrow>
     (case V a of
        None \<Rightarrow> False
      | Some s \<Rightarrow>
          key_matches s (snd x) (length (snd x)) (fst x) \<and> header_fits k s (load_header s) c \<and>
          (unat (hdr_value_offset (load_header s)) < 2 ^ k \<or>
           (\<forall>i < value_sectors k (length (kc_value c)). V (Suc a + i) \<noteq> None) \<and>
           take (length (kc_value c)) (read_sectors (2 ^ k) V (Suc a) (value_sectors k (length (kc_value c)))) =
             kc_value c))"

definition cell_at :: "nvm_kv_store \<Rightarrow> nat \<Rightarrow> sectors \<Rightarrow> kv_key \<Rightarrow> kv_cell option \<Rightarrow> bool" where
  "cell_at st k V x entry \<longleftrightarrow>
     (case entry of
        None \<Rightarrow> (\<forall>n \<in> key_slot st x. V n = None)
      | Some c \<Rightarrow> holds_cell k V (unat (key_lba st x)) x c)"

definition sectors_sized :: "nat \<Rightarrow> sectors \<Rightarrow> bool" where
  "sectors_sized k V \<longleftrightarrow> (\<forall>i bs. V i = Some bs \<longrightarrow> length bs = 2 ^ k)"

definition kv_rep :: "nat \<Rightarrow> nvm_kv_store \<Rightarrow> kv_key set \<Rightarrow> sectors \<Rightarrow> kv_map \<Rightarrow> bool" where
  "kv_rep k st K V m \<longleftrightarrow>
     sectors_sized k V \<and> dom m \<subseteq> K \<and> (\<forall>x \<in> K. cell_at st k V x (m x)) \<and>
     (\<forall>x \<in> K. \<forall>i \<in> {1..<8}. V (unat (probe_lba st x i)) = None)"

definition kv_env_ok ::
  "'w nvm_env \<Rightarrow> nat \<Rightarrow> nat \<Rightarrow> nat \<Rightarrow> ('w \<Rightarrow> sectors) \<Rightarrow> nvm_kv_store \<Rightarrow> bool" where
  "kv_env_ok E k j capacity view st \<longleftrightarrow>
     (let device = get_store_device st
      in dev_laws E device capacity view \<and> status_law E device \<and> range_law E device capacity view \<and>
         write_dev_ok k j device \<and> trim_dev_ok k device \<and> capacity < 2 ^ 64 \<and>
         search_range st = 2 ^ (21 - k) \<and> st_del_sectors st = 2 ^ (21 - k) \<and>
         2 ^ 21 \<le> nvm_max_num_iovs (dev_caps device) * max_trim_size device \<and>
         2 \<le> nvm_max_num_iovs (dev_caps device) \<and>
         st_cache st = None \<and> st_safe st = {} \<and> get_expiry st = KV_DISABLE_EXPIRY)"

lemma kv_env_dest:
  assumes "kv_env_ok E k j capacity view st"
  shows "dev_laws E (get_store_device st) capacity view" "read_law E (get_store_device st) capacity view"
    "batch_law E (get_store_device st) view" "alloc_law E" "status_law E (get_store_device st)"
    "range_law E (get_store_device st) capacity view"
    "write_dev_ok k j (get_store_device st)" "trim_dev_ok k (get_store_device st)" "capacity < 2 ^ 64"
    "search_range st = 2 ^ (21 - k)" "st_del_sectors st = 2 ^ (21 - k)"
    "2 ^ 21 \<le> nvm_max_num_iovs (dev_caps (get_store_device st)) * max_trim_size (get_store_device st)"
    "2 \<le> nvm_max_num_iovs (dev_caps (get_store_device st))"
    "st_cache st = None" "st_safe st = {}" "get_expiry st = KV_DISABLE_EXPIRY"
    "9 \<le> k" "k \<le> 20" "nvm_sector_size (dev_caps (get_store_device st)) = 2 ^ k" "get_sector_size st = 2 ^ k"
  using assms by (simp_all add: kv_env_ok_def Let_def dev_laws_def write_dev_ok_def get_sector_size_def)

lemma key_placedD:
  assumes "keys_spread st capacity K" and "x \<in> K"
  shows "snd x \<noteq> []" "length (snd x) \<le> NVM_KV_MAX_KEY_SIZE" "unat (key_lba st x) + search_range st \<le> capacity"
    "\<And>i. i \<in> {1..<8} \<Longrightarrow> unat (probe_lba st x i) + search_range st \<le> capacity"
    "\<And>i y. i \<in> {1..<8} \<Longrightarrow> y \<in> K \<Longrightarrow> unat (probe_lba st x i) \<notin> key_slot st y"
    "\<And>y. y \<in> K \<Longrightarrow> x \<noteq> y \<Longrightarrow> key_slot st x \<inter> key_slot st y = {}"
  using assms unfolding keys_spread_def key_placed_def by blast+

section \<open>Frames\<close>

lemma holds_cell_cong:
  assumes "\<And>n. a \<le> n \<Longrightarrow> n \<le> a + value_sectors k (length (kc_value c)) \<Longrightarrow> V' n = V n"
  shows "holds_cell k V' a x c = holds_cell k V a x c"
proof -
  have "V' a = V a" using assms [of a] by simp
  moreover have "V' (Suc a + i) = V (Suc a + i)" if "i < value_sectors k (length (kc_value c))" for i
    using assms [of "Suc a + i"] that by simp
  then have "read_sectors (2 ^ k) V' (Suc a) (value_sectors k (length (kc_value c))) =
      read_sectors (2 ^ k) V (Suc a) (value_sectors k (length (kc_value c)))"
    and "(\<forall>i < value_sectors k (length (kc_value c)). V' (Suc a + i) \<noteq> None) \<longleftrightarrow>
      (\<forall>i < value_sectors k (length (kc_value c)). V (Suc a + i) \<noteq> None)"
    by (auto simp: read_sectors_def sector_at_def intro!: arg_cong [of _ _ concat])
  ultimately show ?thesis by (simp only: holds_cell_def)
qed

lemma value_in_slot:
  assumes "k \<le> 20" and "n \<le> NVM_KV_MAX_VALUE_SIZE"
  shows "Suc (value_sectors k n) \<le> 2 ^ (21 - k)"
  using slot_capacity [OF assms(1) _ assms(2), of 0] by (simp add: value_sectors_def)

lemma cell_at_cong:
  assumes "k \<le> 20" and "search_range st = 2 ^ (21 - k)" and same: "\<And>n. n \<in> key_slot st x \<Longrightarrow> V' n = V n"
    and "cell_at st k V x e"
  shows "cell_at st k V' x e"
proof (cases e)
  case None
  then show ?thesis using assms by (simp add: cell_at_def)
next
  case (Some c)
  then have h: "holds_cell k V (unat (key_lba st x)) x c" using assms(4) by (simp add: cell_at_def)
  then have "length (kc_value c) \<le> NVM_KV_MAX_VALUE_SIZE"
    by (simp add: holds_cell_def header_fits_def split: option.splits)
  then have "Suc (value_sectors k (length (kc_value c))) \<le> search_range st"
    using value_in_slot [OF assms(1)] assms(2) by simp
  then have "holds_cell k V' (unat (key_lba st x)) x c = holds_cell k V (unat (key_lba st x)) x c"
    by (intro holds_cell_cong same) (simp add: key_slot_def)
  then show ?thesis using h Some by (simp add: cell_at_def)
qed

text \<open>A change inside the slot of one key rebinds this key and leaves the others alone.\<close>

lemma kv_rep_change:
  assumes "kv_rep k st K V m" and "keys_spread st capacity K" and "kv_env_ok E k j capacity view st"
    and "x \<in> K" and "sectors_sized k V'" and "\<And>n. n \<notin> key_slot st x \<Longrightarrow> V' n = V n"
    and "cell_at st k V' x e"
  shows "kv_rep k st K V' (m(x := e))"
proof -
  note env = kv_env_dest [OF assms(3)]
  have "cell_at st k V' y ((m(x := e)) y)" if y: "y \<in> K" for y
  proof (cases "y = x")
    case True
    then show ?thesis using assms(7) by simp
  next
    case False
    then have "key_slot st y \<inter> key_slot st x = {}" using key_placedD(6) [OF assms(2) y assms(4)] by simp
    then have "V' n = V n" if "n \<in> key_slot st y" for n using assms(6) that by blast
    moreover have "cell_at st k V y (m y)" using assms(1) y by (simp add: kv_rep_def)
    ultimately have "cell_at st k V' y (m y)" by (rule cell_at_cong [OF env(18,10)])
    then show ?thesis using False by simp
  qed
  moreover have "V' (unat (probe_lba st y i)) = None" if "y \<in> K" "i \<in> {1..<8}" for y i
    using assms(1,6) key_placedD(5) [OF assms(2) that(1,2) assms(4)] that by (simp add: kv_rep_def)
  moreover have "dom (m(x := e)) \<subseteq> K" using assms(1,4) by (auto simp: kv_rep_def split: if_splits)
  ultimately show ?thesis using assms(5) unfolding kv_rep_def by blast
qed

section \<open>Reads\<close>

text \<open>
  Nothing but a misaligned buffer, and for an exact read a failing range query, can make a read fail.
\<close>

definition aligned :: "nat \<Rightarrow> u64 \<Rightarrow> bool" where
  "aligned k a \<longleftrightarrow> a AND of_nat (2 ^ k - 1) = 0"

definition ranges_known :: "'w nvm_env \<Rightarrow> nvm_kv_store \<Rightarrow> bool" where
  "ranges_known E st \<longleftrightarrow> (\<forall>lba n w. env_range_exists E (dev_handle (get_store_device st)) lba n w \<noteq> None)"

definition read_safe :: "'w nvm_env \<Rightarrow> nat \<Rightarrow> nvm_kv_store \<Rightarrow> u64 \<Rightarrow> membuf \<Rightarrow> bool" where
  "read_safe E k st va buf \<longleftrightarrow> ranges_known E st \<and> aligned k va \<and> aligned k (mb_addr buf)"

lemma nvm_readv_cases:
  assumes "read_law E dev capacity view" and "alloc_law E" and "iovec \<noteq> []"
    and "sum_list (map iov_len iovec) = n * nvm_sector_size (dev_caps dev)"
    and "unat (iov_lba (hd iovec)) + n \<le> capacity" and "length iovec \<le> nvm_max_num_iovs (dev_caps dev)"
  shows "case nvm_readv E dev iovec w of
      Inl e \<Rightarrow> e = NVM_ERR_MEMORY_NOT_ALIGNED \<and>
        (\<exists>iov \<in> set iovec. iov_base iov AND of_nat (nvm_sector_size (dev_caps dev) - 1) \<noteq> 0)
    | Inr got \<Rightarrow> got = read_sectors (nvm_sector_size (dev_caps dev)) (view w) (unat (iov_lba (hd iovec))) n"
proof -
  have "env_preadv E (dev_fd dev) (map iov_len iovec)
      (unat (iov_lba (hd iovec)) * nvm_sector_size (dev_caps dev)) w =
    Some (read_sectors (nvm_sector_size (dev_caps dev)) (view w) (unat (iov_lba (hd iovec))) n)"
    using assms(1,4,5) unfolding read_law_def by blast
  moreover have "iovec ! 0 = hd iovec" using assms(3) by (simp add: hd_conv_nth)
  moreover obtain iovs where "env_new_iovs E w (nvm_max_num_iovs (dev_caps dev)) = Some iovs"
    using assms(2) unfolding alloc_law_def by blast
  ultimately show ?thesis
    using assms(6) by (simp add: nvm_readv_def Let_def split: sum.splits if_splits)
qed

lemma read_iov_fields [simp]:
  "iov_lba (read_iov b n lba) = lba" "iov_len (read_iov b n lba) = n" "iov_base (read_iov b n lba) = b"
  by (simp_all add: read_iov_def)

definition rs_ok :: "nat \<Rightarrow> nat \<Rightarrow> read_state \<Rightarrow> bool" where
  "rs_ok k value_len rs \<longleftrightarrow>
     2 ^ k \<le> length (mb_mem (rs_buf rs)) \<and> (\<exists>q. rs_value_iov_len rs = q * 2 ^ k \<and> q * 2 ^ k \<le> value_len)"

definition value_part :: "nat \<Rightarrow> sectors \<Rightarrow> u64 \<Rightarrow> read_state \<Rightarrow> bytes" where
  "value_part k V lba rs =
     (if rs_num_iovs rs = 2 then read_sectors (2 ^ k) V (Suc (unat lba)) (rs_value_iov_len rs div 2 ^ k) else [])"

definition probe_ok :: "nat \<Rightarrow> sectors \<Rightarrow> u64 \<Rightarrow> read_state \<Rightarrow> read_state \<Rightarrow> bool" where
  "probe_ok k V lba rs rs' \<longleftrightarrow>
     take (2 ^ k) (mb_mem (rs_buf rs')) = sector_at (2 ^ k) V (unat lba) \<and>
     length (mb_mem (rs_buf rs')) = length (mb_mem (rs_buf rs)) \<and>
     rs_value rs' = memcpy 0 (value_part k V lba rs) (rs_value rs) \<and> rs_read_len rs' \<noteq> 0 \<and>
     rs_num_iovs rs' = rs_num_iovs rs \<and> rs_value_iov_len rs' = rs_value_iov_len rs \<and>
     mb_addr (rs_buf rs') = mb_addr (rs_buf rs)"

lemma read_sectors_0 [simp]: "read_sectors ss s first 0 = []"
  by (simp add: read_sectors_def)

lemma length_sector_at: "sectors_sized k V \<Longrightarrow> length (sector_at (2 ^ k) V n) = 2 ^ k"
  by (simp add: sector_at_def sectors_sized_def split: option.split)

lemma unat_next: "unat (lba :: u64) + n \<le> capacity \<Longrightarrow> capacity < 2 ^ 64 \<Longrightarrow> 0 < n \<Longrightarrow>
    i < n \<Longrightarrow> unat (lba + of_nat i) = unat lba + i"
  by (rule unat_plus_of_nat) simp

lemma read_probe_cases:
  assumes env: "kv_env_ok E k j capacity view st" and rs: "rs_ok k value_len rs"
    and vl: "value_len \<le> NVM_KV_MAX_VALUE_SIZE" and fit: "unat lba + search_range st \<le> capacity"
    and sized: "sectors_sized k (view w)"
  shows "case read_probe E st va lba w rs of
      Inl e \<Rightarrow> e = NVM_ERR_MEMORY_NOT_ALIGNED \<and> \<not> read_safe E k st va (rs_buf rs)
    | Inr rs' \<Rightarrow> probe_ok k (view w) lba rs rs'"
proof -
  note e = kv_env_dest [OF env]
  obtain q where q: "rs_value_iov_len rs = q * 2 ^ k" "q * 2 ^ k \<le> value_len" using rs by (auto simp: rs_ok_def)
  have "q * 2 ^ k div 2 ^ k \<le> value_len div 2 ^ k" using q(2) by (rule div_le_mono)
  moreover have "value_len div 2 ^ k \<le> value_sectors k value_len"
    using value_sectors_mult(2) [OF e(18) vl] by (metis div_le_mono nonzero_mult_div_cancel_right power_not_zero zero_neq_numeral)
  ultimately have q1: "q \<le> value_sectors k value_len" by simp
  then have fit': "Suc q \<le> search_range st" using value_in_slot [OF e(18) vl] e(10) by simp
  define iovec where "iovec = read_iov (mb_addr (rs_buf rs)) (2 ^ k) lba #
      (if rs_num_iovs rs = 2 then [read_iov va (rs_value_iov_len rs) (lba + 1)] else [])"
  define n where "n = (if rs_num_iovs rs = 2 then Suc q else 1)"
  have "sum_list (map iov_len iovec) = n * nvm_sector_size (dev_caps (get_store_device st))"
    using q(1) e(19) by (simp add: iovec_def n_def)
  moreover have "unat (iov_lba (hd iovec)) + n \<le> capacity" "iovec \<noteq> []" "hd iovec = read_iov (mb_addr (rs_buf rs)) (2 ^ k) lba"
    using fit fit' by (simp_all add: iovec_def n_def)
  moreover have "length iovec \<le> nvm_max_num_iovs (dev_caps (get_store_device st))"
    using e(13) by (simp add: iovec_def)
  moreover have "\<not> read_safe E k st va (rs_buf rs)" if "iov \<in> set iovec" "iov_base iov AND of_nat (2 ^ k - 1) \<noteq> 0" for iov
    using that by (auto simp: iovec_def read_safe_def aligned_def split: if_splits)
  ultimately have rd: "case nvm_readv E (get_store_device st) iovec w of
      Inl e \<Rightarrow> e = NVM_ERR_MEMORY_NOT_ALIGNED \<and> \<not> read_safe E k st va (rs_buf rs)
    | Inr got \<Rightarrow> got = read_sectors (2 ^ k) (view w) (unat lba) n"
    using nvm_readv_cases [OF e(2,4), of iovec n w] e(19) by (auto split: sum.splits)
  have split: "read_sectors (2 ^ k) (view w) (unat lba) n = sector_at (2 ^ k) (view w) (unat lba) @ value_part k (view w) lba rs"
    using q(1) by (simp add: n_def value_part_def read_sectors_Suc)
  have len: "length (sector_at (2 ^ k) (view w) (unat lba)) = 2 ^ k" by (rule length_sector_at [OF sized])
  have buf: "2 ^ k \<le> length (mb_mem (rs_buf rs))" using rs by (simp add: rs_ok_def)
  show ?thesis
  proof (cases "nvm_readv E (get_store_device st) iovec w")
    case (Inl err)
    then show ?thesis using rd e(20) by (simp add: read_probe_def Let_def iovec_def)
  next
    case (Inr got)
    then have "got = sector_at (2 ^ k) (view w) (unat lba) @ value_part k (view w) lba rs" using rd split by simp
    then show ?thesis using Inr e(20) len buf
      by (simp add: read_probe_def Let_def iovec_def [symmetric] probe_ok_def memcpy_def)
  qed
qed

lemma key_range_cases:
  assumes env: "kv_env_ok E k j capacity view st" and fit: "unat lba + search_range st \<le> capacity"
  shows "case key_range E st lba w of
      Inl e \<Rightarrow> e = NVM_ERR_INTERNAL_FAILURE \<and> \<not> ranges_known E st \<or>
        e = NVM_ERR_OBJECT_NOT_FOUND \<and> (\<forall>i < search_range st. view w (unat lba + i) = None)
    | Inr found \<Rightarrow> br_length found \<le> search_range st \<and> br_length found \<noteq> 0 \<and>
        (\<exists>i < search_range st. view w (unat lba + i) \<noteq> None) \<and>
        (\<forall>m \<le> search_range st. (\<forall>i < m. view w (unat lba + i) \<noteq> None) \<longrightarrow> m \<le> br_length found)"
proof -
  note e = kv_env_dest [OF env]
  show ?thesis
  proof (cases "env_range_exists E (dev_handle (get_store_device st)) lba (search_range st) w")
    case None
    then have "\<not> ranges_known E st" unfolding ranges_known_def by blast
    with None show ?thesis by (simp add: key_range_def kv_range_exists_def search_range_def)
  next
    case (Some found)
    have kr: "key_range E st lba w = (if br_length found = 0 then Inl NVM_ERR_OBJECT_NOT_FOUND else Inr found)"
      using Some by (simp add: key_range_def kv_range_exists_def search_range_def)
    have "br_length found \<le> search_range st \<and>
        (br_length found = 0 \<longleftrightarrow> (\<forall>i < search_range st. view w (unat lba + i) = None)) \<and>
        (\<forall>m \<le> search_range st. (\<forall>i < m. view w (unat lba + i) \<noteq> None) \<longrightarrow> m \<le> br_length found)"
      using e(6) fit Some unfolding range_law_def by blast
    then show ?thesis unfolding kr by (cases "br_length found = 0") simp_all
  qed
qed

lemma sub32_sectors:
  assumes "n \<le> 2 ^ (21 - k)" and "k \<le> 20" and "0 < n"
  shows "sub32 (n * 2 ^ k) (2 ^ k) = (n - 1) * 2 ^ k"
proof -
  have "n * 2 ^ k \<le> 2 ^ (21 - k) * 2 ^ k" using assms(1) by (rule mult_le_mono1)
  also have "\<dots> = 2 ^ 21" using assms(2) by (simp only: power_add [symmetric]) simp
  finally have "n * 2 ^ k < 2 ^ 32" by simp
  then show ?thesis using assms(3) by (simp add: sub32_eq diff_mult_distrib)
qed

text \<open>
  The length of the value vector before a read: unless the range is empty, it leaves at least as
  many sectors as follow the first one without a hole.
\<close>

lemma read_size_cases:
  assumes env: "kv_env_ok E k j capacity view st" and rs: "rs_ok k value_len rs"
    and vl: "2 ^ k dvd value_len" "value_len \<le> NVM_KV_MAX_VALUE_SIZE"
    and fit: "unat lba + search_range st \<le> capacity"
  shows "case read_size E st ex value_len lba w rs of
      (Inl e, _) \<Rightarrow> e = NVM_ERR_INTERNAL_FAILURE \<and> \<not> ranges_known E st
    | (Inr exists, rs') \<Rightarrow>
        rs_ok k value_len rs' \<and> rs_buf rs' = rs_buf rs \<and> rs_value rs' = rs_value rs \<and>
        (\<not> exists \<longrightarrow> (\<forall>i < search_range st. view w (unat lba + i) = None)) \<and>
        (exists \<longrightarrow> (\<forall>m < search_range st. (\<forall>i < Suc m. view w (unat lba + i) \<noteq> None) \<longrightarrow>
           rs_value_iov_len rs = value_len \<longrightarrow>
           (rs_num_iovs rs' = rs_num_iovs rs \<and> min m (value_len div 2 ^ k) \<le> rs_value_iov_len rs' div 2 ^ k \<or> m = 0)))"
proof (cases "ex \<and> value_len \<noteq> 0")
  case False
  then show ?thesis using rs by (auto simp: read_size_def)
next
  case True
  note e = kv_env_dest [OF env]
  have rv: "rnd value_len (2 ^ k) = value_len"
    using value_sectors_mult [OF e(18) vl(2)] vl(1) e(18) rnd_fits [of k value_len]  vl(2)
    by (intro rnd_multiple) (simp_all add: NVM_KV_MAX_VALUE_SIZE_def)
  note kr = key_range_cases [OF env fit, of w]
  show ?thesis
  proof (cases "key_range E st lba w")
    case (Inl err)
    then show ?thesis using kr True rs by (auto simp: read_size_def)
  next
    case (Inr found)
    then have f: "br_length found \<le> search_range st" "0 < br_length found"
      "\<And>m. m \<le> search_range st \<Longrightarrow> (\<forall>i < m. view w (unat lba + i) \<noteq> None) \<Longrightarrow> m \<le> br_length found"
      using kr by simp_all
    have t: "sub32 (br_length found * 2 ^ k) (2 ^ k) = (br_length found - 1) * 2 ^ k"
      using sub32_sectors [OF _ e(18) f(2)] f(1) e(10) by simp
    define rs' where "rs' = (if (br_length found - 1) * 2 ^ k = 0 then rs\<lparr>rs_num_iovs := 1\<rparr>
                  else if value_len > (br_length found - 1) * 2 ^ k
                  then rs\<lparr>rs_value_iov_len := (br_length found - 1) * 2 ^ k\<rparr> else rs)"
    have eq: "read_size E st ex value_len lba w rs = (Inr True, rs')"
      using Inr True e(20) t rv by (simp add: read_size_def Let_def rs'_def)
    have ok: "rs_ok k value_len rs' \<and> rs_buf rs' = rs_buf rs \<and> rs_value rs' = rs_value rs"
    proof -
      have "\<exists>q. rs_value_iov_len rs' = q * 2 ^ k \<and> q * 2 ^ k \<le> value_len"
        using rs by (cases "value_len > (br_length found - 1) * 2 ^ k \<and> (br_length found - 1) * 2 ^ k \<noteq> 0")
          (auto simp: rs_ok_def rs'_def)
      then show ?thesis using rs by (simp add: rs_ok_def rs'_def)
    qed
    have "rs_num_iovs rs' = rs_num_iovs rs \<and> min m (value_len div 2 ^ k) \<le> rs_value_iov_len rs' div 2 ^ k \<or> m = 0"
      if "m < search_range st" "\<forall>i < Suc m. view w (unat lba + i) \<noteq> None" "rs_value_iov_len rs = value_len" for m
    proof -
      have "Suc m \<le> br_length found" using f(3) [of "Suc m"] that by simp
      then show ?thesis using that(3) by (auto simp: rs'_def min_le_iff_disj)
    qed
    then show ?thesis unfolding eq using ok by simp
  qed
qed

lemma key_matches_sector:
  assumes "9 \<le> k" and "length key \<le> NVM_KV_MAX_KEY_SIZE" and "take (2 ^ k) mem = s"
  shows "key_matches mem key (length key) p = key_matches s key (length key) p"
    and "load_header mem = load_header s"
proof -
  have "M_KV_HEADER_SIZE + length key \<le> 2 ^ k" using plan_key_fits [OF assms(1,2)] .
  then show "key_matches mem key (length key) p = key_matches s key (length key) p"
    "load_header mem = load_header s"
    using assms(3) by (auto simp: key_matches_take load_header_take)
qed

lemma empty_no_match:
  assumes "9 \<le> k" and "key \<noteq> []" and "length key \<le> NVM_KV_MAX_KEY_SIZE" and "take (2 ^ k) mem = zeros (2 ^ k)"
  shows "\<not> key_matches mem key (length key) p"
proof -
  have "\<not> key_matches (zeros (2 ^ k)) key (length key) p"
    using assms(2,3) pow2_ge_512 [OF assms(1)]
    by (intro key_matches_zeros) (simp_all add: NVM_KV_MAX_KEY_SIZE_def M_KV_HEADER_SIZE_def)
  then show ?thesis using key_matches_sector(1) [OF assms(1,3,4)] by simp
qed

text \<open>A search that meets only empty sectors finds nothing.\<close>

lemma read_loop_step_miss:
  fixes ex :: bool and va :: u64 and itr :: nat and p :: u32
  assumes env: "kv_env_ok E k j capacity view st" and sized: "sectors_sized k (view w)"
    and key: "key \<noteq> []" "length key \<le> NVM_KV_MAX_KEY_SIZE"
    and vl: "2 ^ k dvd value_len" "value_len \<le> NVM_KV_MAX_VALUE_SIZE"
    and rs: "rs_ok k value_len rs" and at: "unat lba + search_range st \<le> capacity" "view w (unat lba) = None"
  obtains rs' where "rs_ok k value_len rs'" "length (mb_mem (rs_buf rs')) = length (mb_mem (rs_buf rs))"
    "mb_addr (rs_buf rs') = mb_addr (rs_buf rs)"
    "(\<exists>err. read_media_loop E st p key (length key) va value_len ex itr lba w rs = (Inl err, rs') \<and>
        (read_safe E k st va (rs_buf rs) \<longrightarrow> err = NVM_ERR_OBJECT_NOT_FOUND)) \<or>
     itr < M_MAX_COLLISION \<and>
     read_media_loop E st p key (length key) va value_len ex itr lba w rs =
     read_media_loop E st p key (length key) va value_len ex (Suc itr) (next_key_lba st p key (length key) itr) w rs'"
proof -
  note e = kv_env_dest [OF env]
  note unf = read_media_loop.simps [of E st p key "length key" va value_len ex itr lba w rs]
  have no: "\<not> key_matches mem key (length key) p" if "take (2 ^ k) mem = sector_at (2 ^ k) (view w) (unat lba)" for mem
    using empty_no_match [OF e(17) key, of mem p] that at(2) by (simp add: sector_at_def)
  obtain r rs1 where sz: "read_size E st ex value_len lba w rs = (r, rs1)" by force
  note sc = read_size_cases [OF env rs vl at(1), where ex = ex and w = w, unfolded sz prod.case]
  show thesis
  proof (cases r)
    case (Inl err)
    then have "rs1 = rs" using sz by (auto simp: read_size_def Let_def split: if_splits sum.splits)
    then show thesis using that [of rs] rs unf sz Inl sc by (simp add: read_safe_def)
  next
    case (Inr exists)
    then have ok: "rs_ok k value_len rs1" "rs_buf rs1 = rs_buf rs" using sc by simp_all
    note pr = read_probe_cases [OF env ok(1) vl(2) at(1) sized, where va = va]
    show thesis
    proof (cases exists)
      case False
      then show thesis using that [OF ok(1)] ok(2) unf sz Inr by (auto split: if_splits)
    next
      case True
      show thesis
      proof (cases "read_probe E st va lba w rs1")
        case (Inl err)
        then show thesis using that [OF ok(1)] ok(2) unf sz True \<open>r = Inr exists\<close> pr by simp
      next
        case rs2: (Inr rs2)
        then have pk: "probe_ok k (view w) lba rs1 rs2" using pr by simp
        then have "rs_ok k value_len rs2" using ok(1) by (simp add: probe_ok_def rs_ok_def)
        moreover have "\<not> key_matches (mb_mem (rs_buf rs2)) key (length key) p" using pk no by (simp add: probe_ok_def)
        ultimately show thesis using that [of rs2] ok(2) pk unf sz Inr True rs2
          by (auto simp: probe_ok_def split: if_splits)
      qed
    qed
  qed
qed

lemma read_loop_miss:
  assumes env: "kv_env_ok E k j capacity view st" and sized: "sectors_sized k (view w)"
    and key: "key \<noteq> []" "length key \<le> NVM_KV_MAX_KEY_SIZE"
    and vl: "2 ^ k dvd value_len" "value_len \<le> NVM_KV_MAX_VALUE_SIZE"
    and nxt: "\<And>i. i \<in> {1..<8} \<Longrightarrow> unat (next_key_lba st p key (length key) i) + search_range st \<le> capacity \<and>
                 view w (unat (next_key_lba st p key (length key) i)) = None"
  shows "rs_ok k value_len rs \<Longrightarrow> 1 \<le> itr \<Longrightarrow> unat lba + search_range st \<le> capacity \<Longrightarrow>
    view w (unat lba) = None \<Longrightarrow>
    \<exists>err rs'. read_media_loop E st p key (length key) va value_len ex itr lba w rs = (Inl err, rs') \<and>
      length (mb_mem (rs_buf rs')) = length (mb_mem (rs_buf rs)) \<and>
      (read_safe E k st va (rs_buf rs) \<longrightarrow> err = NVM_ERR_OBJECT_NOT_FOUND)"
proof (induction "8 - itr" arbitrary: itr lba rs rule: less_induct)
  case less
  obtain rs' where rs': "rs_ok k value_len rs'" "length (mb_mem (rs_buf rs')) = length (mb_mem (rs_buf rs))"
    "mb_addr (rs_buf rs') = mb_addr (rs_buf rs)"
    "(\<exists>err. read_media_loop E st p key (length key) va value_len ex itr lba w rs = (Inl err, rs') \<and>
        (read_safe E k st va (rs_buf rs) \<longrightarrow> err = NVM_ERR_OBJECT_NOT_FOUND)) \<or>
     itr < M_MAX_COLLISION \<and>
     read_media_loop E st p key (length key) va value_len ex itr lba w rs =
     read_media_loop E st p key (length key) va value_len ex (Suc itr) (next_key_lba st p key (length key) itr) w rs'"
    using read_loop_step_miss [OF env sized key vl less.prems(1,3,4)] by metis
  have safe: "read_safe E k st va (rs_buf rs') = read_safe E k st va (rs_buf rs)"
    using rs'(3) by (simp add: read_safe_def)
  from rs'(4) show ?case
  proof
    assume "\<exists>err. read_media_loop E st p key (length key) va value_len ex itr lba w rs = (Inl err, rs') \<and>
        (read_safe E k st va (rs_buf rs) \<longrightarrow> err = NVM_ERR_OBJECT_NOT_FOUND)"
    then show ?thesis using rs'(2) by blast
  next
    assume r: "itr < M_MAX_COLLISION \<and>
     read_media_loop E st p key (length key) va value_len ex itr lba w rs =
     read_media_loop E st p key (length key) va value_len ex (Suc itr) (next_key_lba st p key (length key) itr) w rs'"
    then have i: "itr \<in> {1..<8}" "8 - Suc itr < 8 - itr" using less.prems(2) by (auto simp: M_MAX_COLLISION_def)
    show ?thesis using less.hyps [OF i(2) rs'(1)] nxt [OF i(1)] r rs'(2) safe by simp
  qed
qed

lemma mem_read_taken:
  assumes "mem_read off n (take m mem) = bs" and "length bs = n"
  shows "mem_read off n mem = bs"
proof (cases "n = 0")
  case True
  then show ?thesis using assms by (simp add: mem_read_def)
next
  case False
  have "min n (length (take m mem) - off) = n" using assms length_mem_read by metis
  then have "off + n \<le> m" using False by auto
  then show ?thesis using assms(1) by (simp add: mem_read_take)
qed

definition cell_value_read :: "nat \<Rightarrow> nvm_kv_header \<Rightarrow> bytes \<Rightarrow> nat \<Rightarrow> kv_cell \<Rightarrow> bool" where
  "cell_value_read k hdr got value_len c \<longleftrightarrow>
     (2 ^ k \<le> unat (hdr_value_offset hdr) \<longrightarrow>
        take (min (length (kc_value c)) value_len) got = take (min (length (kc_value c)) value_len) (kc_value c))"

lemma read_sectors_add: "read_sectors ss s first (m + n) = read_sectors ss s first m @ read_sectors ss s (first + m) n"
proof -
  have "[0..<m + n] = [0..<m] @ map (\<lambda>i. m + i) [0..<n]" by (rule nth_equalityI) (simp_all add: nth_append)
  then show ?thesis by (simp add: read_sectors_def o_def add.assoc)
qed

lemma length_read_sized: "sectors_sized k V \<Longrightarrow> length (read_sectors (2 ^ k) V first n) = n * 2 ^ k"
  by (rule length_read_sectors) (simp add: sectors_sized_def)

lemma take_read_sectors:
  assumes "sectors_sized k V" and "i \<le> m * 2 ^ k" and "i \<le> n * 2 ^ k"
  shows "take i (read_sectors (2 ^ k) V first m) = take i (read_sectors (2 ^ k) V first n)"
proof -
  have le: "take i (read_sectors (2 ^ k) V first m) = take i (read_sectors (2 ^ k) V first n)"
    if "m \<le> n" "i \<le> m * 2 ^ k" for m n
  proof -
    have "read_sectors (2 ^ k) V first n =
      read_sectors (2 ^ k) V first m @ read_sectors (2 ^ k) V (first + m) (n - m)"
      using read_sectors_add [of "2 ^ k" V first m "n - m"] that(1) by simp
    then show ?thesis using that(2) by (simp add: length_read_sized [OF assms(1)])
  qed
  show ?thesis
  proof (cases "m \<le> n")
    case True
    then show ?thesis using assms(2) by (rule le)
  next
    case False
    then have "n \<le> m" by simp
    from le [OF this assms(3)] show ?thesis by (rule sym)
  qed
qed

lemma take_memcpy_src: "i \<le> length src \<Longrightarrow> take i (memcpy 0 src buf) = take i src"
  by (simp add: memcpy_def)

lemma hit_value:
  assumes sized: "sectors_sized k V" and k: "k \<le> 20"
    and c: "take (length (kc_value c)) (read_sectors (2 ^ k) V first (value_sectors k (length (kc_value c)))) = kc_value c"
      "length (kc_value c) \<le> NVM_KV_MAX_VALUE_SIZE"
    and q: "min (value_sectors k (length (kc_value c))) (value_len div 2 ^ k) \<le> q" and vl: "2 ^ k dvd value_len"
  shows "take (min (length (kc_value c)) value_len) (memcpy 0 (read_sectors (2 ^ k) V first q) value) =
         take (min (length (kc_value c)) value_len) (kc_value c)"
proof -
  let ?len = "length (kc_value c)" and ?m = "value_sectors k (length (kc_value c))"
  let ?i = "min ?len value_len"
  have m: "?len \<le> ?m * 2 ^ k" by (rule value_sectors_mult(2) [OF k c(2)])
  obtain d where d: "value_len = d * 2 ^ k" using vl by (metis dvd_def mult.commute)
  then have "value_len div 2 ^ k = d" by simp
  moreover have "?i \<le> min ?m d * 2 ^ k"
    unfolding d using m by (cases "?m \<le> d") (simp_all add: min_le_iff_disj)
  ultimately have "?i \<le> min ?m (value_len div 2 ^ k) * 2 ^ k" by simp
  also have "\<dots> \<le> q * 2 ^ k" using q by (rule mult_le_mono1)
  finally have q: "?i \<le> q * 2 ^ k" .
  then have "take ?i (memcpy 0 (read_sectors (2 ^ k) V first q) value) = take ?i (read_sectors (2 ^ k) V first q)"
    by (intro take_memcpy_src) (simp add: length_read_sized [OF sized])
  also have "\<dots> = take ?i (read_sectors (2 ^ k) V first ?m)"
    using q m by (intro take_read_sectors [OF sized]) simp_all
  also have "\<dots> = take ?i (take ?len (read_sectors (2 ^ k) V first ?m))" by (simp add: min_def)
  finally show ?thesis by (simp only: c(1))
qed

lemma rnd_dvd: "9 \<le> k \<Longrightarrow> k \<le> 20 \<Longrightarrow> 2 ^ k dvd n \<Longrightarrow> n \<le> NVM_KV_MAX_VALUE_SIZE \<Longrightarrow> rnd n (2 ^ k) = n"
  using rnd_fits [of k n] by (intro rnd_multiple) (simp_all add: NVM_KV_MAX_VALUE_SIZE_def)

lemma rs_ok_initial:
  assumes "2 ^ k dvd value_len" and "rs_value_iov_len rs = value_len" and "2 ^ k \<le> length (mb_mem (rs_buf rs))"
  shows "rs_ok k value_len rs"
proof -
  obtain d where "value_len = d * 2 ^ k" using assms(1) by (metis dvd_def mult.commute)
  then show ?thesis using assms(2,3) by (auto simp: rs_ok_def)
qed

lemma read_media_hit:
  fixes ex :: bool and va :: u64 and st :: nvm_kv_store
  assumes env: "kv_env_ok E k j capacity view st" and sized: "sectors_sized k (view w)"
    and key: "length (snd x) \<le> NVM_KV_MAX_KEY_SIZE"
    and vl: "2 ^ k dvd value_len" "value_len \<le> NVM_KV_MAX_VALUE_SIZE"
    and cell: "holds_cell k (view w) (unat (key_lba st x)) x c"
    and at: "unat (key_lba st x) + search_range st \<le> capacity" and buf: "2 ^ k \<le> length (mb_mem buf)"
  shows "case kv_read_media E st (fst x) (snd x) (length (snd x)) va value value_len ex buf w of
      (Inl e, buf', _) \<Rightarrow> e \<noteq> NVM_ERR_OBJECT_NOT_FOUND \<and> \<not> read_safe E k st va buf \<and> length (mb_mem buf') = length (mb_mem buf)
    | (Inr (hdr, lba), buf', value') \<Rightarrow>
        lba = key_lba st x \<and> header_fits k (mb_mem buf') hdr c \<and>
        length (mb_mem buf') = length (mb_mem buf) \<and> cell_value_read k hdr value' value_len c"
proof -
  note e = kv_env_dest [OF env]
  let ?V = "view w" and ?lba = "key_lba st x" and ?len = "length (kc_value c)"
  obtain s where s: "?V (unat ?lba) = Some s" "key_matches s (snd x) (length (snd x)) (fst x)"
    "header_fits k s (load_header s) c"
    "2 ^ k \<le> unat (hdr_value_offset (load_header s)) \<Longrightarrow>
      (\<forall>i < value_sectors k ?len. ?V (Suc (unat ?lba) + i) \<noteq> None) \<and>
      take ?len (read_sectors (2 ^ k) ?V (Suc (unat ?lba)) (value_sectors k ?len)) = kc_value c"
    using cell by (fastforce simp: holds_cell_def split: option.splits)
  have len: "?len \<le> NVM_KV_MAX_VALUE_SIZE" using s(3) by (simp add: header_fits_def)
  define rs where "rs = \<lparr>rs_buf = buf, rs_value = value, rs_num_iovs = (if value_len > 0 then 2 else 1),
      rs_value_iov_len = rnd value_len (2 ^ k), rs_read_len = 0\<rparr>"
  have riov: "rs_value_iov_len rs = value_len" using rnd_dvd [OF e(17,18) vl] by (simp add: rs_def)
  have rs: "rs_ok k value_len rs"
    using buf by (intro rs_ok_initial [OF vl(1) riov]) (simp add: rs_def)
  have unf: "kv_read_media E st (fst x) (snd x) (length (snd x)) va value value_len ex buf w =
    (let (r, rs) = read_media_loop E st (fst x) (snd x) (length (snd x)) va value_len ex 1 ?lba w rs
     in (r, rs_buf rs, rs_value rs))"
    by (simp add: kv_read_media_def Let_def key_lba_def rs_def e(20))
  note unl = read_media_loop.simps [of E st "fst x" "snd x" "length (snd x)" va value_len ex 1 ?lba w rs]
  obtain r rs1 where sz: "read_size E st ex value_len ?lba w rs = (r, rs1)" by force
  note sc = read_size_cases [OF env rs vl at, where ex = ex and w = w, unfolded sz prod.case]
  show ?thesis
  proof (cases r)
    case (Inl err)
    then have "rs1 = rs" using sz by (auto simp: read_size_def Let_def split: if_splits sum.splits)
    then show ?thesis using unf unl sz Inl sc by (simp add: rs_def read_safe_def)
  next
    case (Inr exists)
    then have ok: "rs_ok k value_len rs1" "rs_buf rs1 = buf" "rs_value rs1 = value"
      using sc by (simp_all add: rs_def)
    have "0 < search_range st" using e(10) by simp
    then have "exists" using sc Inr s(1) by (auto dest: spec [of _ 0])
    then have long: "rs_num_iovs rs1 = rs_num_iovs rs \<and> min m (value_len div 2 ^ k) \<le> rs_value_iov_len rs1 div 2 ^ k \<or> m = 0"
      if "m < search_range st" "\<forall>i < Suc m. ?V (unat ?lba + i) \<noteq> None" for m
      using that sc Inr riov by simp
    note pr = read_probe_cases [OF env ok(1) vl(2) at sized, where va = va]
    show ?thesis
    proof (cases "read_probe E st va ?lba w rs1")
      case (Inl err)
      then show ?thesis using unf unl sz Inr \<open>exists\<close> ok(2) pr \<open>r = Inr exists\<close> by simp
    next
      case rs2: (Inr rs2)
      then have p: "probe_ok k ?V ?lba rs1 rs2" using pr by simp
      have mem: "take (2 ^ k) (mb_mem (rs_buf rs2)) = s" using p s(1) by (simp add: probe_ok_def sector_at_def)
      note km = key_matches_sector [OF e(17) key mem]
      have ret: "kv_read_media E st (fst x) (snd x) (length (snd x)) va value value_len ex buf w =
        (Inr (load_header s, ?lba), rs_buf rs2, rs_value rs2)"
        using unf unl sz Inr \<open>exists\<close> rs2 km s(2) p by (simp add: probe_ok_def)
      have "mem_read (unat (hdr_value_offset (load_header s))) ?len (mb_mem (rs_buf rs2)) = kc_value c"
        if "unat (hdr_value_offset (load_header s)) < 2 ^ k"
      proof (rule mem_read_taken)
        show "mem_read (unat (hdr_value_offset (load_header s))) ?len (take (2 ^ k) (mb_mem (rs_buf rs2))) = kc_value c"
          using s(3) that by (simp add: mem header_fits_def)
      qed simp
      then have hf: "header_fits k (mb_mem (rs_buf rs2)) (load_header s) c" using s(3) by (simp add: header_fits_def)
      have "cell_value_read k (load_header s) (rs_value rs2) value_len c"
        unfolding cell_value_read_def
      proof (intro impI)
        assume off: "2 ^ k \<le> unat (hdr_value_offset (load_header s))"
        let ?m = "value_sectors k ?len"
        have full: "?V (unat ?lba + i) \<noteq> None" if "i < Suc ?m" for i
          using s(1) s(4) [OF off] that by (cases i) simp_all
        have "?m < search_range st" using value_in_slot [OF e(18) len] e(10) by simp
        then consider "?m = 0 \<or> value_len = 0" | "0 < value_len" "rs_num_iovs rs1 = 2"
            "min ?m (value_len div 2 ^ k) \<le> rs_value_iov_len rs1 div 2 ^ k"
          using long [of ?m] full by (cases "value_len = 0") (auto simp: rs_def)
        then show "take (min ?len value_len) (rs_value rs2) = take (min ?len value_len) (kc_value c)"
        proof cases
          case 1
          have "?len \<le> ?m * 2 ^ k" by (rule value_sectors_mult(2) [OF e(18) len])
          then show ?thesis using 1 by auto
        next
          case 2
          have "rs_value rs2 = memcpy 0 (read_sectors (2 ^ k) ?V (Suc (unat ?lba)) (rs_value_iov_len rs1 div 2 ^ k)) value"
            using p 2(2) ok(3) by (simp add: probe_ok_def value_part_def)
          then show ?thesis
            using hit_value [OF sized e(18) _ len 2(3) vl(1)] s(4) [OF off] by simp
        qed
      qed
      then show ?thesis using ret hf p ok(2) by (simp add: probe_ok_def)
    qed
  qed
qed

lemma read_media_miss:
  fixes ex :: bool and va :: u64 and st :: nvm_kv_store
  assumes env: "kv_env_ok E k j capacity view st" and sized: "sectors_sized k (view w)"
    and vl: "2 ^ k dvd value_len" "value_len \<le> NVM_KV_MAX_VALUE_SIZE"
    and spread: "keys_spread st capacity K" "x \<in> K" and rep: "kv_rep k st K (view w) m" and none: "m x = None"
    and buf: "2 ^ k \<le> length (mb_mem buf)"
  shows "case kv_read_media E st (fst x) (snd x) (length (snd x)) va value value_len ex buf w of
      (Inl e, buf', _) \<Rightarrow> length (mb_mem buf') = length (mb_mem buf) \<and>
        (read_safe E k st va buf \<longrightarrow> e = NVM_ERR_OBJECT_NOT_FOUND)
    | (Inr _, _) \<Rightarrow> False"
proof -
  note e = kv_env_dest [OF env] and pl = key_placedD [OF spread]
  have "0 < search_range st" using e(10) by simp
  then have "unat (key_lba st x) \<in> key_slot st x" by (simp add: key_slot_def)
  then have V: "view w (unat (key_lba st x)) = None"
    using rep spread(2) none unfolding kv_rep_def cell_at_def by fastforce
  define rs where "rs = \<lparr>rs_buf = buf, rs_value = value, rs_num_iovs = (if value_len > 0 then 2 else 1),
      rs_value_iov_len = rnd value_len (2 ^ k), rs_read_len = 0\<rparr>"
  have "rs_value_iov_len rs = value_len" using rnd_dvd [OF e(17,18) vl] by (simp add: rs_def)
  then have rs: "rs_ok k value_len rs"
    using buf by (intro rs_ok_initial [OF vl(1)]) (simp_all add: rs_def)
  have nxt: "unat (next_key_lba st (fst x) (snd x) (length (snd x)) i) + search_range st \<le> capacity \<and>
      view w (unat (next_key_lba st (fst x) (snd x) (length (snd x)) i)) = None" if "i \<in> {1..<8}" for i
    using pl(4) [OF that] rep spread(2) that by (simp add: kv_rep_def probe_lba_def)
  obtain err rs' where "read_media_loop E st (fst x) (snd x) (length (snd x)) va value_len ex 1 (key_lba st x) w rs = (Inl err, rs')"
    "length (mb_mem (rs_buf rs')) = length (mb_mem buf)"
    "read_safe E k st va buf \<longrightarrow> err = NVM_ERR_OBJECT_NOT_FOUND"
    using read_loop_miss [OF env sized pl(1,2) vl nxt rs _ pl(3) V, where itr = 1 and va = va and ex = ex]
    by (auto simp: rs_def)
  then show ?thesis
    by (simp add: kv_read_media_def Let_def key_lba_def rs_def e(20))
qed

section \<open>Buffers\<close>

definition bufs_ready :: "nvm_kv_buffer_pool \<Rightarrow> bool" where
  "bufs_ready bufs \<longleftrightarrow> bp_wf bufs \<and> m_buffers bufs \<noteq> []"

definition bufs_aligned :: "'w nvm_env \<Rightarrow> nat \<Rightarrow> nvm_kv_buffer_pool \<Rightarrow> bool" where
  "bufs_aligned E k bufs \<longleftrightarrow>
     (\<forall>mb. Some mb \<in> set (m_buffers bufs) \<longrightarrow> aligned k (mb_addr mb)) \<and>
     (\<forall>w n. \<exists>mb. env_memalign E w n = Some mb \<and> aligned k (mb_addr mb))"

lemma get_buf_ready:
  assumes "alloc_law E" and "bufs_ready bufs" and "0 < n"
  obtains (null) bufs' where "get_buf (env_memalign E w) n bufs = Some (None, 0, bufs')" "bufs' = bufs"
      "\<not> bufs_aligned E k bufs"
  | (buf) mb r bufs' where "get_buf (env_memalign E w) n bufs = Some (Some mb, r, bufs')" "n \<le> r"
      "length (mb_mem mb) = r" "bp_wf bufs'" "bufs_aligned E k bufs \<Longrightarrow> aligned k (mb_addr mb) \<and> bufs_aligned E k bufs'"
proof -
  have ne: "m_buffers bufs \<noteq> []" "bp_wf bufs" using assms(2) by (simp_all add: bufs_ready_def)
  then obtain b r bufs' where g: "get_buf (env_memalign E w) n bufs = Some (b, r, bufs')"
    by (cases "get_buf (env_memalign E w) n bufs") (auto simp: get_buf_def Let_def split: if_splits option.splits)
  have wf: "bp_wf bufs' \<and> (b \<noteq> None \<longrightarrow> buf_ok b r \<and> n \<le> r \<and>
      length (m_buffers bufs) = Suc (length (m_buffers bufs'))) \<and> (b = None \<longrightarrow> bufs' = bufs \<and> r = 0)"
    using assms(1) ne g unfolding alloc_law_def by (intro get_buf_wf) blast+
  have al: "(b = None \<longrightarrow> \<not> bufs_aligned E k bufs) \<and>
      (b \<noteq> None \<longrightarrow> bufs_aligned E k bufs \<longrightarrow> aligned k (mb_addr (the b)) \<and> bufs_aligned E k bufs')"
  proof (cases "last (m_buffer_sizes bufs) < n")
    case True
    show ?thesis
    proof (cases "env_memalign E w n")
      case None
      then have "b = None" using g ne True by (simp add: get_buf_def Let_def)
      moreover have "\<not> bufs_aligned E k bufs"
        using None unfolding bufs_aligned_def by (metis option.distinct(1))
      ultimately have "b = None" "\<not> bufs_aligned E k bufs" .
      then show ?thesis by simp
    next
      case (Some mb)
      then have b: "b = Some mb" "m_buffers bufs' = butlast (m_buffers bufs)"
        using g ne True by (auto simp: get_buf_def Let_def)
      have "aligned k (mb_addr mb)" if "bufs_aligned E k bufs"
        using that Some unfolding bufs_aligned_def by (metis option.inject)
      then show ?thesis using b by (auto simp: bufs_aligned_def dest: in_set_butlastD)
    qed
  next
    case False
    then have b: "b = last (m_buffers bufs)" "m_buffers bufs' = butlast (m_buffers bufs)" "r = last (m_buffer_sizes bufs)"
      using g ne by (auto simp: get_buf_def Let_def)
    have "r \<noteq> 0" using False b(3) assms(3) by simp
    then have "b \<noteq> None" using wf by auto
    then have "Some (the b) \<in> set (m_buffers bufs)" using b(1) ne by (metis last_in_set option.collapse)
    then show ?thesis using b \<open>b \<noteq> None\<close> by (auto simp: bufs_aligned_def dest: in_set_butlastD)
  qed
  show thesis
  proof (cases b)
    case None
    then show thesis using null g wf al by simp
  next
    case (Some mb)
    then show thesis using buf g wf al by (simp add: buf_ok_def)
  qed
qed

lemma release_ready:
  assumes "bp_wf bufs" and "length (mb_mem mb) = r"
  shows "bufs_ready (release_if True (Some mb) r bufs)"
    and "bufs_aligned E k bufs \<Longrightarrow> aligned k (mb_addr mb) \<Longrightarrow> bufs_aligned E k (release_if True (Some mb) r bufs)"
  using assms by (auto simp: release_if_def release_buf_def Let_def bufs_ready_def bp_wf_def list_all2_snoc
      buf_ok_def bufs_aligned_def)

lemma with_sector_buf_cases:
  assumes "alloc_law E" and "bufs_ready bufs" and "0 < ss"
    and f: "\<And>mb. ss \<le> length (mb_mem mb) \<Longrightarrow> length (mb_mem (snd (f mb))) = length (mb_mem mb) \<and>
              mb_addr (snd (f mb)) = mb_addr mb"
  obtains (fail) "with_sector_buf E ss bufs w f = Some (Inl NVM_ERR_OUT_OF_MEMORY, bufs)" "\<not> bufs_aligned E k bufs"
  | (ok) mb bufs' where "ss \<le> length (mb_mem mb)" "with_sector_buf E ss bufs w f = Some (fst (f mb), bufs')"
      "bufs_ready bufs'" "bufs_aligned E k bufs \<Longrightarrow> aligned k (mb_addr mb) \<and> bufs_aligned E k bufs'"
  using assms(1-3)
proof (cases rule: get_buf_ready [where w = w and k = k])
  case (null bufs')
  then show thesis using fail by (simp add: with_sector_buf_def)
next
  case (buf mb r bufs')
  have fmb: "length (mb_mem (snd (f mb))) = r" "mb_addr (snd (f mb)) = mb_addr mb"
    using f [of mb] buf(2,3) by simp_all
  note rel = release_ready [OF buf(4) fmb(1)]
  have "with_sector_buf E ss bufs w f = Some (fst (f mb), release_if True (Some (snd (f mb))) r bufs')"
    using buf(1,2) by (simp add: with_sector_buf_def Let_def case_prod_unfold)
  moreover have "bufs_aligned E k (release_if True (Some (snd (f mb))) r bufs')" if "bufs_aligned E k bufs"
    using buf(5) [OF that] fmb(2) by (intro rel(2)) simp_all
  ultimately show thesis using ok [of mb] buf(2,3,5) rel(1) by simp
qed

section \<open>The get\<close>

definition got_cell :: "nat \<Rightarrow> kv_cell \<Rightarrow> kv_get_out \<Rightarrow> bool" where
  "got_cell value_len c out \<longleftrightarrow>
     go_len out = min (length (kc_value c)) value_len \<and>
     take (go_len out) (go_value out) = take (go_len out) (kc_value c) \<and>
     unat (ki_value_len (go_info out)) = length (kc_value c) \<and>
     ki_gen_count (go_info out) = kc_gen c \<and> ki_expiry (go_info out) = kc_expiry c"

lemma no_expiry: "get_expiry st = KV_DISABLE_EXPIRY \<Longrightarrow> kv_expire E st hdr lba d w = (Inr (), st)"
  by (simp add: kv_expire_def header_expired_def)

lemma get_result_cell:
  assumes "header_fits k mem hdr c" and "cell_value_read k hdr value value_len c"
  shows "got_cell value_len c (get_result (2 ^ k) info hdr mem value value_len)"
proof -
  let ?i = "min (length (kc_value c)) value_len"
  have len: "unat (hdr_value_len hdr) = length (kc_value c)" using assms(1) by (simp add: header_fits_def)
  have "take ?i (memcpy 0 (kc_value c) value) = take ?i (kc_value c)" by (rule take_memcpy_src) simp
  then have "take ?i (go_value (get_result (2 ^ k) info hdr mem value value_len)) = take ?i (kc_value c)"
    using assms len by (simp add: get_result_def header_fits_def cell_value_read_def)
  then show ?thesis using assms(1) len by (simp add: got_cell_def get_result_def header_fits_def)
qed

lemma read_size_buf: "rs_buf (snd (read_size E st ex value_len lba w rs)) = rs_buf rs"
  by (simp add: read_size_def Let_def split: sum.splits)

lemma read_probe_addr: "read_probe E st va lba w rs = Inr rs' \<Longrightarrow> mb_addr (rs_buf rs') = mb_addr (rs_buf rs)"
  by (auto simp: read_probe_def Let_def split: sum.splits)

lemma read_loop_addr:
  "mb_addr (rs_buf (snd (read_media_loop E st p key key_len va value_len ex itr lba w rs))) = mb_addr (rs_buf rs)"
proof (induction E st p key key_len va value_len ex itr lba w rs rule: read_media_loop.induct)
  case (1 E st p key key_len va value_len ex itr lba w rs)
  obtain r rs1 where sz: "read_size E st ex value_len lba w rs = (r, rs1)" by force
  then have b1: "rs_buf rs1 = rs_buf rs" using read_size_buf [of E st ex value_len lba w rs] by simp
  note unf = read_media_loop.simps [of E st p key key_len va value_len ex itr lba w rs]
  show ?case
  proof (cases r)
    case (Inl err)
    then show ?thesis using unf sz b1 by simp
  next
    case (Inr exists)
    show ?thesis
    proof (cases "if exists then read_probe E st va lba w rs1 else Inr rs1")
      case (Inl err)
      then show ?thesis using unf sz b1 \<open>r = Inr exists\<close> by simp
    next
      case rs2: (Inr rs2)
      then have "mb_addr (rs_buf rs2) = mb_addr (rs_buf rs)"
        using read_probe_addr [of E st va lba w rs1 rs2] b1 by (auto split: if_splits)
      then show ?thesis using unf sz rs2 Inr "1.IH" [OF sz [symmetric] Inr rs2] by simp
    qed
  qed
qed

lemma read_media_addr:
  "kv_read_media E st p key key_len va value value_len ex buf w = (r, buf', value') \<Longrightarrow> mb_addr buf' = mb_addr buf"
  using read_loop_addr [of E st p key key_len va value_len ex 1 _ w]
  by (fastforce simp: kv_read_media_def Let_def case_prod_unfold)

definition lookup_done :: "bool \<Rightarrow> kv_cell option \<Rightarrow> (kv_cell \<Rightarrow> 'a \<Rightarrow> bool) \<Rightarrow> 'a res \<Rightarrow> bool" where
  "lookup_done safe entry P r \<longleftrightarrow>
     (case r of
        Inr out \<Rightarrow> (case entry of None \<Rightarrow> False | Some c \<Rightarrow> P c out)
      | Inl e \<Rightarrow> (entry \<noteq> None \<longrightarrow> e \<noteq> NVM_ERR_OBJECT_NOT_FOUND \<and> \<not> safe) \<and>
          (entry = None \<longrightarrow> safe \<longrightarrow> e = NVM_ERR_OBJECT_NOT_FOUND))"

lemma get_store_spec:
  fixes ex :: bool and va :: u64 and st :: nvm_kv_store
  assumes env: "kv_env_ok E k j capacity view st" and spread: "keys_spread st capacity K" "x \<in> K"
    and rep: "kv_rep k st K (view w) m" and bufs: "bufs_ready bufs"
    and vl: "2 ^ k dvd value_len" "value_len \<le> NVM_KV_MAX_VALUE_SIZE"
  obtains r bufs' where
    "get_store E (fst x) (snd x) (length (snd x)) va value value_len ex info bufs st w = Some (r, bufs', st, w)"
    "bufs_ready bufs'" "bufs_aligned E k bufs \<Longrightarrow> bufs_aligned E k bufs'"
    "lookup_done (ranges_known E st \<and> aligned k va \<and> bufs_aligned E k bufs) (m x) (got_cell value_len) r"
proof -
  note e = kv_env_dest [OF env] and pl = key_placedD [OF spread]
  have sized: "sectors_sized k (view w)" using rep by (simp add: kv_rep_def)
  define f where "f = (\<lambda>buf. case kv_read_media E st (fst x) (snd x) (length (snd x)) va value value_len ex buf w of
            (Inl e, buf, _) \<Rightarrow> (Inl e, buf)
          | (Inr (hdr, lba), buf, value) \<Rightarrow>
              (case kv_expire E st hdr lba True w of
                 (Inl e, st) \<Rightarrow> (Inr (Inl e, st), buf)
               | (Inr _, st) \<Rightarrow>
                   (Inr (Inr (get_result (get_sector_size st) info hdr (mb_mem buf) value value_len), st), buf)))"
  have unf: "get_store E (fst x) (snd x) (length (snd x)) va value value_len ex info bufs st w =
    map_option (\<lambda>(r, bufs).
         case r of
           Inl e \<Rightarrow> (Inl e, bufs, st, w)
         | Inr (r, st) \<Rightarrow> (r, bufs, st, w))
       (with_sector_buf E (2 ^ k) bufs w f)"
    unfolding get_store_def f_def e(20) ..
  have f: "length (mb_mem (snd (f buf))) = length (mb_mem buf) \<and> mb_addr (snd (f buf)) = mb_addr buf \<and>
      (\<exists>r. (fst (f buf) = Inl r \<and> lookup_done (read_safe E k st va buf) (m x) (got_cell value_len) (Inl r)) \<or>
        (\<exists>out. fst (f buf) = Inr (Inr out, st) \<and> lookup_done (read_safe E k st va buf) (m x) (got_cell value_len) (Inr out)))"
    if buf: "2 ^ k \<le> length (mb_mem buf)" for buf
  proof -
    obtain r buf' value' where rm: "kv_read_media E st (fst x) (snd x) (length (snd x)) va value value_len ex buf w = (r, buf', value')"
      by (metis prod_cases3)
    have addr: "mb_addr buf' = mb_addr buf" using read_media_addr rm by fastforce
    show ?thesis
    proof (cases "m x")
      case None
      from read_media_miss [OF env sized vl spread rep None buf, of va "value" ex] rm addr None
      show ?thesis by (auto simp: f_def lookup_done_def split: sum.splits)
    next
      case (Some c)
      have "cell_at st k (view w) x (m x)" using rep spread(2) by (simp add: kv_rep_def)
      then have "holds_cell k (view w) (unat (key_lba st x)) x c" using Some by (simp add: cell_at_def)
      from read_media_hit [OF env sized pl(2) vl this pl(3) buf, of va "value" ex] rm addr Some
      show ?thesis by (cases r) (auto simp: f_def lookup_done_def no_expiry [OF e(16)] get_result_cell e(20))
    qed
  qed
  have pos: "0 < (2::nat) ^ k" by simp
  have fl: "length (mb_mem (snd (f buf))) = length (mb_mem buf) \<and> mb_addr (snd (f buf)) = mb_addr buf"
    if "2 ^ k \<le> length (mb_mem buf)" for buf using f [OF that] by blast
  show thesis
  proof (rule with_sector_buf_cases [OF e(4) bufs pos fl, where w = w and k = k])
    assume "with_sector_buf E (2 ^ k) bufs w f = Some (Inl NVM_ERR_OUT_OF_MEMORY, bufs)" "\<not> bufs_aligned E k bufs"
    then show thesis using that [OF _ bufs] unf by (simp add: lookup_done_def)
  next
    fix buf bufs'
    assume ok: "2 ^ k \<le> length (mb_mem buf)" "with_sector_buf E (2 ^ k) bufs w f = Some (fst (f buf), bufs')"
      "bufs_ready bufs'" "bufs_aligned E k bufs \<Longrightarrow> aligned k (mb_addr buf) \<and> bufs_aligned E k bufs'"
    then have safe: "read_safe E k st va buf" if "ranges_known E st \<and> aligned k va \<and> bufs_aligned E k bufs"
      using that by (simp add: read_safe_def)
    from f [OF ok(1)] obtain r where r: "fst (f buf) = Inl r \<and> lookup_done (read_safe E k st va buf) (m x) (got_cell value_len) (Inl r) \<or>
        (\<exists>out. fst (f buf) = Inr (Inr out, st) \<and> lookup_done (read_safe E k st va buf) (m x) (got_cell value_len) (Inr out))"
      by blast
    then show thesis using that [OF _ ok(3)] ok(2,4) unf safe by (fastforce simp: lookup_done_def)
  qed
qed

section \<open>The delete\<close>

definition batches_succeed :: "'w nvm_env \<Rightarrow> nvm_kv_store \<Rightarrow> bool" where
  "batches_succeed E st \<longleftrightarrow> (\<forall>iovs w. fst (env_batch_atomic E (dev_handle (get_store_device st)) iovs w) = 0)"

definition calls_succeed :: "'w nvm_env \<Rightarrow> nat \<Rightarrow> nvm_kv_store \<Rightarrow> nvm_kv_buffer_pool \<Rightarrow> bool" where
  "calls_succeed E k st bufs \<longleftrightarrow> ranges_known E st \<and> batches_succeed E st \<and> bufs_aligned E k bufs"

lemma aligned_0 [simp]: "aligned k 0"
  by (simp add: aligned_def)

lemma delete_find_spec:
  fixes st :: nvm_kv_store
  assumes env: "kv_env_ok E k j capacity view st" and spread: "keys_spread st capacity K" "x \<in> K"
    and rep: "kv_rep k st K (view w) m" and bufs: "bufs_ready bufs"
  obtains r bufs' where
    "delete_find E (fst x) (snd x) (length (snd x)) st bufs w = Some (r, bufs')"
    "bufs_ready bufs'" "bufs_aligned E k bufs \<Longrightarrow> bufs_aligned E k bufs'"
    "lookup_done (ranges_known E st \<and> bufs_aligned E k bufs) (m x) (\<lambda>c lba. lba = key_lba st x) r"
proof -
  note e = kv_env_dest [OF env] and pl = key_placedD [OF spread]
  have sized: "sectors_sized k (view w)" using rep by (simp add: kv_rep_def)
  define f where "f = (\<lambda>buf. case kv_read_media E st (fst x) (snd x) (length (snd x)) 0 [] 0 False buf w of
         (Inl e, buf, _) \<Rightarrow> (Inl e, buf)
       | (Inr (hdr, lba), buf, _) \<Rightarrow> (Inr lba, buf))"
  have unf: "delete_find E (fst x) (snd x) (length (snd x)) st bufs w = with_sector_buf E (2 ^ k) bufs w f"
    unfolding delete_find_def f_def e(20) ..
  have vl: "(2 ^ k :: nat) dvd 0" "0 \<le> NVM_KV_MAX_VALUE_SIZE" by simp_all
  have f: "length (mb_mem (snd (f buf))) = length (mb_mem buf) \<and> mb_addr (snd (f buf)) = mb_addr buf \<and>
      lookup_done (read_safe E k st 0 buf) (m x) (\<lambda>c lba. lba = key_lba st x) (fst (f buf))"
    if buf: "2 ^ k \<le> length (mb_mem buf)" for buf
  proof -
    obtain r buf' value' where rm: "kv_read_media E st (fst x) (snd x) (length (snd x)) 0 [] 0 False buf w = (r, buf', value')"
      by (metis prod_cases3)
    have addr: "mb_addr buf' = mb_addr buf" using read_media_addr rm by fastforce
    show ?thesis
    proof (cases "m x")
      case None
      from read_media_miss [OF env sized vl spread rep None buf, of 0 "[]" False] rm addr None
      show ?thesis by (auto simp: f_def lookup_done_def split: sum.splits)
    next
      case (Some c)
      have "cell_at st k (view w) x (m x)" using rep spread(2) by (simp add: kv_rep_def)
      then have "holds_cell k (view w) (unat (key_lba st x)) x c" using Some by (simp add: cell_at_def)
      from read_media_hit [OF env sized pl(2) vl this pl(3) buf, of 0 "[]" False] rm addr Some
      show ?thesis by (cases r) (auto simp: f_def lookup_done_def)
    qed
  qed
  have pos: "0 < (2::nat) ^ k" by simp
  have fl: "length (mb_mem (snd (f buf))) = length (mb_mem buf) \<and> mb_addr (snd (f buf)) = mb_addr buf"
    if "2 ^ k \<le> length (mb_mem buf)" for buf using f [OF that] by blast
  show thesis
  proof (rule with_sector_buf_cases [OF e(4) bufs pos fl, where w = w and k = k])
    assume "with_sector_buf E (2 ^ k) bufs w f = Some (Inl NVM_ERR_OUT_OF_MEMORY, bufs)" "\<not> bufs_aligned E k bufs"
    then show thesis using that [OF _ bufs] unf by (simp add: lookup_done_def)
  next
    fix buf bufs'
    assume ok: "2 ^ k \<le> length (mb_mem buf)" "with_sector_buf E (2 ^ k) bufs w f = Some (fst (f buf), bufs')"
      "bufs_ready bufs'" "bufs_aligned E k bufs \<Longrightarrow> aligned k (mb_addr buf) \<and> bufs_aligned E k bufs'"
    then have "read_safe E k st 0 buf" if "ranges_known E st \<and> bufs_aligned E k bufs"
      using that by (simp add: read_safe_def)
    then have "lookup_done (ranges_known E st \<and> bufs_aligned E k bufs) (m x) (\<lambda>c lba. lba = key_lba st x) (fst (f buf))"
      using f [OF ok(1)] by (auto simp: lookup_done_def split: sum.splits)
    then show thesis using that [OF _ ok(3)] ok(2,4) unf by simp
  qed
qed

lemma trim_slot_rep:
  assumes "kv_env_ok E k j capacity view st" and "keys_spread st capacity K" "x \<in> K" and "kv_rep k st K V m"
  shows "kv_rep k st K (trim_set V (key_slot st x)) (m(x := None))"
  using assms
proof (intro kv_rep_change)
  show "sectors_sized k (trim_set V (key_slot st x))"
    using assms(4) by (simp add: kv_rep_def sectors_sized_def trim_set_def)
  show "cell_at st k (trim_set V (key_slot st x)) x None" by (simp add: cell_at_def)
qed simp_all

lemma delete_range_safe [simp]: "delete_range E (st\<lparr>st_safe := S\<rparr>) lba n w = delete_range E st lba n w"
  by (cases "env_new_iovs E w (nvm_max_num_iovs (dev_caps (get_store_device st)))")
    (simp_all add: delete_range_def get_store_device_def get_sector_size_def)

lemma delete_slot:
  fixes st :: nvm_kv_store
  assumes env: "kv_env_ok E k j capacity view st" and spread: "keys_spread st capacity K" "x \<in> K"
    and rep: "kv_rep k st K (view w) m"
  obtains r w' where "kv_delete_internal E (key_lba st x) st w = Some (r, w')"
    "case r of Inr _ \<Rightarrow> kv_rep k st K (view w') (m(x := None))
     | Inl e \<Rightarrow> view w' = view w \<and> e \<noteq> NVM_ERR_OBJECT_NOT_FOUND \<and> \<not> batches_succeed E st"
proof -
  note e = kv_env_dest [OF env] and pl = key_placedD [OF spread]
  have "(2::nat) ^ (21 - k) * 2 ^ k = 2 ^ 21" using e(18) by (simp only: power_add [symmetric]) simp
  then have one: "search_range st * 2 ^ k \<le>
      nvm_max_num_iovs (dev_caps (get_store_device st)) * max_trim_size (get_store_device st)"
    using e(10,12) by simp
  have pos: "0 < search_range st" "unat (key_lba st x) + search_range st < 2 ^ 64"
    using e(9,10) pl(3) by simp_all
  have "trimmed_to view (unat (key_lba st x)) (search_range st) True w
      (delete_range E st (key_lba st x) (search_range st) w)"
    using delete_range_spec [OF e(8,3,5,4) pos, of w] one by simp
  then obtain r w' p where r: "delete_range E st (key_lba st x) (search_range st) w = Some (r, w')"
    "view w' = trim_set (view w) {unat (key_lba st x) ..< unat (key_lba st x) + p}"
    "case r of Inr _ \<Rightarrow> p = search_range st | Inl e \<Rightarrow> e = NVM_ERR_IO \<and> (True \<longrightarrow> p = 0)"
    unfolding trimmed_to_def by blast
  have del: "kv_delete_internal E (key_lba st x) st w = Some (r, w')"
    using r(1) e(10,11) by (simp add: kv_delete_internal_def get_del_sec_count_def)
  have "\<not> batches_succeed E st" if "r = Inl err" for err
  proof
    assume b: "batches_succeed E st"
    then have wr: "fst (nvm_writev E (get_store_device st) iovs n True w) = Inr 0" for iovs n and w :: 'a
    proof -
      obtain rc w'' where "env_batch_atomic E (dev_handle (get_store_device st)) (take n iovs) w = (rc, w'')" by force
      moreover from this have "rc = 0" using b unfolding batches_succeed_def by (metis fst_conv)
      ultimately show ?thesis by (simp add: nvm_writev_def Let_def)
    qed
    obtain iovs where new: "env_new_iovs E w (nvm_max_num_iovs (dev_caps (get_store_device st))) = Some iovs"
      using e(4) unfolding alloc_law_def by blast
    let ?fill = "trim_fill (get_store_device st) (key_lba st x) 0 0 (search_range st * 2 ^ k)"
    have "snd (snd ?fill) = 0"
      using one e(13) by (intro trim_fill_all) simp_all
    then have "delete_range E st (key_lba st x) (search_range st) w = Some (Inr (), snd (nvm_writev E (get_store_device st) (fst ?fill) (length (fst ?fill)) True w))"
      using wr new by (simp add: delete_range_def delete_range_loop.simps [of _ _ _ 0] Let_def e(20))
    then show False using r(1) that by simp
  qed
  moreover have "kv_rep k st K (view w') (m(x := None))" if "r = Inr u" for u
    using trim_slot_rep [OF env spread rep] r(2,3) that by (simp add: key_slot_def)
  ultimately show thesis using that [OF del] r(2,3) by (cases r) auto
qed

lemma delete_sync_spec:
  fixes st :: nvm_kv_store
  assumes env: "kv_env_ok E k j capacity view st" and spread: "keys_spread st capacity K" "x \<in> K"
    and rep: "kv_rep k st K (view w) m" and bufs: "bufs_ready bufs"
  obtains r bufs' w' where
    "kv_delete_sync E oth (fst x) (snd x) (length (snd x)) bufs st w = Some (r, bufs', st, w')"
    "bufs_ready bufs'" "bufs_aligned E k bufs \<Longrightarrow> bufs_aligned E k bufs'"
    "case r of Inr _ \<Rightarrow> kv_rep k st K (view w') (m(x := None))
     | Inl e \<Rightarrow> view w' = view w \<and> \<not> calls_succeed E k st bufs"
proof -
  note e = kv_env_dest [OF env]
  obtain r bufs' where find: "delete_find E (fst x) (snd x) (length (snd x)) st bufs w = Some (r, bufs')"
    and b: "bufs_ready bufs'" "bufs_aligned E k bufs \<Longrightarrow> bufs_aligned E k bufs'"
    and l: "lookup_done (ranges_known E st \<and> bufs_aligned E k bufs) (m x) (\<lambda>c lba. lba = key_lba st x) r"
    using delete_find_spec [OF env spread rep bufs] by metis
  have dc: "delete_cache (fst x) (snd x) (length (snd x)) st = (None, st)"
    using e(14) by (simp add: delete_cache_def)
  show thesis
  proof (cases r)
    case (Inl err)
    then have "kv_delete_sync E oth (fst x) (snd x) (length (snd x)) bufs st w = Some (delete_done (Inl err), bufs', st, w)"
      using find dc by (simp add: kv_delete_sync_def)
    moreover have "m(x := None) = m" if "err = NVM_ERR_OBJECT_NOT_FOUND"
      using l Inl that by (cases "m x") (auto simp: lookup_done_def)
    ultimately show thesis using that [OF _ b] l Inl rep
      by (cases "err = NVM_ERR_OBJECT_NOT_FOUND"; cases "m x")
        (auto simp: delete_done_def lookup_done_def calls_succeed_def)
  next
    case (Inr lba)
    then have lba: "lba = key_lba st x" using l by (auto simp: lookup_done_def split: option.splits)
    obtain r' w' where del: "kv_delete_internal E (key_lba st x) st w = Some (r', w')"
      and r': "case r' of Inr _ \<Rightarrow> kv_rep k st K (view w') (m(x := None))
        | Inl e \<Rightarrow> view w' = view w \<and> e \<noteq> NVM_ERR_OBJECT_NOT_FOUND \<and> \<not> batches_succeed E st"
      using delete_slot [OF env spread rep] by metis
    have del': "kv_delete_internal E (key_lba st x) (st\<lparr>st_safe := S\<rparr>) w = Some (r', w')" for S
      using del by (simp add: kv_delete_internal_def get_del_sec_count_def)
    have "kv_delete_sync E oth (fst x) (snd x) (length (snd x)) bufs st w = Some (r', bufs', st, w')"
      using find dc Inr lba del' e(15) delete_lba_inserted [of lba "{}" st]
      by (simp add: kv_delete_sync_def delete_locked_def insert_lba_free Let_def)
    then show thesis using that [OF _ b] r' by (auto simp: calls_succeed_def split: sum.splits)
  qed
qed

section \<open>The address for a put\<close>

definition put_address_ok ::
  "nat \<Rightarrow> nvm_kv_store \<Rightarrow> kv_key \<Rightarrow> kv_cell option \<Rightarrow> nat \<Rightarrow> bool \<Rightarrow> 'w gen_state \<Rightarrow> u64 \<Rightarrow> 'w gen_state \<Rightarrow> bool" where
  "put_address_ok k st x entry value_len replace gs lba gs' \<longleftrightarrow>
     lba = key_lba st x \<and> (entry = None \<or> replace) \<and> gs_world gs' = gs_world gs \<and>
     gs_store gs' = st\<lparr>st_safe := {lba}\<rparr> \<and> gs_insert_lba gs' \<and>
     gs_trim_len gs' =
       (case entry of None \<Rightarrow> 0 | Some c \<Rightarrow> if length (kc_value c) > value_len then length (kc_value c) else 0)"

definition same_buffer :: "membuf \<Rightarrow> membuf \<Rightarrow> bool" where
  "same_buffer b b' \<longleftrightarrow> mb_addr b' = mb_addr b \<and> length (mb_mem b') = length (mb_mem b)"

text \<open>
  The address of a put, with any set of addresses held already: \<open>kv_gen_lba\<close> takes the
  address of the key, except for a key that exists when \<open>insert_lba\<close> is already set, as it
  is from the second pair of a batch on.
\<close>

definition address_taken ::
  "nvm_kv_store \<Rightarrow> kv_key \<Rightarrow> kv_cell option \<Rightarrow> nat \<Rightarrow> bool \<Rightarrow> u64 set \<Rightarrow> 'w gen_state \<Rightarrow> u64 \<Rightarrow> 'w gen_state \<Rightarrow> bool" where
  "address_taken st x entry value_len replace S gs lba gs' \<longleftrightarrow>
     lba = key_lba st x \<and> (entry = None \<or> replace) \<and> gs_world gs' = gs_world gs \<and>
     gs_store gs' = st\<lparr>st_safe := (if gs_insert_lba gs \<and> entry \<noteq> None then S else insert lba S)\<rparr> \<and> gs_insert_lba gs' \<and>
     gs_trim_len gs' =
       (case entry of None \<Rightarrow> 0 | Some c \<Rightarrow> if length (kc_value c) > value_len then length (kc_value c) else 0)"

lemma safe_list_fields [simp]:
  "get_store_device (st\<lparr>st_safe := S\<rparr>) = get_store_device st" "get_sector_size (st\<lparr>st_safe := S\<rparr>) = get_sector_size st"
  "key_range E (st\<lparr>st_safe := S\<rparr>) lba w = key_range E st lba w" "get_expiry (st\<lparr>st_safe := S\<rparr>) = get_expiry st"
  "key_base (st\<lparr>st_safe := S\<rparr>) p key n = key_base st p key n" "pool_hash_of (st\<lparr>st_safe := S\<rparr>) p = pool_hash_of st p"
  by (simp_all add: get_store_device_def get_sector_size_def key_range_def get_layout_def get_expiry_def
      get_store_metadata_def key_base_def pool_hash_of_def get_hash_func_def)

lemma gen_lba_any:
  fixes st :: nvm_kv_store and gs :: "'w gen_state"
  assumes env: "kv_env_ok E k j capacity view st" and spread: "keys_spread st capacity K" "x \<in> K"
    and rep: "kv_rep k st K (view (gs_world gs)) m" and gs: "gs_store gs = st\<lparr>st_safe := S\<rparr>" "key_lba st x \<notin> S"
    and buf: "2 ^ k \<le> length (mb_mem (gs_buf gs))" and fresh: "case lbas of None \<Rightarrow> True | Some l \<Rightarrow> l (key_lba st x) = None"
  obtains (fail) err lba gs' where
    "kv_gen_lba E oth (fst x) (snd x) (length (snd x)) value_len replace lbas gs = (Inl err, lba, gs')"
    "gs_store gs' = gs_store gs" "gs_world gs' = gs_world gs" "gs_insert_lba gs' = gs_insert_lba gs"
    "same_buffer (gs_buf gs) (gs_buf gs')"
    "read_safe E k st 0 (gs_buf gs) \<Longrightarrow> err = NVM_ERR_OBJECT_EXISTS \<and> m x \<noteq> None \<and> \<not> replace"
  | (found) lba gs' where
    "kv_gen_lba E oth (fst x) (snd x) (length (snd x)) value_len replace lbas gs = (Inr (), lba, gs')"
    "same_buffer (gs_buf gs) (gs_buf gs')" "address_taken st x (m x) value_len replace S gs lba gs'"
proof -
  note e = kv_env_dest [OF env] and pl = key_placedD [OF spread]
  let ?lba = "key_lba st x" and ?V = "view (gs_world gs)"
  have sized: "sectors_sized k ?V" using rep by (simp add: kv_rep_def)
  have cell: "cell_at st k ?V x (m x)" using rep spread(2) by (simp add: kv_rep_def)
  define g where "g = gs\<lparr>gs_trim_len := 0\<rparr>"
  have g: "gs_store g = st\<lparr>st_safe := S\<rparr>" "gs_insert_lba g = gs_insert_lba gs" "gs_world g = gs_world gs"
    "gs_buf g = gs_buf gs" "gs_trim_len g = 0"
    using gs by (simp_all add: g_def)
  have unf: "kv_gen_lba E oth (fst x) (snd x) (length (snd x)) value_len replace lbas gs =
      gen_lba_probe E oth (fst x) (snd x) (length (snd x)) value_len replace 1 ?lba g"
    using gs fresh gen_lba_batch.simps [of "the lbas" "st\<lparr>st_safe := S\<rparr>" "fst x" "snd x" "length (snd x)" 1 ?lba]
    by (cases lbas) (simp_all add: kv_gen_lba_def Let_def g_def key_lba_def M_MAX_COLLISION_def)
  note unp = gen_lba_probe.simps [of E oth "fst x" "snd x" "length (snd x)" value_len replace 1 ?lba g]
  have take: "gs_take_lba oth ?lba h = (False, h\<lparr>gs_insert_lba := True, gs_store := st\<lparr>st_safe := insert ?lba S\<rparr>\<rparr>)"
    if "gs_store h = st\<lparr>st_safe := S\<rparr>" for h :: "'w gen_state"
    using that gs(2) by (simp add: gs_take_lba_def insert_lba_free)
  note kr = key_range_cases [OF env pl(3), of "gs_world gs"]
  show thesis
  proof (cases "key_range E st ?lba (gs_world gs)")
    case (Inl err)
    show thesis
    proof (cases "err = NVM_ERR_INTERNAL_FAILURE")
      case True
      then show thesis
        using fail [of err ?lba g] unf unp Inl g kr gs(1) by (simp add: Let_def read_safe_def same_buffer_def)
    next
      case False
      then have nf: "err = NVM_ERR_OBJECT_NOT_FOUND" "\<forall>i < search_range st. ?V (unat ?lba + i) = None"
        using kr Inl by simp_all
      have none: "m x = None"
      proof (cases "m x")
        case (Some c)
        then show ?thesis using cell nf(2) e(10) by (auto simp: cell_at_def holds_cell_def dest: spec [of _ 0])
      qed
      then show thesis
        using found [of ?lba "snd (gs_take_lba oth ?lba g)"] unf unp Inl g nf(1) take [OF g(1)]
        by (simp add: Let_def same_buffer_def address_taken_def M_MAX_COLLISION_def)
    qed
  next
    case (Inr range)
    then obtain i where i: "i < search_range st" "?V (unat ?lba + i) \<noteq> None" using kr by auto
    obtain c where c: "m x = Some c"
    proof (cases "m x")
      case None
      then have "?V (unat ?lba + i) = None" using cell i(1) by (simp add: cell_at_def key_slot_def)
      then show ?thesis using i(2) by simp
    qed
    then have hc: "holds_cell k ?V (unat ?lba) x c" using cell by (simp add: cell_at_def)
    then obtain s where s: "?V (unat ?lba) = Some s" "key_matches s (snd x) (length (snd x)) (fst x)"
      "header_fits k s (load_header s) c"
      by (auto simp: holds_cell_def split: option.splits)
    have len: "unat (hdr_value_len (load_header s)) = length (kc_value c)" using s(3) by (simp add: header_fits_def)
    let ?iov = "[read_iov (mb_addr (gs_buf gs)) (2 ^ k) ?lba]"
    have "Suc (unat ?lba) \<le> unat ?lba + search_range st" using e(10) by simp
    then have "Suc (unat ?lba) \<le> capacity" using pl(3) by (rule le_trans)
    then have rd: "case nvm_readv E (get_store_device st) ?iov (gs_world gs) of
        Inl e \<Rightarrow> \<not> read_safe E k st 0 (gs_buf gs)
      | Inr got \<Rightarrow> got = s"
      using nvm_readv_cases [OF e(2,4), of ?iov 1 "gs_world gs"] e(13,19) s(1)
      by (auto simp: read_safe_def aligned_def sector_at_def split: sum.splits)
    note unr = gen_lba_read.simps [of E oth "fst x" "snd x" "length (snd x)" value_len replace ?lba g]
    show thesis
    proof (cases "nvm_readv E (get_store_device st) ?iov (gs_world gs)")
      case (Inl err)
      then have "gen_lba_read E oth (fst x) (snd x) (length (snd x)) value_len replace ?lba g = (Some (Inl err), g)"
        using unr g e(20) by simp
      then show thesis using fail [of err ?lba g] unf unp g Inr rd Inl gs(1) by (simp add: Let_def same_buffer_def)
    next
      case got: (Inr got)
      then have "got = s" using rd by simp
      have ls: "length s = 2 ^ k" using sized s(1) by (simp add: sectors_sized_def)
      define h where "h = g\<lparr>gs_buf := (gs_buf g)\<lparr>mb_mem := memcpy 0 s (mb_mem (gs_buf g))\<rparr>\<rparr>"
      have h: "gs_store h = st\<lparr>st_safe := S\<rparr>" "gs_insert_lba h = gs_insert_lba gs" "gs_world h = gs_world gs"
        "gs_trim_len h = 0" "same_buffer (gs_buf gs) (gs_buf h)" "take (2 ^ k) (mb_mem (gs_buf h)) = s"
        using g buf ls by (simp_all add: h_def same_buffer_def length_memcpy) (simp add: memcpy_def)
      note km = key_matches_sector [OF e(17) pl(2) h(6)]
      let ?t = "if gs_insert_lba gs then h else snd (gs_take_lba oth ?lba h)"
      have rd': "gen_lba_read E oth (fst x) (snd x) (length (snd x)) value_len replace ?lba g =
        (if replace then (None, gs_note_trim value_len (load_header s) ?t)
         else (Some (Inl NVM_ERR_OBJECT_EXISTS), h))"
        using unr g(1-3) e(20) got \<open>got = s\<close> km s(2) ls h(1-3) e(16) take [OF h(1)]
        by (simp add: Let_def h_def [symmetric] g(4) [symmetric] header_expired_def)
      show thesis
      proof (cases replace)
        case True
        let ?g = "gs_note_trim value_len (load_header s) ?t"
        have "address_taken st x (m x) value_len replace S gs ?lba ?g" "same_buffer (gs_buf gs) (gs_buf ?g)"
          "gs_insert_lba ?g"
          using True c len h take [OF h(1)] by (simp_all add: address_taken_def gs_note_trim_def same_buffer_def)
        then show thesis using found [of ?lba ?g] unf unp g Inr rd' True
          by (simp add: Let_def M_MAX_COLLISION_def)
      next
        case False
        then show thesis
          using fail [of NVM_ERR_OBJECT_EXISTS ?lba h] unf unp g Inr rd' c h gs(1) by (simp add: Let_def)
      qed
    qed
  qed
qed

lemma gen_lba_spec:
  fixes st :: nvm_kv_store and gs :: "'w gen_state"
  assumes env: "kv_env_ok E k j capacity view st" and spread: "keys_spread st capacity K" "x \<in> K"
    and rep: "kv_rep k st K (view (gs_world gs)) m" and gs: "gs_store gs = st" "\<not> gs_insert_lba gs"
    and buf: "2 ^ k \<le> length (mb_mem (gs_buf gs))"
  obtains (fail) err lba gs' where
    "kv_gen_lba E oth (fst x) (snd x) (length (snd x)) value_len replace None gs = (Inl err, lba, gs')"
    "gs_store gs' = st" "gs_world gs' = gs_world gs" "\<not> gs_insert_lba gs'" "same_buffer (gs_buf gs) (gs_buf gs')"
    "read_safe E k st 0 (gs_buf gs) \<Longrightarrow> err = NVM_ERR_OBJECT_EXISTS \<and> m x \<noteq> None \<and> \<not> replace"
  | (found) lba gs' where
    "kv_gen_lba E oth (fst x) (snd x) (length (snd x)) value_len replace None gs = (Inr (), lba, gs')"
    "same_buffer (gs_buf gs) (gs_buf gs')" "put_address_ok k st x (m x) value_len replace gs lba gs'"
proof -
  have s: "gs_store gs = st\<lparr>st_safe := {}\<rparr>" using gs(1) kv_env_dest(15) [OF env] by (cases st) simp
  show thesis
  proof (rule gen_lba_any [OF env spread rep s _ buf, where lbas = None and oth = oth and value_len = value_len
        and replace = replace])
    fix err lba gs'
    assume "kv_gen_lba E oth (fst x) (snd x) (length (snd x)) value_len replace None gs = (Inl err, lba, gs')"
      "gs_store gs' = gs_store gs" "gs_world gs' = gs_world gs" "gs_insert_lba gs' = gs_insert_lba gs"
      "same_buffer (gs_buf gs) (gs_buf gs')"
      "read_safe E k st 0 (gs_buf gs) \<Longrightarrow> err = NVM_ERR_OBJECT_EXISTS \<and> m x \<noteq> None \<and> \<not> replace"
    then show thesis using fail gs by simp
  next
    fix lba gs'
    assume "kv_gen_lba E oth (fst x) (snd x) (length (snd x)) value_len replace None gs = (Inr (), lba, gs')"
      "same_buffer (gs_buf gs) (gs_buf gs')" "address_taken st x (m x) value_len replace {} gs lba gs'"
    then show thesis using found gs(2) by (simp add: address_taken_def put_address_ok_def)
  qed simp_all
qed

section \<open>The put\<close>

definition new_cell :: "'w nvm_env \<Rightarrow> 'w \<Rightarrow> user_value \<Rightarrow> nat \<Rightarrow> u32 \<Rightarrow> u32 \<Rightarrow> kv_cell" where
  "new_cell E w uval value_len expiry gen_count =
     \<lparr>kc_value = mem_bytes (uv_mem uval) 0 value_len, kc_gen = gen_count,
      kc_expiry = (if expiry = 0 then 0 else expiry + of_nat (env_time E w))\<rparr>"

lemma mem_bytes_append: "mem_bytes mem off (m + n) = mem_bytes mem off m @ mem_bytes mem (off + m) n"
  by (rule nth_equalityI) (auto simp: mem_bytes_def nth_append)

lemma concat_mem_bytes: "concat (map (\<lambda>i. mem_bytes mem (i * s) s) [0..<n]) = mem_bytes mem 0 (n * s)"
proof (induction n)
  case 0
  then show ?case by (simp add: mem_bytes_def)
next
  case (Suc n)
  then show ?case using mem_bytes_append [of mem 0 "n * s" s] by (simp add: ac_simps)
qed

lemma take_mem_bytes: "n \<le> m \<Longrightarrow> take n (mem_bytes mem off m) = mem_bytes mem off n"
  by (simp add: mem_bytes_def take_map)

lemma put_sectors_outside: "n < first \<or> first + m \<le> n \<Longrightarrow> put_sectors V first m f n = V n"
  by (auto simp: put_sectors_def)

lemma put_sectors_inside: "i < m \<Longrightarrow> put_sectors V first m f (first + i) = Some (f i)"
  by (simp add: put_sectors_def)

lemma read_put_sectors:
  "read_sectors ss (put_sectors V first (Suc n) f) (Suc first) n = concat (map (\<lambda>i. f (Suc i)) [0..<n])"
proof -
  have "sector_at ss (put_sectors V first (Suc n) f) (Suc first + i) = f (Suc i)" if "i < n" for i
    using that by (simp add: sector_at_def put_sectors_def)
  then show ?thesis unfolding read_sectors_def by (intro arg_cong [of _ _ concat] map_cong) simp_all
qed

lemma plan_in_slot:
  assumes "9 \<le> k" "k \<le> 20" and "value_storable k key_len uval value_len"
  shows "plan_sectors k plan value_len \<le> 2 ^ (21 - k)"
  using value_in_slot [OF assms(2), of value_len] assms(3)
  by (simp add: plan_sectors_def value_storable_def)

lemma put_cell:
  fixes uval :: user_value
  assumes k: "9 \<le> k" "k \<le> 20" and key: "length (snd x) \<le> NVM_KV_MAX_KEY_SIZE"
    and val: "value_storable k (length (snd x)) uval value_len" and buf: "2 ^ k \<le> length mem"
  defines "plan \<equiv> plan_write (2 ^ k) (uv_addr uval) (length (snd x)) value_len"
  assumes hdr: "kv_header now (fst x) (length (snd x)) value_len plan expiry gen_count (load_header mem)"
    and kb: "mem_read M_KV_HEADER_SIZE (length (snd x)) mem = snd x"
    and inline: "\<not> wp_user plan \<longrightarrow> mem_read (wp_offset plan) value_len mem = mem_bytes (uv_mem uval) 0 value_len"
    and c: "c = \<lparr>kc_value = mem_bytes (uv_mem uval) 0 value_len, kc_gen = gen_count,
                kc_expiry = (if expiry = 0 then 0 else expiry + of_nat now)\<rparr>"
  shows "holds_cell k (put_sectors V a (plan_sectors k plan value_len) (plan_content k mem uval)) a x c"
proof -
  let ?V = "put_sectors V a (plan_sectors k plan value_len) (plan_content k mem uval)"
  note plan = plan_write_cases [OF k val key, folded plan_def]
  have vl: "value_len \<le> NVM_KV_MAX_VALUE_SIZE" using val by (simp add: value_storable_def)
  have fit: "M_KV_HEADER_SIZE + length (snd x) \<le> 2 ^ k" by (rule plan_key_fits [OF k(1) key])
  have Va: "?V a = Some (take (2 ^ k) mem)"
    using put_sectors_inside [of 0 _ V a] by (simp add: plan_sectors_def plan_content_def)
  have lh: "load_header (take (2 ^ k) mem) = load_header mem" using fit by (simp add: load_header_take)
  have km: "key_matches (take (2 ^ k) mem) (snd x) (length (snd x)) (fst x)"
    using hdr kb fit by (simp add: key_matches_take) (simp add: key_matches_def kv_header_def Let_def)
  have small: "wp_offset plan \<le> 2 ^ k" using plan fit by (simp split: if_splits)
  have "(2::nat) ^ k < 2 ^ 32" using pow2_le_20 [OF k(2)] by simp
  then have off: "unat (hdr_value_offset (load_header mem)) = wp_offset plan"
    using hdr small by (simp add: kv_header_def unat_of_nat_nowrap)
  have len: "unat (hdr_value_len (load_header mem)) = value_len"
    using hdr vl by (simp add: kv_header_def NVM_KV_MAX_VALUE_SIZE_def unat_of_nat_nowrap)
  have "mem_read (wp_offset plan) value_len (take (2 ^ k) mem) = mem_bytes (uv_mem uval) 0 value_len"
    if "wp_offset plan < 2 ^ k"
  proof -
    have "\<not> wp_user plan" "wp_offset plan + value_len \<le> 2 ^ k" using that plan by (simp_all split: if_splits)
    then show ?thesis using inline by (simp add: mem_read_take)
  qed
  then have hf: "header_fits k (take (2 ^ k) mem) (load_header mem) c"
    using hdr len off vl by (simp add: header_fits_def c kv_header_def)
  have "(\<forall>i < value_sectors k value_len. ?V (Suc a + i) \<noteq> None) \<and>
      take value_len (read_sectors (2 ^ k) ?V (Suc a) (value_sectors k value_len)) = mem_bytes (uv_mem uval) 0 value_len"
    if "\<not> wp_offset plan < 2 ^ k"
  proof -
    have user: "wp_user plan" using that plan fit val by (auto simp: value_storable_def split: if_splits)
    then have n: "plan_sectors k plan value_len = Suc (value_sectors k value_len)" by (simp add: plan_sectors_def)
    have "read_sectors (2 ^ k) ?V (Suc a) (value_sectors k value_len) =
        concat (map (\<lambda>i. mem_bytes (uv_mem uval) (i * 2 ^ k) (2 ^ k)) [0..<value_sectors k value_len])"
      unfolding n read_put_sectors by (simp add: plan_content_def)
    also have "\<dots> = mem_bytes (uv_mem uval) 0 (value_sectors k value_len * 2 ^ k)" by (rule concat_mem_bytes)
    finally show ?thesis
      using value_sectors_mult(2) [OF k(2) vl] unfolding n by (simp add: take_mem_bytes put_sectors_def)
  qed
  then show ?thesis using Va km lh hf off by (auto simp: holds_cell_def c)
qed

lemma put_sized:
  assumes "sectors_sized k V" and "2 ^ k \<le> length mem"
  shows "sectors_sized k (put_sectors V a n (plan_content k mem uval))"
  using assms by (auto simp: sectors_sized_def put_sectors_def plan_content_def)

definition keeps_size :: "nat \<Rightarrow> kv_cell option \<Rightarrow> nat \<Rightarrow> bool" where
  "keeps_size k entry value_len \<longleftrightarrow>
     (case entry of None \<Rightarrow> True | Some c \<Rightarrow> value_sectors k (length (kc_value c)) \<le> value_sectors k value_len)"

lemma no_trim:
  assumes k: "k \<le> 20" and size: "nvm_sector_size (dev_caps device) = 2 ^ k"
    and vl: "value_len \<le> NVM_KV_MAX_VALUE_SIZE"
    and old: "\<And>c. entry = Some c \<Longrightarrow> length (kc_value c) \<le> NVM_KV_MAX_VALUE_SIZE" and keep: "keeps_size k entry value_len"
    and t: "t = (case entry of None \<Rightarrow> 0 | Some c \<Rightarrow> if length (kc_value c) > value_len then length (kc_value c) else 0)"
  shows "kv_process_for_trim value_len t lba device = Inr [] \<or>
    (\<exists>e. kv_process_for_trim value_len t lba device = Inl e \<and> max_trim_size device < NVM_KV_MAX_VALUE_SIZE)"
proof (cases "t = 0")
  case True
  then show ?thesis by (simp add: kv_process_for_trim_def Let_def)
next
  case False
  then obtain c where c: "entry = Some c" "length (kc_value c) > value_len" "t = length (kc_value c)"
    using t by (auto split: option.splits if_splits)
  have max: "t \<le> NVM_KV_MAX_VALUE_SIZE" using old [OF c(1)] c(3) by simp
  have fits: "n + 2 ^ k \<le> 2 ^ 64" if "n \<le> NVM_KV_MAX_VALUE_SIZE" for n
    using that by (intro rnd_fits [OF k]) (simp add: NVM_KV_MAX_VALUE_SIZE_def)
  have "value_sectors k t \<le> value_sectors k value_len" using keep c by (simp add: keeps_size_def)
  then have "value_sectors k t * 2 ^ k \<le> value_sectors k value_len * 2 ^ k" by (rule mult_le_mono1)
  then have "rnd t (2 ^ k) \<le> rnd value_len (2 ^ k)"
    by (simp only: value_sectors_mult(1) [OF k max, symmetric] value_sectors_mult(1) [OF k vl, symmetric])
  moreover have "rnd value_len (2 ^ k) \<le> rnd t (2 ^ k)"
  proof (rule rnd_least)
    show "value_len \<le> rnd t (2 ^ k)" using rnd_bounds(1) [of k t] fits [OF max] k c(2,3) by simp
    show "2 ^ k dvd rnd t (2 ^ k)" using rnd_bounds(3) [of k t] fits [OF max] k by simp
  qed (use k fits [OF vl] in simp_all)
  ultimately have "sub32 (rnd t (2 ^ k)) (rnd value_len (2 ^ k)) = 0" by (simp add: sub32_def)
  then show ?thesis using False max size by (auto simp: kv_process_for_trim_def Let_def)
qed

definition put_safe :: "'w nvm_env \<Rightarrow> nat \<Rightarrow> nvm_kv_store \<Rightarrow> nat \<Rightarrow> user_value \<Rightarrow> nat \<Rightarrow> nvm_kv_buffer_pool \<Rightarrow> bool" where
  "put_safe E k st key_len uval value_len bufs \<longleftrightarrow>
     calls_succeed E k st bufs \<and> NVM_KV_MAX_VALUE_SIZE \<le> max_trim_size (get_store_device st) \<and>
     plan_iovs (get_store_device st) (plan_write (2 ^ k) (uv_addr uval) key_len value_len)
       \<le> nvm_max_num_iovs (dev_caps (get_store_device st))"

definition put_done ::
  "'w nvm_env \<Rightarrow> nat \<Rightarrow> nvm_kv_store \<Rightarrow> kv_key set \<Rightarrow> ('w \<Rightarrow> sectors) \<Rightarrow> kv_map \<Rightarrow> kv_key \<Rightarrow> kv_cell \<Rightarrow> bool \<Rightarrow> bool \<Rightarrow>
   nat \<Rightarrow> 'w \<Rightarrow> nat res \<Rightarrow> 'w \<Rightarrow> bool" where
  "put_done E k st K view m x c replace safe value_len w r w' \<longleftrightarrow>
     (case r of
        Inr n \<Rightarrow> n = value_len \<and> (m x = None \<or> replace) \<and> kv_rep k st K (view w') (m(x \<mapsto> c))
      | Inl e \<Rightarrow> view w' = view w \<and> (safe \<longrightarrow> e = NVM_ERR_OBJECT_EXISTS \<and> m x \<noteq> None \<and> \<not> replace))"

lemma put_write_spec:
  fixes st :: nvm_kv_store and gs :: "'w gen_state" and uval :: user_value and expiry gen_count :: u32
  assumes env: "kv_env_ok E k j capacity view st" and spread: "keys_spread st capacity K" "x \<in> K"
    and rep: "kv_rep k st K (view w) m"
    and val: "value_storable k (length (snd x)) uval value_len" and keep: "keeps_size k (m x) value_len"
    and buf: "2 ^ k \<le> length (mb_mem (gs_buf gs))" and w: "gs_world gs0 = w"
    and addr: "put_address_ok k st x (m x) value_len replace gs0 lba gs"
  defines "plan \<equiv> plan_write (2 ^ k) (uv_addr uval) (length (snd x)) value_len"
  assumes iovs: "plan_iovs (get_store_device st) plan \<le> nvm_max_num_iovs (dev_caps (get_store_device st))"
  obtains r gs' where
    "put_write E (fst x) (snd x) (length (snd x)) uval value_len expiry gen_count plan
       (plan_iovs (get_store_device st) plan) lba ctx gs = Some (r, gs')"
    "gs_store gs' = st\<lparr>st_safe := {lba}\<rparr>" "gs_insert_lba gs'" "same_buffer (gs_buf gs) (gs_buf gs')"
    "case r of Inr _ \<Rightarrow> kv_rep k st K (view (gs_world gs')) (m(x \<mapsto> new_cell E w uval value_len expiry gen_count))
     | Inl e \<Rightarrow> view (gs_world gs') = view w \<and>
         (batches_succeed E st \<longrightarrow> max_trim_size (get_store_device st) < NVM_KV_MAX_VALUE_SIZE)"
proof -
  note e = kv_env_dest [OF env] and pl = key_placedD [OF spread]
  let ?dev = "get_store_device st"
  have gs: "lba = key_lba st x" "gs_world gs = w" "gs_store gs = st\<lparr>st_safe := {lba}\<rparr>" "gs_insert_lba gs"
    "gs_trim_len gs = (case m x of None \<Rightarrow> 0 | Some c \<Rightarrow> if length (kc_value c) > value_len then length (kc_value c) else 0)"
    using addr w by (simp_all add: put_address_ok_def)
  have dev: "get_store_device (gs_store gs) = ?dev" "get_expiry (gs_store gs) = KV_DISABLE_EXPIRY"
    using gs(3) e(16) by (simp_all add: get_store_device_def get_expiry_def get_store_metadata_def)
  have sized: "sectors_sized k (view w)" using rep by (simp add: kv_rep_def)
  have vl: "value_len \<le> NVM_KV_MAX_VALUE_SIZE" using val by (simp add: value_storable_def)
  have "cell_at st k (view w) x (m x)" using rep spread(2) by (simp add: kv_rep_def)
  then have old: "length (kc_value c) \<le> NVM_KV_MAX_VALUE_SIZE" if "m x = Some c" for c
    using that by (auto simp: cell_at_def holds_cell_def header_fits_def split: option.splits)
  have trim: "kv_process_for_trim value_len (gs_trim_len gs) lba ?dev = Inr [] \<or>
    (\<exists>e. kv_process_for_trim value_len (gs_trim_len gs) lba ?dev = Inl e \<and> max_trim_size ?dev < NVM_KV_MAX_VALUE_SIZE)"
    using no_trim [OF e(18,19) vl old keep gs(5)] .
  obtain iovec where new: "env_new_iovs E w (nvm_max_num_iovs (dev_caps ?dev)) = Some iovec"
    "length iovec = nvm_max_num_iovs (dev_caps ?dev)"
    using e(4) unfolding alloc_law_def by blast
  have slot: "plan_sectors k plan value_len \<le> search_range st" using plan_in_slot [OF e(17,18) val] e(10) by simp
  then have fit: "unat lba + plan_sectors k plan value_len < 2 ^ 64" using pl(3) e(9) gs(1) by simp
  obtain writes mem exp where wr:
    "kv_process_for_write E ?dev (fst x) (snd x) (length (snd x)) uval value_len (gs_buf gs) plan expiry gen_count lba w =
       Some (writes, (gs_buf gs)\<lparr>mb_mem := mem\<rparr>, exp)"
    "length writes = plan_iovs ?dev plan"
    "iovs_store (2 ^ k) writes (unat lba) (plan_sectors k plan value_len) (plan_content k mem uval)"
    "length mem = length (mb_mem (gs_buf gs))"
    "kv_header (env_time E w) (fst x) (length (snd x)) value_len plan expiry gen_count (load_header mem)"
    "mem_read M_KV_HEADER_SIZE (length (snd x)) mem = snd x"
    "\<not> wp_user plan \<longrightarrow> mem_read (wp_offset plan) value_len mem = mem_bytes (uv_mem uval) 0 value_len"
    using process_write_spec [OF e(7) refl pl(2) val buf fit [unfolded plan_def], where E = E and w = w,
        folded plan_def] by metis
  define gs1 where "gs1 = gs\<lparr>gs_buf := (gs_buf gs)\<lparr>mb_mem := mem\<rparr>\<rparr>"
  have buf1: "same_buffer (gs_buf gs) (gs_buf gs1)" using wr(4) by (simp add: gs1_def same_buffer_def)
  have pe: "put_expiry (gs_store gs) expiry = expiry"
    using dev(2) by (simp add: put_expiry_def KV_DISABLE_EXPIRY_def KV_GLOBAL_EXPIRY_def)
  have takes: "take (plan_iovs ?dev plan) (put_iovs 0 ([] @ writes) iovec) = writes"
    using put_iovs_all [of writes iovec] wr(2) iovs new(2) by simp
  note unf = put_write_def [of E "fst x" "snd x" "length (snd x)" uval value_len expiry gen_count plan
      "plan_iovs ?dev plan" lba ctx gs, unfolded Let_def dev(1) gs(2) new(1) option.case pe wr(1) prod.case]
  show thesis
  proof (cases "kv_process_for_trim value_len (gs_trim_len gs) lba ?dev")
    case (Inl err)
    then have "put_write E (fst x) (snd x) (length (snd x)) uval value_len expiry gen_count plan
       (plan_iovs ?dev plan) lba ctx gs = Some (Inl err, gs)" using unf by simp
    then show thesis using that gs trim Inl by (simp add: same_buffer_def)
  next
    case (Inr trims)
    then have "trims = []" using trim by simp
    obtain x' w' where nw: "nvm_writev E ?dev (put_iovs 0 ([] @ writes) iovec) (plan_iovs ?dev plan) True w = (x', w')"
      by force
    note unf' = unf [unfolded Inr sum.case \<open>trims = []\<close> nw prod.case]
    show thesis
    proof (cases x')
      case (Inl err)
      then have "put_write E (fst x) (snd x) (length (snd x)) uval value_len expiry gen_count plan
       (plan_iovs ?dev plan) lba ctx gs = Some (Inl err, gs1\<lparr>gs_world := w'\<rparr>)" using unf' by (simp add: gs1_def)
      moreover have "view w' = view w" using nvm_writev_atomic_fail [OF e(3)] nw Inl by simp
      moreover have "\<not> batches_succeed E st"
      proof
        assume b: "batches_succeed E st"
        obtain rc w'' where "env_batch_atomic E (dev_handle ?dev) (take (plan_iovs ?dev plan) (put_iovs 0 ([] @ writes) iovec)) w = (rc, w'')" by force
        moreover from this have "rc = 0" using b unfolding batches_succeed_def by (metis fst_conv)
        ultimately show False using nw Inl by (simp add: nvm_writev_def Let_def)
      qed
      ultimately show thesis using that [of "Inl err" "gs1\<lparr>gs_world := w'\<rparr>"] gs buf1
        by (simp add: gs1_def)
    next
      case ok: (Inr n)
      have st': "(gs_store gs)\<lparr>st_cache := map_option f (st_cache (gs_store gs))\<rparr> = gs_store gs" for f
        using gs(3) e(14) by (cases st) simp
      let ?gs' = "gs1\<lparr>gs_store := gs_store gs, gs_world := w'\<rparr>"
      have ret: "put_write E (fst x) (snd x) (length (snd x)) uval value_len expiry gen_count plan
         (plan_iovs ?dev plan) lba ctx gs = Some (Inr (), ?gs')"
        using unf' ok st' by (simp add: gs1_def)
      have "disjoint_iovs (2 ^ k) writes" using wr(3) by (simp add: iovs_store_def)
      then have "view w' = foldl (apply_iov (2 ^ k)) (view w) writes"
        using nvm_writev_atomic_ok [OF e(3), of "put_iovs 0 ([] @ writes) iovec" "plan_iovs ?dev plan" w n w'] nw ok takes e(19)
        by simp
      then have V: "view w' = put_sectors (view w) (unat lba) (plan_sectors k plan value_len) (plan_content k mem uval)"
        using wr(3) by (simp add: iovs_store_def)
      have "kv_rep k st K (view w') (m(x \<mapsto> new_cell E w uval value_len expiry gen_count))"
      proof (rule kv_rep_change [OF rep spread(1) env spread(2)])
        have lm: "2 ^ k \<le> length mem" using buf wr(4) by simp
        then show "sectors_sized k (view w')" unfolding V by (rule put_sized [OF sized])
        show "view w' i = view w i" if "i \<notin> key_slot st x" for i
          unfolding V using that slot gs(1) by (intro put_sectors_outside) (auto simp: key_slot_def)
        show "cell_at st k (view w') x (Some (new_cell E w uval value_len expiry gen_count))"
          using put_cell [OF e(17,18) pl(2) val lm _ wr(6) _ new_cell_def, folded plan_def, OF wr(5,7)]
          by (simp add: cell_at_def V gs(1))
      qed
      then show thesis using that [OF ret] gs buf1 by (simp add: gs1_def)
    qed
  qed
qed

lemma put_store_spec:
  fixes st :: nvm_kv_store and uval :: user_value and expiry gen_count :: u32
  assumes env: "kv_env_ok E k j capacity view st" and spread: "keys_spread st capacity K" "x \<in> K"
    and rep: "kv_rep k st K (view w) m" and bufs: "bufs_ready bufs"
    and val: "value_storable k (length (snd x)) uval value_len" and keep: "keeps_size k (m x) value_len"
  obtains r bufs' w' where
    "put_store E oth (fst x) (snd x) (length (snd x)) uval value_len expiry replace gen_count bufs st w =
       Some (r, bufs', st, w')"
    "bufs_ready bufs'" "bufs_aligned E k bufs \<Longrightarrow> bufs_aligned E k bufs'"
    "put_done E k st K view m x (new_cell E w uval value_len expiry gen_count) replace
       (put_safe E k st (length (snd x)) uval value_len bufs) value_len w r w'"
proof -
  note e = kv_env_dest [OF env] and pl = key_placedD [OF spread]
  let ?dev = "get_store_device st" and ?c = "new_cell E w uval value_len expiry gen_count"
  let ?safe = "put_safe E k st (length (snd x)) uval value_len bufs"
  define plan where "plan = plan_write (2 ^ k) (uv_addr uval) (length (snd x)) value_len"
  have buf_len: "wp_buf_len plan = 2 ^ k"
    using plan_write_cases [OF e(17,18) val pl(2), folded plan_def] by simp
  have "max_write_size ?dev = 2 ^ j" using e(7) by (simp add: write_dev_ok_def)
  then have mws: "max_write_size ?dev \<noteq> 0" by simp
  have pcl: "put_cache_lookup E oth (fst x) (snd x) (length (snd x)) replace st w = (Inr (), empty_context, False, st, w)"
    using e(14) by (simp add: put_cache_lookup_def)
  note alloc = kv_alloc_for_write_def [of E ?dev "length (snd x)" "uv_addr uval" value_len bufs w,
      unfolded Let_def e(19) plan_def [symmetric] buf_len]
  note unf = put_store_def [of E oth "fst x" "snd x" "length (snd x)" uval value_len expiry replace gen_count bufs st w,
      unfolded pcl prod.case sum.case]
  show thesis
  proof (cases "plan_iovs ?dev plan > nvm_max_num_iovs (dev_caps ?dev)")
    case True
    then have "put_store E oth (fst x) (snd x) (length (snd x)) uval value_len expiry replace gen_count bufs st w =
      Some (Inl NVM_ERR_INVALID_INPUT, bufs, st, w)"
      using unf alloc mws by (simp add: put_exit_def release_if_def)
    then show thesis using that [OF _ bufs] True by (simp add: put_done_def put_safe_def plan_def)
  next
    case False
    then have iovs: "plan_iovs ?dev plan \<le> nvm_max_num_iovs (dev_caps ?dev)" by simp
    have pos: "0 < (2::nat) ^ k" by simp
    show thesis
    proof (rule get_buf_ready [OF e(4) bufs pos, where w = w and k = k])
      fix bufs'
      assume "get_buf (env_memalign E w) (2 ^ k) bufs = Some (None, 0, bufs')" "bufs' = bufs" "\<not> bufs_aligned E k bufs"
      moreover from this have "put_store E oth (fst x) (snd x) (length (snd x)) uval value_len expiry replace gen_count bufs st w =
        Some (Inl NVM_ERR_OUT_OF_MEMORY, bufs, st, w)"
        using unf alloc mws False by (simp add: put_exit_def release_if_def)
      ultimately show thesis using that [OF _ bufs] by (simp add: put_done_def put_safe_def calls_succeed_def)
    next
      fix mb r bufs'
      assume buf: "get_buf (env_memalign E w) (2 ^ k) bufs = Some (Some mb, r, bufs')" "2 ^ k \<le> r"
        "length (mb_mem mb) = r" "bp_wf bufs'" "bufs_aligned E k bufs \<Longrightarrow> aligned k (mb_addr mb) \<and> bufs_aligned E k bufs'"
      have al: "kv_alloc_for_write E ?dev (length (snd x)) (uv_addr uval) value_len bufs w =
          Some (Inr (), Some mb, r, plan_iovs ?dev plan, plan, bufs')"
        using alloc mws False buf(1,2) by simp
      have rel: "bufs_ready (release_if True (Some mb') r bufs')"
        "bufs_aligned E k bufs \<Longrightarrow> bufs_aligned E k (release_if True (Some mb') r bufs')" if "same_buffer mb mb'" for mb'
        using that buf(3,4,5) release_ready(1) [of bufs' mb' r] release_ready(2) [of bufs' mb' r E k]
        by (simp_all add: same_buffer_def)
      have r0: "r \<noteq> 0" using buf(2) pos by linarith
      define gs where "gs = \<lparr>gs_buf = mb, gs_trim_len = 0, gs_insert_lba = False, gs_store = st, gs_world = w\<rparr>"
      have gs: "gs_store gs = st" "\<not> gs_insert_lba gs" "2 ^ k \<le> length (mb_mem (gs_buf gs))" "gs_world gs = w"
        "gs_buf gs = mb"
        using buf(2,3) by (simp_all add: gs_def)
      have rep': "kv_rep k st K (view (gs_world gs)) m" using rep gs(4) by simp
      note unf' = unf [unfolded al option.case prod.case sum.case put_address_def if_False simp_thms option.sel gs_def [symmetric]]
      show thesis
      proof (rule gen_lba_spec [OF env spread rep' gs(1-3), where oth = oth and value_len = value_len and replace = replace])
        fix err lba gs'
        assume g: "kv_gen_lba E oth (fst x) (snd x) (length (snd x)) value_len replace None gs = (Inl err, lba, gs')"
          "gs_store gs' = st" "gs_world gs' = gs_world gs" "\<not> gs_insert_lba gs'" "same_buffer (gs_buf gs) (gs_buf gs')"
          "read_safe E k st 0 (gs_buf gs) \<Longrightarrow> err = NVM_ERR_OBJECT_EXISTS \<and> m x \<noteq> None \<and> \<not> replace"
        have "put_store E oth (fst x) (snd x) (length (snd x)) uval value_len expiry replace gen_count bufs st w =
          Some (Inl err, release_if True (Some (gs_buf gs')) r bufs', st, w)"
          using unf' g(1-4) gs(4) r0 by (simp add: put_exit_def)
        moreover have "?safe \<longrightarrow> read_safe E k st 0 (gs_buf gs)"
          using buf(5) gs(5) by (simp add: put_safe_def calls_succeed_def read_safe_def)
        ultimately show thesis using that rel [of "gs_buf gs'"] g(5,6) gs(5) by (simp add: put_done_def)
      next
        fix lba gs'
        assume g: "kv_gen_lba E oth (fst x) (snd x) (length (snd x)) value_len replace None gs = (Inr (), lba, gs')"
          "same_buffer (gs_buf gs) (gs_buf gs')" "put_address_ok k st x (m x) value_len replace gs lba gs'"
        have lm: "2 ^ k \<le> length (mb_mem (gs_buf gs'))" using g(2) gs(3) by (simp add: same_buffer_def)
        obtain r' gs'' where pw:
          "put_write E (fst x) (snd x) (length (snd x)) uval value_len expiry gen_count plan
             (plan_iovs ?dev plan) lba empty_context gs' = Some (r', gs'')"
          "gs_store gs'' = st\<lparr>st_safe := {lba}\<rparr>" "gs_insert_lba gs''" "same_buffer (gs_buf gs') (gs_buf gs'')"
          "case r' of Inr _ \<Rightarrow> kv_rep k st K (view (gs_world gs'')) (m(x \<mapsto> ?c))
           | Inl e \<Rightarrow> view (gs_world gs'') = view w \<and>
               (batches_succeed E st \<longrightarrow> max_trim_size ?dev < NVM_KV_MAX_VALUE_SIZE)"
          using put_write_spec [OF env spread rep val keep lm gs(4) g(3) iovs [unfolded plan_def], folded plan_def]
          by metis
        have free: "delete_lba_from_safe_list lba (st\<lparr>st_safe := {lba}\<rparr>) = st"
          using delete_lba_inserted [of lba "{}" st] e(15) by simp
        have "put_store E oth (fst x) (snd x) (length (snd x)) uval value_len expiry replace gen_count bufs st w =
          Some (case r' of Inl e \<Rightarrow> Inl e | Inr _ \<Rightarrow> Inr value_len,
                release_if True (Some (gs_buf gs'')) r bufs', st, gs_world gs'')"
          using unf' g(1) pw(1-3) r0 free by (simp add: put_exit_def)
        moreover have "same_buffer mb (gs_buf gs'')"
          using g(2) pw(4) gs(5) by (simp add: same_buffer_def)
        ultimately show thesis
          using that rel [of "gs_buf gs''"] pw(5) g(3)
          by (cases r') (auto simp: put_done_def put_safe_def calls_succeed_def put_address_ok_def)
      qed
    qed
  qed
qed

end
