(* ===== verification/KvSpec.thy ===== *)
theory KvSpec
  imports KvMap
begin

text \<open>
  The manager's put, get and delete as operations on a map, and the histories of such calls. The
  first section computes the addresses of a key on the simulated store, so that the contracts have
  an instance; the locale \<open>call_refinement\<close> states the contract of one call and is interpreted
  on the calls of the model; the properties are the three refinements, the sequential reading of
  every history, and the equivalence of exact and plain reads.
\<close>

section \<open>Keys on the simulated store\<close>

lemmas address_defs =
  key_lba_def probe_lba_def next_key_lba_def resolve_coll_def sequential_probe_def key_base_def
  pool_hash_of_def get_poolid_hash_def key_hash_def hash_initialize_def hash_new_def fold_hash_def
  fnv1a_def fnv_step_def M_FNV_BASIS_def M_FNV_PRIME_def M_TINY_HASH_LEN_def Let_def

lemmas sim_store_defs = sim_store_def sim_pm_def demo_pm_def demo_metadata_def get_hash_func_def get_layout_def

definition sim_key :: kv_key where
  "sim_key = (0, [7])"

lemma sim_layout: "get_key_bits demo_layout = 36" "get_val_bits demo_layout = 12"
  "unat (get_max_search_range demo_layout) = 4096"
  using layout_new_values [of 9 "\<lparr>m_inUseBMLba = 0, m_delBMLba = 2, m_poolTagsLba = 0, m_kvUserDataStartLba = 0,
      m_sectorSize = 0, m_sectBits = 0, m_valueBits = 0, m_keyBits = 0, m_maxValueSize = 0,
      m_poolBits = 0, m_kv_len = 0, m_mdRecs = 0\<rparr>" 48]
  by (simp_all add: get_key_bits_def get_val_bits_def demo_layout_def set_md_rec_def get_max_search_range_def)

lemma sim_addresses:
  "key_lba sim_store sim_key = 220793406889984"
  "probe_lba sim_store sim_key 1 = 66447618048" "probe_lba sim_store sim_key 2 = 66447622144"
  "probe_lba sim_store sim_key 3 = 66447626240" "probe_lba sim_store sim_key 4 = 66447630336"
  "probe_lba sim_store sim_key 5 = 66447634432" "probe_lba sim_store sim_key 6 = 66447638528"
  "probe_lba sim_store sim_key 7 = 66447642624"
  by (simp_all add: address_defs sim_store_defs sim_layout sim_key_def)

lemma sim_search_range: "search_range sim_store = 4096"
  by (simp add: search_range_def sim_store_defs sim_layout)

lemma upt_1_8: "{1..<8::nat} = {1, 2, 3, 4, 5, 6, 7}"
  by auto

lemma sim_spread: "keys_spread sim_store (2 ^ 60) {sim_key}"
proof -
  have "snd sim_key \<noteq> []" "length (snd sim_key) \<le> NVM_KV_MAX_KEY_SIZE"
    by (simp_all add: sim_key_def NVM_KV_MAX_KEY_SIZE_def)
  then show ?thesis
    by (simp add: keys_spread_def key_placed_def upt_1_8 key_slot_def sim_search_range sim_addresses
        del: One_nat_def)
qed

lemma sim_expiry: "get_expiry sim_store = KV_DISABLE_EXPIRY"
  by (simp add: get_expiry_def get_store_metadata_def sim_store_defs KV_DISABLE_EXPIRY_def)

lemma sim_kv_env: "kv_env_ok sim_env 9 10 (2 ^ 60) (\<lambda>w. w) sim_store"
proof -
  have "write_dev_ok 9 10 sim_device" by (simp add: write_dev_ok_def max_write_size_def sim_device_def sim_caps_def)
  moreover have "2 ^ 21 \<le> nvm_max_num_iovs (dev_caps sim_device) * max_trim_size sim_device"
    by (simp add: max_trim_size_def sim_device_def sim_caps_def)
  moreover have "2 \<le> nvm_max_num_iovs (dev_caps sim_device)" by (simp add: sim_device_def sim_caps_def)
  ultimately show ?thesis
    using sim_laws sim_status sim_range_law sim_trim_ok sim_search_range sim_expiry
    by (simp add: kv_env_ok_def Let_def) (simp add: sim_store_def)
qed

lemma sim_empty_rep: "kv_rep 9 sim_store {sim_key} (\<lambda>n. None) (\<lambda>x. None)"
  by (simp add: kv_rep_def sectors_sized_def cell_at_def)

definition sim_bufs :: nvm_kv_buffer_pool where
  "sim_bufs =
     \<lparr>m_buffers = [Some \<lparr>mb_addr = 4096, mb_mem = zeros 4096\<rparr>], m_buffer_sizes = [4096], m_num_buffers = 1,
      m_buffer_limit = 4096, m_buffer_alignment = 4096, m_initialized = True\<rparr>"

definition sim_mgr :: nvm_kv_store_mgr where
  "sim_mgr = \<lparr>mg_bufs = sim_bufs, mg_map = [1 \<mapsto> sim_store]\<rparr>"

lemma sim_bufs_ready: "bufs_ready sim_bufs"
  by (simp add: bufs_ready_def sim_bufs_def bp_wf_def buf_ok_def)

lemma sim_calls_succeed: "calls_succeed sim_env 9 sim_store sim_bufs"
proof -
  have "ranges_known sim_env sim_store"
    by (simp add: ranges_known_def sim_env_def split: list.split)
  moreover have "batches_succeed sim_env sim_store" by (simp add: batches_succeed_def sim_env_def)
  moreover have "bufs_aligned sim_env 9 sim_bufs"
    by (simp add: bufs_aligned_def sim_bufs_def sim_env_def aligned_def)
  ultimately show ?thesis by (simp add: calls_succeed_def)
qed

section \<open>The calls of the manager\<close>

definition kv_mgr_rep ::
  "nat \<Rightarrow> ('w \<Rightarrow> sectors) \<Rightarrow> nvm_kv_store \<Rightarrow> kv_key set \<Rightarrow> int \<Rightarrow> nvm_kv_store_mgr \<Rightarrow> 'w \<Rightarrow> kv_map \<Rightarrow> bool" where
  "kv_mgr_rep k view st K kv_id mg w m \<longleftrightarrow>
     mg_map mg kv_id = Some st \<and> bufs_ready (mg_bufs mg) \<and> kv_rep k st K (view w) m"

definition pool_ready :: "kv_key \<Rightarrow> nvm_kv_store \<Rightarrow> bool" where
  "pool_ready x st \<longleftrightarrow> check_pool_status (uint (fst x)) (st_pm st) = POOL_IN_USE"

lemma and_mask_dvd: "(n::nat) AND (2 ^ k - 1) = 0 \<Longrightarrow> 2 ^ k dvd n"
proof -
  assume "n AND (2 ^ k - 1) = 0"
  then have "take_bit k n = 0" by (simp add: take_bit_eq_mask mask_eq_exp_minus_1)
  then show ?thesis by (simp add: take_bit_eq_0_iff)
qed

lemma key_valid:
  assumes "keys_spread st capacity K" and "x \<in> K"
  shows "validate_key (Some (snd x)) (length (snd x))"
  using key_placedD(1,2) [OF assms] by (simp add: validate_key_def)

lemma pool_valid: "pool_ready x st \<Longrightarrow> api \<in> {KVPUT, KVGET, KVDELETE} \<Longrightarrow> validate_pool api (uint (fst x)) st"
  by (auto simp: pool_ready_def validate_pool_def)

definition kv_put_key ::
  "'w nvm_env \<Rightarrow> 'w others \<Rightarrow> int \<Rightarrow> kv_key \<Rightarrow> user_value \<Rightarrow> nat \<Rightarrow> u32 \<Rightarrow> bool \<Rightarrow> u32 \<Rightarrow> nvm_kv_store_mgr \<Rightarrow> 'w \<Rightarrow>
   (nat res \<times> nvm_kv_store_mgr \<times> 'w) option" where
  "kv_put_key E oth kv_id x uval value_len expiry replace gen_count mg w =
     kv_put E oth kv_id (uint (fst x)) (Some (snd x)) (length (snd x)) (Some uval) value_len expiry replace
       gen_count mg w"

definition kv_get_key ::
  "'w nvm_env \<Rightarrow> int \<Rightarrow> kv_key \<Rightarrow> u64 \<Rightarrow> bytes \<Rightarrow> nat \<Rightarrow> bool \<Rightarrow> nvm_kv_key_info \<Rightarrow> nvm_kv_store_mgr \<Rightarrow> 'w \<Rightarrow>
   (kv_get_out res \<times> nvm_kv_store_mgr \<times> 'w) option" where
  "kv_get_key E kv_id x va got value_len read_exact info mg w =
     kv_get E kv_id (uint (fst x)) (Some (snd x)) (length (snd x)) (Some (va, got)) value_len read_exact
       (Some info) mg w"

definition kv_delete_key ::
  "'w nvm_env \<Rightarrow> 'w others \<Rightarrow> int \<Rightarrow> kv_key \<Rightarrow> nvm_kv_store_mgr \<Rightarrow> 'w \<Rightarrow>
   (unit res \<times> nvm_kv_store_mgr \<times> 'w) option" where
  "kv_delete_key E oth kv_id x mg w =
     kv_delete E oth kv_id (uint (fst x)) (Some (snd x)) (length (snd x)) mg w"

definition mgr_put_done ::
  "'w nvm_env \<Rightarrow> nat \<Rightarrow> nvm_kv_store \<Rightarrow> kv_key \<Rightarrow> user_value \<Rightarrow> nat \<Rightarrow> bool \<Rightarrow> nvm_kv_store_mgr \<Rightarrow> kv_cell \<Rightarrow> kv_map \<Rightarrow>
   nat res \<Rightarrow> kv_map \<Rightarrow> bool" where
  "mgr_put_done E k st x uval value_len replace mg c m r m' \<longleftrightarrow>
     (case r of
        Inr n \<Rightarrow> n = value_len \<and> (m x = None \<or> replace) \<and> m' = m(x \<mapsto> c)
      | Inl e \<Rightarrow> m' = m \<and>
          (pool_ready x st \<and> 0 < value_len \<and> value_len \<le> NVM_KV_MAX_VALUE_SIZE \<and>
           put_safe E k st (length (snd x)) uval value_len (mg_bufs mg) \<longrightarrow>
           e = NVM_ERR_OBJECT_EXISTS \<and> m x \<noteq> None \<and> \<not> replace))"

definition value_placed :: "nat \<Rightarrow> kv_key \<Rightarrow> user_value \<Rightarrow> nat \<Rightarrow> bool" where
  "value_placed k x uval value_len \<longleftrightarrow>
     M_KV_HEADER_SIZE + length (snd x) + value_len \<le> 2 ^ k \<or> aligned k (uv_addr uval)"

lemma kv_put_step:
  fixes mg :: nvm_kv_store_mgr
  assumes env: "kv_env_ok E k j capacity view st" and spread: "keys_spread st capacity K" "x \<in> K"
    and rep: "kv_mgr_rep k view st K kv_id mg w m"
    and placed: "value_placed k x uval value_len" and keep: "keeps_size k (m x) value_len"
  obtains r mg' w' m' where
    "kv_put_key E oth kv_id x uval value_len expiry replace gen_count mg w = Some (r, mg', w')"
    "kv_mgr_rep k view st K kv_id mg' w' m'"
    "calls_succeed E k st (mg_bufs mg) \<Longrightarrow> calls_succeed E k st (mg_bufs mg')"
    "mgr_put_done E k st x uval value_len replace mg (new_cell E w uval value_len expiry gen_count) m r m'"
proof -
  have mg: "mg_map mg kv_id = Some st" "bufs_ready (mg_bufs mg)" "kv_rep k st K (view w) m"
    using rep by (simp_all add: kv_mgr_rep_def)
  have same: "(mg_map mg)(kv_id \<mapsto> st) = mg_map mg" using mg(1) by auto
  show thesis
  proof (cases "validate_pool KVPUT (uint (fst x)) st \<and> validate_value KVPUT False value_len st")
    case False
    then have "kv_put_key E oth kv_id x uval value_len expiry replace gen_count mg w =
        Some (Inl NVM_ERR_INVALID_INPUT, mg, w)"
      using mg(1) same by (auto simp: kv_put_key_def kv_put_def on_store_def)
    moreover have "\<not> (pool_ready x st \<and> 0 < value_len \<and> value_len \<le> NVM_KV_MAX_VALUE_SIZE)"
      using False pool_valid [of x st KVPUT] by (auto simp: validate_value_def)
    ultimately show thesis using that rep by (auto simp: mgr_put_done_def)
  next
    case True
    then have "value_storable k (length (snd x)) uval value_len"
      using placed by (auto simp: validate_value_def value_storable_def value_placed_def aligned_def)
    then obtain r bufs' w' where put:
      "put_store E oth (fst x) (snd x) (length (snd x)) uval value_len expiry replace gen_count (mg_bufs mg) st w =
       Some (r, bufs', st, w')" "bufs_ready bufs'"
      "put_done E k st K view m x (new_cell E w uval value_len expiry gen_count) replace
       (put_safe E k st (length (snd x)) uval value_len (mg_bufs mg)) value_len w r w'"
      "bufs_aligned E k (mg_bufs mg) \<longrightarrow> bufs_aligned E k bufs'"
      using put_store_spec [OF env spread mg(3,2) _ keep] by metis
    have call: "kv_put_key E oth kv_id x uval value_len expiry replace gen_count mg w =
        Some (r, mg\<lparr>mg_bufs := bufs'\<rparr>, w')"
      using True put(1) mg(1) same key_valid [OF spread] by (simp add: kv_put_key_def kv_put_def on_store_def)
    show thesis
    proof (cases r)
      case (Inl e)
      then show thesis using that [OF call, of m] put(2-4) mg
        by (simp add: put_done_def mgr_put_done_def kv_mgr_rep_def calls_succeed_def)
    next
      case (Inr n)
      then show thesis
        using that [OF call, of "m(x \<mapsto> new_cell E w uval value_len expiry gen_count)"] put(2-4) mg
        by (simp add: put_done_def mgr_put_done_def kv_mgr_rep_def calls_succeed_def)
    qed
  qed
qed

lemma kv_get_step:
  fixes mg :: nvm_kv_store_mgr and read_exact :: bool and va :: u64
  assumes env: "kv_env_ok E k j capacity view st" and spread: "keys_spread st capacity K" "x \<in> K"
    and rep: "kv_mgr_rep k view st K kv_id mg w m"
  obtains r mg' where
    "kv_get_key E kv_id x va got value_len read_exact info mg w = Some (r, mg', w)"
    "kv_mgr_rep k view st K kv_id mg' w m"
    "calls_succeed E k st (mg_bufs mg) \<Longrightarrow> calls_succeed E k st (mg_bufs mg')"
    "lookup_done (pool_ready x st \<and> 0 < value_len \<and> value_len \<le> NVM_KV_MAX_VALUE_SIZE \<and> 2 ^ k dvd value_len \<and>
       aligned k va \<and> calls_succeed E k st (mg_bufs mg)) (m x) (got_cell value_len) r"
proof -
  note e = kv_env_dest [OF env]
  have mg: "mg_map mg kv_id = Some st" "bufs_ready (mg_bufs mg)" "kv_rep k st K (view w) m"
    using rep by (simp_all add: kv_mgr_rep_def)
  have same: "(mg_map mg)(kv_id \<mapsto> st) = mg_map mg" using mg(1) by auto
  show thesis
  proof (cases "validate_pool KVGET (uint (fst x)) st \<and> validate_value KVGET False value_len st")
    case False
    have "kv_get_key E kv_id x va got value_len read_exact info mg w = Some (Inl NVM_ERR_INVALID_INPUT, mg, w)"
      using False mg(1) same by (auto simp: kv_get_key_def kv_get_def on_store_def)
    moreover have "value_len AND (2 ^ k - 1) = 0" if "2 ^ k dvd value_len"
      using that by (simp add: take_bit_eq_0_iff [symmetric] take_bit_eq_mask mask_eq_exp_minus_1)
    then have "\<not> (pool_ready x st \<and> 0 < value_len \<and> value_len \<le> NVM_KV_MAX_VALUE_SIZE \<and> 2 ^ k dvd value_len)"
      using False pool_valid [of x st KVGET] e(20) by (auto simp: validate_value_def)
    ultimately show thesis using that rep by (auto simp: lookup_done_def)
  next
    case True
    then have vl: "2 ^ k dvd value_len" "value_len \<le> NVM_KV_MAX_VALUE_SIZE"
      using e(20) and_mask_dvd [of value_len k] by (auto simp: validate_value_def)
    obtain r bufs' where get:
      "get_store E (fst x) (snd x) (length (snd x)) va got value_len read_exact info (mg_bufs mg) st w = Some (r, bufs', st, w)"
      "bufs_ready bufs'"
      "lookup_done (ranges_known E st \<and> aligned k va \<and> bufs_aligned E k (mg_bufs mg)) (m x) (got_cell value_len) r"
      "bufs_aligned E k (mg_bufs mg) \<longrightarrow> bufs_aligned E k bufs'"
      using get_store_spec [OF env spread mg(3,2) vl] by metis
    have "kv_get_key E kv_id x va got value_len read_exact info mg w = Some (r, mg\<lparr>mg_bufs := bufs'\<rparr>, w)"
      using True get(1) mg(1) same key_valid [OF spread] by (simp add: kv_get_key_def kv_get_def on_store_def)
    then show thesis using that get(2-4) mg
      by (auto simp: kv_mgr_rep_def lookup_done_def calls_succeed_def split: sum.splits)
  qed
qed

definition mgr_delete_done ::
  "'w nvm_env \<Rightarrow> nat \<Rightarrow> nvm_kv_store \<Rightarrow> kv_key \<Rightarrow> nvm_kv_store_mgr \<Rightarrow> kv_map \<Rightarrow> unit res \<Rightarrow> kv_map \<Rightarrow> bool" where
  "mgr_delete_done E k st x mg m r m' \<longleftrightarrow>
     (case r of
        Inr _ \<Rightarrow> m' = m(x := None)
      | Inl e \<Rightarrow> m' = m \<and> \<not> (pool_ready x st \<and> calls_succeed E k st (mg_bufs mg)))"

lemma kv_delete_step:
  fixes mg :: nvm_kv_store_mgr
  assumes env: "kv_env_ok E k j capacity view st" and spread: "keys_spread st capacity K" "x \<in> K"
    and rep: "kv_mgr_rep k view st K kv_id mg w m"
  obtains r mg' w' m' where
    "kv_delete_key E oth kv_id x mg w = Some (r, mg', w')" "kv_mgr_rep k view st K kv_id mg' w' m'"
    "calls_succeed E k st (mg_bufs mg) \<Longrightarrow> calls_succeed E k st (mg_bufs mg')"
    "mgr_delete_done E k st x mg m r m'"
proof -
  have mg: "mg_map mg kv_id = Some st" "bufs_ready (mg_bufs mg)" "kv_rep k st K (view w) m"
    using rep by (simp_all add: kv_mgr_rep_def)
  have same: "(mg_map mg)(kv_id \<mapsto> st) = mg_map mg" using mg(1) by auto
  show thesis
  proof (cases "validate_pool KVDELETE (uint (fst x)) st")
    case False
    then have "kv_delete_key E oth kv_id x mg w = Some (Inl NVM_ERR_INVALID_INPUT, mg, w)"
      using mg(1) same by (auto simp: kv_delete_key_def kv_delete_def on_store_def)
    moreover have "\<not> pool_ready x st" using False pool_valid [of x st KVDELETE] by auto
    ultimately show thesis using that rep by (auto simp: mgr_delete_done_def)
  next
    case True
    obtain r bufs' w' where del:
      "kv_delete_sync E oth (fst x) (snd x) (length (snd x)) (mg_bufs mg) st w = Some (r, bufs', st, w')"
      "bufs_ready bufs'"
      "case r of Inr _ \<Rightarrow> kv_rep k st K (view w') (m(x := None))
       | Inl e \<Rightarrow> view w' = view w \<and> \<not> calls_succeed E k st (mg_bufs mg)"
      "bufs_aligned E k (mg_bufs mg) \<longrightarrow> bufs_aligned E k bufs'"
      using delete_sync_spec [OF env spread mg(3,2)] by metis
    have call: "kv_delete_key E oth kv_id x mg w = Some (r, mg\<lparr>mg_bufs := bufs'\<rparr>, w')"
      using True del(1) mg(1) same key_valid [OF spread] by (simp add: kv_delete_key_def kv_delete_def on_store_def)
    show thesis
    proof (cases r)
      case (Inl e)
      then show thesis using that [OF call, of m] del(2-4) mg
        by (simp add: mgr_delete_done_def kv_mgr_rep_def calls_succeed_def)
    next
      case (Inr u)
      then show thesis using that [OF call, of "m(x := None)"] del(2-4) mg
        by (simp add: mgr_delete_done_def kv_mgr_rep_def calls_succeed_def)
    qed
  qed
qed

section \<open>Histories of calls\<close>

text \<open>
  A client issues calls one after the other. \<open>explains\<close> is the sequential reading of a
  history: every result is allowed by the effect of its call on the abstract state. The locale
  states the contract of one call and derives that every history has a reading.
\<close>

fun run_calls :: "('o \<Rightarrow> 's \<Rightarrow> ('r \<times> 's) option) \<Rightarrow> 'o list \<Rightarrow> 's \<Rightarrow> ('r list \<times> 's) option" where
  "run_calls call [] s = Some ([], s)"
| "run_calls call (x # xs) s =
     (case call x s of
        None \<Rightarrow> None
      | Some (r, s) \<Rightarrow> map_option (\<lambda>(rs, s). (r # rs, s)) (run_calls call xs s))"

inductive explains :: "('o \<Rightarrow> 'r \<Rightarrow> 'a \<Rightarrow> 'a \<Rightarrow> bool) \<Rightarrow> 'o list \<Rightarrow> 'r list \<Rightarrow> 'a \<Rightarrow> 'a \<Rightarrow> bool"
  for effect :: "'o \<Rightarrow> 'r \<Rightarrow> 'a \<Rightarrow> 'a \<Rightarrow> bool" where
  explains_nil: "explains effect [] [] a a"
| explains_cons: "effect x r a a' \<Longrightarrow> explains effect xs rs a' a'' \<Longrightarrow> explains effect (x # xs) (r # rs) a a''"

inductive_cases explains_consE: "explains effect (x # xs) rs a a''"
inductive_cases explains_nilE: "explains effect [] rs a a''"

fun all_fit :: "('o \<Rightarrow> 'b \<Rightarrow> bool) \<Rightarrow> ('o \<Rightarrow> 'b \<Rightarrow> 'b) \<Rightarrow> 'o list \<Rightarrow> 'b \<Rightarrow> bool" where
  "all_fit fits next_bound [] b = True"
| "all_fit fits next_bound (x # xs) b = (fits x b \<and> all_fit fits next_bound xs (next_bound x b))"

locale call_refinement =
  fixes call :: "'o \<Rightarrow> 's \<Rightarrow> ('r \<times> 's) option"
    and rel :: "'s \<Rightarrow> 'a \<Rightarrow> bool"
    and bounded :: "'a \<Rightarrow> 'b \<Rightarrow> bool"
    and fits :: "'o \<Rightarrow> 'b \<Rightarrow> bool"
    and next_bound :: "'o \<Rightarrow> 'b \<Rightarrow> 'b"
    and effect :: "'o \<Rightarrow> 'r \<Rightarrow> 'a \<Rightarrow> 'a \<Rightarrow> bool"
  assumes step: "rel s a \<Longrightarrow> bounded a b \<Longrightarrow> fits x b \<Longrightarrow>
    \<exists>r s' a'. call x s = Some (r, s') \<and> rel s' a' \<and> effect x r a a' \<and> bounded a' (next_bound x b)"
begin

lemma history:
  "rel s a \<Longrightarrow> bounded a b \<Longrightarrow> all_fit fits next_bound xs b \<Longrightarrow>
   \<exists>rs s' a'. run_calls call xs s = Some (rs, s') \<and> explains effect xs rs a a' \<and> rel s' a'"
proof (induction xs arbitrary: s a b)
  case Nil
  then show ?case by (auto intro: explains_nil)
next
  case (Cons x xs)
  then obtain r s1 a1 where st: "call x s = Some (r, s1)" "rel s1 a1" "effect x r a a1" "bounded a1 (next_bound x b)"
    using step [of s a b x] by auto
  obtain rs s' a' where "run_calls call xs s1 = Some (rs, s')" "explains effect xs rs a1 a'" "rel s' a'"
    using Cons.IH [OF st(2,4)] Cons.prems(3) by auto
  then show ?case using st by (auto intro: explains_cons)
qed

end

datatype kv_op =
    KvPut kv_key user_value nat u32 bool u32
  | KvGet kv_key u64 bytes nat bool nvm_kv_key_info
  | KvDelete kv_key

datatype kv_ret = PutRet "nat res" | GetRet "kv_get_out res" | DeleteRet "unit res"

fun kv_call ::
  "'w nvm_env \<Rightarrow> 'w others \<Rightarrow> int \<Rightarrow> kv_op \<Rightarrow> nvm_kv_store_mgr \<times> 'w \<Rightarrow> (kv_ret \<times> nvm_kv_store_mgr \<times> 'w) option" where
  "kv_call E oth kv_id (KvPut x uval value_len expiry replace gen_count) (mg, w) =
     map_option (\<lambda>(r, s). (PutRet r, s)) (kv_put_key E oth kv_id x uval value_len expiry replace gen_count mg w)"
| "kv_call E oth kv_id (KvGet x va got value_len read_exact info) (mg, w) =
     map_option (\<lambda>(r, s). (GetRet r, s)) (kv_get_key E kv_id x va got value_len read_exact info mg w)"
| "kv_call E oth kv_id (KvDelete x) (mg, w) =
     map_option (\<lambda>(r, s). (DeleteRet r, s)) (kv_delete_key E oth kv_id x mg w)"

fun kv_effect :: "kv_op \<Rightarrow> kv_ret \<Rightarrow> kv_map \<Rightarrow> kv_map \<Rightarrow> bool" where
  "kv_effect (KvPut x uval value_len expiry replace gen_count) (PutRet (Inr n)) m m' \<longleftrightarrow>
     n = value_len \<and> (m x = None \<or> replace) \<and> m' = m(x := m' x) \<and>
     (case m' x of
        None \<Rightarrow> False
      | Some c \<Rightarrow> kc_value c = mem_bytes (uv_mem uval) 0 value_len \<and> kc_gen c = gen_count)"
| "kv_effect (KvPut x uval value_len expiry replace gen_count) (PutRet (Inl e)) m m' \<longleftrightarrow> m' = m"
| "kv_effect (KvGet x va got value_len read_exact info) (GetRet r) m m' \<longleftrightarrow>
     m' = m \<and> lookup_done False (m x) (got_cell value_len) r"
| "kv_effect (KvDelete x) (DeleteRet (Inr u)) m m' \<longleftrightarrow> m' = m(x := None)"
| "kv_effect (KvDelete x) (DeleteRet (Inl e)) m m' \<longleftrightarrow> m' = m"
| "kv_effect _ _ m m' \<longleftrightarrow> False"

text \<open>
  Which calls fit: the keys are of the set whose slots are disjoint, an unaligned value goes into
  the header sector, and a value does not take fewer sectors than the values put before for its key.
\<close>

fun op_fits :: "nat \<Rightarrow> kv_key set \<Rightarrow> kv_op \<Rightarrow> (kv_key \<Rightarrow> nat) \<Rightarrow> bool" where
  "op_fits k K (KvPut x uval value_len expiry replace gen_count) b \<longleftrightarrow>
     x \<in> K \<and> value_placed k x uval value_len \<and> b x \<le> value_sectors k value_len"
| "op_fits k K (KvGet x va got value_len read_exact info) b \<longleftrightarrow> x \<in> K"
| "op_fits k K (KvDelete x) b \<longleftrightarrow> x \<in> K"

fun op_bound :: "nat \<Rightarrow> kv_op \<Rightarrow> (kv_key \<Rightarrow> nat) \<Rightarrow> kv_key \<Rightarrow> nat" where
  "op_bound k (KvPut x uval value_len expiry replace gen_count) b = b(x := value_sectors k value_len)"
| "op_bound k _ b = b"

definition map_bounded :: "nat \<Rightarrow> kv_map \<Rightarrow> (kv_key \<Rightarrow> nat) \<Rightarrow> bool" where
  "map_bounded k m b \<longleftrightarrow> (\<forall>x \<in> dom m. value_sectors k (length (kc_value (the (m x)))) \<le> b x)"

definition kv_live ::
  "'w nvm_env \<Rightarrow> nat \<Rightarrow> nat \<Rightarrow> nat \<Rightarrow> ('w \<Rightarrow> sectors) \<Rightarrow> nvm_kv_store \<Rightarrow> kv_key set \<Rightarrow> int \<Rightarrow>
   nvm_kv_store_mgr \<times> 'w \<Rightarrow> kv_map \<Rightarrow> bool" where
  "kv_live E k j capacity view st K kv_id s m \<longleftrightarrow>
     kv_env_ok E k j capacity view st \<and> keys_spread st capacity K \<and> kv_mgr_rep k view st K kv_id (fst s) (snd s) m"

lemma map_bounded_keeps: "map_bounded k m b \<Longrightarrow> b x \<le> value_sectors k n \<Longrightarrow> keeps_size k (m x) n"
  by (cases "m x") (auto simp: map_bounded_def keeps_size_def dest!: bspec [of _ _ x])

lemma map_bounded_put:
  "map_bounded k m b \<Longrightarrow> b x \<le> n \<Longrightarrow> map_bounded k m (b(x := n))"
  "map_bounded k m b \<Longrightarrow> value_sectors k (length (kc_value c)) = n \<Longrightarrow> map_bounded k (m(x \<mapsto> c)) (b(x := n))"
  "map_bounded k m b \<Longrightarrow> map_bounded k (m(x := None)) b"
  by (auto simp: map_bounded_def dest!: bspec [of _ _ x])

lemma kv_call_step:
  assumes "kv_live E k j capacity view st K kv_id s m" and "map_bounded k m b" and "op_fits k K x b"
  shows "\<exists>r s' m'. kv_call E oth kv_id x s = Some (r, s') \<and> kv_live E k j capacity view st K kv_id s' m' \<and>
    kv_effect x r m m' \<and> map_bounded k m' (op_bound k x b)"
proof -
  obtain mg w where s: "s = (mg, w)" by force
  have live: "kv_env_ok E k j capacity view st" "keys_spread st capacity K" "kv_mgr_rep k view st K kv_id mg w m"
    using assms(1) s by (simp_all add: kv_live_def)
  show ?thesis
  proof (cases x)
    case (KvPut y uval n expiry replace gen_count)
    then have y: "y \<in> K" "value_placed k y uval n" "b y \<le> value_sectors k n" using assms(3) by simp_all
    obtain r mg' w' m' where p:
      "kv_put_key E oth kv_id y uval n expiry replace gen_count mg w = Some (r, mg', w')"
      "kv_mgr_rep k view st K kv_id mg' w' m'"
      "mgr_put_done E k st y uval n replace mg (new_cell E w uval n expiry gen_count) m r m'"
      using kv_put_step [OF live(1,2) y(1) live(3) y(2) map_bounded_keeps [OF assms(2) y(3)]] by metis
    have "kv_effect x (PutRet r) m m' \<and> map_bounded k m' (op_bound k x b)"
      using p(3) KvPut assms(2) y(3) map_bounded_put(1,2)
      by (cases r) (auto simp: mgr_put_done_def new_cell_def)
    then show ?thesis using p(1,2) live s KvPut by (auto simp: kv_live_def)
  next
    case (KvGet y va got n read_exact info)
    then have y: "y \<in> K" using assms(3) by simp
    obtain r mg' where g: "kv_get_key E kv_id y va got n read_exact info mg w = Some (r, mg', w)"
      "kv_mgr_rep k view st K kv_id mg' w m"
      "lookup_done (pool_ready y st \<and> 0 < n \<and> n \<le> NVM_KV_MAX_VALUE_SIZE \<and> 2 ^ k dvd n \<and>
         aligned k va \<and> calls_succeed E k st (mg_bufs mg)) (m y) (got_cell n) r"
      using kv_get_step [OF live(1,2) y live(3)] by metis
    have "kv_effect x (GetRet r) m m \<and> map_bounded k m (op_bound k x b)"
      using g(3) KvGet assms(2) by (auto simp: lookup_done_def split: sum.splits)
    then show ?thesis using g(1,2) live s KvGet by (auto simp: kv_live_def)
  next
    case (KvDelete y)
    then have y: "y \<in> K" using assms(3) by simp
    obtain r mg' w' m' where d: "kv_delete_key E oth kv_id y mg w = Some (r, mg', w')"
      "kv_mgr_rep k view st K kv_id mg' w' m'" "mgr_delete_done E k st y mg m r m'"
      using kv_delete_step [OF live(1,2) y live(3)] by metis
    have "kv_effect x (DeleteRet r) m m' \<and> map_bounded k m' (op_bound k x b)"
      using d(3) KvDelete assms(2) map_bounded_put(3) by (cases r) (auto simp: mgr_delete_done_def)
    then show ?thesis using d(1,2) live s KvDelete by (auto simp: kv_live_def)
  qed
qed

interpretation kv_calls: call_refinement "kv_call E oth kv_id" "kv_live E k j capacity view st K kv_id"
  "map_bounded k" "op_fits k K" "op_bound k" kv_effect
  for E oth kv_id k j capacity view st K
  by unfold_locales (rule kv_call_step)

section \<open>Properties\<close>

lemma sim_mgr_rep: "kv_mgr_rep 9 (\<lambda>w. w) sim_store {sim_key} 1 sim_mgr (\<lambda>n. None) (\<lambda>x. None)"
  using sim_bufs_ready sim_empty_rep by (simp add: kv_mgr_rep_def sim_mgr_def)

lemma sim_pool_ready: "pool_ready sim_key sim_store"
proof -
  have "bitmap_test [0] (word_of_int 0) = 0" by (simp add: bitmap_test_def)
  then show ?thesis
    by (simp add: pool_ready_def sim_key_def check_pool_status_def valid_poolid_def pool_in_del_def
        sim_store_defs NVM_KV_MAX_POOLS_def get_default_poolid_def M_DEFAULT_POOL_ID_def)
qed

definition sim_value :: user_value where
  "sim_value = \<lparr>uv_addr = 0, uv_mem = (\<lambda>i. of_nat (i + 1))\<rparr>"

definition sim_info :: nvm_kv_key_info where
  "sim_info = \<lparr>ki_pool_id = 0, ki_key_len = 0, ki_value_len = 0, ki_expiry = 0, ki_gen_count = 0\<rparr>"

lemma sim_put_safe: "put_safe sim_env 9 sim_store (length (snd sim_key)) sim_value 3 sim_bufs"
proof -
  have st: "value_storable 9 1 sim_value 3"
    by (simp add: value_storable_def sim_value_def NVM_KV_MAX_VALUE_SIZE_def)
  have "plan_write (2 ^ 9) (uv_addr sim_value) 1 3 =
      \<lparr>wp_user = False, wp_offset = 41, wp_buf_len = 512, wp_iov_len = 512\<rparr>"
    using plan_write_cases [OF _ _ st] by (simp add: NVM_KV_MAX_KEY_SIZE_def M_KV_HEADER_SIZE_def)
  then have "plan_iovs sim_device (plan_write (2 ^ 9) (uv_addr sim_value) 1 3) \<le> 8"
    using plan_iovs_count [OF kv_env_dest(7) [OF sim_kv_env] st]
    by (simp add: NVM_KV_MAX_KEY_SIZE_def)
  then show ?thesis
    using sim_calls_succeed
    by (simp add: put_safe_def sim_key_def max_trim_size_def sim_device_def sim_caps_def NVM_KV_MAX_VALUE_SIZE_def)
qed

definition sim_cell :: kv_cell where
  "sim_cell = \<lparr>kc_value = [1, 2, 3], kc_gen = 9, kc_expiry = 0\<rparr>"

lemma sim_put_cell:
  assumes "mgr_put_done sim_env 9 sim_store sim_key sim_value 3 False sim_mgr
       (new_cell sim_env (\<lambda>n. None) sim_value 3 0 9) (\<lambda>x. None) r m"
  shows "r = Inr 3 \<and> m = [sim_key \<mapsto> sim_cell]"
proof -
  have c: "new_cell sim_env (\<lambda>n. None) sim_value 3 0 9 = sim_cell"
    by (simp add: new_cell_def mem_bytes_def sim_value_def sim_cell_def upt_rec)
  show ?thesis
    using assms sim_pool_ready sim_put_safe c
    by (cases r) (simp_all add: mgr_put_done_def NVM_KV_MAX_VALUE_SIZE_def sim_mgr_def)
qed

lemma sim_placed: "value_placed 9 sim_key sim_value 3"
  by (simp add: value_placed_def sim_value_def)

lemma sim_put:
  "\<exists>mg w. kv_put sim_env (\<lambda>l s. s) 1 0 (Some [7]) 1 (Some sim_value) 3 0 False 9 sim_mgr (\<lambda>n. None) =
       Some (Inr 3, mg, w) \<and>
     kv_mgr_rep 9 (\<lambda>w. w) sim_store {sim_key} 1 mg w [sim_key \<mapsto> sim_cell] \<and>
     calls_succeed sim_env 9 sim_store (mg_bufs mg)"
proof -
  have keep: "keeps_size 9 None 3" by (simp add: keeps_size_def)
  have x: "sim_key \<in> {sim_key}" by simp
  obtain r mg w m where p:
    "kv_put_key sim_env (\<lambda>l s. s) 1 sim_key sim_value 3 0 False 9 sim_mgr (\<lambda>n. None) = Some (r, mg, w)"
    "kv_mgr_rep 9 (\<lambda>w. w) sim_store {sim_key} 1 mg w m"
    "calls_succeed sim_env 9 sim_store (mg_bufs sim_mgr) \<longrightarrow> calls_succeed sim_env 9 sim_store (mg_bufs mg)"
    "mgr_put_done sim_env 9 sim_store sim_key sim_value 3 False sim_mgr
       (new_cell sim_env (\<lambda>n. None) sim_value 3 0 9) (\<lambda>x. None) r m"
    using kv_put_step [OF sim_kv_env sim_spread x sim_mgr_rep sim_placed keep,
        where oth = "\<lambda>l s. s" and expiry = 0 and replace = False and gen_count = 9] by metis
  then show ?thesis using sim_put_cell [OF p(4)] sim_calls_succeed
    by (auto simp: kv_put_key_def sim_key_def sim_mgr_def)
qed



text \<open>
  C3: a get refines the lookup of the map, for a store without a cache, with expiry disabled and no address
  held, on a device that keeps its laws (allocations of vectors and reads inside the capacity succeed, the rest
  may fail), and for a key of a set whose slots are disjoint, inside the capacity and without
  collisions. It returns, it changes neither the map nor the device, a success gives a cell that the map
  binds to the key (the first bytes of its value, as many as fit, with the value length, the generation
  count and the expiry), and a bound key is not reported as \<open>NVM_ERR_OBJECT_NOT_FOUND\<close>. With a legal
  buffer, the pool in use and a device that does not fail, a bound key is found and an unbound one is
  reported as not found.
\<close>

theorem kv_get_refines:
  fixes mg :: nvm_kv_store_mgr
  assumes "kv_env_ok E k j capacity view st" and "keys_spread st capacity K" and "x \<in> K"
    and "kv_mgr_rep k view st K kv_id mg w m"
  shows "\<exists>r mg'.
    kv_get E kv_id (uint (fst x)) (Some (snd x)) (length (snd x)) (Some (va, got)) value_len read_exact
      (Some info) mg w = Some (r, mg', w) \<and>
    kv_mgr_rep k view st K kv_id mg' w m \<and>
    (calls_succeed E k st (mg_bufs mg) \<longrightarrow> calls_succeed E k st (mg_bufs mg')) \<and>
    lookup_done (pool_ready x st \<and> 0 < value_len \<and> value_len \<le> NVM_KV_MAX_VALUE_SIZE \<and> 2 ^ k dvd value_len \<and>
      aligned k va \<and> calls_succeed E k st (mg_bufs mg)) (m x) (got_cell value_len) r"
  using kv_get_step [OF assms, where va = va and got = got and value_len = value_len
      and read_exact = read_exact and info = info]
  unfolding kv_get_key_def by metis

theorem kv_get_refines_witness:
  "\<exists>mg w out mg'.
     kv_put sim_env (\<lambda>l s. s) 1 0 (Some [7]) 1 (Some sim_value) 3 0 False 9 sim_mgr (\<lambda>n. None) =
       Some (Inr 3, mg, w) \<and>
     kv_get sim_env 1 0 (Some [7]) 1 (Some (4096, zeros 512)) 512 True (Some sim_info) mg w =
       Some (Inr out, mg', w) \<and>
     go_len out = 3 \<and> take 3 (go_value out) = [1, 2, 3] \<and> ki_gen_count (go_info out) = 9"
proof -
  obtain mg w where p:
    "kv_put sim_env (\<lambda>l s. s) 1 0 (Some [7]) 1 (Some sim_value) 3 0 False 9 sim_mgr (\<lambda>n. None) = Some (Inr 3, mg, w)"
    "kv_mgr_rep 9 (\<lambda>w. w) sim_store {sim_key} 1 mg w [sim_key \<mapsto> sim_cell]"
    "calls_succeed sim_env 9 sim_store (mg_bufs mg)"
    using sim_put by metis
  obtain r mg' where g:
    "kv_get sim_env 1 0 (Some [7]) 1 (Some (4096, zeros 512)) 512 True (Some sim_info) mg w = Some (r, mg', w)"
    "lookup_done (pool_ready sim_key sim_store \<and> 0 < (512::nat) \<and> 512 \<le> NVM_KV_MAX_VALUE_SIZE \<and>
       2 ^ 9 dvd (512::nat) \<and> aligned 9 4096 \<and> calls_succeed sim_env 9 sim_store (mg_bufs mg)) (Some sim_cell) (got_cell 512) r"
    using kv_get_refines [OF sim_kv_env sim_spread _ p(2), of sim_key 4096 "zeros 512" 512 True sim_info]
    by (auto simp: sim_key_def)
  have "aligned 9 4096" by (simp add: aligned_def)
  then obtain out where "r = Inr out" "got_cell 512 sim_cell out"
    using g(2) sim_pool_ready p(3)
    by (cases r) (simp_all add: lookup_done_def NVM_KV_MAX_VALUE_SIZE_def)
  then have f: "go_len out = min (length (kc_value sim_cell)) 512"
    "take (go_len out) (go_value out) = take (go_len out) (kc_value sim_cell)" "ki_gen_count (go_info out) = kc_gen sim_cell"
    unfolding got_cell_def by blast+
  have c: "kc_value sim_cell = [1, 2, 3]" "kc_gen sim_cell = 9" by (simp_all add: sim_cell_def)
  have len: "go_len out = 3" using f(1) by (simp add: c)
  have "take 3 (go_value out) = [1, 2, 3]" using f(2) unfolding len c by simp
  then show ?thesis using p(1) g(1) \<open>r = Inr out\<close> len f(3) c(2) by auto
qed

text \<open>
  C4: a delete refines the removal from the map, for a store without a cache, with expiry disabled and no
  address held, on a device that keeps its laws (allocations of vectors and reads inside the capacity succeed, the
  rest may fail) and whose trims of a slot fit into one batch, and for a key of a set whose slots are
  disjoint, inside the capacity and without collisions. It returns; a success, which a missing key is as
  well, unbinds exactly this key and empties its slot on the device, an error leaves the map as it was,
  and there is no error when the pool is in use and the device does not fail.
\<close>

theorem kv_delete_refines:
  fixes mg :: nvm_kv_store_mgr
  assumes "kv_env_ok E k j capacity view st" and "keys_spread st capacity K" and "x \<in> K"
    and "kv_mgr_rep k view st K kv_id mg w m"
  shows "\<exists>r mg' w' m'.
    kv_delete E oth kv_id (uint (fst x)) (Some (snd x)) (length (snd x)) mg w = Some (r, mg', w') \<and>
    kv_mgr_rep k view st K kv_id mg' w' m' \<and>
    (calls_succeed E k st (mg_bufs mg) \<longrightarrow> calls_succeed E k st (mg_bufs mg')) \<and>
    mgr_delete_done E k st x mg m r m'"
  using kv_delete_step [OF assms, where oth = oth] unfolding kv_delete_key_def by metis

theorem kv_delete_refines_witness:
  "\<exists>mg w mg' w'.
     kv_put sim_env (\<lambda>l s. s) 1 0 (Some [7]) 1 (Some sim_value) 3 0 False 9 sim_mgr (\<lambda>n. None) =
       Some (Inr 3, mg, w) \<and>
     kv_delete sim_env (\<lambda>l s. s) 1 0 (Some [7]) 1 mg w = Some (Inr (), mg', w') \<and>
     kv_mgr_rep 9 (\<lambda>w. w) sim_store {sim_key} 1 mg' w' (\<lambda>x. None)"
proof -
  obtain mg w where p:
    "kv_put sim_env (\<lambda>l s. s) 1 0 (Some [7]) 1 (Some sim_value) 3 0 False 9 sim_mgr (\<lambda>n. None) = Some (Inr 3, mg, w)"
    "kv_mgr_rep 9 (\<lambda>w. w) sim_store {sim_key} 1 mg w [sim_key \<mapsto> sim_cell]"
    "calls_succeed sim_env 9 sim_store (mg_bufs mg)"
    using sim_put by metis
  obtain r mg' w' m' where d:
    "kv_delete sim_env (\<lambda>l s. s) 1 0 (Some [7]) 1 mg w = Some (r, mg', w')"
    "kv_mgr_rep 9 (\<lambda>w. w) sim_store {sim_key} 1 mg' w' m'"
    "mgr_delete_done sim_env 9 sim_store sim_key mg [sim_key \<mapsto> sim_cell] r m'"
    using kv_delete_refines [OF sim_kv_env sim_spread _ p(2), of sim_key "\<lambda>l s. s"]
    by (auto simp: sim_key_def)
  have "r = Inr () \<and> m' = (\<lambda>x. None)"
    using d(3) sim_pool_ready p(3) by (cases r) (auto simp: mgr_delete_done_def)
  then show ?thesis using p(1) d(1,2) by blast
qed

text \<open>
  C1: every history of puts, gets and deletes of keys that do not interfere has a sequential reading. Setting:
  no cache, expiry disabled, no address held by another thread; the device keeps its laws (allocations of
  vectors and reads inside the capacity succeed, buffers, range queries, writes and trims may fail) and trims a
  slot in one batch; the slots of the keys are disjoint and inside the capacity, their later probe slots
  inside it, apart from the slots and empty (no hash collision). Every value fits into the first sector with
  header and key or is aligned, and no put takes fewer sectors than an earlier put of its key (shrinking
  is broken, see the findings). From a store that represents a map any such list of calls ends, whatever errors occur,
  and there are maps, one after each call, that explain the results: a get gives the value of the last
  successful put of its key that no delete has followed, and reports a key as missing only when there is none.
\<close>

theorem kv_history_sequential:
  assumes "kv_live E k j capacity view st K kv_id s m" and "map_bounded k m b"
    and "all_fit (op_fits k K) (op_bound k) ops b"
  shows "\<exists>rs s' m'. run_calls (kv_call E oth kv_id) ops s = Some (rs, s') \<and>
    explains kv_effect ops rs m m' \<and> kv_live E k j capacity view st K kv_id s' m'"
  using kv_calls.history [OF assms] .

theorem kv_history_sequential_witness:
  "\<exists>r1 r2 r3 s' m'.
     run_calls (kv_call sim_env (\<lambda>l s. s) 1)
       [KvPut sim_key sim_value 3 0 False 9, KvGet sim_key 4096 (zeros 512) 512 False sim_info, KvDelete sim_key]
       (sim_mgr, \<lambda>n. None) = Some ([r1, r2, r3], s') \<and>
     explains kv_effect
       [KvPut sim_key sim_value 3 0 False 9, KvGet sim_key 4096 (zeros 512) 512 False sim_info, KvDelete sim_key]
       [r1, r2, r3] (\<lambda>x. None) m'"
proof -
  let ?ops = "[KvPut sim_key sim_value 3 0 False 9, KvGet sim_key 4096 (zeros 512) 512 False sim_info, KvDelete sim_key]"
  have live: "kv_live sim_env 9 10 (2 ^ 60) (\<lambda>w. w) sim_store {sim_key} 1 (sim_mgr, \<lambda>n. None) (\<lambda>x. None)"
    using sim_kv_env sim_spread sim_mgr_rep by (simp add: kv_live_def)
  have fit: "all_fit (op_fits 9 {sim_key}) (op_bound 9) ?ops (\<lambda>x. 0)"
    by (simp add: value_placed_def sim_value_def)
  have "map_bounded 9 (\<lambda>x. None) (\<lambda>x. 0)" by (simp add: map_bounded_def)
  then obtain rs s' m' where h: "run_calls (kv_call sim_env (\<lambda>l s. s) 1) ?ops (sim_mgr, \<lambda>n. None) = Some (rs, s')"
    "explains kv_effect ?ops rs (\<lambda>x. None) m'"
    using kv_history_sequential [OF live _ fit] by blast
  from h(2) obtain r1 r2 r3 where "rs = [r1, r2, r3]"
    by (auto elim!: explains_consE explains_nilE)
  then show ?thesis using h by blast
qed

text \<open>
  C11: for a key without collisions an exact read answers like a plain read. With \<open>read_exact\<close> the code
  asks the device for the length of the range first and shortens the value vector; without it the whole
  buffer is read. For a store without a cache, with expiry disabled and no address held, on a device that
  keeps its laws and does not fail, a key of a set whose slots are disjoint, inside the capacity and
  with empty later probe slots, a legal aligned buffer and a pool in use: both calls succeed or both report
  \<open>NVM_ERR_OBJECT_NOT_FOUND\<close>, and on success they return the same number of bytes, the same bytes,
  and the same value length, generation count and expiry. For a key found at a later probe this fails: the
  shortened vectors are not restored for the next probe (see the findings).
\<close>

theorem kv_get_exact_equivalent:
  fixes mg :: nvm_kv_store_mgr
  assumes "kv_env_ok E k j capacity view st" and "keys_spread st capacity K" and "x \<in> K"
    and "kv_mgr_rep k view st K kv_id mg w m" and "calls_succeed E k st (mg_bufs mg)" and "pool_ready x st"
    and "0 < value_len" and "value_len \<le> NVM_KV_MAX_VALUE_SIZE" and "2 ^ k dvd value_len" and "aligned k va"
  shows "\<exists>r r' mg1 mg2.
    kv_get E kv_id (uint (fst x)) (Some (snd x)) (length (snd x)) (Some (va, got)) value_len True (Some info)
      mg w = Some (r, mg1, w) \<and>
    kv_get E kv_id (uint (fst x)) (Some (snd x)) (length (snd x)) (Some (va, got)) value_len False (Some info)
      mg w = Some (r', mg2, w) \<and>
    (case (r, r') of
       (Inl e, Inl e') \<Rightarrow> e = NVM_ERR_OBJECT_NOT_FOUND \<and> e' = NVM_ERR_OBJECT_NOT_FOUND
     | (Inr out, Inr out') \<Rightarrow>
         go_len out = go_len out' \<and> take (go_len out) (go_value out) = take (go_len out) (go_value out') \<and>
         ki_value_len (go_info out) = ki_value_len (go_info out') \<and>
         ki_gen_count (go_info out) = ki_gen_count (go_info out') \<and> ki_expiry (go_info out) = ki_expiry (go_info out')
     | _ \<Rightarrow> False)"
proof -
  have both: "\<exists>r mg'. kv_get_key E kv_id x va got value_len ex info mg w = Some (r, mg', w) \<and>
      lookup_done True (m x) (got_cell value_len) r" for ex
    using kv_get_step [OF assms(1-4), where va = va and got = got and value_len = value_len
        and read_exact = ex and info = info] assms(5-10) by metis
  obtain r mg1 r' mg2 where r: "kv_get_key E kv_id x va got value_len True info mg w = Some (r, mg1, w)"
    "lookup_done True (m x) (got_cell value_len) r"
    "kv_get_key E kv_id x va got value_len False info mg w = Some (r', mg2, w)"
    "lookup_done True (m x) (got_cell value_len) r'"
    using both [of True] both [of False] by blast
  have "case (r, r') of
       (Inl e, Inl e') \<Rightarrow> e = NVM_ERR_OBJECT_NOT_FOUND \<and> e' = NVM_ERR_OBJECT_NOT_FOUND
     | (Inr out, Inr out') \<Rightarrow>
         go_len out = go_len out' \<and> take (go_len out) (go_value out) = take (go_len out) (go_value out') \<and>
         ki_value_len (go_info out) = ki_value_len (go_info out') \<and>
         ki_gen_count (go_info out) = ki_gen_count (go_info out') \<and> ki_expiry (go_info out) = ki_expiry (go_info out')
     | _ \<Rightarrow> False"
  proof (cases "m x")
    case None
    then show ?thesis using r(2,4) by (cases r; cases r') (auto simp: lookup_done_def)
  next
    case (Some c)
    then show ?thesis using r(2,4)
      by (cases r; cases r') (auto simp: lookup_done_def got_cell_def word_unat_eq_iff)
  qed
  then show ?thesis using r(1,3) unfolding kv_get_key_def by blast
qed

theorem kv_get_exact_equivalent_witness:
  "\<exists>mg w r r' mg1 mg2.
     kv_put sim_env (\<lambda>l s. s) 1 0 (Some [7]) 1 (Some sim_value) 3 0 False 9 sim_mgr (\<lambda>n. None) =
       Some (Inr 3, mg, w) \<and>
     kv_get sim_env 1 0 (Some [7]) 1 (Some (4096, zeros 512)) 512 True (Some sim_info) mg w = Some (r, mg1, w) \<and>
     kv_get sim_env 1 0 (Some [7]) 1 (Some (4096, zeros 512)) 512 False (Some sim_info) mg w = Some (r', mg2, w)"
proof -
  obtain mg w where p:
    "kv_put sim_env (\<lambda>l s. s) 1 0 (Some [7]) 1 (Some sim_value) 3 0 False 9 sim_mgr (\<lambda>n. None) = Some (Inr 3, mg, w)"
    "kv_mgr_rep 9 (\<lambda>w. w) sim_store {sim_key} 1 mg w [sim_key \<mapsto> sim_cell]"
    "calls_succeed sim_env 9 sim_store (mg_bufs mg)"
    using sim_put by metis
  have x: "sim_key \<in> {sim_key}" by simp
  have l: "0 < (512::nat)" "512 \<le> NVM_KV_MAX_VALUE_SIZE" "2 ^ 9 dvd (512::nat)" "aligned 9 4096"
    by (simp_all add: NVM_KV_MAX_VALUE_SIZE_def aligned_def)
  show ?thesis
    using kv_get_exact_equivalent [OF sim_kv_env sim_spread x p(2,3) sim_pool_ready l, of "zeros 512" sim_info] p(1)
    by (fastforce simp: sim_key_def)
qed

end
