(* ===== verification/KvIterSpec.thy ===== *)
theory KvIterSpec
  imports KvSpec KvIterOps
begin

text \<open>
  What the iteration calls promise: a client that walks a pool visits exactly the ranges of that
  pool, the table of iterators is kept by failed calls, counting keys returns their number, and
  the end of an iteration is not remembered. The instances run on a device whose range iterator
  walks the mapped sectors in order (\<open>sim_iter_env\<close>).
\<close>

section \<open>A client that visits a pool\<close>

definition position :: "int \<Rightarrow> nat \<Rightarrow> kv_iter_mgr \<Rightarrow> nvm_block_range" where
  "position kv_id it_id mg = current_range (iter_at (int it_id) (the (mg_iter mg kv_id)))"

partial_function (option) walk_on ::
  "'w nvm_env \<Rightarrow> int \<Rightarrow> nat \<Rightarrow> kv_iter_mgr \<Rightarrow> 'w \<Rightarrow> nvm_block_range list \<Rightarrow>
   (nvm_block_range list \<times> nvm_error \<times> kv_iter_mgr) option" where
  "walk_on E kv_id it_id mg w acc =
     Option.bind (kv_next E kv_id (int it_id) mg w) (\<lambda>n.
       case fst n of
         Inl e \<Rightarrow> Some (acc, e, snd (kv_iteration_end kv_id (int it_id) (snd n)))
       | Inr _ \<Rightarrow> walk_on E kv_id it_id (snd n) w (acc @ [position kv_id it_id (snd n)]))"

definition walk_pool ::
  "'w nvm_env \<Rightarrow> kv_batch_iterator option \<Rightarrow> int \<Rightarrow> int \<Rightarrow> kv_iter_mgr \<Rightarrow> 'w \<Rightarrow>
   (nvm_block_range list \<times> nvm_error \<times> kv_iter_mgr) option" where
  "walk_pool E malloc kv_id pool_id mg w =
     Option.bind (kv_begin E malloc kv_id pool_id mg w) (\<lambda>b.
       case fst b of
         Inl e \<Rightarrow> Some ([], e, snd b)
       | Inr it_id \<Rightarrow> walk_on E kv_id it_id (snd b) w [position kv_id it_id (snd b)])"

lemma store_iter_set: "store_iter kv_id mg = Some (st, ni) \<Longrightarrow> store_iter kv_id (set_iter kv_id ni' mg) = Some (st, ni')"
  by (auto simp: store_iter_def set_iter_def split: option.splits)

lemma position_set: "position kv_id it_id (set_iter kv_id ni mg) = current_range (iter_at (int it_id) ni)"
  by (simp add: position_def set_iter_def)

lemma set_iter_twice [simp]: "set_iter kv_id ni (set_iter kv_id ni' mg) = set_iter kv_id ni mg"
  by (simp add: set_iter_def)

lemma set_iter_same: "store_iter kv_id mg = Some (st, ni) \<Longrightarrow> set_iter kv_id ni mg = mg"
  by (cases mg) (auto simp: store_iter_def set_iter_def split: option.splits)

lemma kv_next_iter:
  "store_iter kv_id mg = Some (st, ni) \<Longrightarrow>
   kv_next E kv_id it_id mg w =
     map_option (\<lambda>(r, ni). (r, set_iter kv_id ni mg)) (iter_over_pool E st it_id KV_REGULAR_ITER w ni)"
  by (simp add: kv_next_def)

lemma free_same_iter:
  assumes "iter_ready st it_id ni" and "same_iter it_id ni ni'"
  shows "free_iterator st it_id KV_REGULAR_ITER ni' = (Inr (), put_iter (nat it_id) None ni)"
proof -
  note v = valid_regular [OF assms(1)]
  obtain bi where b: "ni' = put_iter (nat it_id) (Some bi) ni" "bi_pool_id bi = bi_pool_id (iter_at it_id ni)"
    using assms(2) by (auto simp: same_iter_def)
  have "validate_iter st it_id KV_REGULAR_ITER ni = Inr ()" using assms(1) by (simp add: iter_ready_def)
  then have "validate_iter st it_id KV_REGULAR_ITER ni' = Inr ()"
    using b v(3,4) by (simp add: validate_iter_ok) (simp add: put_iter_def)
  then show ?thesis by (simp add: free_iterator_def b(1)) (simp add: put_iter_def)
qed

lemma walk_on_spec:
  assumes law: "range_iter_law E (get_store_device st) ahead"
  shows "store_iter kv_id mg = Some (st, ni) \<Longrightarrow> iter_ready st (int it_id) ni \<Longrightarrow> hash_is_id ni \<Longrightarrow>
    walk_on E kv_id it_id mg w acc =
      Some (acc @ filter (in_pool ni (iter_at (int it_id) ni)) (upcoming ahead w (iter_at (int it_id) ni)),
            NVM_ERR_OBJECT_NOT_FOUND, set_iter kv_id (put_iter it_id None ni) mg)"
proof (induction "length (upcoming ahead w (iter_at (int it_id) ni))" arbitrary: mg ni acc rule: less_induct)
  case less
  define P where "P = in_pool ni (iter_at (int it_id) ni)"
  define up where "up = upcoming ahead w (iter_at (int it_id) ni)"
  note v = valid_regular [OF less.prems(2)]
  have spec: "found_or_end ahead st (int it_id) w ni (dropWhile (\<lambda>r. \<not> P r) up)
      (iter_over_pool E st (int it_id) KV_REGULAR_ITER w ni)"
    using iter_over_pool_spec [OF law less.prems(2,3)] by (simp add: P_def up_def)
  show ?case
  proof (cases "dropWhile (\<lambda>r. \<not> P r) up")
    case Nil
    then obtain ni' where n: "iter_over_pool E st (int it_id) KV_REGULAR_ITER w ni = Some (Inl NVM_ERR_OBJECT_NOT_FOUND, ni')"
      "same_iter (int it_id) ni ni'"
      using spec [unfolded Nil] by (auto simp: found_or_end_def)
    have "filter P up = []" using Nil by (auto simp: dropWhile_eq_Nil_conv filter_empty_conv)
    then show ?thesis
      using n(1) free_same_iter [OF less.prems(2) n(2)] store_iter_set [OF less.prems(1)]
      by (simp add: walk_on.simps [of _ _ _ mg] kv_next_iter [OF less.prems(1)] kv_iteration_end_def P_def up_def)
  next
    case (Cons r rest)
    then obtain ni' where n: "iter_over_pool E st (int it_id) KV_REGULAR_ITER w ni = Some (Inr (), ni')"
      "current_range (iter_at (int it_id) ni') = r" "upcoming ahead w (iter_at (int it_id) ni') = rest"
      "iter_ready st (int it_id) ni'" "same_iter (int it_id) ni ni'"
      using spec [unfolded Cons] by (auto simp: found_or_end_def)
    note pool = same_iter_pool [OF n(5) v(3)]
    have split: "up = takeWhile (\<lambda>r. \<not> P r) up @ r # rest" using Cons by (metis takeWhile_dropWhile_id)
    have "P r" using Cons hd_dropWhile [of "\<lambda>r. \<not> P r" up] by simp
    moreover have "filter P (takeWhile (\<lambda>r. \<not> P r) up) = []"
      using set_takeWhileD [of _ "\<lambda>r. \<not> P r" up] by (auto simp: filter_empty_conv)
    ultimately have f: "filter P up = r # filter P rest" by (subst split) simp
    have "length rest < length up" by (subst split) simp
    then have IH: "walk_on E kv_id it_id (set_iter kv_id ni' mg) w (acc @ [r]) =
        Some ((acc @ [r]) @ filter P rest, NVM_ERR_OBJECT_NOT_FOUND,
          set_iter kv_id (put_iter it_id None ni') (set_iter kv_id ni' mg))"
      using less.hyps [OF _ store_iter_set [OF less.prems(1)] n(4)] n(3) pool less.prems(3)
      by (simp add: up_def P_def)
    have "put_iter it_id None ni' = put_iter it_id None ni"
      using n(5) by (auto simp: same_iter_def put_iter_def)
    then show ?thesis
      using n(1,2) IH f
      by (simp add: walk_on.simps [of _ _ _ mg] kv_next_iter [OF less.prems(1)] position_set P_def up_def)
  qed
qed

lemma first_free_slot: "first_free its = Some i \<Longrightarrow> i < length its \<and> its ! i = None"
proof (induction its arbitrary: i)
  case (Cons x its)
  then show ?case by (cases x) auto
qed simp

text \<open>The device iterator that \<open>kv_begin\<close> sets up over the data of a store for a pool.\<close>

definition pool_iter ::
  "nvm_kv_store \<Rightarrow> nvm_kv_iterator \<Rightarrow> u32 \<Rightarrow> nvm_logical_range_iter \<Rightarrow> nvm_logical_range_iter" where
  "pool_iter st ni pool_hash it = it
     \<lparr>it_range_to_iterate := \<lparr>br_start_lba = get_data_start_lba (get_layout st), br_length = user_data_length st\<rparr>,
      it_max_ranges := nvm_max_num_logical_iter_ranges (dev_caps (get_store_device st)),
      it_filter_pattern := ucast pool_hash, it_filter_mask := (if pool_hash = 0 then 0 else ucast (ni_pool_mask ni)),
      it_filter_expiry := 0\<rparr>"

definition range_in_pool :: "nvm_kv_iterator \<Rightarrow> int \<Rightarrow> u32 \<Rightarrow> nvm_block_range \<Rightarrow> bool" where
  "range_in_pool ni pool_id pool_hash r \<longleftrightarrow>
     pool_hash = ucast (br_start_lba r) AND ni_pool_mask ni \<or> pool_id = ni_all_pool_id ni"

lemma pool_id_word: "validate_pool KVBEGIN pool_id st \<Longrightarrow> sint (word_of_int pool_id :: u32) = pool_id"
  by (auto simp: validate_pool_def check_pool_status_def get_all_poolid_def NVM_KV_MAX_POOLS_def M_POOLID_ALL_def signed_of_int
      signed_take_bit_int_eq_self split: if_splits)

lemma valid_pool_live: "validate_pool KVBEGIN pool_id st \<Longrightarrow> pool_live st (word_of_int pool_id)"
  using pool_id_word [of pool_id st] by (auto simp: validate_pool_def pool_live_def)

definition fresh_batch ::
  "nvm_kv_store \<Rightarrow> nvm_kv_iterator \<Rightarrow> int \<Rightarrow> u32 \<Rightarrow> kv_batch_iterator \<Rightarrow> kv_batch_iterator" where
  "fresh_batch st ni pool_id pool_hash raw = raw
     \<lparr>bi_pool_id := word_of_int pool_id, bi_pool_hash := pool_hash, bi_pos := 0, bi_num_ranges_found := 0,
      bi_it := (pool_iter st ni pool_hash (bi_it raw))\<lparr>it_filter_expiry := it_filter_expiry (bi_it raw)\<rparr>\<rparr>"

lemma fresh_iter:
  fixes raw :: kv_batch_iterator
  assumes pool: "validate_pool KVBEGIN pool_id st" and len: "length (ni_iter ni) = M_NO_ITR"
    and free: "first_free (take NVM_KV_MAX_ITERATORS (ni_iter ni)) = Some i"
  shows "i < NVM_KV_MAX_ITERATORS" "ni_iter ni ! i = None" "i < length (ni_iter ni)"
    "iter_at (int i) (put_iter i (Some bi) ni) = bi"
  using first_free_slot [OF free] len iter_at_put [of "int i" ni bi] by (auto simp: iterator_indices)

lemma begin_iter_fresh:
  fixes raw :: kv_batch_iterator
  assumes pool: "validate_pool KVBEGIN pool_id st" and len: "length (ni_iter ni) = M_NO_ITR"
    and free: "first_free (take NVM_KV_MAX_ITERATORS (ni_iter ni)) = Some i"
  defines "h \<equiv> get_poolid_hash (st_pm st) (word_of_int pool_id)"
  shows "begin_iter E (Some raw) pool_id st w ni =
      map_option (begin_exit st i)
        (iter_over_pool E st (int i) KV_REGULAR_ITER w (put_iter i (Some (fresh_batch st ni pool_id h raw)) ni))"
proof -
  note i = fresh_iter [OF pool len free]
  let ?bi = "raw\<lparr>bi_pool_id := word_of_int pool_id, bi_pool_hash := h, bi_pos := 0, bi_num_ranges_found := 0\<rparr>"
  have vi: "valid_iter st (int i) KV_REGULAR_ITER (put_iter i (Some ?bi) ni) = Inr ?bi"
    using i valid_pool_live [OF pool]
    by (simp add: valid_iter_def validate_iter_def pool_live_def iter_id_ok_def put_iter_def)
  have al: "alloc_iter (Some raw) KV_REGULAR_ITER pool_id h ni = (Inr i, put_iter i (Some ?bi) ni)"
    by (simp add: alloc_iter_def free)
  have "init_iter st (int i) (get_data_start_lba (get_layout st)) (user_data_length st) KV_REGULAR_ITER
      (put_iter i (Some ?bi) ni) = (Inr (), put_iter i (Some (fresh_batch st ni pool_id h raw)) ni)"
    by (simp add: init_iter_def vi fresh_batch_def pool_iter_def) (simp add: put_iter_def)
  then show ?thesis using al by (simp add: begin_iter_def h_def)
qed

lemma kv_begin_setup:
  fixes raw :: kv_batch_iterator
  assumes s: "store_iter kv_id mg = Some (st, ni)" and pool: "validate_pool KVBEGIN pool_id st"
    and len: "length (ni_iter ni) = M_NO_ITR" and free: "first_free (take NVM_KV_MAX_ITERATORS (ni_iter ni)) = Some i"
    and max: "0 < nvm_max_num_logical_iter_ranges (dev_caps (get_store_device st))"
  defines "h \<equiv> get_poolid_hash (st_pm st) (word_of_int pool_id)"
  defines "ni0 \<equiv> put_iter i (Some (fresh_batch st ni pool_id h raw)) ni"
  shows "kv_begin E (Some raw) kv_id pool_id mg w =
      map_option (\<lambda>(r, ni). (r, set_iter kv_id ni mg))
        (map_option (begin_exit st i) (iter_over_pool E st (int i) KV_REGULAR_ITER w ni0))"
    and "iter_ready st (int i) ni0" "iter_at (int i) ni0 = fresh_batch st ni pool_id h raw"
    and "put_iter i None ni0 = ni"
proof -
  note i = fresh_iter [OF pool len free]
  show "kv_begin E (Some raw) kv_id pool_id mg w =
      map_option (\<lambda>(r, ni). (r, set_iter kv_id ni mg))
        (map_option (begin_exit st i) (iter_over_pool E st (int i) KV_REGULAR_ITER w ni0))"
    using s pool begin_iter_fresh [OF pool len free, of E raw w] by (simp add: kv_begin_def ni0_def h_def)
  show at: "iter_at (int i) ni0 = fresh_batch st ni pool_id h raw" unfolding ni0_def by (rule i(4))
  have "iter_wf (fresh_batch st ni pool_id h raw)" using max by (simp add: iter_wf_def fresh_batch_def pool_iter_def)
  then show "iter_ready st (int i) ni0"
    using i len valid_pool_live [OF pool] at
    by (simp add: iter_ready_def validate_iter_ok iter_id_ok_def) (simp add: ni0_def put_iter_def fresh_batch_def)
  show "put_iter i None ni0 = ni"
    using i(2,3) list_update_id [of "ni_iter ni" i] by (cases ni) (simp add: ni0_def put_iter_def)
qed

lemma walk_pool_ranges:
  assumes law: "range_iter_law E (get_store_device st) ahead"
    and s: "store_iter kv_id mg = Some (st, ni)" and pool: "validate_pool KVBEGIN pool_id st"
    and len: "length (ni_iter ni) = M_NO_ITR" and free: "first_free (take NVM_KV_MAX_ITERATORS (ni_iter ni)) = Some i"
    and max: "0 < nvm_max_num_logical_iter_ranges (dev_caps (get_store_device st))" and own: "hash_is_id ni"
  shows "walk_pool E (Some raw) kv_id pool_id mg w =
     (let h = get_poolid_hash (st_pm st) (word_of_int pool_id)
      in Some (filter (range_in_pool ni pool_id h) (ahead w (pool_iter st ni h (bi_it raw))),
               NVM_ERR_OBJECT_NOT_FOUND, mg))"
proof -
  define h where "h = get_poolid_hash (st_pm st) (word_of_int pool_id)"
  define ni0 where "ni0 = put_iter i (Some (fresh_batch st ni pool_id h raw)) ni"
  note b = kv_begin_setup(1) [OF s pool len free max, where raw = raw and E = E and w = w, folded h_def, folded ni0_def]
    kv_begin_setup(2-) [OF s pool len free max, where raw = raw, folded h_def, folded ni0_def]
  define P where "P = in_pool ni0 (iter_at (int i) ni0)"
  have P: "P = range_in_pool ni pool_id h"
    using b(3) pool_id_word [OF pool] by (simp add: P_def in_pool_def range_in_pool_def fun_eq_iff ni0_def fresh_batch_def)
  have up: "upcoming ahead w (iter_at (int i) ni0) = ahead w (pool_iter st ni h (bi_it raw))"
    by (simp add: b(3) upcoming_def fresh_batch_def pool_iter_def)
  have own0: "hash_is_id ni0" using own by (simp add: hash_is_id_def ni0_def)
  have all: "walk_on E kv_id i (set_iter kv_id ni0 mg) w [] =
      Some (filter P (ahead w (pool_iter st ni h (bi_it raw))), NVM_ERR_OBJECT_NOT_FOUND, mg)"
    using walk_on_spec [OF law store_iter_set [OF s] b(2) own0, of w "[]"] b(4) up set_iter_same [OF s]
    by (simp add: P_def)
  have spec: "found_or_end ahead st (int i) w ni0
      (dropWhile (\<lambda>r. \<not> P r) (ahead w (pool_iter st ni h (bi_it raw))))
      (iter_over_pool E st (int i) KV_REGULAR_ITER w ni0)"
    using iter_over_pool_spec [OF law b(2) own0, of w] up by (simp add: P_def)
  have step: "walk_pool E (Some raw) kv_id pool_id mg w = walk_on E kv_id i (set_iter kv_id ni0 mg) w []"
  proof (cases "dropWhile (\<lambda>r. \<not> P r) (ahead w (pool_iter st ni h (bi_it raw)))")
    case Nil
    then obtain ni' where n: "iter_over_pool E st (int i) KV_REGULAR_ITER w ni0 = Some (Inl NVM_ERR_OBJECT_NOT_FOUND, ni')"
      "same_iter (int i) ni0 ni'"
      using spec [unfolded Nil] by (auto simp: found_or_end_def)
    then show ?thesis
      using free_same_iter [OF b(2) n(2)] b(1) store_iter_set [OF s, of ni'] store_iter_set [OF s, of ni0]
      by (simp add: walk_pool_def walk_on.simps [of _ _ _ _ _ "[]"] begin_exit_def
          kv_next_iter [OF store_iter_set [OF s, of ni0]] kv_iteration_end_def)
  next
    case (Cons r rest)
    then obtain ni' where n: "iter_over_pool E st (int i) KV_REGULAR_ITER w ni0 = Some (Inr (), ni')"
      using spec [unfolded Cons] by (auto simp: found_or_end_def)
    then show ?thesis
      using b(1) by (simp add: walk_pool_def walk_on.simps [of _ _ _ "set_iter kv_id ni0 mg"] begin_exit_def
          kv_next_iter [OF store_iter_set [OF s, of ni0]])
  qed
  show ?thesis using step all P by (simp add: h_def Let_def)
qed

text \<open>
  C8: visiting a pool is exact, for a store whose pool ids are their own hash (no more pools than the
  pool bits give) and a device whose iterator obeys its law. A client that begins an iteration
  on a pool, with an iterator slot free, moves it until a call fails and ends it gets, in order and
  once each, those ranges the device reports to the iterator's filter that carry the pool's hash; the
  last error is \<open>NVM_ERR_OBJECT_NOT_FOUND\<close>, and the table of iterators is what it was before.
  The filter of the device is off for the default pool and is the pool's hash for every other id. For
  the id of all pools the walk takes whatever the device reports to a filter with the hash of -1.
\<close>

theorem pool_walk_exact:
  assumes law: "range_iter_law E (get_store_device st) ahead"
    and s: "store_iter kv_id mg = Some (st, ni)" and pool: "validate_pool KVBEGIN pool_id st"
    and len: "length (ni_iter ni) = M_NO_ITR" and free: "first_free (take NVM_KV_MAX_ITERATORS (ni_iter ni)) = Some i"
    and max: "0 < nvm_max_num_logical_iter_ranges (dev_caps (get_store_device st))" and own: "hash_is_id ni"
  shows "walk_pool E (Some raw) kv_id pool_id mg w =
     (let h = get_poolid_hash (st_pm st) (word_of_int pool_id)
      in Some (filter (range_in_pool ni pool_id h) (ahead w (pool_iter st ni h (bi_it raw))),
               NVM_ERR_OBJECT_NOT_FOUND, mg))"
  by (rule walk_pool_ranges [OF assms])

lemma all_ones_hash:
  assumes "(a :: u64) AND ucast m = ucast (-1 :: u32) AND ucast m"
  shows "ucast a AND m = (m :: u32)"
proof (rule bit_word_eqI)
  fix n assume n: "n < LENGTH(32)"
  have "bit (a AND ucast m) n = bit (ucast (-1 :: u32) AND ucast m :: u64) n" by (simp only: assms)
  then show "bit (ucast a AND m) n = bit m n" using n by (auto simp: bit_simps)
qed

text \<open>
  C28: an iteration over all pools does not see all pools. \<open>kv_begin\<close> accepts the id of all pools, -1,
  whose hash is then \<open>0xFFFFFFFF\<close>; \<open>init_iter\<close> switches the filter of the device off for hash 0
  only. On a device that reports to a filter only ranges whose address agrees with the pattern in the bits
  of the mask, for a store with no more pools than the pool bits give, the walk ends with
  \<open>NVM_ERR_OBJECT_NOT_FOUND\<close> and every range it has found has all its pool bits set: no key of a pool
  whose hash is not the mask itself is ever visited.
\<close>

theorem all_pools_walk_misses:
  assumes law: "range_iter_law E (get_store_device st) ahead"
    and s: "store_iter kv_id mg = Some (st, ni)" and pool: "validate_pool KVBEGIN (-1) st"
    and len: "length (ni_iter ni) = M_NO_ITR" and free: "first_free (take NVM_KV_MAX_ITERATORS (ni_iter ni)) = Some i"
    and max: "0 < nvm_max_num_logical_iter_ranges (dev_caps (get_store_device st))" and own: "hash_is_id ni"
    and few: "sm_max_pools (pm_md (st_pm st)) \<le> push_bit (unat (get_val_bits (pm_layout (st_pm st)) - 1)) 1"
    and filters: "\<And>it r. r \<in> set (ahead w it) \<Longrightarrow>
      br_start_lba r AND it_filter_mask it = it_filter_pattern it AND it_filter_mask it"
  shows "\<exists>rs. walk_pool E (Some raw) kv_id (-1) mg w = Some (rs, NVM_ERR_OBJECT_NOT_FOUND, mg) \<and>
    (\<forall>r \<in> set rs. ucast (br_start_lba r) AND ni_pool_mask ni = ni_pool_mask ni)"
proof -
  have h: "get_poolid_hash (st_pm st) (-1) = -1"
    using leD [OF few] by (simp add: get_poolid_hash_def Let_def)
  let ?it = "pool_iter st ni (-1) (bi_it raw)"
  have "ucast (br_start_lba r) AND ni_pool_mask ni = ni_pool_mask ni" if "r \<in> set (ahead w ?it)" for r
    using filters [OF that] by (intro all_ones_hash) (simp add: pool_iter_def)
  then show ?thesis
    using walk_pool_ranges [OF law s pool len free max own, of raw w] by (simp add: h Let_def)
qed

section \<open>A device with a range iterator\<close>

text \<open>Every mapped sector is a range of its own; the range to iterate over is the cursor.\<close>

definition unit_range :: "nat \<Rightarrow> nvm_block_range" where
  "unit_range i = \<lparr>br_start_lba = of_nat i, br_length = 1\<rparr>"

definition sim_range_end :: "nvm_logical_range_iter \<Rightarrow> nat" where
  "sim_range_end it =
     min (2 ^ 64) (unat (br_start_lba (it_range_to_iterate it)) + br_length (it_range_to_iterate it))"

definition sim_selects :: "sectors \<Rightarrow> nvm_logical_range_iter \<Rightarrow> nat \<Rightarrow> bool" where
  "sim_selects w it i \<longleftrightarrow> w i \<noteq> None \<and> of_nat i AND it_filter_mask it = it_filter_pattern it AND it_filter_mask it"

definition sim_sectors :: "sectors \<Rightarrow> nvm_logical_range_iter \<Rightarrow> nat list" where
  "sim_sectors w it = filter (sim_selects w it) [unat (br_start_lba (it_range_to_iterate it))..<sim_range_end it]"

definition sim_ahead :: "sectors \<Rightarrow> nvm_logical_range_iter \<Rightarrow> nvm_block_range list" where
  "sim_ahead w it = map unit_range (sim_sectors w it)"

definition sim_range_iter :: "int \<Rightarrow> nvm_logical_range_iter \<Rightarrow> sectors \<Rightarrow> int \<times> nvm_logical_range_iter" where
  "sim_range_iter h it w =
     (let got = take (it_max_ranges it) (sim_sectors w it)
      in if got = [] then (0, it)
         else
           (int (length got),
            it\<lparr>it_range_to_iterate :=
                 \<lparr>br_start_lba = of_nat (Suc (last got)), br_length = sim_range_end it - Suc (last got)\<rparr>,
               it_ranges := map unit_range got @ drop (length got) (it_ranges it)\<rparr>))"

definition sim_iter_env :: "sectors nvm_env" where
  "sim_iter_env = sim_env
     \<lparr>env_range_iter := sim_range_iter,
      env_capacity := (\<lambda>h w. Some \<lparr>cp_total_phys = 2 ^ 30, cp_used_phys = 2 ^ 20, cp_total_logical = 2 ^ 48\<rparr>)\<rparr>"

lemma drop_filter_upt:
  assumes "0 < m" and "m \<le> length (filter Q [a..<b])"
  shows "drop m (filter Q [a..<b]) = filter Q [Suc (last (take m (filter Q [a..<b])))..<b]"
  using assms
proof (induction "b - a" arbitrary: a m)
  case 0
  then show ?case by simp
next
  case (Suc d)
  then have ab: "[a..<b] = a # [Suc a..<b]" by (simp add: upt_conv_Cons)
  have IH: "drop k (filter Q [Suc a..<b]) = filter Q [Suc (last (take k (filter Q [Suc a..<b])))..<b]"
    if "0 < k" "k \<le> length (filter Q [Suc a..<b])" for k
    using Suc.hyps(1) [of "Suc a" k] Suc.hyps(2) that by simp
  show ?case
  proof (cases "Q a")
    case False
    then show ?thesis using IH [of m] Suc.prems ab by simp
  next
    case True
    note Qa = this
    show ?thesis
    proof (cases "m = 1")
      case True
      then show ?thesis using ab Qa by simp
    next
      case False
      then have "0 < m - 1" "m - 1 \<le> length (filter Q [Suc a..<b])" using Suc.prems ab Qa by simp_all
      moreover from this have "filter Q [Suc a..<b] \<noteq> []" by auto
      ultimately show ?thesis using IH [of "m - 1"] ab Qa Suc.prems by (cases m) simp_all
    qed
  qed
qed

lemma sim_range_iter_law: "range_iter_law sim_iter_env dev sim_ahead"
  unfolding range_iter_law_def
proof (intro allI)
  fix it :: nvm_logical_range_iter and w :: sectors
  define L where "L = sim_sectors w it"
  define got where "got = min (it_max_ranges it) (length (sim_ahead w it))"
  have got: "got = length (take (it_max_ranges it) L)" by (simp add: got_def L_def sim_ahead_def)
  show "let (n, it') = env_range_iter sim_iter_env (dev_handle dev) it w;
          got = min (it_max_ranges it) (length (sim_ahead w it))
        in n = int got \<and> take got (it_ranges it') = take got (sim_ahead w it) \<and> got \<le> length (it_ranges it') \<and>
           sim_ahead w it' = drop got (sim_ahead w it) \<and> it_max_ranges it' = it_max_ranges it \<and>
           it_filter_expiry it' = it_filter_expiry it"
  proof (cases "take (it_max_ranges it) L = []")
    case True
    then have "got = 0" "it_max_ranges it = 0 \<or> L = []" using got by auto
    then have g: "min (it_max_ranges it) (length (sim_ahead w it)) = 0"
      and e: "env_range_iter sim_iter_env (dev_handle dev) it w = (0, it)"
      using got_def by (simp_all add: sim_iter_env_def sim_range_iter_def Let_def flip: L_def)
    show ?thesis unfolding Let_def g e by simp
  next
    case False
    let ?g = "take (it_max_ranges it) L" and ?e = "sim_range_end it"
    define n where "n = Suc (last ?g)"
    have pos: "0 < got" "got \<le> length L" "take got L = ?g" using False got by (auto simp: min_def)
    have "last ?g \<in> set L" using False in_set_takeD [OF last_in_set] by blast
    then have e: "n \<le> ?e" "?e \<le> 2 ^ 64" by (auto simp: L_def sim_sectors_def n_def sim_range_end_def)
    define it' where "it' = it\<lparr>it_range_to_iterate := \<lparr>br_start_lba = of_nat n, br_length = ?e - n\<rparr>,
        it_ranges := map unit_range ?g @ drop (length ?g) (it_ranges it)\<rparr>"
    have r: "env_range_iter sim_iter_env (dev_handle dev) it w = (int got, it')"
      using False got by (simp add: sim_iter_env_def sim_range_iter_def Let_def it'_def n_def flip: L_def)
    have sel: "sim_selects w it' = sim_selects w it" by (simp add: sim_selects_def it'_def fun_eq_iff)
    have "sim_sectors w it' = filter (sim_selects w it) [n..<?e]"
    proof (cases "n = 2 ^ 64")
      case True
      then show ?thesis using e by (simp add: sim_sectors_def sim_range_end_def it'_def)
    next
      case False
      then have "unat (of_nat n :: u64) = n" using e by (simp add: unat_of_nat)
      then show ?thesis unfolding sim_sectors_def sel using e by (simp add: sim_range_end_def it'_def)
    qed
    also have "\<dots> = drop got L"
      using drop_filter_upt [of got "sim_selects w it"] pos by (simp add: L_def sim_sectors_def n_def)
    finally have "sim_ahead w it' = drop got (sim_ahead w it)" by (simp add: sim_ahead_def drop_map L_def)
    moreover have "take got (it_ranges it') = take got (sim_ahead w it)" "got \<le> length (it_ranges it')"
      using got pos(3) by (simp_all add: it'_def sim_ahead_def take_map flip: L_def)
    ultimately show ?thesis using r by (simp add: Let_def it'_def got_def)
  qed
qed

definition sim_iterator :: nvm_kv_iterator where
  "sim_iterator = iterator_new sim_bufs 11 2 get_all_poolid"

definition sim_iter_mgr :: kv_iter_mgr where
  "sim_iter_mgr = \<lparr>mg_bufs = sim_bufs, mg_map = [1 \<mapsto> sim_store], mg_iter = [1 \<mapsto> sim_iterator]\<rparr>"

definition raw_iter :: kv_batch_iterator where
  "raw_iter = \<lparr>bi_pool_id = 0, bi_pool_hash = 0, bi_num_ranges_found = 0, bi_pos = 0,
     bi_it = \<lparr>it_range_to_iterate = \<lparr>br_start_lba = 0, br_length = 0\<rparr>, it_filter_mask = 0, it_filter_pattern = 0,
              it_filter_expiry = 0, it_max_ranges = 0, it_ranges = []\<rparr>\<rparr>"

lemma filter_upt_single:
  assumes "a \<le> x" "x < b" "\<And>i. Q i \<longleftrightarrow> i = x"
  shows "filter Q [a..<b] = [x]"
proof -
  have "[a..<b] = [a..<x] @ x # [Suc x..<b]" using assms(1,2) by (metis le_add_diff_inverse less_imp_le_nat upt_add_eq_append upt_conv_Cons)
  then show ?thesis using assms(3) by (simp add: filter_empty_conv)
qed

lemma filter_upt_unique:
  fixes a b x :: nat
  assumes "a \<le> x" "x < b" "\<And>i. a \<le> i \<Longrightarrow> Q i \<longleftrightarrow> i = x"
  shows "filter Q [a..<b] = [x]"
proof -
  have "filter Q [a..<b] = filter (\<lambda>i. i = x) [a..<b]" using assms(3) by (intro filter_cong) simp_all
  also have "\<dots> = [x]" using assms(1,2) by (intro filter_upt_single) simp_all
  finally show ?thesis .
qed

lemma filter_upt_two:
  fixes a b x y :: nat
  assumes "a \<le> x" "x < y" "y < b" "\<And>i. a \<le> i \<Longrightarrow> Q i \<longleftrightarrow> i = x \<or> i = y"
  shows "filter Q [a..<b] = [x, y]"
proof -
  have "[a..<b] = [a..<y] @ [y..<b]" using upt_add_eq_append [of a y "b - y"] assms(1-3) by simp
  moreover have "filter Q [a..<y] = [x]"
  proof -
    have "filter Q [a..<y] = filter (\<lambda>i. i = x) [a..<y]" using assms(4) by (intro filter_cong) auto
    then show ?thesis using filter_upt_unique [of a x y "\<lambda>i. i = x"] assms(1,2) by simp
  qed
  moreover have "filter Q [y..<b] = [y]"
  proof -
    have "filter Q [y..<b] = filter (\<lambda>i. i = y) [y..<b]" using assms by (intro filter_cong) auto
    then show ?thesis using filter_upt_unique [of y y b "\<lambda>i. i = y"] assms(3) by simp
  qed
  ultimately show ?thesis by simp
qed

lemma sim_data: "get_data_start_lba demo_layout = 8192" "get_kv_len demo_layout = 281474976710656"
  by code_simp+

lemma first_free_replicate: "0 < n \<Longrightarrow> first_free (replicate n None) = Some 0"
  by (cases n) simp_all

lemma sim_iter_setup:
  "store_iter 1 sim_iter_mgr = Some (sim_store, sim_iterator)" "validate_pool KVBEGIN 0 sim_store"
  "length (ni_iter sim_iterator) = M_NO_ITR" "first_free (take NVM_KV_MAX_ITERATORS (ni_iter sim_iterator)) = Some 0"
  "0 < nvm_max_num_logical_iter_ranges (dev_caps (get_store_device sim_store))" "hash_is_id sim_iterator"
  "get_poolid_hash (st_pm sim_store) 0 = 0"
proof -
  show "store_iter 1 sim_iter_mgr = Some (sim_store, sim_iterator)" by (simp add: store_iter_def sim_iter_mgr_def)
  show "validate_pool KVBEGIN 0 sim_store"
    using sim_pool_ready by (simp add: pool_ready_def validate_pool_def sim_key_def)
  show "get_poolid_hash (st_pm sim_store) 0 = 0"
    by (simp add: get_poolid_hash_def sim_store_defs sim_layout Let_def)
qed (simp_all add: sim_iterator_def iterator_new_def iterator_indices hash_is_id_def sim_device_def sim_caps_def
    first_free_replicate)

lemma sim_pool_iter:
  "it_filter_mask (pool_iter sim_store sim_iterator 0 it) = 0"
  "br_start_lba (it_range_to_iterate (pool_iter sim_store sim_iterator 0 it)) = 8192"
  "br_length (it_range_to_iterate (pool_iter sim_store sim_iterator 0 it)) = 281474976702464"
  by (simp_all add: pool_iter_def user_data_length_def get_layout_def sim_store_def sim_pm_def demo_pm_def sim_data)

theorem pool_walk_exact_witness:
  "walk_pool sim_iter_env (Some raw_iter) 1 0 sim_iter_mgr [20480 \<mapsto> zeros 512] =
     Some ([\<lparr>br_start_lba = 20480, br_length = 1\<rparr>], NVM_ERR_OBJECT_NOT_FOUND, sim_iter_mgr)"
proof -
  let ?it = "pool_iter sim_store sim_iterator 0 (bi_it raw_iter)" and ?w = "[20480 \<mapsto> zeros 512] :: sectors"
  have sel: "sim_selects ?w ?it i \<longleftrightarrow> i = 20480" for i by (simp add: sim_selects_def sim_pool_iter)
  have "sim_sectors ?w ?it = [20480]"
    unfolding sim_sectors_def sim_range_end_def sim_pool_iter by (rule filter_upt_single) (simp_all add: sel)
  then have a: "sim_ahead ?w ?it = [\<lparr>br_start_lba = 20480, br_length = 1\<rparr>]" by (simp add: sim_ahead_def unit_range_def)
  have m: "ni_pool_mask sim_iterator = 2047" by (simp add: sim_iterator_def iterator_new_def)
  show ?thesis
    using pool_walk_exact [OF sim_range_iter_law sim_iter_setup(1-6), of raw_iter ?w] sim_iter_setup(7) a m
    by (simp add: Let_def range_in_pool_def)
qed

theorem all_pools_walk_misses_witness:
  "\<exists>rs. walk_pool sim_iter_env (Some raw_iter) 1 (-1) sim_iter_mgr [20480 \<mapsto> zeros 512] =
       Some (rs, NVM_ERR_OBJECT_NOT_FOUND, sim_iter_mgr) \<and>
     (\<forall>r \<in> set rs. ucast (br_start_lba r) AND (2047 :: u32) = 2047)"
proof -
  have m: "ni_pool_mask sim_iterator = 2047" by (simp add: sim_iterator_def iterator_new_def)
  have pool: "validate_pool KVBEGIN (-1) sim_store" by (simp add: validate_pool_def get_all_poolid_def M_POOLID_ALL_def)
  have few: "sm_max_pools (pm_md (st_pm sim_store)) \<le>
      push_bit (unat (get_val_bits (pm_layout (st_pm sim_store)) - 1)) 1"
    by (simp add: sim_store_defs sim_layout)
  have "br_start_lba r AND it_filter_mask it = it_filter_pattern it AND it_filter_mask it"
    if "r \<in> set (sim_ahead w it)" for w it r
    using that by (auto simp: sim_ahead_def unit_range_def sim_sectors_def sim_selects_def)
  from all_pools_walk_misses [OF sim_range_iter_law sim_iter_setup(1) pool sim_iter_setup(3-6) few this]
  show ?thesis by (simp add: m)
qed

lemma kv_begin_returns:
  assumes law: "range_iter_law E (get_store_device st) ahead"
    and s: "store_iter kv_id mg = Some (st, ni)" and pool: "validate_pool KVBEGIN pool_id st"
    and len: "length (ni_iter ni) = M_NO_ITR" and free: "first_free (take NVM_KV_MAX_ITERATORS (ni_iter ni)) = Some i"
    and max: "0 < nvm_max_num_logical_iter_ranges (dev_caps (get_store_device st))" and own: "hash_is_id ni"
  obtains r mg' where "kv_begin E (Some raw) kv_id pool_id mg w = Some (r, mg')"
proof -
  define ni0 where
    "ni0 = put_iter i (Some (fresh_batch st ni pool_id (get_poolid_hash (st_pm st) (word_of_int pool_id)) raw)) ni"
  note b = kv_begin_setup(1) [OF s pool len free max, where raw = raw and E = E and w = w, folded ni0_def]
    kv_begin_setup(2) [OF s pool len free max, where raw = raw, folded ni0_def]
  have "hash_is_id ni0" using own by (simp add: hash_is_id_def ni0_def)
  then have "iter_over_pool E st (int i) KV_REGULAR_ITER w ni0 \<noteq> None"
    using iter_over_pool_spec [OF law b(2), of w] by (auto simp: found_or_end_def split: list.splits)
  then show thesis using that b(1) by (auto split: prod.splits)
qed

section \<open>The slots of the table\<close>

definition slot_kept :: "int \<Rightarrow> nvm_kv_iterator \<Rightarrow> nvm_kv_iterator \<Rightarrow> bool" where
  "slot_kept it_id ni ni' \<longleftrightarrow>
     (\<forall>b. nat it_id < length (ni_iter ni) \<longrightarrow> ni_iter ni ! nat it_id = Some b \<longrightarrow>
       (\<exists>b'. ni_iter ni' = (ni_iter ni)[nat it_id := Some b'] \<and> bi_pool_id b' = bi_pool_id b))"

lemma slot_kept_refl: "ni_iter ni' = ni_iter ni \<Longrightarrow> slot_kept it_id ni ni'"
  unfolding slot_kept_def by (metis list_update_id)

lemma slot_kept_trans: "slot_kept it_id ni ni' \<Longrightarrow> slot_kept it_id ni' ni'' \<Longrightarrow> slot_kept it_id ni ni''"
  unfolding slot_kept_def by fastforce

lemma slot_kept_put:
  assumes "ni_iter ni ! nat it_id = Some b" "bi_pool_id b' = bi_pool_id b"
  shows "slot_kept it_id ni (put_iter (nat it_id) (Some b') ni)"
  using assms by (auto simp: slot_kept_def put_iter_def)

lemma iterate_slot: "slot_kept it_id ni (snd (iterate E st it_id iter_type w ni))"
proof (cases "valid_iter st it_id iter_type ni")
  case (Inl e)
  then show ?thesis by (simp add: iterate_def slot_kept_refl)
next
  case (Inr bi)
  then have b: "ni_iter ni ! nat it_id = Some bi"
    by (auto simp: valid_iter_def validate_iter_ok split: sum.splits option.splits)
  show ?thesis
    using Inr slot_kept_put [OF b] slot_kept_refl [of ni ni]
    by (simp add: iterate_def Let_def split: sum.split prod.split)
qed

lemma get_poolid_slots: "get_poolid E st key_loc w ni = Some q \<Longrightarrow> ni_iter (snd q) = ni_iter ni"
  by (auto simp: get_poolid_def Let_def)

lemma iter_over_loop_slot:
  assumes "iter_over_loop E st it_id iter_type w ni = Some s"
  shows "slot_kept it_id ni (snd s)"
  using assms
proof (induction rule: iter_over_loop.raw_induct [rotated, consumes 1,
      where P = "\<lambda>E st it_id iter_type w ni s. slot_kept it_id ni (snd s)", case_names loop])
  case (loop loop E st it_id iter_type w ni s)
  define s0 where "s0 = iterate E st it_id iter_type w ni"
  have k: "slot_kept it_id ni (snd s0)" unfolding s0_def by (rule iterate_slot)
  note body = loop(2) [folded s0_def, unfolded Let_def]
  show ?case
  proof (cases "isl (fst s0) \<or> (pool_matches (iter_at it_id (snd s0)) (snd s0) \<and> hash_is_id (snd s0))")
    case True
    then show ?thesis using body k by (auto split: if_splits)
  next
    case False
    show ?thesis
    proof (cases "pool_matches (iter_at it_id (snd s0)) (snd s0)")
      case False
      then have "loop E st it_id iter_type w (snd s0) = Some s" using body \<open>\<not> (isl (fst s0) \<or> _)\<close> by simp
      then show ?thesis using loop(1) slot_kept_trans [OF k] by blast
    next
      case True
      then obtain q where q: "get_poolid E st (br_start_lba (current_range (iter_at it_id (snd s0)))) w (snd s0) = Some q"
        "(case fst q of Inl e \<Rightarrow> Some (Inl e, snd q)
          | Inr p \<Rightarrow> if p < 0 then Some (Inl NVM_ERR_INTERNAL_FAILURE, snd q)
              else if p = sint (bi_pool_id (iter_at it_id (snd s0))) then Some (Inr (), snd q)
              else loop E st it_id iter_type w (snd q)) = Some s"
        using body False by (auto simp: bind_eq_Some_conv)
      have kq: "slot_kept it_id ni (snd q)"
        using slot_kept_trans [OF k slot_kept_refl [OF get_poolid_slots [OF q(1)]]] .
      show ?thesis
      proof (cases "fst q")
        case (Inl e)
        then show ?thesis using q(2) kq by auto
      next
        case (Inr p)
        then show ?thesis using q(2) kq loop(1) slot_kept_trans [OF kq] by (auto split: if_splits)
      qed
    qed
  qed
qed

lemma iter_over_pool_slot: "iter_over_pool E st it_id iter_type w ni = Some s \<Longrightarrow> slot_kept it_id ni (snd s)"
  using iter_over_loop_slot [of E st it_id iter_type w ni s] slot_kept_refl [of ni ni it_id]
  by (auto simp: iter_over_pool_def split: sum.splits)

text \<open>
  C27: \<open>kv_begin\<close> keeps the table of iterators, whatever the device answers: when it
  succeeds, the iterator it returns is one of the first \<open>NVM_KV_MAX_ITERATORS\<close> slots that was
  free, and only that slot is taken; when it fails, at whatever step, the slots are those before
  the call.
\<close>

theorem kv_begin_slots:
  assumes b: "kv_begin E malloc kv_id pool_id mg w = Some (r, mg')"
    and s: "store_iter kv_id mg = Some (st, ni)" and len: "length (ni_iter ni) = M_NO_ITR"
  shows "\<exists>ni'. store_iter kv_id mg' = Some (st, ni') \<and>
     (case r of
        Inl e \<Rightarrow> ni_iter ni' = ni_iter ni
      | Inr i \<Rightarrow> i < NVM_KV_MAX_ITERATORS \<and> ni_iter ni ! i = None \<and> (\<exists>bi. ni_iter ni' = (ni_iter ni)[i := Some bi]))"
proof (cases "validate_pool KVBEGIN pool_id st")
  case False
  then have "r = Inl NVM_ERR_INVALID_INPUT" "mg' = mg" using b s by (simp_all add: kv_begin_def)
  then show ?thesis using s by simp
next
  case pool: True
  define h where "h = get_poolid_hash (st_pm st) (word_of_int pool_id)"
  have bi: "map_option (\<lambda>(r, ni). (r, set_iter kv_id ni mg)) (begin_iter E malloc pool_id st w ni) = Some (r, mg')"
    using b s pool by (simp add: kv_begin_def)
  then obtain ni' where ni': "begin_iter E malloc pool_id st w ni = Some (r, ni')" "mg' = set_iter kv_id ni' mg" by auto
  have s': "store_iter kv_id mg' = Some (st, ni')" using store_iter_set [OF s] ni'(2) by simp
  show ?thesis
  proof (cases "malloc = None \<or> first_free (take NVM_KV_MAX_ITERATORS (ni_iter ni)) = None")
    case True
    then obtain e where "alloc_iter malloc KV_REGULAR_ITER pool_id h ni = (Inl e, ni)"
      by (cases malloc) (simp_all add: alloc_iter_def)
    then have "r = Inl e" "ni' = ni" using ni'(1) by (simp_all add: begin_iter_def h_def)
    then show ?thesis using s' by simp
  next
    case False
    then obtain raw i where f: "malloc = Some raw" "first_free (take NVM_KV_MAX_ITERATORS (ni_iter ni)) = Some i" by auto
    have i: "i < NVM_KV_MAX_ITERATORS" "ni_iter ni ! i = None" "i < length (ni_iter ni)"
      using first_free_slot [OF f(2)] len by (auto simp: iterator_indices)
    define bi where "bi = fresh_batch st ni pool_id h raw"
    define ni0 where "ni0 = put_iter i (Some bi) ni"
    obtain q where q: "iter_over_pool E st (int i) KV_REGULAR_ITER w ni0 = Some q" "begin_exit st i q = (r, ni')"
      using ni'(1) begin_iter_fresh [OF pool len f(2), of E raw w] by (auto simp: f(1) h_def ni0_def bi_def)
    have "slot_kept (int i) ni0 (snd q)" by (rule iter_over_pool_slot [OF q(1)])
    then obtain b' where b': "ni_iter (snd q) = (ni_iter ni)[i := Some b']" "bi_pool_id b' = bi_pool_id bi"
      using i(3) by (auto simp: slot_kept_def ni0_def put_iter_def)
    show ?thesis
    proof (cases "fst q")
      case (Inl e)
      have "validate_iter st (int i) KV_REGULAR_ITER (snd q) = Inr ()"
        using b' i valid_pool_live [OF pool] by (simp add: validate_iter_ok iter_id_ok_def bi_def fresh_batch_def)
      then have "free_iterator st (int i) KV_REGULAR_ITER (snd q) = (Inr (), put_iter i None (snd q))"
        by (simp add: free_iterator_def)
      moreover obtain n where n: "q = (Inl e, n)" using Inl by (cases q) simp
      ultimately have "begin_exit st i q = (Inl e, put_iter i None (snd q))"
        unfolding begin_exit_def n by simp
      then have "r = Inl e" "ni_iter ni' = (ni_iter ni)[i := None]"
        using q(2) b'(1) by (auto simp: put_iter_def)
      moreover have "(ni_iter ni)[i := None] = ni_iter ni" using i(2) list_update_id [of "ni_iter ni" i] by simp
      ultimately show ?thesis using s' by simp
    next
      case (Inr u)
      then have "r = Inr i" "ni' = snd q" using q(2) by (cases q; simp add: begin_exit_def)+
      then show ?thesis using s' i b'(1) by auto
    qed
  qed
qed

theorem kv_begin_slots_witness:
  "\<exists>r mg'. kv_begin sim_iter_env (Some raw_iter) 1 0 sim_iter_mgr (\<lambda>i. None) = Some (r, mg') \<and>
     (\<exists>ni'. store_iter 1 mg' = Some (sim_store, ni') \<and>
        (case r of
           Inl e \<Rightarrow> ni_iter ni' = ni_iter sim_iterator
         | Inr i \<Rightarrow> i < NVM_KV_MAX_ITERATORS \<and> ni_iter sim_iterator ! i = None \<and>
             (\<exists>bi. ni_iter ni' = (ni_iter sim_iterator)[i := Some bi])))"
proof -
  obtain r mg' where "kv_begin sim_iter_env (Some raw_iter) 1 0 sim_iter_mgr (\<lambda>i. None) = Some (r, mg')"
    using kv_begin_returns [OF sim_range_iter_law sim_iter_setup(1-6)] by metis
  from this kv_begin_slots [OF this sim_iter_setup(1,3)] show ?thesis by blast
qed

section \<open>After the end\<close>

text \<open>
  C36: the end of an iteration is not sticky, on a store with no more pools than the pool bits give (with more,
  the pool id of the key is compared as well). When the device has no more ranges for an iterator over all
  pools whose last batch had two ranges or more, \<open>kv_next\<close> returns \<open>NVM_ERR_OBJECT_NOT_FOUND\<close>,
  and the next \<open>kv_next\<close> succeeds and stands on the second range of that batch's
  array: \<open>iterate\<close> resets the position and leaves the number of ranges found.
\<close>

theorem kv_next_after_end_succeeds:
  assumes s: "store_iter kv_id mg = Some (st, ni)" and ready: "iter_ready st it_id ni" and own: "hash_is_id ni"
    and all: "sint (bi_pool_id (iter_at it_id ni)) = ni_all_pool_id ni"
    and last: "bi_num_ranges_found (iter_at it_id ni) \<le> Suc (bi_pos (iter_at it_id ni))"
    and batch: "1 < bi_num_ranges_found (iter_at it_id ni)"
    and dev: "env_range_iter E (dev_handle (get_store_device st)) ((bi_it (iter_at it_id ni))\<lparr>it_filter_expiry := 0\<rparr>) w =
      (0, it')"
  shows "\<exists>mg' mg'' ni'. kv_next E kv_id it_id mg w = Some (Inl NVM_ERR_OBJECT_NOT_FOUND, mg') \<and>
     kv_next E kv_id it_id mg' w = Some (Inr (), mg'') \<and> store_iter kv_id mg'' = Some (st, ni') \<and>
     current_range (iter_at it_id ni') = it_ranges it' ! 1"
proof -
  note v = valid_regular [OF ready]
  define bi where "bi = (iter_at it_id ni)\<lparr>bi_pos := 0, bi_it := it'\<rparr>"
  define ni1 where "ni1 = put_iter (nat it_id) (Some bi) ni"
  define ni2 where "ni2 = put_iter (nat it_id) (Some (bi\<lparr>bi_pos := 1\<rparr>)) ni1"
  have live: "iter_id_ok it_id KV_REGULAR_ITER" "pool_live st (bi_pool_id bi)"
    using ready v(4) by (simp_all add: iter_ready_def validate_iter_ok bi_def)
  have v1: "valid_iter st it_id KV_REGULAR_ITER ni1 = Inr bi"
    using live v(3) by (simp add: valid_iter_def validate_iter_def ni1_def put_iter_def pool_live_def)
  have one: "iter_over_pool E st it_id KV_REGULAR_ITER w ni = Some (Inl NVM_ERR_OBJECT_NOT_FOUND, ni1)"
    using v(1) last dev
    by (simp add: iter_over_pool_def iter_over_loop.simps iterate_def set_expiry_filter_def Let_def ni1_def bi_def)
  have it2: "iterate E st it_id KV_REGULAR_ITER w ni1 = (Inr (), ni2)"
    using v1 batch by (simp add: iterate_def ni2_def bi_def)
  have at2: "iter_at it_id ni2 = bi\<lparr>bi_pos := 1\<rparr>"
    unfolding ni2_def using v(3) by (intro iter_at_put) (simp add: ni1_def)
  have "ni_all_pool_id ni2 = ni_all_pool_id ni" by (simp add: ni2_def ni1_def)
  then have "pool_matches (iter_at it_id ni2) ni2" "hash_is_id ni2"
    using all own by (simp_all add: at2 pool_matches_def bi_def) (simp add: hash_is_id_def ni2_def ni1_def)
  then have two: "iter_over_pool E st it_id KV_REGULAR_ITER w ni1 = Some (Inr (), ni2)"
    using v1 it2 by (simp add: iter_over_pool_def iter_over_loop.simps Let_def)
  have "current_range (iter_at it_id ni2) = it_ranges it' ! 1" by (simp add: at2 current_range_def bi_def)
  moreover have "kv_next E kv_id it_id mg w = Some (Inl NVM_ERR_OBJECT_NOT_FOUND, set_iter kv_id ni1 mg)"
    using one by (simp add: kv_next_iter [OF s])
  moreover have "kv_next E kv_id it_id (set_iter kv_id ni1 mg) w = Some (Inr (), set_iter kv_id ni2 mg)"
    using two by (simp add: kv_next_iter [OF store_iter_set [OF s, of ni1]])
  ultimately show ?thesis using store_iter_set [OF s, of ni2] by blast
qed

theorem kv_next_after_end_succeeds_witness:
  "\<exists>mg ni. store_iter 1 mg = Some (sim_store, ni) \<and>
     (\<exists>mg' mg'' ni'. kv_next sim_iter_env 1 0 mg (\<lambda>i. None) = Some (Inl NVM_ERR_OBJECT_NOT_FOUND, mg') \<and>
       kv_next sim_iter_env 1 0 mg' (\<lambda>i. None) = Some (Inr (), mg'') \<and> store_iter 1 mg'' = Some (sim_store, ni') \<and>
       current_range (iter_at 0 ni') = \<lparr>br_start_lba = 9000, br_length = 1\<rparr>)"
proof -
  define it where "it = (bi_it raw_iter)
     \<lparr>it_max_ranges := 8,
      it_ranges := [\<lparr>br_start_lba = 8192, br_length = 1\<rparr>, \<lparr>br_start_lba = 9000, br_length = 1\<rparr>]\<rparr>"
  define bi where "bi = raw_iter\<lparr>bi_pool_id := - 1, bi_num_ranges_found := 2, bi_pos := 1, bi_it := it\<rparr>"
  define ni where "ni = put_iter 0 (Some bi) sim_iterator"
  define mg where "mg = set_iter 1 ni sim_iter_mgr"
  note si = sim_iter_setup
  have at: "iter_at 0 ni = bi" using iter_at_put [of 0 sim_iterator bi] si(3) by (simp add: ni_def iterator_indices)
  have pool: "bi_pool_id bi = word_of_int get_all_poolid" "get_all_poolid = - 1"
    by (simp_all add: bi_def get_all_poolid_def M_POOLID_ALL_def)
  have s: "store_iter 1 mg = Some (sim_store, ni)" unfolding mg_def by (rule store_iter_set [OF si(1)])
  have "pool_live sim_store (bi_pool_id bi)" unfolding pool_live_def using pool(1) by blast
  moreover have "ni_iter ni ! nat 0 = Some bi" "length (ni_iter ni) = M_NO_ITR"
    using si(3) by (simp_all add: ni_def put_iter_def iterator_indices)
  moreover have "iter_wf bi" by (simp add: iter_wf_def bi_def it_def)
  ultimately have "iter_ready sim_store 0 ni"
    unfolding iter_ready_def validate_iter_ok at by (simp add: iter_id_ok_def iterator_indices)
  moreover have "hash_is_id ni" using si(6) by (simp add: ni_def hash_is_id_def)
  moreover have "sint (bi_pool_id (iter_at 0 ni)) = ni_all_pool_id ni"
    unfolding at by (simp add: ni_def sim_iterator_def iterator_new_def bi_def get_all_poolid_def M_POOLID_ALL_def)
  moreover have "bi_num_ranges_found (iter_at 0 ni) \<le> Suc (bi_pos (iter_at 0 ni))" "1 < bi_num_ranges_found (iter_at 0 ni)"
    by (simp_all add: at bi_def)
  moreover have "sim_sectors (\<lambda>i. None) (it\<lparr>it_filter_expiry := 0\<rparr>) = []"
    by (simp add: sim_sectors_def sim_selects_def)
  then have "env_range_iter sim_iter_env (dev_handle (get_store_device sim_store)) ((bi_it (iter_at 0 ni))\<lparr>it_filter_expiry := 0\<rparr>)
      (\<lambda>i. None) = (0, it\<lparr>it_filter_expiry := 0\<rparr>)"
    by (simp add: at bi_def sim_iter_env_def sim_range_iter_def)
  ultimately have "\<exists>mg' mg'' ni'. kv_next sim_iter_env 1 0 mg (\<lambda>i. None) = Some (Inl NVM_ERR_OBJECT_NOT_FOUND, mg') \<and>
       kv_next sim_iter_env 1 0 mg' (\<lambda>i. None) = Some (Inr (), mg'') \<and> store_iter 1 mg'' = Some (sim_store, ni') \<and>
       current_range (iter_at 0 ni') = it_ranges (it\<lparr>it_filter_expiry := 0\<rparr>) ! 1"
    by (intro kv_next_after_end_succeeds [OF s])
  then show ?thesis using s by (simp add: it_def) blast
qed

section \<open>The number of keys\<close>

text \<open>
  C32: \<open>kv_get_store_info\<close> returns, and the number of keys it reports is the number of ranges
  that the device holds in the data of the store, counted batch by batch without a pool or expiry
  filter.
\<close>

theorem kv_get_store_info_counts:
  assumes law: "range_iter_law E (get_store_device st) ahead" and st: "mg_map mg kv_id = Some st"
    and cap: "env_capacity E (dev_handle (get_store_device st)) w = Some c"
    and max: "0 < nvm_max_num_logical_iter_ranges (dev_caps (get_store_device st))"
  shows "\<exists>si. kv_get_store_info E (Some it) kv_id False mg w = Some (Inr si) \<and>
     si_num_keys si = int (length (ahead w (it
       \<lparr>it_range_to_iterate := \<lparr>br_start_lba = get_data_start_lba (get_layout st), br_length = user_data_length st\<rparr>,
        it_max_ranges := nvm_max_num_logical_iter_ranges (dev_caps (get_store_device st)),
        it_filter_mask := 0, it_filter_expiry := 0\<rparr>)))"
  using count_loop_spec [OF law] max
  by (simp add: kv_get_store_info_def st cap count_ranges_def Let_def)

theorem kv_get_store_info_counts_witness:
  "\<exists>si. kv_get_store_info sim_iter_env (Some (bi_it raw_iter)) 1 False sim_mgr [20480 \<mapsto> zeros 512] = Some (Inr si) \<and>
     si_num_keys si = 1"
proof -
  let ?it = "(bi_it raw_iter)
       \<lparr>it_range_to_iterate :=
          \<lparr>br_start_lba = get_data_start_lba (get_layout sim_store), br_length = user_data_length sim_store\<rparr>,
        it_max_ranges := nvm_max_num_logical_iter_ranges (dev_caps (get_store_device sim_store)),
        it_filter_mask := 0, it_filter_expiry := 0\<rparr>"
    and ?w = "[20480 \<mapsto> zeros 512] :: sectors"
  obtain c where c: "env_capacity sim_iter_env (dev_handle (get_store_device sim_store)) ?w = Some c"
    by (simp add: sim_iter_env_def sim_env_def)
  have sel: "sim_selects ?w ?it i \<longleftrightarrow> i = 20480" for i by (simp add: sim_selects_def)
  have "unat (br_start_lba (it_range_to_iterate ?it)) = 8192" "sim_range_end ?it = 281474976710656"
    using sim_pool_iter(2,3) by (simp_all add: pool_iter_def sim_range_end_def)
  then have "sim_sectors ?w ?it = [20480]"
    unfolding sim_sectors_def by (intro filter_upt_single [OF _ _ sel]) simp_all
  then have "length (sim_ahead ?w ?it) = 1" by (simp add: sim_ahead_def)
  then show ?thesis
    using kv_get_store_info_counts [OF sim_range_iter_law _ c sim_iter_setup(5), of sim_mgr 1 "bi_it raw_iter"]
    by (simp add: sim_mgr_def)
qed

end
