(* ===== verification/KvOpenSpec.thy ===== *)
theory KvOpenSpec
  imports KvOpen KvIterSpec
begin

text \<open>
  Opening a store, proved: a first open of a device creates a store whose pool table satisfies the
  invariant of the pool manager, with the default pool alone; and what an open of an existing store takes from its
  arguments instead of from the media.
\<close>

section \<open>The environment of an open\<close>

definition open_laws :: "'w nvm_env \<Rightarrow> nat \<Rightarrow> int \<Rightarrow> nvm_kv_store_capabilities \<Rightarrow> bool" where
  "open_laws E k handle cap \<longleftrightarrow>
     9 \<le> k \<and> k \<le> 20 \<and> nvm_sector_size cap = 2 ^ k \<and>
     0 < sint (of_nat (nvm_max_num_iovs cap) :: u32) \<and>
     (of_nat (nvm_atomic_write_max_total_size cap) :: u32) \<noteq> 0 \<and>
     (of_nat (nvm_atomic_write_multiplicity cap * nvm_max_write_size_per_iov cap) :: u32) \<noteq> 0 \<and>
     (\<forall>w n. \<exists>mb. env_memalign E w n = Some mb \<and> length (mb_mem mb) = n) \<and>
     (\<forall>w n. env_new_iovs E w n \<noteq> None) \<and> (\<forall>iovs w. 0 \<le> fst (env_batch_atomic E handle iovs w))"

definition allocs_succeed :: "open_allocs \<Rightarrow> bool" where
  "allocs_succeed oa \<longleftrightarrow> (\<forall>x. oa_new oa x) \<and> (\<forall>i. oa_cache_entry oa i) \<and> (\<forall>t. oa_batch_iter oa t \<noteq> None)"

lemma writev_succeeds:
  assumes "open_laws E k (dev_handle device) cap"
  obtains n w' where "nvm_writev E device iovs c True w = (Inr n, w')"
proof -
  obtain rc w' where r: "env_batch_atomic E (dev_handle device) (take c iovs) w = (rc, w')" by force
  have "0 \<le> fst (env_batch_atomic E (dev_handle device) (take c iovs) w)" using assms unfolding open_laws_def by blast
  then show thesis using that r by (simp add: nvm_writev_def Let_def)
qed

lemma alloc_loop_succeeds:
  assumes "\<forall>n. \<exists>mb. memalign n = Some mb \<and> length (mb_mem mb) = n"
  shows "\<exists>bp'. bp_alloc_loop memalign limit n bp = (True, bp')"
proof (induction n arbitrary: bp)
  case (Suc n)
  obtain mb where "memalign limit = Some mb" using assms by blast
  then show ?case using Suc.IH by simp
qed simp

lemma one_buffer:
  assumes "\<forall>n. \<exists>mb. memalign n = Some mb \<and> length (mb_mem mb) = n"
  obtains mb bufs bufs' where "bp_initialize memalign 1 n al (bp_fresh raw) = (Inr (), bufs)"
    "get_buf memalign n bufs = Some (Some mb, n, bufs')" "length (mb_mem mb) = n" "memalign n = Some mb"
proof -
  obtain mb where mb: "memalign n = Some mb" "length (mb_mem mb) = n" using assms by blast
  have "bp_initialize memalign 1 n al (bp_fresh raw) =
      (Inr (), raw\<lparr>m_buffers := [Some mb], m_buffer_sizes := [n], m_num_buffers := 1, m_buffer_limit := n,
                   m_buffer_alignment := al, m_initialized := True\<rparr>)"
    using mb(1) by (simp add: bp_initialize_def bp_fresh_def M_MAX_BUFFERS_def)
  then show thesis using that mb by (simp add: get_buf_def)
qed

section \<open>The pool table of a new store\<close>

lemma open_laws_progress:
  "open_laws E k (dev_handle (pm_device pm)) (dev_caps (pm_device pm)) \<Longrightarrow> tags_progress pm"
  by (simp add: open_laws_def tags_progress_def tags_max_iovs_def tags_max_total_def tags_write_size_def)

lemma tags_loop_succeeds:
  assumes laws: "open_laws E k (dev_handle (pm_device pm)) (dev_caps (pm_device pm))"
  shows "\<exists>w'. tags_loop E pm c r w = Some (Inr (), w')"
proof (induction "unat r" arbitrary: c r w rule: less_induct)
  case less
  show ?case
  proof (cases "r = 0")
    case True
    then show ?thesis by (simp add: tags_loop.simps)
  next
    case False
    let ?fill = "tags_fill pm 0 0 c r"
    have "unat (snd (snd ?fill)) < unat r" by (rule tags_fill_less [OF False open_laws_progress [OF laws]])
    moreover obtain n w' where "nvm_writev E (pm_device pm) (fst ?fill) (length (fst ?fill)) True w = (Inr n, w')"
      using writev_succeeds [OF laws] by metis
    ultimately show ?thesis using False less by (subst tags_loop.simps) (simp add: Let_def)
  qed
qed

lemma persist_succeeds:
  assumes "open_laws E k (dev_handle (pm_device pm)) (dev_caps (pm_device pm))"
  shows "\<exists>w'. persist_store_info E type pool_index pm w = Some (Inr (), w')"
proof -
  obtain iovs where new: "env_new_iovs E w (nvm_max_num_iovs (dev_caps (pm_device pm))) = Some iovs"
    using assms unfolding open_laws_def by blast
  obtain w1 where "(if type AND M_KV_POOL_TAGS \<noteq> 0 \<and> pool_index = -1
      then persist_pool_tags E pm w else Some (Inr (), w)) = Some (Inr (), w1)"
    using tags_loop_succeeds [OF assms, of 0 "of_nat (pm_tag_size pm)" w]
    by (cases "type AND M_KV_POOL_TAGS \<noteq> 0 \<and> pool_index = -1") (auto simp: persist_pool_tags_def)
  moreover obtain n w' where "nvm_writev E (pm_device pm) (persist_iovs type pool_index pm)
      (length (persist_iovs type pool_index pm)) True w1 = (Inr n, w')"
    using writev_succeeds [OF assms] by metis
  ultimately show ?thesis using new by (simp only: persist_store_info_def option.case prod.case sum.case Let_def) simp
qed

lemma bitmap_alloc_size:
  assumes k: "9 \<le> k" "k \<le> 20" and n: "unat n \<le> NVM_KV_MAX_POOLS"
  defines "len \<equiv> rnd (unat (bits_per_uint8 (round32 n))) (2 ^ k)"
  shows "bitmap_alloc_aligned True n (2 ^ k) = Some (replicate (len div 4) 0)" "4 * (len div 4) = len"
    "unat n \<le> 32 * (len div 4)" "len < 2 ^ 32"
proof -
  have n31: "unat n + 31 < 2 ^ 32" using n by (simp add: NVM_KV_MAX_POOLS_def)
  have r: "unat (bits_per_uint8 (round32 n)) = (unat n + 31) div 32 * 4" using round32_eq [OF n31] by simp
  have small: "unat (bits_per_uint8 (round32 n)) \<le> 2 ^ 18"
    unfolding r using n by (simp add: NVM_KV_MAX_POOLS_def)
  have "(2::nat) ^ k \<le> 2 ^ 20" using k(2) by (intro power_increasing) simp_all
  then have fit: "unat (bits_per_uint8 (round32 n)) + 2 ^ k \<le> 2 ^ 64" using small by simp
  note b = rnd_bounds [OF _ fit, folded len_def]
  have lt: "len < 2 ^ 32" using b(2) k small \<open>(2::nat) ^ k \<le> 2 ^ 20\<close> by simp
  then show "len < 2 ^ 32" .
  have "(2::nat) ^ 2 dvd 2 ^ k" using k(1) by (intro le_imp_power_dvd) simp
  then have "4 dvd len" using b(3) k dvd_trans by fastforce
  then show d: "4 * (len div 4) = len" by simp
  have "unat n \<le> (unat n + 31) div 32 * 32" by simp
  also have "\<dots> = 8 * unat (bits_per_uint8 (round32 n))" unfolding r by simp
  also have "\<dots> \<le> 8 * len" using b(1) k by simp
  also have "\<dots> = 32 * (len div 4)" using d by simp
  finally show "unat n \<le> 32 * (len div 4)" .
  have blk: "ucast ((2::u32) ^ k) = (2::u64) ^ k"
    using k(2) by (intro bit_word_eqI) (auto simp: bit_simps)
  have "len = unat (nvm_kv_round_upto_blk (ucast (bits_per_uint8 (round32 n))) (2 ^ k) :: u64)"
    by (simp add: len_def rnd_def del: unat_bits_per_uint8)
  then have "unat (ucast (nvm_kv_round_upto_blk (ucast (bits_per_uint8 (round32 n))) (ucast (2 ^ k :: u32))) :: u32) = len"
    using lt unfolding blk by (simp add: unsigned_ucast_eq take_bit_nat_eq_self)
  then show "bitmap_alloc_aligned True n (2 ^ k) = Some (replicate (len div 4) 0)"
    by (simp add: bitmap_alloc_aligned_def Let_def)
qed

text \<open>A pool manager before its initialisation, and after its allocations.\<close>

definition pm_fresh :: "nvm_kv_pool_mgr \<Rightarrow> bool" where
  "pm_fresh pm \<longleftrightarrow>
     (\<exists>raw. pm_bufpool pm = bp_fresh raw) \<and> pm_tags_map pm = (\<lambda>t. None) \<and> \<not> pm_locked pm \<and>
     NVM_KV_MIN_POOLS \<le> pm_max_pools pm \<and> pm_max_pools pm \<le> NVM_KV_MAX_POOLS"

definition allocated :: "nat \<Rightarrow> nvm_kv_pool_mgr \<Rightarrow> nvm_kv_pool_mgr \<Rightarrow> bool" where
  "allocated k pm pm' \<longleftrightarrow>
     pm_device pm' = pm_device pm \<and> pm_md pm' = pm_md pm \<and> pm_hash pm' = pm_hash pm \<and>
     pm_tags_map pm' = pm_tags_map pm \<and> pm_locked pm' = pm_locked pm \<and>
     pm_in_use pm' = bitmap_set (replicate (pm_bm_len pm' div 4) 0) 0 \<and>
     pm_deleted pm' = replicate (pm_bm_len pm' div 4) 0 \<and> bitmap_media_len pm' = pm_bm_len pm' \<and>
     pm_layout pm' = set_del_bm_lba (ucast (get_inuse_bm_lba (pm_layout pm)) + of_nat (pm_bm_len pm' div 2 ^ k)) (pm_layout pm) \<and>
     pm_tag_size pm' = rnd (POOL_TAG_SIZE * pm_max_pools pm) (2 ^ k) \<and> length (pm_tags pm') = pm_tag_size pm' \<and>
     POOL_TAG_SIZE * pm_max_pools pm \<le> pm_tag_size pm' \<and>
     4 * (pm_bm_len pm' div 4) = pm_bm_len pm' \<and> pm_max_pools pm \<le> 32 * (pm_bm_len pm' div 4) \<and>
     pm_bm_len pm' < 2 ^ 32"

lemma allocated_dest:
  assumes "allocated k pm pm'"
  shows "pm_device pm' = pm_device pm" "pm_md pm' = pm_md pm" "pm_hash pm' = pm_hash pm"
    "pm_tags_map pm' = pm_tags_map pm" "pm_locked pm' = pm_locked pm"
    "pm_in_use pm' = bitmap_set (replicate (pm_bm_len pm' div 4) 0) 0"
    "pm_deleted pm' = replicate (pm_bm_len pm' div 4) 0" "bitmap_media_len pm' = pm_bm_len pm'"
    "pm_layout pm' = set_del_bm_lba (ucast (get_inuse_bm_lba (pm_layout pm)) + of_nat (pm_bm_len pm' div 2 ^ k)) (pm_layout pm)"
    "pm_tag_size pm' = rnd (POOL_TAG_SIZE * pm_max_pools pm) (2 ^ k)" "length (pm_tags pm') = pm_tag_size pm'"
    "POOL_TAG_SIZE * pm_max_pools pm \<le> pm_tag_size pm'" "4 * (pm_bm_len pm' div 4) = pm_bm_len pm'"
    "pm_max_pools pm \<le> 32 * (pm_bm_len pm' div 4)" "pm_bm_len pm' < 2 ^ 32"
  using assms unfolding allocated_def by blast+

lemma pools_allocated:
  assumes laws: "open_laws E k (dev_handle (pm_device pm)) (dev_caps (pm_device pm))" and raw: "pm_fresh pm"
  obtains mb pm' where "pool_mgr_alloc E True True pm w = Some (Inr (), mb_addr mb, pm')" "allocated k pm pm'"
    "env_memalign E w (pm_tag_size pm') = Some mb"
proof -
  have k: "9 \<le> k" "k \<le> 20" "nvm_sector_size (dev_caps (pm_device pm)) = 2 ^ k"
    and mem: "\<forall>n. \<exists>mb. env_memalign E w n = Some mb \<and> length (mb_mem mb) = n"
    using laws by (simp_all add: open_laws_def)
  define n where "n = sm_max_pools (pm_md pm)"
  have n: "1 \<le> unat n" "unat n \<le> NVM_KV_MAX_POOLS"
    using raw by (simp_all add: pm_fresh_def pm_max_pools_def n_def NVM_KV_MIN_POOLS_def)
  define tag_size where "tag_size = rnd ((POOL_TAG_SIZE * unat n) mod 4294967296) (2 ^ k)"
  define len where "len = rnd (unat (bits_per_uint8 (round32 n))) (2 ^ k)"
  note bm = bitmap_alloc_size [OF k(1,2) n(2), folded len_def]
  have small: "POOL_TAG_SIZE * unat n \<le> 2 ^ 24" using n(2) by (simp add: POOL_TAG_SIZE_def NVM_KV_MAX_POOLS_def)
  then have tag_size: "tag_size = rnd (POOL_TAG_SIZE * unat n) (2 ^ k)" by (simp add: tag_size_def)
  have "(2::nat) ^ k \<le> 2 ^ 20" using k(2) by (intro power_increasing) simp_all
  then have fits: "POOL_TAG_SIZE * unat n \<le> tag_size"
    using rnd_bounds(1) [of k "POOL_TAG_SIZE * unat n"] k small by (simp add: tag_size)
  moreover obtain bp where bp: "pm_bufpool pm = bp_fresh bp" using raw by (auto simp: pm_fresh_def)
  ultimately obtain mb bufs bufs' where buf: "bp_initialize (env_memalign E w) 1 tag_size (2 ^ k) (pm_bufpool pm) = (Inr (), bufs)"
    "get_buf (env_memalign E w) tag_size bufs = Some (Some mb, tag_size, bufs')" "length (mb_mem mb) = tag_size"
    "env_memalign E w tag_size = Some mb"
    using one_buffer [OF mem, of tag_size "2 ^ k" bp] by metis
  have bl: "bitmap_media_len (pm\<lparr>pm_tag_size := tag_size, pm_bufpool := bufs', pm_tags := mb_mem mb\<rparr>) = len"
    using k(3) by (simp add: bitmap_media_len_def pm_sector_size_def len_def n_def)
  define pm' where "pm' = pm\<lparr>pm_tag_size := tag_size, pm_bufpool := bufs', pm_tags := mb_mem mb,
      pm_in_use := bitmap_set (replicate (len div 4) 0) 0, pm_deleted := replicate (len div 4) 0, pm_bm_len := len,
      pm_layout := set_del_bm_lba (ucast (get_inuse_bm_lba (pm_layout pm)) + of_nat (len div 2 ^ k)) (pm_layout pm)\<rparr>"
  have alloc: "pool_mgr_alloc E True True pm w = Some (Inr (), mb_addr mb, pm')"
    using buf k(3) bm(1) bl
    by (simp add: pool_mgr_alloc_def Let_def pm_sector_size_def n_def [symmetric] tag_size_def [symmetric] pm'_def)
  have max: "pm_max_pools pm = unat n" by (simp add: pm_max_pools_def n_def)
  have "bitmap_media_len pm' = len" using bl by (simp add: bitmap_media_len_def pm'_def pm_sector_size_def)
  then have "allocated k pm pm'"
    using bm(2-4) fits buf(3) n(1) unfolding allocated_def max
    by (simp add: pm'_def tag_size)
  then show thesis using that alloc buf(4) by (simp add: pm'_def)
qed

definition pm_raw :: "nvm_kv_pool_mgr \<Rightarrow> bool" where
  "pm_raw pm \<longleftrightarrow> pm_fresh pm \<and> sm_total_no_pools (pm_md pm) = 1"

definition new_pools :: "nvm_kv_pool_mgr \<Rightarrow> nvm_kv_pool_mgr \<Rightarrow> bool" where
  "new_pools pm pm' \<longleftrightarrow>
     pm_wf pm' \<and> \<not> pm_locked pm' \<and> bm_bits (pm_in_use pm') = {0} \<and> bm_bits (pm_deleted pm') = {} \<and>
     pm_md pm' = pm_md pm \<and> pm_device pm' = pm_device pm \<and>
     get_data_start_lba (pm_layout pm') = get_data_start_lba (pm_layout pm)"

lemma new_pool_table:
  assumes laws: "open_laws E k (dev_handle (pm_device pm)) (dev_caps (pm_device pm))" and raw: "pm_raw pm"
  obtains pm' w' where "pool_mgr_initialize E True True a b True pm w = Some (Inr (), pm', w')" "new_pools pm pm'"
    "allocated k pm pm'" "persist_store_info E (M_KV_BM_INUSE OR M_KV_BM_DELETED OR M_KV_POOL_TAGS) (-1) pm' w = Some (Inr (), w')"
proof -
  have fresh: "pm_fresh pm" and total: "sm_total_no_pools (pm_md pm) = 1" using raw by (simp_all add: pm_raw_def)
  obtain mb :: membuf and pm' where alloc: "pool_mgr_alloc E True True pm w = Some (Inr (), mb_addr mb, pm')" "allocated k pm pm'"
    using pools_allocated [OF laws fresh] by metis
  note f = allocated_dest [OF alloc(2)]
  have n: "1 \<le> pm_max_pools pm" "pm_max_pools pm \<le> NVM_KV_MAX_POOLS" "pm_tags_map pm = (\<lambda>t. None)" "\<not> pm_locked pm"
    using fresh by (simp_all add: pm_fresh_def NVM_KV_MIN_POOLS_def)
  define c where "c = pm_bm_len pm' div 4"
  obtain w' where stored: "persist_store_info E (M_KV_BM_INUSE OR M_KV_BM_DELETED OR M_KV_POOL_TAGS) (-1) pm' w = Some (Inr (), w')"
    using persist_succeeds [of E k pm'] laws f(1) by metis
  moreover have "sm_max_pools (pm_md pm) \<noteq> 0" using n(1) by (auto simp: pm_max_pools_def)
  ultimately have call: "pool_mgr_initialize E True True a b True pm w = Some (Inr (), pm', w')"
    using alloc(1) by (simp add: pool_mgr_initialize_def)
  have max: "pm_max_pools pm' = pm_max_pools pm" by (simp add: pm_max_pools_def f(2))
  have pos: "0 < c" using f(14) n(1) by (simp add: c_def)
  have none: "bm_bits (replicate c (0::u32)) = {}" by (auto simp: bm_bits_def)
  have one: "bm_bits (pm_in_use pm') = {0}" and zero: "bm_bits (pm_deleted pm') = {}"
    using pos bm_bits_set [of 0 "replicate c 0"] none unfolding f(6,7) c_def [symmetric] by (simp_all add: bm_nbits_def)
  have len: "length (pm_in_use pm') = c" "length (pm_deleted pm') = c"
    unfolding f(6,7) c_def [symmetric] by (simp_all add: bitmap_set_def Let_def)
  have "pm_shape pm'"
    unfolding pm_shape_def max one zero bm_nbits_def len f(11)
    using n f(12-14) by (simp add: c_def [symmetric])
  moreover have "tags_map_ok pm'" using n(3) one zero by (simp add: tags_map_ok_def f(4))
  ultimately have wf: "pm_wf pm'" using total one by (simp add: pm_wf_def f(2))
  have "get_data_start_lba (pm_layout pm') = get_data_start_lba (pm_layout pm)"
    by (simp add: f(9) get_data_start_lba_def set_del_bm_lba_def)
  then have "new_pools pm pm'" using wf n one zero f(1,2,5) by (simp add: new_pools_def)
  then show thesis using that call alloc(2) stored by blast
qed

text \<open>The two writes of a first open: the metadata block, then bitmaps and tags.\<close>

definition first_writes ::
  "'w nvm_env \<Rightarrow> nat \<Rightarrow> nvm_kv_pool_mgr \<Rightarrow> 'w \<Rightarrow> nvm_kv_pool_mgr \<Rightarrow> 'w \<Rightarrow> bool" where
  "first_writes E k pm w pm' w' \<longleftrightarrow>
     pm_raw pm \<and> allocated k pm pm' \<and>
     (\<exists>tail c w1. length tail = 2 ^ k - KV_STORE_METADATA_SIZE \<and>
        nvm_writev E (pm_device pm) [write_iov 0 (2 ^ k) (metadata_bytes (pm_md pm) @ tail)] 1 True w = (Inr c, w1) \<and>
        persist_store_info E (M_KV_BM_INUSE OR M_KV_BM_DELETED OR M_KV_POOL_TAGS) (-1) pm' w1 = Some (Inr (), w'))"

section \<open>The services of a new store\<close>

text \<open>The table of iterators: the scanners' slots apart, every slot is free.\<close>

definition regular_slots_free :: "nvm_kv_iterator \<Rightarrow> bool" where
  "regular_slots_free ni \<longleftrightarrow> length (ni_iter ni) = M_NO_ITR \<and> (\<forall>i < NVM_KV_MAX_ITERATORS. ni_iter ni ! i = None)"

lemma scanner_slot_index: "t \<noteq> KV_REGULAR_ITER \<Longrightarrow> NVM_KV_MAX_ITERATORS \<le> scanner_slot t \<and> scanner_slot t < M_NO_ITR"
  by (cases t) (simp_all add: scanner_slot_def iterator_indices)

definition slots_kept :: "nat \<Rightarrow> nvm_kv_iterator \<Rightarrow> nvm_kv_iterator \<Rightarrow> bool" where
  "slots_kept s ni ni' \<longleftrightarrow> length (ni_iter ni') = length (ni_iter ni) \<and> (\<forall>i. i \<noteq> s \<longrightarrow> ni_iter ni' ! i = ni_iter ni ! i)"

lemma slots_kept_trans: "slots_kept s ni ni' \<Longrightarrow> slots_kept s ni' ni'' \<Longrightarrow> slots_kept s ni ni''"
  by (simp add: slots_kept_def)

lemma put_iter_kept: "slots_kept s ni (put_iter s bi ni)"
  by (simp add: slots_kept_def put_iter_def)

lemma init_iter_kept: "slots_kept (nat it_id) ni (snd (init_iter st it_id base n t ni))"
proof (cases "valid_iter st it_id t ni")
  case (Inl e)
  then show ?thesis by (simp add: init_iter_def slots_kept_def)
next
  case (Inr bi)
  then show ?thesis by (simp add: init_iter_def Let_def put_iter_kept)
qed

lemma scanner_starts:
  assumes "t \<noteq> KV_REGULAR_ITER" and "ni_iter ni ! scanner_slot t = None"
  obtains sn' ni' where "scanner_initialize (Some bi) True True (Some t) st sn ni = (Inr (), sn', ni')"
    "slots_kept (scanner_slot t) ni ni'"
proof -
  obtain bi' where al: "alloc_iter (Some bi) t get_all_poolid 0 ni = (Inr (scanner_slot t), put_iter (scanner_slot t) (Some bi') ni)"
    using assms by (simp add: alloc_iter_def Let_def)
  let ?ni = "put_iter (scanner_slot t) (Some bi') ni"
  let ?sn = "sn\<lparr>sn_iter_id := int (scanner_slot t), sn_iter_type := t\<rparr>"
  define ni' where "ni' = (if t \<noteq> KV_POOL_DEL_ITER then snd (reset_iterator st ?sn ?ni) else ?ni)"
  have "scanner_initialize (Some bi) True True (Some t) st sn ni = (Inr (), ?sn, ni')"
    using al by (simp add: scanner_initialize_def Let_def ni'_def)
  moreover have "slots_kept (scanner_slot t) ?ni ni'"
    using init_iter_kept [of "int (scanner_slot t)" ?ni] by (simp add: ni'_def reset_iterator_def slots_kept_def)
  ultimately show thesis using that slots_kept_trans [OF put_iter_kept] by metis
qed

lemma init_expiry_succeeds:
  assumes oa: "allocs_succeed oa" and ni: "regular_slots_free ni" "\<forall>t. t \<noteq> KV_REGULAR_ITER \<longrightarrow> ni_iter ni ! scanner_slot t = None"
  obtains em ni' where "init_expiry oa st ni = Inr (em, st\<lparr>st_exp_status := st_exp_status st \<or> get_expiry st \<noteq> KV_DISABLE_EXPIRY\<rparr>, ni')"
    "regular_slots_free ni'" "ni_iter ni' ! M_POOL_DEL_ITR = None"
proof (cases "get_expiry st = KV_DISABLE_EXPIRY")
  case True
  have "ni_iter ni ! M_POOL_DEL_ITR = None" using ni(2) [rule_format, of KV_POOL_DEL_ITER] by (simp add: scanner_slot_def)
  then show thesis using that True ni(1) by (simp add: init_expiry_def)
next
  case False
  define t where "t = (if get_expiry st = KV_ARBITRARY_EXPIRY then KV_ARB_EXP_ITER else KV_GLB_EXP_ITER)"
  have t: "t \<noteq> KV_REGULAR_ITER" "scanner_slot t \<noteq> M_POOL_DEL_ITR" by (simp_all add: t_def scanner_slot_def iterator_indices)
  obtain bi where bi: "oa_batch_iter oa t = Some bi" using oa unfolding allocs_succeed_def by blast
  have "ni_iter ni ! scanner_slot t = None" using ni(2) t(1) by blast
  then obtain em ni' where s: "scanner_initialize (Some bi) True True (Some t) st (expiry_mgr_new oa) ni = (Inr (), em, ni')"
    "slots_kept (scanner_slot t) ni ni'"
    using scanner_starts [OF t(1)] by metis
  have "init_expiry oa st ni = Inr (Some em, st\<lparr>st_exp_status := True\<rparr>, ni')"
    using False oa bi s(1) unfolding init_expiry_def t_def [symmetric] Let_def
    by (simp add: allocs_succeed_def scanner_initialize_def)
  moreover have "regular_slots_free ni'"
    using ni(1) s(2) scanner_slot_index [OF t(1)] by (auto simp: regular_slots_free_def slots_kept_def)
  moreover have "ni_iter ni' ! M_POOL_DEL_ITR = None"
    using ni(2) [rule_format, of KV_POOL_DEL_ITER] s(2) t(2) by (auto simp: slots_kept_def scanner_slot_def)
  ultimately show thesis using that False by simp
qed

lemma init_scanners_succeeds:
  assumes oa: "allocs_succeed oa" and ni: "regular_slots_free ni" "\<forall>t. t \<noteq> KV_REGULAR_ITER \<longrightarrow> ni_iter ni ! scanner_slot t = None"
  obtains em pd ni' where
    "init_scanners oa st ni = Inr (em, pd, st\<lparr>st_exp_status := st_exp_status st \<or> get_expiry st \<noteq> KV_DISABLE_EXPIRY\<rparr>, ni')"
    "regular_slots_free ni'"
proof -
  define st' where "st' = st\<lparr>st_exp_status := st_exp_status st \<or> get_expiry st \<noteq> KV_DISABLE_EXPIRY\<rparr>"
  obtain em ni1 where e: "init_expiry oa st ni = Inr (em, st', ni1)" "regular_slots_free ni1" "ni_iter ni1 ! M_POOL_DEL_ITR = None"
    using init_expiry_succeeds [OF assms] unfolding st'_def by metis
  obtain bi where bi: "oa_batch_iter oa KV_POOL_DEL_ITER = Some bi" using oa unfolding allocs_succeed_def by blast
  obtain pd ni' where s: "scanner_initialize (Some bi) True True (Some KV_POOL_DEL_ITER) st' (pool_del_new oa) ni1 = (Inr (), pd, ni')"
    "slots_kept M_POOL_DEL_ITR ni1 ni'"
    using scanner_starts [of KV_POOL_DEL_ITER ni1 bi st' "pool_del_new oa"] e(3) by (auto simp: scanner_slot_def)
  have "\<exists>pd'. init_pool_del_scanner oa st' ni1 = Inr (pd', ni')"
    using oa bi s(1) by (simp add: init_pool_del_scanner_def pool_del_initialize_def allocs_succeed_def Let_def bitmap_alloc_aligned_def)
  then obtain pd' where "init_pool_del_scanner oa st' ni1 = Inr (pd', ni')" by blast
  then have "init_scanners oa st ni = Inr (em, pd', st', ni')" using e(1) by (simp add: init_scanners_def)
  moreover have "regular_slots_free ni'"
    using e(2) s(2) by (auto simp: regular_slots_free_def slots_kept_def iterator_indices)
  ultimately show thesis using that unfolding st'_def by blast
qed

lemma init_services_succeeds:
  assumes oa: "allocs_succeed oa" and laws: "open_laws E k handle cap" and raw: "st_exp_status (store_of pm) = False"
  obtains obj where "init_services E oa max_pools cache_size bufs pm w = Inr obj"
    "so_store obj = (store_of pm)\<lparr>st_exp_status := get_expiry (store_of pm) \<noteq> KV_DISABLE_EXPIRY, st_cache := st_cache (so_store obj)\<rparr>"
    "st_cache (so_store obj) = None \<longleftrightarrow> cache_size = 0" "\<forall>ca. st_cache (so_store obj) = Some ca \<longrightarrow> cache_wf ca"
    "regular_slots_free (so_iter obj)"
proof -
  let ?st = "store_of pm"
  have mem: "\<forall>n. \<exists>mb. env_memalign E w n = Some mb \<and> length (mb_mem mb) = n" using laws by (simp add: open_laws_def)
  define ni0 where "ni0 = iterator_new (bp_fresh (oa_pool oa)) (unat (get_val_bits (get_layout ?st) - 1)) (unat max_pools) get_all_poolid"
  obtain bp where "bp_alloc_loop (env_memalign E w) M_BUFFER_LIMIT M_MAX_BUFFERS_IN_POOL (bp_fresh (oa_pool oa)) = (True, bp)"
    using alloc_loop_succeeds [OF mem] by metis
  then obtain bp' where "bp_initialize (env_memalign E w) M_MAX_BUFFERS_IN_POOL M_BUFFER_LIMIT M_BUFFER_PAGE_ALIGN (ni_buffer_pool ni0) =
      (Inr (), bp')"
    by (simp add: bp_initialize_def ni0_def iterator_new_def bp_fresh_def M_MAX_BUFFERS_IN_POOL_def M_MAX_BUFFERS_def)
  moreover have "\<not> ni_initialized ni0" by (simp add: ni0_def iterator_new_def)
  ultimately obtain ni where it: "iterator_initialize (env_memalign E w) ni0 = (Inr (), ni)" "ni_iter ni = ni_iter ni0"
    by (simp add: iterator_initialize_def)
  have slots: "ni_iter ni = replicate M_NO_ITR None" using it(2) by (simp add: ni0_def iterator_new_def)
  have free: "regular_slots_free ni" by (simp add: regular_slots_free_def slots iterator_indices)
  have none: "\<forall>t. t \<noteq> KV_REGULAR_ITER \<longrightarrow> ni_iter ni ! scanner_slot t = None"
    using scanner_slot_index by (simp add: slots)
  obtain em pd ni' where sc: "init_scanners oa ?st ni =
      Inr (em, pd, ?st\<lparr>st_exp_status := st_exp_status ?st \<or> get_expiry ?st \<noteq> KV_DISABLE_EXPIRY\<rparr>, ni')" "regular_slots_free ni'"
    using init_scanners_succeeds [OF oa free none] by metis
  obtain cache where ca: "init_cache oa cache_size = Inr cache" "cache = None \<longleftrightarrow> cache_size = 0" "\<forall>ca. cache = Some ca \<longrightarrow> cache_wf ca"
  proof (cases "cache_size = 0")
    case True
    then show ?thesis using that by (simp add: init_cache_def)
  next
    case False
    obtain c where "cache_initialize True True (oa_cache_entry oa) cache_size = Inr c"
      using oa by (simp add: cache_initialize_def Let_def allocs_succeed_def)
    then show ?thesis using that [of "Some c"] False oa cache_initialize_wf by (simp add: init_cache_def allocs_succeed_def)
  qed
  have "init_services E oa max_pools cache_size bufs pm w =
      Inr \<lparr>so_store = ?st\<lparr>st_exp_status := st_exp_status ?st \<or> get_expiry ?st \<noteq> KV_DISABLE_EXPIRY, st_cache := cache\<rparr>,
        so_iter = ni', so_expiry = em, so_pool_del = pd, so_bufs = bufs\<rparr>"
    using oa it(1) sc(1) ca(1) by (simp add: init_services_def Let_def ni0_def [symmetric] allocs_succeed_def)
  then show thesis using that ca(2,3) sc(2) raw by simp
qed

section \<open>A first open\<close>

lemma stored_id_word:
  assumes "0 \<le> i" and "i < 2 ^ 31"
  shows "sint (ucast (word_of_int i :: u64) :: 32 word) = i"
proof -
  have "uint (word_of_int i :: u64) = i" using assms by (simp add: uint_word_of_int_eq take_bit_int_eq_self)
  moreover have "signed_take_bit 31 i = i" using assms by (intro signed_take_bit_int_eq_self) simp_all
  ultimately show ?thesis by (simp add: signed_ucast_eq)
qed

lemma open_new_steps:
  assumes laws: "open_laws E k handle cap" and oa: "allocs_succeed oa" and new: "env_block_exists E handle 0 w = 0"
    and pools: "NVM_KV_MIN_POOLS \<le> unat max_pools" "unat max_pools \<le> NVM_KV_MAX_POOLS" and exp: "expiry \<le> KV_GLOBAL_EXPIRY"
    and id: "0 \<le> kv_id" "kv_id < 2 ^ 31"
  obtains obj w' where
    "store_initialize E oa kv_id handle cap sparse max_pools version expiry cache_size w = Some (Inr obj, w')"
    "stored_id obj = kv_id" "pm_wf (st_pm (so_store obj))" "\<not> pm_locked (st_pm (so_store obj))"
    "bm_bits (pm_in_use (st_pm (so_store obj))) = {0}" "bm_bits (pm_deleted (st_pm (so_store obj))) = {}"
    "pm_max_pools (st_pm (so_store obj)) = unat max_pools" "get_expiry (so_store obj) = expiry"
    "expiry_status (so_store obj) \<longleftrightarrow> expiry \<noteq> KV_DISABLE_EXPIRY" "st_safe (so_store obj) = {}"
    "get_store_device (so_store obj) = \<lparr>dev_fd = kv_id, dev_handle = handle, dev_caps = cap\<rparr>"
    "get_data_start_lba (get_layout (so_store obj)) = get_data_start_lba (store_layout oa cap sparse max_pools)"
    "st_cache (so_store obj) = None \<longleftrightarrow> cache_size = 0" "\<forall>ca. st_cache (so_store obj) = Some ca \<longrightarrow> cache_wf ca"
    "regular_slots_free (so_iter obj)"
    "\<exists>pm. first_writes E k pm w (st_pm (so_store obj)) w' \<and> pm_layout pm = store_layout oa cap sparse max_pools \<and>
      pm_hash pm = store_hash oa cap sparse max_pools \<and> pm_device pm = get_store_device (so_store obj) \<and>
      sm_max_pools (pm_md pm) = max_pools \<and> sm_version (pm_md pm) = version \<and> sm_kv_store_stamp (pm_md pm) = M_KV_STAMP"
proof -
  define device where "device = \<lparr>dev_fd = kv_id, dev_handle = handle, dev_caps = cap\<rparr>"
  define layout where "layout = store_layout oa cap sparse max_pools"
  define hash where "hash = store_hash oa cap sparse max_pools"
  define len where "len = rnd KV_STORE_METADATA_SIZE (nvm_sector_size cap)"
  have dev: "dev_handle device = handle" "dev_caps device = cap" by (simp_all add: device_def)
  have mem: "\<forall>n. \<exists>mb. env_memalign E w n = Some mb \<and> length (mb_mem mb) = n" using laws by (simp add: open_laws_def)
  obtain mb bufs bufs' where buf: "bp_initialize (env_memalign E w) 1 len (nvm_sector_size cap) (bp_fresh (oa_pool oa)) = (Inr (), bufs)"
    "get_buf (env_memalign E w) len bufs = Some (Some mb, len, bufs')" "length (mb_mem mb) = len"
    using one_buffer [OF mem] by metis
  define md where "md = new_metadata kv_id (get_kv_stamp layout) version max_pools expiry (load_metadata (mb_mem mb))"
  define tail where "tail = drop KV_STORE_METADATA_SIZE (mb_mem mb)"
  obtain c w1 where wr: "nvm_writev E device [write_iov (get_metadata_lba layout) len (take len (metadata_bytes md @ tail))] 1 True w = (Inr c, w1)"
    using writev_succeeds [of E k device cap] laws dev by metis
  have im: "init_metadata E device layout True kv_id version max_pools expiry mb w = (Inr (md, tail), w1)"
    using pools exp wr by (simp add: init_metadata_def Let_def md_def tail_def dev len_def)
  define pm where "pm = pool_mgr_new oa device layout hash md tail"
  have pm: "pm_md pm = md" "pm_device pm = device" "pm_layout pm = layout" "pm_tags_map pm = (\<lambda>t. None)"
    "\<not> pm_locked pm" "pm_bufpool pm = bp_fresh (oa_pool oa)" "pm_hash pm = hash"
    by (simp_all add: pm_def pool_mgr_new_def)
  have md: "sm_total_no_pools md = 1" "sm_max_pools md = max_pools" "sm_expiry_mode md = expiry"
    "sm_kv_store_id md = word_of_int kv_id" "sm_version md = version" "sm_kv_store_stamp md = M_KV_STAMP"
    by (simp_all add: md_def new_metadata_def NVM_KV_MIN_POOLS_def get_kv_stamp_def)
  have raw: "pm_raw pm" using pools md by (auto simp: pm_raw_def pm_fresh_def pm pm_max_pools_def)
  have laws': "open_laws E k (dev_handle (pm_device pm)) (dev_caps (pm_device pm))" using laws by (simp add: pm dev)
  obtain pm' w' where init: "pool_mgr_initialize E True True (oa_in_use_addr oa) (oa_deleted_addr oa) True pm w1 = Some (Inr (), pm', w')"
    "new_pools pm pm'" "allocated k pm pm'"
    "persist_store_info E (M_KV_BM_INUSE OR M_KV_BM_DELETED OR M_KV_POOL_TAGS) (-1) pm' w1 = Some (Inr (), w')"
    using new_pool_table [OF laws' raw] by metis
  obtain obj where serv: "init_services E oa max_pools cache_size bufs' pm' w' = Inr obj"
    "so_store obj = (store_of pm')\<lparr>st_exp_status := get_expiry (store_of pm') \<noteq> KV_DISABLE_EXPIRY, st_cache := st_cache (so_store obj)\<rparr>"
    "st_cache (so_store obj) = None \<longleftrightarrow> cache_size = 0" "\<forall>ca. st_cache (so_store obj) = Some ca \<longrightarrow> cache_wf ca"
    "regular_slots_free (so_iter obj)"
    using init_services_succeeds [OF oa laws, of pm'] by (metis store_of_def nvm_kv_store.select_convs(5))
  have "store_initialize E oa kv_id handle cap sparse max_pools version expiry cache_size w = Some (Inr obj, w')"
    using oa new buf im init(1) serv(1)
    by (simp add: store_initialize_def Let_def device_def [symmetric] layout_def [symmetric] hash_def [symmetric]
        len_def [symmetric] allocs_succeed_def get_metadata_lba_def M_KV_METADATA_LBA_def init_pools_def pm_def [symmetric])
  moreover have s: "st_pm (so_store obj) = pm'" "st_safe (so_store obj) = {}"
    "st_exp_status (so_store obj) \<longleftrightarrow> get_expiry (store_of pm') \<noteq> KV_DISABLE_EXPIRY"
    by (subst serv(2), simp add: store_of_def)+
  moreover have np: "pm_wf pm'" "\<not> pm_locked pm'" "bm_bits (pm_in_use pm') = {0}" "bm_bits (pm_deleted pm') = {}"
    "pm_md pm' = md" "pm_device pm' = device" "get_data_start_lba (pm_layout pm') = get_data_start_lba layout"
    using init(2) by (simp_all add: new_pools_def pm)
  moreover have "get_expiry (store_of pm') = expiry"
    using md(3) np(5) by (simp add: get_expiry_def get_store_metadata_def store_of_def)
  moreover have "stored_id obj = kv_id"
    using stored_id_word [OF id] md(4) np(5) by (simp add: stored_id_def get_store_metadata_def s)
  moreover have writes: "first_writes E k pm w pm' w'"
  proof -
    have "9 \<le> k" "k \<le> 20" "nvm_sector_size cap = 2 ^ k" using laws by (simp_all add: open_laws_def)
    then have len: "len = 2 ^ k" using metadata_len by (simp add: len_def)
    have tail: "length tail = 2 ^ k - KV_STORE_METADATA_SIZE" by (simp add: tail_def buf(3) len)
    have "(2::nat) ^ 9 \<le> 2 ^ k" using \<open>9 \<le> k\<close> by (intro power_increasing) simp_all
    then have "take (2 ^ k) (metadata_bytes md @ tail) = metadata_bytes md @ tail"
      by (intro take_all) (simp add: tail KV_STORE_METADATA_SIZE_def)
    then have "nvm_writev E (pm_device pm) [write_iov 0 (2 ^ k) (metadata_bytes (pm_md pm) @ tail)] 1 True w = (Inr c, w1)"
      using wr len by (simp add: pm get_metadata_lba_def M_KV_METADATA_LBA_def)
    then show ?thesis using raw init(3,4) tail unfolding first_writes_def by blast
  qed
  moreover have "\<exists>pm. first_writes E k pm w (st_pm (so_store obj)) w' \<and> pm_layout pm = store_layout oa cap sparse max_pools \<and>
      pm_hash pm = store_hash oa cap sparse max_pools \<and> pm_device pm = get_store_device (so_store obj) \<and>
      sm_max_pools (pm_md pm) = max_pools \<and> sm_version (pm_md pm) = version \<and> sm_kv_store_stamp (pm_md pm) = M_KV_STAMP"
    using writes md pm s(1) np(6) by (intro exI [of _ pm]) (simp add: layout_def hash_def get_store_device_def)
  ultimately show thesis
    using that [of obj w'] md serv(3-5)
    by (simp add: get_expiry_def get_store_metadata_def pm_max_pools_def expiry_status_def get_store_device_def
        get_layout_def device_def layout_def)
qed

text \<open>
  C9: a first open creates a sound store. On a device without a metadata block, with a legal number of
  pools and a known expiry mode, when the allocations and the writes succeed and the limits the tag writer takes from the
  device are usable after it has narrowed them to 32 bits, \<open>kv_open\<close> returns the
  descriptor as the store's id. The new store's pool table satisfies the pool manager's invariant with
  the default pool alone in use and none in deletion, the expiry scanners run exactly when the expiry mode
  asks for them, there is a well-formed cache exactly when one was asked for, no address is held, and every
  iterator slot for applications is free. When the manager already has a store under this id, the id is
  returned and the manager is unchanged.
\<close>

theorem kv_open_new_store:
  assumes "open_laws E k (oe_handle oe) cap" and "allocs_succeed oa" and "oe_fstat_ok oe" and "oe_handle oe \<noteq> -1"
    and "initialize_capabilities (oe_cap_values oe) (oe_cap_ret oe) (oe_feature_enabled oe) = Inr cap"
    and "env_capacity E (oe_handle oe) w = Some capacity" and "env_block_exists E (oe_handle oe) 0 w = 0"
    and "NVM_KV_MIN_POOLS \<le> unat max_pools" and "unat max_pools \<le> NVM_KV_MAX_POOLS"
    and "expiry \<le> KV_GLOBAL_EXPIRY" and "0 \<le> kv_id" and "kv_id < 2 ^ 31" and "oe_release_ok oe"
  shows "\<exists>mg' w' st ni. kv_open E oe oa kv_id version max_pools expiry cache_size mg w = Some (Inr kv_id, mg', w') \<and>
    (if mg_map mg kv_id \<noteq> None then mg' = mg
     else
       mg_map mg' = (mg_map mg)(kv_id \<mapsto> st) \<and> mg_iter mg' = (mg_iter mg)(kv_id \<mapsto> ni) \<and>
       pm_wf (st_pm st) \<and> \<not> pm_locked (st_pm st) \<and> pm_max_pools (st_pm st) = unat max_pools \<and>
       bm_bits (pm_in_use (st_pm st)) = {0} \<and> bm_bits (pm_deleted (st_pm st)) = {} \<and>
       get_expiry st = expiry \<and> (expiry_status st \<longleftrightarrow> expiry \<noteq> KV_DISABLE_EXPIRY) \<and>
       (st_cache st = None \<longleftrightarrow> cache_size = 0) \<and> (\<forall>ca. st_cache st = Some ca \<longrightarrow> cache_wf ca) \<and>
       st_safe st = {} \<and> regular_slots_free ni)"
proof -
  define sparse :: u32 where "sparse = word_of_int (comp_sparse_addr_bits (device_size capacity cap) (of_nat (nvm_sector_size cap)))"
  obtain obj w' where o: "store_initialize E oa kv_id (oe_handle oe) cap sparse max_pools version expiry cache_size w = Some (Inr obj, w')"
    "stored_id obj = kv_id" "pm_wf (st_pm (so_store obj))" "\<not> pm_locked (st_pm (so_store obj))"
    "bm_bits (pm_in_use (st_pm (so_store obj))) = {0}" "bm_bits (pm_deleted (st_pm (so_store obj))) = {}"
    "pm_max_pools (st_pm (so_store obj)) = unat max_pools" "get_expiry (so_store obj) = expiry"
    "expiry_status (so_store obj) \<longleftrightarrow> expiry \<noteq> KV_DISABLE_EXPIRY" "st_safe (so_store obj) = {}"
    "st_cache (so_store obj) = None \<longleftrightarrow> cache_size = 0" "\<forall>ca. st_cache (so_store obj) = Some ca \<longrightarrow> cache_wf ca"
    "regular_slots_free (so_iter obj)"
    using open_new_steps [OF assms(1,2,7-12), where sparse = sparse and version = version and cache_size = cache_size]
    by metis
  have call: "kv_open E oe oa kv_id version max_pools expiry cache_size mg w =
      Some (Inr kv_id, if mg_map mg kv_id \<noteq> None then mg else open_manager kv_id obj mg, w')"
    using assms(2-6,11,13) o(1,2) by (simp add: kv_open_def Let_def sparse_def [symmetric] allocs_succeed_def)
  show ?thesis
    unfolding call using o
    by (intro exI [of _ "if mg_map mg kv_id \<noteq> None then mg else open_manager kv_id obj mg"] exI [of _ w']
        exI [of _ "so_store obj"] exI [of _ "so_iter obj"]) (simp add: open_manager_def)
qed

definition sim_open_env :: open_env where
  "sim_open_env =
     \<lparr>oe_fstat_ok = True, oe_handle = 4, oe_cap_values = [1, 1, 1, 8, 1, 512, 512, 8, 512, 4096], oe_cap_ret = 10,
      oe_feature_enabled = 1, oe_release_ok = True\<rparr>"

definition sim_allocs :: open_allocs where
  "sim_allocs =
     \<lparr>oa_new = (\<lambda>x. True), oa_cache_entry = (\<lambda>i. True),
      oa_batch_iter = (\<lambda>t. Some \<lparr>bi_pool_id = 0, bi_pool_hash = 0, bi_num_ranges_found = 0, bi_pos = 0,
        bi_it = \<lparr>it_range_to_iterate = \<lparr>br_start_lba = 0, br_length = 0\<rparr>, it_filter_mask = 0, it_filter_pattern = 0,
                 it_filter_expiry = 0, it_max_ranges = 0, it_ranges = []\<rparr>\<rparr>),
      oa_layout = demo_layout, oa_slice = 0, oa_in_use_addr = 0, oa_deleted_addr = 0,
      oa_pool = \<lparr>m_buffers = [], m_buffer_sizes = [], m_num_buffers = 0, m_buffer_limit = 0, m_buffer_alignment = 0,
                 m_initialized = False\<rparr>, oa_del_status = False\<rparr>"

theorem kv_open_new_store_witness:
  "\<exists>mg' w' st. kv_open sim_iter_env sim_open_env sim_allocs 3 1 16 0 0
      \<lparr>mg_bufs = sim_bufs, mg_map = (\<lambda>i. None), mg_iter = (\<lambda>i. None)\<rparr> (\<lambda>n. None) = Some (Inr 3, mg', w') \<and>
     mg_map mg' 3 = Some st \<and> pm_wf (st_pm st) \<and> bm_bits (pm_in_use (st_pm st)) = {0}"
proof -
  define cap where "cap = \<lparr>nvm_max_num_iovs = 8, nvm_atomic_write_multiplicity = 1, nvm_max_write_size_per_iov = 512,
     nvm_max_trim_size_per_iov = 512, nvm_sector_size = 512, nvm_max_num_logical_iter_ranges = 8,
     nvm_atomic_write_max_total_size = 4096\<rparr>"
  have caps: "initialize_capabilities (oe_cap_values sim_open_env) (oe_cap_ret sim_open_env) (oe_feature_enabled sim_open_env) = Inr cap"
  proof -
    have "(\<exists>i < 3. P i) \<longleftrightarrow> P 0 \<or> P 1 \<or> P 2" for P :: "nat \<Rightarrow> bool"
      by (auto simp: numeral_3_eq_3 numeral_2_eq_2 less_Suc_eq)
    then show ?thesis by (simp add: initialize_capabilities_def sim_open_env_def cap_def)
  qed
  have laws: "open_laws sim_iter_env 9 (oe_handle sim_open_env) cap"
    by (simp add: open_laws_def cap_def sim_iter_env_def sim_env_def)
  have oa: "allocs_succeed sim_allocs" by (simp add: allocs_succeed_def sim_allocs_def)
  have cp: "env_capacity sim_iter_env (oe_handle sim_open_env) (\<lambda>n. None) =
      Some \<lparr>cp_total_phys = 2 ^ 30, cp_used_phys = 2 ^ 20, cp_total_logical = 2 ^ 48\<rparr>"
    and ex: "env_block_exists sim_iter_env (oe_handle sim_open_env) 0 (\<lambda>n. None) = 0"
    by (simp_all add: sim_iter_env_def sim_env_def)
  have env: "oe_fstat_ok sim_open_env" "oe_handle sim_open_env \<noteq> -1" "oe_release_ok sim_open_env"
    by (simp_all add: sim_open_env_def)
  have args: "NVM_KV_MIN_POOLS \<le> unat (16 :: u32)" "unat (16 :: u32) \<le> NVM_KV_MAX_POOLS" "(0 :: u32) \<le> KV_GLOBAL_EXPIRY"
    "(0 :: int) \<le> 3" "(3 :: int) < 2 ^ 31"
    by (simp_all add: NVM_KV_MIN_POOLS_def NVM_KV_MAX_POOLS_def)
  obtain mg' w' st where "kv_open sim_iter_env sim_open_env sim_allocs 3 1 16 0 0
      \<lparr>mg_bufs = sim_bufs, mg_map = (\<lambda>i. None), mg_iter = (\<lambda>i. None)\<rparr> (\<lambda>n. None) = Some (Inr 3, mg', w')"
    "mg_map mg' = [3 \<mapsto> st]" "pm_wf (st_pm st)" "bm_bits (pm_in_use (st_pm st)) = {0}"
    using kv_open_new_store [OF laws oa env(1,2) caps cp ex args env(3), where version = 1 and cache_size = 0
        and mg = "\<lparr>mg_bufs = sim_bufs, mg_map = (\<lambda>i. None), mg_iter = (\<lambda>i. None)\<rparr>"]
    by auto
  then show ?thesis by auto
qed

end
