(* ===== verification/KvBatch.thy ===== *)
theory KvBatch
  imports KvOps
begin

text \<open>
  \<open>kv_batch_put\<close> of \<open>src/kv_store_mgr.cpp\<close>: every pair of a batch is validated, looked
  up in the cache, given a buffer and an address, and its trim and write vectors are collected; then
  the vectors are issued in one atomic batch, or the trims before the writes when they do not fit.
  \<open>None\<close> is a call that never returns.
\<close>

record kv_put_iov =
  kp_key :: "bytes option"
  kp_key_len :: nat
  kp_value :: "user_value option"
  kp_value_len :: nat
  kp_expiry :: u32
  kp_gen_count :: u32
  kp_replace :: bool

text \<open>
  The local variables of the loop. \<open>ps_arr\<close> holds the buffers counted in
  \<open>buf_acquired\<close>, \<open>ps_lbas\<close> the map of addresses used, \<open>ps_done\<close> the cache
  context, address and absolute expiry of the pairs processed.
\<close>

record 'w batch_state =
  ps_bufs :: nvm_kv_buffer_pool
  ps_arr :: "(membuf \<times> nat) list"
  ps_lbas :: "(u64 \<times> bytes \<times> nat) list"
  ps_insert_lba :: bool
  ps_final_iov_count :: nat
  ps_trm :: "nvm_iovec list"
  ps_idx_trm :: nat
  ps_wrt :: "nvm_iovec list"
  ps_idx_wrt :: nat
  ps_done :: "(nvm_kv_cache_context \<times> u64 \<times> u32) list"
  ps_store :: nvm_kv_store
  ps_world :: 'w

definition kp_key_of :: "kv_put_iov \<Rightarrow> bytes" where
  "kp_key_of kv = the (kp_key kv)"

section \<open>One pair\<close>

definition batch_lookup ::
  "'w nvm_env \<Rightarrow> 'w others \<Rightarrow> u32 \<Rightarrow> kv_put_iov \<Rightarrow> 'w batch_state \<Rightarrow>
   (nvm_kv_cache_context \<times> bool) res \<times> 'w batch_state" where
  "batch_lookup E oth pool_id kv ps =
     (let st = ps_store ps; w = ps_world ps
      in case st_cache st of
           None \<Rightarrow> (Inr (empty_context, False), ps)
         | Some ca \<Rightarrow>
             (case kv_cache_get (get_expiry st) (kv_time E w) (kp_key_of kv) (of_nat (kp_key_len kv)) pool_id ca of
                (Inl _, ctx) \<Rightarrow> (Inr (ctx, False), ps)
              | (Inr _, ctx) \<Rightarrow>
                  if \<not> kp_replace kv \<and> \<not> cc_expired ctx then (Inl NVM_ERR_OBJECT_EXISTS, ps)
                  else
                    (let lba = ce_lba (cc_entry ctx)
                     in case map_of (ps_lbas ps) lba of
                          Some (dup_key, dup_len) \<Rightarrow>
                            (Inr (ctx, dup_len = kp_key_len kv \<and>
                                       take dup_len dup_key = take dup_len (kp_key_of kv)), ps)
                        | None \<Rightarrow>
                            (let (wait, st, w) = insert_lba_to_safe_list oth lba st w
                             in if wait
                                then (Inr (empty_context, False),
                                      ps\<lparr>ps_store := delete_lba_from_safe_list lba st, ps_world := w\<rparr>)
                                else (Inr (ctx, True), ps\<lparr>ps_store := st, ps_world := w, ps_insert_lba := True\<rparr>)))))"

definition batch_address ::
  "'w nvm_env \<Rightarrow> 'w others \<Rightarrow> u32 \<Rightarrow> kv_put_iov \<Rightarrow> nvm_kv_cache_context \<Rightarrow> bool \<Rightarrow> lba_list \<Rightarrow> 'w gen_state \<Rightarrow>
   unit res \<times> u64 \<times> 'w gen_state" where
  "batch_address E oth pool_id kv ctx exists_in_cache lbas gs =
     (if \<not> exists_in_cache
      then kv_gen_lba E oth pool_id (kp_key_of kv) (kp_key_len kv) (kp_value_len kv) (kp_replace kv) (Some lbas) gs
      else
        (let old_len = unat (ce_value_len (cc_entry ctx))
         in (Inr (), ce_lba (cc_entry ctx),
             if old_len > kp_value_len kv then gs\<lparr>gs_trim_len := old_len\<rparr> else gs)))"

definition keep_buf :: "membuf \<Rightarrow> 'w batch_state \<Rightarrow> 'w batch_state" where
  "keep_buf buf ps = ps\<lparr>ps_arr := butlast (ps_arr ps) @ [(buf, snd (last (ps_arr ps)))]\<rparr>"

definition take_gs :: "'w gen_state \<Rightarrow> 'w batch_state \<Rightarrow> 'w batch_state" where
  "take_gs gs ps =
     keep_buf (gs_buf gs)
       (ps\<lparr>ps_insert_lba := gs_insert_lba gs, ps_store := gs_store gs, ps_world := gs_world gs\<rparr>)"

definition note_lba :: "u64 \<Rightarrow> kv_put_iov \<Rightarrow> 'w batch_state \<Rightarrow> 'w batch_state" where
  "note_lba lba kv ps =
     (if map_of (ps_lbas ps) lba = None
      then ps\<lparr>ps_lbas := (lba, kp_key_of kv, kp_key_len kv) # ps_lbas ps\<rparr> else ps)"

definition batch_vectors ::
  "'w nvm_env \<Rightarrow> u32 \<Rightarrow> kv_put_iov \<Rightarrow> nvm_kv_cache_context \<Rightarrow> u64 \<Rightarrow> nat \<Rightarrow> membuf \<Rightarrow> write_plan \<Rightarrow> nat \<Rightarrow>
   'w batch_state \<Rightarrow> (unit res \<times> 'w batch_state) option" where
  "batch_vectors E pool_id kv ctx lba trim_len buf plan num_iovs ps =
     (let st = ps_store ps; device = get_store_device st
      in case kv_process_for_trim (kp_value_len kv) trim_len lba device of
           Inl e \<Rightarrow> Some (Inl e, ps)
         | Inr trims \<Rightarrow>
             (let ps = ps\<lparr>ps_trm := put_iovs (ps_idx_trm ps) trims (ps_trm ps),
                          ps_idx_trm := ps_idx_trm ps + length trims\<rparr>
              in if ps_idx_trm ps > get_max_batch_size st then Some (Inl NVM_ERR_IO, ps)
                 else
                   (case kv_process_for_write E device pool_id (kp_key_of kv) (kp_key_len kv) (the (kp_value kv))
                           (kp_value_len kv) buf plan (put_expiry st (kp_expiry kv)) (kp_gen_count kv) lba
                           (ps_world ps) of
                      None \<Rightarrow> None
                    | Some (writes, buf, abs_expiry) \<Rightarrow>
                        Some (Inr (), keep_buf buf
                          (ps\<lparr>ps_wrt := put_iovs (ps_idx_wrt ps) writes (ps_wrt ps),
                              ps_idx_wrt := ps_idx_wrt ps + num_iovs,
                              ps_done := ps_done ps @ [(ctx, lba, abs_expiry)]\<rparr>)))))"

definition batch_put_key ::
  "'w nvm_env \<Rightarrow> 'w others \<Rightarrow> u32 \<Rightarrow> kv_put_iov \<Rightarrow> 'w batch_state \<Rightarrow> (unit res \<times> 'w batch_state) option" where
  "batch_put_key E oth pool_id kv ps =
     (case batch_lookup E oth pool_id kv ps of
        (Inl e, ps) \<Rightarrow> Some (Inl e, ps)
      | (Inr (ctx, exists_in_cache), ps) \<Rightarrow>
          (case kv_alloc_for_write E (get_store_device (ps_store ps)) (kp_key_len kv) (uv_addr (the (kp_value kv)))
                  (kp_value_len kv) (ps_bufs ps) (ps_world ps) of
             None \<Rightarrow> None
           | Some (Inl e, _, _, _, _, bufs) \<Rightarrow> Some (Inl e, ps\<lparr>ps_bufs := bufs\<rparr>)
           | Some (Inr _, buf, ret_buf_size, num_iovs, plan, bufs) \<Rightarrow>
               (let ps = ps\<lparr>ps_bufs := bufs, ps_final_iov_count := ps_final_iov_count ps + num_iovs\<rparr>
                in if ps_final_iov_count ps > nvm_max_num_iovs (dev_caps (get_store_device (ps_store ps)))
                   then Some (Inl NVM_ERR_IO, ps)
                   else
                     (let ps = ps\<lparr>ps_arr := ps_arr ps @ [(the buf, ret_buf_size)]\<rparr>
                      in case batch_address E oth pool_id kv ctx exists_in_cache (map_of (ps_lbas ps))
                                \<lparr>gs_buf = the buf, gs_trim_len = 0, gs_insert_lba = ps_insert_lba ps,
                                 gs_store = ps_store ps, gs_world = ps_world ps\<rparr> of
                           (Inl e, lba, gs) \<Rightarrow> Some (Inl e, take_gs gs ps)
                         | (Inr _, lba, gs) \<Rightarrow>
                             batch_vectors E pool_id kv ctx lba (gs_trim_len gs) (gs_buf gs) plan num_iovs
                               (note_lba lba kv (take_gs gs ps))))))"

fun batch_put_keys ::
  "'w nvm_env \<Rightarrow> 'w others \<Rightarrow> u32 \<Rightarrow> kv_put_iov list \<Rightarrow> 'w batch_state \<Rightarrow> (unit res \<times> 'w batch_state) option" where
  "batch_put_keys E oth pool_id [] ps = Some (Inr (), ps)"
| "batch_put_keys E oth pool_id (kv # kvs) ps =
     (if \<not> (validate_key (kp_key kv) (kp_key_len kv) \<and>
            validate_value KVBATCHPUT (kp_value kv = None) (kp_value_len kv) (ps_store ps))
      then Some (Inl NVM_ERR_INVALID_INPUT, ps)
      else
        (case batch_put_key E oth pool_id kv ps of
           None \<Rightarrow> None
         | Some (Inl e, ps) \<Rightarrow> Some (Inl e, ps)
         | Some (Inr _, ps) \<Rightarrow> batch_put_keys E oth pool_id kvs ps))"

section \<open>Issuing the vectors\<close>

definition batch_writes ::
  "'w nvm_env \<Rightarrow> nvm_kv_store_device \<Rightarrow> 'w batch_state \<Rightarrow> 'w \<Rightarrow> unit res \<times> 'w" where
  "batch_writes E device ps w =
     (case nvm_writev E device (ps_wrt ps) (ps_idx_wrt ps) True w of
        (Inl e, w) \<Rightarrow> (Inl e, w)
      | (Inr _, w) \<Rightarrow> (Inr (), w))"

definition batch_issue ::
  "'w nvm_env \<Rightarrow> nvm_kv_store_device \<Rightarrow> 'w batch_state \<Rightarrow> 'w \<Rightarrow> unit res \<times> 'w" where
  "batch_issue E device ps w =
     (let max_iovs = nvm_max_num_iovs (dev_caps device)
      in if ps_idx_trm ps = 0 then batch_writes E device ps w
         else
           (let joined = ps_idx_wrt ps + ps_idx_trm ps \<le> max_iovs;
                trm = (if joined then put_iovs (ps_idx_trm ps) (take (ps_idx_wrt ps) (ps_wrt ps)) (ps_trm ps)
                       else ps_trm ps);
                idx_trm = (if joined then ps_idx_trm ps + ps_idx_wrt ps else ps_idx_trm ps)
            in case nvm_writev E device trm idx_trm True w of
                 (Inl e, w) \<Rightarrow> (Inl e, w)
               | (Inr _, w) \<Rightarrow>
                   if ps_idx_wrt ps + idx_trm > max_iovs then batch_writes E device ps w else (Inr (), w)))"

definition batch_cache ::
  "u32 \<Rightarrow> int \<Rightarrow> (kv_put_iov \<times> nvm_kv_cache_context \<times> u64 \<times> u32) list \<Rightarrow> nvm_kv_cache \<Rightarrow> nvm_kv_cache" where
  "batch_cache pool_id now entries ca =
     foldl (\<lambda>ca (kv, ctx, lba, abs_expiry).
              kv_cache_put (kp_key_of kv) (of_nat (kp_key_len kv)) pool_id (of_nat (kp_value_len kv)) abs_expiry
                (kp_gen_count kv) lba (Some ctx) now ca) ca entries"

definition batch_exit ::
  "unit res \<Rightarrow> 'w batch_state \<Rightarrow> unit res \<times> nvm_kv_buffer_pool \<times> nvm_kv_store \<times> 'w" where
  "batch_exit ret_code ps =
     (ret_code,
      foldl (\<lambda>bufs (buf, sz). fst (release_buf (Some buf) sz bufs)) (ps_bufs ps) (ps_arr ps),
      if ps_insert_lba ps
      then foldl (\<lambda>st entry. delete_lba_from_safe_list (fst entry) st) (ps_store ps) (ps_lbas ps)
      else ps_store ps,
      ps_world ps)"

definition batch_finish ::
  "'w nvm_env \<Rightarrow> u32 \<Rightarrow> kv_put_iov list \<Rightarrow> 'w batch_state \<Rightarrow> unit res \<times> nvm_kv_buffer_pool \<times> nvm_kv_store \<times> 'w" where
  "batch_finish E pool_id kvs ps =
     (case batch_issue E (get_store_device (ps_store ps)) ps (ps_world ps) of
        (Inl e, w) \<Rightarrow> batch_exit (Inl e) (ps\<lparr>ps_world := w\<rparr>)
      | (Inr _, w) \<Rightarrow>
          (let st = ps_store ps;
               st = st\<lparr>st_cache := map_option (batch_cache pool_id (kv_time E w) (zip kvs (ps_done ps))) (st_cache st)\<rparr>
           in batch_exit (Inr ()) (ps\<lparr>ps_store := st, ps_world := w\<rparr>)))"

definition batch_start ::
  "nvm_kv_buffer_pool \<Rightarrow> nvm_iovec list \<Rightarrow> nvm_kv_store \<Rightarrow> 'w \<Rightarrow> 'w batch_state" where
  "batch_start bufs iovs st w =
     \<lparr>ps_bufs = bufs, ps_arr = [], ps_lbas = [], ps_insert_lba = False, ps_final_iov_count = 0, ps_trm = iovs,
      ps_idx_trm = 0, ps_wrt = iovs, ps_idx_wrt = 0, ps_done = [], ps_store = st, ps_world = w\<rparr>"

definition batch_put_store ::
  "'w nvm_env \<Rightarrow> 'w others \<Rightarrow> bool \<Rightarrow> u32 \<Rightarrow> kv_put_iov list \<Rightarrow> nvm_kv_buffer_pool \<Rightarrow> nvm_kv_store \<Rightarrow> 'w \<Rightarrow>
   (unit res \<times> nvm_kv_buffer_pool \<times> nvm_kv_store \<times> 'w) option" where
  "batch_put_store E oth new_ok pool_id kvs bufs st w =
     (if length kvs > get_max_batch_size st then Some (Inl NVM_ERR_INVALID_INPUT, bufs, st, w)
      else if \<not> new_ok then Some (Inl NVM_ERR_OUT_OF_MEMORY, bufs, st, w)
      else
        (case env_new_iovs E w (nvm_max_num_iovs (dev_caps (get_store_device st))) of
           None \<Rightarrow> Some (Inl NVM_ERR_OUT_OF_MEMORY, bufs, st, w)
         | Some iovs \<Rightarrow>
             (case batch_put_keys E oth pool_id kvs (batch_start bufs iovs st w) of
                None \<Rightarrow> None
              | Some (Inl e, ps) \<Rightarrow> Some (batch_exit (Inl e) ps)
              | Some (Inr _, ps) \<Rightarrow> Some (batch_finish E pool_id kvs ps))))"

definition kv_batch_put ::
  "'w nvm_env \<Rightarrow> 'w others \<Rightarrow> bool \<Rightarrow> int \<Rightarrow> int \<Rightarrow> kv_put_iov list option \<Rightarrow> nvm_kv_store_mgr \<Rightarrow> 'w \<Rightarrow>
   (unit res \<times> nvm_kv_store_mgr \<times> 'w) option" where
  "kv_batch_put E oth new_ok kv_id pool_id kv_iov mg w =
     on_store kv_id (\<lambda>st.
       if validate_pool KVBATCHPUT pool_id st \<and>
          validate_batch (kv_iov = None) (length (case kv_iov of None \<Rightarrow> [] | Some kvs \<Rightarrow> kvs))
       then batch_put_store E oth new_ok (word_of_int pool_id) (the kv_iov) (mg_bufs mg) st w
       else Some (Inl NVM_ERR_INVALID_INPUT, mg_bufs mg, st, w)) mg w"

end
