(* ===== verification/KvBatchSpec.thy ===== *)
theory KvBatchSpec
  imports KvSpec KvBatch
begin

text \<open>
  The refinement of \<open>kv_batch_put\<close>: on a store without a cache, a batch of pairs with
  different keys binds all its keys in one step or none of them. The loop over the pairs writes nothing;
  its invariant says which sectors the collected vectors write, and that every buffer and every
  held address is on the lists the exit path releases.
\<close>

section \<open>Pairs of a batch\<close>

definition pair_key :: "u32 \<Rightarrow> kv_put_iov \<Rightarrow> kv_key" where
  "pair_key p kv = (p, kp_key_of kv)"

definition pair_cell :: "'w nvm_env \<Rightarrow> 'w \<Rightarrow> kv_put_iov \<Rightarrow> kv_cell" where
  "pair_cell E w kv = new_cell E w (the (kp_value kv)) (kp_value_len kv) (kp_expiry kv) (kp_gen_count kv)"

definition pair_plan :: "nat \<Rightarrow> kv_put_iov \<Rightarrow> write_plan" where
  "pair_plan k kv = plan_write (2 ^ k) (uv_addr (the (kp_value kv))) (kp_key_len kv) (kp_value_len kv)"

definition pair_iovs :: "nat \<Rightarrow> nvm_kv_store \<Rightarrow> kv_put_iov \<Rightarrow> nat" where
  "pair_iovs k st kv = plan_iovs (get_store_device st) (pair_plan k kv)"

definition pair_fits :: "nat \<Rightarrow> kv_key set \<Rightarrow> kv_map \<Rightarrow> u32 \<Rightarrow> kv_put_iov \<Rightarrow> bool" where
  "pair_fits k K m p kv \<longleftrightarrow>
     kp_key kv \<noteq> None \<and> kp_key_len kv = length (kp_key_of kv) \<and> pair_key p kv \<in> K \<and> kp_value kv \<noteq> None \<and>
     value_placed k (pair_key p kv) (the (kp_value kv)) (kp_value_len kv) \<and>
     keeps_size k (m (pair_key p kv)) (kp_value_len kv)"

definition batch_effect :: "'w nvm_env \<Rightarrow> 'w \<Rightarrow> u32 \<Rightarrow> kv_put_iov list \<Rightarrow> kv_map \<Rightarrow> kv_map" where
  "batch_effect E w p kvs m = foldl (\<lambda>m kv. m(pair_key p kv \<mapsto> pair_cell E w kv)) m kvs"

definition max_iovs :: "nvm_kv_store \<Rightarrow> nat" where
  "max_iovs st = nvm_max_num_iovs (dev_caps (get_store_device st))"

section \<open>The exit path\<close>

definition batch_held :: "nvm_kv_store \<Rightarrow> 'w \<Rightarrow> nat \<Rightarrow> 'w batch_state \<Rightarrow> bool" where
  "batch_held st w n ps \<longleftrightarrow>
     ps_world ps = w \<and> (\<exists>S. ps_store ps = st\<lparr>st_safe := S\<rparr> \<and> S \<subseteq> fst ` set (ps_lbas ps) \<and>
       (ps_insert_lba ps \<or> S = {})) \<and>
     bp_wf (ps_bufs ps) \<and> (\<forall>b \<in> set (ps_arr ps). length (mb_mem (fst b)) = snd b) \<and>
     length (m_buffers (ps_bufs ps)) + length (ps_arr ps) = n"

definition batch_aligned :: "'w nvm_env \<Rightarrow> nat \<Rightarrow> 'w batch_state \<Rightarrow> bool" where
  "batch_aligned E k ps \<longleftrightarrow>
     bufs_aligned E k (ps_bufs ps) \<and> (\<forall>b \<in> set (ps_arr ps). aligned k (mb_addr (fst b)))"

definition release_pair :: "nvm_kv_buffer_pool \<Rightarrow> membuf \<times> nat \<Rightarrow> nvm_kv_buffer_pool" where
  "release_pair = (\<lambda>bufs (buf, sz). fst (release_buf (Some buf) sz bufs))"

lemma release_pair_step:
  assumes "bp_wf bufs" and "length (mb_mem (fst b)) = snd b"
  shows "bp_wf (release_pair bufs b)" "length (m_buffers (release_pair bufs b)) = Suc (length (m_buffers bufs))"
    "bufs_aligned E k bufs \<Longrightarrow> aligned k (mb_addr (fst b)) \<Longrightarrow> bufs_aligned E k (release_pair bufs b)"
  using assms
  by (auto simp: release_pair_def release_buf_def Let_def bp_wf_def list_all2_snoc buf_ok_def bufs_aligned_def
      split: prod.splits)

lemma release_all:
  assumes "bp_wf bufs" and "\<forall>b \<in> set arr. length (mb_mem (fst b)) = snd b"
  shows "bp_wf (foldl release_pair bufs arr)"
    and "length (m_buffers (foldl release_pair bufs arr)) = length (m_buffers bufs) + length arr"
    and "bufs_aligned E k bufs \<Longrightarrow> \<forall>b \<in> set arr. aligned k (mb_addr (fst b)) \<Longrightarrow>
         bufs_aligned E k (foldl release_pair bufs arr)"
  using assms by (induction arr arbitrary: bufs) (simp_all add: release_pair_step)

lemma free_all:
  "foldl (\<lambda>st entry. delete_lba_from_safe_list (fst entry) st) st xs = st\<lparr>st_safe := st_safe st - fst ` set xs\<rparr>"
proof (induction xs arbitrary: st)
  case Nil
  then show ?case by simp
next
  case (Cons a xs)
  have "delete_lba_from_safe_list (fst a) st = st\<lparr>st_safe := st_safe st - {fst a}\<rparr>"
    by (simp add: delete_lba_from_safe_list_def delete_entry_def)
  then show ?case using Cons.IH by (simp add: set_diff_eq)
qed

lemma batch_exit_spec:
  assumes held: "batch_held st w n ps" and st: "st_safe st = {}"
  obtains bufs' where "batch_exit r ps = (r, bufs', st, w)" "bp_wf bufs'" "length (m_buffers bufs') = n"
    "batch_aligned E k ps \<Longrightarrow> bufs_aligned E k bufs'"
proof -
  obtain S where S: "ps_store ps = st\<lparr>st_safe := S\<rparr>" "S \<subseteq> fst ` set (ps_lbas ps)" "ps_insert_lba ps \<or> S = {}"
    using held by (auto simp: batch_held_def)
  have clean: "st\<lparr>st_safe := {}\<rparr> = st" using st by (cases st) simp
  have d: "S - fst ` set (ps_lbas ps) = {}" using S(2) by blast
  have "foldl (\<lambda>st entry. delete_lba_from_safe_list (fst entry) st) (ps_store ps) (ps_lbas ps) =
      st\<lparr>st_safe := S - fst ` set (ps_lbas ps)\<rparr>"
    using S(1) by (simp add: free_all)
  then have "foldl (\<lambda>st entry. delete_lba_from_safe_list (fst entry) st) (ps_store ps) (ps_lbas ps) = st"
    by (simp only: d clean)
  then have freed: "(if ps_insert_lba ps
      then foldl (\<lambda>st entry. delete_lba_from_safe_list (fst entry) st) (ps_store ps) (ps_lbas ps)
      else ps_store ps) = st"
    using S(1,3) clean by auto
  have "batch_exit r ps = (r, foldl release_pair (ps_bufs ps) (ps_arr ps), st, w)"
    using freed held by (simp add: batch_exit_def batch_held_def release_pair_def)
  moreover have held': "bp_wf (ps_bufs ps)" "\<forall>b \<in> set (ps_arr ps). length (mb_mem (fst b)) = snd b"
    "length (m_buffers (ps_bufs ps)) + length (ps_arr ps) = n"
    using held by (simp_all add: batch_held_def)
  moreover have "bufs_aligned E k (foldl release_pair (ps_bufs ps) (ps_arr ps))" if "batch_aligned E k ps"
    using that unfolding batch_aligned_def by (intro release_all(3) [OF held'(1,2)]) blast+
  ultimately show thesis using that release_all(1,2) [OF held'(1,2)] by simp
qed

section \<open>The vectors of a batch\<close>

lemma disjoint_iovs_append:
  "disjoint_iovs ss (xs @ ys) \<longleftrightarrow> disjoint_iovs ss xs \<and> disjoint_iovs ss ys \<and>
     (\<forall>x \<in> set xs. \<forall>y \<in> set ys. iov_range ss x \<inter> iov_range ss y = {})"
  by (induction xs) (auto simp: list_all_iff)

definition batch_written ::
  "'w nvm_env \<Rightarrow> nat \<Rightarrow> nvm_kv_store \<Rightarrow> kv_key set \<Rightarrow> 'w \<Rightarrow> u32 \<Rightarrow> kv_put_iov list \<Rightarrow> nvm_iovec list \<Rightarrow> bool" where
  "batch_written E k st K w p kvs iovs \<longleftrightarrow>
     disjoint_iovs (2 ^ k) iovs \<and>
     (\<forall>iov \<in> set iovs. \<exists>kv \<in> set kvs. iov_range (2 ^ k) iov \<subseteq> key_slot st (pair_key p kv)) \<and>
     (\<forall>V m. kv_rep k st K V m \<longrightarrow>
        kv_rep k st K (foldl (apply_iov (2 ^ k)) V iovs) (batch_effect E w p kvs m))"

lemma batch_written_nil: "batch_written E k st K w p [] []"
  by (simp add: batch_written_def batch_effect_def)

lemma batch_written_snoc:
  assumes env: "kv_env_ok E k j capacity view st" and spread: "keys_spread st capacity K"
    and prev: "batch_written E k st K w p kvs iovs" "\<forall>kv \<in> set kvs. pair_key p kv \<in> K"
    and x: "pair_key p kv \<in> K" "pair_key p kv \<notin> pair_key p ` set kvs"
    and store: "iovs_store (2 ^ k) writes (unat (key_lba st (pair_key p kv))) n f" "n \<le> search_range st"
    and sized: "\<And>V. sectors_sized k V \<Longrightarrow> sectors_sized k (put_sectors V (unat (key_lba st (pair_key p kv))) n f)"
    and cell: "\<And>V. holds_cell k (put_sectors V (unat (key_lba st (pair_key p kv))) n f)
                 (unat (key_lba st (pair_key p kv))) (pair_key p kv) (pair_cell E w kv)"
  shows "batch_written E k st K w p (kvs @ [kv]) (iovs @ writes)"
proof -
  let ?x = "pair_key p kv"
  have in_slot: "iov_range (2 ^ k) iov \<subseteq> key_slot st ?x" if "iov \<in> set writes" for iov
  proof -
    have "iov_range (2 ^ k) iov \<subseteq> {unat (key_lba st ?x) ..< unat (key_lba st ?x) + n}"
      using store(1) that unfolding iovs_store_def by blast
    then show ?thesis using store(2) unfolding key_slot_def by auto
  qed
  have apart: "key_slot st (pair_key p y) \<inter> key_slot st ?x = {}" if "y \<in> set kvs" for y
    using key_placedD(6) [OF spread, of "pair_key p y" ?x] that prev(2) x by (metis image_eqI)
  have "kv_rep k st K (foldl (apply_iov (2 ^ k)) V (iovs @ writes)) (batch_effect E w p (kvs @ [kv]) m)"
    if "kv_rep k st K V m" for V m
  proof -
    let ?V = "foldl (apply_iov (2 ^ k)) V iovs"
    have rep: "kv_rep k st K ?V (batch_effect E w p kvs m)" using prev(1) that by (simp add: batch_written_def)
    have new: "foldl (apply_iov (2 ^ k)) ?V writes = put_sectors ?V (unat (key_lba st ?x)) n f"
      using store(1) by (simp add: iovs_store_def)
    have "kv_rep k st K (put_sectors ?V (unat (key_lba st ?x)) n f)
      ((batch_effect E w p kvs m)(?x \<mapsto> pair_cell E w kv))"
    proof (rule kv_rep_change [OF rep spread env x(1)])
      show "sectors_sized k (put_sectors ?V (unat (key_lba st ?x)) n f)"
        using sized rep by (simp add: kv_rep_def)
      show "put_sectors ?V (unat (key_lba st ?x)) n f i = ?V i" if "i \<notin> key_slot st ?x" for i
        using that store(2) by (intro put_sectors_outside) (auto simp: key_slot_def)
      show "cell_at st k (put_sectors ?V (unat (key_lba st ?x)) n f) ?x (Some (pair_cell E w kv))"
        using cell by (simp add: cell_at_def)
    qed
    then show ?thesis by (simp add: new batch_effect_def)
  qed
  moreover have "disjoint_iovs (2 ^ k) (iovs @ writes)"
    unfolding disjoint_iovs_append
  proof (intro conjI ballI)
    show "disjoint_iovs (2 ^ k) iovs" "disjoint_iovs (2 ^ k) writes"
      using prev(1) store(1) by (simp_all add: batch_written_def iovs_store_def)
    fix a b
    assume "a \<in> set iovs" "b \<in> set writes"
    moreover from this obtain y where "y \<in> set kvs" "iov_range (2 ^ k) a \<subseteq> key_slot st (pair_key p y)"
      using prev(1) unfolding batch_written_def by blast
    ultimately show "iov_range (2 ^ k) a \<inter> iov_range (2 ^ k) b = {}" using in_slot apart by blast
  qed
  moreover have "\<exists>y \<in> set (kvs @ [kv]). iov_range (2 ^ k) iov \<subseteq> key_slot st (pair_key p y)"
    if "iov \<in> set (iovs @ writes)" for iov
  proof (cases "iov \<in> set iovs")
    case True
    then show ?thesis using prev(1) unfolding batch_written_def by auto
  next
    case False
    then show ?thesis using that in_slot by auto
  qed
  ultimately show ?thesis unfolding batch_written_def by blast
qed

section \<open>The loop over the pairs\<close>

definition batch_inv ::
  "'w nvm_env \<Rightarrow> nat \<Rightarrow> nvm_kv_store \<Rightarrow> kv_key set \<Rightarrow> 'w \<Rightarrow> u32 \<Rightarrow> nat \<Rightarrow> kv_put_iov list \<Rightarrow> 'w batch_state \<Rightarrow> bool" where
  "batch_inv E k st K w p n kvs ps \<longleftrightarrow>
     batch_held st w n ps \<and> fst ` set (ps_lbas ps) = key_lba st ` pair_key p ` set kvs \<and>
     length (ps_arr ps) = length kvs \<and> ps_idx_trm ps = 0 \<and>
     ps_idx_wrt ps = sum_list (map (pair_iovs k st) kvs) \<and> ps_final_iov_count ps = ps_idx_wrt ps \<and>
     ps_idx_wrt ps \<le> max_iovs st \<and> length (ps_wrt ps) = max_iovs st \<and>
     batch_written E k st K w p kvs (take (ps_idx_wrt ps) (ps_wrt ps))"

text \<open>
  What the error of a pair says: with aligned buffers, a device whose range queries answer and
  enough vectors, only a key that exists and is not to be replaced.
\<close>

definition pair_safe :: "'w nvm_env \<Rightarrow> nat \<Rightarrow> nvm_kv_store \<Rightarrow> kv_put_iov list \<Rightarrow> 'w batch_state \<Rightarrow> bool" where
  "pair_safe E k st kvs ps \<longleftrightarrow>
     ranges_known E st \<and> batch_aligned E k ps \<and> NVM_KV_MAX_VALUE_SIZE \<le> max_trim_size (get_store_device st) \<and>
     sum_list (map (pair_iovs k st) kvs) \<le> max_iovs st"

lemma fresh_lba:
  assumes env: "kv_env_ok E k j capacity view st" and spread: "keys_spread st capacity K"
    and "\<forall>kv \<in> set kvs. pair_key p kv \<in> K" and x: "x \<in> K" "x \<notin> pair_key p ` set kvs"
  shows "key_lba st x \<notin> key_lba st ` pair_key p ` set kvs"
proof
  assume "key_lba st x \<in> key_lba st ` pair_key p ` set kvs"
  then obtain kv where kv: "kv \<in> set kvs" "key_lba st x = key_lba st (pair_key p kv)" by blast
  then have "key_slot st x \<inter> key_slot st (pair_key p kv) = {}"
    using key_placedD(6) [OF spread x(1), of "pair_key p kv"] assms(3) x(2) by blast
  moreover have "unat (key_lba st x) \<in> key_slot st x" using kv_env_dest(10) [OF env] by (simp add: key_slot_def)
  ultimately show False using kv(2) by (auto simp: key_slot_def)
qed

lemma batch_vectors_spec:
  fixes st :: nvm_kv_store and ps :: "'w batch_state"
  assumes env: "kv_env_ok E k j capacity view st" and spread: "keys_spread st capacity K"
    and rep: "kv_rep k st K (view w) m" and inv: "batch_inv E k st K w p n kvs ps0"
    and ps: "batch_held st w n ps" "ps_arr ps = ps_arr ps0 @ [(buf, sz)]" "ps_idx_trm ps = 0"
      "ps_wrt ps = ps_wrt ps0" "ps_idx_wrt ps = ps_idx_wrt ps0" "ps_lbas ps = (key_lba st (pair_key p kv), y) # ps_lbas ps0"
      "ps_final_iov_count ps = ps_idx_wrt ps0 + pair_iovs k st kv"
    and kvs: "\<forall>kv \<in> set kvs. pair_key p kv \<in> K" "pair_key p kv \<notin> pair_key p ` set kvs"
    and fits: "pair_fits k K m p kv"
    and val: "value_storable k (kp_key_len kv) (the (kp_value kv)) (kp_value_len kv)"
    and room: "ps_idx_wrt ps0 + pair_iovs k st kv \<le> max_iovs st"
    and buf: "2 ^ k \<le> length (mb_mem buf)"
    and trim: "t = (case m (pair_key p kv) of None \<Rightarrow> 0
        | Some c \<Rightarrow> if length (kc_value c) > kp_value_len kv then length (kc_value c) else 0)"
  obtains (fail) err where "batch_vectors E p kv ctx (key_lba st (pair_key p kv)) t buf (pair_plan k kv) (pair_iovs k st kv) ps =
      Some (Inl err, ps)" "max_trim_size (get_store_device st) < NVM_KV_MAX_VALUE_SIZE"
  | (ok) ps' where "batch_vectors E p kv ctx (key_lba st (pair_key p kv)) t buf (pair_plan k kv) (pair_iovs k st kv) ps =
      Some (Inr (), ps')" "batch_inv E k st K w p n (kvs @ [kv]) ps'" "ps_bufs ps' = ps_bufs ps"
      "batch_aligned E k ps \<Longrightarrow> batch_aligned E k ps'"
proof -
  let ?x = "pair_key p kv" and ?dev = "get_store_device st" and ?uval = "the (kp_value kv)"
  let ?lba = "key_lba st ?x"
  have x: "?x \<in> K" "kp_key_len kv = length (snd ?x)" "keeps_size k (m ?x) (kp_value_len kv)"
    using fits by (simp_all add: pair_fits_def) (simp add: pair_key_def)
  note e = kv_env_dest [OF env] and pl = key_placedD [OF spread x(1)]
  obtain S where S: "ps_store ps = st\<lparr>st_safe := S\<rparr>" using ps(1) by (auto simp: batch_held_def)
  have dev: "get_store_device (ps_store ps) = ?dev" "get_expiry (ps_store ps) = KV_DISABLE_EXPIRY"
    using S e(16) by simp_all
  have pe: "put_expiry (ps_store ps) (kp_expiry kv) = kp_expiry kv"
    using dev(2) by (simp add: put_expiry_def KV_DISABLE_EXPIRY_def KV_GLOBAL_EXPIRY_def)
  have w: "ps_world ps = w" using ps(1) by (simp add: batch_held_def)
  have key: "kp_key_of kv = snd ?x" "fst ?x = p" by (simp_all add: pair_key_def)
  have vl: "kp_value_len kv \<le> NVM_KV_MAX_VALUE_SIZE" using val by (simp add: value_storable_def)
  have "cell_at st k (view w) ?x (m ?x)" using rep x(1) by (simp add: kv_rep_def)
  then have old: "length (kc_value c) \<le> NVM_KV_MAX_VALUE_SIZE" if "m ?x = Some c" for c
    using that by (auto simp: cell_at_def holds_cell_def header_fits_def split: option.splits)
  note nt = no_trim [OF e(18,19) vl old x(3) trim, of ?lba]
  define N where "N = plan_sectors k (pair_plan k kv) (kp_value_len kv)"
  have val': "value_storable k (length (snd ?x)) ?uval (kp_value_len kv)" using val x(2) by simp
  have slot: "N \<le> search_range st" using plan_in_slot [OF e(17,18) val] e(10) by (simp add: N_def)
  then have fit: "unat ?lba + N < 2 ^ 64" using pl(3) e(9) by simp
  have klen: "kp_key_len kv \<le> NVM_KV_MAX_KEY_SIZE" using pl(2) x(2) by simp
  obtain writes mem exp where wr:
    "kv_process_for_write E ?dev p (snd ?x) (kp_key_len kv) ?uval (kp_value_len kv) buf (pair_plan k kv) (kp_expiry kv)
       (kp_gen_count kv) ?lba w = Some (writes, buf\<lparr>mb_mem := mem\<rparr>, exp)"
    "length writes = pair_iovs k st kv"
    "iovs_store (2 ^ k) writes (unat ?lba) N (plan_content k mem ?uval)"
    "length mem = length (mb_mem buf)"
    "kv_header (env_time E w) p (kp_key_len kv) (kp_value_len kv) (pair_plan k kv) (kp_expiry kv) (kp_gen_count kv) (load_header mem)"
    "mem_read M_KV_HEADER_SIZE (kp_key_len kv) mem = snd ?x"
    "\<not> wp_user (pair_plan k kv) \<longrightarrow>
       mem_read (wp_offset (pair_plan k kv)) (kp_value_len kv) mem = mem_bytes (uv_mem ?uval) 0 (kp_value_len kv)"
    using process_write_spec [OF e(7) x(2) klen val buf fit [unfolded N_def pair_plan_def], where E = E and w = w
        and pool_id = p and expiry = "kp_expiry kv" and gen_count = "kp_gen_count kv",
        folded pair_plan_def N_def pair_iovs_def] by metis
  note unf = batch_vectors_def [of E p kv ctx ?lba t buf "pair_plan k kv" "pair_iovs k st kv" ps,
      unfolded Let_def dev(1) pe w key(1) ps(3)]
  show thesis
  proof (cases "kv_process_for_trim (kp_value_len kv) t ?lba ?dev")
    case (Inl err)
    then show thesis using fail unf nt by simp
  next
    case (Inr trims)
    then have "trims = []" using nt by simp
    define ps' where "ps' = keep_buf (buf\<lparr>mb_mem := mem\<rparr>)
        (ps\<lparr>ps_wrt := put_iovs (ps_idx_wrt ps) writes (ps_wrt ps), ps_idx_wrt := ps_idx_wrt ps + pair_iovs k st kv,
            ps_done := ps_done ps @ [(ctx, ?lba, exp)]\<rparr>)"
    have call: "batch_vectors E p kv ctx ?lba t buf (pair_plan k kv) (pair_iovs k st kv) ps = Some (Inr (), ps')"
    proof -
      have same: "ps\<lparr>ps_trm := put_iovs 0 [] (ps_trm ps), ps_idx_trm := 0 + length ([] :: nvm_iovec list)\<rparr> = ps"
        using ps(3) by (cases ps) simp
      show ?thesis
        using wr(1) ps(3) w
        by (simp only: unf Inr sum.case \<open>trims = []\<close> same pe) (simp add: ps'_def)
    qed
    have f: "ps_arr ps' = ps_arr ps0 @ [(buf\<lparr>mb_mem := mem\<rparr>, sz)]" "ps_bufs ps' = ps_bufs ps" "ps_lbas ps' = ps_lbas ps"
      "ps_world ps' = ps_world ps" "ps_store ps' = ps_store ps" "ps_insert_lba ps' = ps_insert_lba ps"
      "ps_idx_trm ps' = 0" "ps_wrt ps' = put_iovs (ps_idx_wrt ps0) writes (ps_wrt ps0)"
      "ps_idx_wrt ps' = ps_idx_wrt ps0 + pair_iovs k st kv" "ps_final_iov_count ps' = ps_idx_wrt ps0 + pair_iovs k st kv"
      using ps by (simp_all add: ps'_def keep_buf_def)
    have len: "length (ps_wrt ps0) = max_iovs st" using inv by (simp add: batch_inv_def)
    have tk: "take (ps_idx_wrt ps') (ps_wrt ps') = take (ps_idx_wrt ps0) (ps_wrt ps0) @ writes"
      using put_iovs_take [of "ps_idx_wrt ps0" writes "ps_wrt ps0"] room wr(2) len by (simp add: f)
    have "batch_written E k st K w p (kvs @ [kv]) (take (ps_idx_wrt ps0) (ps_wrt ps0) @ writes)"
    proof (rule batch_written_snoc [OF env spread _ kvs(1) x(1) kvs(2) wr(3) slot])
      show "batch_written E k st K w p kvs (take (ps_idx_wrt ps0) (ps_wrt ps0))"
        using inv unfolding batch_inv_def by blast
      have lm: "2 ^ k \<le> length mem" using buf wr(4) by simp
      then show "sectors_sized k (put_sectors V (unat ?lba) N (plan_content k mem ?uval))" if "sectors_sized k V" for V
        using that by (rule put_sized [rotated])
      have hdr: "kv_header (env_time E w) (fst ?x) (length (snd ?x)) (kp_value_len kv)
         (plan_write (2 ^ k) (uv_addr ?uval) (length (snd ?x)) (kp_value_len kv)) (kp_expiry kv) (kp_gen_count kv) (load_header mem)"
        using wr(5) x(2) key(2) by (simp add: pair_plan_def)
      have kb: "mem_read M_KV_HEADER_SIZE (length (snd ?x)) mem = snd ?x" using wr(6) x(2) by simp
      have inl: "\<not> wp_user (plan_write (2 ^ k) (uv_addr ?uval) (length (snd ?x)) (kp_value_len kv)) \<longrightarrow>
         mem_read (wp_offset (plan_write (2 ^ k) (uv_addr ?uval) (length (snd ?x)) (kp_value_len kv))) (kp_value_len kv) mem =
         mem_bytes (uv_mem ?uval) 0 (kp_value_len kv)"
        using wr(7) x(2) by (simp add: pair_plan_def)
      have "pair_cell E w kv = \<lparr>kc_value = mem_bytes (uv_mem ?uval) 0 (kp_value_len kv), kc_gen = kp_gen_count kv,
                kc_expiry = (if kp_expiry kv = 0 then 0 else kp_expiry kv + of_nat (env_time E w))\<rparr>"
        by (simp add: pair_cell_def new_cell_def)
      then show "holds_cell k (put_sectors V (unat ?lba) N (plan_content k mem ?uval)) (unat ?lba) ?x (pair_cell E w kv)" for V
        using put_cell [OF e(17,18) pl(2) val' lm hdr kb inl, of "pair_cell E w kv" V "unat ?lba"] x(2)
        by (simp add: N_def pair_plan_def)
    qed
    then have written: "batch_written E k st K w p (kvs @ [kv]) (take (ps_idx_wrt ps') (ps_wrt ps'))"
      by (simp only: tk)
    have sz: "length (mb_mem buf) = sz" using ps(1,2) by (simp add: batch_held_def)
    have held: "batch_held st w n ps'" using ps(1,2) wr(4) sz by (simp add: batch_held_def f)
    have inv': "batch_inv E k st K w p n (kvs @ [kv]) ps'"
      using held inv written room len ps(6) by (simp add: batch_inv_def) (simp add: f)
    have "batch_aligned E k ps'" if "batch_aligned E k ps"
      using that ps(2) by (simp add: batch_aligned_def f)
    then show thesis using ok call inv' f(2) by blast
  qed
qed

lemma batch_put_key_spec:
  fixes st :: nvm_kv_store and ps :: "'w batch_state"
  assumes env: "kv_env_ok E k j capacity view st" and spread: "keys_spread st capacity K"
    and rep: "kv_rep k st K (view w) m" and inv: "batch_inv E k st K w p n kvs ps"
    and kvs: "\<forall>kv \<in> set kvs. pair_key p kv \<in> K" "pair_key p kv \<notin> pair_key p ` set kvs"
    and fits: "pair_fits k K m p kv" and n: "length kvs < n"
    and val: "value_storable k (kp_key_len kv) (the (kp_value kv)) (kp_value_len kv)"
  obtains (fail) err ps' n' where "batch_put_key E oth p kv ps = Some (Inl err, ps')" "batch_held st w n' ps'"
      "n' \<le> n" "n \<le> Suc n'" "sum_list (map (pair_iovs k st) (kvs @ [kv])) \<le> max_iovs st \<Longrightarrow> n' = n"
      "pair_safe E k st (kvs @ [kv]) ps \<Longrightarrow> batch_aligned E k ps' \<and>
         err = NVM_ERR_OBJECT_EXISTS \<and> m (pair_key p kv) \<noteq> None \<and> \<not> kp_replace kv"
  | (ok) ps' where "batch_put_key E oth p kv ps = Some (Inr (), ps')" "batch_inv E k st K w p n (kvs @ [kv]) ps'"
      "m (pair_key p kv) = None \<or> kp_replace kv" "batch_aligned E k ps \<Longrightarrow> batch_aligned E k ps'"
proof -
  let ?x = "pair_key p kv" and ?dev = "get_store_device st"
  note e = kv_env_dest [OF env]
  have held: "batch_held st w n ps" and len: "length (ps_arr ps) = length kvs"
    and cnt: "ps_final_iov_count ps = ps_idx_wrt ps" "ps_idx_wrt ps = sum_list (map (pair_iovs k st) kvs)"
    and lbas: "fst ` set (ps_lbas ps) = key_lba st ` pair_key p ` set kvs"
    using inv unfolding batch_inv_def by blast+
  obtain S where S: "ps_store ps = st\<lparr>st_safe := S\<rparr>" "S \<subseteq> fst ` set (ps_lbas ps)" "ps_insert_lba ps \<or> S = {}"
    and w: "ps_world ps = w" and wf: "bp_wf (ps_bufs ps)"
    and arr: "\<forall>b \<in> set (ps_arr ps). length (mb_mem (fst b)) = snd b"
    and bl: "length (m_buffers (ps_bufs ps)) + length (ps_arr ps) = n"
    using held by (auto simp: batch_held_def)
  have x: "?x \<in> K" "fst ?x = p" "snd ?x = kp_key_of kv" "length (snd ?x) = kp_key_len kv"
    using fits by (simp_all add: pair_fits_def pair_key_def)
  have fresh: "key_lba st ?x \<notin> fst ` set (ps_lbas ps)"
    using fresh_lba [OF env spread kvs(1) x(1) kvs(2)] lbas by simp
  then have notin: "map_of (ps_lbas ps) (key_lba st ?x) = None" "key_lba st ?x \<notin> S"
    using S(2) by (auto simp: map_of_eq_None_iff)
  have dev: "get_store_device (ps_store ps) = ?dev" using S(1) by simp
  have look: "batch_lookup E oth p kv ps = (Inr (empty_context, False), ps)"
    using S(1) e(14) by (simp add: batch_lookup_def)
  have klen: "kp_key_len kv \<le> NVM_KV_MAX_KEY_SIZE" using key_placedD(2) [OF spread x(1)] x(4) by simp
  have blen: "wp_buf_len (pair_plan k kv) = 2 ^ k"
    using plan_write_cases [OF e(17,18) val klen] by (simp add: pair_plan_def)
  have "max_write_size ?dev = 2 ^ j" using e(7) by (simp add: write_dev_ok_def)
  then have mws: "max_write_size ?dev \<noteq> 0" by simp
  note alloc = kv_alloc_for_write_def [of E ?dev "kp_key_len kv" "uv_addr (the (kp_value kv))" "kp_value_len kv" "ps_bufs ps" w,
      unfolded Let_def e(19) pair_plan_def [symmetric] blen pair_iovs_def [symmetric] max_iovs_def [symmetric]]
  note unf = batch_put_key_def [of E oth p kv ps, unfolded look prod.case sum.case dev w]
  have sum: "sum_list (map (pair_iovs k st) (kvs @ [kv])) = ps_idx_wrt ps + pair_iovs k st kv" using cnt by simp
  show thesis
  proof (cases "pair_iovs k st kv > max_iovs st")
    case True
    define ps' where "ps' = ps\<lparr>ps_bufs := ps_bufs ps\<rparr>"
    have "batch_put_key E oth p kv ps = Some (Inl NVM_ERR_INVALID_INPUT, ps')"
      using unf alloc mws True by (simp add: ps'_def)
    moreover have "ps' = ps" by (simp add: ps'_def)
    moreover have "\<not> sum_list (map (pair_iovs k st) (kvs @ [kv])) \<le> max_iovs st" using True by simp
    ultimately show thesis using fail held by (simp add: pair_safe_def)
  next
    case False
    have ready: "bufs_ready (ps_bufs ps)" using wf bl len n by (auto simp: bufs_ready_def)
    have pos: "0 < (2::nat) ^ k" by simp
    show thesis
    proof (rule get_buf_ready [OF e(4) ready pos, where w = w and k = k])
      fix bufs'
      assume g: "get_buf (env_memalign E w) (2 ^ k) (ps_bufs ps) = Some (None, 0, bufs')" "bufs' = ps_bufs ps"
        "\<not> bufs_aligned E k (ps_bufs ps)"
      define ps' where "ps' = ps\<lparr>ps_bufs := ps_bufs ps\<rparr>"
      have "batch_put_key E oth p kv ps = Some (Inl NVM_ERR_OUT_OF_MEMORY, ps')"
        using unf alloc mws False g by (simp add: ps'_def)
      moreover have "ps' = ps" by (simp add: ps'_def)
      ultimately show thesis using fail held g(3) by (simp add: pair_safe_def batch_aligned_def)
    next
      fix mb r bufs'
      assume g: "get_buf (env_memalign E w) (2 ^ k) (ps_bufs ps) = Some (Some mb, r, bufs')" "2 ^ k \<le> r"
        "length (mb_mem mb) = r" "bp_wf bufs'"
        "bufs_aligned E k (ps_bufs ps) \<Longrightarrow> aligned k (mb_addr mb) \<and> bufs_aligned E k bufs'"
      have bl': "Suc (length (m_buffers bufs') + length (ps_arr ps)) = n"
        using get_buf_wf [OF _ wf g(1)] e(4) bl unfolding alloc_law_def by simp
      have al: "kv_alloc_for_write E ?dev (kp_key_len kv) (uv_addr (the (kp_value kv))) (kp_value_len kv) (ps_bufs ps) w =
          Some (Inr (), Some mb, r, pair_iovs k st kv, pair_plan k kv, bufs')"
        using alloc mws False g(1,2) by simp
      define ps1 where "ps1 = ps\<lparr>ps_bufs := bufs', ps_final_iov_count := ps_final_iov_count ps + pair_iovs k st kv\<rparr>"
      have p1: "ps_bufs ps1 = bufs'" "ps_arr ps1 = ps_arr ps" "ps_final_iov_count ps1 = ps_idx_wrt ps + pair_iovs k st kv"
        "ps_store ps1 = ps_store ps" "ps_world ps1 = w" "ps_lbas ps1 = ps_lbas ps" "ps_insert_lba ps1 = ps_insert_lba ps"
        "ps_idx_trm ps1 = ps_idx_trm ps" "ps_wrt ps1 = ps_wrt ps" "ps_idx_wrt ps1 = ps_idx_wrt ps"
        using w cnt by (simp_all add: ps1_def)
      note unf1 = unf [unfolded al option.case prod.case sum.case, folded ps1_def, unfolded Let_def p1(3,4) dev,
          folded max_iovs_def]
      show thesis
      proof (cases "ps_idx_wrt ps + pair_iovs k st kv > max_iovs st")
        case True
        have "batch_held st w (n - 1) ps1" using held bl' g(4) by (auto simp: batch_held_def p1)
        moreover have "batch_put_key E oth p kv ps = Some (Inl NVM_ERR_IO, ps1)" using unf1 True by simp
        ultimately show thesis using fail [of NVM_ERR_IO ps1 "n - 1"] True sum by (simp add: pair_safe_def)
      next
        case room: False
        define ps2 where "ps2 = ps1\<lparr>ps_arr := ps_arr ps1 @ [(the (Some mb), r)]\<rparr>"
        have p2: "ps_bufs ps2 = bufs'" "ps_arr ps2 = ps_arr ps @ [(mb, r)]"
          "ps_final_iov_count ps2 = ps_idx_wrt ps + pair_iovs k st kv"
          "ps_store ps2 = ps_store ps" "ps_world ps2 = w" "ps_lbas ps2 = ps_lbas ps" "ps_insert_lba ps2 = ps_insert_lba ps"
          "ps_idx_trm ps2 = ps_idx_trm ps" "ps_wrt ps2 = ps_wrt ps" "ps_idx_wrt ps2 = ps_idx_wrt ps"
          by (simp_all add: ps2_def p1)
        define gs where "gs = \<lparr>gs_buf = mb, gs_trim_len = 0, gs_insert_lba = ps_insert_lba ps, gs_store = ps_store ps, gs_world = w\<rparr>"
        have gs: "gs_store gs = st\<lparr>st_safe := S\<rparr>" "2 ^ k \<le> length (mb_mem (gs_buf gs))" "gs_world gs = w"
          "gs_buf gs = mb" "gs_insert_lba gs = ps_insert_lba ps"
          using g(2,3) S(1) by (simp_all add: gs_def)
        have unf2: "batch_put_key E oth p kv ps =
          (case kv_gen_lba E oth (fst ?x) (snd ?x) (length (snd ?x)) (kp_value_len kv) (kp_replace kv) (Some (map_of (ps_lbas ps))) gs of
             (Inl e, lba, gs) \<Rightarrow> Some (Inl e, take_gs gs ps2)
           | (Inr _, lba, gs) \<Rightarrow> batch_vectors E p kv empty_context lba (gs_trim_len gs) (gs_buf gs) (pair_plan k kv)
               (pair_iovs k st kv) (note_lba lba kv (take_gs gs ps2)))"
          using unf1 room unfolding ps2_def [symmetric] by (simp add: batch_address_def x x(4) [unfolded x(3)] p2 gs_def)
        have rep': "kv_rep k st K (view (gs_world gs)) m" using rep gs(3) by simp
        have al2: "batch_aligned E k ps2" if "batch_aligned E k ps"
          using that g(5) by (simp add: batch_aligned_def p2)
        show thesis
        proof (rule gen_lba_any [OF env spread x(1) rep' gs(1) notin(2) gs(2), where oth = oth
              and lbas = "Some (map_of (ps_lbas ps))" and value_len = "kp_value_len kv" and replace = "kp_replace kv"])
          show "case Some (map_of (ps_lbas ps)) of None \<Rightarrow> True | Some l \<Rightarrow> l (key_lba st ?x) = None" using notin(1) by simp
        next
          fix err lba gs'
          assume h: "kv_gen_lba E oth (fst ?x) (snd ?x) (length (snd ?x)) (kp_value_len kv) (kp_replace kv) (Some (map_of (ps_lbas ps))) gs = (Inl err, lba, gs')"
            "gs_store gs' = gs_store gs" "gs_world gs' = gs_world gs" "gs_insert_lba gs' = gs_insert_lba gs"
            "same_buffer (gs_buf gs) (gs_buf gs')"
            "read_safe E k st 0 (gs_buf gs) \<Longrightarrow> err = NVM_ERR_OBJECT_EXISTS \<and> m ?x \<noteq> None \<and> \<not> kp_replace kv"
          let ?ps = "take_gs gs' ps2"
          have f: "ps_bufs ?ps = bufs'" "ps_arr ?ps = ps_arr ps @ [(gs_buf gs', r)]" "ps_world ?ps = w"
            "ps_store ?ps = ps_store ps" "ps_insert_lba ?ps = ps_insert_lba ps" "ps_lbas ?ps = ps_lbas ps"
            using h gs S(1) by (simp_all add: take_gs_def keep_buf_def p2)
          have hl: "batch_held st w n ?ps"
            using held bl' g(3,4) h(5) gs(4) by (auto simp: batch_held_def f same_buffer_def)
          moreover have "pair_safe E k st (kvs @ [kv]) ps \<Longrightarrow> batch_aligned E k ?ps \<and> read_safe E k st 0 (gs_buf gs)"
            using al2 g(5) h(5) gs(4) by (auto simp: batch_aligned_def f pair_safe_def read_safe_def same_buffer_def)
          ultimately show thesis using fail [of err ?ps n] unf2 h(1,6) by simp
        next
          fix lba gs'
          assume h: "kv_gen_lba E oth (fst ?x) (snd ?x) (length (snd ?x)) (kp_value_len kv) (kp_replace kv) (Some (map_of (ps_lbas ps))) gs = (Inr (), lba, gs')"
            "same_buffer (gs_buf gs) (gs_buf gs')" "address_taken st ?x (m ?x) (kp_value_len kv) (kp_replace kv) S gs lba gs'"
          let ?ps = "note_lba lba kv (take_gs gs' ps2)"
          obtain S' where a: "lba = key_lba st ?x" "m ?x = None \<or> kp_replace kv" "gs_world gs' = w" "gs_insert_lba gs'"
            "gs_store gs' = st\<lparr>st_safe := S'\<rparr>" "S' \<subseteq> insert (key_lba st ?x) S"
            "gs_trim_len gs' = (case m ?x of None \<Rightarrow> 0
               | Some c \<Rightarrow> if length (kc_value c) > kp_value_len kv then length (kc_value c) else 0)"
            using h(3) gs(3) unfolding address_taken_def by (auto split: if_splits)
          have f: "ps_bufs ?ps = bufs'" "ps_arr ?ps = ps_arr ps @ [(gs_buf gs', r)]" "ps_world ?ps = w"
            "ps_store ?ps = st\<lparr>st_safe := S'\<rparr>" "ps_insert_lba ?ps"
            "ps_lbas ?ps = (key_lba st ?x, kp_key_of kv, kp_key_len kv) # ps_lbas ps"
            "ps_final_iov_count ?ps = ps_idx_wrt ps + pair_iovs k st kv"
            "ps_idx_trm ?ps = ps_idx_trm ps" "ps_wrt ?ps = ps_wrt ps" "ps_idx_wrt ?ps = ps_idx_wrt ps"
            using a notin(1) by (simp_all add: note_lba_def take_gs_def keep_buf_def p2)
          have hl: "batch_held st w n ?ps"
          proof -
            have "S' \<subseteq> fst ` set (ps_lbas ?ps)" using a(6) S(2) by (auto simp: f)
            then show ?thesis
              using arr bl' g(3,4) h(2) gs(4) unfolding batch_held_def f(3,4)
              by (intro conjI exI [of _ S']) (auto simp: f same_buffer_def)
          qed
          have al3: "batch_aligned E k ?ps" if "batch_aligned E k ps"
            using al2 [OF that] h(2) gs(4) by (auto simp: batch_aligned_def f p2 same_buffer_def)
          have lm: "2 ^ k \<le> length (mb_mem (gs_buf gs'))" using gs(2) h(2) by (simp add: same_buffer_def)
          have rm: "ps_idx_wrt ps + pair_iovs k st kv \<le> max_iovs st" using room by simp
          have z: "ps_idx_trm ?ps = 0" using inv f(8) by (simp add: batch_inv_def)
          have unf3: "batch_put_key E oth p kv ps = batch_vectors E p kv empty_context (key_lba st ?x) (gs_trim_len gs')
              (gs_buf gs') (pair_plan k kv) (pair_iovs k st kv) ?ps"
            using unf2 h(1) a(1) by simp
          show thesis
          proof (rule batch_vectors_spec [OF env spread rep inv hl f(2) z f(9,10,6,7) kvs fits val rm lm a(7),
                where ctx = empty_context])
            fix err
            assume "batch_vectors E p kv empty_context (key_lba st ?x) (gs_trim_len gs')
              (gs_buf gs') (pair_plan k kv) (pair_iovs k st kv) ?ps = Some (Inl err, ?ps)"
              "max_trim_size ?dev < NVM_KV_MAX_VALUE_SIZE"
            then show thesis using fail [of err ?ps n] unf3 hl by (simp add: pair_safe_def)
          next
            fix ps'
            assume "batch_vectors E p kv empty_context (key_lba st ?x) (gs_trim_len gs')
              (gs_buf gs') (pair_plan k kv) (pair_iovs k st kv) ?ps = Some (Inr (), ps')"
              "batch_inv E k st K w p n (kvs @ [kv]) ps'" "batch_aligned E k ?ps \<Longrightarrow> batch_aligned E k ps'"
            then show thesis using ok [of ps'] unf3 a(2) al3 by simp
          qed
        qed
      qed
    qed
  qed
qed

definition batch_error_ok ::
  "'w nvm_env \<Rightarrow> nat \<Rightarrow> nvm_kv_store \<Rightarrow> kv_map \<Rightarrow> u32 \<Rightarrow> kv_put_iov list \<Rightarrow> nvm_error \<Rightarrow> bool" where
  "batch_error_ok E k st m p kvs err \<longleftrightarrow>
     err = NVM_ERR_OBJECT_EXISTS \<and> (\<exists>kv \<in> set kvs. m (pair_key p kv) \<noteq> None \<and> \<not> kp_replace kv)"

definition lengths_legal :: "kv_put_iov list \<Rightarrow> bool" where
  "lengths_legal kvs \<longleftrightarrow> (\<forall>kv \<in> set kvs. 0 < kp_value_len kv \<and> kp_value_len kv \<le> NVM_KV_MAX_VALUE_SIZE)"

lemma batch_put_keys_spec:
  fixes st :: nvm_kv_store and ps :: "'w batch_state"
  assumes env: "kv_env_ok E k j capacity view st" and spread: "keys_spread st capacity K"
    and rep: "kv_rep k st K (view w) m"
  shows "batch_inv E k st K w p n prev ps \<Longrightarrow> \<forall>kv \<in> set (prev @ kvs). pair_fits k K m p kv \<Longrightarrow>
    distinct (map (pair_key p) (prev @ kvs)) \<Longrightarrow> length (prev @ kvs) \<le> n \<Longrightarrow>
    (\<exists>err ps' n'. batch_put_keys E oth p kvs ps = Some (Inl err, ps') \<and> batch_held st w n' ps' \<and> n' \<le> n \<and> n \<le> Suc n' \<and>
       (sum_list (map (pair_iovs k st) (prev @ kvs)) \<le> max_iovs st \<longrightarrow> n' = n) \<and>
       (pair_safe E k st (prev @ kvs) ps \<and> lengths_legal kvs \<longrightarrow>
          batch_aligned E k ps' \<and> batch_error_ok E k st m p kvs err)) \<or>
    (\<exists>ps'. batch_put_keys E oth p kvs ps = Some (Inr (), ps') \<and> batch_inv E k st K w p n (prev @ kvs) ps' \<and>
       (\<forall>kv \<in> set kvs. m (pair_key p kv) = None \<or> kp_replace kv) \<and>
       (batch_aligned E k ps \<longrightarrow> batch_aligned E k ps'))"
proof (induction kvs arbitrary: "prev" ps)
  case Nil
  then show ?case by simp
next
  case (Cons kv kvs)
  have fits: "pair_fits k K m p kv" using Cons.prems(2) by simp
  have prev_ok: "\<forall>kv \<in> set prev. pair_key p kv \<in> K" "pair_key p kv \<notin> pair_key p ` set prev" "length prev < n"
    using Cons.prems(2-4) by (auto simp: pair_fits_def)
  have sum: "sum_list (map (pair_iovs k st) (prev @ [kv])) \<le> sum_list (map (pair_iovs k st) (prev @ kv # kvs))"
    by simp
  have key: "validate_key (kp_key kv) (kp_key_len kv)"
    using key_valid [OF spread, of "pair_key p kv"] fits by (auto simp: pair_fits_def pair_key_def kp_key_of_def)
  show ?case
  proof (cases "validate_value KVBATCHPUT (kp_value kv = None) (kp_value_len kv) (ps_store ps)")
    case False
    then have "\<not> lengths_legal (kv # kvs)"
      using fits by (auto simp: validate_value_def lengths_legal_def pair_fits_def)
    moreover have "batch_put_keys E oth p (kv # kvs) ps = Some (Inl NVM_ERR_INVALID_INPUT, ps)" using False by simp
    moreover have "batch_held st w n ps" using Cons.prems(1) unfolding batch_inv_def by blast
    ultimately show ?thesis by auto
  next
    case True
    then have val: "value_storable k (kp_key_len kv) (the (kp_value kv)) (kp_value_len kv)"
      using fits by (auto simp: validate_value_def value_storable_def value_placed_def aligned_def pair_fits_def pair_key_def)
    have unf: "batch_put_keys E oth p (kv # kvs) ps =
        (case batch_put_key E oth p kv ps of
           None \<Rightarrow> None
         | Some (Inl e, ps) \<Rightarrow> Some (Inl e, ps)
         | Some (Inr _, ps) \<Rightarrow> batch_put_keys E oth p kvs ps)"
      using True key by simp
    show ?thesis
    proof (rule batch_put_key_spec [OF env spread rep Cons.prems(1) prev_ok(1,2) fits prev_ok(3) val, where oth = oth])
      fix err ps' n'
      assume h: "batch_put_key E oth p kv ps = Some (Inl err, ps')" "batch_held st w n' ps'" "n' \<le> n" "n \<le> Suc n'"
        "sum_list (map (pair_iovs k st) (prev @ [kv])) \<le> max_iovs st \<Longrightarrow> n' = n"
        "pair_safe E k st (prev @ [kv]) ps \<Longrightarrow> batch_aligned E k ps' \<and>
         err = NVM_ERR_OBJECT_EXISTS \<and> m (pair_key p kv) \<noteq> None \<and> \<not> kp_replace kv"
      have "batch_put_keys E oth p (kv # kvs) ps = Some (Inl err, ps')" using unf h(1) by simp
      moreover have "pair_safe E k st (prev @ kv # kvs) ps \<Longrightarrow> pair_safe E k st (prev @ [kv]) ps"
        using sum by (simp add: pair_safe_def)
      moreover have "sum_list (map (pair_iovs k st) (prev @ kv # kvs)) \<le> max_iovs st \<Longrightarrow> n' = n"
        using sum h(5) by (meson le_trans)
      ultimately show ?thesis using h(2-4,6) unfolding batch_error_ok_def by (meson list.set_intros(1))
    next
      fix ps'
      assume h: "batch_put_key E oth p kv ps = Some (Inr (), ps')" "batch_inv E k st K w p n (prev @ [kv]) ps'"
        "m (pair_key p kv) = None \<or> kp_replace kv" "batch_aligned E k ps \<Longrightarrow> batch_aligned E k ps'"
      have call: "batch_put_keys E oth p (kv # kvs) ps = batch_put_keys E oth p kvs ps'" using unf h(1) by simp
      have ap: "(prev @ [kv]) @ kvs = prev @ kv # kvs" by simp
      have safe: "pair_safe E k st (prev @ kv # kvs) ps \<Longrightarrow> pair_safe E k st (prev @ kv # kvs) ps'"
        using h(4) by (simp add: pair_safe_def)
      have legal: "lengths_legal (kv # kvs) \<Longrightarrow> lengths_legal kvs" by (simp add: lengths_legal_def)
      have err: "batch_error_ok E k st m p kvs e \<Longrightarrow> batch_error_ok E k st m p (kv # kvs) e" for e
        by (auto simp: batch_error_ok_def)
      note IH = Cons.IH [of "prev @ [kv]" ps', unfolded ap, OF h(2) Cons.prems(2-4)]
      from IH show ?thesis
      proof (elim disjE exE conjE)
        fix e ps'' n'
        assume "batch_put_keys E oth p kvs ps' = Some (Inl e, ps'')" "batch_held st w n' ps''" "n' \<le> n" "n \<le> Suc n'"
          "sum_list (map (pair_iovs k st) (prev @ kv # kvs)) \<le> max_iovs st \<longrightarrow> n' = n"
          "pair_safe E k st (prev @ kv # kvs) ps' \<and> lengths_legal kvs \<longrightarrow>
            batch_aligned E k ps'' \<and> batch_error_ok E k st m p kvs e"
        then show ?thesis unfolding call using safe legal err by blast
      next
        fix ps''
        assume "batch_put_keys E oth p kvs ps' = Some (Inr (), ps'')" "batch_inv E k st K w p n (prev @ kv # kvs) ps''"
          "\<forall>kv \<in> set kvs. m (pair_key p kv) = None \<or> kp_replace kv" "batch_aligned E k ps' \<longrightarrow> batch_aligned E k ps''"
        then show ?thesis unfolding call using h(3,4) by simp
      qed
    qed
  qed
qed

section \<open>The batch\<close>

definition batch_safe :: "'w nvm_env \<Rightarrow> nat \<Rightarrow> nvm_kv_store \<Rightarrow> kv_put_iov list \<Rightarrow> nvm_kv_buffer_pool \<Rightarrow> bool" where
  "batch_safe E k st kvs bufs \<longleftrightarrow>
     calls_succeed E k st bufs \<and> NVM_KV_MAX_VALUE_SIZE \<le> max_trim_size (get_store_device st) \<and>
     sum_list (map (pair_iovs k st) kvs) \<le> max_iovs st \<and> lengths_legal kvs \<and> length kvs \<le> get_max_batch_size st"

definition batch_done ::
  "'w nvm_env \<Rightarrow> nat \<Rightarrow> nvm_kv_store \<Rightarrow> u32 \<Rightarrow> kv_put_iov list \<Rightarrow> bool \<Rightarrow> 'w \<Rightarrow> kv_map \<Rightarrow> unit res \<Rightarrow> kv_map \<Rightarrow> bool" where
  "batch_done E k st p kvs safe w m r m' \<longleftrightarrow>
     (case r of
        Inr _ \<Rightarrow> (\<forall>kv \<in> set kvs. m (pair_key p kv) = None \<or> kp_replace kv) \<and> m' = batch_effect E w p kvs m
      | Inl e \<Rightarrow> m' = m \<and> (safe \<longrightarrow> batch_error_ok E k st m p kvs e))"

lemma batch_put_store_spec:
  fixes st :: nvm_kv_store
  assumes env: "kv_env_ok E k j capacity view st" and spread: "keys_spread st capacity K"
    and rep: "kv_rep k st K (view w) m" and bufs: "bp_wf bufs" "length kvs \<le> length (m_buffers bufs)"
    and fits: "\<forall>kv \<in> set kvs. pair_fits k K m p kv" "distinct (map (pair_key p) kvs)"
  obtains r bufs' w' m' where "batch_put_store E oth new_ok p kvs bufs st w = Some (r, bufs', st, w')"
    "kv_rep k st K (view w') m'" "bp_wf bufs'" "length (m_buffers bufs) \<le> Suc (length (m_buffers bufs'))"
    "(\<exists>u. r = Inr u) \<or> sum_list (map (pair_iovs k st) kvs) \<le> max_iovs st \<Longrightarrow>
       length (m_buffers bufs') = length (m_buffers bufs)"
    "batch_safe E k st kvs bufs \<Longrightarrow> bufs_aligned E k bufs'"
    "batch_done E k st p kvs (new_ok \<and> batch_safe E k st kvs bufs) w m r m'"
proof -
  let ?dev = "get_store_device st" and ?n = "length (m_buffers bufs)"
  note e = kv_env_dest [OF env]
  obtain iovs where iovs: "env_new_iovs E w (max_iovs st) = Some iovs" "length iovs = max_iovs st"
    using e(4) unfolding alloc_law_def by blast
  note unf = batch_put_store_def [of E oth new_ok p kvs bufs st w, folded max_iovs_def]
  define ps where "ps = batch_start bufs iovs st w"
  have st0: "st = st\<lparr>st_safe := {}\<rparr>" using e(15) by (cases st) simp
  have "batch_held st w ?n ps"
    using bufs(1) st0 by (auto simp: batch_held_def ps_def batch_start_def intro!: exI [of _ "{}"])
  then have inv: "batch_inv E k st K w p ?n [] ps"
    using iovs(2) by (simp add: batch_inv_def batch_written_nil) (simp add: ps_def batch_start_def batch_written_nil)
  have al: "batch_aligned E k ps \<longleftrightarrow> bufs_aligned E k bufs" by (simp add: batch_aligned_def ps_def batch_start_def)
  have safe: "pair_safe E k st kvs ps \<and> lengths_legal kvs" if "batch_safe E k st kvs bufs"
    using that al by (simp add: batch_safe_def pair_safe_def calls_succeed_def)
  show thesis
  proof (cases "length kvs > get_max_batch_size st \<or> \<not> new_ok")
    case True
    then obtain err where "batch_put_store E oth new_ok p kvs bufs st w = Some (Inl err, bufs, st, w)"
      using unf by (cases "length kvs > get_max_batch_size st") auto
    then show thesis using that [of "Inl err" bufs w m] True rep bufs(1)
      by (auto simp: batch_done_def batch_safe_def calls_succeed_def)
  next
    case False
    note loop = batch_put_keys_spec [OF env spread rep inv, of kvs oth, unfolded append_Nil, OF fits bufs(2)]
    from loop show thesis
    proof (elim disjE exE conjE)
      fix err ps' n'
      assume h: "batch_put_keys E oth p kvs ps = Some (Inl err, ps')" "batch_held st w n' ps'" "n' \<le> ?n" "?n \<le> Suc n'"
        "sum_list (map (pair_iovs k st) kvs) \<le> max_iovs st \<longrightarrow> n' = ?n"
        "pair_safe E k st kvs ps \<and> lengths_legal kvs \<longrightarrow> batch_aligned E k ps' \<and> batch_error_ok E k st m p kvs err"
      obtain bufs' where x: "batch_exit (Inl err) ps' = (Inl err, bufs', st, w)" "bp_wf bufs'" "length (m_buffers bufs') = n'"
        "batch_aligned E k ps' \<Longrightarrow> bufs_aligned E k bufs'"
        using batch_exit_spec [OF h(2) e(15), of "Inl err" E k] by metis
      have "batch_put_store E oth new_ok p kvs bufs st w = Some (Inl err, bufs', st, w)"
        using unf False iovs(1) h(1) x(1) by (simp add: ps_def)
      then show thesis using that [of "Inl err" bufs' w m] rep x h(3-6) safe by (auto simp: batch_done_def)
    next
      fix ps'
      assume h: "batch_put_keys E oth p kvs ps = Some (Inr (), ps')" "batch_inv E k st K w p ?n kvs ps'"
        "\<forall>kv \<in> set kvs. m (pair_key p kv) = None \<or> kp_replace kv" "batch_aligned E k ps \<longrightarrow> batch_aligned E k ps'"
      have held: "batch_held st w ?n ps'" and z: "ps_idx_trm ps' = 0"
        and wrt: "batch_written E k st K w p kvs (take (ps_idx_wrt ps') (ps_wrt ps'))"
        using h(2) unfolding batch_inv_def by blast+
      obtain S where S: "ps_store ps' = st\<lparr>st_safe := S\<rparr>" and w: "ps_world ps' = w" using held by (auto simp: batch_held_def)
      have dev: "get_store_device (ps_store ps') = ?dev" "st_cache (ps_store ps') = None" using S e(14) by simp_all
      obtain x w' where nw: "nvm_writev E ?dev (ps_wrt ps') (ps_idx_wrt ps') True w = (x, w')" by force
      have held': "batch_held st w' ?n (ps'\<lparr>ps_world := w'\<rparr>)" using held by (simp add: batch_held_def)
      have al': "batch_aligned E k (ps'\<lparr>ps_world := w'\<rparr>) = batch_aligned E k ps'" by (simp add: batch_aligned_def)
      have fin: "batch_finish E p kvs ps' = batch_exit (case x of Inl e \<Rightarrow> Inl e | Inr _ \<Rightarrow> Inr ()) (ps'\<lparr>ps_world := w'\<rparr>)"
      proof -
        have c: "(ps_store ps')\<lparr>st_cache := None\<rparr> = ps_store ps'" using dev(2) by (cases "ps_store ps'") simp
        have "ps'\<lparr>ps_store := (ps_store ps')\<lparr>st_cache := None\<rparr>, ps_world := w'\<rparr> = ps'\<lparr>ps_world := w'\<rparr>"
          unfolding c by (cases ps') simp
        then have same: "batch_exit r (ps'\<lparr>ps_store := (ps_store ps')\<lparr>st_cache := None\<rparr>, ps_world := w'\<rparr>) =
            batch_exit r (ps'\<lparr>ps_world := w'\<rparr>)" for r
          by (rule arg_cong)
        have "batch_finish E p kvs ps' =
          (case x of Inl e \<Rightarrow> batch_exit (Inl e) (ps'\<lparr>ps_world := w'\<rparr>)
           | Inr _ \<Rightarrow> batch_exit (Inr ()) (ps'\<lparr>ps_store := (ps_store ps')\<lparr>st_cache := None\<rparr>, ps_world := w'\<rparr>))"
          using nw z dev w by (simp add: batch_finish_def batch_issue_def batch_writes_def Let_def split: sum.splits)
        then show ?thesis unfolding same by (simp split: sum.splits)
      qed
      obtain bufs' where ex: "batch_exit (case x of Inl e \<Rightarrow> Inl e | Inr _ \<Rightarrow> Inr ()) (ps'\<lparr>ps_world := w'\<rparr>) =
          (case x of Inl e \<Rightarrow> Inl e | Inr _ \<Rightarrow> Inr (), bufs', st, w')" "bp_wf bufs'" "length (m_buffers bufs') = ?n"
        "batch_aligned E k ps' \<Longrightarrow> bufs_aligned E k bufs'"
        using batch_exit_spec [OF held' e(15), where E = E and k = k] unfolding al' by metis
      have call: "batch_put_store E oth new_ok p kvs bufs st w =
          Some (case x of Inl e \<Rightarrow> Inl e | Inr _ \<Rightarrow> Inr (), bufs', st, w')"
        using unf False iovs(1) h(1) fin ex(1) by (simp add: ps_def)
      have ba: "batch_safe E k st kvs bufs \<Longrightarrow> bufs_aligned E k bufs'"
        using h(4) al ex(4) by (simp add: batch_safe_def calls_succeed_def)
      show thesis
      proof (cases x)
        case (Inl err)
        have "view w' = view w" using nvm_writev_atomic_fail [OF e(3)] nw Inl by simp
        moreover have "\<not> batches_succeed E st"
        proof
          assume b: "batches_succeed E st"
          obtain rc w'' where "env_batch_atomic E (dev_handle ?dev) (take (ps_idx_wrt ps') (ps_wrt ps')) w = (rc, w'')" by force
          moreover from this have "rc = 0" using b unfolding batches_succeed_def by (metis fst_conv)
          ultimately show False using nw Inl by (simp add: nvm_writev_def Let_def)
        qed
        ultimately show thesis using that [of "Inl err" bufs' w' m] call Inl rep ex(2,3) ba
          by (auto simp: batch_done_def batch_safe_def calls_succeed_def)
      next
        case (Inr u)
        have "view w' = foldl (apply_iov (2 ^ k)) (view w) (take (ps_idx_wrt ps') (ps_wrt ps'))"
          using nvm_writev_atomic_ok [OF e(3), of "ps_wrt ps'" "ps_idx_wrt ps'" w u w'] nw Inr wrt e(19)
          by (simp add: batch_written_def)
        then have "kv_rep k st K (view w') (batch_effect E w p kvs m)"
          using wrt rep by (simp add: batch_written_def)
        then show thesis using that [of "Inr ()" bufs' w'] call Inr ex(2,3) ba h(3) by (auto simp: batch_done_def)
      qed
    qed
  qed
qed

section \<open>Properties\<close>

lemma batch_put_step:
  fixes mg :: nvm_kv_store_mgr
  assumes env: "kv_env_ok E k j capacity view st" and spread: "keys_spread st capacity K"
    and mg: "mg_map mg kv_id = Some st" and rep: "kv_rep k st K (view w) m" and wf: "bp_wf (mg_bufs mg)"
    and kvs: "length kvs \<le> length (m_buffers (mg_bufs mg))" "\<forall>kv \<in> set kvs. pair_fits k K m p kv"
      "distinct (map (pair_key p) kvs)"
  obtains r mg' w' m' where
    "kv_batch_put E oth new_ok kv_id (uint p) (Some kvs) mg w = Some (r, mg', w')"
    "mg_map mg' = mg_map mg" "kv_rep k st K (view w') m'" "bp_wf (mg_bufs mg')"
    "length (m_buffers (mg_bufs mg)) \<le> Suc (length (m_buffers (mg_bufs mg')))"
    "(\<exists>u. r = Inr u) \<or> sum_list (map (pair_iovs k st) kvs) \<le> max_iovs st \<Longrightarrow>
       length (m_buffers (mg_bufs mg')) = length (m_buffers (mg_bufs mg))"
    "batch_done E k st p kvs
       (new_ok \<and> kvs \<noteq> [] \<and> pool_ready (p, []) st \<and> batch_safe E k st kvs (mg_bufs mg)) w m r m'"
proof -
  have same: "(mg_map mg)(kv_id \<mapsto> st) = mg_map mg" using mg by auto
  show thesis
  proof (cases "validate_pool KVBATCHPUT (uint p) st \<and> validate_batch False (length kvs)")
    case False
    then have "kv_batch_put E oth new_ok kv_id (uint p) (Some kvs) mg w = Some (Inl NVM_ERR_INVALID_INPUT, mg, w)"
      using mg same by (auto simp: kv_batch_put_def on_store_def)
    moreover have "\<not> (kvs \<noteq> [] \<and> pool_ready (p, []) st)"
      using False by (auto simp: validate_batch_def pool_ready_def validate_pool_def)
    ultimately show thesis using that [of "Inl NVM_ERR_INVALID_INPUT" mg w m] wf rep by (auto simp: batch_done_def)
  next
    case True
    obtain r bufs' w' m' where c: "batch_put_store E oth new_ok p kvs (mg_bufs mg) st w = Some (r, bufs', st, w')"
      "kv_rep k st K (view w') m'" "bp_wf bufs'" "length (m_buffers (mg_bufs mg)) \<le> Suc (length (m_buffers bufs'))"
      "(\<exists>u. r = Inr u) \<or> sum_list (map (pair_iovs k st) kvs) \<le> max_iovs st \<longrightarrow>
         length (m_buffers bufs') = length (m_buffers (mg_bufs mg))"
      "batch_done E k st p kvs (new_ok \<and> batch_safe E k st kvs (mg_bufs mg)) w m r m'"
      using batch_put_store_spec [OF env spread rep wf kvs, where oth = oth and new_ok = new_ok] by metis
    have "kv_batch_put E oth new_ok kv_id (uint p) (Some kvs) mg w = Some (r, mg\<lparr>mg_bufs := bufs'\<rparr>, w')"
      using True mg same c(1) by (simp add: kv_batch_put_def on_store_def)
    moreover have "batch_done E k st p kvs
       (new_ok \<and> kvs \<noteq> [] \<and> pool_ready (p, []) st \<and> batch_safe E k st kvs (mg_bufs mg)) w m r m'"
      using c(6) by (cases r) (simp_all add: batch_done_def)
    ultimately show thesis using that [of r "mg\<lparr>mg_bufs := bufs'\<rparr>" w' m'] c(2-5) by simp
  qed
qed

definition sim_pair :: kv_put_iov where
  "sim_pair =
     \<lparr>kp_key = Some [7], kp_key_len = 1, kp_value = Some sim_value, kp_value_len = 3, kp_expiry = 0,
      kp_gen_count = 9, kp_replace = False\<rparr>"

lemma sim_pair_key: "pair_key 0 sim_pair = sim_key"
  by (simp add: pair_key_def sim_pair_def sim_key_def kp_key_of_def)

lemma sim_pair_fits: "pair_fits 9 {sim_key} (\<lambda>x. None) 0 sim_pair"
  using sim_placed by (simp add: pair_fits_def sim_pair_key keeps_size_def) (simp add: sim_pair_def kp_key_of_def)

lemma sim_batch_safe: "batch_safe sim_env 9 sim_store [sim_pair] sim_bufs"
proof -
  have "pair_iovs 9 sim_store sim_pair \<le> max_iovs sim_store"
    using sim_put_safe by (simp add: put_safe_def pair_iovs_def pair_plan_def max_iovs_def sim_pair_def sim_key_def)
  moreover have "1 \<le> get_max_batch_size sim_store"
    by (simp add: get_max_batch_size_def) (simp add: sim_device_def sim_caps_def)
  ultimately show ?thesis
    using sim_put_safe
    by (simp add: batch_safe_def put_safe_def lengths_legal_def) (simp add: sim_pair_def NVM_KV_MAX_VALUE_SIZE_def)
qed



end
