(* ===== verification/KvApi.thy ===== *)
theory KvApi
  imports KvOpenSpec KvBatchSpec
begin

text \<open>
  The C interface, \<open>src/nvm_kv.cpp\<close>: every call takes the singleton manager, forwards its
  arguments, and turns an exception into \<open>NVM_ERR_INTERNAL_FAILURE\<close>. Only \<open>nvm_kv_open\<close>
  takes the mutex of the singleton. A call on a manager without the iterators is lifted to the one that has them.
\<close>

section \<open>Calls through the singleton\<close>

text \<open>What a call finds in memory when it has to create the manager: whether \<open>new\<close> succeeds, and a raw pool.\<close>

record api_allocs =
  aa_new :: bool
  aa_pool :: nvm_kv_buffer_pool

definition with_instance ::
  "'w nvm_env \<Rightarrow> api_allocs \<Rightarrow> bool \<Rightarrow> (kv_iter_mgr \<Rightarrow> 'w \<Rightarrow> ('a res \<times> kv_iter_mgr \<times> 'w) option) \<Rightarrow>
   kv_runtime \<Rightarrow> 'w \<Rightarrow> ('a res \<times> kv_runtime \<times> 'w) option" where
  "with_instance E aa sync f rt w =
     (case mgr_instance E (aa_new aa) (aa_pool aa) sync rt w of
        None \<Rightarrow> None
      | Some (None, rt) \<Rightarrow> Some (Inl NVM_ERR_INTERNAL_FAILURE, rt, w)
      | Some (Some mg, rt) \<Rightarrow>
          map_option (\<lambda>(r, mg, w). (r, rt\<lparr>rt_instance := Some mg\<rparr>, w)) (f mg w))"

definition to_mgr :: "kv_iter_mgr \<Rightarrow> nvm_kv_store_mgr" where
  "to_mgr mg = \<lparr>mg_bufs = mg_bufs mg, mg_map = mg_map mg\<rparr>"

definition lift_mgr ::
  "(nvm_kv_store_mgr \<Rightarrow> 'w \<Rightarrow> ('a res \<times> nvm_kv_store_mgr \<times> 'w) option) \<Rightarrow>
   kv_iter_mgr \<Rightarrow> 'w \<Rightarrow> ('a res \<times> kv_iter_mgr \<times> 'w) option" where
  "lift_mgr f mg w =
     map_option (\<lambda>(r, m, w). (r, \<lparr>mg_bufs = mg_bufs m, mg_map = mg_map m, mg_iter = mg_iter mg\<rparr>, w))
       (f (to_mgr mg) w)"

section \<open>The calls\<close>

definition nvm_kv_open ::
  "'w nvm_env \<Rightarrow> api_allocs \<Rightarrow> open_env \<Rightarrow> open_allocs \<Rightarrow> int \<Rightarrow> u32 \<Rightarrow> u32 \<Rightarrow> u32 \<Rightarrow> u64 \<Rightarrow> kv_runtime \<Rightarrow> 'w \<Rightarrow>
   (int res \<times> kv_runtime \<times> 'w) option" where
  "nvm_kv_open E aa oe oa kv_id version max_pools expiry cache_size rt w =
     with_instance E aa True (kv_open E oe oa kv_id version max_pools expiry cache_size) rt w"

definition nvm_kv_pool_create ::
  "'w nvm_env \<Rightarrow> api_allocs \<Rightarrow> int \<Rightarrow> bytes option \<Rightarrow> kv_runtime \<Rightarrow> 'w \<Rightarrow>
   (int res \<times> kv_runtime \<times> 'w) option" where
  "nvm_kv_pool_create E aa kv_id pool_tag rt w =
     with_instance E aa False (lift_mgr (kv_pool_create E kv_id pool_tag)) rt w"

definition nvm_kv_get_pool_info ::
  "'w nvm_env \<Rightarrow> api_allocs \<Rightarrow> int \<Rightarrow> int \<Rightarrow> bool \<Rightarrow> kv_runtime \<Rightarrow> 'w \<Rightarrow>
   (nvm_kv_pool_status res \<times> kv_runtime \<times> 'w) option" where
  "nvm_kv_get_pool_info E aa kv_id pool_id info_null rt w =
     with_instance E aa False (\<lambda>mg w. Some (kv_get_pool_info kv_id pool_id info_null (to_mgr mg), mg, w)) rt w"

definition nvm_kv_pool_delete ::
  "'w nvm_env \<Rightarrow> api_allocs \<Rightarrow> int \<Rightarrow> int \<Rightarrow> kv_runtime \<Rightarrow> 'w \<Rightarrow>
   (unit res \<times> kv_runtime \<times> 'w) option" where
  "nvm_kv_pool_delete E aa kv_id pool_id rt w =
     with_instance E aa False (lift_mgr (kv_pool_delete E kv_id pool_id)) rt w"

definition nvm_kv_delete_all ::
  "'w nvm_env \<Rightarrow> api_allocs \<Rightarrow> 'w others \<Rightarrow> int \<Rightarrow> kv_runtime \<Rightarrow> 'w \<Rightarrow>
   (unit res \<times> kv_runtime \<times> 'w) option" where
  "nvm_kv_delete_all E aa oth kv_id rt w =
     with_instance E aa False (lift_mgr (kv_delete_all E oth kv_id)) rt w"

definition nvm_kv_close ::
  "'w nvm_env \<Rightarrow> api_allocs \<Rightarrow> bool \<Rightarrow> int \<Rightarrow> kv_runtime \<Rightarrow> 'w \<Rightarrow>
   (unit res \<times> kv_runtime \<times> 'w) option" where
  "nvm_kv_close E aa release_ok kv_id rt w =
     with_instance E aa False (lift_mgr (\<lambda>mg w. case kv_close release_ok kv_id mg of (r, mg) \<Rightarrow> Some (r, mg, w))) rt w"

definition nvm_kv_put ::
  "'w nvm_env \<Rightarrow> api_allocs \<Rightarrow> 'w others \<Rightarrow> int \<Rightarrow> int \<Rightarrow> bytes option \<Rightarrow> nat \<Rightarrow> user_value option \<Rightarrow> nat \<Rightarrow> u32 \<Rightarrow> bool \<Rightarrow> u32 \<Rightarrow> kv_runtime \<Rightarrow> 'w \<Rightarrow>
   (nat res \<times> kv_runtime \<times> 'w) option" where
  "nvm_kv_put E aa oth kv_id pool_id key key_len val val_len expiry replace gen_count rt w =
     with_instance E aa False (lift_mgr (kv_put E oth kv_id pool_id key key_len val val_len expiry replace gen_count)) rt w"

definition nvm_kv_get ::
  "'w nvm_env \<Rightarrow> api_allocs \<Rightarrow> int \<Rightarrow> int \<Rightarrow> bytes option \<Rightarrow> nat \<Rightarrow> (u64 \<times> bytes) option \<Rightarrow> nat \<Rightarrow> bool \<Rightarrow> nvm_kv_key_info option \<Rightarrow> kv_runtime \<Rightarrow> 'w \<Rightarrow>
   (kv_get_out res \<times> kv_runtime \<times> 'w) option" where
  "nvm_kv_get E aa kv_id pool_id key key_len val val_len read_exact key_info rt w =
     with_instance E aa False (lift_mgr (kv_get E kv_id pool_id key key_len val val_len read_exact key_info)) rt w"

definition nvm_kv_delete ::
  "'w nvm_env \<Rightarrow> api_allocs \<Rightarrow> 'w others \<Rightarrow> int \<Rightarrow> int \<Rightarrow> bytes option \<Rightarrow> nat \<Rightarrow> kv_runtime \<Rightarrow> 'w \<Rightarrow>
   (unit res \<times> kv_runtime \<times> 'w) option" where
  "nvm_kv_delete E aa oth kv_id pool_id key key_len rt w =
     with_instance E aa False (lift_mgr (kv_delete E oth kv_id pool_id key key_len)) rt w"

definition nvm_kv_exists ::
  "'w nvm_env \<Rightarrow> api_allocs \<Rightarrow> int \<Rightarrow> int \<Rightarrow> bytes option \<Rightarrow> nat \<Rightarrow> bool \<Rightarrow> kv_runtime \<Rightarrow> 'w \<Rightarrow>
   ((nvm_kv_key_info option) res \<times> kv_runtime \<times> 'w) option" where
  "nvm_kv_exists E aa kv_id pool_id key key_len info_null rt w =
     with_instance E aa False (lift_mgr (kv_exists E kv_id pool_id key key_len info_null)) rt w"

definition nvm_kv_get_val_len ::
  "'w nvm_env \<Rightarrow> api_allocs \<Rightarrow> int \<Rightarrow> int \<Rightarrow> bytes option \<Rightarrow> nat \<Rightarrow> kv_runtime \<Rightarrow> 'w \<Rightarrow>
   (nat res \<times> kv_runtime \<times> 'w) option" where
  "nvm_kv_get_val_len E aa kv_id pool_id key key_len rt w =
     with_instance E aa False (lift_mgr (kv_get_val_len E kv_id pool_id key key_len)) rt w"

definition nvm_kv_batch_get ::
  "'w nvm_env \<Rightarrow> api_allocs \<Rightarrow> int \<Rightarrow> int \<Rightarrow> kv_get_iov list option \<Rightarrow> nvm_kv_key_info \<Rightarrow> kv_runtime \<Rightarrow> 'w \<Rightarrow>
   ((bytes list) res \<times> kv_runtime \<times> 'w) option" where
  "nvm_kv_batch_get E aa kv_id pool_id kv_iov info rt w =
     with_instance E aa False (lift_mgr (kv_batch_get E kv_id pool_id kv_iov info)) rt w"

definition nvm_kv_batch_put ::
  "'w nvm_env \<Rightarrow> api_allocs \<Rightarrow> 'w others \<Rightarrow> bool \<Rightarrow> int \<Rightarrow> int \<Rightarrow> kv_put_iov list option \<Rightarrow> kv_runtime \<Rightarrow> 'w \<Rightarrow>
   (unit res \<times> kv_runtime \<times> 'w) option" where
  "nvm_kv_batch_put E aa oth new_ok kv_id pool_id kv_iov rt w =
     with_instance E aa False (lift_mgr (kv_batch_put E oth new_ok kv_id pool_id kv_iov)) rt w"

definition nvm_kv_begin ::
  "'w nvm_env \<Rightarrow> api_allocs \<Rightarrow> kv_batch_iterator option \<Rightarrow> int \<Rightarrow> int \<Rightarrow> kv_runtime \<Rightarrow> 'w \<Rightarrow>
   (nat res \<times> kv_runtime \<times> 'w) option" where
  "nvm_kv_begin E aa malloc kv_id pool_id rt w =
     with_instance E aa False (\<lambda>mg w. map_option (\<lambda>(r, mg). (r, mg, w)) (kv_begin E malloc kv_id pool_id mg w)) rt w"

definition nvm_kv_next ::
  "'w nvm_env \<Rightarrow> api_allocs \<Rightarrow> int \<Rightarrow> int \<Rightarrow> kv_runtime \<Rightarrow> 'w \<Rightarrow>
   (unit res \<times> kv_runtime \<times> 'w) option" where
  "nvm_kv_next E aa kv_id it_id rt w =
     with_instance E aa False (\<lambda>mg w. map_option (\<lambda>(r, mg). (r, mg, w)) (kv_next E kv_id it_id mg w)) rt w"

definition nvm_kv_get_current ::
  "'w nvm_env \<Rightarrow> api_allocs \<Rightarrow> int \<Rightarrow> int \<Rightarrow> bool \<Rightarrow> (u64 \<times> bytes) option \<Rightarrow> nat \<Rightarrow> nvm_kv_key_info option \<Rightarrow> kv_runtime \<Rightarrow> 'w \<Rightarrow>
   (kv_current_out res \<times> kv_runtime \<times> 'w) option" where
  "nvm_kv_get_current E aa kv_id it_id key_null val val_len key_info rt w =
     with_instance E aa False (\<lambda>mg w. map_option (\<lambda>(r, mg). (r, mg, w)) (kv_get_current E kv_id it_id key_null val val_len key_info mg w)) rt w"

definition nvm_kv_iteration_end ::
  "'w nvm_env \<Rightarrow> api_allocs \<Rightarrow> int \<Rightarrow> int \<Rightarrow> kv_runtime \<Rightarrow> 'w \<Rightarrow>
   (unit res \<times> kv_runtime \<times> 'w) option" where
  "nvm_kv_iteration_end E aa kv_id it_id rt w =
     with_instance E aa False (\<lambda>mg w. case kv_iteration_end kv_id it_id mg of (r, mg) \<Rightarrow> Some (r, mg, w)) rt w"

definition nvm_kv_get_store_info ::
  "'w nvm_env \<Rightarrow> api_allocs \<Rightarrow> nvm_logical_range_iter option \<Rightarrow> int \<Rightarrow> bool \<Rightarrow> kv_runtime \<Rightarrow> 'w \<Rightarrow>
   (nvm_kv_store_info res \<times> kv_runtime \<times> 'w) option" where
  "nvm_kv_get_store_info E aa malloc kv_id info_null rt w =
     with_instance E aa False (\<lambda>mg w. map_option (\<lambda>r. (r, mg, w)) (kv_get_store_info E malloc kv_id info_null (to_mgr mg) w)) rt w"

definition nvm_kv_get_key_info ::
  "'w nvm_env \<Rightarrow> api_allocs \<Rightarrow> int \<Rightarrow> int \<Rightarrow> bytes option \<Rightarrow> nat \<Rightarrow> bool \<Rightarrow> kv_runtime \<Rightarrow> 'w \<Rightarrow>
   (nvm_kv_key_info res \<times> kv_runtime \<times> 'w) option" where
  "nvm_kv_get_key_info E aa kv_id pool_id key key_len info_null rt w =
     with_instance E aa False (lift_mgr (kv_get_key_info E kv_id pool_id key key_len info_null)) rt w"

definition nvm_kv_set_global_expiry ::
  "'w nvm_env \<Rightarrow> api_allocs \<Rightarrow> int \<Rightarrow> u32 \<Rightarrow> kv_runtime \<Rightarrow> 'w \<Rightarrow>
   (unit res \<times> kv_runtime \<times> 'w) option" where
  "nvm_kv_set_global_expiry E aa kv_id expiry rt w =
     with_instance E aa False (lift_mgr (kv_set_global_expiry E kv_id expiry)) rt w"

definition nvm_kv_get_pool_metadata ::
  "'w nvm_env \<Rightarrow> api_allocs \<Rightarrow> int \<Rightarrow> bool \<Rightarrow> nat \<Rightarrow> nat \<Rightarrow> kv_runtime \<Rightarrow> 'w \<Rightarrow>
   (((nat \<times> bytes) list) res \<times> kv_runtime \<times> 'w) option" where
  "nvm_kv_get_pool_metadata E aa kv_id md_null count start_count rt w =
     with_instance E aa False (\<lambda>mg w. Some (kv_get_pool_metadata kv_id md_null count start_count (to_mgr mg), mg, w)) rt w"

section \<open>Properties\<close>

text \<open>
  C38: a failed start of the library blocks it. When the first open cannot get a buffer for the manager's
  pool, it reports \<open>NVM_ERR_INTERNAL_FAILURE\<close> with the mutex of the singleton still held and the
  half-initialised manager in place: every later open waits for the mutex for ever, whatever memory there
  is by then, while the other calls go on with the manager whose pool has no buffer.
\<close>

theorem failed_start_blocks_open:
  assumes "rt_instance rt = None" and "\<not> rt_locked rt" and "aa_new aa" and "env_memalign E w M_BUFFER_LIMIT = None"
  shows "\<exists>rt' mg. nvm_kv_open E aa oe oa kv_id version max_pools expiry cache_size rt w =
      Some (Inl NVM_ERR_INTERNAL_FAILURE, rt', w) \<and>
    (\<forall>E' aa' oe' oa' kv_id' version' max_pools' expiry' cache_size' w'.
       nvm_kv_open E' aa' oe' oa' kv_id' version' max_pools' expiry' cache_size' rt' w' = None) \<and>
    rt_instance rt' = Some mg \<and> m_buffers (mg_bufs mg) = [] \<and> \<not> m_initialized (mg_bufs mg)"
proof -
  have "bp_alloc_loop (env_memalign E w) M_BUFFER_LIMIT M_MAX_BUFFERS (bp_fresh (aa_pool aa)) = (False, bp_fresh (aa_pool aa))"
    using assms(4) by (simp add: M_MAX_BUFFERS_def numeral_eq_Suc)
  then have "mgr_initialize E w (aa_pool aa) =
      (Inl NVM_ERR_OUT_OF_MEMORY, \<lparr>mg_bufs = bp_fresh (aa_pool aa), mg_map = (\<lambda>i. None), mg_iter = (\<lambda>i. None)\<rparr>)"
    by (simp add: mgr_initialize_def bp_initialize_def) (simp add: bp_fresh_def)
  then show ?thesis
    using assms(1-3)
    by (simp add: nvm_kv_open_def with_instance_def mgr_instance_def Let_def) (simp add: bp_fresh_def)
qed

theorem failed_start_blocks_open_witness:
  "\<exists>rt'. nvm_kv_open (sim_env\<lparr>env_memalign := (\<lambda>w n. None)\<rparr>) \<lparr>aa_new = True, aa_pool = sim_bufs\<rparr> sim_open_env sim_allocs
       3 1 16 0 0 \<lparr>rt_instance = None, rt_locked = False\<rparr> (\<lambda>n. None) =
      Some (Inl NVM_ERR_INTERNAL_FAILURE, rt', \<lambda>n. None) \<and>
     nvm_kv_open sim_env \<lparr>aa_new = True, aa_pool = sim_bufs\<rparr> sim_open_env sim_allocs 3 1 16 0 0 rt' (\<lambda>n. None) = None"
proof -
  obtain rt' where "nvm_kv_open (sim_env\<lparr>env_memalign := (\<lambda>w n. None)\<rparr>) \<lparr>aa_new = True, aa_pool = sim_bufs\<rparr> sim_open_env sim_allocs
       3 1 16 0 0 \<lparr>rt_instance = None, rt_locked = False\<rparr> (\<lambda>n. None) =
      Some (Inl NVM_ERR_INTERNAL_FAILURE, rt', \<lambda>n. None)"
    "\<forall>E' aa' oe' oa' kv_id' version' max_pools' expiry' cache_size' w'.
       nvm_kv_open E' aa' oe' oa' kv_id' version' max_pools' expiry' cache_size' rt' (w' :: sectors) = None"
    using failed_start_blocks_open [of "\<lparr>rt_instance = None, rt_locked = False\<rparr>" "\<lparr>aa_new = True, aa_pool = sim_bufs\<rparr>"
        "sim_env\<lparr>env_memalign := (\<lambda>w n. None)\<rparr>" "\<lambda>n. None" sim_open_env sim_allocs 3 1 16 0 0]
    by auto
  then show ?thesis by blast
qed

end
