(* ===== verification/DeleteSpec.thy ===== *)
theory DeleteSpec
  imports PoolDel KvIterSpec
begin

text \<open>
  What the deletions over the device's range iterator promise: deleting all keys empties the map,
  deleting a pool trims the ranges of that pool and no other sector, and a case in which the
  deletion of all pools is repeated for ever.
\<close>

section \<open>The simulated device keeps the laws\<close>

lemma range_sectors_unit: "i < 2 ^ 64 \<Longrightarrow> range_sectors (unit_range i) = {i}"
  by (auto simp: range_sectors_def unit_range_def unat_of_nat)

lemma sim_sectors_small: "i \<in> set (sim_sectors w it) \<Longrightarrow> i < 2 ^ 64"
  by (simp add: sim_sectors_def sim_range_end_def)

lemma sim_ahead_sectors: "sectors_of (sim_ahead w it) = set (sim_sectors w it)"
  using sim_sectors_small [of _ w it] by (simp add: sectors_of_def sim_ahead_def range_sectors_unit)

lemma apart_units: "distinct is \<Longrightarrow> \<forall>i \<in> set is. i < 2 ^ 64 \<Longrightarrow> apart (map unit_range is)"
  by (induction "is") (auto simp: sectors_of_def range_sectors_unit)

lemma sim_mapped_law: "mapped_iter_law sim_iter_env dev (\<lambda>w. w) sim_ahead"
  unfolding mapped_iter_law_def
proof (intro conjI allI impI sim_range_iter_law ballI)
  fix w it
  show "apart (sim_ahead w it)"
    unfolding sim_ahead_def using sim_sectors_small [of _ w it]
    by (intro apart_units) (simp_all add: sim_sectors_def)
  show "0 < br_length r" if "r \<in> set (sim_ahead w it)" for r
    using that by (auto simp: sim_ahead_def unit_range_def)
next
  fix w w' it A
  assume w': "w' = trim_set w A" and A: "A \<inter> sectors_of (sim_ahead w it) = {}"
  have "sim_selects w' it i = sim_selects w it i"
    if "i \<in> set [unat (br_start_lba (it_range_to_iterate it))..<sim_range_end it]" for i
  proof (cases "i \<in> A")
    case True
    then have "i \<notin> set (sim_sectors w it)" using A by (auto simp: sim_ahead_sectors)
    then have "\<not> sim_selects w it i" using that by (simp add: sim_sectors_def)
    then show ?thesis using True w' by (simp add: sim_selects_def)
  next
    case False
    then show ?thesis using w' by (simp add: sim_selects_def)
  qed
  then have "sim_sectors w' it = sim_sectors w it" unfolding sim_sectors_def by (intro filter_cong) simp_all
  then show "sim_ahead w' it = sim_ahead w it" by (simp add: sim_ahead_def)
qed

lemma sim_iter_batch: "batch_law sim_iter_env sim_device (\<lambda>w. w)" "status_law sim_iter_env sim_device" "alloc_law sim_iter_env"
  using sim_batch sim_status sim_alloc
  by (simp_all add: batch_law_def status_law_def alloc_law_def sim_iter_env_def)

lemma sim_trim_laws: "trim_laws sim_iter_env (\<lambda>w. w) sim_store"
  using sim_iter_batch by (simp add: trim_laws_def get_sector_size_def) (simp add: sim_device_def sim_caps_def)

section \<open>Deleting all keys\<close>

text \<open>Every mapped sector of the range is in a range that an iterator without a filter hands out.\<close>

definition cover_law :: "('w \<Rightarrow> sectors) \<Rightarrow> ('w \<Rightarrow> nvm_logical_range_iter \<Rightarrow> nvm_block_range list) \<Rightarrow> bool" where
  "cover_law view ahead \<longleftrightarrow>
     (\<forall>w it i. it_filter_mask it = 0 \<longrightarrow> it_filter_expiry it = 0 \<longrightarrow>
        unat (br_start_lba (it_range_to_iterate it)) \<le> i \<longrightarrow>
        i < unat (br_start_lba (it_range_to_iterate it)) + br_length (it_range_to_iterate it) \<longrightarrow> i < 2 ^ 64 \<longrightarrow>
        view w i \<noteq> None \<longrightarrow> i \<in> sectors_of (ahead w it))"

definition user_area :: "nvm_kv_store \<Rightarrow> nat set" where
  "user_area st =
     {unat (get_data_start_lba (get_layout st)) ..<
      unat (get_data_start_lba (get_layout st)) + unat (get_kv_len (get_layout st) - get_data_start_lba (get_layout st))}"

definition keys_inside :: "nvm_kv_store \<Rightarrow> kv_key set \<Rightarrow> bool" where
  "keys_inside st K \<longleftrightarrow>
     (\<forall>x \<in> K. key_slot st x \<subseteq> user_area st \<inter> {..< 2 ^ 64} \<and> (\<forall>i \<in> {1..<8}. unat (probe_lba st x i) \<in> user_area st))"

lemma sim_cover: "cover_law (\<lambda>w. w) sim_ahead"
  unfolding cover_law_def sim_ahead_sectors
  by (auto simp: sim_sectors_def sim_selects_def sim_range_end_def)

lemma after_delete_all_same:
  "get_layout (after_delete_all r st) = get_layout st" "key_lba (after_delete_all r st) x = key_lba st x"
  "probe_lba (after_delete_all r st) x i = probe_lba st x i" "key_slot (after_delete_all r st) x = key_slot st x"
proof -
  show l: "get_layout (after_delete_all r st) = get_layout st"
    by (simp add: after_delete_all_def Let_def set_metadata_def get_layout_def split: sum.split)
  have h: "get_hash_func (after_delete_all r st) = get_hash_func st"
    "get_poolid_hash (st_pm (after_delete_all r st)) p = get_poolid_hash (st_pm st) p" for p
    by (simp_all add: after_delete_all_def Let_def set_metadata_def get_hash_func_def get_poolid_hash_def split: sum.split)
  show k: "key_lba (after_delete_all r st) x = key_lba st x"
    by (simp add: key_lba_def key_base_def pool_hash_of_def l h)
  show "probe_lba (after_delete_all r st) x i = probe_lba st x i"
    by (simp add: probe_lba_def next_key_lba_def key_base_def pool_hash_of_def l h)
  show "key_slot (after_delete_all r st) x = key_slot st x" by (simp add: key_slot_def search_range_def k l)
qed

text \<open>
  C7: deleting all keys refines the empty map. \<open>kv_delete_all\<close> returns on a device whose range
  iterator hands out every mapped sector of the user data; on success the store represents the
  empty map, its key count is zero, its cache is invalidated, and no sector outside the ranges the
  device reported has changed; an I/O error has removed sectors of those ranges only.
\<close>

theorem kv_delete_all_refines:
  fixes mg :: nvm_kv_store_mgr
  assumes law: "mapped_iter_law E (get_store_device st) view ahead" and cover: "cover_law view ahead"
    and laws: "trim_laws E view st" "alloc_law E"
    and caps: "0 < nvm_max_num_logical_iter_ranges (dev_caps (get_store_device st))"
      "0 < nvm_max_num_iovs (dev_caps (get_store_device st))"
    and lens: "\<forall>r \<in> set (ahead w (user_data_iter st)). br_length r * get_sector_size st \<le> max_trim_size (get_store_device st)"
    and rep: "kv_mgr_rep k view st K kv_id mg w m" and inside: "keys_inside st K" and free: "st_safe st = {}"
  shows "\<exists>r mg' w' st'. kv_delete_all E oth kv_id mg w = Some (r, mg', w') \<and> mg_map mg' kv_id = Some st' \<and>
     mg_bufs mg' = mg_bufs mg \<and> st_cache st' = map_option kv_cache_delete_all (st_cache st) \<and>
     (case r of
        Inr _ \<Rightarrow> kv_rep k st' K (view w') Map.empty \<and> sm_num_keys (get_store_metadata st') = 0 \<and>
          (\<forall>i. i \<notin> sectors_of (ahead w (user_data_iter st)) \<longrightarrow> view w' i = view w i)
      | Inl e \<Rightarrow> e = NVM_ERR_IO \<and>
          (\<exists>A \<subseteq> sectors_of (ahead w (user_data_iter st)). view w' = trim_set (view w) A))"
proof -
  let ?rs = "ahead w (user_data_iter st)"
  have fr: "\<forall>r \<in> set ?rs. br_start_lba r \<notin> st_safe st" using free by simp
  obtain r w' where d: "store_delete_all E oth st w = Some (r, after_delete_all r st, w')" "loop_trimmed view w ?rs r w'"
    using store_delete_all_spec [OF law laws caps refl lens fr] by blast
  have mg: "mg_map mg kv_id = Some st" "kv_rep k st K (view w) m" using rep by (simp_all add: kv_mgr_rep_def)
  obtain A where A: "view w' = trim_set (view w) A" "A \<subseteq> sectors_of ?rs"
    "case r of Inl e \<Rightarrow> e = NVM_ERR_IO | Inr _ \<Rightarrow> A = sectors_of ?rs" using d(2) by (auto simp: loop_trimmed_def)
  have call: "kv_delete_all E oth kv_id mg w = Some (r, \<lparr>mg_bufs = mg_bufs mg,
      mg_map = (mg_map mg)(kv_id \<mapsto> after_delete_all r st)\<rparr>, w')"
    using d(1) mg(1) by (simp add: kv_delete_all_def on_store_def)
  have cache: "st_cache (after_delete_all r st) = map_option kv_cache_delete_all (st_cache st)"
    by (simp add: after_delete_all_def Let_def set_metadata_def split: sum.split)
  have "kv_rep k (after_delete_all r st) K (view w') Map.empty" if "A = sectors_of ?rs"
  proof -
    have gone: "view w' i = None" if "i \<in> user_area st" "i < 2 ^ 64" for i
    proof (cases "view w i = None")
      case True
      then show ?thesis using A(1) by (simp add: trim_set_def)
    next
      case False
      have "i \<in> sectors_of ?rs"
        by (rule cover [unfolded cover_law_def, rule_format])
          (use that False in \<open>simp_all add: user_data_iter_def user_area_def\<close>)
      then show ?thesis using A(1) \<open>A = sectors_of ?rs\<close> by simp
    qed
    have size: "sectors_sized k (view w')"
      using mg(2) A(1) by (auto simp: kv_rep_def sectors_sized_def trim_set_def split: if_splits)
    have small: "unat (p :: u64) < 2 ^ 64" for p using unsigned_less [of p] by simp
    have "view w' n = None" if "x \<in> K" "n \<in> key_slot st x" for x n
      using inside that by (intro gone) (auto simp: keys_inside_def)
    moreover have "view w' (unat (probe_lba st x i)) = None" if "x \<in> K" "i \<in> {1..<8}" for x i
      using inside that small by (intro gone) (auto simp: keys_inside_def)
    ultimately show ?thesis using size by (simp add: kv_rep_def cell_at_def after_delete_all_same)
  qed
  moreover have "sm_num_keys (get_store_metadata (after_delete_all (Inr ()) st)) = 0"
    by (simp add: after_delete_all_def set_metadata_def get_store_metadata_def)
  ultimately show ?thesis
    using call cache A by (cases r) auto
qed

lemma sim_lens:
  "\<forall>r \<in> set (sim_ahead w it). br_length r * get_sector_size sim_store \<le> max_trim_size (get_store_device sim_store)"
  by (simp add: sim_ahead_def unit_range_def get_sector_size_def max_trim_size_def)
    (simp add: sim_device_def sim_caps_def)

theorem kv_delete_all_refines_witness:
  "\<exists>w r mg' w' st'. kv_rep 9 sim_store {sim_key} w [sim_key \<mapsto> sim_cell] \<and>
     kv_delete_all sim_iter_env (\<lambda>l s. s) 1 sim_mgr w = Some (r, mg', w') \<and> mg_map mg' 1 = Some st' \<and>
     (case r of Inr _ \<Rightarrow> kv_rep 9 st' {sim_key} w' Map.empty | Inl e \<Rightarrow> e = NVM_ERR_IO)"
proof -
  obtain mg w where rep: "kv_mgr_rep 9 (\<lambda>w. w) sim_store {sim_key} 1 mg w [sim_key \<mapsto> sim_cell]"
    using sim_put by blast
  then have m: "kv_rep 9 sim_store {sim_key} w [sim_key \<mapsto> sim_cell]"
    "kv_mgr_rep 9 (\<lambda>w. w) sim_store {sim_key} 1 sim_mgr w [sim_key \<mapsto> sim_cell]"
    using sim_mgr_rep by (simp_all add: kv_mgr_rep_def)
  have c: "0 < nvm_max_num_logical_iter_ranges (dev_caps (get_store_device sim_store))"
    "0 < nvm_max_num_iovs (dev_caps (get_store_device sim_store))"
    "st_safe sim_store = {}"
    by simp_all (simp_all add: sim_device_def sim_caps_def sim_store_def)
  have area: "user_area sim_store = {8192 ..< 281474976710656}"
    by (simp add: user_area_def get_layout_def sim_store_def sim_pm_def demo_pm_def sim_data)
  have "\<forall>i \<in> {1, 2, 3, 4, 5, 6, 7}. unat (probe_lba sim_store sim_key i) \<in> user_area sim_store"
    unfolding area by (simp add: sim_addresses del: One_nat_def)
  then have inside: "keys_inside sim_store {sim_key}"
    unfolding keys_inside_def upt_1_8 by (auto simp: area key_slot_def sim_search_range sim_addresses)
  have "\<exists>r mg' w' st'. kv_delete_all sim_iter_env (\<lambda>l s. s) 1 sim_mgr w = Some (r, mg', w') \<and> mg_map mg' 1 = Some st' \<and>
     mg_bufs mg' = mg_bufs sim_mgr \<and> st_cache st' = map_option kv_cache_delete_all (st_cache sim_store) \<and>
     (case r of
        Inr _ \<Rightarrow> kv_rep 9 st' {sim_key} w' Map.empty \<and> sm_num_keys (get_store_metadata st') = 0 \<and>
          (\<forall>i. i \<notin> sectors_of (sim_ahead w (user_data_iter sim_store)) \<longrightarrow> w' i = w i)
      | Inl e \<Rightarrow> e = NVM_ERR_IO \<and> (\<exists>A \<subseteq> sectors_of (sim_ahead w (user_data_iter sim_store)). w' = trim_set w A))"
    using kv_delete_all_refines [OF sim_mapped_law sim_cover sim_trim_laws sim_iter_batch(3) c(1,2) sim_lens m(2) inside c(3)] .
  then obtain r mg' w' st' where "kv_delete_all sim_iter_env (\<lambda>l s. s) 1 sim_mgr w = Some (r, mg', w')"
    "mg_map mg' 1 = Some st'"
    "case r of
        Inr _ \<Rightarrow> kv_rep 9 st' {sim_key} w' Map.empty \<and> sm_num_keys (get_store_metadata st') = 0 \<and>
          (\<forall>i. i \<notin> sectors_of (sim_ahead w (user_data_iter sim_store)) \<longrightarrow> w' i = w i)
      | Inl e \<Rightarrow> e = NVM_ERR_IO \<and> (\<exists>A \<subseteq> sectors_of (sim_ahead w (user_data_iter sim_store)). w' = trim_set w A)"
    by blast
  then show ?thesis using m(1)
    by (intro exI [of _ w] exI [of _ r] exI [of _ mg'] exI [of _ w'] exI [of _ st']) (cases r; simp)
qed

section \<open>Deleting pools\<close>

text \<open>
  C14: deleting a pool is exact. On a store whose pool ids are their own hash the deletion of a
  pool's keys returns; on success the sectors of the ranges the device reports for the pool (of
  all ranges but those of the default pool, for \<open>-1\<close>) are trimmed and no other sector has
  changed, and for a single pool the return code is zero; an error is an I/O error and has trimmed
  such ranges only. The number of vectors per batch and of ranges per call does not matter.
\<close>

theorem delete_pool_keys_exact:
  assumes law: "mapped_iter_law E (get_store_device st) view ahead" and laws: "trim_laws E view st"
    and own: "\<not> pd_validate pd" and max: "0 < it_max_ranges (pd_iter pd)" "it_max_ranges (pd_iter pd) < 2 ^ 32"
    and iovs: "0 < nvm_max_num_iovs (dev_caps (get_store_device st))"
    and lens: "\<forall>r \<in> set (ahead w (del_iter st pool_id pd)).
       br_length r * get_sector_size st \<le> max_trim_size (get_store_device st)"
  shows "\<exists>r pd' w' A. del_pool_keys E st pool_id garbage pd w = Some (r, pd', w') \<and> view w' = trim_set (view w) A \<and>
     A \<subseteq> sectors_of (filter (\<lambda>r. \<not> pool_skip st pool_id r) (ahead w (del_iter st pool_id pd))) \<and>
     (case r of
        Inl e \<Rightarrow> e = NVM_ERR_IO
      | Inr n \<Rightarrow> A = sectors_of (filter (\<lambda>r. \<not> pool_skip st pool_id r) (ahead w (del_iter st pool_id pd))) \<and>
          (pool_id \<noteq> -1 \<longrightarrow> n = 0))"
proof -
  let ?it = "del_iter st pool_id pd"
  let ?d = "\<lparr>dr_iovec = [], dr_ret = 0, dr_found = garbage, dr_pd = pd\<lparr>pd_iter := ?it\<rparr>\<rparr>"
  have ap: "apart (ahead w ?it)" using law by (simp add: mapped_iter_law_def)
  have it: "it_max_ranges ?it = it_max_ranges (pd_iter pd)" by (simp add: del_iter_def Let_def)
  obtain r d' w' where d: "del_loop E st pool_id ?d w = Some (r, d', w')"
    "loop_trimmed view w (filter (\<lambda>r. \<not> pool_skip st pool_id r) (ahead w ?it)) r w'"
    "r = Inr () \<longrightarrow> (\<forall>x \<in> set (ahead w ?it). \<not> pool_skip st pool_id x) \<longrightarrow> dr_ret d' = 0"
    using del_loop_spec [OF law laws ap lens, where pool_id = pool_id and d = ?d and pend = "[]" and w = w and it = ?it] own max iovs ap by (auto simp: it)
  have "pool_id \<noteq> -1 \<longrightarrow> (\<forall>x \<in> set (ahead w ?it). \<not> pool_skip st pool_id x)" by (simp add: pool_skip_def)
  then show ?thesis
    using d by (cases r) (auto simp: del_pool_keys_def loop_trimmed_def)
qed

definition sim_pool_del :: nvm_kv_pool_del_mgr where
  "sim_pool_del = \<lparr>sn_iter_id = 128, sn_iter_type = KV_POOL_DEL_ITER, sn_bufs = sim_bufs,
     pd_iter = (bi_it raw_iter)\<lparr>it_max_ranges := 8, it_filter_mask := 2047\<rparr>, pd_pools_to_delete = [2],
     pd_validate = False, pd_usr_data_start_lba = 8192, pd_usr_data_max_lba = 281474976702464\<rparr>"

lemma sim_del_sectors:
  assumes "\<And>i. sim_selects w (del_iter sim_store p sim_pool_del) i \<longleftrightarrow> i = x" and "8192 \<le> x" "x < 281474976710656"
  shows "sim_ahead w (del_iter sim_store p sim_pool_del) = [unit_range x]"
proof -
  have "sim_range_end (del_iter sim_store p sim_pool_del) = 281474976710656"
    "unat (br_start_lba (it_range_to_iterate (del_iter sim_store p sim_pool_del))) = 8192"
    by (simp_all add: sim_range_end_def del_iter_def sim_pool_del_def Let_def)
  then have "sim_sectors w (del_iter sim_store p sim_pool_del) = [x]"
    unfolding sim_sectors_def using assms(2,3) by (intro filter_upt_single assms(1)) simp_all
  then show ?thesis by (simp add: sim_ahead_def)
qed

theorem delete_pool_keys_exact_witness:
  "\<exists>r pd' w'. del_pool_keys sim_iter_env sim_store 1 0 sim_pool_del [20480 \<mapsto> zeros 512, 20481 \<mapsto> zeros 512] =
       Some (r, pd', w') \<and>
     (case r of Inl e \<Rightarrow> e = NVM_ERR_IO | Inr n \<Rightarrow> n = 0 \<and> w' = [20480 \<mapsto> zeros 512])"
proof -
  let ?w = "[20480 \<mapsto> zeros 512, 20481 \<mapsto> zeros 512] :: sectors" and ?it = "del_iter sim_store 1 sim_pool_del"
  have h: "get_poolid_hash (st_pm sim_store) 1 = 1" by (simp add: get_poolid_hash_def sim_store_defs sim_layout Let_def)
  have "sim_selects ?w ?it i \<longleftrightarrow> i = 20481" for i
    by (simp add: sim_selects_def del_iter_def sim_pool_del_def Let_def h raw_iter_def)
  then have a: "sim_ahead ?w ?it = [unit_range 20481]" by (rule sim_del_sectors) simp_all
  have f: "filter (\<lambda>r. \<not> pool_skip sim_store 1 r) (sim_ahead ?w ?it) = [unit_range 20481]"
    by (simp add: a pool_skip_def)
  have c: "\<not> pd_validate sim_pool_del" "0 < it_max_ranges (pd_iter sim_pool_del)"
    "it_max_ranges (pd_iter sim_pool_del) < 2 ^ 32" "0 < nvm_max_num_iovs (dev_caps (get_store_device sim_store))"
    by (simp_all add: sim_pool_del_def) (simp add: sim_device_def sim_caps_def)
  obtain r pd' w' A where d: "del_pool_keys sim_iter_env sim_store 1 0 sim_pool_del ?w = Some (r, pd', w')"
    "w' = trim_set ?w A" "case r of Inl e \<Rightarrow> e = NVM_ERR_IO
      | Inr n \<Rightarrow> A = sectors_of [unit_range 20481] \<and> (1 \<noteq> (-1::int) \<longrightarrow> n = 0)"
    using delete_pool_keys_exact [OF sim_mapped_law sim_trim_laws c sim_lens, where pool_id = 1 and garbage = 0 and w = ?w] unfolding f by blast
  have "trim_set ?w {20481} = [20480 \<mapsto> zeros 512]" by (auto simp: trim_set_def fun_eq_iff)
  then show ?thesis using d by (cases r) (auto simp: range_sectors_unit)
qed

lemma del_batch_skip_all:
  assumes "\<not> pd_validate (dr_pd d)" and "\<forall>r \<in> set rs. pool_skip st pool_id r"
  shows "del_batch E st pool_id rs d w = Some (Inr (), d, w)"
  using assms(2) by (induction rs) (simp_all add: del_skip_hash [OF assms(1)])

text \<open>What a round of the deletion does not change of its manager.\<close>

definition same_area :: "nvm_kv_pool_del_mgr \<Rightarrow> nvm_kv_pool_del_mgr \<Rightarrow> bool" where
  "same_area pd pd' \<longleftrightarrow>
     pd_validate pd' = pd_validate pd \<and> it_max_ranges (pd_iter pd') = it_max_ranges (pd_iter pd) \<and>
     pd_usr_data_start_lba pd' = pd_usr_data_start_lba pd \<and> pd_usr_data_max_lba pd' = pd_usr_data_max_lba pd"

lemma empty_round:
  assumes law: "mapped_iter_law E (get_store_device st) view ahead" and own: "\<not> pd_validate pd"
    and some: "ahead w (del_iter st (-1) pd) \<noteq> []"
    and few: "length (ahead w (del_iter st (-1) pd)) < it_max_ranges (pd_iter pd)" "it_max_ranges (pd_iter pd) < 2 ^ 32"
    and default: "\<forall>r \<in> set (ahead w (del_iter st (-1) pd)). pool_skip st (-1) r"
    and todo: "has_pools_to_delete (st_pm st)" and idle: "\<not> pm_del_status (st_pm st)"
    and all: "get_pool_deletion_bitmap E (st_pm st) w = Inr (bitmap, True)"
  shows "\<exists>pd'. pool_del_round E garbage flag st pd w =
      Some (Inr (int (length (ahead w (del_iter st (-1) pd)))), True, st, pd', w) \<and> same_area pd pd'"
proof -
  define st1 where "st1 = set_pm (set_pool_del_status True (st_pm st)) st"
  define pd1 where "pd1 = pd\<lparr>pd_pools_to_delete := bitmap @ drop (length bitmap) (pd_pools_to_delete pd)\<rparr>"
  let ?it = "del_iter st (-1) pd" and ?rs = "ahead w (del_iter st (-1) pd)"
  have same: "get_store_device st1 = get_store_device st" "pool_skip st1 (-1) = pool_skip st (-1)"
    "del_iter st1 (-1) pd1 = ?it"
    by (simp_all add: st1_def set_pm_def set_pool_del_status_def get_store_device_def pool_skip_def get_layout_def
        fun_eq_iff del_iter_def pd1_def)
  let ?d = "\<lparr>dr_iovec = [], dr_ret = 0, dr_found = garbage, dr_pd = pd1\<lparr>pd_iter := ?it\<rparr>\<rparr>"
  have m: "it_max_ranges ?it = it_max_ranges (pd_iter pd)" by (simp add: del_iter_def)
  then have m0: "0 < it_max_ranges ?it" using few(1) by linarith
  have loop: "\<exists>it'. it_max_ranges it' = it_max_ranges ?it \<and> del_loop E st1 (-1) ?d w =
      Some (Inr (), \<lparr>dr_iovec = [], dr_ret = int (length ?rs), dr_found = garbage, dr_pd = pd1\<lparr>pd_iter := it'\<rparr>\<rparr>, w)"
  proof (rule mapped_iter_step [OF law m0, where w = w])
    fix it' batch rest
    assume q: "env_range_iter E (dev_handle (get_store_device st)) ?it w = (int (length batch), it')"
      "take (length batch) (it_ranges it') = batch" "?rs = batch @ rest" "ahead w it' = rest"
      "it_max_ranges it' = it_max_ranges ?it" "length batch \<le> it_max_ranges ?it"
      "length batch < it_max_ranges ?it \<Longrightarrow> rest = []"
      "length batch = it_max_ranges ?it \<Longrightarrow> length rest < length ?rs"
      "length batch < 2 ^ 32 \<Longrightarrow> nat (int (length batch) mod 2 ^ 32) = length batch"
    have "length batch < it_max_ranges ?it" using q(3) few(1) m by simp
    then have b: "rest = []" "?rs = batch" "length batch < it_max_ranges it'"
      "nat (int (length batch) mod 2 ^ 32) = length batch"
      using q(3,5,7,9) few(2) m by simp_all
    define d1 where "d1 = ?d\<lparr>dr_ret := int (length batch), dr_pd := pd1\<lparr>pd_iter := it'\<rparr>\<rparr>"
    have "\<not> pd_validate (dr_pd d1)" "\<forall>r \<in> set batch. pool_skip st1 (-1) r"
      using own default b(2) by (simp_all add: d1_def pd1_def same)
    then have "del_batch E st1 (-1) batch d1 w = Some (Inr (), d1, w)" by (rule del_batch_skip_all)
    then have "del_loop E st1 (-1) ?d w = Some (del_last E st1 d1 w)"
      using q(1,2) b(3,4) by (simp add: del_loop.simps [of _ _ _ ?d] Let_def same d1_def)
    then show ?thesis using b(2) q(5) by (intro exI [of _ it']) (simp add: del_last_def d1_def)
  qed
  then obtain it1 where "it_max_ranges it1 = it_max_ranges ?it" "del_loop E st1 (-1) ?d w =
      Some (Inr (), \<lparr>dr_iovec = [], dr_ret = int (length ?rs), dr_found = garbage, dr_pd = pd1\<lparr>pd_iter := it1\<rparr>\<rparr>, w)"
    by blast
  moreover define it' where "it' = it1\<lparr>it_filter_mask := it_filter_mask (pd_iter pd1)\<rparr>"
  ultimately have it': "it_max_ranges it' = it_max_ranges ?it"
    and "del_pool_keys E st1 (-1) garbage pd1 w = Some (Inr (int (length ?rs)), pd1\<lparr>pd_iter := it'\<rparr>, w)"
    by (simp_all add: del_pool_keys_def same(3))
  then have "start_pool_delete E garbage True st1 pd1 w = Some (Inr (int (length ?rs)), st1, pd1\<lparr>pd_iter := it'\<rparr>, w)"
    using some by (auto simp: start_pool_delete_def)
  moreover have "set_pm (set_pool_del_status False (st_pm st1)) st1 = st"
    using idle by (cases st, cases "st_pm st") (simp add: st1_def set_pm_def set_pool_del_status_def)
  ultimately have "pool_del_round E garbage flag st pd w = Some (Inr (int (length ?rs)), True, st, pd1\<lparr>pd_iter := it'\<rparr>, w)"
    using todo all by (simp add: pool_del_round_def st1_def pd1_def)
  then show ?thesis using it' m by (intro exI [of _ "pd1\<lparr>pd_iter := it'\<rparr>"]) (simp add: same_area_def pd1_def)
qed

text \<open>The first \<open>n\<close> rounds of the thread, with their results; \<open>None\<close> when one of them waits or does not end.\<close>

primrec pool_del_rounds ::
  "'w nvm_env \<Rightarrow> u32 \<Rightarrow> nat \<Rightarrow> bool \<Rightarrow> nvm_kv_store \<Rightarrow> nvm_kv_pool_del_mgr \<Rightarrow> 'w \<Rightarrow>
   (int res list \<times> bool \<times> nvm_kv_store \<times> nvm_kv_pool_del_mgr \<times> 'w) option" where
  "pool_del_rounds E garbage 0 flag st pd w = Some ([], flag, st, pd, w)"
| "pool_del_rounds E garbage (Suc n) flag st pd w =
     (case pool_del_round E garbage flag st pd w of
        None \<Rightarrow> None
      | Some (r, flag, st, pd, w) \<Rightarrow>
          map_option (\<lambda>(rs, final). (r # rs, final)) (pool_del_rounds E garbage n flag st pd w))"

text \<open>
  C37: a deletion of all pools that never ends. All pools but the default one are in deletion, the ranges the
  device reports over the user data all belong to the default pool (by the hash in the address, for pool ids
  that are their own hash) and fit one call of its iterator, and what it reports depends on the area and
  the filter only. Then the deletion thread never succeeds and never sleeps: for every \<open>n\<close>, its first
  \<open>n\<close> rounds all end with the number of ranges seen, which \<open>start_pool_delete\<close> takes for
  an error, and after them store, pool table and device are as they were before the first, with the same
  pools still in deletion. The rounds run without other calls in between.
\<close>

theorem delete_all_pools_repeats:
  assumes law: "mapped_iter_law E (get_store_device st) view ahead" and own: "\<not> pd_validate pd"
    and area: "\<And>it it'. it_range_to_iterate it' = it_range_to_iterate it \<Longrightarrow> it_filter_mask it' = it_filter_mask it \<Longrightarrow>
      it_filter_pattern it' = it_filter_pattern it \<Longrightarrow> ahead w it' = ahead w it"
    and some: "ahead w (del_iter st (-1) pd) \<noteq> []"
    and few: "length (ahead w (del_iter st (-1) pd)) < it_max_ranges (pd_iter pd)" "it_max_ranges (pd_iter pd) < 2 ^ 32"
    and default: "\<forall>r \<in> set (ahead w (del_iter st (-1) pd)). pool_skip st (-1) r"
    and todo: "has_pools_to_delete (st_pm st)" and idle: "\<not> pm_del_status (st_pm st)"
    and all: "get_pool_deletion_bitmap E (st_pm st) w = Inr (bitmap, True)"
  shows "\<exists>seen > 0. \<forall>n. \<exists>flag' pd'. pool_del_rounds E garbage n flag st pd w =
      Some (replicate n (Inr seen), flag', st, pd', w)"
proof (rule exI [of _ "int (length (ahead w (del_iter st (-1) pd)))"], intro conjI allI)
  let ?seen = "int (length (ahead w (del_iter st (-1) pd)))"
  show "0 < ?seen" using some by simp
  fix n
  have "\<exists>flag' pd'. pool_del_rounds E garbage n flag st q w = Some (replicate n (Inr ?seen), flag', st, pd', w)"
    if "same_area pd q" for flag q
    using that
  proof (induction n arbitrary: flag q)
    case (Suc n)
    have it: "ahead w (del_iter st (-1) q) = ahead w (del_iter st (-1) pd)"
      using Suc.prems by (intro area) (simp_all add: del_iter_def same_area_def)
    have q: "\<not> pd_validate q" "it_max_ranges (pd_iter q) = it_max_ranges (pd_iter pd)"
      using own Suc.prems by (simp_all add: same_area_def)
    obtain q' where r: "pool_del_round E garbage flag st q w = Some (Inr ?seen, True, st, q', w)" "same_area q q'"
      using empty_round [OF law q(1), where w = w and garbage = garbage and flag = flag]
        some few default todo idle all unfolding it q(2) by blast
    have "same_area pd q'" using Suc.prems r(2) by (simp add: same_area_def)
    then obtain flag' pd' where
      "pool_del_rounds E garbage n True st q' w = Some (replicate n (Inr ?seen), flag', st, pd', w)"
      using Suc.IH by blast
    then show ?case using r(1) by simp
  qed simp
  then show "\<exists>flag' pd'. pool_del_rounds E garbage n flag st pd w = Some (replicate n (Inr ?seen), flag', st, pd', w)"
    by (simp add: same_area_def)
qed

definition deleting_store :: nvm_kv_store where
  "deleting_store = set_pm (sim_pm\<lparr>pm_in_use := [3], pm_deleted := [2]\<rparr>) sim_store"

theorem delete_all_pools_repeats_witness:
  "\<exists>seen > 0. \<forall>n. \<exists>flag' pd'. pool_del_rounds sim_iter_env 0 n False deleting_store sim_pool_del [20480 \<mapsto> zeros 512] =
     Some (replicate n (Inr seen), flag', deleting_store, pd', [20480 \<mapsto> zeros 512])"
proof -
  let ?w = "[20480 \<mapsto> zeros 512] :: sectors" and ?it = "del_iter deleting_store (-1) sim_pool_del"
  have it: "?it = del_iter sim_store (-1) sim_pool_del" by (simp add: del_iter_def)
  have "sim_selects ?w (del_iter sim_store (-1) sim_pool_del) i \<longleftrightarrow> i = 20480" for i
    by (simp add: sim_selects_def del_iter_def)
  then have a: "sim_ahead ?w ?it = [unit_range 20480]" unfolding it by (rule sim_del_sectors) simp_all
  have bits: "get_pool_bits (get_layout deleting_store) = 11"
    by (simp add: get_layout_def deleting_store_def set_pm_def sim_pm_def demo_pm_def) code_simp
  have skip: "\<forall>r \<in> set (sim_ahead ?w ?it). pool_skip deleting_store (-1) r"
    by (simp add: a pool_skip_def unit_range_def bits pool_mask_of_def get_default_poolid_def M_DEFAULT_POOL_ID_def)
  have todo: "has_pools_to_delete (st_pm deleting_store)"
    by (simp add: deleting_store_def set_pm_def has_pools_to_delete_def sim_pm_def demo_pm_def demo_metadata_def) code_simp
  have idle: "\<not> pm_del_status (st_pm deleting_store)"
    by (simp add: deleting_store_def set_pm_def sim_pm_def demo_pm_def)
  have "bitmap_clear [3] 0 = [2]" by code_simp
  then have all: "get_pool_deletion_bitmap sim_iter_env (st_pm deleting_store) ?w = Inr ([2], True)"
    by (simp add: get_pool_deletion_bitmap_def deleting_store_def set_pm_def sim_pm_def demo_pm_def sim_iter_env_def
        sim_env_def)
  have area: "sim_ahead ?w it' = sim_ahead ?w it"
    if "it_range_to_iterate it' = it_range_to_iterate it" "it_filter_mask it' = it_filter_mask it"
      "it_filter_pattern it' = it_filter_pattern it" for it it'
    using that by (simp add: sim_ahead_def sim_sectors_def sim_selects_def [abs_def] sim_range_end_def)
  have c: "sim_ahead ?w ?it \<noteq> []"
    "length (sim_ahead ?w ?it) < it_max_ranges (pd_iter sim_pool_del)" "it_max_ranges (pd_iter sim_pool_del) < 2 ^ 32"
    using a by (simp_all add: sim_pool_del_def)
  have own: "\<not> pd_validate sim_pool_del" by (simp add: sim_pool_del_def)
  show ?thesis by (rule delete_all_pools_repeats [OF sim_mapped_law own area c skip todo idle all])
qed

end
