(* ===== verification/PoolMedia.thy ===== *)
theory PoolMedia
  imports PoolMgr
begin

text \<open>
  The pool table on the device: what \<open>persist_store_info\<close> of
  \<open>src/kv_pool_manager.cpp\<close> has to write so that the metadata block, the two bitmaps and
  the tags of the live pools on the device are those in memory. \<open>areas_ok\<close> says where the
  parts lie, \<open>pools_stored\<close> that the table is there, and \<open>pm_media_step\<close> is one
  successful call with the world it runs in. A pool in deletion keeps no tag: its tag on the device may
  be the old one, as the code clears it in memory only.
\<close>

section \<open>Bytes and sectors\<close>

lemma mem_read_mem_read: "a + n \<le> l \<Longrightarrow> mem_read a n (mem_read b l xs) = mem_read (b + a) n xs"
  by (simp add: mem_read_def drop_take add.commute min_def)

lemma mem_read_concat:
  assumes "\<And>x. x \<in> set xss \<Longrightarrow> length x = ss" and "i < length xss" and "a + n \<le> ss"
  shows "mem_read (i * ss + a) n (concat xss) = mem_read a n (xss ! i)"
  using assms
proof (induction xss arbitrary: i)
  case (Cons x xss)
  show ?case
  proof (cases i)
    case 0
    then show ?thesis using Cons.prems by (simp add: mem_read_append1)
  next
    case (Suc j)
    then have "mem_read (i * ss + a) n (concat (x # xss)) = mem_read (j * ss + a) n (concat xss)"
      using Cons.prems(1) [of x] by (simp add: mem_read_def)
    then show ?thesis using Cons.IH [of j] Cons.prems Suc by simp
  qed
qed simp

lemma concat_mem_reads:
  "length xs = n * ss \<Longrightarrow> concat (map (\<lambda>i. mem_read (i * ss) ss xs) [0..<n]) = xs"
proof (induction n arbitrary: xs)
  case (Suc n)
  have "concat (map (\<lambda>i. mem_read (i * ss) ss xs) [0..<n]) =
      concat (map (\<lambda>i. mem_read (i * ss) ss (take (n * ss) xs)) [0..<n])"
  proof (intro arg_cong [of _ _ concat] map_cong refl)
    fix i assume "i \<in> set [0..<n]"
    then have "Suc i * ss \<le> n * ss" by (intro mult_right_mono) simp_all
    then show "mem_read (i * ss) ss xs = mem_read (i * ss) ss (take (n * ss) xs)"
      by (simp add: mem_read_take add.commute)
  qed
  also have "\<dots> = take (n * ss) xs" using Suc by simp
  finally show ?case using Suc.prems by (simp add: mem_read_def)
qed simp

lemma read_sectors_append:
  "read_sectors ss s first (n + m) = read_sectors ss s first n @ read_sectors ss s (first + n) m"
proof -
  have "[n..<n + m] = map (\<lambda>i. n + i) [0..<m]" by (rule nth_equalityI) simp_all
  then show ?thesis using upt_add_eq_append [of 0 n m] by (simp add: read_sectors_def o_def add.assoc)
qed

section \<open>Bitmaps as bytes\<close>

lemma length_bitmap_bytes [simp]: "length (bitmap_bytes bm) = 4 * length bm"
  by (induction bm) (simp_all add: bitmap_bytes_def)

lemma mem_read_bitmap: "i < length bm \<Longrightarrow> mem_read (4 * i) 4 (bitmap_bytes bm) = le_bytes 4 (bm ! i)"
proof -
  assume i: "i < length bm"
  have "mem_read (i * 4 + 0) 4 (concat (map (le_bytes 4) bm)) = mem_read 0 4 (map (le_bytes 4) bm ! i)"
    using i by (intro mem_read_concat) auto
  then show ?thesis using i by (simp add: bitmap_bytes_def mult.commute) (simp add: mem_read_def)
qed

lemma bytes_bitmap_bytes: "bytes_bitmap (bitmap_bytes bm) = bm"
  by (rule nth_equalityI) (simp_all add: bytes_bitmap_def mem_read_bitmap le_word_le_bytes32)

lemma bitmap_bytes_update:
  assumes "\<And>j. j < length bm \<Longrightarrow> j \<noteq> i \<Longrightarrow> bm' ! j = bm ! j" and "length bm' = length bm"
    and "4 dvd ss" and "q \<noteq> 4 * i div ss"
  shows "mem_read (q * ss) ss (bitmap_bytes bm') = mem_read (q * ss) ss (bitmap_bytes bm)"
proof (rule nth_equalityI)
  fix p
  assume p: "p < length (mem_read (q * ss) ss (bitmap_bytes bm'))"
  define a where "a = q * ss + p"
  have a: "a < 4 * length bm" "p < ss" using p assms(2) by (auto simp: a_def)
  have byte: "bitmap_bytes b ! a = le_bytes 4 (b ! (a div 4)) ! (a mod 4)" if "length b = length bm" for b
  proof -
    have "mem_read (4 * (a div 4)) 4 (bitmap_bytes b) = le_bytes 4 (b ! (a div 4))"
      using a(1) that by (intro mem_read_bitmap) simp
    then have "mem_read (4 * (a div 4)) 4 (bitmap_bytes b) ! (a mod 4) = le_bytes 4 (b ! (a div 4)) ! (a mod 4)" by simp
    then show ?thesis using a(1) that by (simp add: mem_read_def)
  qed
  have "a div 4 \<noteq> i"
  proof
    assume i: "a div 4 = i"
    have "4 * i div ss = a div 4 * 4 div ss" by (simp add: i mult.commute)
    also have "\<dots> = a div ss"
    proof -
      obtain c where c: "ss = 4 * c" using assms(3) by (rule dvdE)
      show ?thesis by (simp add: c div_mult2_eq [of _ 4 c])
    qed
    also have "\<dots> = q" using a(2) by (simp add: a_def)
    finally show False using assms(4) by simp
  qed
  then have "bitmap_bytes bm' ! a = bitmap_bytes bm ! a" using assms(1,2) a(1) by (simp add: byte)
  then show "mem_read (q * ss) ss (bitmap_bytes bm') ! p = mem_read (q * ss) ss (bitmap_bytes bm) ! p"
    using p assms(2) a(1) by (simp add: mem_read_def a_def nth_drop)
qed (use assms(2) in simp)

section \<open>The pool table on the device\<close>

text \<open>
  Where the table lies: the metadata in sector 0, the two bitmaps after it, the tags from the start
  of the second slice of two megabytes. Sectors of 512 bytes to 512 kilobytes; with sectors of one
  megabyte the deleted bitmap would lie in the first sector of the tags.
\<close>

definition tags_start :: "nat \<Rightarrow> nat" where
  "tags_start k = 2 ^ (21 - k)"

definition deleted_start :: "nat \<Rightarrow> nvm_kv_pool_mgr \<Rightarrow> nat" where
  "deleted_start k pm = 1 + pm_bm_len pm div 2 ^ k"

definition areas_ok :: "nat \<Rightarrow> nvm_kv_pool_mgr \<Rightarrow> bool" where
  "areas_ok k pm \<longleftrightarrow>
     9 \<le> k \<and> k \<le> 19 \<and> pm_sector_size pm = 2 ^ k \<and> get_sect_bits (pm_layout pm) = of_nat k \<and>
     unat (get_inuse_bm_lba (pm_layout pm)) = 1 \<and> unat (get_del_bm_lba (pm_layout pm)) = deleted_start k pm \<and>
     unat (get_pool_tags_lba (pm_layout pm)) = tags_start k \<and> pm_bm_len pm = bitmap_media_len pm \<and>
     pm_max_pools pm \<le> NVM_KV_MAX_POOLS"

definition bitmap_on :: "nat \<Rightarrow> sectors \<Rightarrow> nat \<Rightarrow> kv_bitmap \<Rightarrow> bool" where
  "bitmap_on k V base bm \<longleftrightarrow>
     (\<forall>i < 4 * length bm div 2 ^ k. V (base + i) = Some (mem_read (i * 2 ^ k) (2 ^ k) (bitmap_bytes bm)))"

definition live_ids :: "nvm_kv_pool_mgr \<Rightarrow> nat set" where
  "live_ids pm = bm_bits (pm_in_use pm) - bm_bits (pm_deleted pm) - {0}"

definition tag_on :: "nat \<Rightarrow> sectors \<Rightarrow> nat \<Rightarrow> bytes \<Rightarrow> bool" where
  "tag_on k V n tag \<longleftrightarrow>
     (\<exists>s. V (tags_start k + n * POOL_TAG_SIZE div 2 ^ k) = Some s \<and>
          mem_read (n * POOL_TAG_SIZE mod 2 ^ k) POOL_TAG_SIZE s = tag)"

definition pools_stored :: "nat \<Rightarrow> sectors \<Rightarrow> nvm_kv_pool_mgr \<Rightarrow> bool" where
  "pools_stored k V pm \<longleftrightarrow>
     (\<exists>tail. V 0 = Some (metadata_bytes (pm_md pm) @ tail)) \<and>
     bitmap_on k V 1 (pm_in_use pm) \<and> bitmap_on k V (deleted_start k pm) (pm_deleted pm) \<and>
     (\<forall>n \<in> live_ids pm. tag_on k V n (tag_at pm n))"

lemma areas_dest:
  assumes "areas_ok k pm"
  shows "9 \<le> k" "k \<le> 19" "pm_sector_size pm = 2 ^ k" "nvm_sector_size (dev_caps (pm_device pm)) = 2 ^ k"
    "get_sect_bits (pm_layout pm) = of_nat k"
    "unat (get_inuse_bm_lba (pm_layout pm)) = 1" "unat (get_del_bm_lba (pm_layout pm)) = deleted_start k pm"
    "unat (get_pool_tags_lba (pm_layout pm)) = tags_start k" "bitmap_media_len pm = pm_bm_len pm"
    "pm_max_pools pm \<le> NVM_KV_MAX_POOLS"
  using assms by (simp_all add: areas_ok_def pm_sector_size_def)

lemma media_len_bounds:
  assumes "areas_ok k pm"
  shows "2 ^ k dvd pm_bm_len pm" "deleted_start k pm + pm_bm_len pm div 2 ^ k \<le> tags_start k"
    "pm_max_pools pm \<le> 8 * pm_bm_len pm" "tags_start k \<le> 2 ^ 12"
proof -
  note a = areas_dest [OF assms]
  define n where "n = sm_max_pools (pm_md pm)"
  have n: "unat n \<le> 2 ^ 20" using a(10) by (simp add: pm_max_pools_def n_def NVM_KV_MAX_POOLS_def)
  then have n31: "unat n + 31 < 2 ^ 32" by simp
  define x where "x = (unat n + 31) div 32 * 4"
  have "unat (bits_per_uint8 (round32 n)) = x" using round32_eq [OF n31] by (simp add: x_def)
  then have len: "pm_bm_len pm = rnd x (2 ^ k)"
    using a(3,9) by (simp add: bitmap_media_len_def n_def)
  have "(unat n + 31) div 32 \<le> (2 ^ 20 + 31) div 32" using n by (intro div_le_mono) simp
  then have x: "x \<le> 2 ^ 17" by (simp add: x_def)
  have "(2::nat) ^ k \<le> 2 ^ 19" using a(2) by (intro power_increasing) simp_all
  then have fit: "x + 2 ^ k \<le> 2 ^ 64" using x by simp
  have k64: "k < 64" using a(2) by simp
  note b = rnd_bounds [OF k64 fit, folded len]
  then show dvd: "2 ^ k dvd pm_bm_len pm" by simp
  have "unat n \<le> (unat n + 31) div 32 * 32" by simp
  then have "unat n \<le> 8 * x" by (simp add: x_def)
  then show "pm_max_pools pm \<le> 8 * pm_bm_len pm" using b(1) by (simp add: pm_max_pools_def n_def)
  have "pm_bm_len pm \<le> 2 ^ max 17 k"
  proof -
    have "x \<le> 2 ^ max 17 k" using x power_increasing [of 17 "max 17 k" "2::nat"] by simp
    then show ?thesis unfolding len by (intro rnd_least [OF k64 fit] le_imp_power_dvd) simp_all
  qed
  then have "pm_bm_len pm div 2 ^ k \<le> 2 ^ max 17 k div 2 ^ k" by (rule div_le_mono)
  also have "\<dots> = 2 ^ (max 17 k - k)" by (rule power_diff [symmetric]) simp_all
  finally have L: "pm_bm_len pm div 2 ^ k \<le> 2 ^ (max 17 k - k)" .
  have "1 + 2 * 2 ^ (max 17 k - k) \<le> (2::nat) ^ (21 - k)"
  proof (cases "k \<le> 17")
    case True
    then have "(2::nat) ^ (21 - k) = 2 ^ (17 - k) * 2 ^ 4" by (simp only: power_add [symmetric]) simp
    then show ?thesis using True one_le_power [of "2::nat" "17 - k"] by simp
  next
    case False
    then have "k = 18 \<or> k = 19" using a(2) by auto
    then show ?thesis by auto
  qed
  then show "deleted_start k pm + pm_bm_len pm div 2 ^ k \<le> tags_start k"
    using L by (simp add: deleted_start_def tags_start_def)
  show "tags_start k \<le> 2 ^ 12" unfolding tags_start_def using a(1) by (intro power_increasing) simp_all
qed

section \<open>Where the vectors go\<close>

definition bit_sector :: "nat \<Rightarrow> nat \<Rightarrow> nat" where
  "bit_sector k n = n div 2 ^ (k + 3)"

lemma bit_sector_word:
  assumes "2 \<le> k"
  shows "4 * (n div 32) div 2 ^ k = bit_sector k n"
proof -
  have "k = 2 + (k - 2)" using assms by simp
  then have "(2::nat) ^ k = 2 ^ 2 * 2 ^ (k - 2)" by (simp only: power_add [symmetric])
  then have e: "(2::nat) ^ k = 4 * 2 ^ (k - 2)" by simp
  have "4 * (n div 32) div 2 ^ k = n div 32 div 2 ^ (k - 2)" unfolding e by (simp add: div_mult2_eq)
  also have "\<dots> = n div (32 * 2 ^ (k - 2))" by (simp add: div_mult2_eq)
  also have "(32::nat) * 2 ^ (k - 2) = 2 ^ (k + 3)"
  proof -
    have "k + 3 = 5 + (k - 2)" using assms by simp
    then show ?thesis by (simp only: power_add) simp
  qed
  finally show ?thesis by (simp add: bit_sector_def)
qed

lemma bit_sector_bound:
  assumes "areas_ok k pm" and "n < pm_max_pools pm"
  shows "bit_sector k n < pm_bm_len pm div 2 ^ k"
proof -
  note b = media_len_bounds [OF assms(1)]
  have "n div 8 < pm_bm_len pm" using assms(2) b(3) by (simp add: div_less_iff_less_mult mult.commute)
  moreover have "bit_sector k n = n div 8 div 2 ^ k" by (simp add: bit_sector_def power_add div_mult2_eq mult.commute)
  moreover obtain q where "pm_bm_len pm = 2 ^ k * q" using b(1) by (rule dvdE)
  ultimately show ?thesis by (simp add: div_less_iff_less_mult mult.commute)
qed

lemma bit_index_sector_nat:
  assumes "k \<le> 20" and "n < 2 ^ 32"
  shows "unat (bit_index_sector (word_of_int (int n)) (of_nat k)) = bit_sector k n"
proof -
  have "(of_nat k + 3 :: u32) = of_nat (k + 3)" by simp
  then have k3: "unat (of_nat k + 3 :: u32) = k + 3" using assms(1) by (simp only: unat_of_nat) simp
  have w: "word_of_int (int n) = (of_nat n :: u32)" by simp
  have "unat (of_nat n :: u32) = n" using assms(2) by (simp add: unat_of_nat)
  then show ?thesis
    by (simp only: bit_index_sector_def Let_def k3 unat_drop_bit_eq w) (simp only: drop_bit_eq_div bit_sector_def)
qed

lemma areas_sum: "areas_ok k pm \<Longrightarrow> a \<le> tags_start k + 2 ^ 20 \<Longrightarrow> a < 2 ^ 64"
  using media_len_bounds(4) [of k pm] by simp

text \<open>The sectors of a bitmap that a call writes: all, or the one of a pool.\<close>

definition bitmap_span :: "nat \<Rightarrow> nat \<Rightarrow> nvm_kv_pool_mgr \<Rightarrow> int \<Rightarrow> nat set" where
  "bitmap_span k base pm idx =
     (if idx = -1 then {base ..< base + pm_bm_len pm div 2 ^ k} else {base + bit_sector k (nat idx)})"

lemma bitmap_iov_at:
  assumes a: "areas_ok k pm" and idx: "idx = -1 \<or> 0 \<le> idx \<and> nat idx < pm_max_pools pm"
    and lba: "unat lba = base" "base \<le> tags_start k"
  shows "iov_range (2 ^ k) (bitmap_iov idx lba bm pm) = bitmap_span k base pm idx"
    and "x \<in> bitmap_span k base pm idx \<Longrightarrow>
      apply_iov (2 ^ k) V (bitmap_iov idx lba bm pm) x =
        Some (mem_read ((x - base) * 2 ^ k) (2 ^ k) (bitmap_bytes bm))"
proof -
  note d = areas_dest [OF a] and b = media_len_bounds [OF a]
  have all: "iov_range (2 ^ k) (bitmap_iov idx lba bm pm) = bitmap_span k base pm idx \<and>
     (x \<in> bitmap_span k base pm idx \<longrightarrow> apply_iov (2 ^ k) V (bitmap_iov idx lba bm pm) x =
        Some (mem_read ((x - base) * 2 ^ k) (2 ^ k) (bitmap_bytes bm)))"
  proof (cases "idx = -1")
    case True
    have "Suc (x - base) * 2 ^ k \<le> pm_bm_len pm" if "base \<le> x" "x < base + pm_bm_len pm div 2 ^ k" for x
    proof -
      have "Suc (x - base) * 2 ^ k \<le> pm_bm_len pm div 2 ^ k * 2 ^ k" using that by (intro mult_right_mono) simp_all
      also have "\<dots> \<le> pm_bm_len pm" by (rule div_times_less_eq_dividend)
      finally show ?thesis .
    qed
    then show ?thesis using True lba
      by (auto simp: bitmap_iov_def Let_def write_iov_def d(9) iov_range_def iov_first_def iov_sectors_def
          bitmap_span_def apply_iov_def mem_read_mem_read add.commute)
  next
    case False
    then obtain n where n: "idx = int n" "n < pm_max_pools pm" using idx by (metis nonneg_int_cases nat_int)
    have "n < 2 ^ 32" using n(2) d(10) by (simp add: NVM_KV_MAX_POOLS_def)
    then have s: "unat (bit_index_sector (word_of_int idx) (get_sect_bits (pm_layout pm))) = bit_sector k n"
      using bit_index_sector_nat d(2) by (simp add: n(1) d(5))
    have "bit_sector k n < pm_bm_len pm div 2 ^ k" by (rule bit_sector_bound [OF a n(2)])
    then have "bit_sector k n \<le> 2 ^ 12" using b(2,4) by simp
    then have "unat lba + bit_sector k n < 2 ^ 64" using lba b(4) by simp
    then have first: "unat (lba + ucast (bit_index_sector (word_of_int idx) (get_sect_bits (pm_layout pm)))) = base + bit_sector k n"
      using lba(1) s by (simp add: unat_plus_nowrap unat_ucast_u64)
    have "nat idx = n" using n(1) by simp
    then show ?thesis using False
      by (auto simp: bitmap_iov_def Let_def write_iov_def d(3) iov_range_def iov_first_def iov_sectors_def
          bitmap_span_def apply_iov_def mem_read_mem_read s first)
  qed
  then show "iov_range (2 ^ k) (bitmap_iov idx lba bm pm) = bitmap_span k base pm idx" by blast
  show "x \<in> bitmap_span k base pm idx \<Longrightarrow>
      apply_iov (2 ^ k) V (bitmap_iov idx lba bm pm) x =
        Some (mem_read ((x - base) * 2 ^ k) (2 ^ k) (bitmap_bytes bm))"
    using all by blast
qed

lemma tag_iov_at:
  assumes a: "areas_ok k pm" and n: "n < pm_max_pools pm"
  shows "iov_range (2 ^ k) (tag_iov (int n) pm) = {tags_start k + n * POOL_TAG_SIZE div 2 ^ k}"
    and "apply_iov (2 ^ k) V (tag_iov (int n) pm) (tags_start k + n * POOL_TAG_SIZE div 2 ^ k) =
      Some (mem_read (n * POOL_TAG_SIZE div 2 ^ k * 2 ^ k) (2 ^ k) (pm_tags pm))"
proof -
  note d = areas_dest [OF a] and b = media_len_bounds [OF a]
  have k: "unat (of_nat k :: u32) = k" using d(2) by (simp add: unat_of_nat)
  have s: "get_pool_tag_sect pm n = n * POOL_TAG_SIZE div 2 ^ k"
    by (simp add: get_pool_tag_sect_def d(5) k drop_bit_eq_div)
  have "n * POOL_TAG_SIZE \<le> 2 ^ 24" using n d(10) by (simp add: POOL_TAG_SIZE_def NVM_KV_MAX_POOLS_def)
  moreover have "n * POOL_TAG_SIZE div 2 ^ k \<le> n * POOL_TAG_SIZE" by (rule div_le_dividend)
  ultimately have le: "n * POOL_TAG_SIZE div 2 ^ k \<le> 2 ^ 24" by linarith
  have "unat (get_pool_tags_lba (pm_layout pm) + of_nat (n * POOL_TAG_SIZE div 2 ^ k)) =
      tags_start k + n * POOL_TAG_SIZE div 2 ^ k"
    using le b(4) d(8) by (subst unat_plus_of_nat) simp_all
  then show "iov_range (2 ^ k) (tag_iov (int n) pm) = {tags_start k + n * POOL_TAG_SIZE div 2 ^ k}"
    and "apply_iov (2 ^ k) V (tag_iov (int n) pm) (tags_start k + n * POOL_TAG_SIZE div 2 ^ k) =
      Some (mem_read (n * POOL_TAG_SIZE div 2 ^ k * 2 ^ k) (2 ^ k) (pm_tags pm))"
    by (auto simp: tag_iov_def Let_def write_iov_def d(3) iov_range_def iov_first_def iov_sectors_def
        apply_iov_def mem_read_mem_read s)
qed

lemma metadata_iov_at:
  assumes a: "areas_ok k pm"
  shows "iov_range (2 ^ k) (metadata_iov pm) = {0}"
    and "\<exists>tail. apply_iov (2 ^ k) V (metadata_iov pm) 0 = Some (metadata_bytes (pm_md pm) @ tail)"
proof -
  note d = areas_dest [OF a]
  have k: "(2::nat) ^ 9 \<le> 2 ^ k" "(2::nat) ^ k \<le> 2 ^ 19" using d(1,2) by (intro power_increasing; simp)+
  have len: "rnd KV_STORE_METADATA_SIZE (2 ^ k) = 2 ^ k" using d(1,2) by (intro metadata_len) simp_all
  show "iov_range (2 ^ k) (metadata_iov pm) = {0}"
    by (simp add: metadata_iov_def Let_def write_iov_def d(3) len iov_range_def iov_first_def iov_sectors_def
        get_metadata_lba_def M_KV_METADATA_LBA_def)
  have "take (2 ^ k) (metadata_bytes (pm_md pm) @ pm_md_tail pm) =
      metadata_bytes (pm_md pm) @ take (2 ^ k - KV_STORE_METADATA_SIZE) (pm_md_tail pm)"
    using k(1) by (simp add: KV_STORE_METADATA_SIZE_def)
  then show "\<exists>tail. apply_iov (2 ^ k) V (metadata_iov pm) 0 = Some (metadata_bytes (pm_md pm) @ tail)"
    by (simp add: metadata_iov_def Let_def write_iov_def d(3) len iov_range_def iov_first_def iov_sectors_def
        get_metadata_lba_def M_KV_METADATA_LBA_def apply_iov_def mem_read_def)
qed

section \<open>What a persisted change leaves on the device\<close>

definition idx_ok :: "int \<Rightarrow> nvm_kv_pool_mgr \<Rightarrow> bool" where
  "idx_ok idx pm \<longleftrightarrow> idx = -1 \<or> 0 \<le> idx \<and> nat idx < pm_max_pools pm"

lemma bitmap_span_sub:
  assumes "areas_ok k pm" and "idx_ok idx pm"
  shows "bitmap_span k base pm idx \<subseteq> {base ..< base + pm_bm_len pm div 2 ^ k}"
  using bit_sector_bound [OF assms(1), of "nat idx"] assms(2) by (auto simp: bitmap_span_def idx_ok_def)

lemma persist_ranges:
  assumes a: "areas_ok k pm" and idx: "idx_ok idx pm"
  shows "iov_range (2 ^ k) (bitmap_iov idx (get_inuse_bm_lba (pm_layout pm)) bm pm) = bitmap_span k 1 pm idx"
    and "iov_range (2 ^ k) (bitmap_iov idx (get_del_bm_lba (pm_layout pm)) bm pm) = bitmap_span k (deleted_start k pm) pm idx"
    and "bitmap_span k 1 pm idx \<subseteq> {1 ..< deleted_start k pm}"
    and "bitmap_span k (deleted_start k pm) pm idx \<subseteq> {deleted_start k pm ..< tags_start k}"
    and "idx \<noteq> -1 \<Longrightarrow> iov_range (2 ^ k) (tag_iov idx pm) = {tags_start k + nat idx * POOL_TAG_SIZE div 2 ^ k}"
    and "iov_range (2 ^ k) (metadata_iov pm) = {0}"
proof -
  note d = areas_dest [OF a] and b = media_len_bounds [OF a]
  have i: "idx = -1 \<or> 0 \<le> idx \<and> nat idx < pm_max_pools pm" using idx by (simp add: idx_ok_def)
  have le: "1 \<le> tags_start k" "deleted_start k pm \<le> tags_start k" using b(2) by (simp_all add: tags_start_def)
  show "iov_range (2 ^ k) (bitmap_iov idx (get_inuse_bm_lba (pm_layout pm)) bm pm) = bitmap_span k 1 pm idx"
    by (rule bitmap_iov_at(1) [OF a i d(6) le(1)])
  show "iov_range (2 ^ k) (bitmap_iov idx (get_del_bm_lba (pm_layout pm)) bm pm) = bitmap_span k (deleted_start k pm) pm idx"
    by (rule bitmap_iov_at(1) [OF a i d(7) le(2)])
  show "bitmap_span k 1 pm idx \<subseteq> {1 ..< deleted_start k pm}"
    using bitmap_span_sub [OF a idx, of 1] by (simp add: deleted_start_def)
  show "bitmap_span k (deleted_start k pm) pm idx \<subseteq> {deleted_start k pm ..< tags_start k}"
    using bitmap_span_sub [OF a idx, of "deleted_start k pm"] b(2) by auto
  show "iov_range (2 ^ k) (metadata_iov pm) = {0}" by (rule metadata_iov_at(1) [OF a])
  assume "idx \<noteq> -1"
  then obtain n where n: "idx = int n" "n < pm_max_pools pm" using i by (metis nonneg_int_cases nat_int)
  show "iov_range (2 ^ k) (tag_iov idx pm) = {tags_start k + nat idx * POOL_TAG_SIZE div 2 ^ k}"
    using tag_iov_at(1) [OF a n(2)] by (simp add: n(1))
qed

lemma persist_disjoint:
  assumes a: "areas_ok k pm" and idx: "idx_ok idx pm"
  shows "disjoint_iovs (2 ^ k) (persist_iovs type idx pm)"
proof -
  note r = persist_ranges [OF assms]
  define A where "A = bitmap_span k 1 pm idx"
  define B where "B = bitmap_span k (deleted_start k pm) pm idx"
  define t where "t = tags_start k + nat idx * POOL_TAG_SIZE div 2 ^ k"
  have t: "deleted_start k pm \<le> t" using media_len_bounds(2) [OF a] by (simp add: t_def)
  have pos: "0 < deleted_start k pm" by (simp add: deleted_start_def)
  have A: "1 \<le> x \<and> x < deleted_start k pm" if "x \<in> A" for x using r(3) [folded A_def] that by auto
  have B: "deleted_start k pm \<le> x \<and> x < tags_start k" if "x \<in> B" for x using r(4) [folded B_def] that by auto
  have "A \<inter> B = {}" using A B leD by blast
  moreover have "t \<notin> A" "0 \<notin> A" "0 \<notin> B" "t \<noteq> 0" using A [of t] A [of 0] B [of 0] t pos by auto
  moreover have "t \<notin> B" using B [of t] by (auto simp: t_def)
  moreover define I D G M where "I = bitmap_iov idx (get_inuse_bm_lba (pm_layout pm)) (pm_in_use pm) pm"
    and "D = bitmap_iov idx (get_del_bm_lba (pm_layout pm)) (pm_deleted pm) pm"
    and "G = tag_iov idx pm" and "M = metadata_iov pm"
  moreover have "iov_range (2 ^ k) I = A" "iov_range (2 ^ k) D = B" "idx \<noteq> -1 \<longrightarrow> iov_range (2 ^ k) G = {t}"
    "iov_range (2 ^ k) M = {0}"
    using r by (simp_all add: I_def D_def G_def M_def A_def B_def t_def)
  ultimately show ?thesis
    unfolding persist_iovs_def I_def [symmetric] D_def [symmetric] G_def [symmetric] M_def [symmetric] by auto
qed

lemma persist_view:
  assumes a: "areas_ok k pm" and idx: "idx_ok idx pm" and batch: "batch_law E (pm_device pm) view"
    and ok: "persist_store_info E type idx pm w = Some (Inr (), w')"
    and no_tags: "idx = -1 \<Longrightarrow> type AND M_KV_POOL_TAGS = 0"
  shows "view w' = foldl (apply_iov (2 ^ k)) (view w) (persist_iovs type idx pm)"
proof -
  let ?iovs = "persist_iovs type idx pm"
  have "(if type AND M_KV_POOL_TAGS \<noteq> 0 \<and> idx = -1 then persist_pool_tags E pm w else Some (Inr (), w)) = Some (Inr (), w)"
    using no_tags by auto
  then obtain n where "nvm_writev E (pm_device pm) ?iovs (length ?iovs) True w = (Inr n, w')"
    using ok by (simp add: persist_store_info_def Let_def split: option.splits prod.splits sum.splits)
  then show ?thesis
    using nvm_writev_atomic_ok [OF batch] persist_disjoint [OF a idx] areas_dest(4) [OF a] by simp
qed

definition changed_at :: "int \<Rightarrow> kv_bitmap \<Rightarrow> kv_bitmap \<Rightarrow> bool" where
  "changed_at idx bm bm' \<longleftrightarrow>
     length bm' = length bm \<and> (idx = -1 \<or> (\<forall>j < length bm. j \<noteq> nat idx div 32 \<longrightarrow> bm' ! j = bm ! j))"

lemma changed_at_refl [simp]: "changed_at idx bm bm"
  by (simp add: changed_at_def)

lemma changed_at_set: "n < 2 ^ 32 \<Longrightarrow> changed_at (int n) bm (bitmap_set bm (of_nat n))"
  and changed_at_clear: "n < 2 ^ 32 \<Longrightarrow> changed_at (int n) bm (bitmap_clear bm (of_nat n))"
  by (simp_all add: changed_at_def bitmap_set_def bitmap_clear_def Let_def unat_of_nat)

lemma bitmap_on_change:
  assumes a: "areas_ok k pm" and len: "4 * length bm = pm_bm_len pm" and on: "bitmap_on k V base bm"
    and ch: "changed_at idx bm bm'"
    and new: "\<And>x. x \<in> bitmap_span k base pm idx \<Longrightarrow> V' x = Some (mem_read ((x - base) * 2 ^ k) (2 ^ k) (bitmap_bytes bm'))"
    and old: "\<And>x. x \<notin> bitmap_span k base pm idx \<Longrightarrow> base \<le> x \<Longrightarrow> x < base + pm_bm_len pm div 2 ^ k \<Longrightarrow> V' x = V x"
  shows "bitmap_on k V' base bm'"
  unfolding bitmap_on_def
proof (intro allI impI)
  fix i assume i: "i < 4 * length bm' div 2 ^ k"
  have k: "9 \<le> k" using a by (simp add: areas_ok_def)
  have len': "length bm' = length bm" using ch by (simp add: changed_at_def)
  show "V' (base + i) = Some (mem_read (i * 2 ^ k) (2 ^ k) (bitmap_bytes bm'))"
  proof (cases "base + i \<in> bitmap_span k base pm idx")
    case True
    then show ?thesis using new by simp
  next
    case False
    then have idx: "idx \<noteq> -1" and q: "i \<noteq> bit_sector k (nat idx)"
      using i len len' by (auto simp: bitmap_span_def split: if_splits)
    have "V' (base + i) = V (base + i)" using old False i len len' by simp
    also have "\<dots> = Some (mem_read (i * 2 ^ k) (2 ^ k) (bitmap_bytes bm))"
      using on i len' by (simp add: bitmap_on_def)
    also have "mem_read (i * 2 ^ k) (2 ^ k) (bitmap_bytes bm) = mem_read (i * 2 ^ k) (2 ^ k) (bitmap_bytes bm')"
    proof (rule bitmap_bytes_update [symmetric])
      show "bm' ! j = bm ! j" if "j < length bm" "j \<noteq> nat idx div 32" for j
        using ch idx that by (simp add: changed_at_def)
      have "(2::nat) ^ 2 dvd 2 ^ k" using k by (intro le_imp_power_dvd) simp
      then show "4 dvd (2::nat) ^ k" by simp
      show "i \<noteq> 4 * (nat idx div 32) div 2 ^ k" using q k by (simp add: bit_sector_word)
    qed (rule len')
    finally show ?thesis .
  qed
qed

lemma dvd_below_next: "(a::nat) dvd x \<Longrightarrow> a dvd y \<Longrightarrow> x < y \<Longrightarrow> x + a \<le> y"
  by (metis add_diff_cancel_left' dvd_diff_nat dvd_imp_le le_add_diff_inverse less_or_eq_imp_le nat_add_left_cancel_le zero_less_diff)

lemma tag_in_sector:
  assumes "9 \<le> k"
  shows "m * POOL_TAG_SIZE mod 2 ^ k + POOL_TAG_SIZE \<le> 2 ^ k"
proof -
  have "(2::nat) ^ 4 dvd 2 ^ k" using assms by (intro le_imp_power_dvd) simp
  then have "POOL_TAG_SIZE dvd m * POOL_TAG_SIZE mod 2 ^ k" "POOL_TAG_SIZE dvd (2::nat) ^ k"
    by (simp_all add: POOL_TAG_SIZE_def dvd_mod)
  then show ?thesis by (rule dvd_below_next) simp
qed

lemma persist_stored:
  assumes a: "areas_ok k pm" and idx: "idx_ok idx pm" and batch: "batch_law E (pm_device pm) view"
    and ok: "persist_store_info E type idx pm w = Some (Inr (), w')"
    and no_tags: "idx = -1 \<Longrightarrow> type AND M_KV_POOL_TAGS = 0"
    and st: "pools_stored k (view w) pm0" and len0: "pm_bm_len pm0 = pm_bm_len pm"
    and lens: "4 * length (pm_in_use pm0) = pm_bm_len pm" "4 * length (pm_deleted pm0) = pm_bm_len pm"
    and md: "type AND M_KVSTORE_METADATA \<noteq> 0 \<or> pm_md pm = pm_md pm0"
    and iu: "type AND M_KV_BM_INUSE \<noteq> 0 \<and> changed_at idx (pm_in_use pm0) (pm_in_use pm) \<or> pm_in_use pm = pm_in_use pm0"
    and de: "type AND M_KV_BM_DELETED \<noteq> 0 \<and> changed_at idx (pm_deleted pm0) (pm_deleted pm) \<or> pm_deleted pm = pm_deleted pm0"
    and tg: "\<And>m. m \<in> live_ids pm \<Longrightarrow>
       type AND M_KV_POOL_TAGS \<noteq> 0 \<and> idx = int m \<or> m \<in> live_ids pm0 \<and> tag_at pm m = tag_at pm0 m"
  shows "pools_stored k (view w') pm"
proof -
  note d = areas_dest [OF a] and b = media_len_bounds [OF a] and r = persist_ranges [OF a idx]
  let ?iovs = "persist_iovs type idx pm"
  let ?del = "deleted_start k pm"
  have V: "view w' = foldl (apply_iov (2 ^ k)) (view w) ?iovs" by (rule persist_view [OF a idx batch ok no_tags])
  have at: "view w' x = apply_iov (2 ^ k) (view w) iov x" if "iov \<in> set ?iovs" "x \<in> iov_range (2 ^ k) iov" for iov x
    unfolding V by (rule foldl_apply_iov_inside [OF persist_disjoint [OF a idx] that])
  have out: "view w' x = view w x" if "\<And>iov. iov \<in> set ?iovs \<Longrightarrow> x \<notin> iov_range (2 ^ k) iov" for x
    unfolding V using that by (rule foldl_apply_iov_outside)
  have i: "idx = -1 \<or> 0 \<le> idx \<and> nat idx < pm_max_pools pm" using idx by (simp add: idx_ok_def)
  have pos: "0 < ?del" "?del \<le> tags_start k" using b(2) by (simp_all add: deleted_start_def)
  have areas: "x < tags_start k \<Longrightarrow> x \<notin> iov_range (2 ^ k) (tag_iov idx pm)" if "idx \<noteq> -1" for x
    using r(5) [OF that] by simp
  have del0: "deleted_start k pm0 = ?del" by (simp add: deleted_start_def len0)
  have "\<exists>tail. view w' 0 = Some (metadata_bytes (pm_md pm) @ tail)"
  proof (cases "type AND M_KVSTORE_METADATA \<noteq> 0")
    case True
    then have "metadata_iov pm \<in> set ?iovs" by (simp add: persist_iovs_def)
    then show ?thesis using at [of "metadata_iov pm" 0] r(6) metadata_iov_at(2) [OF a] by simp
  next
    case False
    have "view w' 0 = view w 0"
      using False r pos by (intro out) (auto simp: persist_iovs_def tags_start_def split: if_splits)
    then show ?thesis using st md False by (simp add: pools_stored_def)
  qed
  moreover have "bitmap_on k (view w') 1 (pm_in_use pm)"
  proof (cases "type AND M_KV_BM_INUSE \<noteq> 0 \<and> changed_at idx (pm_in_use pm0) (pm_in_use pm)")
    case True
    show ?thesis
    proof (rule bitmap_on_change [OF a lens(1)])
      show "bitmap_on k (view w) 1 (pm_in_use pm0)" using st by (simp add: pools_stored_def)
      show "changed_at idx (pm_in_use pm0) (pm_in_use pm)" using True by simp
      fix x assume x: "x \<in> bitmap_span k 1 pm idx"
      have "bitmap_iov idx (get_inuse_bm_lba (pm_layout pm)) (pm_in_use pm) pm \<in> set ?iovs"
        using True by (simp add: persist_iovs_def)
      then show "view w' x = Some (mem_read ((x - 1) * 2 ^ k) (2 ^ k) (bitmap_bytes (pm_in_use pm)))"
        using at x r(1) bitmap_iov_at(2) [OF a i d(6) _ x] by (simp add: tags_start_def)
    next
      fix x assume x: "x \<notin> bitmap_span k 1 pm idx" "1 \<le> x" "x < 1 + pm_bm_len pm div 2 ^ k"
      then have "x < ?del" by (simp add: deleted_start_def)
      then show "view w' x = view w x"
        using x r pos areas [of x] by (intro out) (auto simp: persist_iovs_def split: if_splits)
    qed
  next
    case False
    have "view w' (1 + j) = view w (1 + j)" if "j < pm_bm_len pm div 2 ^ k" for j
    proof (cases "type AND M_KV_BM_INUSE \<noteq> 0")
      case True
      then show ?thesis using False iu by auto
    next
      case False
      have "1 + j < ?del" using that by (simp add: deleted_start_def)
      then show ?thesis
        using False r pos areas [of "1 + j"] by (intro out) (auto simp: persist_iovs_def split: if_splits)
    qed
    moreover have "pm_in_use pm = pm_in_use pm0" using False iu by auto
    ultimately show ?thesis using st lens by (simp add: pools_stored_def bitmap_on_def)
  qed
  moreover have "bitmap_on k (view w') ?del (pm_deleted pm)"
  proof (cases "type AND M_KV_BM_DELETED \<noteq> 0 \<and> changed_at idx (pm_deleted pm0) (pm_deleted pm)")
    case True
    show ?thesis
    proof (rule bitmap_on_change [OF a lens(2)])
      show "bitmap_on k (view w) ?del (pm_deleted pm0)" using st by (simp add: pools_stored_def del0)
      show "changed_at idx (pm_deleted pm0) (pm_deleted pm)" using True by simp
      fix x assume x: "x \<in> bitmap_span k ?del pm idx"
      have "bitmap_iov idx (get_del_bm_lba (pm_layout pm)) (pm_deleted pm) pm \<in> set ?iovs"
        using True by (simp add: persist_iovs_def)
      then show "view w' x = Some (mem_read ((x - ?del) * 2 ^ k) (2 ^ k) (bitmap_bytes (pm_deleted pm)))"
        using at x r(2) bitmap_iov_at(2) [OF a i d(7) pos(2) x] by simp
    next
      fix x assume x: "x \<notin> bitmap_span k ?del pm idx" "?del \<le> x" "x < ?del + pm_bm_len pm div 2 ^ k"
      then have "x < tags_start k" using b(2) by simp
      then show "view w' x = view w x"
        using x r pos areas [of x] by (intro out) (auto simp: persist_iovs_def split: if_splits)
    qed
  next
    case False
    have "view w' (?del + j) = view w (?del + j)" if "j < pm_bm_len pm div 2 ^ k" for j
    proof (cases "type AND M_KV_BM_DELETED \<noteq> 0")
      case True
      then show ?thesis using False de by auto
    next
      case False
      have "?del + j < tags_start k" using that b(2) by simp
      then show ?thesis
        using False r pos areas [of "?del + j"] by (intro out) (auto simp: persist_iovs_def split: if_splits)
    qed
    moreover have "pm_deleted pm = pm_deleted pm0" using False de by auto
    ultimately show ?thesis using st lens by (simp add: pools_stored_def bitmap_on_def del0)
  qed
  moreover have "tag_on k (view w') m (tag_at pm m)" if m: "m \<in> live_ids pm" for m
  proof -
    define q where "q = m * POOL_TAG_SIZE div 2 ^ k"
    note fit = tag_in_sector [OF d(1), of m]
    show ?thesis
    proof (cases "type AND M_KV_POOL_TAGS \<noteq> 0 \<and> idx \<noteq> -1 \<and> nat idx * POOL_TAG_SIZE div 2 ^ k = q")
      case True
      then have idx': "idx = int (nat idx)" "nat idx < pm_max_pools pm" using i by auto
      have "tag_iov idx pm \<in> set ?iovs" using True by (simp add: persist_iovs_def)
      then have "view w' (tags_start k + q) = apply_iov (2 ^ k) (view w) (tag_iov idx pm) (tags_start k + q)"
        using at r(5) True by simp
      also have "\<dots> = Some (mem_read (q * 2 ^ k) (2 ^ k) (pm_tags pm))"
        using tag_iov_at(2) [OF a idx'(2), of "view w"] True idx'(1) by simp
      finally have "view w' (tags_start k + q) = Some (mem_read (q * 2 ^ k) (2 ^ k) (pm_tags pm))" .
      moreover have "mem_read (m * POOL_TAG_SIZE mod 2 ^ k) POOL_TAG_SIZE (mem_read (q * 2 ^ k) (2 ^ k) (pm_tags pm)) = tag_at pm m"
        by (simp only: q_def mem_read_mem_read [OF fit] div_mult_mod_eq tag_at_def)
      ultimately show ?thesis unfolding tag_on_def q_def [symmetric] by blast
    next
      case False
      then have "\<not> (type AND M_KV_POOL_TAGS \<noteq> 0 \<and> idx = int m)" by (auto simp: q_def)
      then have m0: "m \<in> live_ids pm0" "tag_at pm m = tag_at pm0 m" using tg [OF m] by auto
      have t: "tags_start k + q \<notin> bitmap_span k 1 pm idx" "tags_start k + q \<notin> bitmap_span k ?del pm idx" "tags_start k + q \<noteq> 0"
        using r(3,4) pos by (auto simp: tags_start_def)
      have "view w' (tags_start k + q) = view w (tags_start k + q)"
        using False r(1,2,5,6) t by (intro out) (auto simp: persist_iovs_def split: if_splits)
      then show ?thesis using st m0 by (simp add: pools_stored_def tag_on_def q_def)
    qed
  qed
  ultimately show ?thesis by (simp add: pools_stored_def)
qed

section \<open>Every call keeps the table on the device\<close>

definition same_place :: "nvm_kv_pool_mgr \<Rightarrow> nvm_kv_pool_mgr \<Rightarrow> bool" where
  "same_place pm pm' \<longleftrightarrow>
     pm_device pm' = pm_device pm \<and> pm_layout pm' = pm_layout pm \<and> pm_hash pm' = pm_hash pm \<and>
     pm_bm_len pm' = pm_bm_len pm \<and>
     (pm_md pm')\<lparr>sm_total_no_pools := 0\<rparr> = (pm_md pm)\<lparr>sm_total_no_pools := 0\<rparr>"

lemma same_place_refl [simp]: "same_place pm pm"
  by (simp add: same_place_def)

lemma same_place_trans: "same_place pm pm1 \<Longrightarrow> same_place pm1 pm2 \<Longrightarrow> same_place pm pm2"
  by (simp add: same_place_def)

lemma same_place_md:
  assumes "same_place pm pm'"
  shows "sm_max_pools (pm_md pm') = sm_max_pools (pm_md pm)" "sm_version (pm_md pm') = sm_version (pm_md pm)"
    "sm_kv_store_stamp (pm_md pm') = sm_kv_store_stamp (pm_md pm)" "sm_kv_store_id (pm_md pm') = sm_kv_store_id (pm_md pm)"
    "sm_expiry_mode (pm_md pm') = sm_expiry_mode (pm_md pm)"
proof -
  have e: "(pm_md pm')\<lparr>sm_total_no_pools := 0\<rparr> = (pm_md pm)\<lparr>sm_total_no_pools := 0\<rparr>"
    using assms by (simp add: same_place_def)
  show "sm_max_pools (pm_md pm') = sm_max_pools (pm_md pm)" "sm_version (pm_md pm') = sm_version (pm_md pm)"
    "sm_kv_store_stamp (pm_md pm') = sm_kv_store_stamp (pm_md pm)" "sm_kv_store_id (pm_md pm') = sm_kv_store_id (pm_md pm)"
    "sm_expiry_mode (pm_md pm') = sm_expiry_mode (pm_md pm)"
    using arg_cong [OF e, of sm_max_pools] arg_cong [OF e, of sm_version] arg_cong [OF e, of sm_kv_store_stamp]
      arg_cong [OF e, of sm_kv_store_id] arg_cong [OF e, of sm_expiry_mode] by simp_all
qed

lemma same_place_areas: "same_place pm pm' \<Longrightarrow> areas_ok k pm' = areas_ok k pm"
  using same_place_md(1) [of pm pm']
  by (simp add: same_place_def areas_ok_def pm_sector_size_def deleted_start_def bitmap_media_len_def pm_max_pools_def)

lemma shape_lengths:
  "pm_shape pm \<Longrightarrow> 4 * length (pm_in_use pm) = pm_bm_len pm"
  "pm_shape pm \<Longrightarrow> 4 * length (pm_deleted pm) = pm_bm_len pm"
  by (simp_all add: pm_shape_def bm_nbits_def)

lemma live_below: "pm_shape pm \<Longrightarrow> m \<in> live_ids pm \<Longrightarrow> m < pm_max_pools pm"
  by (auto simp: live_ids_def pm_shape_def)

lemma stored_create:
  assumes wf: "pm_wf pm" and un: "\<not> pm_locked pm" and tag: "tag_arg_ok tag"
    and a: "areas_ok k pm" and batch: "batch_law E (pm_device pm) view" and st: "pools_stored k (view w) pm"
    and ok: "create_pool E tag pm w = Some (Inr pool_id, pm', w')"
  shows "pools_stored k (view w') pm' \<and> same_place pm pm'"
proof (cases rule: create_pool_cases [OF wf un, of tag E w])
  case (1 i)
  then show ?thesis using ok st by simp
next
  case 2
  then show ?thesis using ok by simp
next
  case free: (3 n)
  have sh: "pm_shape pm" using wf by (simp add: pm_wf_def)
  have n32: "n < 2 ^ 32" using free(2) sh by (simp add: pm_shape_def NVM_KV_MAX_POOLS_def)
  let ?p = "with_pool n tag pm" and ?pm = "add_tag (tag_str tag) (int n) (with_pool n tag pm)"
  let ?type = "M_KVSTORE_METADATA OR M_KV_BM_INUSE OR M_KV_POOL_TAGS :: u32"
  have p: "persist_store_info E ?type (int n) ?p w = Some (Inr (), w')" and pm': "pm' = ?pm\<lparr>pm_locked := False\<rparr>"
    using ok free(5) by (auto simp: after_create_def create_pool_exit_def Let_def
        split: option.splits sum.splits if_splits)
  have place: "same_place pm ?p"
    by (simp add: same_place_def) (simp add: with_pool_def set_pool_tag_def bump_pools_def)
  have dev: "pm_device ?p = pm_device pm" using place by (simp add: same_place_def)
  have eq: "pm_in_use pm' = pm_in_use ?p" "pm_deleted pm' = pm_deleted ?p" "pm_md pm' = pm_md ?p"
    "tag_at pm' = tag_at ?p" "live_ids pm' = live_ids ?p" "deleted_start k pm' = deleted_start k ?p"
    "same_place ?p pm'"
    by (simp_all add: pm' live_ids_def deleted_start_def same_place_def add_tag_def fun_eq_iff tag_at_def)
  have "pools_stored k (view w') ?p"
  proof (rule persist_stored [where view = view and ?pm0.0 = pm and w = w, OF _ _ _ p])
    show "pools_stored k (view w) pm" by (rule st)
    show "areas_ok k ?p" using a same_place_areas [OF place] by simp
    show "idx_ok (int n) ?p" using free(2) by (simp add: idx_ok_def)
    show "batch_law E (pm_device ?p) view" using batch dev by simp
    show "?type AND M_KVSTORE_METADATA \<noteq> 0 \<or> pm_md ?p = pm_md pm" by (simp add: pm_flags)
    show "?type AND M_KV_BM_INUSE \<noteq> 0 \<and> changed_at (int n) (pm_in_use pm) (pm_in_use ?p) \<or> pm_in_use ?p = pm_in_use pm"
      using changed_at_set [OF n32] by (simp add: pm_flags)
    show "pm_bm_len pm = pm_bm_len ?p" by simp
    show "4 * length (pm_in_use pm) = pm_bm_len ?p" "4 * length (pm_deleted pm) = pm_bm_len ?p"
      using shape_lengths [OF sh] by simp_all
    fix m assume m: "m \<in> live_ids ?p"
    show "?type AND M_KV_POOL_TAGS \<noteq> 0 \<and> int n = int m \<or> m \<in> live_ids pm \<and> tag_at ?p m = tag_at pm m"
    proof (cases "m = n")
      case True
      then show ?thesis by (simp add: pm_flags)
    next
      case False
      then have live: "m \<in> live_ids pm"
        using m bits_with_pool [OF sh free(2)] by (auto simp: live_ids_def)
      let ?t = "case tag of Some tag \<Rightarrow> take POOL_TAG_SIZE tag | None \<Rightarrow> zeros POOL_TAG_SIZE"
      have "length ?t = POOL_TAG_SIZE" using tag by (auto simp: tag_arg_ok_def split: option.splits)
      moreover have "POOL_TAG_SIZE * pm_max_pools pm \<le> length (pm_tags pm)" using sh by (simp add: pm_shape_def)
      ultimately have "tag_at ?p m = tag_at pm m"
        using tag_at_set [OF _ live_below [OF sh live] free(2)] False
        by (simp only: tag_at_def [of ?p]) (simp add: with_pool_def set_pool_tag_def bump_pools_def)
      then show ?thesis using live by simp
    qed
  qed simp_all
  then show ?thesis using eq same_place_trans [OF place eq(7)] by (simp add: pools_stored_def)
qed

lemma stored_deleted:
  assumes sh: "pm_shape pm" and ids: "\<forall>n \<in> set ids. n < bm_nbits (pm_in_use pm) \<and> n < 2 ^ 32 \<and> n \<noteq> 0"
    and idx: "ids = [nat idx] \<and> 0 \<le> idx \<and> nat idx < pm_max_pools pm \<or> idx = -1"
    and a: "areas_ok k pm" and batch: "batch_law E (pm_device pm) view" and st: "pools_stored k (view w) pm"
    and ok: "persist_store_info E M_KV_BM_DELETED idx (foldl mark_deleted pm ids) w = Some (Inr (), w')"
  shows "pools_stored k (view w') (foldl mark_deleted pm ids) \<and> same_place pm (foldl mark_deleted pm ids)"
proof -
  let ?p = "foldl mark_deleted pm ids"
  note f = mark_fold [OF sh ids, unfolded Let_def]
  have place: "same_place pm ?p"
  proof (induction ids arbitrary: pm)
    case (Cons n ids)
    have "same_place pm (mark_deleted pm n)" by (simp add: mark_deleted_def same_place_def)
    then show ?case using same_place_trans Cons by simp
  qed simp
  have max: "pm_max_pools ?p = pm_max_pools pm" using f by (simp add: pm_max_pools_def)
  have shp: "pm_shape ?p" using f by simp
  have len: "pm_bm_len ?p = pm_bm_len pm" "pm_device ?p = pm_device pm" using place by (simp_all add: same_place_def)
  have "pools_stored k (view w') ?p"
  proof (rule persist_stored [where view = view and ?pm0.0 = pm and w = w, OF _ _ _ ok])
    show "areas_ok k ?p" using a same_place_areas [OF place] by simp
    show "idx_ok idx ?p" using idx max by (auto simp: idx_ok_def)
    show "batch_law E (pm_device ?p) view" using batch len by simp
    show "M_KV_BM_DELETED AND M_KV_POOL_TAGS = 0" by (simp add: pm_flags)
    show "pools_stored k (view w) pm" by (rule st)
    show "M_KV_BM_DELETED AND M_KVSTORE_METADATA \<noteq> 0 \<or> pm_md ?p = pm_md pm" using f by simp
    show "M_KV_BM_DELETED AND M_KV_BM_INUSE \<noteq> 0 \<and> changed_at idx (pm_in_use pm) (pm_in_use ?p) \<or>
        pm_in_use ?p = pm_in_use pm" using f by simp
    show "4 * length (pm_in_use pm) = pm_bm_len ?p" "4 * length (pm_deleted pm) = pm_bm_len ?p"
      using shape_lengths [OF sh] len by simp_all
    show "M_KV_BM_DELETED AND M_KV_BM_DELETED \<noteq> 0 \<and> changed_at idx (pm_deleted pm) (pm_deleted ?p) \<or>
        pm_deleted ?p = pm_deleted pm"
      using idx
    proof
      assume "idx = -1"
      moreover have "length (pm_deleted ?p) = length (pm_deleted pm)"
        using shape_lengths [OF sh] shape_lengths [OF shp] len by linarith
      ultimately show ?thesis by (simp add: pm_flags changed_at_def)
    next
      assume i: "ids = [nat idx] \<and> 0 \<le> idx \<and> nat idx < pm_max_pools pm"
      then have "nat idx < 2 ^ 32" "int (nat idx) = idx" using ids by auto
      then have "changed_at idx (pm_deleted pm) (bitmap_set (pm_deleted pm) (of_nat (nat idx)))"
        using changed_at_set [of "nat idx"] by metis
      then show ?thesis using i by (simp add: pm_flags mark_deleted_def)
    qed
    fix m assume m: "m \<in> live_ids ?p"
    then have live: "m \<in> live_ids pm" "m \<notin> set ids" using f by (auto simp: live_ids_def)
    moreover have "tag_at ?p m = tag_at pm m" using f live_below [OF sh live(1)] live(2) by simp
    ultimately show "M_KV_BM_DELETED AND M_KV_POOL_TAGS \<noteq> 0 \<and> idx = int m \<or> m \<in> live_ids pm \<and> tag_at ?p m = tag_at pm m"
      by simp
  qed (simp add: len)
  then show ?thesis using place by simp
qed

lemma stored_delete:
  assumes wf: "pm_wf pm" and un: "\<not> pm_locked pm"
    and id: "0 < pool_id \<and> pool_id < int (pm_max_pools pm) \<or> pool_id = M_POOLID_ALL"
    and a: "areas_ok k pm" and batch: "batch_law E (pm_device pm) view" and st: "pools_stored k (view w) pm"
    and ok: "delete_pool E pool_id pm cache w = Some (Inr (), wake, pm', cache', w')"
  shows "pools_stored k (view w') pm' \<and> same_place pm pm'"
proof -
  have sh: "pm_shape pm" using wf by (simp add: pm_wf_def)
  let ?ids = "delete_ids pool_id pm"
  have "max 2 (pm_max_pools pm) \<le> bm_nbits (pm_in_use pm)" "pm_max_pools pm \<le> 2 ^ 20"
    using sh by (simp_all add: pm_shape_def NVM_KV_MAX_POOLS_def bm_nbits_def)
  then have ids: "\<forall>n \<in> set ?ids. n < bm_nbits (pm_in_use pm) \<and> n < 2 ^ 32 \<and> n \<noteq> 0"
    using id by (auto simp: delete_ids_def)
  have idx: "?ids = [nat pool_id] \<and> 0 \<le> pool_id \<and> nat pool_id < pm_max_pools pm \<or> pool_id = -1"
    using id by (auto simp: delete_ids_def M_POOLID_ALL_def)
  show ?thesis
  proof (cases "pool_id \<noteq> M_POOLID_ALL \<and> check_pool_status pool_id pm \<in> {POOL_IS_INVALID, POOL_NOT_IN_USE, POOL_DELETION_IN_PROGRESS}")
    case True
    then show ?thesis using ok st by (auto simp: delete_pool_def Let_def)
  next
    case False
    then have "persist_store_info E M_KV_BM_DELETED pool_id (foldl mark_deleted pm ?ids) w = Some (Inr (), w')"
      and "pm' = foldl mark_deleted pm ?ids"
      using ok un by (auto simp: delete_pool_def Let_def split: if_splits option.splits prod.splits sum.splits)
    then show ?thesis using stored_deleted [OF sh ids idx a batch st] by simp
  qed
qed

lemma stored_removed:
  assumes sh: "pm_shape pm" and r: "remove_pools B pm pm'" and place: "same_place pm pm'"
    and idx: "idx = -1 \<or> 0 \<le> idx \<and> nat idx < pm_max_pools pm"
    and ch: "changed_at idx (pm_in_use pm) (pm_in_use pm')" "changed_at idx (pm_deleted pm) (pm_deleted pm')"
    and a: "areas_ok k pm" and batch: "batch_law E (pm_device pm) view" and st: "pools_stored k (view w) pm"
    and ok: "persist_store_info E (M_KVSTORE_METADATA OR M_KV_BM_DELETED OR M_KV_BM_INUSE) idx pm' w = Some (Inr (), w')"
  shows "pools_stored k (view w') pm'"
proof (rule persist_stored [where view = view and ?pm0.0 = pm and w = w, OF _ _ _ ok])
  let ?type = "M_KVSTORE_METADATA OR M_KV_BM_DELETED OR M_KV_BM_INUSE :: u32"
  have len: "pm_bm_len pm' = pm_bm_len pm" "pm_device pm' = pm_device pm" using place by (simp_all add: same_place_def)
  show "areas_ok k pm'" using a same_place_areas [OF place] by simp
  show "idx_ok idx pm'" using idx r by (auto simp: idx_ok_def remove_pools_def)
  show "batch_law E (pm_device pm') view" using batch len by simp
  show "?type AND M_KV_POOL_TAGS = 0" by (simp add: pm_flags)
  show "pools_stored k (view w) pm" by (rule st)
  show "?type AND M_KVSTORE_METADATA \<noteq> 0 \<or> pm_md pm' = pm_md pm" by (simp add: pm_flags)
  show "?type AND M_KV_BM_INUSE \<noteq> 0 \<and> changed_at idx (pm_in_use pm) (pm_in_use pm') \<or> pm_in_use pm' = pm_in_use pm"
    and "?type AND M_KV_BM_DELETED \<noteq> 0 \<and> changed_at idx (pm_deleted pm) (pm_deleted pm') \<or> pm_deleted pm' = pm_deleted pm"
    using ch by (simp_all add: pm_flags)
  show "4 * length (pm_in_use pm) = pm_bm_len pm'" "4 * length (pm_deleted pm) = pm_bm_len pm'"
    using shape_lengths [OF sh] len by simp_all
  show "pm_bm_len pm = pm_bm_len pm'" by (simp add: len)
  fix m assume m: "m \<in> live_ids pm'"
  have "m \<in> live_ids pm" using m r by (auto simp: live_ids_def remove_pools_def)
  moreover have "tag_at pm' m = tag_at pm m" using r by (simp add: tag_at_def remove_pools_def)
  ultimately show "?type AND M_KV_POOL_TAGS \<noteq> 0 \<and> idx = int m \<or> m \<in> live_ids pm \<and> tag_at pm' m = tag_at pm m"
    by simp
qed

lemma stored_clear_one:
  assumes wf: "pm_wf pm" and del: "pool_in_del (uint pool_id) pm" and n: "unat pool_id < pm_max_pools pm"
    and a: "areas_ok k pm" and batch: "batch_law E (pm_device pm) view" and st: "pools_stored k (view w) pm"
    and ok: "clear_pool_bitmap E pool_id pm w = Some (Inr (), pm', w')"
  shows "pools_stored k (view w') pm' \<and> same_place pm pm'"
proof -
  have sh: "pm_shape pm" using wf by (simp add: pm_wf_def)
  have n32: "unat pool_id < 2 ^ 20" using n sh by (simp add: pm_shape_def NVM_KV_MAX_POOLS_def)
  have id: "sint pool_id = int (unat pool_id)"
  proof -
    have "sint (word_of_int (int m) :: u32) = int m" if "m < 2 ^ 20" for m
      using that by (simp only: signed_of_int) (simp add: signed_take_bit_int_eq_self)
    from this [OF n32] show ?thesis by simp
  qed
  have p: "persist_store_info E (M_KVSTORE_METADATA OR M_KV_BM_DELETED OR M_KV_BM_INUSE) (sint pool_id) pm' w = Some (Inr (), w')"
    and pm': "pm' = drop_pools (pm\<lparr>pm_deleted := bitmap_clear (pm_deleted pm) pool_id,
                        pm_in_use := bitmap_clear (pm_in_use pm) pool_id\<rparr>)"
    using ok by (auto simp: clear_pool_bitmap_def Let_def split: if_splits option.splits prod.splits)
  have place: "same_place pm pm'" by (simp add: pm' same_place_def drop_pools_def)
  have "changed_at (int (unat pool_id)) bm (bitmap_clear bm pool_id)" for bm
    using changed_at_clear [of "unat pool_id" bm] n32 by simp
  then have ch: "changed_at (int (unat pool_id)) (pm_in_use pm) (pm_in_use pm')"
    "changed_at (int (unat pool_id)) (pm_deleted pm) (pm_deleted pm')"
    by (simp_all add: pm' drop_pools_def)
  show ?thesis
    using stored_removed [OF sh clear_one_refines(1) [OF wf del n ok] place _ ch a batch st p [unfolded id]] n place
    by simp
qed

lemma clear_fold_place: "same_place pm (foldl (clear_pool_bit bitmap c) pm ids)"
proof (induction ids arbitrary: pm)
  case (Cons n ids)
  have "same_place pm (clear_pool_bit bitmap c pm n)"
    by (simp add: clear_pool_bit_def same_place_def drop_pools_def Let_def)
  then show ?case using same_place_trans Cons by simp
qed simp

lemma stored_clear_some:
  assumes wf: "pm_wf pm" and B: "bm_bits bitmap \<subseteq> bm_bits (pm_deleted pm)"
    and len: "length bitmap = length (pm_in_use pm)"
    and a: "areas_ok k pm" and batch: "batch_law E (pm_device pm) view" and st: "pools_stored k (view w) pm"
    and ok: "clear_pool_bitmaps E bitmap pm w = Some (Inr (), pm', w')"
  shows "pools_stored k (view w') pm' \<and> same_place pm pm'"
proof -
  have sh: "pm_shape pm" using wf by (simp add: pm_wf_def)
  note r = clear_pool_bitmaps_ok(1) [OF wf B len ok]
  have sh': "pm_shape pm'" using r by (simp add: remove_pools_def)
  define pm1 where "pm1 = (if take (pm_bm_len pm div 4) (pm_deleted pm) = take (pm_bm_len pm div 4) bitmap
    then pm\<lparr>pm_deleted := replicate (pm_bm_len pm div 4) 0 @ drop (pm_bm_len pm div 4) (pm_deleted pm)\<rparr> else pm)"
  define c where "c \<longleftrightarrow> take (pm_bm_len pm div 4) (pm_deleted pm) = take (pm_bm_len pm div 4) bitmap"
  have p: "persist_store_info E (M_KVSTORE_METADATA OR M_KV_BM_DELETED OR M_KV_BM_INUSE) (-1) pm' w = Some (Inr (), w')"
    and pm': "pm' = foldl (clear_pool_bit bitmap c) pm1 [1..<pm_max_pools pm1]"
    using ok unfolding clear_pool_bitmaps_def Let_def pm1_def c_def
    by (auto split: if_splits option.splits prod.splits sum.splits)
  have "same_place pm pm1" by (simp add: pm1_def same_place_def)
  then have place: "same_place pm pm'" unfolding pm' by (rule same_place_trans [OF _ clear_fold_place])
  then have "length (pm_in_use pm') = length (pm_in_use pm)" "length (pm_deleted pm') = length (pm_deleted pm)"
    using shape_lengths [OF sh] shape_lengths [OF sh'] by (simp_all add: same_place_def)
  then have ch: "changed_at (-1) (pm_in_use pm) (pm_in_use pm')" "changed_at (-1) (pm_deleted pm) (pm_deleted pm')"
    by (simp_all add: changed_at_def)
  show ?thesis using stored_removed [OF sh r place _ ch a batch st p] place by simp
qed

text \<open>
  One successful call of the pool manager together with the world it runs in. Between two calls the
  other parts of the store may write anything outside the sectors of the table.
\<close>

definition pool_table_end :: "nat \<Rightarrow> nvm_kv_pool_mgr \<Rightarrow> nat" where
  "pool_table_end k pm = tags_start k + (pm_max_pools pm * POOL_TAG_SIZE + (2 ^ k - 1)) div 2 ^ k"

inductive pm_media_step ::
  "'w nvm_env \<Rightarrow> ('w \<Rightarrow> sectors) \<Rightarrow> nat \<Rightarrow> nvm_kv_pool_mgr \<times> 'w \<Rightarrow> nvm_kv_pool_mgr \<times> 'w \<Rightarrow> bool"
  for E view k where
  media_create: "tag_arg_ok tag \<Longrightarrow> \<not> pm_locked pm \<Longrightarrow>
    create_pool E tag pm w = Some (Inr pool_id, pm', w') \<Longrightarrow> pm_media_step E view k (pm, w) (pm', w')"
| media_delete: "0 < pool_id \<and> pool_id < int (pm_max_pools pm) \<or> pool_id = M_POOLID_ALL \<Longrightarrow>
    \<not> pm_locked pm \<Longrightarrow>
    delete_pool E pool_id pm cache w = Some (Inr (), wake, pm', cache', w') \<Longrightarrow>
    pm_media_step E view k (pm, w) (pm', w')"
| media_clear_one: "pool_in_del (uint pool_id) pm \<Longrightarrow> unat pool_id < pm_max_pools pm \<Longrightarrow>
    clear_pool_bitmap E pool_id pm w = Some (Inr (), pm', w') \<Longrightarrow> pm_media_step E view k (pm, w) (pm', w')"
| media_clear_some: "bm_bits bitmap \<subseteq> bm_bits (pm_deleted pm) \<Longrightarrow>
    length bitmap = length (pm_in_use pm) \<Longrightarrow>
    clear_pool_bitmaps E bitmap pm w = Some (Inr (), pm', w') \<Longrightarrow> pm_media_step E view k (pm, w) (pm', w')"
| media_other: "\<forall>x < pool_table_end k pm. view w' x = view w x \<Longrightarrow> pm_media_step E view k (pm, w) (pm, w')"

inductive_cases pm_media_stepE: "pm_media_step E view k (pm, w) (pm', w')"

lemma tag_sector_below: "n < pm_max_pools pm \<Longrightarrow> tags_start k + n * POOL_TAG_SIZE div 2 ^ k < pool_table_end k pm"
proof -
  assume "n < pm_max_pools pm"
  then have "n * POOL_TAG_SIZE + 2 ^ k \<le> pm_max_pools pm * POOL_TAG_SIZE + (2 ^ k - 1)"
    by (simp add: POOL_TAG_SIZE_def)
  then have "(n * POOL_TAG_SIZE + 2 ^ k) div 2 ^ k \<le> (pm_max_pools pm * POOL_TAG_SIZE + (2 ^ k - 1)) div 2 ^ k"
    by (rule div_le_mono)
  moreover have "(n * POOL_TAG_SIZE + 2 ^ k) div 2 ^ k = n * POOL_TAG_SIZE div 2 ^ k + 1"
    by (subst div_add_self2) simp_all
  ultimately show ?thesis unfolding pool_table_end_def by linarith
qed

lemma stored_other:
  assumes sh: "pm_shape pm" and a: "areas_ok k pm" and st: "pools_stored k V pm"
    and same: "\<forall>x < pool_table_end k pm. V' x = V x"
  shows "pools_stored k V' pm"
proof -
  note b = media_len_bounds [OF a]
  have "tags_start k \<le> pool_table_end k pm" by (simp add: pool_table_end_def)
  then have low: "V' x = V x" if "x < tags_start k" for x using same that by simp
  have "V' 0 = V 0" by (rule low) (simp add: tags_start_def)
  moreover have "V' (1 + i) = V (1 + i)" if "i < pm_bm_len pm div 2 ^ k" for i
    using that b(2) by (intro low) (simp add: deleted_start_def)
  moreover have "V' (deleted_start k pm + i) = V (deleted_start k pm + i)" if "i < pm_bm_len pm div 2 ^ k" for i
    using that b(2) by (intro low) simp
  moreover have "V' (tags_start k + n * POOL_TAG_SIZE div 2 ^ k) = V (tags_start k + n * POOL_TAG_SIZE div 2 ^ k)"
    if "n \<in> live_ids pm" for n
    using tag_sector_below [OF live_below [OF sh that]] same by blast
  ultimately show ?thesis using st shape_lengths [OF sh]
    by (simp add: pools_stored_def bitmap_on_def tag_on_def)
qed

lemma media_step_wf:
  assumes "pm_media_step E view k (pm, w) (pm', w')" and "pm_wf pm"
  shows "pm_wf pm'"
proof -
  have "pm_step E pm pm' \<or> pm' = pm"
    using assms(1) by (cases rule: pm_media_stepE) (blast intro: pm_step.intros)+
  then show ?thesis using pm_step_refines [of E pm pm'] assms(2) by blast
qed

lemma media_step_stored:
  assumes "pm_media_step E view k (pm, w) (pm', w')" and wf: "pm_wf pm" and a: "areas_ok k pm"
    and b: "batch_law E (pm_device pm) view" and st: "pools_stored k (view w) pm"
  shows "pools_stored k (view w') pm' \<and> same_place pm pm'"
proof (rule pm_media_stepE [OF assms(1)], goal_cases)
  case 1
  then show ?thesis using stored_create [where view = view and w = w and w' = w' and pm' = pm', OF wf _ _ a b st] by blast
next
  case 2
  then show ?thesis using stored_delete [where view = view and w = w and w' = w' and pm' = pm', OF wf _ _ a b st] by blast
next
  case 3
  then show ?thesis using stored_clear_one [where view = view and w = w and w' = w' and pm' = pm', OF wf _ _ a b st] by blast
next
  case 4
  then show ?thesis using stored_clear_some [where view = view and w = w and w' = w' and pm' = pm', OF wf _ _ a b st] by blast
next
  case 5
  have "pm_shape pm" using wf by (simp add: pm_wf_def)
  then show ?thesis using 5 stored_other [OF _ a st] by simp
qed

lemma media_run_stored:
  assumes "(pm_media_step E view k)\<^sup>*\<^sup>* s s'" and "pm_wf (fst s)" and "areas_ok k (fst s)"
    and "batch_law E (pm_device (fst s)) view" and "pools_stored k (view (snd s)) (fst s)"
  shows "pools_stored k (view (snd s')) (fst s') \<and> same_place (fst s) (fst s') \<and> pm_wf (fst s')"
  using assms(1)
proof (induction rule: rtranclp_induct)
  case base
  then show ?case using assms by simp
next
  case (step s1 s2)
  obtain p1 w1 p2 w2 where s: "s1 = (p1, w1)" "s2 = (p2, w2)" by (cases s1, cases s2) auto
  have m: "pm_media_step E view k (p1, w1) (p2, w2)" using step.hyps(2) s by simp
  have h: "pools_stored k (view w1) p1" "same_place (fst s) p1" "pm_wf p1" using step.IH s by simp_all
  have a: "areas_ok k p1" using assms(3) same_place_areas [OF h(2)] by simp
  have b: "batch_law E (pm_device p1) view" using assms(4) h(2) by (simp add: same_place_def)
  have "pools_stored k (view w2) p2 \<and> same_place p1 p2" by (rule media_step_stored [OF m h(3) a b h(1)])
  then show ?case using s same_place_trans [OF h(2)] media_step_wf [OF m h(3)] by simp
qed

section \<open>A table on a simulated device\<close>

definition media_pm :: nvm_kv_pool_mgr where
  "media_pm = demo_pm\<lparr>pm_device := sim_device, pm_in_use := bitmap_set (replicate 128 0) 0,
     pm_deleted := replicate 128 0, pm_bm_len := 512\<rparr>"

definition media_world :: sectors where
  "media_world = (\<lambda>n. if n = 0 then Some (metadata_bytes (pm_md media_pm) @ zeros 448)
     else if n = 1 then Some (bitmap_bytes (pm_in_use media_pm))
     else if n = 2 then Some (bitmap_bytes (pm_deleted media_pm)) else None)"

lemma media_bits: "bm_bits (pm_in_use media_pm) = {0}" "bm_bits (pm_deleted media_pm) = {}"
proof -
  have none: "bm_bits (replicate 128 (0::u32)) = {}" by (auto simp: bm_bits_def)
  then show "bm_bits (pm_deleted media_pm) = {}" by (simp add: media_pm_def)
  show "bm_bits (pm_in_use media_pm) = {0}"
    using bm_bits_set [of 0 "replicate 128 0"] none by (simp add: media_pm_def bm_nbits_def)
qed

lemma media_max: "pm_max_pools media_pm = 2"
  using demo_max by (simp add: media_pm_def pm_max_pools_def)

lemma media_wf: "pm_wf media_pm" and media_unlocked: "\<not> pm_locked media_pm"
proof -
  have "pm_shape media_pm"
    unfolding pm_shape_def media_bits media_max
    by (simp add: media_pm_def demo_pm_def NVM_KV_MAX_POOLS_def bm_nbits_def POOL_TAG_SIZE_def bitmap_set_def Let_def)
  moreover have "tags_map_ok media_pm"
    unfolding tags_map_ok_def media_bits by (simp add: media_pm_def demo_pm_def)
  ultimately show "pm_wf media_pm"
    unfolding pm_wf_def media_bits by (simp add: media_pm_def demo_pm_def demo_metadata_def)
  show "\<not> pm_locked media_pm" using demo_unlocked by (simp add: media_pm_def)
qed

lemma media_lengths: "length (pm_in_use media_pm) = 128" "length (pm_deleted media_pm) = 128"
  by (simp_all add: media_pm_def bitmap_set_def Let_def)

lemma media_areas: "areas_ok 9 media_pm"
proof -
  have "rnd 4 512 = 512" using rnd_eq [of 9 4] by simp
  moreover have "unat (bits_per_uint8 (round32 2)) = 4" using round32_eq [of 2] by simp
  ultimately have len: "bitmap_media_len media_pm = 512"
    by (simp add: bitmap_media_len_def media_pm_def demo_pm_def demo_metadata_def pm_sector_size_def sim_device_def
        sim_caps_def del: unat_bits_per_uint8)
  have lay: "get_sect_bits (pm_layout media_pm) = 9" "get_inuse_bm_lba (pm_layout media_pm) = 1"
    "get_del_bm_lba (pm_layout media_pm) = 2" "get_pool_tags_lba (pm_layout media_pm) = 4096"
    by (simp_all add: media_pm_def demo_pm_def, code_simp+)
  show ?thesis
    unfolding areas_ok_def lay len media_max
    by (simp add: deleted_start_def tags_start_def)
      (simp add: media_pm_def pm_sector_size_def sim_device_def sim_caps_def NVM_KV_MAX_POOLS_def)
qed

lemma media_stored: "pools_stored 9 media_world media_pm"
proof -
  have at: "media_world 1 = Some (bitmap_bytes (pm_in_use media_pm))" "media_world 2 = Some (bitmap_bytes (pm_deleted media_pm))"
    "media_world 0 = Some (metadata_bytes (pm_md media_pm) @ zeros 448)"
    by (simp_all add: media_world_def)
  have whole: "mem_read 0 512 (bitmap_bytes bm) = bitmap_bytes bm" if "length bm = 128" for bm
    using that by (simp add: mem_read_def)
  have "deleted_start 9 media_pm = 2" by (simp add: deleted_start_def media_pm_def)
  moreover have "live_ids media_pm = {}" by (simp add: live_ids_def media_bits)
  ultimately show ?thesis
    using at by (simp add: pools_stored_def bitmap_on_def media_lengths whole)
qed

lemma media_batch: "batch_law sim_env (pm_device media_pm) (\<lambda>w. w)"
  using sim_laws by (simp add: dev_laws_def media_pm_def)

lemma media_creates:
  obtains i pm' w' where "create_pool sim_env (Some demo_tag) media_pm media_world = Some (Inr i, pm', w')"
proof (cases rule: create_pool_cases [OF media_wf media_unlocked, of "Some demo_tag" sim_env media_world])
  case (1 i)
  then show thesis using that by blast
next
  case 2
  then have "1 \<in> bm_bits (pm_in_use media_pm)" by (simp add: media_max)
  then show thesis by (simp add: media_bits)
next
  case (3 n)
  obtain w' where "persist_store_info sim_env (M_KVSTORE_METADATA OR M_KV_BM_INUSE OR M_KV_POOL_TAGS) (int n)
      (with_pool n (Some demo_tag) media_pm) media_world = Some (Inr (), w')"
    by (simp add: persist_store_info_def sim_env_def nvm_writev_def Let_def)
  then have "create_pool sim_env (Some demo_tag) media_pm media_world =
      Some (Inr (int n), snd (after_create n (Some demo_tag) (Inr ()) media_pm), w')"
    using 3(5) by (simp add: after_create_def create_pool_exit_def)
  then show thesis by (rule that)
qed

section \<open>Properties\<close>

text \<open>
  C18: the pool table on the device is always the pool table in memory. From a state where the metadata
  block, the two bitmaps and the tags of the live pools are on the device, any sequence of successful
  calls of the pool manager (creations, deletions of one or of all pools, removals of one or of several
  deleted pools), with writes of the rest of the store in between, leads to a state where they are again:
  the sectors a call writes are enough to keep all of the table on the device.
\<close>

theorem pool_table_stored:
  assumes "pm_wf pm" and "areas_ok k pm" and "batch_law E (pm_device pm) view" and "pools_stored k (view w) pm"
    and "(pm_media_step E view k)\<^sup>*\<^sup>* (pm, w) (pm', w')"
  shows "pools_stored k (view w') pm' \<and> areas_ok k pm' \<and> pm_wf pm'"
proof -
  have "pools_stored k (view w') pm' \<and> same_place pm pm' \<and> pm_wf pm'"
    using media_run_stored [OF assms(5)] assms(1-4) by simp
  then show ?thesis using assms(2) same_place_areas by blast
qed

theorem pool_table_stored_witness:
  "\<exists>i pm' w'. create_pool sim_env (Some demo_tag) media_pm media_world = Some (Inr i, pm', w') \<and>
     pools_stored 9 w' pm'"
proof -
  obtain i pm' w' where c: "create_pool sim_env (Some demo_tag) media_pm media_world = Some (Inr i, pm', w')"
    using media_creates by blast
  have "pm_media_step sim_env (\<lambda>w. w) 9 (media_pm, media_world) (pm', w')"
    by (rule media_create [OF demo_tag_ok media_unlocked c])
  then have "(pm_media_step sim_env (\<lambda>w. w) 9)\<^sup>*\<^sup>* (media_pm, media_world) (pm', w')" by (rule r_into_rtranclp)
  then show ?thesis
    using pool_table_stored [where view = "\<lambda>w. w", OF media_wf media_areas media_batch media_stored] c by blast
qed

end
