(* ===== verification/PoolPass.thy ===== *)
theory PoolPass
  imports DeleteSpec PoolMedia
begin

text \<open>
  A pass of the deletion thread over single pools, with the pool table: \<open>start_pool_delete\<close> of
  \<open>kv_pool_del_manager.cpp\<close> removes the keys of a pool and then its entry of the table, on the
  device as well. The pools of the pass are taken one by one; the invariant \<open>del_pass_inv\<close> says that
  the table is on the device and that what is ahead for the pools that are left has not changed.
\<close>

section \<open>What a deletion of keys keeps\<close>

text \<open>
  The device's iterator over an area: what is ahead depends on the area, the filter and the sectors from
  the start of the area on; the ranges lie there; and a call keeps the filter's mask.
\<close>

definition area_iter_law ::
  "'w nvm_env \<Rightarrow> nvm_kv_store_device \<Rightarrow> ('w \<Rightarrow> sectors) \<Rightarrow> ('w \<Rightarrow> nvm_logical_range_iter \<Rightarrow> nvm_block_range list) \<Rightarrow> bool" where
  "area_iter_law E dev view ahead \<longleftrightarrow>
     mapped_iter_law E dev view ahead \<and>
     (\<forall>w w' it it'. it_range_to_iterate it' = it_range_to_iterate it \<longrightarrow> it_filter_mask it' = it_filter_mask it \<longrightarrow>
        it_filter_pattern it' = it_filter_pattern it \<longrightarrow>
        (\<forall>x \<ge> unat (br_start_lba (it_range_to_iterate it)). view w' x = view w x) \<longrightarrow> ahead w' it' = ahead w it) \<and>
     (\<forall>w it. sectors_of (ahead w it) \<subseteq> {unat (br_start_lba (it_range_to_iterate it))..}) \<and>
     (\<forall>w it. it_filter_mask (snd (env_range_iter E (dev_handle dev) it w)) = it_filter_mask it)"

definition pd_same :: "nvm_kv_pool_del_mgr \<Rightarrow> nvm_kv_pool_del_mgr \<Rightarrow> bool" where
  "pd_same pd pd' \<longleftrightarrow>
     (\<exists>it. pd' = pd\<lparr>pd_iter := it\<rparr> \<and> it_filter_mask it = it_filter_mask (pd_iter pd) \<and>
        it_max_ranges it = it_max_ranges (pd_iter pd))"

lemma pd_same_dest:
  assumes "pd_same pd pd'"
  shows "pd_validate pd' = pd_validate pd" "pd_pools_to_delete pd' = pd_pools_to_delete pd"
    "pd_usr_data_start_lba pd' = pd_usr_data_start_lba pd" "pd_usr_data_max_lba pd' = pd_usr_data_max_lba pd"
    "it_filter_mask (pd_iter pd') = it_filter_mask (pd_iter pd)" "it_max_ranges (pd_iter pd') = it_max_ranges (pd_iter pd)"
  using assms by (auto simp: pd_same_def)

lemma pd_same_trans: "pd_same pd pd1 \<Longrightarrow> pd_same pd1 pd2 \<Longrightarrow> pd_same pd pd2"
  by (auto simp: pd_same_def)

lemma del_batch_keeps:
  "\<not> pd_validate (dr_pd d) \<Longrightarrow> del_batch E st pool_id rs d w = Some (r, d', w') \<Longrightarrow> dr_pd d' = dr_pd d"
proof (induction rs arbitrary: d w)
  case (Cons x rs)
  let ?ss = "get_sector_size st" and ?dev = "get_store_device st"
  let ?d = "d\<lparr>dr_iovec := dr_iovec d @ [trim_iov (br_start_lba x) (br_length x * ?ss)]\<rparr>"
  let ?b = "batch_delete E st (dr_iovec ?d) w"
  note dsk = del_skip_hash [OF Cons.prems(1)]
  have v: "\<not> pd_validate (dr_pd ?d)" using Cons.prems(1) by simp
  consider "pool_skip st pool_id x" | "\<not> pool_skip st pool_id x" "br_length x * ?ss > max_trim_size ?dev"
    | "\<not> pool_skip st pool_id x" "\<not> br_length x * ?ss > max_trim_size ?dev" "length (dr_iovec ?d) \<noteq> nvm_max_num_iovs (dev_caps ?dev)"
    | "\<not> pool_skip st pool_id x" "\<not> br_length x * ?ss > max_trim_size ?dev" "length (dr_iovec ?d) = nvm_max_num_iovs (dev_caps ?dev)"
    by blast
  then show ?case
  proof cases
    case 1
    then show ?thesis using Cons.IH [OF Cons.prems(1)] Cons.prems(2) by (simp add: dsk)
  next
    case 2
    then show ?thesis using Cons.prems(2) by (simp add: dsk)
  next
    case 3
    then have "del_batch E st pool_id rs ?d w = Some (r, d', w')" using Cons.prems(2) by (simp add: dsk Let_def)
    then show ?thesis using Cons.IH [OF v] by simp
  next
    case 4
    define b where "b = ?b"
    define d2 where "d2 = ?d\<lparr>dr_iovec := [], dr_ret := 0\<rparr>"
    have "del_batch E st pool_id (x # rs) d w =
        (case fst b of Inl e \<Rightarrow> Some (Inl e, ?d, snd b) | Inr _ \<Rightarrow> del_batch E st pool_id rs d2 (snd b))"
      using 4 by (simp add: dsk Let_def b_def d2_def split: sum.split)
    then have e: "(case fst b of Inl e \<Rightarrow> Some (Inl e, ?d, snd b) | Inr _ \<Rightarrow> del_batch E st pool_id rs d2 (snd b)) = Some (r, d', w')"
      using Cons.prems(2) by simp
    have d2: "\<not> pd_validate (dr_pd d2)" "dr_pd d2 = dr_pd d" using Cons.prems(1) by (simp_all add: d2_def)
    show ?thesis
    proof (cases "fst b")
      case (Inl x)
      then show ?thesis using e by auto
    next
      case (Inr u)
      then have "del_batch E st pool_id rs d2 (snd b) = Some (r, d', w')" using e by simp
      then show ?thesis using Cons.IH [OF d2(1)] d2(2) by simp
    qed
  qed
qed simp

lemma del_last_keeps: "dr_pd (fst (snd (del_last E st d w))) = dr_pd d"
  by (simp add: del_last_def split: prod.split)

lemma area_iter_dest:
  assumes "area_iter_law E dev view ahead"
  shows "mapped_iter_law E dev view ahead"
    "it_range_to_iterate it' = it_range_to_iterate it \<Longrightarrow> it_filter_mask it' = it_filter_mask it \<Longrightarrow>
     it_filter_pattern it' = it_filter_pattern it \<Longrightarrow>
     (\<And>x. unat (br_start_lba (it_range_to_iterate it)) \<le> x \<Longrightarrow> view w' x = view w x) \<Longrightarrow> ahead w' it' = ahead w it"
    "sectors_of (ahead w it) \<subseteq> {unat (br_start_lba (it_range_to_iterate it))..}"
    "it_filter_mask (snd (env_range_iter E (dev_handle dev) it w)) = it_filter_mask it"
  using assms unfolding area_iter_law_def by blast+

lemma iter_keeps_max:
  assumes "mapped_iter_law E dev view ahead"
  shows "it_max_ranges (snd (env_range_iter E (dev_handle dev) it w)) = it_max_ranges it"
proof -
  obtain n it' where q: "env_range_iter E (dev_handle dev) it w = (n, it')" by force
  have "it_max_ranges it' = it_max_ranges it"
    using assms q unfolding mapped_iter_law_def range_iter_law_def by (force simp: Let_def split: prod.splits)
  then show ?thesis by (simp add: q)
qed

lemma del_loop_keeps:
  assumes "del_loop E st pool_id d w = Some out"
  shows "area_iter_law E (get_store_device st) view ahead \<longrightarrow> \<not> pd_validate (dr_pd d) \<longrightarrow>
    pd_same (dr_pd d) (dr_pd (fst (snd out)))"
  using assms
proof (induction rule: del_loop.raw_induct [rotated, consumes 1,
      where P = "\<lambda>E st pool_id d w out. area_iter_law E (get_store_device st) view ahead \<longrightarrow> \<not> pd_validate (dr_pd d) \<longrightarrow>
        pd_same (dr_pd d) (dr_pd (fst (snd out)))", case_names loop])
  case (loop del_loop E st pool_id d w out)
  show ?case
  proof (intro impI)
    assume law: "area_iter_law E (get_store_device st) view ahead" and v: "\<not> pd_validate (dr_pd d)"
  define q where "q = env_range_iter E (dev_handle (get_store_device st)) (pd_iter (dr_pd d)) w"
  define d1 where "d1 = d\<lparr>dr_ret := fst q, dr_pd := (dr_pd d)\<lparr>pd_iter := snd q\<rparr>\<rparr>"
  have s1: "pd_same (dr_pd d) (dr_pd d1)"
    using area_iter_dest(4) [OF law] iter_keeps_max [OF area_iter_dest(1) [OF law]]
    by (auto simp: pd_same_def d1_def q_def)
  have v1: "\<not> pd_validate (dr_pd d1)" using v by (simp add: d1_def)
  let ?rs = "take (nat (fst q mod 2 ^ 32)) (it_ranges (snd q))"
  show "pd_same (dr_pd d) (dr_pd (fst (snd out)))"
  proof (cases "fst q = -1")
    case True
    then have "out = (Inl NVM_ERR_INTERNAL_FAILURE, d1, w)" using loop(2) by (simp add: Let_def q_def d1_def)
    then show ?thesis using s1 by simp
  next
    case False
    then have run: "Option.bind (del_batch E st pool_id ?rs d1 w) (\<lambda>b. case fst b of Inl e \<Rightarrow> Some b
        | Inr _ \<Rightarrow> if nat (fst q mod 2 ^ 32) < it_max_ranges (snd q) then Some (del_last E st (fst (snd b)) (snd (snd b)))
                   else del_loop E st pool_id (fst (snd b)) (snd (snd b))) = Some out"
      using loop(2) unfolding Let_def q_def [symmetric] d1_def [symmetric] by simp
    then obtain r d2 w2 where b: "del_batch E st pool_id ?rs d1 w = Some (r, d2, w2)" by (cases "del_batch E st pool_id ?rs d1 w") auto
    have d2: "dr_pd d2 = dr_pd d1" by (rule del_batch_keeps [OF v1 b])
    show ?thesis
    proof (cases r)
      case (Inl e)
      then show ?thesis using run b d2 s1 by auto
    next
      case (Inr u)
      show ?thesis
      proof (cases "nat (fst q mod 2 ^ 32) < it_max_ranges (snd q)")
        case True
        then show ?thesis using run b d2 s1 Inr del_last_keeps [of E st d2 w2] by auto
      next
        case False
        then have run2: "del_loop E st pool_id d2 w2 = Some out" using run b Inr by simp
        have "pd_same (dr_pd d2) (dr_pd (fst (snd out)))" using loop(1) [OF run2] law d2 v1 by simp
        then show ?thesis using pd_same_trans [OF s1] d2 by simp
      qed
    qed
  qed
  qed
qed

lemma del_pool_keys_area:
  assumes law: "area_iter_law E (get_store_device st) view ahead" and laws: "trim_laws E view st"
    and own: "\<not> pd_validate pd" and max: "0 < it_max_ranges (pd_iter pd)" "it_max_ranges (pd_iter pd) < 2 ^ 32"
    and iovs: "0 < nvm_max_num_iovs (dev_caps (get_store_device st))"
    and lens: "\<forall>r \<in> set (ahead w (del_iter st (int i) pd)).
       br_length r * get_sector_size st \<le> max_trim_size (get_store_device st)"
  obtains r pd' w' where "del_pool_keys E st (int i) garbage pd w = Some (r, pd', w')" "pd_same pd pd'"
    "r = Inr 0 \<or> r = Inl NVM_ERR_IO"
    "r = Inr 0 \<Longrightarrow> view w' = trim_set (view w) (sectors_of (ahead w (del_iter st (int i) pd)))"
proof -
  let ?it = "del_iter st (int i) pd"
  let ?d = "\<lparr>dr_iovec = [], dr_ret = 0, dr_found = garbage, dr_pd = pd\<lparr>pd_iter := ?it\<rparr>\<rparr>"
  note m = area_iter_dest(1) [OF law]
  have ap: "apart (ahead w ?it)" using m by (simp add: mapped_iter_law_def)
  have it: "it_max_ranges ?it = it_max_ranges (pd_iter pd)" "it_filter_mask ?it = it_filter_mask (pd_iter pd)"
    by (simp_all add: del_iter_def Let_def)
  have noskip: "\<not> pool_skip st (int i) x" for x by (simp add: pool_skip_def)
  obtain r d' w' where d: "del_loop E st (int i) ?d w = Some (r, d', w')" "loop_trimmed view w (ahead w ?it) r w'"
    "r = Inr () \<longrightarrow> dr_ret d' = 0"
    using del_loop_spec [OF m laws ap lens, where pool_id = "int i" and d = ?d and pend = "[]" and w = w and it = ?it] own max iovs ap noskip
    by (auto simp: it)
  have "pd_same (dr_pd ?d) (dr_pd d')" using del_loop_keeps [OF d(1), of view ahead] law own by simp
  then have same: "pd_same pd (dr_pd d')" using it by (auto simp: pd_same_def)
  have call: "del_pool_keys E st (int i) garbage pd w = Some (map_sum id (\<lambda>_. dr_ret d') r, dr_pd d', w')"
    using d(1) by (simp add: del_pool_keys_def)
  have "view w' = trim_set (view w) (sectors_of (ahead w ?it))" if "map_sum id (\<lambda>_. dr_ret d') r = Inr 0"
    using that d(2) by (cases r) (auto simp: loop_trimmed_def)
  moreover have "map_sum id (\<lambda>_. dr_ret d') r = Inr 0 \<or> map_sum id (\<lambda>_. dr_ret d') r = Inl NVM_ERR_IO"
    using d(2,3) by (cases r) (auto simp: loop_trimmed_def)
  ultimately show thesis using that call same by blast
qed

text \<open>A write of metadata and bitmaps stays before the tags.\<close>

lemma persist_before_tags:
  assumes a: "areas_ok k pm" and idx: "idx_ok idx pm" and batch: "batch_law E (pm_device pm) view"
    and ok: "persist_store_info E type idx pm w = Some (Inr (), w')" and no_tags: "type AND M_KV_POOL_TAGS = 0"
    and x: "tags_start k \<le> x"
  shows "view w' x = view w x"
proof -
  note r = persist_ranges [OF a idx] and b = media_len_bounds(2) [OF a]
  have "view w' = foldl (apply_iov (2 ^ k)) (view w) (persist_iovs type idx pm)"
    using persist_view [OF a idx batch ok] no_tags by simp
  moreover have "x \<notin> iov_range (2 ^ k) iov" if "iov \<in> set (persist_iovs type idx pm)" for iov
  proof -
    have "0 < tags_start k" by (simp add: tags_start_def)
    then have "x \<noteq> 0" "x \<notin> {1..<deleted_start k pm}" "x \<notin> {deleted_start k pm..<tags_start k}" using x b by auto
    then show ?thesis using that no_tags r(1-4,6) by (auto simp: persist_iovs_def split: if_splits)
  qed
  ultimately show ?thesis using foldl_apply_iov_outside [of "persist_iovs type idx pm" x "2 ^ k" "view w"] by simp
qed

lemma clear_one_total:
  assumes "\<not> pm_locked pm"
  obtains r pm' w' where "clear_pool_bitmap E i pm w = Some (r, pm', w')"
    "r \<in> {Inr (), Inl NVM_ERR_IO, Inl NVM_ERR_OUT_OF_MEMORY}"
proof -
  let ?type = "M_KVSTORE_METADATA OR M_KV_BM_DELETED OR M_KV_BM_INUSE :: u32"
  have "\<exists>r w'. persist_store_info E ?type idx p w = Some (r, w') \<and> r \<in> {Inr (), Inl NVM_ERR_IO, Inl NVM_ERR_OUT_OF_MEMORY}" for idx p
    by (auto simp: persist_store_info_def nvm_writev_def pm_flags Let_def split: option.split prod.split sum.split)
  then show thesis using that assms
    by (metis (no_types, lifting) clear_pool_bitmap_def option.case(2) case_prod_conv)
qed

section \<open>A pass over the pools in deletion\<close>

lemma clear_one_step:
  assumes wf: "pm_wf pm" and n: "n < pm_max_pools pm" and del: "n \<in> bm_bits (pm_deleted pm)"
    and a: "areas_ok k pm" and batch: "batch_law E (pm_device pm) view" and st: "pools_stored k (view w) pm"
    and ok: "clear_pool_bitmap E (of_nat n) pm w = Some (Inr (), pm', w')"
  shows "pm_wf pm'" "\<not> pm_locked pm'" "pool_view pm' = (pool_view pm)(n := None)"
    "bm_bits (pm_deleted pm') = bm_bits (pm_deleted pm) - {n}"
    "pools_stored k (view w') pm'" "same_place pm pm'" "tags_start k \<le> x \<Longrightarrow> view w' x = view w x"
proof -
  have sh: "pm_shape pm" using wf by (simp add: pm_wf_def)
  note id = pm_id_word [OF sh n]
  have word: "word_of_int (uint (of_nat n :: u32)) = (of_nat n :: u32)" by simp
  have "bitmap_test (pm_deleted pm) (of_nat n) \<noteq> 0" "bitmap_test (pm_in_use pm) (of_nat n) \<noteq> 0"
    using pm_test [OF sh n] del sh by (auto simp: pm_shape_def)
  moreover have "sm_max_pools (pm_md pm) \<noteq> 0" using n by (auto simp: pm_max_pools_def)
  ultimately have dying: "pool_in_del (uint (of_nat n :: u32)) pm" unfolding pool_in_del_def word by simp
  have n': "unat (of_nat n :: u32) < pm_max_pools pm" using id(1) n by simp
  note r = clear_one_refines [OF wf dying n' ok]
  show "pm_wf pm'" "\<not> pm_locked pm'" using remove_pools_wf(1) [OF wf _ r(1)] r(2,3) by simp_all
  show "pool_view pm' = (pool_view pm)(n := None)"
    using remove_pools_wf(2) [OF wf _ r(1)] r(3) id(1) by (simp add: fun_eq_iff)
  show "bm_bits (pm_deleted pm') = bm_bits (pm_deleted pm) - {n}" using r(1) id(1) by (simp add: remove_pools_def)
  have s: "pools_stored k (view w') pm' \<and> same_place pm pm'"
    by (rule stored_clear_one [where view = view and w = w, OF wf dying n' a batch st ok])
  then show "pools_stored k (view w') pm'" "same_place pm pm'" by simp_all
  have "n < 2 ^ 20" using n sh by (simp add: pm_shape_def NVM_KV_MAX_POOLS_def)
  then have sint: "sint (of_nat n :: u32) = int n"
    by (simp add: signed_of_nat signed_take_bit_int_eq_self)
  have p: "persist_store_info E (M_KVSTORE_METADATA OR M_KV_BM_DELETED OR M_KV_BM_INUSE) (int n) pm' w = Some (Inr (), w')"
    using ok sint by (auto simp: clear_pool_bitmap_def Let_def split: if_splits option.splits prod.splits)
  have a': "areas_ok k pm'" using a s same_place_areas by blast
  have b': "batch_law E (pm_device pm') view" using batch s by (simp add: same_place_def)
  have idx: "idx_ok (int n) pm'" using n r(1) by (simp add: idx_ok_def remove_pools_def)
  show "view w' x = view w x" if "tags_start k \<le> x"
    by (rule persist_before_tags [where view = view and w = w, OF a' idx b' p _ that]) (simp add: pm_flags)
qed

lemma del_iter_same:
  assumes "pd_same pd0 pd" and "same_place (st_pm st0) (st_pm st)"
  shows "it_range_to_iterate (del_iter st (int i) pd) = it_range_to_iterate (del_iter st0 (int i) pd0)"
    "it_filter_mask (del_iter st (int i) pd) = it_filter_mask (del_iter st0 (int i) pd0)"
    "it_filter_pattern (del_iter st (int i) pd) = it_filter_pattern (del_iter st0 (int i) pd0)"
proof -
  have "get_poolid_hash (st_pm st) = get_poolid_hash (st_pm st0)"
    using assms(2) same_place_md(1) [OF assms(2)] by (simp add: fun_eq_iff get_poolid_hash_def same_place_def Let_def)
  then show "it_range_to_iterate (del_iter st (int i) pd) = it_range_to_iterate (del_iter st0 (int i) pd0)"
    "it_filter_mask (del_iter st (int i) pd) = it_filter_mask (del_iter st0 (int i) pd0)"
    "it_filter_pattern (del_iter st (int i) pd) = it_filter_pattern (del_iter st0 (int i) pd0)"
    using pd_same_dest [OF assms(1)] by (simp_all add: del_iter_def Let_def)
qed

definition del_pass_laws ::
  "'w nvm_env \<Rightarrow> nat \<Rightarrow> ('w \<Rightarrow> sectors) \<Rightarrow> ('w \<Rightarrow> nvm_logical_range_iter \<Rightarrow> nvm_block_range list) \<Rightarrow>
   nvm_kv_store_device \<Rightarrow> nvm_kv_pool_del_mgr \<Rightarrow> bool" where
  "del_pass_laws E k view ahead dev pd \<longleftrightarrow>
     area_iter_law E dev view ahead \<and> batch_law E dev view \<and> status_law E dev \<and> 0 < nvm_max_num_iovs (dev_caps dev) \<and>
     nvm_sector_size (dev_caps dev) = 2 ^ k \<and>
     \<not> pd_validate pd \<and> 0 < it_max_ranges (pd_iter pd) \<and> it_max_ranges (pd_iter pd) < 2 ^ 32"

text \<open>The state of a pass: the table is on the device and the deleted pools have the ranges \<open>R\<close> ahead.\<close>

definition del_pass_inv ::
  "nat \<Rightarrow> ('w \<Rightarrow> sectors) \<Rightarrow> ('w \<Rightarrow> nvm_logical_range_iter \<Rightarrow> nvm_block_range list) \<Rightarrow> (nat \<Rightarrow> nvm_block_range list) \<Rightarrow>
   nvm_kv_store \<Rightarrow> nvm_kv_pool_del_mgr \<Rightarrow> nat set \<Rightarrow> nvm_kv_store \<Rightarrow> nvm_kv_pool_del_mgr \<Rightarrow> 'w \<Rightarrow> bool" where
  "del_pass_inv k view ahead R st0 pd0 B st pd w \<longleftrightarrow>
     pm_wf (st_pm st) \<and> \<not> pm_locked (st_pm st) \<and> areas_ok k (st_pm st) \<and> pools_stored k (view w) (st_pm st) \<and>
     same_place (st_pm st0) (st_pm st) \<and> pd_same pd0 pd \<and> B \<subseteq> bm_bits (pm_deleted (st_pm st)) \<and>
     (\<forall>i \<in> B. ahead w (del_iter st (int i) pd) = R i)"

lemma del_pass_step:
  assumes laws: "del_pass_laws E k view ahead (get_store_device st0) pd0"
    and inv: "del_pass_inv k view ahead R st0 pd0 B st pd w" and i: "i \<in> B"
    and high: "pool_table_end k (st_pm st0) \<le> unat (pd_usr_data_start_lba pd0)"
    and apart: "\<forall>j \<in> B. j \<noteq> i \<longrightarrow> sectors_of (R i) \<inter> sectors_of (R j) = {}"
    and keys: "pd_same pd pd1" "view w1 = trim_set (view w) (sectors_of (R i))"
    and clear: "clear_pool_bitmap E (of_nat i) (st_pm st) w1 = Some (Inr (), pm, w2)"
  shows "del_pass_inv k view ahead R st0 pd0 (B - {i}) (set_pm pm st) pd1 w2"
    "pool_view pm = (pool_view (st_pm st))(i := None)"
    "unat (pd_usr_data_start_lba pd0) \<le> x \<Longrightarrow> view w2 x = (if x \<in> sectors_of (R i) then None else view w x)"
proof -
  let ?start = "unat (pd_usr_data_start_lba pd0)"
  have l: "area_iter_law E (get_store_device st0) view ahead" "batch_law E (get_store_device st0) view"
    using laws by (simp_all add: del_pass_laws_def)
  have v: "pm_wf (st_pm st)" "areas_ok k (st_pm st)" "pools_stored k (view w) (st_pm st)"
    "same_place (st_pm st0) (st_pm st)" "pd_same pd0 pd" "B \<subseteq> bm_bits (pm_deleted (st_pm st))"
    "\<forall>j \<in> B. ahead w (del_iter st (int j) pd) = R j"
    using inv by (simp_all add: del_pass_inv_def)
  have sh: "pm_shape (st_pm st)" using v(1) by (simp add: pm_wf_def)
  have del: "i \<in> bm_bits (pm_deleted (st_pm st))" using v(6) i by blast
  then have n: "i < pm_max_pools (st_pm st)" using sh by (auto simp: pm_shape_def)
  have max: "pm_max_pools (st_pm st) = pm_max_pools (st_pm st0)"
    using same_place_md(1) [OF v(4)] by (simp add: pm_max_pools_def)
  have batch: "batch_law E (pm_device (st_pm st)) view" using l(2) v(4) by (simp add: get_store_device_def same_place_def)
  have range: "br_start_lba (it_range_to_iterate (del_iter st (int j) pd)) = pd_usr_data_start_lba pd0" for j
    using pd_same_dest [OF v(5)] by (simp add: del_iter_def Let_def)
  have above: "x \<in> sectors_of (R i) \<Longrightarrow> ?start \<le> x" for x
    using area_iter_dest(3) [OF l(1), of w "del_iter st (int i) pd"] v(7) i range [of i] by auto
  have low: "\<forall>x < pool_table_end k (st_pm st). view w1 x = view w x"
  proof (intro allI impI)
    fix x assume "x < pool_table_end k (st_pm st)"
    then have "x < ?start" using high max by (simp add: pool_table_end_def)
    then have "x \<notin> sectors_of (R i)" using above by fastforce
    then show "view w1 x = view w x" by (simp add: keys(2) trim_set_def)
  qed
  have st1: "pools_stored k (view w1) (st_pm st)" by (rule stored_other [OF sh v(2,3) low])
  note c = clear_one_step [where view = view and w = w1, OF v(1) n del v(2) batch st1 clear]
  have tags: "tags_start k \<le> ?start" using high by (simp add: pool_table_end_def)
  show out: "view w2 x = (if x \<in> sectors_of (R i) then None else view w x)" if "?start \<le> x" for x
    using c(7) [of x] that tags by (simp add: keys(2) trim_set_def)
  show "pool_view pm = (pool_view (st_pm st))(i := None)" by (rule c(3))
  have place: "same_place (st_pm st0) pm" by (rule same_place_trans [OF v(4) c(6)])
  have rest: "ahead w2 (del_iter (set_pm pm st) (int j) pd1) = R j" if j: "j \<in> B - {i}" for j
  proof -
    let ?it = "del_iter st (int j) pd"
    have "sectors_of (R i) \<inter> sectors_of (ahead w ?it) = {}" using apart v(7) j by auto
    then have 1: "ahead w1 ?it = R j" using ahead_stable [OF area_iter_dest(1) [OF l(1)] keys(2)] v(7) j by auto
    have same: "same_place (st_pm st) (st_pm (set_pm pm st))" using c(6) by (simp add: set_pm_def)
    have "ahead w2 (del_iter (set_pm pm st) (int j) pd1) = ahead w1 ?it"
    proof (rule area_iter_dest(2) [OF l(1) del_iter_same [OF keys(1) same]])
      fix x assume "unat (br_start_lba (it_range_to_iterate ?it)) \<le> x"
      then have "tags_start k \<le> x" using tags range [of j] by simp
      then show "view w2 x = view w1 x" by (rule c(7))
    qed
    then show ?thesis using 1 by simp
  qed
  have "B - {i} \<subseteq> bm_bits (pm_deleted pm)" using v(6) c(4) by auto
  then show "del_pass_inv k view ahead R st0 pd0 (B - {i}) (set_pm pm st) pd1 w2"
    using c(1,2,5) place rest pd_same_trans [OF v(5) keys(1)] same_place_areas [OF c(6)] v(2)
    by (simp add: del_pass_inv_def set_pm_def)
qed

lemma del_pools_pass:
  assumes laws: "del_pass_laws E k view ahead (get_store_device st0) pd0"
    and high: "pool_table_end k (st_pm st0) \<le> unat (pd_usr_data_start_lba pd0)"
    and lens: "\<forall>i. \<forall>r \<in> set (R i). br_length r * 2 ^ k \<le> max_trim_size (get_store_device st0)"
    and disj: "\<forall>i j. i \<noteq> j \<longrightarrow> sectors_of (R i) \<inter> sectors_of (R j) = {}"
  shows "distinct ids \<Longrightarrow> B = {i \<in> set ids. bitmap_test (pd_pools_to_delete pd0) (of_nat i) \<noteq> 0} \<Longrightarrow>
    del_pass_inv k view ahead R st0 pd0 B st pd w \<Longrightarrow>
    \<exists>r st' pd' w'. del_pools E garbage ids st pd w = Some (r, st', pd', w') \<and>
      r \<in> {Inr 0, Inl NVM_ERR_IO, Inl NVM_ERR_OUT_OF_MEMORY} \<and>
      (r = Inr 0 \<longrightarrow> del_pass_inv k view ahead R st0 pd0 {} st' pd' w' \<and> (\<exists>pm. st' = set_pm pm st) \<and>
         pool_view (st_pm st') = (\<lambda>n. if n \<in> B then None else pool_view (st_pm st) n) \<and>
         (\<forall>x \<ge> unat (pd_usr_data_start_lba pd0). view w' x = (if \<exists>i \<in> B. x \<in> sectors_of (R i) then None else view w x)))"
proof (induction ids arbitrary: B st pd w)
  case Nil
  have "st = set_pm (st_pm st) st" by (simp add: set_pm_def)
  then show ?case using Nil by fastforce
next
  case (Cons i ids)
  have same: "pd_same pd0 pd" and place: "same_place (st_pm st0) (st_pm st)" and un: "\<not> pm_locked (st_pm st)"
    using Cons.prems(3) by (simp_all add: del_pass_inv_def)
  note pd = pd_same_dest [OF same]
  show ?case
  proof (cases "i \<in> B")
    case False
    then have off: "bitmap_test (pd_pools_to_delete pd) (of_nat i) = 0" using Cons.prems(2) pd(2) by auto
    have "B = {i \<in> set ids. bitmap_test (pd_pools_to_delete pd0) (of_nat i) \<noteq> 0}" using False Cons.prems(2) by auto
    then show ?thesis using Cons.IH [OF _ _ Cons.prems(3)] Cons.prems(1) off by simp
  next
    case True
    then have on: "bitmap_test (pd_pools_to_delete pd) (of_nat i) \<noteq> 0" using Cons.prems(2) pd(2) by auto
    have dev: "get_store_device st = get_store_device st0" using place by (simp add: get_store_device_def same_place_def)
    have l: "area_iter_law E (get_store_device st) view ahead" "trim_laws E view st" "\<not> pd_validate pd"
      "0 < it_max_ranges (pd_iter pd)" "it_max_ranges (pd_iter pd) < 2 ^ 32" "0 < nvm_max_num_iovs (dev_caps (get_store_device st))"
      "get_sector_size st = 2 ^ k"
      using laws pd dev by (simp_all add: del_pass_laws_def trim_laws_def get_sector_size_def)
    have R: "ahead w (del_iter st (int i) pd) = R i" using Cons.prems(3) True by (simp add: del_pass_inv_def)
    have "\<forall>r \<in> set (ahead w (del_iter st (int i) pd)). br_length r * get_sector_size st \<le> max_trim_size (get_store_device st)"
      using lens R l(7) dev by simp
    then obtain r1 pd1 w1 where k1: "del_pool_keys E st (int i) garbage pd w = Some (r1, pd1, w1)" "pd_same pd pd1"
      "r1 = Inr 0 \<or> r1 = Inl NVM_ERR_IO"
      "r1 = Inr 0 \<Longrightarrow> view w1 = trim_set (view w) (sectors_of (R i))"
      using del_pool_keys_area [OF l(1-6), of w i] R by metis
    obtain r2 pm w2 where k2: "clear_pool_bitmap E (of_nat i) (st_pm st) w1 = Some (r2, pm, w2)"
      "r2 \<in> {Inr (), Inl NVM_ERR_IO, Inl NVM_ERR_OUT_OF_MEMORY}"
      by (rule clear_one_total [OF un])
    show ?thesis
    proof (cases "r1 = Inr 0 \<and> r2 = Inr ()")
      case False
      then show ?thesis using on k1(1,3) k2 by (auto simp: as_ret_def)
    next
      case ok: True
      then have k2': "clear_pool_bitmap E (of_nat i) (st_pm st) w1 = Some (Inr (), pm, w2)" using k2(1) by simp
      have k1': "view w1 = trim_set (view w) (sectors_of (R i))" using k1(4) ok by simp
      have ap: "\<forall>j \<in> B. j \<noteq> i \<longrightarrow> sectors_of (R i) \<inter> sectors_of (R j) = {}" using disj by auto
      note s = del_pass_step [OF laws Cons.prems(3) True high ap k1(2) k1' k2']
      have dist: "distinct ids" using Cons.prems(1) by simp
      have B': "B - {i} = {i \<in> set ids. bitmap_test (pd_pools_to_delete pd0) (of_nat i) \<noteq> 0}"
        using Cons.prems(1,2) by auto
      obtain r st' pd' w' where run: "del_pools E garbage ids (set_pm pm st) pd1 w2 = Some (r, st', pd', w')"
        and codes: "r \<in> {Inr 0, Inl NVM_ERR_IO, Inl NVM_ERR_OUT_OF_MEMORY}"
        and post: "r = Inr 0 \<longrightarrow> del_pass_inv k view ahead R st0 pd0 {} st' pd' w' \<and> (\<exists>p. st' = set_pm p (set_pm pm st)) \<and>
         pool_view (st_pm st') = (\<lambda>n. if n \<in> B - {i} then None else pool_view (st_pm (set_pm pm st)) n) \<and>
         (\<forall>x \<ge> unat (pd_usr_data_start_lba pd0). view w' x = (if \<exists>j \<in> B - {i}. x \<in> sectors_of (R j) then None else view w2 x))"
        using Cons.IH [OF dist B' s(1)] by blast
      have call: "del_pools E garbage (i # ids) st pd w = Some (r, st', pd', w')"
        using on k1(1) k2(1) ok run by simp
      have "pool_view (st_pm st') = (\<lambda>n. if n \<in> B then None else pool_view (st_pm st) n)" if "r = Inr 0"
        using post that s(2) True by (auto simp: set_pm_def fun_eq_iff)
      moreover have "\<exists>p. st' = set_pm p st" if "r = Inr 0" using post that by (auto simp: set_pm_def)
      moreover have "view w' x = (if \<exists>j \<in> B. x \<in> sectors_of (R j) then None else view w x)"
        if "r = Inr 0" "unat (pd_usr_data_start_lba pd0) \<le> x" for x
        using post that s(3) [OF that(2)] True by auto
      ultimately show ?thesis unfolding call using post codes by (intro exI [of _ r] exI [of _ st'] exI [of _ pd'] exI [of _ w']) simp
    qed
  qed
qed

section \<open>A pass on a simulated device\<close>

lemma sim_area_law: "area_iter_law sim_iter_env dev (\<lambda>w. w) sim_ahead"
  unfolding area_iter_law_def
proof (intro conjI allI impI sim_mapped_law)
  fix w w' :: sectors and it it' :: nvm_logical_range_iter
  assume same: "it_range_to_iterate it' = it_range_to_iterate it" "it_filter_mask it' = it_filter_mask it"
    "it_filter_pattern it' = it_filter_pattern it"
    and view: "\<forall>x \<ge> unat (br_start_lba (it_range_to_iterate it)). w' x = w x"
  have e: "sim_range_end it' = sim_range_end it" using same(1) by (simp add: sim_range_end_def)
  have "sim_sectors w' it' = sim_sectors w it"
    unfolding sim_sectors_def e same(1) using same(2,3) view
    by (intro filter_cong) (simp_all add: sim_selects_def)
  then show "sim_ahead w' it' = sim_ahead w it" by (simp add: sim_ahead_def)
next
  show "sectors_of (sim_ahead w it) \<subseteq> {unat (br_start_lba (it_range_to_iterate it))..}" for w it
    unfolding sim_ahead_sectors by (auto simp: sim_sectors_def)
  show "it_filter_mask (snd (env_range_iter sim_iter_env (dev_handle dev) it w)) = it_filter_mask it" for w it
    by (simp add: sim_iter_env_def sim_range_iter_def Let_def)
qed

definition dying_pm :: nvm_kv_pool_mgr where
  "dying_pm = media_pm\<lparr>pm_in_use := bitmap_set (pm_in_use media_pm) 1, pm_deleted := bitmap_set (pm_deleted media_pm) 1,
     pm_md := (pm_md media_pm)\<lparr>sm_total_no_pools := 2\<rparr>\<rparr>"

definition dying_store :: nvm_kv_store where
  "dying_store = set_pm dying_pm sim_store"

definition dying_world :: sectors where
  "dying_world = (\<lambda>n. if n = 0 then Some (metadata_bytes (pm_md dying_pm) @ zeros 448)
     else if n = 1 then Some (bitmap_bytes (pm_in_use dying_pm))
     else if n = 2 then Some (bitmap_bytes (pm_deleted dying_pm))
     else if n \<in> {20480, 20481} then Some (zeros 512) else None)"

lemma dying_lengths: "length (pm_in_use dying_pm) = 128" "length (pm_deleted dying_pm) = 128"
  by (simp_all add: dying_pm_def media_lengths bitmap_set_def Let_def)

lemma dying_bits: "bm_bits (pm_in_use dying_pm) = {0, 1}" "bm_bits (pm_deleted dying_pm) = {1}"
  using bm_bits_set [of 1 "pm_in_use media_pm"] bm_bits_set [of 1 "pm_deleted media_pm"]
  by (auto simp: dying_pm_def media_bits media_lengths bm_nbits_def)

lemma dying_max: "pm_max_pools dying_pm = 2"
  using media_max by (simp add: dying_pm_def pm_max_pools_def)

lemma dying_same:
  "pm_device dying_pm = sim_device" "pm_layout dying_pm = demo_layout" "pm_tags_map dying_pm = (\<lambda>t. None)"
  "pm_bm_len dying_pm = 512" "pm_tags dying_pm = zeros 32" "pm_locked dying_pm = False" "pm_tag_size dying_pm = 32"
  by (simp_all add: dying_pm_def media_pm_def demo_pm_def)

lemma dying_wf: "pm_wf dying_pm"
proof -
  have "pm_shape dying_pm" using media_wf
    unfolding pm_wf_def pm_shape_def dying_bits dying_max media_max
    by (simp add: bm_nbits_def dying_lengths dying_same media_lengths) (simp add: media_pm_def demo_pm_def)
  moreover have "tags_map_ok dying_pm"
    unfolding tags_map_ok_def dying_bits dying_same by auto
  ultimately show ?thesis unfolding pm_wf_def dying_bits by (simp add: dying_pm_def)
qed

lemma dying_areas: "areas_ok 9 dying_pm"
proof -
  have "same_place media_pm dying_pm"
    by (simp add: same_place_def dying_pm_def media_pm_def demo_pm_def)
  then show ?thesis using media_areas same_place_areas by blast
qed

lemma dying_stored: "pools_stored 9 dying_world dying_pm"
proof -
  have at: "dying_world 1 = Some (bitmap_bytes (pm_in_use dying_pm))" "dying_world 2 = Some (bitmap_bytes (pm_deleted dying_pm))"
    "dying_world 0 = Some (metadata_bytes (pm_md dying_pm) @ zeros 448)"
    by (simp_all add: dying_world_def)
  have whole: "mem_read 0 512 (bitmap_bytes bm) = bitmap_bytes bm" if "length bm = 128" for bm
    using that by (simp add: mem_read_def)
  have "deleted_start 9 dying_pm = 2" by (simp add: deleted_start_def dying_same)
  moreover have "live_ids dying_pm = {}" by (auto simp: live_ids_def dying_bits)
  ultimately show ?thesis
    using at by (simp add: pools_stored_def bitmap_on_def dying_lengths whole)
qed

lemma dying_hash: "get_poolid_hash dying_pm 1 = 1"
proof -
  have "pm_layout dying_pm = pm_layout (st_pm sim_store)" "pm_hash dying_pm = pm_hash (st_pm sim_store)"
    "sm_max_pools (pm_md dying_pm) = sm_max_pools (pm_md (st_pm sim_store))"
    by (simp_all add: dying_pm_def media_pm_def sim_store_def sim_pm_def)
  then have "get_poolid_hash dying_pm = get_poolid_hash (st_pm sim_store)"
    by (simp add: fun_eq_iff get_poolid_hash_def cong: if_cong)
  moreover have "get_poolid_hash (st_pm sim_store) 1 = 1" by (simp add: get_poolid_hash_def sim_store_defs sim_layout Let_def)
  ultimately show ?thesis by simp
qed

section \<open>Property\<close>

text \<open>The pools that a pass deletes: the identifiers below the number of pools that are in the bitmap of the round.\<close>

definition pools_in_round :: "nvm_kv_store \<Rightarrow> nvm_kv_pool_del_mgr \<Rightarrow> nat set" where
  "pools_in_round st pd =
     {i \<in> {1..<pm_max_pools (st_pm st)}. bitmap_test (pd_pools_to_delete pd) (of_nat i) \<noteq> 0}"

text \<open>
  C12: a pass of the deletion thread over single pools deletes those pools and nothing else, on a store with
  no more pools than the pool bits give, whose pool ids are their own hash and are not checked on the media. The pools
  of the round are in deletion, the pool table is on the device, and the ranges the device reports for
  them are apart, above the table and no longer than the largest trim. The call returns. On success these
  pools, and no others, have left the table in memory, the table on the device is the table in memory
  again, and of the sectors of the user data exactly those of the pools' ranges are unmapped. An error is
  an I/O error or a failed allocation.
\<close>

theorem pool_deletion_pass:
  fixes st :: nvm_kv_store and pd :: nvm_kv_pool_del_mgr and w :: 'w and ahead :: "'w \<Rightarrow> nvm_logical_range_iter \<Rightarrow> nvm_block_range list"
  defines "D \<equiv> pools_in_round st pd" and "rs \<equiv> \<lambda>i. ahead w (del_iter st (int i) pd)"
  assumes laws: "del_pass_laws E k view ahead (get_store_device st) pd"
    and table: "pm_wf (st_pm st)" "\<not> pm_locked (st_pm st)" "areas_ok k (st_pm st)" "pools_stored k (view w) (st_pm st)"
    and dying: "D \<subseteq> bm_bits (pm_deleted (st_pm st))"
    and high: "pool_table_end k (st_pm st) \<le> unat (pd_usr_data_start_lba pd)"
    and lens: "\<forall>i \<in> D. \<forall>r \<in> set (rs i). br_length r * 2 ^ k \<le> max_trim_size (get_store_device st)"
    and disj: "\<forall>i \<in> D. \<forall>j \<in> D. i \<noteq> j \<longrightarrow> sectors_of (rs i) \<inter> sectors_of (rs j) = {}"
  shows "\<exists>r st' pd' w'. start_pool_delete E garbage False st pd w = Some (r, st', pd', w') \<and>
    (case r of
       Inl e \<Rightarrow> e \<in> {NVM_ERR_IO, NVM_ERR_OUT_OF_MEMORY}
     | Inr n \<Rightarrow> n = 0 \<and> (\<exists>pm. st' = set_pm pm st) \<and> pm_wf (st_pm st') \<and> \<not> pm_locked (st_pm st') \<and>
         pool_view (st_pm st') = (\<lambda>i. if i \<in> D then None else pool_view (st_pm st) i) \<and>
         pools_stored k (view w') (st_pm st') \<and>
         (\<forall>x \<ge> unat (pd_usr_data_start_lba pd).
            view w' x = (if \<exists>i \<in> D. x \<in> sectors_of (rs i) then None else view w x)))"
proof -
  define R where "R = (\<lambda>i. if i \<in> D then rs i else [])"
  have l: "\<forall>i. \<forall>r \<in> set (R i). br_length r * 2 ^ k \<le> max_trim_size (get_store_device st)" using lens by (auto simp: R_def)
  have a: "\<forall>i j. i \<noteq> j \<longrightarrow> sectors_of (R i) \<inter> sectors_of (R j) = {}"
    using disj by (auto simp: R_def sectors_of_def)
  let ?ids = "[1..<unat (sm_max_pools (get_store_metadata st))]"
  have ids: "D = {i \<in> set ?ids. bitmap_test (pd_pools_to_delete pd) (of_nat i) \<noteq> 0}"
    by (simp add: D_def pools_in_round_def pm_max_pools_def get_store_metadata_def)
  have "same_place (st_pm st) (st_pm st)" by (simp add: same_place_def)
  moreover have "pd_same pd pd" unfolding pd_same_def by (intro exI [of _ "pd_iter pd"]) simp
  ultimately have inv: "del_pass_inv k view ahead R st pd D st pd w"
    using table dying by (simp add: del_pass_inv_def R_def rs_def)
  have ur: "(\<exists>i \<in> D. x \<in> sectors_of (R i)) \<longleftrightarrow> (\<exists>i \<in> D. x \<in> sectors_of (rs i))" for x by (simp add: R_def)
  obtain r st' pd' w' where run: "del_pools E garbage ?ids st pd w = Some (r, st', pd', w')"
    and codes: "r \<in> {Inr 0, Inl NVM_ERR_IO, Inl NVM_ERR_OUT_OF_MEMORY}"
    and post: "r = Inr 0 \<longrightarrow> del_pass_inv k view ahead R st pd {} st' pd' w' \<and> (\<exists>pm. st' = set_pm pm st) \<and>
         pool_view (st_pm st') = (\<lambda>n. if n \<in> D then None else pool_view (st_pm st) n) \<and>
         (\<forall>x \<ge> unat (pd_usr_data_start_lba pd). view w' x = (if \<exists>i \<in> D. x \<in> sectors_of (R i) then None else view w x))"
    using del_pools_pass [OF laws high l a distinct_upt ids inv] by blast
  show ?thesis
    using run codes post unfolding ur
    by (intro exI [of _ r] exI [of _ st'] exI [of _ pd'] exI [of _ w']) (auto simp: start_pool_delete_def del_pass_inv_def)
qed

theorem pool_deletion_pass_witness:
  "\<exists>r st' pd' w'. start_pool_delete sim_iter_env 0 False dying_store sim_pool_del dying_world = Some (r, st', pd', w') \<and>
     (case r of
        Inl e \<Rightarrow> e \<in> {NVM_ERR_IO, NVM_ERR_OUT_OF_MEMORY}
      | Inr n \<Rightarrow> pool_view (st_pm st') 1 = None \<and> w' 20481 = None \<and> w' 20480 = Some (zeros 512))"
proof -
  have pm: "st_pm dying_store = dying_pm" and dev: "get_store_device dying_store = sim_device"
    by (simp_all add: dying_store_def set_pm_def get_store_device_def dying_same)
  have D: "pools_in_round dying_store sim_pool_del = {1}"
  proof -
    have on: "bitmap_test [2] (of_nat 1) \<noteq> 0" by code_simp
    have "i \<in> {1..<pm_max_pools dying_pm} \<longleftrightarrow> i = 1" for i using dying_max by auto
    then have "pools_in_round dying_store sim_pool_del = {i. i = 1 \<and> bitmap_test [2] (of_nat i) \<noteq> 0}"
      unfolding pools_in_round_def pm by (simp add: sim_pool_del_def)
    then show ?thesis using on by blast
  qed
  let ?it = "del_iter dying_store 1 sim_pool_del"
  have h: "get_poolid_hash dying_pm 1 = 1" by (rule dying_hash)
  have it: "it_filter_mask ?it = 2047" "it_filter_pattern ?it = 1" "sim_range_end ?it = 281474976710656"
    "unat (br_start_lba (it_range_to_iterate ?it)) = 8192"
    by (simp_all add: del_iter_def sim_pool_del_def Let_def pm h raw_iter_def sim_range_end_def)
  have sel: "sim_selects dying_world ?it i \<longleftrightarrow> i = 20481" if "8192 \<le> i" for i
  proof (cases "i = 20481 \<or> i = 20480")
    case True
    then show ?thesis by (auto simp: sim_selects_def it dying_world_def)
  next
    case False
    then show ?thesis using that by (simp add: sim_selects_def dying_world_def)
  qed
  have "sim_sectors dying_world ?it = [20481]"
    unfolding sim_sectors_def it by (rule filter_upt_unique [OF _ _ sel]) simp_all
  then have a: "sim_ahead dying_world ?it = [unit_range 20481]" by (simp add: sim_ahead_def)
  have sec: "sectors_of [unit_range 20481] = {20481}" by (simp add: range_sectors_unit)
  have laws: "del_pass_laws sim_iter_env 9 (\<lambda>w. w) sim_ahead (get_store_device dying_store) sim_pool_del"
    using sim_area_law sim_iter_batch
    by (simp add: del_pass_laws_def dev sim_pool_del_def) (simp add: sim_device_def sim_caps_def)
  have table: "pm_wf (st_pm dying_store)" "\<not> pm_locked (st_pm dying_store)" "areas_ok 9 (st_pm dying_store)"
    "pools_stored 9 dying_world (st_pm dying_store)"
    using dying_wf dying_areas dying_stored by (simp_all add: pm dying_same)
  have high: "pool_table_end 9 (st_pm dying_store) \<le> unat (pd_usr_data_start_lba sim_pool_del)"
    by (simp add: pool_table_end_def pm dying_max sim_pool_del_def tags_start_def POOL_TAG_SIZE_def)
  have lens: "\<forall>i \<in> {1}. \<forall>r \<in> set (sim_ahead dying_world (del_iter dying_store (int i) sim_pool_del)).
      br_length r * 2 ^ 9 \<le> max_trim_size (get_store_device dying_store)"
    using a by (simp add: unit_range_def dev max_trim_size_def) (simp add: sim_device_def sim_caps_def)
  have alone: "\<forall>i \<in> {1}. \<forall>j \<in> {1}. i \<noteq> j \<longrightarrow>
      sectors_of (sim_ahead dying_world (del_iter dying_store (int i) sim_pool_del)) \<inter>
      sectors_of (sim_ahead dying_world (del_iter dying_store (int j) sim_pool_del)) = {}" by simp
  have del: "{1} \<subseteq> bm_bits (pm_deleted (st_pm dying_store))" by (simp add: pm dying_bits)
  obtain r st' pd' w' where run: "start_pool_delete sim_iter_env 0 False dying_store sim_pool_del dying_world = Some (r, st', pd', w')"
    and post: "case r of Inl e \<Rightarrow> e \<in> {NVM_ERR_IO, NVM_ERR_OUT_OF_MEMORY}
     | Inr n \<Rightarrow> n = 0 \<and> (\<exists>pm. st' = set_pm pm dying_store) \<and> pm_wf (st_pm st') \<and> \<not> pm_locked (st_pm st') \<and>
         pool_view (st_pm st') = (\<lambda>i. if i \<in> {1} then None else pool_view (st_pm dying_store) i) \<and>
         pools_stored 9 w' (st_pm st') \<and>
         (\<forall>x \<ge> unat (pd_usr_data_start_lba sim_pool_del).
            w' x = (if \<exists>i \<in> {1}. x \<in> sectors_of (sim_ahead dying_world (del_iter dying_store (int i) sim_pool_del))
                    then None else dying_world x))"
    using pool_deletion_pass [where view = "\<lambda>w. w" and ahead = sim_ahead and w = dying_world and garbage = 0
        and st = dying_store and pd = sim_pool_del, unfolded D, OF laws table del high lens alone] by blast
  have "unat (pd_usr_data_start_lba sim_pool_del) = 8192" by (simp add: sim_pool_del_def)
  then show ?thesis
    using run post a sec by (cases r) (auto simp: dying_world_def)
qed

end
