(* ===== verification/AllPools.thy ===== *)
theory AllPools
  imports PoolPass
begin

text \<open>
  The pass of the deletion thread when all pools are in deletion (\<open>NVM_KV_Pool_Del_Manager::start_pool_delete\<close>
  with \<open>delete_all_pools\<close>): the keys of all pools but the default one are trimmed in one walk over the
  device, then the pools of the copied bitmap leave the table with \<open>clear_pool_bitmaps\<close>. No definitions of
  the program are made here; the theory composes those of \<open>PoolDel\<close> and \<open>PoolMgr\<close> with the table on the
  device of \<open>PoolMedia\<close>.
\<close>

section \<open>The deletion of the keys of all pools\<close>

lemma del_all_keys_area:
  assumes law: "area_iter_law E (get_store_device st) view ahead" and laws: "trim_laws E view st"
    and own: "\<not> pd_validate pd" and max: "0 < it_max_ranges (pd_iter pd)" "it_max_ranges (pd_iter pd) < 2 ^ 32"
    and iovs: "0 < nvm_max_num_iovs (dev_caps (get_store_device st))"
    and lens: "\<forall>r \<in> set (ahead w (del_iter st (-1) pd)).
       br_length r * get_sector_size st \<le> max_trim_size (get_store_device st)"
  obtains r pd' w' where "del_pool_keys E st (-1) garbage pd w = Some (r, pd', w')" "pd_same pd pd'"
    "r = Inl NVM_ERR_IO \<or>
     (\<exists>n. r = Inr n) \<and> view w' = trim_set (view w) (sectors_of (filter (\<lambda>r. \<not> pool_skip st (-1) r) (ahead w (del_iter st (-1) pd))))"
proof -
  let ?it = "del_iter st (-1) pd"
  let ?d = "\<lparr>dr_iovec = [], dr_ret = 0, dr_found = garbage, dr_pd = pd\<lparr>pd_iter := ?it\<rparr>\<rparr>"
  note m = area_iter_dest(1) [OF law]
  have ap: "apart (ahead w ?it)" using m by (simp add: mapped_iter_law_def)
  have it: "it_max_ranges ?it = it_max_ranges (pd_iter pd)"
    by (simp add: del_iter_def Let_def)
  obtain r d' w' where d: "del_loop E st (-1) ?d w = Some (r, d', w')"
    "loop_trimmed view w (filter (\<lambda>r. \<not> pool_skip st (-1) r) (ahead w ?it)) r w'"
    using del_loop_spec [OF m laws ap lens, where pool_id = "-1" and d = ?d and pend = "[]" and w = w and it = ?it] own max iovs ap
    by (auto simp: it(1))
  let ?pd = "(dr_pd d')\<lparr>pd_iter := (pd_iter (dr_pd d'))\<lparr>it_filter_mask := it_filter_mask (pd_iter pd)\<rparr>\<rparr>"
  have "pd_same (dr_pd ?d) (dr_pd d')" using del_loop_keeps [OF d(1), of view ahead] law own by simp
  then have same: "pd_same pd ?pd" using it(1) by (auto simp: pd_same_def)
  have call: "del_pool_keys E st (-1) garbage pd w = Some (map_sum id (\<lambda>_. dr_ret d') r, ?pd, w')"
    using d(1) by (simp add: del_pool_keys_def)
  show thesis using that [OF call same] d(2) by (cases r) (auto simp: loop_trimmed_def)
qed

section \<open>Clearing the bits of all pools of a round\<close>

lemma clear_all_total:
  assumes "\<not> pm_locked pm"
  obtains r pm' w' where "clear_pool_bitmaps E bitmap pm w = Some (r, pm', w')"
    "r \<in> {Inr (), Inl NVM_ERR_IO, Inl NVM_ERR_OUT_OF_MEMORY}"
proof -
  let ?type = "M_KVSTORE_METADATA OR M_KV_BM_DELETED OR M_KV_BM_INUSE :: u32"
  have f: "\<exists>r w'. persist_store_info E ?type idx p w = Some (r, w') \<and> r \<in> {Inr (), Inl NVM_ERR_IO, Inl NVM_ERR_OUT_OF_MEMORY}" for idx p
    by (auto simp: persist_store_info_def nvm_writev_def pm_flags Let_def split: option.split prod.split sum.split)
  define c where "c \<longleftrightarrow> take (pm_bm_len pm div 4) (pm_deleted pm) = take (pm_bm_len pm div 4) bitmap"
  define pm1 where "pm1 = (if c then pm\<lparr>pm_deleted := replicate (pm_bm_len pm div 4) 0 @ drop (pm_bm_len pm div 4) (pm_deleted pm)\<rparr> else pm)"
  define pm2 where "pm2 = foldl (clear_pool_bit bitmap c) pm1 [1..<pm_max_pools pm1]"
  obtain r w' where p: "persist_store_info E ?type (-1) pm2 w = Some (r, w')" "r \<in> {Inr (), Inl NVM_ERR_IO, Inl NVM_ERR_OUT_OF_MEMORY}"
    using f by blast
  then have "clear_pool_bitmaps E bitmap pm w = Some (r, if r = Inr () then pm2 else pm2\<lparr>pm_locked := True\<rparr>, w')"
    using assms unfolding clear_pool_bitmaps_def Let_def c_def [symmetric] pm1_def [symmetric] pm2_def [symmetric]
    by (auto split: sum.split)
  then show thesis using that p(2) by blast
qed

lemma clear_all_step:
  assumes wf: "pm_wf pm" and un: "\<not> pm_locked pm" and B: "bm_bits bitmap \<subseteq> bm_bits (pm_deleted pm)"
    and len: "length bitmap = length (pm_in_use pm)"
    and a: "areas_ok k pm" and batch: "batch_law E (pm_device pm) view" and st: "pools_stored k (view w) pm"
    and ok: "clear_pool_bitmaps E bitmap pm w = Some (Inr (), pm', w')"
  shows "pm_wf pm'" "\<not> pm_locked pm'" "pool_view pm' = (\<lambda>i. if i \<in> bm_bits bitmap then None else pool_view pm i)"
    "pools_stored k (view w') pm'" "tags_start k \<le> x \<Longrightarrow> view w' x = view w x"
proof -
  note r = clear_pool_bitmaps_ok [OF wf B len ok]
  show "pm_wf pm'" "pool_view pm' = (\<lambda>i. if i \<in> bm_bits bitmap then None else pool_view pm i)"
    using remove_pools_wf [OF wf B r(1)] by (auto simp: fun_eq_iff)
  show "\<not> pm_locked pm'" using r(2) un by simp
  have s: "pools_stored k (view w') pm' \<and> same_place pm pm'"
    by (rule stored_clear_some [where view = view and w = w, OF wf B len a batch st ok])
  then show "pools_stored k (view w') pm'" by simp
  have p: "persist_store_info E (M_KVSTORE_METADATA OR M_KV_BM_DELETED OR M_KV_BM_INUSE) (-1) pm' w = Some (Inr (), w')"
    using ok by (auto simp: clear_pool_bitmaps_def Let_def split: if_splits option.splits prod.splits sum.splits)
  have a': "areas_ok k pm'" using a s same_place_areas by blast
  have b': "batch_law E (pm_device pm') view" using batch s by (simp add: same_place_def)
  have idx: "idx_ok (-1) pm'" by (simp add: idx_ok_def)
  show "view w' x = view w x" if "tags_start k \<le> x"
    by (rule persist_before_tags [where view = view and w = w, OF a' idx b' p _ that]) (simp add: pm_flags)
qed

section \<open>The pass over all pools\<close>

lemma trim_below_stored:
  assumes sh: "pm_shape pm" and a: "areas_ok k pm" and st: "pools_stored k (view w) pm"
    and high: "pool_table_end k pm \<le> start" and A: "A \<subseteq> {start..}" "view w' = trim_set (view w) A"
  shows "pools_stored k (view w') pm"
proof (rule stored_other [OF sh a st])
  show "\<forall>x < pool_table_end k pm. view w' x = view w x" using A high by (auto simp: trim_set_def)
qed

text \<open>The sectors the pass over all pools trims: all the device reports but those of the default pool.\<close>

definition all_pool_sectors ::
  "('w \<Rightarrow> nvm_logical_range_iter \<Rightarrow> nvm_block_range list) \<Rightarrow> nvm_kv_store \<Rightarrow> nvm_kv_pool_del_mgr \<Rightarrow> 'w \<Rightarrow> nat set" where
  "all_pool_sectors ahead st pd w =
     sectors_of (filter (\<lambda>r. \<not> pool_skip st (-1) r) (ahead w (del_iter st (-1) pd)))"

text \<open>
  C13: a pass of the deletion thread over all pools, on a store with no more pools than the pool bits give
  (pool ids are their own hash) and with ranges no longer than the largest trim. It trims the sectors the
  device reports for all pools but the default one, and of the user data nothing else; if the deletion
  returns zero, the pools of the bitmap of the round, and no others, leave the table in memory and on the
  device, and otherwise no pool does. So the sectors come from the device and the pools from the bitmap: a
  pool that is not in the bitmap, created since the bitmap was copied, loses its keys and stays as it is
  in the table. An error is an I/O error or a failed allocation.
\<close>

theorem all_pools_pass:
  fixes st :: nvm_kv_store and pd :: nvm_kv_pool_del_mgr and w :: 'w and ahead :: "'w \<Rightarrow> nvm_logical_range_iter \<Rightarrow> nvm_block_range list"
  defines "D \<equiv> bm_bits (pd_pools_to_delete pd)"
  assumes laws: "del_pass_laws E k view ahead (get_store_device st) pd"
    and table: "pm_wf (st_pm st)" "\<not> pm_locked (st_pm st)" "areas_ok k (st_pm st)" "pools_stored k (view w) (st_pm st)"
    and dying: "D \<subseteq> bm_bits (pm_deleted (st_pm st))" "length (pd_pools_to_delete pd) = length (pm_in_use (st_pm st))"
    and high: "pool_table_end k (st_pm st) \<le> unat (pd_usr_data_start_lba pd)"
    and lens: "\<forall>r \<in> set (ahead w (del_iter st (-1) pd)). br_length r * 2 ^ k \<le> max_trim_size (get_store_device st)"
  shows "\<exists>r st' pd' w'. start_pool_delete E garbage True st pd w = Some (r, st', pd', w') \<and>
    (case r of
       Inl e \<Rightarrow> e \<in> {NVM_ERR_IO, NVM_ERR_OUT_OF_MEMORY}
     | Inr n \<Rightarrow> pm_wf (st_pm st') \<and> \<not> pm_locked (st_pm st') \<and> pools_stored k (view w') (st_pm st') \<and>
         pool_view (st_pm st') = (\<lambda>i. if n = 0 \<and> i \<in> D then None else pool_view (st_pm st) i) \<and>
         (\<forall>x \<ge> unat (pd_usr_data_start_lba pd).
            view w' x = (if x \<in> all_pool_sectors ahead st pd w then None else view w x)))"
proof -
  let ?start = "unat (pd_usr_data_start_lba pd)" and ?A = "all_pool_sectors ahead st pd w"
  have law: "area_iter_law E (get_store_device st) view ahead" and batch: "batch_law E (pm_device (st_pm st)) view"
    and own: "\<not> pd_validate pd" and max: "0 < it_max_ranges (pd_iter pd)" "it_max_ranges (pd_iter pd) < 2 ^ 32"
    and iovs: "0 < nvm_max_num_iovs (dev_caps (get_store_device st))" and ss: "get_sector_size st = 2 ^ k"
    and tl: "trim_laws E view st"
    using laws by (simp_all add: del_pass_laws_def get_sector_size_def get_store_device_def trim_laws_def)
  have lens': "\<forall>r \<in> set (ahead w (del_iter st (-1) pd)). br_length r * get_sector_size st \<le> max_trim_size (get_store_device st)"
    using lens ss by simp
  obtain r pd' w1 where d: "del_pool_keys E st (-1) garbage pd w = Some (r, pd', w1)" "pd_same pd pd'"
    and k: "r = Inl NVM_ERR_IO \<or> (\<exists>n. r = Inr n) \<and> view w1 = trim_set (view w) ?A"
    using del_all_keys_area [OF law tl own max iovs lens'] unfolding all_pool_sectors_def by metis
  have sh: "pm_shape (st_pm st)" using table(1) by (simp add: pm_wf_def)
  have above: "?A \<subseteq> {?start..}"
  proof -
    have "br_start_lba (it_range_to_iterate (del_iter st (-1) pd)) = pd_usr_data_start_lba pd" by (simp add: del_iter_def Let_def)
    then have "sectors_of (ahead w (del_iter st (-1) pd)) \<subseteq> {?start..}"
      using area_iter_dest(3) [OF law, of w "del_iter st (-1) pd"] by simp
    then show ?thesis by (auto simp: all_pool_sectors_def sectors_of_def)
  qed
  show ?thesis
  proof (cases r)
    case (Inl e)
    then show ?thesis using d(1) k by (simp add: start_pool_delete_def)
  next
    case (Inr n)
    then have w1: "view w1 = trim_set (view w) ?A" using k by simp
    have st1: "pools_stored k (view w1) (st_pm st)" by (rule trim_below_stored [OF sh table(3,4) high above w1])
    show ?thesis
    proof (cases "n = 0")
      case False
      then show ?thesis using d(1) Inr table(1,2) st1 by (simp add: start_pool_delete_def w1 trim_set_def)
    next
      case True
      have del: "pd_pools_to_delete pd' = pd_pools_to_delete pd" by (rule pd_same_dest(2) [OF d(2)])
      obtain q pm w2 where c: "clear_pool_bitmaps E (pd_pools_to_delete pd) (st_pm st) w1 = Some (q, pm, w2)"
        and codes: "q \<in> {Inr (), Inl NVM_ERR_IO, Inl NVM_ERR_OUT_OF_MEMORY}"
        using clear_all_total [OF table(2)] by metis
      have run: "start_pool_delete E garbage True st pd w = Some (as_ret q, set_pm pm st, pd', w2)"
        using d(1) Inr True c del by (simp add: start_pool_delete_def)
      show ?thesis
      proof (cases q)
        case (Inl e)
        then show ?thesis using run codes by (auto simp: as_ret_def)
      next
        case (Inr u)
        then have q: "q = Inr ()" by simp
        note ok = clear_all_step [where view = view and w = w1,
            OF table(1,2) dying(1) [unfolded D_def] dying(2) table(3) batch st1 c [unfolded q]]
        have tags: "tags_start k \<le> ?start" using high by (simp add: pool_table_end_def)
        have "view w2 x = (if x \<in> ?A then None else view w x)" if "?start \<le> x" for x
          using ok(5) [of x] that tags by (simp add: w1 trim_set_def)
        then show ?thesis using run q ok(1-4) by (simp add: as_ret_def set_pm_def D_def)
      qed
    qed
  qed
qed

section \<open>A pass on a simulated device, with a pool created after the bitmap was copied\<close>

text \<open>Pool 1 is in deletion and in the copied bitmap; pool 2 is new, with a key in sector 20482.\<close>

definition racing_pm :: nvm_kv_pool_mgr where
  "racing_pm = dying_pm\<lparr>pm_in_use := bitmap_set (pm_in_use dying_pm) 2, pm_tags := zeros 48,
     pm_md := (pm_md dying_pm)\<lparr>sm_max_pools := 3, sm_total_no_pools := 3\<rparr>\<rparr>"

definition racing_store :: nvm_kv_store where
  "racing_store = set_pm racing_pm sim_store"

definition racing_world :: sectors where
  "racing_world = (\<lambda>n. if n = 0 then Some (metadata_bytes (pm_md racing_pm) @ zeros 448)
     else if n = 1 then Some (bitmap_bytes (pm_in_use racing_pm))
     else if n = 2 then Some (bitmap_bytes (pm_deleted racing_pm))
     else if n \<in> {4096, 20480, 20482} then Some (zeros 512) else None)"

definition racing_del :: nvm_kv_pool_del_mgr where
  "racing_del = sim_pool_del\<lparr>pd_pools_to_delete := pm_deleted dying_pm\<rparr>"

lemma racing_lengths: "length (pm_in_use racing_pm) = 128" "length (pm_deleted racing_pm) = 128"
  by (simp_all add: racing_pm_def dying_lengths bitmap_set_def Let_def)

lemma racing_bits: "bm_bits (pm_in_use racing_pm) = {0, 1, 2}" "bm_bits (pm_deleted racing_pm) = {1}"
  using bm_bits_set [of 2 "pm_in_use dying_pm"]
  by (auto simp: racing_pm_def dying_bits dying_lengths bm_nbits_def)

lemma racing_max: "pm_max_pools racing_pm = 3"
  by (simp add: racing_pm_def pm_max_pools_def)

lemma racing_same:
  "pm_device racing_pm = sim_device" "pm_layout racing_pm = demo_layout" "pm_tags_map racing_pm = (\<lambda>t. None)"
  "pm_bm_len racing_pm = 512" "pm_tags racing_pm = zeros 48" "pm_locked racing_pm = False"
  by (simp_all add: racing_pm_def dying_same)

lemma racing_tag: "tag_at racing_pm 2 = zeros 16"
  by (simp add: tag_at_def racing_same POOL_TAG_SIZE_def mem_read_def zeros_def)

lemma racing_wf: "pm_wf racing_pm"
proof -
  have "pm_shape racing_pm" unfolding pm_shape_def racing_bits racing_max
    by (simp add: bm_nbits_def racing_lengths racing_same NVM_KV_MAX_POOLS_def POOL_TAG_SIZE_def)
  moreover have "cstr (tag_at racing_pm 2) = []" unfolding racing_tag by (simp add: cstr_def zeros_def)
  then have "tags_map_ok racing_pm" unfolding tags_map_ok_def racing_bits racing_same by auto
  ultimately show ?thesis unfolding pm_wf_def racing_bits by (simp add: racing_pm_def)
qed

lemma racing_areas: "areas_ok 9 racing_pm"
proof -
  have "rnd 4 512 = 512" using rnd_eq [of 9 4] by simp
  moreover have "unat (bits_per_uint8 (round32 3)) = 4" using round32_eq [of 3] by simp
  ultimately have len: "bitmap_media_len racing_pm = 512"
    by (simp add: bitmap_media_len_def racing_pm_def pm_sector_size_def dying_same sim_device_def sim_caps_def
        del: unat_bits_per_uint8)
  have lay: "get_sect_bits (pm_layout racing_pm) = 9" "get_inuse_bm_lba (pm_layout racing_pm) = 1"
    "get_del_bm_lba (pm_layout racing_pm) = 2" "get_pool_tags_lba (pm_layout racing_pm) = 4096"
    unfolding racing_same by code_simp+
  show ?thesis
    unfolding areas_ok_def lay len racing_max
    by (simp add: deleted_start_def tags_start_def racing_same)
      (simp add: pm_sector_size_def sim_device_def sim_caps_def NVM_KV_MAX_POOLS_def racing_same)
qed

lemma racing_stored: "pools_stored 9 racing_world racing_pm"
proof -
  have at: "racing_world 1 = Some (bitmap_bytes (pm_in_use racing_pm))" "racing_world 2 = Some (bitmap_bytes (pm_deleted racing_pm))"
    "racing_world 0 = Some (metadata_bytes (pm_md racing_pm) @ zeros 448)" "racing_world 4096 = Some (zeros 512)"
    by (simp_all add: racing_world_def)
  have whole: "mem_read 0 512 (bitmap_bytes bm) = bitmap_bytes bm" if "length bm = 128" for bm
    using that by (simp add: mem_read_def)
  have "deleted_start 9 racing_pm = 2" by (simp add: deleted_start_def racing_same)
  moreover have "live_ids racing_pm = {2}" by (auto simp: live_ids_def racing_bits)
  moreover have "tag_on 9 racing_world 2 (zeros 16)"
    using at(4) by (simp add: tag_on_def tags_start_def POOL_TAG_SIZE_def mem_read_def zeros_def)
  ultimately show ?thesis
    using at(1-3) by (simp add: pools_stored_def bitmap_on_def racing_lengths whole racing_tag)
qed

lemma racing_sectors:
  "sim_ahead racing_world (del_iter racing_store (-1) racing_del) = [unit_range 20480, unit_range 20482]"
proof -
  let ?it = "del_iter racing_store (-1) racing_del"
  have it: "it_filter_mask ?it = 0" "it_filter_pattern ?it = 0" "sim_range_end ?it = 281474976710656"
    "unat (br_start_lba (it_range_to_iterate ?it)) = 8192"
    by (simp_all add: del_iter_def racing_del_def sim_pool_del_def Let_def sim_range_end_def)
  have sel: "sim_selects racing_world ?it i \<longleftrightarrow> i = 20480 \<or> i = 20482" if "8192 \<le> i" for i
  proof -
    have "racing_world i \<noteq> None \<longleftrightarrow> i = 20480 \<or> i = 20482" using that by (simp add: racing_world_def)
    then show ?thesis by (simp add: sim_selects_def it)
  qed
  have "sim_sectors racing_world ?it = [20480, 20482]"
    unfolding sim_sectors_def it by (rule filter_upt_two) (use sel in simp_all)
  then show ?thesis by (simp add: sim_ahead_def)
qed

theorem all_pools_pass_witness:
  "\<exists>r st' pd' w'. start_pool_delete sim_iter_env 0 True racing_store racing_del racing_world = Some (r, st', pd', w') \<and>
     (case r of
        Inl e \<Rightarrow> e \<in> {NVM_ERR_IO, NVM_ERR_OUT_OF_MEMORY}
      | Inr n \<Rightarrow> pool_view (st_pm st') 2 = Some (Live []) \<and> w' 20482 = None \<and> w' 20480 = Some (zeros 512))"
proof -
  have pm: "st_pm racing_store = racing_pm" and dev: "get_store_device racing_store = sim_device"
    by (simp_all add: racing_store_def set_pm_def get_store_device_def racing_same)
  have D: "bm_bits (pd_pools_to_delete racing_del) = {1}" "length (pd_pools_to_delete racing_del) = 128"
    by (simp_all add: racing_del_def dying_bits dying_lengths)
  have laws: "del_pass_laws sim_iter_env 9 (\<lambda>w. w) sim_ahead (get_store_device racing_store) racing_del"
    using sim_area_law sim_iter_batch unfolding dev
    by (simp add: del_pass_laws_def racing_del_def sim_pool_del_def sim_device_def sim_caps_def)
  have table: "pm_wf (st_pm racing_store)" "\<not> pm_locked (st_pm racing_store)" "areas_ok 9 (st_pm racing_store)"
    "pools_stored 9 racing_world (st_pm racing_store)"
    using racing_wf racing_areas racing_stored by (simp_all add: pm racing_same)
  have dying: "bm_bits (pd_pools_to_delete racing_del) \<subseteq> bm_bits (pm_deleted (st_pm racing_store))"
    "length (pd_pools_to_delete racing_del) = length (pm_in_use (st_pm racing_store))"
    by (simp_all add: D pm racing_bits racing_lengths)
  have high: "pool_table_end 9 (st_pm racing_store) \<le> unat (pd_usr_data_start_lba racing_del)"
    by (simp add: pool_table_end_def pm racing_max racing_del_def sim_pool_del_def tags_start_def POOL_TAG_SIZE_def)
  have lens: "\<forall>r \<in> set (sim_ahead racing_world (del_iter racing_store (-1) racing_del)).
      br_length r * 2 ^ 9 \<le> max_trim_size (get_store_device racing_store)"
    unfolding racing_sectors dev by (simp add: max_trim_size_def sim_device_def sim_caps_def unit_range_def)
  have bits: "get_pool_bits (get_layout racing_store) = get_pool_bits demo_layout"
    by (simp add: get_layout_def pm racing_same)
  have skip: "pool_skip racing_store (-1) (unit_range 20480)" "\<not> pool_skip racing_store (-1) (unit_range 20482)"
    unfolding pool_skip_def bits by code_simp+
  have sec: "all_pool_sectors sim_ahead racing_store racing_del racing_world = {20482}"
    by (simp add: all_pool_sectors_def racing_sectors skip range_sectors_unit)
  have view: "pool_view racing_pm 2 = Some (Live [])"
    by (simp add: pool_view_def racing_bits racing_tag cstr_def zeros_def)
  have start: "unat (pd_usr_data_start_lba racing_del) \<le> 20480" by (simp add: racing_del_def sim_pool_del_def)
  obtain r st' pd' w' where run: "start_pool_delete sim_iter_env 0 True racing_store racing_del racing_world = Some (r, st', pd', w')"
    and post: "case r of
       Inl e \<Rightarrow> e \<in> {NVM_ERR_IO, NVM_ERR_OUT_OF_MEMORY}
     | Inr n \<Rightarrow> pm_wf (st_pm st') \<and> \<not> pm_locked (st_pm st') \<and> pools_stored 9 w' (st_pm st') \<and>
         pool_view (st_pm st') = (\<lambda>i. if n = 0 \<and> i \<in> {1} then None else pool_view (st_pm racing_store) i) \<and>
         (\<forall>x \<ge> unat (pd_usr_data_start_lba racing_del).
            w' x = (if x \<in> all_pool_sectors sim_ahead racing_store racing_del racing_world then None else racing_world x))"
    using all_pools_pass [where view = "\<lambda>w. w" and ahead = sim_ahead and w = racing_world and garbage = 0
        and st = racing_store and pd = racing_del, OF laws table dying high lens] unfolding D(1) by blast
  have at: "racing_world 20480 = Some (zeros 512)" by (simp add: racing_world_def)
  show ?thesis
  proof (cases r)
    case (Inl e)
    then show ?thesis using run post by auto
  next
    case (Inr n)
    then have v: "pool_view (st_pm st') 2 = Some (Live [])" "w' 20482 = None" "w' 20480 = Some (zeros 512)"
      using post start by (simp_all add: sec pm view at)
    show ?thesis by (intro exI [of _ r] exI [of _ st'] exI [of _ pd'] exI [of _ w']) (use run v Inr in simp)
  qed
qed

end
