(* ===== verification/ExpirySpec.thy ===== *)
theory ExpirySpec
  imports ExpiryMgr DeleteSpec
begin

text \<open>
  What the expiry thread promises, and what it does not: the rhythm of its passes on a device whose
  use does not change, the ranges that a pass removes although the device did not report them, and
  the exact effect of a pass, of the global expiry and over keys with an expiry of their own, when no
  range is left from an earlier scan. \<open>start_expiry_spec\<close> is the argument about a pass that both share.
\<close>

section \<open>The rhythm of the passes\<close>

text \<open>
  The expiry heuristics rest. On a device whose used capacity is the one seen last, the calls of
  \<open>expire_keys\<close> ask for a pass \<open>n\<close> more times, where \<open>n\<close> is what the
  counter has left to eleven, and then once for none; the counter starts again at zero, so no run of
  passes on an unchanged device is longer than eleven.
\<close>

theorem expire_keys_rests:
  assumes "env_capacity E (dev_handle (get_store_device st)) w = Some c" and "em_last_seen_capacity em = percent_used c"
    and "0 \<le> em_no_expire_count em" and "em_no_expire_count em + int n = 11"
  shows "expire_calls E st (Suc n) em w = (replicate n True @ [False], em\<lparr>em_no_expire_count := 0\<rparr>)"
  using expire_calls_steady [OF assms(1,2), of n] assms(4) by (simp add: M_NO_EXPIRY_LIMIT_def)

definition sim_expiry_mgr :: nvm_kv_expiry_mgr where
  "sim_expiry_mgr = \<lparr>sn_iter_id = 130, sn_iter_type = KV_GLB_EXP_ITER, sn_bufs = sim_bufs,
     em_last_seen_capacity = 100 / 1024, em_no_expire_count = 8\<rparr>"

theorem expire_keys_rests_witness:
  "fst (expire_calls sim_iter_env sim_store 4 sim_expiry_mgr (\<lambda>i. None)) = [True, True, True, False]"
proof -
  have "env_capacity sim_iter_env (dev_handle (get_store_device sim_store)) (\<lambda>i. None) =
      Some \<lparr>cp_total_phys = 2 ^ 30, cp_used_phys = 2 ^ 20, cp_total_logical = 2 ^ 48\<rparr>"
    by (simp add: sim_iter_env_def)
  moreover have "em_last_seen_capacity sim_expiry_mgr =
      percent_used \<lparr>cp_total_phys = 2 ^ 30, cp_used_phys = 2 ^ 20, cp_total_logical = 2 ^ 48\<rparr>"
    by (simp add: sim_expiry_mgr_def percent_used_def)
  moreover have "0 \<le> em_no_expire_count sim_expiry_mgr" "em_no_expire_count sim_expiry_mgr + int 3 = 11"
    by (simp_all add: sim_expiry_mgr_def)
  ultimately have "expire_calls sim_iter_env sim_store (Suc 3) sim_expiry_mgr (\<lambda>i. None) =
      (replicate 3 True @ [False], sim_expiry_mgr\<lparr>em_no_expire_count := 0\<rparr>)"
    by (rule expire_keys_rests)
  then show ?thesis by (simp add: numeral_eq_Suc)
qed

section \<open>A pass over what the last one left\<close>

text \<open>
  C30: a pass of the global expiry removes a range the device did not report. When a scan has
  reached the end of the device and the last batch had two ranges, resetting the iterator leaves
  the batch in place: the next pass of the global expiry trims the batch's second range, whatever
  is stored there by then, even on a device that reports no expired range at all.
\<close>

theorem global_expiry_trims_unreported:
  assumes type: "sn_iter_type em = KV_GLB_EXP_ITER"
    and scan: "perform_scan E st em w0 ni0 = (Inl NVM_ERR_OBJECT_NOT_FOUND, ni)"
    and len: "nat (sn_iter_id em) < length (ni_iter ni0)"
    and two: "bi_num_ranges_found (iter_at (sn_iter_id em) ni) = 2"
    and x: "it_ranges (bi_it (iter_at (sn_iter_id em) ni)) ! 1 = x"
    and quiet: "\<forall>it w. fst (env_range_iter E (dev_handle (get_store_device st)) it w) = 0"
    and glb: "sm_global_expiry (get_store_metadata st) \<noteq> 0" and idle: "\<not> check_pool_del_status (st_pm st)"
    and laws: "trim_laws E view st" and free: "st_safe st = {}"
    and size: "br_length x * get_sector_size st \<le> max_trim_size (get_store_device st)"
    and iovs: "1 < nvm_max_num_iovs (dev_caps (get_store_device st))"
  shows "\<exists>r run w'. start_expiry E oth em (snd (reset_iterator st em ni)) st w = Some (r, run, w') \<and>
     (case r of
        Inr _ \<Rightarrow> view w' = trim_set (view w) (range_sectors x)
      | Inl e \<Rightarrow> e = NVM_ERR_IO \<and> view w' = view w)"
proof -
  let ?i = "nat (sn_iter_id em)" and ?ss = "get_sector_size st"
  obtain b it' where b: "ni = put_iter ?i (Some (b\<lparr>bi_pos := 0, bi_it := it'\<rparr>)) ni0"
    "valid_iter st (sn_iter_id em) (sn_iter_type em) ni = Inr (b\<lparr>bi_pos := 0, bi_it := it'\<rparr>)"
    using scan_not_found [OF scan len] by metis
  have l: "?i < length (ni_iter ni)" using len b(1) by simp
  have at: "iter_at (sn_iter_id em) ni = b\<lparr>bi_pos := 0, bi_it := it'\<rparr>"
    unfolding b(1) by (rule iter_at_put [OF len])
  obtain it1 where r: "reset_iterator st em ni = (Inr (), put_iter ?i (Some (b\<lparr>bi_pos := 0, bi_it := it1\<rparr>)) ni)"
    "it_ranges it1 = it_ranges it'"
    "valid_iter st (sn_iter_id em) (sn_iter_type em) (snd (reset_iterator st em ni)) = Inr (b\<lparr>bi_pos := 0, bi_it := it1\<rparr>)"
    by (rule reset_ready [OF b(2) l]) simp
  let ?b1 = "b\<lparr>bi_pos := 0, bi_it := it1\<rparr>"
  define ni1 where "ni1 = snd (reset_iterator st em ni)"
  have v1: "valid_iter st (sn_iter_id em) (sn_iter_type em) ni1 = Inr ?b1" using r(3) by (simp add: ni1_def)
  have l1: "?i < length (ni_iter ni1)" using l r(1) by (simp add: ni1_def)
  have found: "bi_num_ranges_found b = 2" "it_ranges it1 ! 1 = x" using two x r(2) by (simp_all add: at)
  let ?b2 = "b\<lparr>bi_it := it1, bi_pos := 1\<rparr>"
  define ni2 where "ni2 = put_iter ?i (Some ?b2) ni1"
  have s1: "perform_scan E st em w ni1 = (Inr (br_start_lba x, br_length x), ni2)"
    using scan_next [OF v1 l1, of E w] found by (simp add: ni2_def)
  have v2: "valid_iter st (sn_iter_id em) (sn_iter_type em) ni2 = Inr ?b2"
    unfolding ni2_def by (rule valid_put [OF v1 l1]) simp
  have l2: "?i < length (ni_iter ni2)" using l1 by (simp add: ni2_def)
  obtain it2 where f: "set_expiry_filter E st (sn_iter_type em) w it1 = Inr it2"
    using glb type by (simp add: set_expiry_filter_def Let_def)
  obtain it3 where d: "env_range_iter E (dev_handle (get_store_device st)) it2 w = (0, it3)"
    using quiet by (metis prod.collapse)
  define ni3 where "ni3 = put_iter ?i (Some (?b2\<lparr>bi_pos := 0, bi_it := it3\<rparr>)) ni2"
  have s2: "perform_scan E st em w ni2 = (Inl NVM_ERR_OBJECT_NOT_FOUND, ni3)"
    unfolding ni3_def by (rule scan_end [OF v2 _ _ d]) (use found f in simp_all)
  let ?r = "\<lambda>iovs ni. \<lparr>er_iovec = iovs, er_em = em, er_ni = ni, er_st = st\<rparr>" and ?t = "trim_of ?ss x"
  have t: "trim_iov (br_start_lba x) (br_length x * nvm_sector_size (dev_caps (get_store_device st))) = ?t"
    by (simp add: trim_of_def get_sector_size_def)
  have "expiry_add E oth (br_start_lba x) (br_length x) 0 (?r [] ni2) w = (Inr 0, ?r [?t] ni2, w)"
    using size iovs by (simp add: expiry_add_def Let_def t) (simp add: get_sector_size_def)
  then have "expiry_loop E oth 0 (?r [] ni1) w = expiry_loop E oth 0 (?r [?t] ni2) w"
    using idle s1 type by (simp add: expiry_loop.simps [of _ _ _ "?r [] ni1"] expiry_check_def Let_def)
  also have "\<dots> = Some (Inl NVM_ERR_OBJECT_NOT_FOUND, ?r [?t] ni3, w)"
    using idle s2 by (simp add: expiry_loop.simps [of _ _ _ "?r [?t] ni2"] Let_def)
  finally have loop: "start_expiry E oth em ni1 st w =
      Some (expiry_finish E oth (Inl NVM_ERR_OBJECT_NOT_FOUND, ?r [?t] ni3, w))"
    by (simp add: start_expiry_def)
  obtain q w' where q: "batch_delete E st (map (trim_of ?ss) [x]) w = (q, w')" by force
  have fl: "flushed view [x] w q w'"
    using pool_trims.flush_ok [OF laws _ subset_refl _ q] by simp
  have sync: "batch_delete_sync E oth [?t] True st w =
      (q, st\<lparr>st_cache := map_option (kv_cache_delete_lbas [br_start_lba x]) (st_cache st)\<rparr>, w')"
    using batch_delete_sync_free [of "[?t]" st E oth True w] free q by (simp add: trim_of_def)
  have "\<exists>run. expiry_finish E oth (Inl NVM_ERR_OBJECT_NOT_FOUND, ?r [?t] ni3, w) = (map_sum id (\<lambda>_. 0) q, run, w')"
    by (simp add: expiry_finish_def sync split: prod.split)
  then obtain run where "start_expiry E oth em ni1 st w = Some (map_sum id (\<lambda>_. 0) q, run, w')"
    using loop by auto
  then show ?thesis using fl unfolding ni1_def by (cases q) (auto simp: flushed_def)
qed

definition quiet_env :: "sectors nvm_env" where
  "quiet_env = sim_iter_env\<lparr>env_range_iter := (\<lambda>h it w. (0, it))\<rparr>"

definition expiring_store :: nvm_kv_store where
  "expiring_store = set_metadata (\<lambda>m. m\<lparr>sm_global_expiry := 10\<rparr>) sim_store"

definition finished_batch :: kv_batch_iterator where
  "finished_batch = raw_iter
     \<lparr>bi_pool_id := - 1, bi_num_ranges_found := 2, bi_pos := 1,
      bi_it := (bi_it raw_iter)\<lparr>it_max_ranges := 8, it_ranges := [unit_range 8192, unit_range 9000]\<rparr>\<rparr>"

theorem global_expiry_trims_unreported_witness:
  "\<exists>ni r run w'. start_expiry quiet_env (\<lambda>l s. s) sim_expiry_mgr ni expiring_store
       [9000 \<mapsto> zeros 512, 9001 \<mapsto> zeros 512] = Some (r, run, w') \<and>
     (case r of Inr _ \<Rightarrow> w' = [9001 \<mapsto> zeros 512] | Inl e \<Rightarrow> e = NVM_ERR_IO)"
proof -
  let ?w = "[9000 \<mapsto> zeros 512, 9001 \<mapsto> zeros 512] :: sectors"
  define ni0 where "ni0 = put_iter 130 (Some finished_batch) sim_iterator"
  have dev: "get_store_device expiring_store = sim_device" "get_sector_size expiring_store = 512"
    by (simp_all add: expiring_store_def set_metadata_def get_store_device_def get_sector_size_def sim_store_def
        sim_pm_def) (simp add: sim_device_def sim_caps_def)
  have len: "nat (sn_iter_id sim_expiry_mgr) < length (ni_iter ni0)"
    using sim_iter_setup(3) by (simp add: sim_expiry_mgr_def ni0_def iterator_indices)
  have pool: "bi_pool_id finished_batch = word_of_int get_all_poolid"
    by (simp add: finished_batch_def get_all_poolid_def M_POOLID_ALL_def)
  have "validate_iter expiring_store 130 KV_GLB_EXP_ITER ni0 = Inr ()"
    using len pool unfolding validate_iter_ok pool_live_def
    by (simp add: iter_id_ok_def scanner_slot_def iterator_indices ni0_def put_iter_def sim_expiry_mgr_def)
  then have v: "valid_iter expiring_store (sn_iter_id sim_expiry_mgr) (sn_iter_type sim_expiry_mgr) ni0 = Inr finished_batch"
    using len by (simp add: valid_iter_def sim_expiry_mgr_def) (simp add: ni0_def put_iter_def)
  have f: "set_expiry_filter quiet_env expiring_store (sn_iter_type sim_expiry_mgr) ?w (bi_it finished_batch) =
      Inr ((bi_it finished_batch)\<lparr>it_filter_expiry := - 10\<rparr>)"
    by (simp add: set_expiry_filter_def sim_expiry_mgr_def expiring_store_def set_metadata_def get_store_metadata_def
        quiet_env_def sim_iter_env_def sim_env_def)
  define b1 where "b1 = finished_batch\<lparr>bi_pos := 0, bi_it := (bi_it finished_batch)\<lparr>it_filter_expiry := - 10\<rparr>\<rparr>"
  define ni where "ni = put_iter (nat (sn_iter_id sim_expiry_mgr)) (Some b1) ni0"
  have scan: "perform_scan quiet_env expiring_store sim_expiry_mgr ?w ni0 = (Inl NVM_ERR_OBJECT_NOT_FOUND, ni)"
    unfolding ni_def b1_def by (rule scan_end [OF v _ f]) (simp_all add: finished_batch_def quiet_env_def)
  have at: "iter_at (sn_iter_id sim_expiry_mgr) ni = b1" unfolding ni_def by (rule iter_at_put [OF len])
  have two: "bi_num_ranges_found (iter_at (sn_iter_id sim_expiry_mgr) ni) = 2"
    "it_ranges (bi_it (iter_at (sn_iter_id sim_expiry_mgr) ni)) ! 1 = unit_range 9000"
    unfolding at by (simp_all add: b1_def finished_batch_def)
  have quiet: "\<forall>it w. fst (env_range_iter quiet_env (dev_handle (get_store_device expiring_store)) it w) = 0"
    by (simp add: quiet_env_def)
  have laws: "trim_laws quiet_env (\<lambda>w. w) expiring_store"
    using sim_iter_batch dev by (simp add: trim_laws_def batch_law_def status_law_def quiet_env_def)
  have glb: "sm_global_expiry (get_store_metadata expiring_store) \<noteq> 0"
    "\<not> check_pool_del_status (st_pm expiring_store)" "st_safe expiring_store = {}"
    by (simp_all add: expiring_store_def set_metadata_def get_store_metadata_def check_pool_del_status_def
        sim_store_def sim_pm_def demo_pm_def)
  have size: "br_length (unit_range 9000) * get_sector_size expiring_store \<le> max_trim_size (get_store_device expiring_store)"
    "1 < nvm_max_num_iovs (dev_caps (get_store_device expiring_store))"
    by (simp_all add: dev unit_range_def max_trim_size_def) (simp_all add: sim_device_def sim_caps_def)
  have "sn_iter_type sim_expiry_mgr = KV_GLB_EXP_ITER" by (simp add: sim_expiry_mgr_def)
  from global_expiry_trims_unreported [OF this scan len two quiet glb(1,2) laws glb(3) size,
      where oth = "\<lambda>l s. s" and w = ?w]
  obtain r run w' where s: "start_expiry quiet_env (\<lambda>l s. s) sim_expiry_mgr (snd (reset_iterator expiring_store sim_expiry_mgr ni))
      expiring_store ?w = Some (r, run, w')"
    "case r of Inr _ \<Rightarrow> w' = trim_set ?w (range_sectors (unit_range 9000)) | Inl e \<Rightarrow> e = NVM_ERR_IO \<and> w' = ?w" by blast
  have "trim_set ?w {9000} = [9001 \<mapsto> zeros 512]" by (auto simp: trim_set_def fun_eq_iff)
  then show ?thesis
    using s by (intro exI [of _ "snd (reset_iterator expiring_store sim_expiry_mgr ni)"] exI [of _ r] exI [of _ run]
        exI [of _ w']) (cases r; simp add: range_sectors_unit)
qed

section \<open>The exact effect of a pass of the global expiry\<close>

text \<open>
  What a scan with the expiry filter \<open>F\<close> still has to visit: the rest of the batch, then what the
  device reports to the filter.
\<close>

definition expiring ::
  "int \<Rightarrow> ('w \<Rightarrow> nvm_logical_range_iter \<Rightarrow> nvm_block_range list) \<Rightarrow> 'w \<Rightarrow> kv_batch_iterator \<Rightarrow> nvm_block_range list" where
  "expiring F ahead w b =
     drop (Suc (bi_pos b)) (take (bi_num_ranges_found b) (it_ranges (bi_it b))) @ ahead w ((bi_it b)\<lparr>it_filter_expiry := F\<rparr>)"

lemma step_keeps_filter:
  assumes "mapped_iter_law E dev view ahead" and "env_range_iter E (dev_handle dev) it w = (n, it')"
  shows "it_filter_expiry it' = it_filter_expiry it" "n = int (min (it_max_ranges it) (length (ahead w it)))"
    "n \<le> int (length (it_ranges it'))"
proof -
  have "range_iter_law E dev ahead" using assms(1) by (simp add: mapped_iter_law_def)
  then have "let (n, it') = env_range_iter E (dev_handle dev) it w; got = min (it_max_ranges it) (length (ahead w it))
    in n = int got \<and> take got (it_ranges it') = take got (ahead w it) \<and> got \<le> length (it_ranges it') \<and>
       ahead w it' = drop got (ahead w it) \<and> it_max_ranges it' = it_max_ranges it \<and>
       it_filter_expiry it' = it_filter_expiry it"
    unfolding range_iter_law_def by blast
  then show "it_filter_expiry it' = it_filter_expiry it" "n = int (min (it_max_ranges it) (length (ahead w it)))"
    "n \<le> int (length (it_ranges it'))"
    by (simp_all add: assms(2) Let_def)
qed

lemma scan_expiring:
  assumes law: "mapped_iter_law E (get_store_device st) view ahead"
    and filt: "\<And>it. set_expiry_filter E st (sn_iter_type sn) w it = Inr (it\<lparr>it_filter_expiry := F\<rparr>)"
    and v: "valid_iter st (sn_iter_id sn) (sn_iter_type sn) ni = Inr b" and l: "nat (sn_iter_id sn) < length (ni_iter ni)"
    and max: "0 < it_max_ranges (bi_it b)" and fits: "bi_num_ranges_found b \<le> length (it_ranges (bi_it b))"
  shows "expiring F ahead w b = [] \<Longrightarrow> \<exists>ni'. perform_scan E st sn w ni = (Inl NVM_ERR_OBJECT_NOT_FOUND, ni')"
    "expiring F ahead w b = x # xs \<Longrightarrow> \<exists>b' ni'. perform_scan E st sn w ni = (Inr (br_start_lba x, br_length x), ni') \<and>
       valid_iter st (sn_iter_id sn) (sn_iter_type sn) ni' = Inr b' \<and> length (ni_iter ni') = length (ni_iter ni) \<and>
       it_max_ranges (bi_it b') = it_max_ranges (bi_it b) \<and> bi_num_ranges_found b' \<le> length (it_ranges (bi_it b')) \<and>
       expiring F ahead w b' = xs"
proof -
  let ?i = "nat (sn_iter_id sn)" and ?it = "(bi_it b)\<lparr>it_filter_expiry := F\<rparr>"
  have max': "0 < it_max_ranges ?it" using max by simp
  show "\<exists>ni'. perform_scan E st sn w ni = (Inl NVM_ERR_OBJECT_NOT_FOUND, ni')" if "expiring F ahead w b = []"
  proof (rule mapped_iter_step [OF law max', where w = w])
    fix it' batch rest
    assume q: "env_range_iter E (dev_handle (get_store_device st)) ?it w = (int (length batch), it')" and b: "ahead w ?it = batch @ rest"
    have "batch = []" "\<not> Suc (bi_pos b) < bi_num_ranges_found b" using that b fits by (auto simp: expiring_def)
    then show ?thesis using scan_end [OF v _ filt] q by auto
  qed
  assume ex: "expiring F ahead w b = x # xs"
  show "\<exists>b' ni'. perform_scan E st sn w ni = (Inr (br_start_lba x, br_length x), ni') \<and>
       valid_iter st (sn_iter_id sn) (sn_iter_type sn) ni' = Inr b' \<and> length (ni_iter ni') = length (ni_iter ni) \<and>
       it_max_ranges (bi_it b') = it_max_ranges (bi_it b) \<and> bi_num_ranges_found b' \<le> length (it_ranges (bi_it b')) \<and>
       expiring F ahead w b' = xs"
  proof (cases "Suc (bi_pos b) < bi_num_ranges_found b")
    case True
    let ?b = "b\<lparr>bi_pos := Suc (bi_pos b)\<rparr>"
    let ?t = "take (bi_num_ranges_found b) (it_ranges (bi_it b))"
    have "Suc (bi_pos b) < length ?t" using True fits by simp
    then have d: "drop (Suc (bi_pos b)) ?t = ?t ! Suc (bi_pos b) # drop (Suc (Suc (bi_pos b))) ?t" by (rule Cons_nth_drop_Suc [symmetric])
    have x: "x = it_ranges (bi_it b) ! Suc (bi_pos b)" and xs: "expiring F ahead w ?b = xs"
      using ex True unfolding expiring_def d by simp_all
    have "valid_iter st (sn_iter_id sn) (sn_iter_type sn) (put_iter ?i (Some ?b) ni) = Inr ?b" by (rule valid_put [OF v l]) simp
    moreover have "length (ni_iter (put_iter ?i (Some ?b) ni)) = length (ni_iter ni)" by (simp add: put_iter_def)
    ultimately show ?thesis using scan_next [OF v l True, of E w] x xs fits by (intro exI [of _ ?b]) simp
  next
    case False
    show ?thesis
    proof (rule mapped_iter_step [OF law max', where w = w])
      fix it' batch rest
      assume q: "env_range_iter E (dev_handle (get_store_device st)) ?it w = (int (length batch), it')"
        and b: "take (length batch) (it_ranges it') = batch" "ahead w ?it = batch @ rest" "ahead w it' = rest"
          "it_max_ranges it' = it_max_ranges ?it"
      have ar: "ahead w ?it = x # xs" using ex False by (simp add: expiring_def)
      note k = step_keeps_filter [OF law q]
      have ne: "batch \<noteq> []" using k(2) max ar by auto
      then obtain bs where bs: "batch = x # bs" "bs @ rest = xs" using b(2) ar by (cases batch) auto
      have it': "it'\<lparr>it_filter_expiry := F\<rparr> = it'" using k(1) by simp
      let ?b = "b\<lparr>bi_pos := 0, bi_it := it', bi_num_ranges_found := length batch\<rparr>"
      let ?ni = "put_iter ?i (Some ?b) ni"
      have v': "valid_iter st (sn_iter_id sn) (sn_iter_type sn) ?ni = Inr ?b" by (rule valid_put [OF v l]) simp
      have first: "it_ranges it' ! 0 = x" using b(1) bs(1) by (metis length_greater_0_conv ne nth_Cons_0 nth_take)
      have e: "expiring F ahead w ?b = xs" using b(1,3) bs by (simp add: expiring_def it')
      have "perform_scan E st sn w ni = (Inr (br_start_lba x, br_length x), ?ni)"
        using v False filt q ne v' first by (simp add: perform_scan_def iterate_def Let_def get_iter_loc_def current_range_def)
      then show ?thesis using v' e b(4) k(3) by (intro exI [of _ ?b] exI [of _ ?ni]) (simp add: put_iter_def)
    qed
  qed
qed

text \<open>A pass changes the store in its cache only.\<close>

definition cache_apart :: "nvm_kv_store \<Rightarrow> nvm_kv_store \<Rightarrow> bool" where
  "cache_apart st0 st \<longleftrightarrow> (\<exists>c. st = st0\<lparr>st_cache := c\<rparr>)"

lemma cache_apart_same:
  assumes "cache_apart st0 st"
  shows "st_pm st = st_pm st0" "get_store_device st = get_store_device st0" "get_sector_size st = get_sector_size st0"
    "st_safe st = st_safe st0" "valid_iter st i ty ni = valid_iter st0 i ty ni"
    "set_expiry_filter E st ty w it = set_expiry_filter E st0 ty w it" "trim_laws E view st \<longleftrightarrow> trim_laws E view st0"
proof -
  obtain c where c: "st = st0\<lparr>st_cache := c\<rparr>" using assms by (auto simp: cache_apart_def)
  show pm: "st_pm st = st_pm st0" and "st_safe st = st_safe st0" by (simp_all add: c)
  show dev: "get_store_device st = get_store_device st0" "get_sector_size st = get_sector_size st0"
    using pm by (simp_all add: get_store_device_def get_sector_size_def)
  show "trim_laws E view st \<longleftrightarrow> trim_laws E view st0" by (simp add: trim_laws_def dev)
  show "valid_iter st i ty ni = valid_iter st0 i ty ni" unfolding valid_iter_def validate_iter_def pm ..
  show "set_expiry_filter E st ty w it = set_expiry_filter E st0 ty w it"
    unfolding set_expiry_filter_def get_store_metadata_def pm ..
qed

lemma expiry_flush:
  fixes ps :: "nvm_block_range list"
  assumes ca: "cache_apart st0 st" and laws: "trim_laws E view st0" and free: "st_safe st0 = {}"
    and ap: "apart ps" and pos: "\<forall>r \<in> set ps. 0 < br_length r"
    and b: "batch_delete_sync E oth (map (trim_of (get_sector_size st0)) ps) True st w = (q, st', w')"
  shows "flushed view ps w q w'" "cache_apart st0 st'"
proof -
  let ?tr = "trim_of (get_sector_size st0)"
  note s = cache_apart_same [OF ca]
  have lbas: "map iov_lba (map ?tr ps) = map br_start_lba ps" by (simp add: trim_of_def o_def)
  have "distinct (map iov_lba (map ?tr ps))" unfolding lbas by (rule apart_distinct [OF ap pos])
  from batch_delete_sync_free [OF this, of st E oth True w] have e: "batch_delete E st (map ?tr ps) w = (q, w')"
    "st' = st\<lparr>st_cache := map_option (kv_cache_delete_lbas (map iov_lba (map ?tr ps))) (st_cache st)\<rparr>"
    using b free s(4) by (simp_all split: prod.splits)
  show "flushed view ps w q w'"
    using laws ap e(1) s(2,3) batch_delete_flushed [of E st view ps w q w'] by (simp add: trim_laws_def)
  show "cache_apart st0 st'" using ca e(2) by (auto simp: cache_apart_def)
qed

text \<open>What the loop of a pass leaves: one of the errors \<open>es\<close>, or the vectors that are not flushed yet.\<close>

definition expiry_left ::
  "nvm_error set \<Rightarrow> nvm_kv_store \<Rightarrow> ('w \<Rightarrow> sectors) \<Rightarrow> 'w \<Rightarrow> nvm_block_range list \<Rightarrow> int res \<Rightarrow> exp_run \<Rightarrow> 'w \<Rightarrow> bool" where
  "expiry_left es st0 view w rs q r w' \<longleftrightarrow>
     cache_apart st0 (er_st r) \<and>
     (\<exists>A. view w' = trim_set (view w) A \<and> A \<subseteq> sectors_of rs \<and>
        (q \<in> Inl ` es \<or>
         q = Inl NVM_ERR_OBJECT_NOT_FOUND \<and>
           (\<exists>pend. er_iovec r = map (trim_of (get_sector_size st0)) pend \<and> apart pend \<and> set pend \<subseteq> set rs \<and>
              A \<union> sectors_of pend = sectors_of rs)))"

lemma expiry_left_flushed:
  assumes "view w1 = trim_set (view w) (sectors_of ps)" and "expiry_left es st0 view w1 rs q r w'"
  shows "expiry_left es st0 view w (ps @ rs) q r w'"
proof -
  obtain A where A: "view w' = trim_set (view w1) A" "A \<subseteq> sectors_of rs" "cache_apart st0 (er_st r)"
    "q \<in> Inl ` es \<or> q = Inl NVM_ERR_OBJECT_NOT_FOUND \<and>
     (\<exists>pend. er_iovec r = map (trim_of (get_sector_size st0)) pend \<and> apart pend \<and> set pend \<subseteq> set rs \<and>
        A \<union> sectors_of pend = sectors_of rs)"
    using assms(2) by (auto simp: expiry_left_def)
  have "view w' = trim_set (view w) (sectors_of ps \<union> A)" using A(1) assms(1) by (simp add: trim_set_union)
  then show ?thesis
    unfolding expiry_left_def using A(2-4) by (intro conjI exI [of _ "sectors_of ps \<union> A"]) auto
qed

text \<open>
  The loop of a pass, with a check \<open>P\<close> of each range the scan stands on, which depends on the sectors of
  that range; \<open>J\<close> is what the check needs and keeps of the expiry manager, \<open>S\<close> what it needs of the device.
\<close>

lemma expiry_loop_spec:
  fixes st0 :: nvm_kv_store and P :: "sectors \<Rightarrow> nvm_block_range \<Rightarrow> bool"
  defines "dev \<equiv> get_store_device st0" and "tr \<equiv> trim_of (get_sector_size st0)"
  assumes law: "mapped_iter_law E dev view ahead" and laws: "trim_laws E view st0"
    and filt: "\<And>w it. set_expiry_filter E st0 ty w it = Inr (it\<lparr>it_filter_expiry := F\<rparr>)"
    and idle: "\<not> check_pool_del_status (st_pm st0)" and free: "st_safe st0 = {}"
    and iovs: "0 < nvm_max_num_iovs (dev_caps dev)"
    and J: "\<And>em. J em \<Longrightarrow> sn_iter_id em = i \<and> sn_iter_type em = ty"
    and S: "\<And>V A. S V \<Longrightarrow> S (trim_set V A)"
    and check: "\<And>r w x. cache_apart st0 (er_st r) \<Longrightarrow> J (er_em r) \<Longrightarrow> S (view w) \<Longrightarrow> x \<in> X \<Longrightarrow>
       \<exists>d em. expiry_check E (br_start_lba x) r w = Some (d, r\<lparr>er_em := em\<rparr>) \<and> J em \<and>
         (case d of Inl e \<Rightarrow> e \<in> es | Inr d \<Rightarrow> fst d = P (view w) x)"
    and stable: "\<And>V A x. 0 < br_length x \<Longrightarrow> range_sectors x \<inter> A = {} \<Longrightarrow> P (trim_set V A) x = P V x"
    and io: "NVM_ERR_IO \<in> es"
  shows "S (view w) \<Longrightarrow> cache_apart st0 (er_st r) \<Longrightarrow> J (er_em r) \<Longrightarrow> er_iovec r = map tr pend \<Longrightarrow>
    length pend < nvm_max_num_iovs (dev_caps dev) \<Longrightarrow>
    valid_iter st0 i ty (er_ni r) = Inr b \<Longrightarrow> nat i < length (ni_iter (er_ni r)) \<Longrightarrow>
    0 < it_max_ranges (bi_it b) \<Longrightarrow> bi_num_ranges_found b \<le> length (it_ranges (bi_it b)) \<Longrightarrow>
    expiring F ahead w b = rs \<Longrightarrow> set rs \<subseteq> X \<Longrightarrow> apart (pend @ rs) \<Longrightarrow> \<forall>x \<in> set (pend @ rs). 0 < br_length x \<Longrightarrow>
    \<forall>x \<in> set rs. br_length x * get_sector_size st0 \<le> max_trim_size dev \<Longrightarrow>
    \<exists>q r' w'. expiry_loop E oth c r w = Some (q, r', w') \<and>
      expiry_left es st0 view w (pend @ filter (P (view w)) rs) q r' w'"
proof (induction rs arbitrary: c r w pend b)
  case Nil
  note s = cache_apart_same [OF Nil.prems(2)]
  have id: "sn_iter_id (er_em r) = i" "sn_iter_type (er_em r) = ty" using J [OF Nil.prems(3)] by simp_all
  obtain ni' where "perform_scan E (er_st r) (er_em r) w (er_ni r) = (Inl NVM_ERR_OBJECT_NOT_FOUND, ni')"
    using scan_expiring(1) [where st = "er_st r" and sn = "er_em r" and ni = "er_ni r" and b = b and w = w and F = F and ahead = ahead and view = view and E = E]
      law filt Nil.prems(6-10) by (auto simp: s dev_def id)
  then have "expiry_loop E oth c r w = Some (Inl NVM_ERR_OBJECT_NOT_FOUND, r\<lparr>er_ni := ni'\<rparr>, w)"
    using idle by (simp add: expiry_loop.simps [of _ _ _ r] Let_def s)
  moreover have "expiry_left es st0 view w (pend @ []) (Inl NVM_ERR_OBJECT_NOT_FOUND) (r\<lparr>er_ni := ni'\<rparr>) w"
    unfolding expiry_left_def using Nil.prems(2,4,12) by (auto simp: tr_def intro!: exI [of _ "{}"])
  ultimately show ?case by auto
next
  case (Cons x rs)
  note s = cache_apart_same [OF Cons.prems(2)]
  let ?ss = "get_sector_size st0" and ?max = "nvm_max_num_iovs (dev_caps dev)" and ?P = "P (view w)"
  have id: "sn_iter_id (er_em r) = i" "sn_iter_type (er_em r) = ty" using J [OF Cons.prems(3)] by simp_all
  obtain b' ni' where p: "perform_scan E (er_st r) (er_em r) w (er_ni r) = (Inr (br_start_lba x, br_length x), ni')"
    and n: "valid_iter st0 i ty ni' = Inr b'" "length (ni_iter ni') = length (ni_iter (er_ni r))"
      "it_max_ranges (bi_it b') = it_max_ranges (bi_it b)" "bi_num_ranges_found b' \<le> length (it_ranges (bi_it b'))"
      "expiring F ahead w b' = rs"
    using scan_expiring(2) [where st = "er_st r" and sn = "er_em r" and ni = "er_ni r" and b = b and w = w and F = F and ahead = ahead and view = view and E = E
        and x = x and xs = rs]
      law filt Cons.prems(6-10) by (auto simp: s dev_def id)
  have ap: "apart (pend @ [x])" "apart ((pend @ [x]) @ rs)" "apart rs" "sectors_of (pend @ [x]) \<inter> sectors_of rs = {}" "apart (pend @ rs)"
    using Cons.prems(12) by (auto simp: apart_append)
  have pos: "\<forall>y \<in> set (pend @ [x]). 0 < br_length y" "\<forall>y \<in> set ((pend @ [x]) @ rs). 0 < br_length y" "\<forall>y \<in> set ([] @ rs). 0 < br_length y"
    "\<forall>y \<in> set (pend @ rs). 0 < br_length y"
    using Cons.prems(13) by auto
  have lens: "br_length x * ?ss \<le> max_trim_size dev" "\<forall>y \<in> set rs. br_length y * ?ss \<le> max_trim_size dev" using Cons.prems(14) by simp_all
  have X: "x \<in> X" "set rs \<subseteq> X" using Cons.prems(11) by simp_all
  have ni: "nat i < length (ni_iter ni')" using Cons.prems(7) n(2) by simp
  have start: "cache_apart st0 (er_st (r\<lparr>er_ni := ni'\<rparr>))" "J (er_em (r\<lparr>er_ni := ni'\<rparr>))" using Cons.prems(2,3) by simp_all
  obtain d em where d: "expiry_check E (br_start_lba x) (r\<lparr>er_ni := ni'\<rparr>) w = Some (d, r\<lparr>er_ni := ni', er_em := em\<rparr>)"
    and em: "J em" "case d of Inl e \<Rightarrow> e \<in> es | Inr d \<Rightarrow> fst d = ?P x"
    using check [OF start Cons.prems(1) X(1)] by auto
  let ?r0 = "r\<lparr>er_ni := ni', er_em := em\<rparr>"
  define a where "a = expiry_add E oth (br_start_lba x) (br_length x) (snd (projr d)) ?r0 w"
  have run: "expiry_loop E oth c r w =
      (case d of Inl e \<Rightarrow> Some (Inl e, ?r0, w)
       | Inr d \<Rightarrow> if \<not> fst d then expiry_loop E oth 0 ?r0 w
           else (case fst a of Inl e \<Rightarrow> Some a | Inr ret \<Rightarrow> expiry_loop E oth ret (fst (snd a)) (snd (snd a))))"
    using idle p d by (simp add: expiry_loop.simps [of _ _ _ r] Let_def s a_def split: sum.split)
  consider e where "d = Inl e" "e \<in> es" | k where "d = Inr (False, k)" "\<not> ?P x" | k where "d = Inr (True, k)" "?P x"
    using em(2) by (cases d) auto
  then show ?case
  proof cases
    case 1
    then have "expiry_left es st0 view w (pend @ filter ?P (x # rs)) (Inl e) ?r0 w"
      unfolding expiry_left_def using Cons.prems(2) by (auto intro!: exI [of _ "{}"])
    then show ?thesis using run 1(1) by auto
  next
    case 2
    have "\<exists>q r' w'. expiry_loop E oth 0 ?r0 w = Some (q, r', w') \<and> expiry_left es st0 view w (pend @ filter ?P rs) q r' w'"
      by (rule Cons.IH [where r = ?r0 and pend = pend and b = b' and w = w]) (use Cons.prems(1,2,4,5,8) em(1) ap(5) pos(4) lens(2) n ni X(2) in auto)
    then show ?thesis using run 2 by simp
  next
    case 3
    let ?r = "?r0\<lparr>er_iovec := map tr (pend @ [x])\<rparr>"
    have t: "trim_iov (br_start_lba x) (br_length x * nvm_sector_size (dev_caps dev)) = tr x"
      by (simp add: tr_def trim_of_def get_sector_size_def dev_def)
    show ?thesis
    proof (cases "length (pend @ [x]) = ?max")
      case False
      have "a = (Inr k, ?r, w)"
        using False lens(1) t Cons.prems(4) 3(1) unfolding a_def expiry_add_def
        by (simp add: Let_def s flip: dev_def) (simp add: get_sector_size_def dev_def)
      moreover have "\<exists>q r' w'. expiry_loop E oth k ?r w = Some (q, r', w') \<and>
          expiry_left es st0 view w ((pend @ [x]) @ filter ?P rs) q r' w'"
        by (rule Cons.IH [where r = ?r and pend = "pend @ [x]" and b = b' and w = w]) (use Cons.prems(1,2,5,8) em(1) False ap(2) pos(2) lens(2) n ni X(2) in auto)
      ultimately show ?thesis using run 3 by simp
    next
      case True
      obtain q st1 w1 where q: "batch_delete_sync E oth (map tr (pend @ [x])) True (er_st r) w = (q, st1, w1)"
        by (meson prod_cases3)
      have f: "flushed view (pend @ [x]) w q w1" "cache_apart st0 st1"
        using expiry_flush [OF Cons.prems(2) laws free ap(1) pos(1)] q unfolding tr_def by blast+
      have a: "a = (case q of Inl e \<Rightarrow> (Inl e, ?r\<lparr>er_st := st1\<rparr>, w1) | Inr _ \<Rightarrow> (Inr 0, ?r\<lparr>er_st := st1, er_iovec := []\<rparr>, w1))"
        using True lens(1) t q Cons.prems(4) unfolding a_def expiry_add_def
        by (simp add: Let_def s flip: dev_def split: sum.split) (simp add: get_sector_size_def dev_def)
      show ?thesis
      proof (cases q)
        case (Inl e)
        then have "e = NVM_ERR_IO" "view w1 = view w" using f(1) by (simp_all add: flushed_def)
        then have "expiry_left es st0 view w (pend @ filter ?P (x # rs)) (Inl e) (?r\<lparr>er_st := st1\<rparr>) w1"
          unfolding expiry_left_def using f(2) io by (auto intro!: exI [of _ "{}"])
        then show ?thesis using run a Inl 3(1) by auto
      next
        case (Inr u)
        let ?r1 = "?r\<lparr>er_st := st1, er_iovec := []\<rparr>"
        have v: "view w1 = trim_set (view w) (sectors_of (pend @ [x]))" using f(1) Inr by (simp add: flushed_def)
        have sv: "S (view w1)" unfolding v by (rule S [OF Cons.prems(1)])
        have e: "expiring F ahead w1 b' = rs"
        proof -
          have "sectors_of (ahead w ((bi_it b')\<lparr>it_filter_expiry := F\<rparr>)) \<subseteq> sectors_of rs"
            using n(5) by (auto simp: expiring_def)
          then have "ahead w1 ((bi_it b')\<lparr>it_filter_expiry := F\<rparr>) = ahead w ((bi_it b')\<lparr>it_filter_expiry := F\<rparr>)"
            using ap(4) by (intro ahead_stable [OF law v]) blast
          then show ?thesis using n(5) by (simp add: expiring_def)
        qed
        have same: "filter (P (view w1)) rs = filter ?P rs"
        proof (rule filter_cong [OF refl])
          fix y assume y: "y \<in> set rs"
          then have "range_sectors y \<inter> sectors_of (pend @ [x]) = {}" using ap(4) by (auto simp: sectors_of_def)
          then show "P (view w1) y = ?P y" unfolding v using y pos(3) by (intro stable) simp_all
        qed
        have "\<exists>q r' w'. expiry_loop E oth 0 ?r1 w1 = Some (q, r', w') \<and>
            expiry_left es st0 view w1 ([] @ filter (P (view w1)) rs) q r' w'"
          by (rule Cons.IH [where r = ?r1 and pend = "[]" and b = b' and w = w1]) (use sv Cons.prems(8) em(1) f(2) iovs ap(3) pos(3) lens(2) n(1,3,4) ni e X(2) in auto)
        then obtain q2 r2 w2 where l: "expiry_loop E oth 0 ?r1 w1 = Some (q2, r2, w2)" "expiry_left es st0 view w1 (filter ?P rs) q2 r2 w2"
          unfolding same by auto
        have "expiry_left es st0 view w (pend @ filter ?P (x # rs)) q2 r2 w2"
          using expiry_left_flushed [OF v l(2)] 3(2) by simp
        then show ?thesis using run a Inr l(1) 3(1) by auto
      qed
    qed
  qed
qed

text \<open>The rest of the pass: the vectors that are left are flushed unless an error ended the loop.\<close>

lemma expiry_finish_spec:
  assumes laws: "trim_laws E view st" and free: "st_safe st = {}"
    and es: "NVM_ERR_IO \<in> es" "NVM_ERR_OBJECT_NOT_FOUND \<notin> es"
    and pos: "\<forall>x \<in> set rs. 0 < br_length x" and left: "expiry_left es st view w rs q r w1"
  shows "\<exists>ret run w'. expiry_finish E oth (q, r, w1) = (ret, run, w') \<and> cache_apart st (er_st run) \<and>
     (case ret of
        Inr n \<Rightarrow> n = 0 \<and> view w' = trim_set (view w) (sectors_of rs)
      | Inl e \<Rightarrow> e \<in> es \<and> (\<exists>A \<subseteq> sectors_of rs. view w' = trim_set (view w) A))"
proof -
  let ?ss = "get_sector_size st"
  obtain A where A: "cache_apart st (er_st r)" "view w1 = trim_set (view w) A" "A \<subseteq> sectors_of rs"
    "q \<in> Inl ` es \<or> q = Inl NVM_ERR_OBJECT_NOT_FOUND \<and>
      (\<exists>pend. er_iovec r = map (trim_of ?ss) pend \<and> apart pend \<and> set pend \<subseteq> set rs \<and> A \<union> sectors_of pend = sectors_of rs)"
    using left unfolding expiry_left_def by blast
  show ?thesis
  proof (cases "q \<in> Inl ` es")
    case True
    then obtain e where e: "q = Inl e" "e \<in> es" by blast
    then have "e \<noteq> NVM_ERR_OBJECT_NOT_FOUND" using es(2) by blast
    then show ?thesis using e A(1-3) by (auto simp: expiry_finish_def split: prod.split)
  next
    case False
    then obtain pend where p: "q = Inl NVM_ERR_OBJECT_NOT_FOUND" "er_iovec r = map (trim_of ?ss) pend" "apart pend"
      "set pend \<subseteq> set rs" "A \<union> sectors_of pend = sectors_of rs" using A(4) by blast
    show ?thesis
    proof (cases "pend = []")
      case True
      then show ?thesis using A(1,2) p(1,2,5) by (auto simp: expiry_finish_def split: prod.split)
    next
      case False
      obtain z st2 w2 where z: "batch_delete_sync E oth (map (trim_of ?ss) pend) True (er_st r) w1 = (z, st2, w2)"
        by (meson prod_cases3)
      have "\<forall>r \<in> set pend. 0 < br_length r" using p(4) pos by auto
      note f = expiry_flush [OF A(1) laws free p(3) this z]
      have t: "loop_trimmed view w (rs @ []) z w2"
        by (rule loop_trimmed_after [OF A(2) p(5)]) (use loop_trimmed_flush [OF f(1)] in simp)
      have "\<exists>run. expiry_finish E oth (q, r, w1) = (map_sum id (\<lambda>_. 0) z, run, w2) \<and> er_st run = st2"
        using False p(1,2) z by (simp add: expiry_finish_def split: prod.split)
      then obtain run where e: "expiry_finish E oth (q, r, w1) = (map_sum id (\<lambda>_. 0) z, run, w2)" "er_st run = st2" by blast
      show ?thesis
        unfolding e(1) using t f(2) e(2) es(1)
        by (intro exI [of _ "map_sum id (\<lambda>_. 0) z"] exI [of _ run] exI [of _ w2]) (cases z; auto simp: loop_trimmed_def)
    qed
  qed
qed

lemma start_expiry_spec:
  fixes st :: nvm_kv_store and em :: nvm_kv_expiry_mgr and P :: "sectors \<Rightarrow> nvm_block_range \<Rightarrow> bool"
    and ahead :: "'w \<Rightarrow> nvm_logical_range_iter \<Rightarrow> nvm_block_range list" and F :: int
  defines "rs \<equiv> \<lambda>w b. ahead w ((bi_it b)\<lparr>it_filter_expiry := F\<rparr>)"
  assumes law: "mapped_iter_law E (get_store_device st) view ahead" and laws: "trim_laws E view st"
    and filt: "\<And>w it. set_expiry_filter E st (sn_iter_type em) w it = Inr (it\<lparr>it_filter_expiry := F\<rparr>)"
    and idle: "\<not> check_pool_del_status (st_pm st)" and free: "st_safe st = {}"
    and iovs: "0 < nvm_max_num_iovs (dev_caps (get_store_device st))"
    and J: "J em" "\<And>em'. J em' \<Longrightarrow> sn_iter_id em' = sn_iter_id em \<and> sn_iter_type em' = sn_iter_type em"
    and S: "S (view w0)" "\<And>V A. S V \<Longrightarrow> S (trim_set V A)"
    and check: "\<And>r w x. cache_apart st (er_st r) \<Longrightarrow> J (er_em r) \<Longrightarrow> S (view w) \<Longrightarrow> x \<in> set (rs w0 b) \<Longrightarrow>
       \<exists>d em. expiry_check E (br_start_lba x) r w = Some (d, r\<lparr>er_em := em\<rparr>) \<and> J em \<and>
         (case d of Inl e \<Rightarrow> e \<in> es | Inr d \<Rightarrow> fst d = P (view w) x)"
    and stable: "\<And>V A x. 0 < br_length x \<Longrightarrow> range_sectors x \<inter> A = {} \<Longrightarrow> P (trim_set V A) x = P V x"
    and es: "NVM_ERR_IO \<in> es" "NVM_ERR_OBJECT_NOT_FOUND \<notin> es"
    and valid: "valid_iter st (sn_iter_id em) (sn_iter_type em) ni = Inr b" "nat (sn_iter_id em) < length (ni_iter ni)"
    and fits: "0 < it_max_ranges (bi_it b)" "bi_num_ranges_found b \<le> length (it_ranges (bi_it b))"
    and fresh: "bi_num_ranges_found b \<le> Suc (bi_pos b)"
    and lens: "\<forall>x \<in> set (rs w0 b). br_length x * get_sector_size st \<le> max_trim_size (get_store_device st)"
  shows "\<exists>r run w'. start_expiry E oth em ni st w0 = Some (r, run, w') \<and> cache_apart st (er_st run) \<and>
     (case r of
        Inr n \<Rightarrow> n = 0 \<and> view w' = trim_set (view w0) (sectors_of (filter (P (view w0)) (rs w0 b)))
      | Inl e \<Rightarrow> e \<in> es \<and> (\<exists>A \<subseteq> sectors_of (filter (P (view w0)) (rs w0 b)). view w' = trim_set (view w0) A))"
proof -
  let ?rs = "rs w0 b" and ?xs = "filter (P (view w0)) (rs w0 b)"
  let ?r = "\<lparr>er_iovec = [], er_em = em, er_ni = ni, er_st = st\<rparr>"
  have rs: "expiring F ahead w0 b = ?rs" using fresh by (simp add: expiring_def rs_def)
  have ap: "apart ([] @ ?rs)" and pos: "\<forall>x \<in> set ([] @ ?rs). 0 < br_length x" using law by (simp_all add: mapped_iter_law_def rs_def)
  have "cache_apart st (er_st ?r)" by (auto simp: cache_apart_def intro!: exI [of _ "st_cache st"])
  then have "\<exists>q r' w'. expiry_loop E oth 0 ?r w0 = Some (q, r', w') \<and> expiry_left es st view w0 ([] @ ?xs) q r' w'"
    by (intro expiry_loop_spec [where J = J and S = S and P = P and b = b and X = "set ?rs", OF law laws filt idle free iovs J(2) S(2) check stable es(1)])
      (use S(1) J(1) iovs valid fits rs ap pos lens in simp_all)
  then obtain q r' w1 where loop: "expiry_loop E oth 0 ?r w0 = Some (q, r', w1)" and left: "expiry_left es st view w0 ?xs q r' w1" by auto
  have "\<forall>x \<in> set ?xs. 0 < br_length x" using pos by simp
  from expiry_finish_spec [OF laws free es this left] show ?thesis
    using loop by (force simp: start_expiry_def)
qed

text \<open>
  C15: a pass of the global expiry is exact. On a device whose iterator hands out the ranges that have
  passed the filter, with no range left in the iterator from an earlier scan, the pass returns: on success
  it has trimmed exactly the ranges that the device reports as expired at the time of the pass, and no
  other sector has changed; an I/O error has trimmed such ranges only. The pass changes nothing of the
  store but its cache. The number of vectors per batch and of ranges per call does not matter; the clock
  stands still during the pass, since every call of the iterator computes the filter anew.
\<close>

theorem global_expiry_exact:
  fixes st :: nvm_kv_store and em :: nvm_kv_expiry_mgr and t :: nat and ahead :: "'w \<Rightarrow> nvm_logical_range_iter \<Rightarrow> nvm_block_range list"
  defines "F \<equiv> int t - uint (sm_global_expiry (get_store_metadata st))"
  assumes law: "mapped_iter_law E (get_store_device st) view ahead" and laws: "trim_laws E view st"
    and type: "sn_iter_type em = KV_GLB_EXP_ITER" and clock: "\<forall>w. env_time E w = t"
    and glb: "sm_global_expiry (get_store_metadata st) \<noteq> 0" and idle: "\<not> check_pool_del_status (st_pm st)"
    and free: "st_safe st = {}" and iovs: "0 < nvm_max_num_iovs (dev_caps (get_store_device st))"
    and valid: "valid_iter st (sn_iter_id em) (sn_iter_type em) ni = Inr b" "nat (sn_iter_id em) < length (ni_iter ni)"
    and fits: "0 < it_max_ranges (bi_it b)" "bi_num_ranges_found b \<le> length (it_ranges (bi_it b))"
    and fresh: "bi_num_ranges_found b \<le> Suc (bi_pos b)"
    and lens: "\<forall>x \<in> set (ahead w ((bi_it b)\<lparr>it_filter_expiry := F\<rparr>)).
       br_length x * get_sector_size st \<le> max_trim_size (get_store_device st)"
  shows "\<exists>r run w'. start_expiry E oth em ni st w = Some (r, run, w') \<and> cache_apart st (er_st run) \<and>
     (case r of
        Inr n \<Rightarrow> n = 0 \<and> view w' = trim_set (view w) (sectors_of (ahead w ((bi_it b)\<lparr>it_filter_expiry := F\<rparr>)))
      | Inl e \<Rightarrow> e = NVM_ERR_IO \<and>
          (\<exists>A \<subseteq> sectors_of (ahead w ((bi_it b)\<lparr>it_filter_expiry := F\<rparr>)). view w' = trim_set (view w) A))"
proof -
  have filt: "set_expiry_filter E st (sn_iter_type em) w it = Inr (it\<lparr>it_filter_expiry := F\<rparr>)" for w it
    using type clock glb by (simp add: set_expiry_filter_def F_def)
  have check: "\<exists>d em'. expiry_check E (br_start_lba x) r w = Some (d, r\<lparr>er_em := em'\<rparr>) \<and> em' = em \<and>
      (case d of Inl e \<Rightarrow> e \<in> {NVM_ERR_IO} | Inr d \<Rightarrow> fst d = True)" if "er_em r = em" for r w and x :: nvm_block_range
    using that type by (intro exI [of _ "Inr (True, 0)"] exI [of _ em]) (simp add: expiry_check_def flip: that)
  have all: "filter (\<lambda>x. True) xs = xs" for xs :: "nvm_block_range list" by simp
  show ?thesis
    by (rule start_expiry_spec [where J = "\<lambda>em'. em' = em" and S = "\<lambda>V. True" and P = "\<lambda>V x. True" and es = "{NVM_ERR_IO}" and oth = oth,
        OF law laws filt idle free iovs refl _ TrueI _ check _ _ _ valid fits fresh lens, unfolded all singleton_iff]) simp_all
qed

definition fresh_batch :: kv_batch_iterator where
  "fresh_batch = raw_iter
     \<lparr>bi_pool_id := - 1,
      bi_it := (bi_it raw_iter)\<lparr>it_range_to_iterate := \<lparr>br_start_lba = 8192, br_length = 1000\<rparr>, it_max_ranges := 8\<rparr>\<rparr>"

theorem global_expiry_exact_witness:
  "\<exists>ni r run w'. start_expiry sim_iter_env (\<lambda>l s. s) sim_expiry_mgr ni expiring_store
       [9000 \<mapsto> zeros 512, 9001 \<mapsto> zeros 512, 20480 \<mapsto> zeros 512] = Some (r, run, w') \<and>
     (case r of Inr n \<Rightarrow> n = 0 \<and> w' = [20480 \<mapsto> zeros 512] | Inl e \<Rightarrow> e = NVM_ERR_IO)"
proof -
  let ?w = "[9000 \<mapsto> zeros 512, 9001 \<mapsto> zeros 512, 20480 \<mapsto> zeros 512] :: sectors"
  define ni where "ni = put_iter 130 (Some fresh_batch) sim_iterator"
  have dev: "get_store_device expiring_store = sim_device" "get_sector_size expiring_store = 512"
    by (simp_all add: expiring_store_def set_metadata_def get_store_device_def get_sector_size_def sim_store_def
        sim_pm_def) (simp add: sim_device_def sim_caps_def)
  have len: "nat (sn_iter_id sim_expiry_mgr) < length (ni_iter ni)"
    using sim_iter_setup(3) by (simp add: sim_expiry_mgr_def ni_def iterator_indices)
  have pool: "bi_pool_id fresh_batch = word_of_int get_all_poolid"
    by (simp add: fresh_batch_def get_all_poolid_def M_POOLID_ALL_def)
  have "validate_iter expiring_store 130 KV_GLB_EXP_ITER ni = Inr ()"
    using len pool unfolding validate_iter_ok pool_live_def
    by (simp add: iter_id_ok_def scanner_slot_def iterator_indices ni_def put_iter_def sim_expiry_mgr_def)
  then have v: "valid_iter expiring_store (sn_iter_id sim_expiry_mgr) (sn_iter_type sim_expiry_mgr) ni = Inr fresh_batch"
    using len by (simp add: valid_iter_def sim_expiry_mgr_def) (simp add: ni_def put_iter_def)
  have laws: "trim_laws sim_iter_env (\<lambda>w. w) expiring_store"
    using sim_iter_batch dev by (simp add: trim_laws_def)
  have clock: "\<forall>w. env_time sim_iter_env w = env_time sim_iter_env (\<lambda>i. None)" by (simp add: sim_iter_env_def sim_env_def)
  have glb: "sm_global_expiry (get_store_metadata expiring_store) \<noteq> 0"
    "\<not> check_pool_del_status (st_pm expiring_store)" "st_safe expiring_store = {}"
    "0 < nvm_max_num_iovs (dev_caps (get_store_device expiring_store))"
    unfolding dev by (simp_all add: expiring_store_def set_metadata_def get_store_metadata_def check_pool_del_status_def
        sim_store_def sim_pm_def demo_pm_def) (simp add: sim_device_def sim_caps_def)
  have type: "sn_iter_type sim_expiry_mgr = KV_GLB_EXP_ITER" by (simp add: sim_expiry_mgr_def)
  have fits: "0 < it_max_ranges (bi_it fresh_batch)" "bi_num_ranges_found fresh_batch \<le> length (it_ranges (bi_it fresh_batch))"
    "bi_num_ranges_found fresh_batch \<le> Suc (bi_pos fresh_batch)"
    by (simp_all add: fresh_batch_def raw_iter_def)
  have lens: "\<forall>x \<in> set (sim_ahead ?w it). br_length x * get_sector_size expiring_store \<le> max_trim_size (get_store_device expiring_store)" for it
    unfolding dev by (simp add: sim_ahead_def unit_range_def max_trim_size_def) (simp add: sim_device_def sim_caps_def)
  have rs: "sectors_of (sim_ahead ?w ((bi_it fresh_batch)\<lparr>it_filter_expiry := F\<rparr>)) = {9000, 9001}" for F
    unfolding sim_ahead_sectors sim_sectors_def set_filter set_upt
    by (auto simp: sim_selects_def sim_range_end_def fresh_batch_def raw_iter_def split: if_splits)
  from global_expiry_exact [where E = sim_iter_env and view = "\<lambda>w. w" and ahead = sim_ahead and st = expiring_store and
      em = sim_expiry_mgr and w = ?w and oth = "\<lambda>l s. s" and ni = ni and b = fresh_batch,
      OF sim_mapped_law laws type clock glb v len fits lens, unfolded rs]
  obtain r run w' where s: "start_expiry sim_iter_env (\<lambda>l s. s) sim_expiry_mgr ni expiring_store ?w = Some (r, run, w')"
    "case r of Inr n \<Rightarrow> n = 0 \<and> w' = trim_set ?w {9000, 9001}
     | Inl e \<Rightarrow> e = NVM_ERR_IO \<and> (\<exists>A \<subseteq> {9000, 9001}. w' = trim_set ?w A)"
    by (elim exE conjE) (rule that)
  have "trim_set ?w {9000, 9001} = [20480 \<mapsto> zeros 512]" by (auto simp: trim_set_def fun_eq_iff)
  then show ?thesis
    using s by (intro exI [of _ ni] exI [of _ r] exI [of _ run] exI [of _ w']) (cases r; simp)
qed

section \<open>The exact effect of a pass over keys with an expiry of their own\<close>

text \<open>The header that starts in a sector is that of a key whose time has passed.\<close>

definition expired_at :: "nat \<Rightarrow> nat \<Rightarrow> sectors \<Rightarrow> u64 \<Rightarrow> bool" where
  "expired_at t ss V lba =
     (let hdr = load_header (sector_at ss V (unat lba)); expiry = md_expiry (hdr_metadata hdr)
      in valid_key_len hdr \<and> expiry \<noteq> 0 \<and> expiry < of_nat t)"

text \<open>A buffer pool that is not initialised yet, or has a buffer to give.\<close>

definition scanner_bufs :: "nvm_kv_buffer_pool \<Rightarrow> bool" where
  "scanner_bufs bufs \<longleftrightarrow> bp_wf bufs \<and> (m_initialized bufs \<longrightarrow> m_buffers bufs \<noteq> [])"

lemma scanner_initialize:
  assumes "alloc_law E" and "scanner_bufs bufs"
    and "bp_initialize (env_memalign E w) M_MAX_SCANNER_BUFFERS ss ss bufs = (r, bufs')"
  shows "scanner_bufs bufs'" "case r of Inl e \<Rightarrow> e = NVM_ERR_OUT_OF_MEMORY | Inr u \<Rightarrow> bufs_ready bufs'"
proof -
  have m: "memalign_ok (env_memalign E w)" using assms(1) by (simp add: alloc_law_def)
  have wf: "bp_wf bufs" using assms(2) by (simp add: scanner_bufs_def)
  obtain ok bp where l: "bp_alloc_loop (env_memalign E w) ss M_MAX_SCANNER_BUFFERS bufs = (ok, bp)" by force
  note a = bp_alloc_loop_wf [OF m wf l]
  have "scanner_bufs bufs' \<and> (case r of Inl e \<Rightarrow> e = NVM_ERR_OUT_OF_MEMORY | Inr u \<Rightarrow> bufs_ready bufs')"
  proof (cases "m_initialized bufs")
    case True
    then show ?thesis using assms(2,3) by (auto simp: bp_initialize_def scanner_bufs_def bufs_ready_def)
  next
    case False
    have flag: "m_initialized (snd (bp_alloc_loop f lim n bp)) = m_initialized bp" for f lim n bp
      by (induction f lim n bp rule: bp_alloc_loop.induct) (auto split: option.split)
    then have "\<not> m_initialized bp" using False l by (metis snd_conv)
    then show ?thesis
      using assms(3) False l a
      by (cases ok) (auto simp: bp_initialize_def scanner_bufs_def bufs_ready_def bp_wf_def M_MAX_SCANNER_BUFFERS_def M_MAX_BUFFERS_def)
  qed
  then show "scanner_bufs bufs'" "case r of Inl e \<Rightarrow> e = NVM_ERR_OUT_OF_MEMORY | Inr u \<Rightarrow> bufs_ready bufs'" by blast+
qed

lemma check_reads:
  assumes read: "read_law E (get_store_device st) capacity view" and alloc: "alloc_law E"
    and ss: "get_sector_size st = 2 ^ k" "6 \<le> k" and one: "0 < nvm_max_num_iovs (dev_caps (get_store_device st))"
    and inside: "unat lba < capacity" and bufs: "scanner_bufs (sn_bufs sn)" and clock: "env_time E w = t"
    and sized: "sectors_sized k (view w)"
  shows "\<exists>x bufs. is_valid_for_del E st lba w sn = Some (x, sn\<lparr>sn_bufs := bufs\<rparr>) \<and> scanner_bufs bufs \<and>
     (case x of
        Inl e \<Rightarrow> e \<in> {NVM_ERR_OUT_OF_MEMORY, NVM_ERR_MEMORY_NOT_ALIGNED}
      | Inr c \<Rightarrow> fst c = expired_at t (2 ^ k) (view w) lba)"
proof -
  let ?dev = "get_store_device st" and ?ss = "2 ^ k :: nat"
  have dev: "nvm_sector_size (dev_caps ?dev) = ?ss" using ss(1) by (simp add: get_sector_size_def)
  obtain r bufs1 where i: "bp_initialize (env_memalign E w) M_MAX_SCANNER_BUFFERS ?ss ?ss (sn_bufs sn) = (r, bufs1)" by force
  note ini = scanner_initialize [OF alloc bufs i]
  show ?thesis
  proof (cases r)
    case (Inl e)
    then show ?thesis using ini i
      by (intro exI [of _ "Inl e"] exI [of _ bufs1]) (simp add: is_valid_for_del_def ss)
  next
    case (Inr u)
    then have ready: "bufs_ready bufs1" using ini(2) by simp
    have pos: "0 < ?ss" by simp
    show ?thesis
    proof (cases rule: get_buf_ready [OF alloc ready pos, where w = w and k = k])
      case (1 bufs')
      then show ?thesis using i Inr ini(1)
        by (intro exI [of _ "Inl NVM_ERR_OUT_OF_MEMORY"] exI [of _ bufs1]) (simp add: is_valid_for_del_def ss)
    next
      case buf: (2 mb n bufs')
      let ?iov = "read_iov (mb_addr mb) ?ss lba"
      have rel: "scanner_bufs (release_if True (Some mb') n bufs')" if "length (mb_mem mb') = n" for mb'
        using release_ready(1) [OF buf(4) that] by (simp add: scanner_bufs_def bufs_ready_def)
      have rd: "case nvm_readv E ?dev [?iov] w of
          Inl e \<Rightarrow> e = NVM_ERR_MEMORY_NOT_ALIGNED \<and> (\<exists>iov \<in> set [?iov]. iov_base iov AND of_nat (nvm_sector_size (dev_caps ?dev) - 1) \<noteq> 0)
        | Inr got \<Rightarrow> got = read_sectors (nvm_sector_size (dev_caps ?dev)) (view w) (unat (iov_lba (hd [?iov]))) 1"
        by (rule nvm_readv_cases [OF read alloc]) (use one inside dev in simp_all)
      show ?thesis
      proof (cases "nvm_readv E ?dev [?iov] w")
        case (Inl e)
        then show ?thesis using rd i Inr buf(1,3) rel [of mb]
          by (intro exI [of _ "Inl e"] exI [of _ "release_if True (Some mb) n bufs'"]) (simp add: is_valid_for_del_def ss)
      next
        case got: (Inr got)
        let ?s = "sector_at ?ss (view w) (unat lba)"
        have s: "got = ?s" using rd got dev by (simp add: read_sectors_def)
        have len: "length ?s = ?ss" by (rule length_sector_at [OF sized])
        let ?mb = "mb\<lparr>mb_mem := memcpy 0 (take ?ss got) (mb_mem mb)\<rparr>"
        have mb: "length (mb_mem ?mb) = n" "mb_mem ?mb = ?s @ drop ?ss (mb_mem mb)"
          using buf(2,3) len by (simp_all add: s memcpy_def)
        have "M_KV_HEADER_SIZE \<le> length ?s"
        proof -
          have "(2::nat) ^ 6 \<le> 2 ^ k" using ss(2) by (intro power_increasing) simp_all
          then show ?thesis by (simp add: len M_KV_HEADER_SIZE_def)
        qed
        then have h: "load_header (mb_mem ?mb) = load_header ?s" by (simp only: mb(2) load_header_append)
        have "is_valid_for_del E st lba w sn =
            Some (Inr (check_del_header E w (load_header ?s)), sn\<lparr>sn_bufs := release_if True (Some ?mb) n bufs'\<rparr>)"
          using i Inr buf(1) got h by (simp add: is_valid_for_del_def ss Let_def)
        moreover have "fst (check_del_header E w (load_header ?s)) = expired_at t ?ss (view w) lba"
          by (auto simp: check_del_header_def expired_at_def Let_def clock)
        ultimately show ?thesis using rel [OF mb(1)] by auto
      qed
    qed
  qed
qed

lemma sectors_sized_trim: "sectors_sized k V \<Longrightarrow> sectors_sized k (trim_set V A)"
  by (simp add: sectors_sized_def trim_set_def)

lemma expired_at_stable:
  assumes "0 < br_length x" and "range_sectors x \<inter> A = {}"
  shows "expired_at t ss (trim_set V A) (br_start_lba x) = expired_at t ss V (br_start_lba x)"
proof -
  have "unat (br_start_lba x) \<in> range_sectors x" using assms(1) by (simp add: range_sectors_def)
  then have "sector_at ss (trim_set V A) (unat (br_start_lba x)) = sector_at ss V (unat (br_start_lba x))"
    using assms(2) by (auto simp: sector_at_def trim_set_def)
  then show ?thesis by (simp add: expired_at_def)
qed

text \<open>
  C16: a pass over keys with an expiry of their own is exact. Setting: no range is left in the iterator from an
  earlier scan, the clock stands still during the pass, reads inside the capacity succeed and all ranges lie
  there, no range is longer than the largest trim, no pool deletion is waiting and no address is held. The scan stands
  on every range the device reports, reads its first sector and removes the range if the header there is
  that of a key whose time has passed. The pass returns: on success it has trimmed exactly the ranges of
  expired keys, and no other sector has changed; an error (of the device, or of a buffer that could not
  be allocated or is not aligned) has trimmed such ranges only. The number of vectors per batch and of ranges per
  call does not matter; the scanner's buffers may still have to be allocated.
\<close>

theorem key_expiry_exact:
  fixes st :: nvm_kv_store and em :: nvm_kv_expiry_mgr and t :: nat and ahead :: "'w \<Rightarrow> nvm_logical_range_iter \<Rightarrow> nvm_block_range list"
  defines "rs \<equiv> \<lambda>w b. ahead w ((bi_it b)\<lparr>it_filter_expiry := 0\<rparr>)"
    and "expired \<equiv> \<lambda>V x. expired_at t (get_sector_size st) V (br_start_lba x)"
  assumes law: "mapped_iter_law E (get_store_device st) view ahead" and laws: "trim_laws E view st"
    and type: "sn_iter_type em = KV_ARB_EXP_ITER" and clock: "\<forall>w. env_time E w = t"
    and read: "read_law E (get_store_device st) capacity view" and alloc: "alloc_law E"
    and size: "get_sector_size st = 2 ^ k" "6 \<le> k" "sectors_sized k (view w)"
    and bufs: "scanner_bufs (sn_bufs em)"
    and idle: "\<not> check_pool_del_status (st_pm st)" and free: "st_safe st = {}"
    and iovs: "0 < nvm_max_num_iovs (dev_caps (get_store_device st))"
    and valid: "valid_iter st (sn_iter_id em) (sn_iter_type em) ni = Inr b" "nat (sn_iter_id em) < length (ni_iter ni)"
    and fits: "0 < it_max_ranges (bi_it b)" "bi_num_ranges_found b \<le> length (it_ranges (bi_it b))"
    and fresh: "bi_num_ranges_found b \<le> Suc (bi_pos b)"
    and lens: "\<forall>x \<in> set (rs w b). br_length x * get_sector_size st \<le> max_trim_size (get_store_device st)"
    and inside: "\<forall>x \<in> set (rs w b). unat (br_start_lba x) < capacity"
  shows "\<exists>r run w'. start_expiry E oth em ni st w = Some (r, run, w') \<and> cache_apart st (er_st run) \<and>
     (case r of
        Inr n \<Rightarrow> n = 0 \<and> view w' = trim_set (view w) (sectors_of (filter (expired (view w)) (rs w b)))
      | Inl e \<Rightarrow> e \<in> {NVM_ERR_IO, NVM_ERR_OUT_OF_MEMORY, NVM_ERR_MEMORY_NOT_ALIGNED} \<and>
          (\<exists>A \<subseteq> sectors_of (filter (expired (view w)) (rs w b)). view w' = trim_set (view w) A))"
proof -
  let ?es = "{NVM_ERR_IO, NVM_ERR_OUT_OF_MEMORY, NVM_ERR_MEMORY_NOT_ALIGNED}"
  let ?J = "\<lambda>em'. \<exists>bufs. em' = em\<lparr>sn_bufs := bufs\<rparr> \<and> scanner_bufs bufs"
  have filt: "set_expiry_filter E st (sn_iter_type em) w it = Inr (it\<lparr>it_filter_expiry := 0\<rparr>)" for w it
    using type by (simp add: set_expiry_filter_def)
  have J: "?J em" using bufs by (intro exI [of _ "sn_bufs em"]) simp
  have check: "\<exists>d em'. expiry_check E (br_start_lba x) r w1 = Some (d, r\<lparr>er_em := em'\<rparr>) \<and> ?J em' \<and>
      (case d of Inl e \<Rightarrow> e \<in> ?es | Inr d \<Rightarrow> fst d = expired (view w1) x)"
    if r: "cache_apart st (er_st r)" "?J (er_em r)" "sectors_sized k (view w1)" "x \<in> set (rs w b)" for r w1 and x :: nvm_block_range
  proof -
    obtain bufs where e: "er_em r = em\<lparr>sn_bufs := bufs\<rparr>" "scanner_bufs bufs" using r(2) by blast
    note s = cache_apart_same [OF r(1)]
    have "\<exists>c bufs'. is_valid_for_del E (er_st r) (br_start_lba x) w1 (er_em r) = Some (c, (er_em r)\<lparr>sn_bufs := bufs'\<rparr>) \<and>
        scanner_bufs bufs' \<and>
        (case c of Inl e \<Rightarrow> e \<in> {NVM_ERR_OUT_OF_MEMORY, NVM_ERR_MEMORY_NOT_ALIGNED}
         | Inr c \<Rightarrow> fst c = expired_at t (2 ^ k) (view w1) (br_start_lba x))"
      by (rule check_reads [where capacity = capacity]) (use read alloc size iovs inside clock r(3,4) e in \<open>simp_all add: s\<close>)
    then obtain c bufs' where c: "is_valid_for_del E (er_st r) (br_start_lba x) w1 (er_em r) = Some (c, (er_em r)\<lparr>sn_bufs := bufs'\<rparr>)"
      "scanner_bufs bufs'" "case c of Inl e \<Rightarrow> e \<in> {NVM_ERR_OUT_OF_MEMORY, NVM_ERR_MEMORY_NOT_ALIGNED}
         | Inr c \<Rightarrow> fst c = expired_at t (2 ^ k) (view w1) (br_start_lba x)" by blast
    let ?d = "map_sum id (\<lambda>(expired, _). (expired, if expired then 1 else 0)) c :: (bool \<times> int) res"
    have "expiry_check E (br_start_lba x) r w1 = Some (?d, r\<lparr>er_em := (er_em r)\<lparr>sn_bufs := bufs'\<rparr>\<rparr>)"
      using type c(1) e(1) by (simp add: expiry_check_def)
    moreover have "?J ((er_em r)\<lparr>sn_bufs := bufs'\<rparr>)" using e(1) c(2) by auto
    moreover have "case ?d of Inl e \<Rightarrow> e \<in> ?es | Inr d \<Rightarrow> fst d = expired (view w1) x"
      using c(3) size(1) by (cases c) (auto simp: expired_def)
    ultimately show ?thesis by blast
  qed
  show ?thesis unfolding rs_def
    by (rule start_expiry_spec [where J = ?J and S = "sectors_sized k" and P = expired and es = ?es and oth = oth and F = 0 and b = b,
        OF law laws filt idle free iovs J _ size(3) sectors_sized_trim check [unfolded rs_def] _ _ _ valid fits fresh lens [unfolded rs_def]])
      (auto simp: expired_def expired_at_stable)
qed

text \<open>Two keys at the time 100: one has expired at 50, the other will at 200.\<close>

definition late_env :: "sectors nvm_env" where
  "late_env = sim_iter_env\<lparr>env_time := (\<lambda>w. 100)\<rparr>"

definition expiry_sector :: "u32 \<Rightarrow> bytes" where
  "expiry_sector e = header_bytes \<lparr>hdr_metadata_len = 0, hdr_key_len = 1, hdr_value_len = 0, hdr_value_offset = 41,
     hdr_pool_id = 0, hdr_reserved = 0, hdr_metadata = \<lparr>md_num_key = 0, md_gen_count = 0, md_expiry = e\<rparr>\<rparr> @ zeros 472"

definition sim_key_expiry :: nvm_kv_expiry_mgr where
  "sim_key_expiry = sim_expiry_mgr\<lparr>sn_iter_id := 129, sn_iter_type := KV_ARB_EXP_ITER\<rparr>"

lemma late_laws:
  "mapped_iter_law late_env dev (\<lambda>w. w) sim_ahead" "batch_law late_env sim_device (\<lambda>w. w)"
  "status_law late_env sim_device" "alloc_law late_env" "read_law late_env sim_device n (\<lambda>w. w)"
proof -
  show "mapped_iter_law late_env dev (\<lambda>w. w) sim_ahead"
    using sim_mapped_law [of dev] by (simp add: mapped_iter_law_def range_iter_law_def late_env_def)
  show "batch_law late_env sim_device (\<lambda>w. w)" "status_law late_env sim_device" "alloc_law late_env"
    using sim_iter_batch by (simp_all add: batch_law_def status_law_def alloc_law_def late_env_def)
  show "read_law late_env sim_device n (\<lambda>w. w)"
    using sim_laws [of n] by (simp add: dev_laws_def read_law_def late_env_def sim_iter_env_def)
qed

lemma expiry_sector_at:
  assumes "V (unat lba) = Some (expiry_sector e)"
  shows "expired_at 100 512 V lba \<longleftrightarrow> e \<noteq> 0 \<and> e < 100"
  using assms
  by (simp add: expired_at_def sector_at_def expiry_sector_def load_header_bytes valid_key_len_def NVM_KV_MAX_KEY_SIZE_def)

theorem key_expiry_exact_witness:
  "\<exists>ni r run w'. start_expiry late_env (\<lambda>l s. s) sim_key_expiry ni sim_store
       [9000 \<mapsto> expiry_sector 50, 9002 \<mapsto> expiry_sector 200] = Some (r, run, w') \<and>
     (case r of Inr n \<Rightarrow> n = 0 \<and> w' = [9002 \<mapsto> expiry_sector 200]
      | Inl e \<Rightarrow> e \<in> {NVM_ERR_IO, NVM_ERR_OUT_OF_MEMORY, NVM_ERR_MEMORY_NOT_ALIGNED})"
proof -
  let ?w = "[9000 \<mapsto> expiry_sector 50, 9002 \<mapsto> expiry_sector 200] :: sectors"
  let ?ahead = "sim_ahead ?w ((bi_it fresh_batch)\<lparr>it_filter_expiry := 0\<rparr>)"
  define ni where "ni = put_iter 129 (Some fresh_batch) sim_iterator"
  have dev: "get_store_device sim_store = sim_device" "get_sector_size sim_store = 2 ^ 9"
    by simp_all (simp add: get_sector_size_def sim_device_def sim_caps_def)
  have len: "nat (sn_iter_id sim_key_expiry) < length (ni_iter ni)"
    using sim_iter_setup(3) by (simp add: sim_key_expiry_def ni_def iterator_indices)
  have pool: "bi_pool_id fresh_batch = word_of_int get_all_poolid"
    by (simp add: fresh_batch_def get_all_poolid_def M_POOLID_ALL_def)
  have "validate_iter sim_store 129 KV_ARB_EXP_ITER ni = Inr ()"
    using len pool unfolding validate_iter_ok pool_live_def
    by (simp add: iter_id_ok_def scanner_slot_def iterator_indices ni_def put_iter_def sim_key_expiry_def)
  then have v: "valid_iter sim_store (sn_iter_id sim_key_expiry) (sn_iter_type sim_key_expiry) ni = Inr fresh_batch"
    using len by (simp add: valid_iter_def sim_key_expiry_def) (simp add: ni_def put_iter_def)
  have laws: "trim_laws late_env (\<lambda>w. w) sim_store"
    using sim_trim_laws late_laws(2,3) by (simp add: trim_laws_def dev)
  have clock: "\<forall>w. env_time late_env w = 100" by (simp add: late_env_def)
  have hl: "length (header_bytes h) = 40" for h by (simp add: header_bytes_def)
  have sized: "sectors_sized 9 ?w" by (simp add: sectors_sized_def expiry_sector_def hl M_KV_HEADER_SIZE_def)
  have bufs: "scanner_bufs (sn_bufs sim_key_expiry)"
    using sim_bufs_ready by (simp add: scanner_bufs_def bufs_ready_def sim_key_expiry_def sim_expiry_mgr_def)
  have idle: "\<not> check_pool_del_status (st_pm sim_store)" "st_safe sim_store = {}"
    "0 < nvm_max_num_iovs (dev_caps (get_store_device sim_store))"
    unfolding dev by (simp_all add: check_pool_del_status_def sim_store_def sim_pm_def demo_pm_def) (simp add: sim_device_def sim_caps_def)
  have type: "sn_iter_type sim_key_expiry = KV_ARB_EXP_ITER" by (simp add: sim_key_expiry_def)
  have fits: "0 < it_max_ranges (bi_it fresh_batch)" "bi_num_ranges_found fresh_batch \<le> length (it_ranges (bi_it fresh_batch))"
    "bi_num_ranges_found fresh_batch \<le> Suc (bi_pos fresh_batch)"
    by (simp_all add: fresh_batch_def raw_iter_def)
  have it: "sim_range_end (bi_it fresh_batch) = 9192" "unat (br_start_lba (it_range_to_iterate (bi_it fresh_batch))) = 8192"
    by (simp_all add: sim_range_end_def fresh_batch_def)
  have "sim_sectors ?w ((bi_it fresh_batch)\<lparr>it_filter_expiry := 0\<rparr>) = [9000, 9002]"
  proof -
    have "filter (sim_selects ?w ((bi_it fresh_batch)\<lparr>it_filter_expiry := 0\<rparr>)) [8192..<9192] = [9000, 9002]"
      by (rule filter_upt_two) (auto simp: sim_selects_def fresh_batch_def raw_iter_def)
    then show ?thesis using it by (simp add: sim_sectors_def sim_range_end_def)
  qed
  then have a: "?ahead = [unit_range 9000, unit_range 9002]" by (simp add: sim_ahead_def)
  have lens: "\<forall>x \<in> set ?ahead. br_length x * get_sector_size sim_store \<le> max_trim_size (get_store_device sim_store)"
    unfolding a dev by (simp add: unit_range_def max_trim_size_def sim_device_def sim_caps_def)
  have inside: "\<forall>x \<in> set ?ahead. unat (br_start_lba x) < 10000" unfolding a by (simp add: unit_range_def)
  have exp: "filter (\<lambda>x. expired_at 100 (get_sector_size sim_store) ?w (br_start_lba x)) ?ahead = [unit_range 9000]"
    unfolding a dev using expiry_sector_at [of ?w 9000 50] expiry_sector_at [of ?w 9002 200] by (simp add: unit_range_def)
  obtain r run w' where s: "start_expiry late_env (\<lambda>l s. s) sim_key_expiry ni sim_store ?w = Some (r, run, w')"
    "case r of Inr n \<Rightarrow> n = 0 \<and> w' = trim_set ?w (sectors_of [unit_range 9000])
     | Inl e \<Rightarrow> e \<in> {NVM_ERR_IO, NVM_ERR_OUT_OF_MEMORY, NVM_ERR_MEMORY_NOT_ALIGNED} \<and>
        (\<exists>A \<subseteq> sectors_of [unit_range 9000]. w' = trim_set ?w A)"
    using key_expiry_exact [where E = late_env and view = "\<lambda>w. w" and ahead = sim_ahead and st = sim_store and
        em = sim_key_expiry and w = ?w and oth = "\<lambda>l s. s" and ni = ni and b = fresh_batch and capacity = 10000,
        OF late_laws(1) laws type clock late_laws(5) [folded dev(1)] late_laws(4) dev(2) _ sized bufs idle v len fits lens inside,
        unfolded exp] by auto
  have "trim_set ?w (sectors_of [unit_range 9000]) = [9002 \<mapsto> expiry_sector 200]"
    by (auto simp: trim_set_def fun_eq_iff range_sectors_unit)
  then show ?thesis
    using s by (intro exI [of _ ni] exI [of _ r] exI [of _ run] exI [of _ w']) (cases r; auto)
qed

end
