(* ===== verification/Threads.thy ===== *)
theory Threads
  imports AllPools ExpirySpec
begin

text \<open>
  The deletion thread (\<open>NVM_KV_Pool_Del_Manager::start_thread\<close>), the expiry thread
  (\<open>NVM_KV_Expiry_Manager::start_thread\<close>) and the callers of \<open>delete_pool\<close>, interleaved. A thread stands at
  one of the places of its code where it takes, gives away or waits for a mutex, and a step of the relation
  is the code up to the next place, or one round of the loop of an expiry pass. The mutexes are
  \<open>bg_mtx\<close>, the one of the deletion scanner (\<open>m_cond_mtx\<close>), and \<open>bg_glb\<close>, the global one of the pool
  manager (\<open>m_glb_mtx\<close>); the waiters of the condition variable of each are the threads that are asleep.
  The mutex of the bitmaps is taken and given within a step. \<open>bg_step\<close> also has spurious
  wakeups, the timeout of the expiry thread, and any other call, which may do to store and device what
  it likes as long as it leaves the deletion bitmap, the number of pools and the deletion status
  alone (\<open>pools_kept\<close>; proved of \<open>create_pool\<close> below). Threads are not cancelled.

  Then: which thread holds which mutex (\<open>lock_inv\<close>), what a step keeps of the pools, and the invariants
  of the deletion status and of the sleeping deletion thread (\<open>status_inv\<close>, \<open>work_inv\<close>).
\<close>

section \<open>The calls, cut at their locks\<close>

text \<open>
  \<open>delete_pool\<close> looks at the status of the pool before it takes a lock, marks the pool and persists
  the bitmap while it holds both locks, and wakes the deletion thread if that has succeeded.
\<close>

definition delete_pool_refused :: "int \<Rightarrow> nvm_kv_pool_mgr \<Rightarrow> unit res option" where
  "delete_pool_refused pool_id pm =
     (let status = check_pool_status pool_id pm
      in if pool_id \<noteq> M_POOLID_ALL \<and> status \<in> {POOL_IS_INVALID, POOL_NOT_IN_USE} then Some (Inl NVM_ERR_INVALID_INPUT)
         else if pool_id \<noteq> M_POOLID_ALL \<and> status = POOL_DELETION_IN_PROGRESS then Some (Inr ())
         else None)"

definition delete_pool_locked ::
  "'w nvm_env \<Rightarrow> int \<Rightarrow> nvm_kv_pool_mgr \<Rightarrow> 'w \<Rightarrow> (unit res \<times> nvm_kv_pool_mgr \<times> 'w) option" where
  "delete_pool_locked E pool_id pm w =
     (if pm_locked pm then None
      else
        (let pm = foldl mark_deleted pm (delete_ids pool_id pm)
         in case persist_store_info E M_KV_BM_DELETED pool_id pm w of
              None \<Rightarrow> None
            | Some (Inl e, w) \<Rightarrow> Some (Inl e, foldl unmark_deleted pm (delete_ids pool_id pm), w)
            | Some (Inr _, w) \<Rightarrow> Some (Inr (), pm, w)))"

lemma delete_pool_cut:
  "delete_pool E pool_id pm cache w =
     (case delete_pool_refused pool_id pm of
        Some r \<Rightarrow> Some (r, False, pm, cache, w)
      | None \<Rightarrow> map_option (\<lambda>(r, pm, w). (r, r = Inr (), pm, if r = Inr () then purge_cache pool_id cache else cache, w))
          (delete_pool_locked E pool_id pm w))"
  by (auto simp: delete_pool_def delete_pool_refused_def delete_pool_locked_def Let_def split: option.split sum.split)

text \<open>One round of the loop of \<open>start_expiry\<close>: the loop goes on with a result, or it is left with one.\<close>

definition expiry_iteration ::
  "'w nvm_env \<Rightarrow> 'w others \<Rightarrow> int \<Rightarrow> exp_run \<Rightarrow> 'w \<Rightarrow> ((int res + int) \<times> exp_run \<times> 'w) option" where
  "expiry_iteration E oth ret_code r w =
     (if check_pool_del_status (st_pm (er_st r)) then Some (Inl (Inr ret_code), r, w)
      else
        (let s = perform_scan E (er_st r) (er_em r) w (er_ni r); r = r\<lparr>er_ni := snd s\<rparr>
         in case fst s of
              Inl e \<Rightarrow> Some (Inl (Inl e), r, w)
            | Inr loc \<Rightarrow>
                Option.bind (expiry_check E (fst loc) r w) (\<lambda>c.
                  case fst c of
                    Inl e \<Rightarrow> Some (Inl (Inl e), snd c, w)
                  | Inr del \<Rightarrow>
                      if \<not> fst del then Some (Inr 0, snd c, w)
                      else
                        (case expiry_add E oth (fst loc) (snd loc) (snd del) (snd c) w of
                           (Inl e, r, w) \<Rightarrow> Some (Inl (Inl e), r, w)
                         | (Inr ret_code, r, w) \<Rightarrow> Some (Inr ret_code, r, w)))))"

lemma expiry_loop_iteration:
  "expiry_loop E oth ret_code r w =
     Option.bind (expiry_iteration E oth ret_code r w) (\<lambda>(x, r, w).
       case x of Inl q \<Rightarrow> Some (q, r, w) | Inr ret_code \<Rightarrow> expiry_loop E oth ret_code r w)"
  by (subst expiry_loop.simps)
    (auto simp: expiry_iteration_def Let_def bind_assoc intro!: bind_option_cong split: sum.split prod.split)

section \<open>The threads\<close>

datatype bg_thread = Deleter | Expirer | Client nat

text \<open>Where the deletion thread is in \<open>NVM_KV_Pool_Del_Manager::start_thread\<close>.\<close>

datatype del_pc =
    Del_Top     \<comment> \<open>before it takes its own mutex\<close>
  | Del_Check   \<comment> \<open>at the condition of the inner loop, with the mutex\<close>
  | Del_Asleep
  | Del_Woken   \<comment> \<open>has to get the mutex back\<close>
  | Del_Copy    \<comment> \<open>about to copy the bitmap, with the mutex\<close>
  | Del_Status  \<comment> \<open>about to set the status, without a mutex\<close>
  | Del_Lock    \<comment> \<open>before the global mutex\<close>
  | Del_Pass    \<comment> \<open>in the pass, with the global mutex\<close>
  | Del_Done    \<comment> \<open>after the pass, with the global mutex\<close>

text \<open>Where the expiry thread is in \<open>NVM_KV_Expiry_Manager::start_thread\<close>.\<close>

datatype exp_pc =
    Exp_Start            \<comment> \<open>before the global mutex\<close>
  | Exp_Check            \<comment> \<open>at the condition of the inner loop, with the mutex\<close>
  | Exp_Asleep
  | Exp_Woken
  | Exp_Scan int         \<comment> \<open>in the loop of the pass, with the mutex\<close>
  | Exp_Finish "int res" \<comment> \<open>after the loop of the pass, with the mutex\<close>

text \<open>Where a caller is in \<open>delete_pool\<close>.\<close>

datatype client_pc =
    Cl_Idle
  | Cl_Call int
  | Cl_Lock int
  | Cl_Mark int
  | Cl_Signal int
  | Cl_Unlock int "unit res"

record 'w bg_state =
  bg_st :: nvm_kv_store
  bg_world :: 'w
  bg_pd :: nvm_kv_pool_del_mgr
  bg_all :: bool
  bg_em :: nvm_kv_expiry_mgr
  bg_ni :: nvm_kv_iterator
  bg_iovec :: "nvm_iovec list"
  bg_mtx :: "bg_thread option"
  bg_glb :: "bg_thread option"
  bg_del :: del_pc
  bg_exp :: exp_pc
  bg_client :: "nat \<Rightarrow> client_pc"

abbreviation bg_pm :: "'w bg_state \<Rightarrow> nvm_kv_pool_mgr" where
  "bg_pm s \<equiv> st_pm (bg_st s)"

text \<open>
  A thread that is blocked has no step. \<open>pthread_cond_wait\<close> gives the mutex away and falls asleep
  in one step; a broadcast wakes who is asleep, and who was woken waits for the mutex.
\<close>

definition restart_deleter :: "'w bg_state \<Rightarrow> 'w bg_state" where
  "restart_deleter s = (if bg_del s = Del_Asleep then s\<lparr>bg_del := Del_Woken\<rparr> else s)"

definition restart_expirer :: "'w bg_state \<Rightarrow> 'w bg_state" where
  "restart_expirer s = (if bg_exp s = Exp_Asleep then s\<lparr>bg_exp := Exp_Woken\<rparr> else s)"

definition deleter_check :: "'w bg_state \<Rightarrow> 'w bg_state option" where
  "deleter_check s =
     (if pm_locked (bg_pm s) then None
      else if \<not> has_pools_to_delete (bg_pm s) then Some (s\<lparr>bg_mtx := None, bg_del := Del_Asleep\<rparr>)
      else Some (s\<lparr>bg_del := Del_Copy\<rparr>))"

definition deleter_copy :: "'w nvm_env \<Rightarrow> 'w bg_state \<Rightarrow> 'w bg_state option" where
  "deleter_copy E s =
     (if pm_locked (bg_pm s) then None
      else
        (case get_pool_deletion_bitmap E (bg_pm s) (bg_world s) of
           Inl e \<Rightarrow> Some (s\<lparr>bg_mtx := None, bg_del := Del_Status\<rparr>)
         | Inr (bitmap, all) \<Rightarrow>
             Some (s\<lparr>bg_pd := (bg_pd s)\<lparr>pd_pools_to_delete := bitmap @ drop (length bitmap) (pd_pools_to_delete (bg_pd s))\<rparr>,
                     bg_all := all, bg_mtx := None, bg_del := Del_Status\<rparr>)))"

definition deleter_step :: "'w nvm_env \<Rightarrow> u32 \<Rightarrow> 'w bg_state \<Rightarrow> 'w bg_state option" where
  "deleter_step E garbage s =
     (case bg_del s of
        Del_Top \<Rightarrow> if bg_mtx s = None then Some (s\<lparr>bg_mtx := Some Deleter, bg_del := Del_Check\<rparr>) else None
      | Del_Check \<Rightarrow> deleter_check s
      | Del_Asleep \<Rightarrow> None
      | Del_Woken \<Rightarrow> if bg_mtx s = None then Some (s\<lparr>bg_mtx := Some Deleter, bg_del := Del_Check\<rparr>) else None
      | Del_Copy \<Rightarrow> deleter_copy E s
      | Del_Status \<Rightarrow> Some (s\<lparr>bg_st := set_pm (set_pool_del_status True (bg_pm s)) (bg_st s), bg_del := Del_Lock\<rparr>)
      | Del_Lock \<Rightarrow> if bg_glb s = None then Some (s\<lparr>bg_glb := Some Deleter, bg_del := Del_Pass\<rparr>) else None
      | Del_Pass \<Rightarrow>
          map_option (\<lambda>(r, st, pd, w). s\<lparr>bg_st := st, bg_pd := pd, bg_world := w, bg_del := Del_Done\<rparr>)
            (start_pool_delete E garbage (bg_all s) (bg_st s) (bg_pd s) (bg_world s))
      | Del_Done \<Rightarrow>
          (let s = s\<lparr>bg_st := set_pm (set_pool_del_status False (bg_pm s)) (bg_st s)\<rparr>;
               s = (if st_exp_status (bg_st s) then restart_expirer s else s)
           in Some (s\<lparr>bg_glb := None, bg_del := Del_Top\<rparr>)))"

definition expirer_check :: "'w nvm_env \<Rightarrow> 'w bg_state \<Rightarrow> 'w bg_state" where
  "expirer_check E s =
     (if check_pool_del_status (bg_pm s) then s\<lparr>bg_glb := None, bg_exp := Exp_Asleep\<rparr>
      else
        (case expire_keys E (bg_st s) (bg_em s) (bg_world s) of
           (False, em) \<Rightarrow> s\<lparr>bg_em := em, bg_glb := None, bg_exp := Exp_Asleep\<rparr>
         | (True, em) \<Rightarrow> s\<lparr>bg_em := em, bg_exp := Exp_Scan 0\<rparr>))"

definition bg_run :: "'w bg_state \<Rightarrow> exp_run" where
  "bg_run s = \<lparr>er_iovec = bg_iovec s, er_em = bg_em s, er_ni = bg_ni s, er_st = bg_st s\<rparr>"

definition put_run :: "exp_run \<Rightarrow> 'w \<Rightarrow> 'w bg_state \<Rightarrow> 'w bg_state" where
  "put_run r w s = s\<lparr>bg_iovec := er_iovec r, bg_em := er_em r, bg_ni := er_ni r, bg_st := er_st r, bg_world := w\<rparr>"

definition expirer_step :: "'w nvm_env \<Rightarrow> 'w others \<Rightarrow> 'w bg_state \<Rightarrow> 'w bg_state option" where
  "expirer_step E oth s =
     (case bg_exp s of
        Exp_Start \<Rightarrow> if bg_glb s = None then Some (s\<lparr>bg_glb := Some Expirer, bg_exp := Exp_Check\<rparr>) else None
      | Exp_Check \<Rightarrow> Some (expirer_check E s)
      | Exp_Asleep \<Rightarrow> None
      | Exp_Woken \<Rightarrow> if bg_glb s = None then Some (s\<lparr>bg_glb := Some Expirer, bg_exp := Exp_Check\<rparr>) else None
      | Exp_Scan ret_code \<Rightarrow>
          map_option (\<lambda>(x, r, w). (put_run r w s)\<lparr>bg_exp := case x of Inl q \<Rightarrow> Exp_Finish q | Inr ret_code \<Rightarrow> Exp_Scan ret_code\<rparr>)
            (expiry_iteration E oth ret_code (bg_run s) (bg_world s))
      | Exp_Finish q \<Rightarrow>
          (case expiry_finish E oth (q, bg_run s, bg_world s) of
             (_, r, w) \<Rightarrow> Some ((put_run r w s)\<lparr>bg_iovec := [], bg_exp := Exp_Check\<rparr>)))"

definition client_step :: "'w nvm_env \<Rightarrow> nat \<Rightarrow> 'w bg_state \<Rightarrow> 'w bg_state option" where
  "client_step E i s =
     (let go = (\<lambda>pc s. s\<lparr>bg_client := (bg_client s)(i := pc)\<rparr>)
      in case bg_client s i of
           Cl_Idle \<Rightarrow> None
         | Cl_Call p \<Rightarrow> Some (go (if delete_pool_refused p (bg_pm s) = None then Cl_Lock p else Cl_Idle) s)
         | Cl_Lock p \<Rightarrow> if bg_mtx s = None then Some (go (Cl_Mark p) (s\<lparr>bg_mtx := Some (Client i)\<rparr>)) else None
         | Cl_Mark p \<Rightarrow>
             map_option (\<lambda>(r, pm, w). go (if r = Inr () then Cl_Signal p else Cl_Unlock p r)
                 (s\<lparr>bg_st := set_pm pm (bg_st s), bg_world := w\<rparr>))
               (delete_pool_locked E p (bg_pm s) (bg_world s))
         | Cl_Signal p \<Rightarrow> Some (go (Cl_Unlock p (Inr ())) (restart_deleter s))
         | Cl_Unlock p r \<Rightarrow>
             Some (go Cl_Idle (s\<lparr>bg_mtx := None,
                 bg_st := (if r = Inr () then (bg_st s)\<lparr>st_cache := purge_cache p (st_cache (bg_st s))\<rparr> else bg_st s)\<rparr>)))"

section \<open>Steps of the system\<close>

text \<open>
  What all other calls of the library keep while the threads run: the deletion bitmap, the number of
  pools and the status of the deletion. They may create pools and change keys, cache and device.
\<close>

definition pools_kept :: "nvm_kv_pool_mgr \<Rightarrow> nvm_kv_pool_mgr \<Rightarrow> bool" where
  "pools_kept pm pm' \<longleftrightarrow>
     pm_deleted pm' = pm_deleted pm \<and> pm_max_pools pm' = pm_max_pools pm \<and> pm_del_status pm' = pm_del_status pm \<and>
     (pm_shape pm \<longrightarrow> pm_shape pm')"

definition pool_id_ok :: "int \<Rightarrow> nvm_kv_pool_mgr \<Rightarrow> bool" where
  "pool_id_ok pool_id pm \<longleftrightarrow> 0 < pool_id \<and> pool_id < int (pm_max_pools pm) \<or> pool_id = M_POOLID_ALL"

inductive bg_step :: "'w nvm_env \<Rightarrow> 'w others \<Rightarrow> u32 \<Rightarrow> 'w bg_state \<Rightarrow> 'w bg_state \<Rightarrow> bool" for E oth garbage where
  bg_deleter: "deleter_step E garbage s = Some s' \<Longrightarrow> bg_step E oth garbage s s'"
| bg_expirer: "expirer_step E oth s = Some s' \<Longrightarrow> bg_step E oth garbage s s'"
| bg_client: "client_step E i s = Some s' \<Longrightarrow> bg_step E oth garbage s s'"
| bg_call: "bg_client s i = Cl_Idle \<Longrightarrow> pool_id_ok p (bg_pm s) \<Longrightarrow>
    bg_step E oth garbage s (s\<lparr>bg_client := (bg_client s)(i := Cl_Call p)\<rparr>)"
| bg_spurious: "bg_del s = Del_Asleep \<Longrightarrow> bg_step E oth garbage s (s\<lparr>bg_del := Del_Woken\<rparr>)"
| bg_timeout: "bg_exp s = Exp_Asleep \<Longrightarrow> bg_step E oth garbage s (s\<lparr>bg_exp := Exp_Woken\<rparr>)"
| bg_other: "pools_kept (bg_pm s) (st_pm st) \<Longrightarrow> bg_step E oth garbage s (s\<lparr>bg_st := st, bg_world := w\<rparr>)"

inductive_cases bg_stepE: "bg_step E oth garbage s s'"

text \<open>The threads at their start, over any store.\<close>

definition bg_start :: "'w bg_state \<Rightarrow> bool" where
  "bg_start s \<longleftrightarrow>
     bg_del s = Del_Top \<and> bg_exp s = Exp_Start \<and> bg_mtx s = None \<and> bg_glb s = None \<and>
     (\<forall>i. bg_client s i = Cl_Idle) \<and> \<not> pm_del_status (bg_pm s) \<and> pm_shape (bg_pm s)"

section \<open>Who holds which mutex\<close>

fun del_holds_mtx :: "del_pc \<Rightarrow> bool" where
  "del_holds_mtx Del_Check = True"
| "del_holds_mtx Del_Copy = True"
| "del_holds_mtx _ = False"

fun del_holds_glb :: "del_pc \<Rightarrow> bool" where
  "del_holds_glb Del_Pass = True"
| "del_holds_glb Del_Done = True"
| "del_holds_glb _ = False"

fun exp_holds :: "exp_pc \<Rightarrow> bool" where
  "exp_holds Exp_Check = True"
| "exp_holds (Exp_Scan _) = True"
| "exp_holds (Exp_Finish _) = True"
| "exp_holds _ = False"

fun cl_holds :: "client_pc \<Rightarrow> bool" where
  "cl_holds (Cl_Mark _) = True"
| "cl_holds (Cl_Signal _) = True"
| "cl_holds (Cl_Unlock _ _) = True"
| "cl_holds _ = False"

definition lock_inv :: "'w bg_state \<Rightarrow> bool" where
  "lock_inv s \<longleftrightarrow>
     (bg_mtx s = Some Deleter \<longleftrightarrow> del_holds_mtx (bg_del s)) \<and> (\<forall>i. bg_mtx s = Some (Client i) \<longleftrightarrow> cl_holds (bg_client s i)) \<and>
     bg_mtx s \<noteq> Some Expirer \<and>
     (bg_glb s = Some Deleter \<longleftrightarrow> del_holds_glb (bg_del s)) \<and> (bg_glb s = Some Expirer \<longleftrightarrow> exp_holds (bg_exp s)) \<and>
     (\<forall>i. bg_glb s \<noteq> Some (Client i))"

lemmas restart_defs = restart_deleter_def restart_expirer_def

lemma deleter_locks:
  assumes "lock_inv s" and "deleter_step E garbage s = Some s'"
  shows "lock_inv s'"
proof (cases "bg_del s")
  case Del_Check
  then show ?thesis using assms by (auto simp: deleter_step_def deleter_check_def lock_inv_def split: if_splits)
next
  case Del_Copy
  then show ?thesis
    using assms by (auto simp: deleter_step_def deleter_copy_def lock_inv_def split: if_splits sum.splits prod.splits)
next
  case Del_Done
  then show ?thesis
    using assms by (cases "bg_exp s") (auto simp: deleter_step_def lock_inv_def restart_expirer_def Let_def split: if_splits)
qed (use assms in \<open>auto simp: deleter_step_def lock_inv_def split: if_splits\<close>)

lemma expirer_locks:
  assumes "lock_inv s" and "expirer_step E oth s = Some s'"
  shows "lock_inv s'"
proof (cases "bg_exp s")
  case Exp_Check
  then show ?thesis
    using assms by (auto simp: expirer_step_def expirer_check_def lock_inv_def split: if_splits prod.splits bool.splits)
next
  case (Exp_Scan c)
  then obtain x r w where "s' = (put_run r w s)\<lparr>bg_exp := case x of Inl q \<Rightarrow> Exp_Finish q | Inr c \<Rightarrow> Exp_Scan c\<rparr>"
    using assms(2) by (auto simp: expirer_step_def)
  then show ?thesis using assms(1) Exp_Scan by (cases x) (auto simp: put_run_def lock_inv_def)
next
  case (Exp_Finish q)
  then show ?thesis
    using assms by (auto simp: expirer_step_def put_run_def lock_inv_def split: prod.splits)
qed (use assms in \<open>auto simp: expirer_step_def lock_inv_def split: if_splits\<close>)

lemma client_locks:
  assumes inv: "lock_inv s" and step: "client_step E i s = Some s'"
  shows "lock_inv s'"
proof (cases "bg_client s i")
  case (Cl_Mark p)
  then have "bg_mtx s = Some (Client i)" using inv by (simp add: lock_inv_def)
  then show ?thesis using inv step Cl_Mark by (auto simp: client_step_def lock_inv_def Let_def)
next
  case (Cl_Signal p)
  then have "bg_mtx s = Some (Client i)" using inv by (simp add: lock_inv_def)
  then show ?thesis
    using inv step Cl_Signal by (cases "bg_del s") (auto simp: client_step_def lock_inv_def restart_deleter_def Let_def)
next
  case (Cl_Unlock p r)
  then have own: "bg_mtx s = Some (Client i)" using inv by (simp add: lock_inv_def)
  have others: "\<not> cl_holds (bg_client s j)" if "j \<noteq> i" for j
    using inv own that by (simp add: lock_inv_def) (metis)
  obtain st where s': "s' = s\<lparr>bg_mtx := None, bg_st := st, bg_client := (bg_client s)(i := Cl_Idle)\<rparr>"
    using step Cl_Unlock by (auto simp: client_step_def Let_def)
  have "\<not> del_holds_mtx (bg_del s)" using inv own by (simp add: lock_inv_def)
  then show ?thesis using inv others unfolding lock_inv_def s' by simp
qed (use inv step in \<open>auto simp: client_step_def lock_inv_def Let_def split: if_splits\<close>)

lemma lock_step:
  assumes "bg_step E oth garbage s s'" and "lock_inv s"
  shows "lock_inv s'"
  using assms
proof cases
  case bg_deleter
  then show ?thesis using deleter_locks assms(2) by blast
next
  case bg_expirer
  then show ?thesis using expirer_locks assms(2) by blast
next
  case (bg_client i)
  then show ?thesis using client_locks assms(2) by blast
qed (use assms(2) in \<open>auto simp: lock_inv_def\<close>)

lemma start_locks: "bg_start s \<Longrightarrow> lock_inv s"
  by (simp add: bg_start_def lock_inv_def)

lemma bg_run_locks: "(bg_step E oth garbage)\<^sup>*\<^sup>* s s' \<Longrightarrow> lock_inv s \<Longrightarrow> lock_inv s'"
  by (induction rule: rtranclp_induct) (auto intro: lock_step)

section \<open>What the steps keep of the pools\<close>

lemma pools_kept_refl [simp]: "pools_kept pm pm"
  by (simp add: pools_kept_def)

lemma pools_kept_trans: "pools_kept pm pm1 \<Longrightarrow> pools_kept pm1 pm2 \<Longrightarrow> pools_kept pm pm2"
  by (simp add: pools_kept_def)

text \<open>A wait for an address leaves the pools alone, too.\<close>

definition others_keep :: "'w others \<Rightarrow> bool" where
  "others_keep oth \<longleftrightarrow> (\<forall>l s. pools_kept (st_pm (fst s)) (st_pm (fst (oth l s))))"

lemma safe_insert_all_kept:
  "others_keep oth \<Longrightarrow> pools_kept (st_pm st) (st_pm (fst (safe_insert_all oth iovs st w)))"
proof (induction iovs arbitrary: st w)
  case (Cons iov iovs)
  obtain b st1 w1 where i: "insert_lba_to_safe_list oth (iov_lba iov) st w = (b, st1, w1)" by (meson prod_cases3)
  have "pools_kept (st_pm st) (st_pm st1)"
    using i Cons.prems unfolding others_keep_def insert_lba_to_safe_list_def
    by (auto simp: Let_def split: if_splits prod.splits) (metis fst_conv)
  then show ?case using Cons.IH [OF Cons.prems, of st1 w1] i by (auto intro: pools_kept_trans)
qed simp

lemma delete_lba_kept [simp]: "st_pm (foldl (\<lambda>st iov. delete_lba_from_safe_list (iov_lba iov) st) st iovs) = st_pm st"
  by (simp add: safe_delete_all)

lemma delete_sync_kept:
  assumes "others_keep oth" and "batch_delete_sync E oth iovs c st w = (r, st', w')"
  shows "pools_kept (st_pm st) (st_pm st')"
  using assms safe_insert_all_kept [OF assms(1), of st iovs w]
  by (auto simp: batch_delete_sync_def Let_def split: prod.splits if_splits)

lemma expiry_add_kept:
  assumes "others_keep oth" and "expiry_add E oth l n c r w = (q, r', w')"
  shows "pools_kept (st_pm (er_st r)) (st_pm (er_st r'))"
  using assms delete_sync_kept [OF assms(1)]
  by (auto simp: expiry_add_def Let_def split: if_splits prod.splits sum.splits)

lemma expiry_check_kept: "expiry_check E l r w = Some (c, r') \<Longrightarrow> er_st r' = er_st r"
  by (auto simp: expiry_check_def split: if_splits)

lemma expiry_iteration_kept:
  assumes "others_keep oth" and "expiry_iteration E oth c r w = Some (x, r', w')"
  shows "pools_kept (st_pm (er_st r)) (st_pm (er_st r'))"
proof (cases "check_pool_del_status (st_pm (er_st r))")
  case True
  then show ?thesis using assms(2) by (simp add: expiry_iteration_def)
next
  case False
  obtain q ni where s: "perform_scan E (er_st r) (er_em r) w (er_ni r) = (q, ni)" by force
  show ?thesis
  proof (cases q)
    case (Inl e)
    then show ?thesis using assms(2) False s by (auto simp: expiry_iteration_def)
  next
    case (Inr loc)
    then obtain d r1 where c: "expiry_check E (fst loc) (r\<lparr>er_ni := ni\<rparr>) w = Some (d, r1)"
      using assms(2) False s by (cases "expiry_check E (fst loc) (r\<lparr>er_ni := ni\<rparr>) w") (auto simp: expiry_iteration_def)
    have st: "er_st r1 = er_st r" using expiry_check_kept [OF c] by simp
    show ?thesis
    proof (cases d)
      case (Inl e)
      then show ?thesis using assms(2) False s Inr c st by (auto simp: expiry_iteration_def)
    next
      case d: (Inr del)
      obtain q2 r2 w2 where a: "expiry_add E oth (fst loc) (snd loc) (snd del) r1 w = (q2, r2, w2)" by (meson prod_cases3)
      have "r' = r1 \<or> r' = r2"
        using assms(2) False s Inr c d a by (auto simp: expiry_iteration_def split: if_splits sum.splits)
      then show ?thesis using expiry_add_kept [OF assms(1) a] st by auto
    qed
  qed
qed

lemma expiry_finish_kept:
  assumes "others_keep oth" and "expiry_finish E oth (q, r, w) = (q', r', w')"
  shows "pools_kept (st_pm (er_st r)) (st_pm (er_st r'))"
  using assms delete_sync_kept [OF assms(1)]
  by (auto simp: expiry_finish_def Let_def split: if_splits prod.splits)

lemma expirer_kept:
  assumes oth: "others_keep oth" and step: "expirer_step E oth s = Some s'"
  shows "pools_kept (bg_pm s) (bg_pm s')" and "bg_del s' = bg_del s" and "bg_client s' = bg_client s" and "bg_mtx s' = bg_mtx s"
proof -
  have "pools_kept (bg_pm s) (bg_pm s') \<and> bg_del s' = bg_del s \<and> bg_client s' = bg_client s \<and> bg_mtx s' = bg_mtx s"
  proof (cases "bg_exp s")
    case Exp_Check
    then show ?thesis using step by (auto simp: expirer_step_def expirer_check_def split: if_splits prod.splits bool.splits)
  next
    case (Exp_Scan c)
    then obtain x r w where i: "expiry_iteration E oth c (bg_run s) (bg_world s) = Some (x, r, w)"
      and s': "s' = (put_run r w s)\<lparr>bg_exp := case x of Inl q \<Rightarrow> Exp_Finish q | Inr c \<Rightarrow> Exp_Scan c\<rparr>"
      using step by (auto simp: expirer_step_def)
    show ?thesis using expiry_iteration_kept [OF oth i] by (simp add: s' put_run_def bg_run_def)
  next
    case (Exp_Finish q)
    obtain q' r w where f: "expiry_finish E oth (q, bg_run s, bg_world s) = (q', r, w)" by (meson prod_cases3)
    have "s' = (put_run r w s)\<lparr>bg_iovec := [], bg_exp := Exp_Check\<rparr>" using step Exp_Finish f by (simp add: expirer_step_def)
    then show ?thesis using expiry_finish_kept [OF oth f] by (simp add: put_run_def bg_run_def)
  qed (use step in \<open>auto simp: expirer_step_def split: if_splits\<close>)
  then show "pools_kept (bg_pm s) (bg_pm s')" "bg_del s' = bg_del s" "bg_client s' = bg_client s" "bg_mtx s' = bg_mtx s"
    by simp_all
qed

section \<open>What a pass and a deletion do to the pools\<close>

definition pools_sound :: "nvm_kv_pool_mgr \<Rightarrow> nvm_kv_pool_mgr \<Rightarrow> bool" where
  "pools_sound pm pm' \<longleftrightarrow>
     (pm_shape pm \<longrightarrow> pm_shape pm') \<and> pm_max_pools pm' = pm_max_pools pm \<and> pm_del_status pm' = pm_del_status pm"

lemma pools_sound_refl [simp]: "pools_sound pm pm"
  by (simp add: pools_sound_def)

lemma pools_sound_trans: "pools_sound pm pm1 \<Longrightarrow> pools_sound pm1 pm2 \<Longrightarrow> pools_sound pm pm2"
  by (simp add: pools_sound_def)

lemma kept_sound: "pools_kept pm pm' \<Longrightarrow> pools_sound pm pm'"
  by (simp add: pools_kept_def pools_sound_def)

lemma clear_bits_sound:
  assumes "0 < n" and "n < pm_max_pools pm"
  shows "pools_sound pm (drop_pools (pm\<lparr>pm_deleted := bitmap_clear (pm_deleted pm) (of_nat n),
      pm_in_use := bitmap_clear (pm_in_use pm) (of_nat n)\<rparr>))"
    and "bm_bits (pm_deleted pm) = {} \<Longrightarrow>
      pools_sound pm (drop_pools (pm\<lparr>pm_in_use := bitmap_clear (pm_in_use pm) (of_nat n)\<rparr>))"
proof -
  have bits: "bm_bits (bitmap_clear (pm_in_use pm) (of_nat n)) = bm_bits (pm_in_use pm) - {n}"
    "bm_bits (bitmap_clear (pm_deleted pm) (of_nat n)) = bm_bits (pm_deleted pm) - {n}" if "pm_shape pm"
    using pm_id_word [OF that assms(2)] bm.clear_law [of "of_nat n" "pm_in_use pm"] bm.clear_law [of "of_nat n" "pm_deleted pm"]
    by simp_all
  have len: "length (bitmap_clear bm i) = length bm" for bm i by (simp add: bitmap_clear_def Let_def)
  show "pools_sound pm (drop_pools (pm\<lparr>pm_deleted := bitmap_clear (pm_deleted pm) (of_nat n),
      pm_in_use := bitmap_clear (pm_in_use pm) (of_nat n)\<rparr>))"
    using bits assms(1) by (auto simp: pools_sound_def pm_shape_def drop_pools_def pm_max_pools_def bm_nbits_def len)
  show "pools_sound pm (drop_pools (pm\<lparr>pm_in_use := bitmap_clear (pm_in_use pm) (of_nat n)\<rparr>))" if "bm_bits (pm_deleted pm) = {}"
    using bits that assms(1) by (auto simp: pools_sound_def pm_shape_def drop_pools_def pm_max_pools_def bm_nbits_def len)
qed

lemma clear_pool_bit_sound:
  assumes "0 < n" and "n < pm_max_pools pm" and "already \<Longrightarrow> bm_bits (pm_deleted pm) = {}"
  shows "pools_sound pm (clear_pool_bit bitmap already pm n)"
    and "already \<Longrightarrow> bm_bits (pm_deleted (clear_pool_bit bitmap already pm n)) = {}"
  using clear_bits_sound [OF assms(1,2)] assms(3) by (auto simp: clear_pool_bit_def drop_pools_def)

lemma clear_fold_sound:
  "\<forall>n \<in> set ids. 0 < n \<and> n < pm_max_pools pm \<Longrightarrow> already \<longrightarrow> bm_bits (pm_deleted pm) = {} \<Longrightarrow>
   pools_sound pm (foldl (clear_pool_bit bitmap already) pm ids)"
proof (induction ids arbitrary: pm)
  case (Cons n ids)
  have n: "0 < n" "n < pm_max_pools pm" using Cons.prems(1) by simp_all
  note c = clear_pool_bit_sound [OF n, of already bitmap]
  have s: "pools_sound pm (clear_pool_bit bitmap already pm n)" using c(1) Cons.prems(2) by blast
  have max: "pm_max_pools (clear_pool_bit bitmap already pm n) = pm_max_pools pm" using s by (simp add: pools_sound_def)
  have "pools_sound (clear_pool_bit bitmap already pm n) (foldl (clear_pool_bit bitmap already) (clear_pool_bit bitmap already pm n) ids)"
    by (rule Cons.IH) (use Cons.prems c(2) max in auto)
  then show ?case using pools_sound_trans [OF s] by simp
qed simp

lemma clear_pool_bitmap_sound:
  assumes "clear_pool_bitmap E (of_nat i) pm w = Some (r, pm', w')" and "0 < i" and "i < pm_max_pools pm"
  shows "pools_sound pm pm'"
  using assms(1) clear_bits_sound(1) [OF assms(2,3)]
  by (auto simp: clear_pool_bitmap_def Let_def split: if_splits option.splits prod.splits)

lemma clear_pool_bitmaps_sound:
  assumes "clear_pool_bitmaps E bitmap pm w = Some (r, pm', w')"
  shows "pools_sound pm pm'"
proof -
  define n where "n = pm_bm_len pm div 4"
  define all where "all \<longleftrightarrow> take n (pm_deleted pm) = take n bitmap"
  define pm1 where "pm1 = (if all then pm\<lparr>pm_deleted := replicate n 0 @ drop n (pm_deleted pm)\<rparr> else pm)"
  define pm2 where "pm2 = foldl (clear_pool_bit bitmap all) pm1 [1..<pm_max_pools pm1]"
  have none: "bm_bits (replicate m 0) = {}" for m by (simp add: bm_bits_def)
  have "pools_sound pm pm2"
  proof (cases "pm_shape pm")
    case True
    have n: "n = length (pm_in_use pm)" "length (pm_deleted pm) = n" using True by (simp_all add: pm_shape_def bm_nbits_def n_def)
    have del: "all \<longrightarrow> bm_bits (pm_deleted pm1) = {}" by (simp add: pm1_def n(2) none)
    have 1: "pools_sound pm pm1"
      using True n by (auto simp: pm1_def pools_sound_def pm_shape_def pm_max_pools_def bm_nbits_def none)
    have "pools_sound pm1 pm2" unfolding pm2_def by (rule clear_fold_sound [OF _ del]) auto
    with 1 show ?thesis by (rule pools_sound_trans)
  next
    case False
    have "pm_max_pools (clear_pool_bit b a p i) = pm_max_pools p \<and> pm_del_status (clear_pool_bit b a p i) = pm_del_status p" for b a p i
      by (simp add: clear_pool_bit_def drop_pools_def pm_max_pools_def Let_def)
    then have "pm_max_pools (foldl (clear_pool_bit b a) p is) = pm_max_pools p \<and>
        pm_del_status (foldl (clear_pool_bit b a) p is) = pm_del_status p" for b a p "is"
      by (induction "is" arbitrary: p) simp_all
    then show ?thesis using False by (simp add: pools_sound_def pm2_def pm1_def pm_max_pools_def)
  qed
  moreover have "pm' = pm2 \<or> pm' = pm2\<lparr>pm_locked := True\<rparr>"
    using assms by (auto simp: clear_pool_bitmaps_def Let_def n_def all_def pm1_def pm2_def split: if_splits option.splits prod.splits sum.splits)
  ultimately show ?thesis by (auto simp: pools_sound_def pm_shape_def pm_max_pools_def)
qed

lemma del_pools_sound:
  "del_pools E garbage ids st pd w = Some (r, st', pd', w') \<Longrightarrow> \<forall>i \<in> set ids. 0 < i \<and> i < pm_max_pools (st_pm st) \<Longrightarrow>
   pools_sound (st_pm st) (st_pm st')"
proof (induction ids arbitrary: st pd w)
  case (Cons i ids)
  have id: "0 < i" "i < pm_max_pools (st_pm st)" using Cons.prems(2) by simp_all
  show ?case
  proof (cases "bitmap_test (pd_pools_to_delete pd) (of_nat i) = 0")
    case True
    then show ?thesis using Cons by simp
  next
    case False
    then obtain q pd1 w1 where k: "del_pool_keys E st (int i) garbage pd w = Some (q, pd1, w1)"
      using Cons.prems(1) by (auto split: option.splits)
    show ?thesis
    proof (cases "q = Inr 0")
      case ok: True
      then obtain c pm w2 where c: "clear_pool_bitmap E (of_nat i) (st_pm st) w1 = Some (c, pm, w2)"
        using Cons.prems(1) False k by (auto split: option.splits)
      have s: "pools_sound (st_pm st) pm" by (rule clear_pool_bitmap_sound [OF c id])
      show ?thesis
      proof (cases "c = Inr ()")
        case True
        then have "del_pools E garbage ids (set_pm pm st) pd1 w2 = Some (r, st', pd', w')"
          using Cons.prems(1) False k ok c by simp
        then have "pools_sound (st_pm (set_pm pm st)) (st_pm st')"
          by (rule Cons.IH) (use Cons.prems(2) s in \<open>simp add: set_pm_def pools_sound_def\<close>)
        then show ?thesis using pools_sound_trans [OF s] by (simp add: set_pm_def)
      next
        case False
        then have "st' = set_pm pm st"
          using Cons.prems(1) \<open>bitmap_test _ _ \<noteq> 0\<close> k ok c by simp
        then show ?thesis using s by (simp add: set_pm_def)
      qed
    next
      case False
      then have "st' = st" using Cons.prems(1) \<open>bitmap_test _ _ \<noteq> 0\<close> k by simp
      then show ?thesis by simp
    qed
  qed
qed simp

lemma start_pool_delete_sound:
  assumes "start_pool_delete E garbage all st pd w = Some (r, st', pd', w')"
  shows "pools_sound (st_pm st) (st_pm st')"
proof (cases all)
  case True
  then show ?thesis
    using assms clear_pool_bitmaps_sound [of E "pd_pools_to_delete pd'" "st_pm st"]
    by (auto simp: start_pool_delete_def set_pm_def split: option.splits if_splits)
next
  case False
  then have "del_pools E garbage [1..<unat (sm_max_pools (get_store_metadata st))] st pd w = Some (r, st', pd', w')"
    using assms by (simp add: start_pool_delete_def)
  then show ?thesis by (rule del_pools_sound) (auto simp: pm_max_pools_def get_store_metadata_def)
qed

lemma unmark_step:
  assumes sh: "pm_shape pm" and n: "n < bm_nbits (pm_in_use pm)" "n < 2 ^ 32"
  shows "pools_sound pm (unmark_deleted pm n)" "pm_in_use (unmark_deleted pm n) = pm_in_use pm"
    "bm_bits (pm_deleted (unmark_deleted pm n)) = bm_bits (pm_deleted pm) - ({n} \<inter> bm_bits (pm_in_use pm))"
proof -
  note test = in_use_test [OF sh n]
  have nd: "n < bm_nbits (pm_deleted pm)" using sh n by (simp add: pm_shape_def)
  have len: "length (bitmap_clear bm i) = length bm" for bm i by (simp add: bitmap_clear_def Let_def)
  show bits: "bm_bits (pm_deleted (unmark_deleted pm n)) = bm_bits (pm_deleted pm) - ({n} \<inter> bm_bits (pm_in_use pm))"
    using bm.clear_law [of "of_nat n" "pm_deleted pm"] n nd test by (auto simp: unmark_deleted_def unat_of_nat)
  show "pm_in_use (unmark_deleted pm n) = pm_in_use pm" by (simp add: unmark_deleted_def)
  show "pools_sound pm (unmark_deleted pm n)"
    using sh bits by (auto simp: pools_sound_def pm_shape_def unmark_deleted_def pm_max_pools_def bm_nbits_def len)
qed

lemma unmark_fold:
  "pm_shape pm \<Longrightarrow> \<forall>n \<in> set ids. n < bm_nbits (pm_in_use pm) \<and> n < 2 ^ 32 \<Longrightarrow>
   pools_sound pm (foldl unmark_deleted pm ids) \<and> pm_in_use (foldl unmark_deleted pm ids) = pm_in_use pm \<and>
   bm_bits (pm_deleted (foldl unmark_deleted pm ids)) = bm_bits (pm_deleted pm) - (set ids \<inter> bm_bits (pm_in_use pm))"
proof (induction ids arbitrary: pm)
  case (Cons n ids)
  note u = unmark_step [OF Cons.prems(1), of n]
  have n: "n < bm_nbits (pm_in_use pm)" "n < 2 ^ 32" using Cons.prems(2) by simp_all
  have sh: "pm_shape (unmark_deleted pm n)" using u(1) [OF n] Cons.prems(1) by (simp add: pools_sound_def)
  have "pools_sound (unmark_deleted pm n) (foldl unmark_deleted (unmark_deleted pm n) ids) \<and>
      pm_in_use (foldl unmark_deleted (unmark_deleted pm n) ids) = pm_in_use (unmark_deleted pm n) \<and>
      bm_bits (pm_deleted (foldl unmark_deleted (unmark_deleted pm n) ids)) =
        bm_bits (pm_deleted (unmark_deleted pm n)) - (set ids \<inter> bm_bits (pm_in_use (unmark_deleted pm n)))"
    by (rule Cons.IH [OF sh]) (use Cons.prems(2) u(2) [OF n] in simp)
  then show ?case using u [OF n] pools_sound_trans [OF u(1) [OF n]] by auto
qed simp

lemma delete_locked_sound:
  assumes sh: "pm_shape pm" and p: "pool_id_ok p pm" and d: "delete_pool_locked E p pm w = Some (r, pm', w')"
  shows "pools_sound pm pm'" "r \<noteq> Inr () \<Longrightarrow> bm_bits (pm_deleted pm') \<subseteq> bm_bits (pm_deleted pm)"
proof -
  let ?ids = "delete_ids p pm" and ?pm1 = "foldl mark_deleted pm (delete_ids p pm)"
  have ids: "\<forall>n \<in> set ?ids. n < bm_nbits (pm_in_use pm) \<and> n < 2 ^ 32 \<and> n \<noteq> 0"
  proof -
    have b: "max 2 (pm_max_pools pm) \<le> bm_nbits (pm_in_use pm)" "pm_max_pools pm \<le> 2 ^ 20"
      using sh by (simp_all add: pm_shape_def NVM_KV_MAX_POOLS_def bm_nbits_def)
    show ?thesis
    proof (cases "p = M_POOLID_ALL")
      case True
      then show ?thesis using b by (auto simp: delete_ids_def)
    next
      case False
      then have "?ids = [nat p]" "0 < nat p" "nat p < pm_max_pools pm"
        using p by (auto simp: delete_ids_def pool_id_ok_def)
      then show ?thesis using b by simp
    qed
  qed
  note m = mark_fold [OF sh ids, unfolded Let_def]
  have same: "pm_del_status (foldl mark_deleted q is) = pm_del_status q" for q "is"
    by (induction "is" arbitrary: q) (simp_all add: mark_deleted_def)
  have s1: "pools_sound pm ?pm1" using m same by (simp add: pools_sound_def)
  have ids1: "\<forall>n \<in> set ?ids. n < bm_nbits (pm_in_use ?pm1) \<and> n < 2 ^ 32" using ids m by simp
  have u: "pools_sound ?pm1 (foldl unmark_deleted ?pm1 ?ids) \<and>
      bm_bits (pm_deleted (foldl unmark_deleted ?pm1 ?ids)) = bm_bits (pm_deleted ?pm1) - (set ?ids \<inter> bm_bits (pm_in_use ?pm1))"
    using unmark_fold [OF _ ids1] m by simp
  have 1: "delete_ids p ?pm1 = ?ids" by (simp add: delete_ids_def)
  have "pm' = (if r = Inr () then ?pm1 else foldl unmark_deleted ?pm1 ?ids)"
    using d 1 by (auto simp: delete_pool_locked_def Let_def split: if_splits option.splits sum.splits)
  then show "pools_sound pm pm'" "r \<noteq> Inr () \<Longrightarrow> bm_bits (pm_deleted pm') \<subseteq> bm_bits (pm_deleted pm)"
    using s1 u pools_sound_trans [OF s1] m by auto
qed

text \<open>On a store of at most 32 pools the search for a set bit is exact: the bit of the default pool is never set.\<close>

lemma has_pools_small:
  assumes sh: "pm_shape pm" and few: "pm_max_pools pm \<le> 32"
  shows "has_pools_to_delete pm \<longleftrightarrow> bm_bits (pm_deleted pm) \<noteq> {}"
proof -
  let ?n = "sm_max_pools (pm_md pm)"
  have n: "unat ?n = pm_max_pools pm" "1 \<le> unat ?n" "unat ?n \<le> 32" using sh few by (simp_all add: pm_max_pools_def pm_shape_def)
  have words: "bm_words ?n = 1" using n by (simp add: bm_words_eq)
  have nbits: "unat ?n \<le> bm_nbits (pm_deleted pm)" using sh n(1) by (simp add: pm_shape_def)
  then have len: "bm_words ?n \<le> length (pm_deleted pm)" using n(2) words by (auto simp: bm_nbits_def)
  have "0 \<notin> bm_bits (pm_deleted pm)" using sh by (auto simp: pm_shape_def)
  then have "\<not> bit (pm_deleted pm ! 0) 0" using len words by (auto simp: bm_bits_def bm_nbits_def)
  then have "pm_deleted pm ! 0 \<noteq> 0xffffffff" by (auto simp: bit_simps)
  then have full: "\<forall>w < bm_words ?n. pm_deleted pm ! w \<noteq> 0xffffffff" by (simp add: words)
  have sub: "bm_bits (pm_deleted pm) \<subseteq> {..<unat ?n}" using sh n(1) by (auto simp: pm_shape_def)
  have "if \<forall>i < unat ?n. i \<notin> bm_bits (pm_deleted pm) then bitmap_ffs (pm_deleted pm) ?n = BM_FULL
        else bitmap_ffs (pm_deleted pm) ?n = int (LEAST i. i \<in> bm_bits (pm_deleted pm))"
    using bitmap_ffs_exact_without_full_words [OF len _ full] n(3) by simp
  then show ?thesis using sub by (auto simp: has_pools_to_delete_def split: if_splits)
qed

section \<open>The invariant of the deletion\<close>

definition status_inv :: "'w bg_state \<Rightarrow> bool" where
  "status_inv s \<longleftrightarrow> (pm_del_status (bg_pm s) \<longleftrightarrow> bg_del s \<in> {Del_Lock, Del_Pass, Del_Done})"

fun cl_pool :: "client_pc \<Rightarrow> int option" where
  "cl_pool (Cl_Call p) = Some p"
| "cl_pool (Cl_Lock p) = Some p"
| "cl_pool (Cl_Mark p) = Some p"
| "cl_pool _ = None"

fun cl_signals :: "client_pc \<Rightarrow> bool" where
  "cl_signals (Cl_Signal _) = True"
| "cl_signals _ = False"

text \<open>With \<open>few\<close>, the store has at most 32 pools and no pool in deletion is slept over.\<close>

definition work_inv :: "bool \<Rightarrow> 'w bg_state \<Rightarrow> bool" where
  "work_inv few s \<longleftrightarrow>
     pm_shape (bg_pm s) \<and> (few \<longrightarrow> pm_max_pools (bg_pm s) \<le> 32) \<and>
     (\<forall>i p. cl_pool (bg_client s i) = Some p \<longrightarrow> pool_id_ok p (bg_pm s)) \<and>
     (few \<longrightarrow> bg_del s = Del_Asleep \<longrightarrow> bm_bits (pm_deleted (bg_pm s)) \<noteq> {} \<longrightarrow> (\<exists>i. cl_signals (bg_client s i)))"

lemma pool_id_ok_max: "pm_max_pools pm' = pm_max_pools pm \<Longrightarrow> pool_id_ok p pm' = pool_id_ok p pm"
  by (simp add: pool_id_ok_def)

lemma status_sound: "pools_sound pm pm' \<Longrightarrow> pm_del_status pm' = pm_del_status pm"
  by (simp add: pools_sound_def)

lemma deleter_pools:
  assumes "deleter_step E garbage s = Some s'" and "bg_del s \<notin> {Del_Status, Del_Done}"
  shows "pools_sound (bg_pm s) (bg_pm s')" "bg_del s' \<noteq> Del_Asleep \<or> bg_pm s' = bg_pm s" "bg_client s' = bg_client s"
proof -
  have "pools_sound (bg_pm s) (bg_pm s') \<and> (bg_del s' \<noteq> Del_Asleep \<or> bg_pm s' = bg_pm s) \<and> bg_client s' = bg_client s"
  proof (cases "bg_del s")
    case Del_Check
    then show ?thesis using assms(1) by (auto simp: deleter_step_def deleter_check_def split: if_splits)
  next
    case Del_Copy
    then show ?thesis
      using assms(1) by (auto simp: deleter_step_def deleter_copy_def split: if_splits sum.splits prod.splits)
  next
    case Del_Pass
    then obtain r st pd w where p: "start_pool_delete E garbage (bg_all s) (bg_st s) (bg_pd s) (bg_world s) = Some (r, st, pd, w)"
      and s': "s' = s\<lparr>bg_st := st, bg_pd := pd, bg_world := w, bg_del := Del_Done\<rparr>"
      using assms(1) by (auto simp: deleter_step_def)
    show ?thesis using start_pool_delete_sound [OF p] by (simp add: s')
  qed (use assms in \<open>auto simp: deleter_step_def split: if_splits\<close>)
  then show "pools_sound (bg_pm s) (bg_pm s')" "bg_del s' \<noteq> Del_Asleep \<or> bg_pm s' = bg_pm s" "bg_client s' = bg_client s"
    by blast+
qed

lemma set_status_simps [simp]:
  "pm_deleted (set_pool_del_status b pm) = pm_deleted pm" "pm_max_pools (set_pool_del_status b pm) = pm_max_pools pm"
  "pm_shape (set_pool_del_status b pm) = pm_shape pm" "pm_del_status (set_pool_del_status b pm) = b"
  by (simp_all add: set_pool_del_status_def pm_max_pools_def pm_shape_def)

lemma set_pm_simps [simp]: "st_pm (set_pm pm st) = pm"
  by (simp add: set_pm_def)

lemma deleter_status:
  assumes "deleter_step E garbage s = Some s'" and "status_inv s"
  shows "status_inv s'"
proof (cases "bg_del s \<in> {Del_Status, Del_Done}")
  case True
  then show ?thesis
    using assms(1) by (auto simp: deleter_step_def status_inv_def Let_def restart_expirer_def split: if_splits)
next
  case False
  have "pm_del_status (bg_pm s') = pm_del_status (bg_pm s)"
    using deleter_pools(1) [OF assms(1) False] by (simp add: pools_sound_def)
  moreover have "bg_del s' \<in> {Del_Lock, Del_Pass, Del_Done} \<longleftrightarrow> bg_del s \<in> {Del_Lock, Del_Pass, Del_Done}"
    using assms(1) False
    by (cases "bg_del s")
      (auto simp: deleter_step_def deleter_check_def deleter_copy_def split: if_splits sum.splits prod.splits)
  ultimately show ?thesis using assms(2) by (simp add: status_inv_def)
qed

lemma deleter_work:
  assumes step: "deleter_step E garbage s = Some s'" and inv: "work_inv few s"
  shows "work_inv few s'"
proof (cases "bg_del s \<in> {Del_Status, Del_Done}")
  case True
  have "bg_del s' \<noteq> Del_Asleep \<and> bg_client s' = bg_client s \<and> (\<exists>b. bg_pm s' = set_pool_del_status b (bg_pm s))"
  proof (cases "bg_del s = Del_Status")
    case True
    then show ?thesis using step by (auto simp: deleter_step_def)
  next
    case False
    then have "bg_del s = Del_Done" using \<open>bg_del s \<in> _\<close> by simp
    then show ?thesis using step by (auto simp: deleter_step_def Let_def restart_expirer_def split: if_splits)
  qed
  then obtain b where s': "bg_del s' \<noteq> Del_Asleep" "bg_client s' = bg_client s" "bg_pm s' = set_pool_del_status b (bg_pm s)"
    by blast
  have "pool_id_ok p (set_pool_del_status b (bg_pm s)) = pool_id_ok p (bg_pm s)" for p by (rule pool_id_ok_max) simp
  then show ?thesis using inv s' by (simp add: work_inv_def)
next
  case False
  note p = deleter_pools [OF step False]
  have max: "pm_max_pools (bg_pm s') = pm_max_pools (bg_pm s)" and sh: "pm_shape (bg_pm s')"
    using p(1) inv by (simp_all add: pools_sound_def work_inv_def)
  have ids: "\<forall>i q. cl_pool (bg_client s' i) = Some q \<longrightarrow> pool_id_ok q (bg_pm s')"
    using inv p(3) pool_id_ok_max [OF max] by (simp add: work_inv_def)
  have "bm_bits (pm_deleted (bg_pm s')) = {}" if few "bg_del s' = Del_Asleep"
  proof -
    have "bg_del s = Del_Check \<and> bg_pm s' = bg_pm s \<and> \<not> has_pools_to_delete (bg_pm s)"
      using step that(2) by (cases "bg_del s")
        (auto simp: deleter_step_def deleter_check_def deleter_copy_def Let_def split: if_splits sum.splits prod.splits)
    then show ?thesis using has_pools_small [of "bg_pm s"] inv that(1) by (simp add: work_inv_def)
  qed
  then show ?thesis using inv sh ids max by (simp add: work_inv_def)
qed

lemma client_status:
  assumes step: "client_step E i s = Some s'" and inv: "status_inv s" and work: "work_inv few s"
  shows "status_inv s'"
proof (cases "bg_client s i")
  case (Cl_Mark p)
  then obtain r pm w where d: "delete_pool_locked E p (bg_pm s) (bg_world s) = Some (r, pm, w)" "bg_pm s' = pm" "bg_del s' = bg_del s"
    using step by (auto simp: client_step_def Let_def)
  have "cl_pool (bg_client s i) = Some p" using Cl_Mark by simp
  then have "pool_id_ok p (bg_pm s)" using work unfolding work_inv_def by blast
  then have "pools_sound (bg_pm s) pm" using delete_locked_sound(1) [OF _ _ d(1)] work by (simp add: work_inv_def)
  then show ?thesis using inv d(2,3) by (simp add: status_inv_def pools_sound_def)
qed (use step inv in \<open>auto simp: client_step_def status_inv_def restart_deleter_def Let_def split: if_splits\<close>)

lemma client_work:
  assumes step: "client_step E i s = Some s'" and inv: "work_inv few s"
  shows "work_inv few s'"
proof -
  have ids: "cl_pool (bg_client s j) = Some q \<Longrightarrow> pool_id_ok q (bg_pm s)" for j q using inv unfolding work_inv_def by blast
  have quiet: "work_inv few (s\<lparr>bg_mtx := m, bg_st := (bg_st s)\<lparr>st_cache := c\<rparr>, bg_client := (bg_client s)(i := pc)\<rparr>)"
    if "\<not> cl_signals (bg_client s i)" "cl_pool pc = None \<or> cl_pool pc = cl_pool (bg_client s i)" for pc m c
    using inv that unfolding work_inv_def by auto
  have noop: "s = s\<lparr>bg_mtx := bg_mtx s, bg_st := (bg_st s)\<lparr>st_cache := st_cache (bg_st s)\<rparr>\<rparr>" by simp
  show ?thesis
  proof (cases "bg_client s i")
    case Cl_Idle
    then show ?thesis using step by (simp add: client_step_def Let_def)
  next
    case (Cl_Call p)
    let ?pc = "if delete_pool_refused p (bg_pm s) = None then Cl_Lock p else Cl_Idle"
    have a: "\<not> cl_signals (bg_client s i)" "cl_pool ?pc = None \<or> cl_pool ?pc = cl_pool (bg_client s i)" by (simp_all add: Cl_Call)
    have e: "s' = s\<lparr>bg_mtx := bg_mtx s, bg_st := (bg_st s)\<lparr>st_cache := st_cache (bg_st s)\<rparr>, bg_client := (bg_client s)(i := ?pc)\<rparr>"
      using step Cl_Call by (simp add: client_step_def Let_def)
    show ?thesis unfolding e by (rule quiet [OF a])
  next
    case (Cl_Lock p)
    have a: "\<not> cl_signals (bg_client s i)" "cl_pool (Cl_Mark p) = None \<or> cl_pool (Cl_Mark p) = cl_pool (bg_client s i)"
      by (simp_all add: Cl_Lock)
    have e: "s' = s\<lparr>bg_mtx := Some (Client i), bg_st := (bg_st s)\<lparr>st_cache := st_cache (bg_st s)\<rparr>,
        bg_client := (bg_client s)(i := Cl_Mark p)\<rparr>"
      using step Cl_Lock by (simp add: client_step_def Let_def split: if_splits)
    show ?thesis unfolding e by (rule quiet [OF a])
  next
    case (Cl_Mark p)
    then obtain r pm w where d: "delete_pool_locked E p (bg_pm s) (bg_world s) = Some (r, pm, w)"
      and s': "bg_pm s' = pm" "bg_del s' = bg_del s"
        "bg_client s' = (bg_client s)(i := if r = Inr () then Cl_Signal p else Cl_Unlock p r)"
      using step by (auto simp: client_step_def Let_def)
    have p: "pool_id_ok p (bg_pm s)" using ids [of i p] Cl_Mark by simp
    have sh: "pm_shape (bg_pm s)" using inv by (simp add: work_inv_def)
    note l = delete_locked_sound [OF sh p d]
    have max: "pm_max_pools pm = pm_max_pools (bg_pm s)" "pm_shape pm" using l(1) sh by (simp_all add: pools_sound_def)
    have "cl_pool (bg_client s' j) = Some q \<Longrightarrow> cl_pool (bg_client s j) = Some q" for j q
      by (auto simp: s'(3) split: if_splits)
    then have k: "\<forall>j q. cl_pool (bg_client s' j) = Some q \<longrightarrow> pool_id_ok q (bg_pm s')"
      using ids pool_id_ok_max [OF max(1)] s'(1) by blast
    have "\<exists>j. cl_signals (bg_client s' j)" if a: "bg_del s' = Del_Asleep" "bm_bits (pm_deleted (bg_pm s')) \<noteq> {}" few
    proof (cases "r = Inr ()")
      case True
      then show ?thesis by (intro exI [of _ i]) (simp add: s'(3))
    next
      case False
      then have "bm_bits (pm_deleted (bg_pm s)) \<noteq> {}" using l(2) a(2) s'(1) by auto
      then obtain j where j: "cl_signals (bg_client s j)" using inv a(1,3) s'(2) unfolding work_inv_def by auto
      then have "j \<noteq> i" using Cl_Mark by auto
      then show ?thesis using j by (intro exI [of _ j]) (simp add: s'(3))
    qed
    then show ?thesis using k max inv s'(1) unfolding work_inv_def by simp
  next
    case (Cl_Signal p)
    then have s': "bg_pm s' = bg_pm s" "bg_del s' \<noteq> Del_Asleep" "bg_client s' = (bg_client s)(i := Cl_Unlock p (Inr ()))"
      using step by (auto simp: client_step_def Let_def restart_deleter_def split: if_splits)
    then show ?thesis using inv unfolding work_inv_def by auto
  next
    case (Cl_Unlock p r)
    obtain c where "s' = s\<lparr>bg_mtx := None, bg_st := (bg_st s)\<lparr>st_cache := c\<rparr>, bg_client := (bg_client s)(i := Cl_Idle)\<rparr>"
    proof (cases "r = Inr ()")
      case True
      then show thesis using that step Cl_Unlock by (auto simp: client_step_def Let_def)
    next
      case False
      then show thesis using that [of "st_cache (bg_st s)"] step Cl_Unlock by (auto simp: client_step_def Let_def)
    qed
    then show ?thesis using quiet Cl_Unlock by simp
  qed
qed

lemma kept_work:
  assumes "pools_kept (bg_pm s) (bg_pm s')" and "bg_del s' = bg_del s" and "bg_client s' = bg_client s"
  shows "work_inv few s \<Longrightarrow> work_inv few s'" and "status_inv s \<Longrightarrow> status_inv s'"
  using assms by (auto simp: work_inv_def status_inv_def pools_kept_def pool_id_ok_def)

lemma work_step:
  assumes oth: "others_keep oth" and step: "bg_step E oth garbage s s'" and inv: "work_inv few s" "status_inv s"
  shows "work_inv few s' \<and> status_inv s'"
  using step
proof cases
  case bg_deleter
  then show ?thesis using deleter_work deleter_status inv by blast
next
  case bg_expirer
  then show ?thesis using kept_work [OF expirer_kept(1-3) [OF oth bg_expirer]] inv by simp
next
  case (bg_client i)
  then show ?thesis using client_work client_status inv by blast
next
  case (bg_call i p)
  have "cl_signals (((bg_client s)(i := Cl_Call p)) j) = cl_signals (bg_client s j)" for j
    using bg_call(2) by simp
  then show ?thesis using bg_call(1,3) inv by (simp add: work_inv_def status_inv_def)
next
  case bg_spurious
  then show ?thesis using inv by (simp add: work_inv_def status_inv_def)
next
  case bg_timeout
  then show ?thesis using inv by (simp add: work_inv_def status_inv_def)
next
  case (bg_other st w)
  then show ?thesis using kept_work [of s "s\<lparr>bg_st := st, bg_world := w\<rparr>"] inv by simp
qed

lemma start_work: "bg_start s \<Longrightarrow> few \<longrightarrow> pm_max_pools (bg_pm s) \<le> 32 \<Longrightarrow> work_inv few s \<and> status_inv s"
  by (auto simp: bg_start_def work_inv_def status_inv_def)

lemma run_work:
  assumes "(bg_step E oth garbage)\<^sup>*\<^sup>* s s'" and "others_keep oth" and "work_inv few s \<and> status_inv s"
  shows "work_inv few s' \<and> status_inv s'"
  using assms(1,3) by (induction rule: rtranclp_induct) (use work_step [OF assms(2)] in blast)+

section \<open>A creation between the copy of the bitmap and the pass\<close>

text \<open>
  The condition on the other calls holds for \<open>create_pool\<close>, whatever it returns, and the pool it makes is
  not in a bitmap that was copied before. So a creation may come between the copy and a pass over all
  pools, which then trims the keys of the new pool, too (\<open>all_pools_pass\<close>).
\<close>

lemma create_pool_kept:
  assumes wf: "pm_wf pm" and un: "\<not> pm_locked pm" and tag: "tag_arg_ok tag"
    and ok: "create_pool E tag pm w = Some (r, pm', w')"
  shows "pools_kept pm pm'"
proof (cases rule: create_pool_cases [OF wf un, of tag E w])
  case (1 i)
  then show ?thesis using ok by simp
next
  case 2
  then show ?thesis using ok by simp
next
  case free: (3 n)
  have sh: "pm_shape pm" using wf by (simp add: pm_wf_def)
  have n0: "n \<noteq> 0" by (rule fresh_not_0 [OF sh free(3)])
  let ?pm = "add_tag (tag_str tag) (int n) (with_pool n tag pm)"
  have status: "pm_del_status ?pm = pm_del_status pm"
    by (simp add: add_tag_def with_pool_def set_pool_tag_def bump_pools_def)
  have sh1: "pm_shape ?pm" using with_pool_shape [OF sh free(2) n0 tag] by simp
  have bits: "bm_bits (bitmap_clear (bitmap_set (pm_in_use pm) (of_nat n)) (of_nat n)) = bm_bits (pm_in_use pm)"
    using pm_id_word [OF sh free(2)] pm_test(1) [OF sh free(2)] free(3) by (intro bm.clear_set_members) auto
  consider "pm' = ?pm\<lparr>pm_locked := False\<rparr>"
    | "pm' = (drop_pools (?pm\<lparr>pm_in_use := bitmap_clear (pm_in_use ?pm) (of_nat n)\<rparr>))\<lparr>pm_locked := False\<rparr>"
    using ok free(5) n0 by (auto simp: after_create_def create_pool_exit_def Let_def split: option.splits sum.splits)
  then show ?thesis
  proof cases
    case 1
    then show ?thesis using sh1 status by (simp add: pools_kept_def pm_shape_def pm_max_pools_def)
  next
    case 2
    then have "pm_shape pm'" using sh1 sh bits by (simp add: pm_shape_def drop_pools_def pm_max_pools_def)
    then show ?thesis using 2 status by (simp add: pools_kept_def drop_pools_def pm_max_pools_def)
  qed
qed

lemma new_pool_not_copied:
  assumes wf: "pm_wf pm" and un: "\<not> pm_locked pm" and tag: "tag_arg_ok tag"
    and copy: "get_pool_deletion_bitmap E pm0 w0 = Inr (bitmap, all)" "pm_deleted pm = pm_deleted pm0"
    and ok: "create_pool E tag pm w = Some (Inr pool_id, pm', w')" and new: "pool_view pm' \<noteq> pool_view pm"
  shows "\<exists>n. pool_id = int n \<and> pool_view pm' n = Some (Live (tag_str tag)) \<and> n \<notin> bm_bits bitmap"
proof -
  have sub: "bm_bits bitmap \<subseteq> bm_bits (pm_deleted pm)"
    using copy by (auto simp: get_pool_deletion_bitmap_def Let_def bm_bits_def split: option.splits)
  show ?thesis
  proof (rule create_refines [OF wf un tag ok])
    assume "pm' = pm"
    then show ?thesis using new by simp
  next
    fix n assume n: "pool_id = int n" "pool_view pm n = None" "pool_view pm' = (pool_view pm)(n \<mapsto> Live (tag_str tag))"
    have "n \<notin> bm_bits (pm_in_use pm)" using n(2) by (auto simp: pool_view_def split: if_splits)
    then have "n \<notin> bm_bits (pm_deleted pm)" using wf by (auto simp: pm_wf_def pm_shape_def)
    then show ?thesis using n sub by auto
  qed
qed

section \<open>Properties\<close>

text \<open>
  C20: the background threads exclude each other. Whatever the interleaving of the deletion thread, the
  expiry thread, any number of callers of \<open>delete_pool\<close> and all other calls of the library, with
  spurious wakeups and expired timeouts: the pass of the deletion thread and the pass of the expiry
  thread, with the check before it, are never under way together; no caller marks pools while the
  deletion thread looks at the bitmap; and no two callers mark pools at the same time.
\<close>

theorem background_threads_exclusive:
  assumes "bg_start s" and "(bg_step E oth garbage)\<^sup>*\<^sup>* s s'"
  shows "\<not> (bg_del s' \<in> {Del_Pass, Del_Done} \<and> bg_exp s' \<in> {Exp_Check} \<union> range Exp_Scan \<union> range Exp_Finish) \<and>
    (bg_del s' \<in> {Del_Check, Del_Copy} \<longrightarrow> (\<forall>i p. bg_client s' i \<noteq> Cl_Mark p \<and> bg_client s' i \<noteq> Cl_Signal p)) \<and>
    (\<forall>i j p q. i \<noteq> j \<longrightarrow> bg_client s' i = Cl_Mark p \<longrightarrow> bg_client s' j \<noteq> Cl_Mark q)"
proof -
  have inv: "lock_inv s'" by (rule bg_run_locks [OF assms(2) start_locks [OF assms(1)]])
  have e: "exp_holds pc" if "pc \<in> {Exp_Check} \<union> range Exp_Scan \<union> range Exp_Finish" for pc using that by auto
  have d: "del_holds_glb pc" if "pc \<in> {Del_Pass, Del_Done}" for pc using that by auto
  have m: "del_holds_mtx pc" if "pc \<in> {Del_Check, Del_Copy}" for pc using that by auto
  have c: "bg_mtx s' = Some (Client i)" if "bg_client s' i = Cl_Mark p \<or> bg_client s' i = Cl_Signal p" for i p
    using inv that by (auto simp: lock_inv_def)
  have "\<not> (bg_del s' \<in> {Del_Pass, Del_Done} \<and> bg_exp s' \<in> {Exp_Check} \<union> range Exp_Scan \<union> range Exp_Finish)"
    using inv e d unfolding lock_inv_def by (metis bg_thread.distinct(1) option.inject)
  moreover have "bg_del s' \<in> {Del_Check, Del_Copy} \<longrightarrow> (\<forall>i p. bg_client s' i \<noteq> Cl_Mark p \<and> bg_client s' i \<noteq> Cl_Signal p)"
    using inv m c unfolding lock_inv_def by (metis bg_thread.distinct(3) option.inject)
  moreover have "\<forall>i j p q. i \<noteq> j \<longrightarrow> bg_client s' i = Cl_Mark p \<longrightarrow> bg_client s' j \<noteq> Cl_Mark q"
    using c by (metis bg_thread.inject option.inject)
  ultimately show ?thesis by blast
qed

text \<open>
  C19: no deletion is overslept. On a store of at most 32 pools, whatever the interleaving and whichever
  calls fail: when nobody holds the mutex of the deletion thread and the thread is asleep, no pool is in
  deletion. So a caller that has marked a pool has woken the thread, or the thread sees the mark.
\<close>

theorem no_deletion_overslept:
  assumes "bg_start s" and "pm_max_pools (bg_pm s) \<le> 32" and "others_keep oth"
    and "(bg_step E oth garbage)\<^sup>*\<^sup>* s s'"
    and "bg_mtx s' = None" and "bg_del s' = Del_Asleep" and "n < pm_max_pools (bg_pm s')"
  shows "check_pool_status (int n) (bg_pm s') \<noteq> POOL_DELETION_IN_PROGRESS"
proof -
  have l: "lock_inv s'" by (rule bg_run_locks [OF assms(4) start_locks [OF assms(1)]])
  have "work_inv True s \<and> status_inv s" using start_work [OF assms(1), of True] assms(2) by simp
  then have w: "work_inv True s'" using run_work [OF assms(4,3)] by blast
  have "\<not> cl_signals (bg_client s' i)" for i
    using l assms(5) by (cases "bg_client s' i") (auto simp: lock_inv_def dest: spec [of _ i])
  then have "bm_bits (pm_deleted (bg_pm s')) = {}" using w assms(6) by (auto simp: work_inv_def)
  then show ?thesis using pm_status [OF _ assms(7)] w by (auto simp: work_inv_def)
qed

text \<open>
  C21: the expiry thread makes way for the deletion. Take any run of the two background threads and of
  callers of \<open>delete_pool\<close> with pool ids of the store, from the start of the threads, in which all other
  calls of the store leave the deletion bitmap, the number of pools and the deletion status alone. When the
  deletion thread waits for the global mutex and the expiry thread holds it, the expiry thread visits no
  further key: a scan stops at once, with store, device and iterator unchanged, and after at most three
  steps of its own it has ended the pass, given the mutex away and fallen asleep, so that the deletion can
  start.
\<close>

theorem expiry_makes_way:
  assumes "bg_start s" and "others_keep oth"
    and "(bg_step E oth garbage)\<^sup>*\<^sup>* s s'" and "bg_del s' = Del_Lock" and "bg_glb s' = Some Expirer"
  shows "(\<forall>c. bg_exp s' = Exp_Scan c \<longrightarrow> expirer_step E oth s' = Some (s'\<lparr>bg_exp := Exp_Finish (Inr c)\<rparr>)) \<and>
    (\<exists>n \<le> 3. \<exists>t. ((\<lambda>s s'. expirer_step E oth s = Some s') ^^ n) s' t \<and> bg_exp t = Exp_Asleep \<and>
       deleter_step E garbage t = Some (t\<lparr>bg_glb := Some Deleter, bg_del := Del_Pass\<rparr>))"
proof -
  let ?R = "\<lambda>s s'. expirer_step E oth s = Some s'"
  have "work_inv False s \<and> status_inv s" using start_work [OF assms(1), of False] by simp
  then have w: "work_inv False s' \<and> status_inv s'" by (rule run_work [OF assms(3,2)])
  have l: "lock_inv s'" by (rule bg_run_locks [OF assms(3) start_locks [OF assms(1)]])
  have on: "pm_del_status (bg_pm s')" using w assms(4) by (simp add: status_inv_def)
  have run: "put_run (bg_run s') (bg_world s') s' = s'" by (cases s') (simp add: put_run_def bg_run_def)
  have scan: "expirer_step E oth s' = Some (s'\<lparr>bg_exp := Exp_Finish (Inr c)\<rparr>)" if "bg_exp s' = Exp_Scan c" for c
    using that on run by (simp add: expirer_step_def expiry_iteration_def bg_run_def check_pool_del_status_def)
  have check: "\<exists>t. ?R u t \<and> bg_exp t = Exp_Asleep \<and>
      deleter_step E garbage t = Some (t\<lparr>bg_glb := Some Deleter, bg_del := Del_Pass\<rparr>)"
    if "bg_exp u = Exp_Check" "bg_del u = Del_Lock" "pm_del_status (bg_pm u)" for u
    using that by (simp add: expirer_step_def expirer_check_def check_pool_del_status_def deleter_step_def)
  have finish: "\<exists>v. ?R u v \<and> bg_exp v = Exp_Check \<and> bg_del v = Del_Lock \<and> pm_del_status (bg_pm v)"
    if u: "bg_exp u = Exp_Finish q" "bg_del u = Del_Lock" "pm_del_status (bg_pm u)" for u q
  proof -
    obtain q' r w where f: "expiry_finish E oth (q, bg_run u, bg_world u) = (q', r, w)" by (meson prod_cases3)
    have "pm_del_status (st_pm (er_st r))"
      using expiry_finish_kept [OF assms(2) f] u(3) by (simp add: pools_kept_def bg_run_def)
    then show ?thesis using u(1,2) f by (simp add: expirer_step_def put_run_def)
  qed
  have one: "\<exists>n \<le> 3. \<exists>t. (?R ^^ n) s' t \<and> P t" if "(?R ^^ n) s' t" "n \<le> 3" "P t" for n t P using that by blast
  have "exp_holds (bg_exp s')" using l assms(5) by (simp add: lock_inv_def)
  then consider "bg_exp s' = Exp_Check" | q where "bg_exp s' = Exp_Finish q" | c where "bg_exp s' = Exp_Scan c"
    by (cases "bg_exp s'") auto
  then have "\<exists>n \<le> 3. \<exists>t. (?R ^^ n) s' t \<and> (bg_exp t = Exp_Asleep \<and>
       deleter_step E garbage t = Some (t\<lparr>bg_glb := Some Deleter, bg_del := Del_Pass\<rparr>))"
  proof cases
    case 1
    then obtain t where "?R s' t" "bg_exp t = Exp_Asleep \<and>
        deleter_step E garbage t = Some (t\<lparr>bg_glb := Some Deleter, bg_del := Del_Pass\<rparr>)" using check assms(4) on by blast
    then show ?thesis by (intro one [of 1 t]) auto
  next
    case (2 q)
    then obtain v where v: "?R s' v" "bg_exp v = Exp_Check \<and> bg_del v = Del_Lock \<and> pm_del_status (bg_pm v)"
      using finish assms(4) on by blast
    then obtain t where "?R v t" "bg_exp t = Exp_Asleep \<and>
        deleter_step E garbage t = Some (t\<lparr>bg_glb := Some Deleter, bg_del := Del_Pass\<rparr>)" using check by blast
    then show ?thesis using v(1) by (intro one [of 2 t]) (auto simp: numeral_2_eq_2 intro: relcomppI)
  next
    case (3 c)
    let ?u = "s'\<lparr>bg_exp := Exp_Finish (Inr c)\<rparr>"
    have "?R s' ?u" by (rule scan [OF 3])
    moreover obtain v where v: "?R ?u v" "bg_exp v = Exp_Check \<and> bg_del v = Del_Lock \<and> pm_del_status (bg_pm v)"
      using finish [of ?u "Inr c"] assms(4) on by auto
    moreover obtain t where "?R v t" "bg_exp t = Exp_Asleep \<and>
        deleter_step E garbage t = Some (t\<lparr>bg_glb := Some Deleter, bg_del := Del_Pass\<rparr>)" using check v(2) by blast
    ultimately show ?thesis by (intro one [of 3 t]) (auto simp: numeral_3_eq_3 intro!: relcomppI)
  qed
  then show ?thesis using scan by blast
qed

section \<open>A run on the simulated device\<close>

definition sim_threads :: "nvm_kv_store \<Rightarrow> sectors bg_state" where
  "sim_threads st =
     \<lparr>bg_st = st, bg_world = (\<lambda>n. None), bg_pd = sim_pool_del, bg_all = False,
      bg_em = sim_expiry_mgr\<lparr>em_last_seen_capacity := 25 / 256\<rparr>, bg_ni = sim_iterator, bg_iovec = [],
      bg_mtx = None, bg_glb = None, bg_del = Del_Top, bg_exp = Exp_Start, bg_client = (\<lambda>i. Cl_Idle)\<rparr>"

lemma dying_start: "bg_start (sim_threads dying_store)" "pm_max_pools (bg_pm (sim_threads dying_store)) \<le> 32"
  using dying_wf by (simp_all add: bg_start_def sim_threads_def dying_store_def pm_wf_def dying_max)
    (simp_all add: dying_pm_def media_pm_def demo_pm_def)

lemma idle_start:
  "bg_start (sim_threads (set_pm media_pm sim_store))" "pm_max_pools (bg_pm (sim_threads (set_pm media_pm sim_store))) = 2"
  using media_wf by (simp_all add: bg_start_def sim_threads_def pm_wf_def media_max)
    (simp_all add: media_pm_def demo_pm_def)

lemma nobody_keeps: "others_keep (\<lambda>l s. s)"
  by (simp add: others_keep_def pools_kept_def)

lemma dying_check: "has_pools_to_delete dying_pm"
  using has_pools_small [of dying_pm] dying_wf by (simp add: pm_wf_def dying_max dying_bits)

lemma idle_check: "\<not> has_pools_to_delete media_pm"
  using has_pools_small [of media_pm] media_wf by (simp add: pm_wf_def media_max media_bits)

lemma sim_memalign: "env_memalign sim_iter_env w n = Some \<lparr>mb_addr = 0, mb_mem = zeros n\<rparr>"
  by (simp add: sim_iter_env_def sim_env_def)

lemma dying_pools [simp]: "st_pm dying_store = dying_pm" "pm_del_status dying_pm = False"
  by (simp_all add: dying_store_def dying_pm_def media_pm_def demo_pm_def)

text \<open>The deletion thread copies the bitmap while the expiry thread starts a pass.\<close>

definition copied :: "sectors bg_state" where
  "copied = the (deleter_copy sim_iter_env ((sim_threads dying_store)\<lparr>bg_mtx := Some Deleter, bg_del := Del_Copy\<rparr>))"

lemma copied_state:
  "deleter_copy sim_iter_env ((sim_threads dying_store)\<lparr>bg_mtx := Some Deleter, bg_del := Del_Copy\<rparr>) = Some copied"
  "bg_st copied = dying_store" "bg_em copied = sim_expiry_mgr\<lparr>em_last_seen_capacity := 25 / 256\<rparr>"
  "bg_mtx copied = None" "bg_glb copied = None" "bg_del copied = Del_Status" "bg_exp copied = Exp_Start"
  by (simp_all add: copied_def deleter_copy_def sim_threads_def dying_store_def dying_same get_pool_deletion_bitmap_def
      sim_memalign Let_def)

abbreviation sim_step :: "sectors bg_state \<Rightarrow> sectors bg_state \<Rightarrow> bool" where
  "sim_step \<equiv> bg_step sim_iter_env (\<lambda>l s. s) 0"

lemma sim_deleter: "deleter_step sim_iter_env 0 s = Some t \<Longrightarrow> sim_step\<^sup>*\<^sup>* t u \<Longrightarrow> sim_step\<^sup>*\<^sup>* s u"
  by (blast intro: converse_rtranclp_into_rtranclp bg_deleter)

lemma sim_expirer: "expirer_step sim_iter_env (\<lambda>l s. s) s = Some t \<Longrightarrow> sim_step\<^sup>*\<^sup>* t u \<Longrightarrow> sim_step\<^sup>*\<^sup>* s u"
  by (blast intro: converse_rtranclp_into_rtranclp bg_expirer)

lemma run_copied: "sim_step\<^sup>*\<^sup>* (sim_threads dying_store) copied"
proof -
  let ?s = "sim_threads dying_store"
  have 1: "deleter_step sim_iter_env 0 ?s = Some (?s\<lparr>bg_mtx := Some Deleter, bg_del := Del_Check\<rparr>)"
    by (simp add: deleter_step_def sim_threads_def)
  have 2: "deleter_step sim_iter_env 0 (?s\<lparr>bg_mtx := Some Deleter, bg_del := Del_Check\<rparr>)
      = Some (?s\<lparr>bg_mtx := Some Deleter, bg_del := Del_Copy\<rparr>)"
    using dying_check by (simp add: deleter_step_def deleter_check_def sim_threads_def dying_store_def dying_same)
  have 3: "deleter_step sim_iter_env 0 (?s\<lparr>bg_mtx := Some Deleter, bg_del := Del_Copy\<rparr>) = Some copied"
    using copied_state(1) by (simp add: deleter_step_def)
  show ?thesis by (rule sim_deleter [OF 1 sim_deleter [OF 2 sim_deleter [OF 3 rtranclp.rtrancl_refl]]])
qed

definition scanning :: "sectors bg_state" where
  "scanning = copied\<lparr>bg_glb := Some Expirer,
     bg_em := sim_expiry_mgr\<lparr>em_last_seen_capacity := 25 / 256, em_no_expire_count := em_no_expire_count sim_expiry_mgr + 1\<rparr>,
     bg_exp := Exp_Scan 0, bg_st := set_pm (set_pool_del_status True dying_pm) dying_store, bg_del := Del_Lock\<rparr>"

lemma run_scanning: "sim_step\<^sup>*\<^sup>* (sim_threads dying_store) scanning"
proof -
  let ?s = "copied\<lparr>bg_glb := Some Expirer, bg_exp := Exp_Check\<rparr>"
  have 1: "expirer_step sim_iter_env (\<lambda>l s. s) copied = Some ?s" by (simp add: expirer_step_def copied_state)
  have 2: "expirer_step sim_iter_env (\<lambda>l s. s) ?s = Some (expirer_check sim_iter_env ?s)"
    by (simp add: expirer_step_def)
  have 3: "deleter_step sim_iter_env 0 (expirer_check sim_iter_env ?s) = Some scanning"
    by (simp add: scanning_def deleter_step_def expirer_check_def check_pool_del_status_def expire_keys_def
        expire_decide_def percent_used_def sim_iter_env_def sim_expiry_mgr_def M_NO_EXPIRY_LIMIT_def copied_state)
  show ?thesis
    by (rule rtranclp_trans [OF run_copied sim_expirer [OF 1 sim_expirer [OF 2 sim_deleter [OF 3 rtranclp.rtrancl_refl]]]])
qed

corollary background_threads_exclusive_witness:
  "\<exists>s. sim_step\<^sup>*\<^sup>* (sim_threads dying_store) s \<and> bg_exp s = Exp_Scan 0 \<and> bg_del s \<notin> {Del_Pass, Del_Done}"
proof -
  have e: "bg_exp scanning = Exp_Scan 0" by (simp add: scanning_def)
  have "\<not> (bg_del scanning \<in> {Del_Pass, Del_Done} \<and> bg_exp scanning \<in> {Exp_Check} \<union> range Exp_Scan \<union> range Exp_Finish)"
    using background_threads_exclusive [OF dying_start(1) run_scanning] by blast
  then show ?thesis using run_scanning e by (intro exI [of _ scanning]) auto
qed

corollary no_deletion_overslept_witness:
  "\<exists>s. sim_step\<^sup>*\<^sup>* (sim_threads (set_pm media_pm sim_store)) s \<and> bg_del s = Del_Asleep \<and>
     check_pool_status 1 (bg_pm s) \<noteq> POOL_DELETION_IN_PROGRESS"
proof -
  let ?s = "sim_threads (set_pm media_pm sim_store)"
  have 1: "deleter_step sim_iter_env 0 ?s = Some (?s\<lparr>bg_mtx := Some Deleter, bg_del := Del_Check\<rparr>)"
    by (simp add: deleter_step_def sim_threads_def)
  have 2: "deleter_step sim_iter_env 0 (?s\<lparr>bg_mtx := Some Deleter, bg_del := Del_Check\<rparr>) = Some (?s\<lparr>bg_del := Del_Asleep\<rparr>)"
    using idle_check by (simp add: deleter_step_def deleter_check_def sim_threads_def) (simp add: media_pm_def demo_pm_def)
  have run: "sim_step\<^sup>*\<^sup>* ?s (?s\<lparr>bg_del := Del_Asleep\<rparr>)"
    by (rule sim_deleter [OF 1 sim_deleter [OF 2 rtranclp.rtrancl_refl]])
  have "check_pool_status (int 1) (bg_pm (?s\<lparr>bg_del := Del_Asleep\<rparr>)) \<noteq> POOL_DELETION_IN_PROGRESS"
    by (rule no_deletion_overslept [OF idle_start(1) _ nobody_keeps run])
      (simp_all add: idle_start(2) [unfolded sim_threads_def] sim_threads_def media_max)
  then show ?thesis using run by (intro exI [of _ "?s\<lparr>bg_del := Del_Asleep\<rparr>"]) simp
qed

corollary expiry_makes_way_witness:
  "\<exists>s. sim_step\<^sup>*\<^sup>* (sim_threads dying_store) s \<and> bg_exp s = Exp_Scan 0 \<and>
     expirer_step sim_iter_env (\<lambda>l s. s) s = Some (s\<lparr>bg_exp := Exp_Finish (Inr 0)\<rparr>)"
proof -
  have d: "bg_del scanning = Del_Lock" "bg_glb scanning = Some Expirer" "bg_exp scanning = Exp_Scan 0"
    by (simp_all add: scanning_def)
  show ?thesis
    using expiry_makes_way [OF dying_start(1) nobody_keeps run_scanning d(1,2)] run_scanning d(3) by blast
qed

end
