(* ===== verification/AsyncThreads.thy ===== *)
theory AsyncThreads
  imports Store
begin

text \<open>
  The threads of the asynchronous expiry (\<open>NVM_KV_Async_Expiry::start_thread\<close>) and the callers of
  \<open>update_expiry_queue\<close>, interleaved, any number of each. A worker and a caller stand at the places of their
  code where they take, give away or wait for the mutex of the scanner (\<open>m_cond_mtx\<close>); a step is the code
  up to the next place. The deletion of a block, without the mutex, is one step; what other threads do
  while it waits for an address is the parameter \<open>others\<close>, which leaves the queue alone. Threads are not
  cancelled. \<open>ae_run\<close> is a run with the vectors in the order in which they are queued and the blocks in the
  order in which they are taken.
\<close>

section \<open>The threads\<close>

text \<open>Where a thread is in \<open>NVM_KV_Async_Expiry::start_thread\<close>.\<close>

datatype worker_pc =
    Wk_Top     \<comment> \<open>before the mutex\<close>
  | Wk_Check   \<comment> \<open>at the condition of the inner loop, with the mutex\<close>
  | Wk_Asleep
  | Wk_Woken   \<comment> \<open>has to get the mutex back\<close>
  | Wk_Delete "nvm_iovec list"  \<comment> \<open>with a block of its own, without the mutex\<close>

text \<open>Where a caller is in \<open>update_expiry_queue\<close>.\<close>

datatype producer_pc =
    Pr_Idle
  | Pr_Lock u64 nvm_kv_header
  | Pr_Update u64 nvm_kv_header
  | Pr_Unlock "unit res"

datatype ae_thread = Worker nat | Producer nat

record 'w ae_state =
  ae_st :: nvm_kv_store
  ae_world :: 'w
  ae_mtx :: "ae_thread option"
  ae_worker :: "nat \<Rightarrow> worker_pc"
  ae_producer :: "nat \<Rightarrow> producer_pc"

abbreviation ae_queue :: "'w ae_state \<Rightarrow> nvm_iovec list list" where
  "ae_queue s \<equiv> st_queue (ae_st s)"

definition store_iovs :: "nvm_kv_store \<Rightarrow> nat" where
  "store_iovs st = nvm_max_num_iovs (dev_caps (get_store_device st))"

definition front_full :: "nat \<Rightarrow> nvm_iovec list list \<Rightarrow> bool" where
  "front_full max_iovecs queue \<longleftrightarrow> queue \<noteq> [] \<and> max_iovecs \<le> length (hd queue)"

text \<open>
  The condition of the inner loop and, when it lets the thread pass, the pop: the mutex is given away in
  both cases, by the wait or by the unlock.
\<close>

definition worker_check :: "nat \<Rightarrow> 'w ae_state \<Rightarrow> 'w ae_state" where
  "worker_check i s =
     (if front_full (store_iovs (ae_st s)) (ae_queue s)
      then s\<lparr>ae_st := (ae_st s)\<lparr>st_queue := tl (ae_queue s)\<rparr>, ae_mtx := None,
             ae_worker := (ae_worker s)(i := Wk_Delete (hd (ae_queue s)))\<rparr>
      else s\<lparr>ae_mtx := None, ae_worker := (ae_worker s)(i := Wk_Asleep)\<rparr>)"

definition worker_delete :: "'w nvm_env \<Rightarrow> 'w others \<Rightarrow> nvm_iovec list \<Rightarrow> 'w ae_state \<Rightarrow> 'w ae_state" where
  "worker_delete E oth block s =
     (case batch_delete_sync E oth (take (store_iovs (ae_st s)) block) True (ae_st s) (ae_world s) of
        (_, st, w) \<Rightarrow> s\<lparr>ae_st := st, ae_world := w\<rparr>)"

definition worker_step :: "'w nvm_env \<Rightarrow> 'w others \<Rightarrow> nat \<Rightarrow> 'w ae_state \<Rightarrow> 'w ae_state option" where
  "worker_step E oth i s =
     (let lock = (if ae_mtx s = None
                  then Some (s\<lparr>ae_mtx := Some (Worker i), ae_worker := (ae_worker s)(i := Wk_Check)\<rparr>) else None)
      in case ae_worker s i of
           Wk_Top \<Rightarrow> lock
         | Wk_Check \<Rightarrow> Some (worker_check i s)
         | Wk_Asleep \<Rightarrow> None
         | Wk_Woken \<Rightarrow> lock
         | Wk_Delete block \<Rightarrow> Some ((worker_delete E oth block s)\<lparr>ae_worker := (ae_worker s)(i := Wk_Top)\<rparr>))"

text \<open>A broadcast wakes every thread that is asleep.\<close>

definition restart_workers :: "(nat \<Rightarrow> worker_pc) \<Rightarrow> nat \<Rightarrow> worker_pc" where
  "restart_workers wk = (\<lambda>i. if wk i = Wk_Asleep then Wk_Woken else wk i)"

definition producer_step :: "'w nvm_env \<Rightarrow> nat \<Rightarrow> 'w ae_state \<Rightarrow> 'w ae_state option" where
  "producer_step E i s =
     (let go = (\<lambda>pc s. s\<lparr>ae_producer := (ae_producer s)(i := pc)\<rparr>)
      in case ae_producer s i of
           Pr_Idle \<Rightarrow> None
         | Pr_Lock loc hdr \<Rightarrow>
             if ae_mtx s = None then Some (go (Pr_Update loc hdr) (s\<lparr>ae_mtx := Some (Producer i)\<rparr>)) else None
         | Pr_Update loc hdr \<Rightarrow>
             (case update_expiry_queue E loc hdr (ae_st s) (ae_world s) of
                (r, wake, st) \<Rightarrow>
                  Some (go (Pr_Unlock r) (s\<lparr>ae_st := st,
                      ae_worker := if wake then restart_workers (ae_worker s) else ae_worker s\<rparr>)))
         | Pr_Unlock r \<Rightarrow> Some (go Pr_Idle (s\<lparr>ae_mtx := None\<rparr>)))"

text \<open>The loop body of one thread without interruption is the round of the sequential model.\<close>

lemma worker_round:
  assumes "ae_worker s i = Wk_Check" and "ae_mtx s = Some (Worker i)"
    and "async_expiry_step E oth (ae_st s) (ae_world s) = Some (r, st, w)"
  shows "\<exists>t. worker_step E oth i s = Some t \<and>
    worker_step E oth i t = Some (s\<lparr>ae_st := st, ae_world := w, ae_mtx := None, ae_worker := (ae_worker s)(i := Wk_Top)\<rparr>)"
proof -
  obtain b q where q: "ae_queue s = b # q" "store_iovs (ae_st s) \<le> length b"
    and d: "batch_delete_sync E oth (take (store_iovs (ae_st s)) b) True ((ae_st s)\<lparr>st_queue := q\<rparr>) (ae_world s) = (r, st, w)"
    using assms(3) by (auto simp: async_expiry_step_def store_iovs_def Let_def split: list.splits if_splits)
  have n: "store_iovs ((ae_st s)\<lparr>st_queue := q\<rparr>) = store_iovs (ae_st s)" by (simp add: store_iovs_def get_store_device_def)
  show ?thesis
    using assms(1) q d n by (simp add: worker_step_def worker_check_def worker_delete_def front_full_def Let_def)
qed

section \<open>Steps of the system\<close>

text \<open>All other calls of the library may do what they like with the store, but not with the queue.\<close>

definition queue_kept :: "nvm_kv_store \<Rightarrow> nvm_kv_store \<Rightarrow> bool" where
  "queue_kept st st' \<longleftrightarrow> st_queue st' = st_queue st \<and> get_store_device st' = get_store_device st"

definition others_keep_queue :: "'w others \<Rightarrow> bool" where
  "others_keep_queue oth \<longleftrightarrow> (\<forall>l s. queue_kept (fst s) (fst (oth l s)))"

inductive ae_step :: "'w nvm_env \<Rightarrow> 'w others \<Rightarrow> 'w ae_state \<Rightarrow> 'w ae_state \<Rightarrow> bool" for E oth where
  ae_worker: "worker_step E oth i s = Some s' \<Longrightarrow> ae_step E oth s s'"
| ae_producer: "producer_step E i s = Some s' \<Longrightarrow> ae_step E oth s s'"
| ae_call: "ae_producer s i = Pr_Idle \<Longrightarrow>
    ae_step E oth s (s\<lparr>ae_producer := (ae_producer s)(i := Pr_Lock loc hdr)\<rparr>)"
| ae_spurious: "ae_worker s i = Wk_Asleep \<Longrightarrow> ae_step E oth s (s\<lparr>ae_worker := (ae_worker s)(i := Wk_Woken)\<rparr>)"
| ae_other: "queue_kept (ae_st s) st \<Longrightarrow> ae_step E oth s (s\<lparr>ae_st := st, ae_world := w\<rparr>)"

inductive_cases ae_stepE: "ae_step E oth s s'"

text \<open>A run, with the blocks in the order in which the threads take them and the vectors in the order in which they are queued.\<close>

definition taken_by :: "'w ae_state \<Rightarrow> 'w ae_state \<Rightarrow> nvm_iovec list list" where
  "taken_by s s' = (if ae_queue s \<noteq> [] \<and> ae_queue s' = tl (ae_queue s) then [hd (ae_queue s)] else [])"

definition queued_by :: "'w ae_state \<Rightarrow> 'w ae_state \<Rightarrow> nvm_iovec list" where
  "queued_by s s' = (if taken_by s s' = [] then drop (length (concat (ae_queue s))) (concat (ae_queue s')) else [])"

inductive ae_run ::
  "'w nvm_env \<Rightarrow> 'w others \<Rightarrow> 'w ae_state \<Rightarrow> nvm_iovec list \<Rightarrow> nvm_iovec list list \<Rightarrow> 'w ae_state \<Rightarrow> bool"
  for E oth s where
  run_start: "ae_run E oth s [] [] s"
| run_step: "ae_run E oth s ins outs t \<Longrightarrow> ae_step E oth t u \<Longrightarrow>
    ae_run E oth s (ins @ queued_by t u) (outs @ taken_by t u) u"

definition ae_start :: "'w ae_state \<Rightarrow> bool" where
  "ae_start s \<longleftrightarrow>
     ae_queue s = [] \<and> 0 < store_iovs (ae_st s) \<and> ae_mtx s = None \<and> (\<forall>i. ae_worker s i = Wk_Top) \<and> (\<forall>i. ae_producer s i = Pr_Idle)"

section \<open>The invariant\<close>

fun wk_holds :: "worker_pc \<Rightarrow> bool" where
  "wk_holds Wk_Check = True"
| "wk_holds _ = False"

fun pr_holds :: "producer_pc \<Rightarrow> bool" where
  "pr_holds (Pr_Update _ _) = True"
| "pr_holds (Pr_Unlock _) = True"
| "pr_holds _ = False"

definition ae_inv :: "nat \<Rightarrow> 'w ae_state \<Rightarrow> bool" where
  "ae_inv n s \<longleftrightarrow>
     0 < n \<and> store_iovs (ae_st s) = n \<and> queue_ok n (ae_queue s) \<and>
     (\<forall>i. ae_mtx s = Some (Worker i) \<longleftrightarrow> wk_holds (ae_worker s i)) \<and>
     (\<forall>i. ae_mtx s = Some (Producer i) \<longleftrightarrow> pr_holds (ae_producer s i)) \<and>
     (\<forall>i. ae_worker s i = Wk_Asleep \<longrightarrow> \<not> front_full n (ae_queue s))"

lemma ae_inv_start: "ae_start s \<Longrightarrow> ae_inv (store_iovs (ae_st s)) s"
  by (simp add: ae_start_def ae_inv_def queue_ok_nil)

lemma queue_kept_refl [simp]: "queue_kept st st"
  by (simp add: queue_kept_def)

lemma queue_kept_trans: "queue_kept st st1 \<Longrightarrow> queue_kept st1 st2 \<Longrightarrow> queue_kept st st2"
  by (simp add: queue_kept_def)

lemma safe_insert_all_queue:
  "others_keep_queue oth \<Longrightarrow> queue_kept st (fst (safe_insert_all oth iovs st w))"
proof (induction iovs arbitrary: st w)
  case (Cons iov iovs)
  obtain b st1 w1 where i: "insert_lba_to_safe_list oth (iov_lba iov) st w = (b, st1, w1)" by (meson prod_cases3)
  have k: "queue_kept (fst s) (fst (oth l s))" for l s using Cons.prems unfolding others_keep_queue_def by blast
  have "queue_kept st st1"
    using i k [of "(st, w)" "iov_lba iov"] unfolding insert_lba_to_safe_list_def
    by (auto simp: Let_def queue_kept_def get_store_device_def split: if_splits prod.splits)
  then show ?case using Cons.IH [OF Cons.prems, of st1 w1] i by (auto intro: queue_kept_trans)
qed simp

lemma delete_sync_queue:
  assumes "others_keep_queue oth" and "batch_delete_sync E oth iovs c st w = (r, st', w')"
  shows "queue_kept st st'"
proof -
  obtain st1 w1 where i: "safe_insert_all oth iovs st w = (st1, w1)" by force
  have "queue_kept st st1" using safe_insert_all_queue [OF assms(1), of st iovs w] i by simp
  moreover have "queue_kept st1 st'"
    using assms(2) i by (auto simp: batch_delete_sync_def Let_def safe_delete_all queue_kept_def get_store_device_def
        split: prod.splits if_splits)
  ultimately show ?thesis by (rule queue_kept_trans)
qed

text \<open>One call of the producer: nothing, or one vector more at the end of the queue.\<close>

lemma update_appends:
  assumes "queue_ok (store_iovs st) (st_queue st)" and "0 < store_iovs st" and "update_expiry_queue E loc hdr st w = (r, wake, st')"
  shows "get_store_device st' = get_store_device st"
    and "st' = st \<and> \<not> wake \<or>
      (\<exists>iov. concat (st_queue st') = concat (st_queue st) @ [iov]) \<and> length (st_queue st) \<le> length (st_queue st') \<and>
      queue_ok (store_iovs st) (st_queue st') \<and> (wake \<longleftrightarrow> front_full (store_iovs st) (st_queue st'))"
proof -
  let ?n = "store_iovs st"
  let ?new = "trim_iov loc (expiry_trim_len hdr (get_sector_size st))"
  have "get_store_device st' = get_store_device st \<and> (st' = st \<and> \<not> wake \<or>
      (\<exists>iov. concat (st_queue st') = concat (st_queue st) @ [iov]) \<and> length (st_queue st) \<le> length (st_queue st') \<and>
      queue_ok ?n (st_queue st') \<and> (wake \<longleftrightarrow> front_full ?n (st_queue st')))"
  proof (cases "queue_has_room ?n (st_queue st)")
    case False
    show ?thesis
    proof (cases "env_new_iovs E w ?n = None")
      case True
      then show ?thesis using assms(3) False by (simp add: update_expiry_queue_def store_iovs_def)
    next
      case some: False
      have e: "st' = st\<lparr>st_queue := st_queue st @ [[?new]]\<rparr>" "wake \<longleftrightarrow> length (hd (st_queue st @ [[?new]])) = ?n"
        using assms(3) False some by (auto simp: update_expiry_queue_def store_iovs_def Let_def)
      have ok: "queue_ok ?n (st_queue st @ [[?new]])"
        using queue_ok_full [OF assms(1) False] assms(2) by (simp add: queue_ok_snoc block_ok_def)
      have "length (hd (st_queue st @ [[?new]])) \<le> ?n"
        using ok by (cases "st_queue st") (auto simp: queue_ok_def block_ok_def)
      then have "wake \<longleftrightarrow> front_full ?n (st_queue st')" using e by (auto simp: front_full_def)
      then show ?thesis using e ok by (auto simp: get_store_device_def)
    qed
  next
    case True
    then obtain q b where q: "st_queue st = q @ [b]" "length b \<noteq> ?n"
      by (cases "st_queue st" rule: rev_cases) (auto simp: queue_has_room_def)
    show ?thesis
    proof (cases "\<exists>iov \<in> set b. iov_lba iov = loc")
      case known: True
      then show ?thesis using assms(3) True q
        by (cases st) (auto simp: update_expiry_queue_def store_iovs_def Let_def get_store_device_def)
    next
      case False
      have e: "st' = st\<lparr>st_queue := q @ [b @ [?new]]\<rparr>" "wake \<longleftrightarrow> length (hd (q @ [b @ [?new]])) = ?n"
        using assms(3) True False q by (auto simp: update_expiry_queue_def store_iovs_def Let_def)
      have b: "list_all (block_ok ?n) q \<and> list_all (\<lambda>b. length b = ?n) q \<and> block_ok ?n b"
        using assms(1) by (simp add: q(1) queue_ok_snoc)
      then have "block_ok ?n (b @ [?new])" using False q(2) by (auto simp: block_ok_def)
      then have ok: "queue_ok ?n (q @ [b @ [?new]])" using b by (simp add: queue_ok_snoc)
      have "length (hd (q @ [b @ [?new]])) \<le> ?n"
        using ok by (cases q) (auto simp: queue_ok_def block_ok_def)
      then have "wake \<longleftrightarrow> front_full ?n (st_queue st')" using e by (auto simp: front_full_def)
      then show ?thesis using e ok q(1) by (auto simp: get_store_device_def)
    qed
  qed
  then show "get_store_device st' = get_store_device st" "st' = st \<and> \<not> wake \<or>
      (\<exists>iov. concat (st_queue st') = concat (st_queue st) @ [iov]) \<and> length (st_queue st) \<le> length (st_queue st') \<and>
      queue_ok ?n (st_queue st') \<and> (wake \<longleftrightarrow> front_full ?n (st_queue st'))" by blast+
qed

text \<open>What a step does to the queue.\<close>

definition queue_moves :: "nat \<Rightarrow> nvm_iovec list list \<Rightarrow> nvm_iovec list list \<Rightarrow> bool" where
  "queue_moves n q q' \<longleftrightarrow>
     q' = q \<or> front_full n q \<and> q' = tl q \<or> (\<exists>iov. concat q' = concat q @ [iov]) \<and> length q \<le> length q'"

lemma queue_ok_front: "queue_ok n q \<Longrightarrow> front_full n q \<Longrightarrow> length (hd q) = n \<and> distinct (map iov_lba (hd q))"
  by (cases q) (auto simp: queue_ok_def block_ok_def front_full_def)

lemma worker_inv:
  assumes oth: "others_keep_queue oth" and inv: "ae_inv n s" and step: "worker_step E oth i s = Some s'"
  shows "ae_inv n s' \<and> queue_moves n (ae_queue s) (ae_queue s')"
proof (cases "ae_worker s i")
  case Wk_Check
  have own: "ae_mtx s = Some (Worker i)" using inv Wk_Check by (simp add: ae_inv_def)
  have n: "store_iovs (ae_st s) = n" "queue_ok n (ae_queue s)" using inv by (simp_all add: ae_inv_def)
  have others: "\<not> wk_holds (ae_worker s j)" if "j \<noteq> i" for j using inv own that unfolding ae_inv_def by (metis ae_thread.inject(1) option.inject)
  have producers: "\<not> pr_holds (ae_producer s j)" for j using inv own unfolding ae_inv_def by (metis ae_thread.distinct(1) option.inject)
  have s': "s' = worker_check i s" using step Wk_Check by (simp add: worker_step_def Let_def)
  show ?thesis
  proof (cases "front_full n (ae_queue s)")
    case True
    then have asleep: "ae_worker s j \<noteq> Wk_Asleep" for j using inv by (auto simp: ae_inv_def)
    have ok: "queue_ok n (tl (ae_queue s))" using n(2) True by (cases "ae_queue s") (auto simp: front_full_def intro: queue_ok_tl)
    show ?thesis using True asleep ok inv others producers n
      by (simp add: s' worker_check_def ae_inv_def queue_moves_def store_iovs_def get_store_device_def)
  next
    case False
    then show ?thesis using inv others producers n by (simp add: s' worker_check_def ae_inv_def queue_moves_def)
  qed
next
  case (Wk_Delete b)
  obtain r st w where d: "batch_delete_sync E oth (take (store_iovs (ae_st s)) b) True (ae_st s) (ae_world s) = (r, st, w)"
    by (meson prod_cases3)
  have k: "queue_kept (ae_st s) st" by (rule delete_sync_queue [OF oth d])
  have s': "s' = s\<lparr>ae_st := st, ae_world := w, ae_worker := (ae_worker s)(i := Wk_Top)\<rparr>"
    using step Wk_Delete d by (simp add: worker_step_def worker_delete_def Let_def)
  have "\<not> wk_holds (ae_worker s i)" by (simp add: Wk_Delete)
  then show ?thesis using inv k by (auto simp: s' ae_inv_def queue_moves_def queue_kept_def store_iovs_def)
qed (use step inv in \<open>auto simp: worker_step_def ae_inv_def queue_moves_def Let_def split: if_splits\<close>)

lemma producer_inv:
  assumes inv: "ae_inv n s" and step: "producer_step E i s = Some s'"
  shows "ae_inv n s' \<and> queue_moves n (ae_queue s) (ae_queue s')"
proof (cases "ae_producer s i")
  case (Pr_Update loc hdr)
  have own: "ae_mtx s = Some (Producer i)" using inv Pr_Update by (simp add: ae_inv_def)
  have n: "store_iovs (ae_st s) = n" "queue_ok n (ae_queue s)" "0 < n" using inv by (simp_all add: ae_inv_def)
  obtain r wake st where u: "update_expiry_queue E loc hdr (ae_st s) (ae_world s) = (r, wake, st)" by (meson prod_cases3)
  note app = update_appends [OF _ _ u, unfolded n(1), OF n(2,3)]
  have iovs: "store_iovs st = n" using app(1) n(1) by (simp add: store_iovs_def)
  have s': "s' = s\<lparr>ae_st := st, ae_worker := if wake then restart_workers (ae_worker s) else ae_worker s,
      ae_producer := (ae_producer s)(i := Pr_Unlock r)\<rparr>"
    using step Pr_Update u by (simp add: producer_step_def Let_def)
  have holds: "wk_holds (restart_workers wk j) = wk_holds (wk j)" for wk j by (simp add: restart_workers_def)
  have awake: "restart_workers wk j \<noteq> Wk_Asleep" for wk j by (simp add: restart_workers_def)
  have prod: "\<forall>j. (ae_mtx s = Some (Producer j)) = pr_holds (((ae_producer s)(i := Pr_Unlock r)) j)"
    using inv own by (auto simp: ae_inv_def)
  show ?thesis
    using app(2)
  proof (elim disjE conjE exE)
    assume "st = ae_st s" "\<not> wake"
    then show ?thesis using inv prod by (simp add: s' ae_inv_def queue_moves_def)
  next
    fix iov
    assume "concat (st_queue st) = concat (ae_queue s) @ [iov]" "length (ae_queue s) \<le> length (st_queue st)"
      and ok: "queue_ok n (st_queue st)" and wake: "wake \<longleftrightarrow> front_full n (st_queue st)"
    moreover have "ae_inv n s'"
    proof (cases wake)
      case True
      then show ?thesis using inv ok prod iovs holds awake by (simp add: s' ae_inv_def)
    next
      case False
      then show ?thesis using inv ok prod iovs wake by (simp add: s' ae_inv_def)
    qed
    ultimately show ?thesis by (simp add: s' queue_moves_def)
  qed
next
  case (Pr_Unlock r)
  have own: "ae_mtx s = Some (Producer i)" using inv Pr_Unlock by (simp add: ae_inv_def)
  have "\<not> wk_holds (ae_worker s j)" for j using inv own unfolding ae_inv_def by (metis ae_thread.distinct(1) option.inject)
  moreover have "\<not> pr_holds (ae_producer s j)" if "j \<noteq> i" for j
    using inv own that unfolding ae_inv_def by (metis ae_thread.inject(2) option.inject)
  then have "\<not> pr_holds (((ae_producer s)(i := Pr_Idle)) j)" for j by simp
  moreover have "s' = s\<lparr>ae_mtx := None, ae_producer := (ae_producer s)(i := Pr_Idle)\<rparr>"
    using step Pr_Unlock by (simp add: producer_step_def Let_def)
  ultimately show ?thesis using inv by (simp add: ae_inv_def queue_moves_def del: fun_upd_apply)
qed (use step inv in \<open>auto simp: producer_step_def ae_inv_def queue_moves_def Let_def split: if_splits\<close>)

lemma ae_step_inv:
  assumes oth: "others_keep_queue oth" and inv: "ae_inv n s" and step: "ae_step E oth s s'"
  shows "ae_inv n s' \<and> queue_moves n (ae_queue s) (ae_queue s')"
  using step
proof cases
  case (ae_worker i)
  then show ?thesis using worker_inv [OF oth inv] by blast
next
  case (ae_producer i)
  then show ?thesis using producer_inv [OF inv] by blast
next
  case (ae_call i loc hdr)
  have "\<not> pr_holds (ae_producer s i)" using ae_call(2) by simp
  then show ?thesis using inv by (auto simp: ae_call(1) ae_inv_def queue_moves_def)
next
  case (ae_spurious i)
  have "\<not> wk_holds (ae_worker s i)" using ae_spurious(2) by simp
  then show ?thesis using inv by (auto simp: ae_spurious(1) ae_inv_def queue_moves_def)
next
  case (ae_other st w)
  then show ?thesis using inv by (auto simp: ae_inv_def queue_moves_def queue_kept_def store_iovs_def)
qed

lemma moves_account:
  assumes "queue_moves n (ae_queue s) (ae_queue s')" and "queue_ok n (ae_queue s)" and "0 < n"
  shows "concat (taken_by s s') @ concat (ae_queue s') = concat (ae_queue s) @ queued_by s s'"
    and "\<forall>b \<in> set (taken_by s s'). length b = n \<and> distinct (map iov_lba b)"
proof -
  have tl: "tl q \<noteq> q" if "q \<noteq> []" for q :: "nvm_iovec list list" using that by (cases q) auto
  have "concat (taken_by s s') @ concat (ae_queue s') = concat (ae_queue s) @ queued_by s s' \<and>
      (\<forall>b \<in> set (taken_by s s'). length b = n \<and> distinct (map iov_lba b))"
    using assms(1) unfolding queue_moves_def
  proof (elim disjE conjE exE)
    assume "ae_queue s' = ae_queue s"
    then show ?thesis using tl [of "ae_queue s"] by (auto simp: taken_by_def queued_by_def)
  next
    assume f: "front_full n (ae_queue s)" "ae_queue s' = tl (ae_queue s)"
    then obtain b q where q: "ae_queue s = b # q" by (cases "ae_queue s") (auto simp: front_full_def)
    then have "taken_by s s' = [b]" using f(2) by (simp add: taken_by_def)
    then show ?thesis using queue_ok_front [OF assms(2) f(1)] f(2) q by (simp add: queued_by_def)
  next
    fix iov assume a: "concat (ae_queue s') = concat (ae_queue s) @ [iov]" "length (ae_queue s) \<le> length (ae_queue s')"
    then have "taken_by s s' = []" by (cases "ae_queue s") (auto simp: taken_by_def)
    then show ?thesis using a(1) by (simp add: queued_by_def)
  qed
  then show "concat (taken_by s s') @ concat (ae_queue s') = concat (ae_queue s) @ queued_by s s'"
    "\<forall>b \<in> set (taken_by s s'). length b = n \<and> distinct (map iov_lba b)" by blast+
qed

lemma ae_run_inv: "ae_run E oth s ins outs t \<Longrightarrow> others_keep_queue oth \<Longrightarrow> ae_inv n s \<Longrightarrow> ae_inv n t"
  by (induction rule: ae_run.induct) (use ae_step_inv in blast)+

section \<open>Properties\<close>

text \<open>
  C22: every expired address that was queued is handed to exactly one thread, in the order of the queue.
  Whatever the interleaving of any number of expiry threads and callers of \<open>update_expiry_queue\<close>, with
  spurious wakeups and failed allocations: the blocks the threads have taken, followed by what is still
  in the queue, are the vectors that were queued, none twice and none lost; and every block that was
  taken is full, with distinct addresses.
\<close>

theorem expired_blocks_taken_once:
  assumes "ae_start s" and "others_keep_queue oth" and "ae_run E oth s ins outs t"
  shows "concat outs @ concat (ae_queue t) = ins \<and>
    (\<forall>b \<in> set outs. length b = store_iovs (ae_st s) \<and> distinct (map iov_lba b))"
  using assms(3)
proof induction
  case run_start
  then show ?case using assms(1) by (simp add: ae_start_def)
next
  case (run_step ins outs t u)
  have inv: "ae_inv (store_iovs (ae_st s)) t" by (rule ae_run_inv [OF run_step.hyps(1) assms(2) ae_inv_start [OF assms(1)]])
  then have q: "queue_ok (store_iovs (ae_st s)) (ae_queue t)" "0 < store_iovs (ae_st s)" by (simp_all add: ae_inv_def)
  have "queue_moves (store_iovs (ae_st s)) (ae_queue t) (ae_queue u)"
    using ae_step_inv [OF assms(2) inv run_step.hyps(2)] by blast
  note a = moves_account [OF this q]
  have "concat outs @ concat (taken_by t u) @ concat (ae_queue u) = ins @ queued_by t u"
    using a(1) run_step.IH by (metis append.assoc)
  then show ?case using a(2) run_step.IH by auto
qed

text \<open>
  C23: no full block is overslept. Whatever the interleaving: when the mutex is free and the block at the
  front of the queue is full, no expiry thread is asleep; a thread that is not busy with a block of its
  own takes the block with its next two steps, and only removes it from the queue.
\<close>

theorem full_block_is_taken:
  assumes "ae_start s" and "others_keep_queue oth" and "ae_run E oth s ins outs t"
    and "ae_mtx t = None" and "front_full (store_iovs (ae_st t)) (ae_queue t)" and "\<forall>b. ae_worker t i \<noteq> Wk_Delete b"
  shows "\<exists>u v. worker_step E oth i t = Some u \<and> worker_step E oth i u = Some v \<and>
    ae_worker v i = Wk_Delete (hd (ae_queue t)) \<and> ae_mtx v = None \<and> ae_st v = (ae_st t)\<lparr>st_queue := tl (ae_queue t)\<rparr>"
proof -
  have inv: "ae_inv (store_iovs (ae_st s)) t" by (rule ae_run_inv [OF assms(3,2) ae_inv_start [OF assms(1)]])
  then have "ae_worker t i \<noteq> Wk_Asleep" "\<not> wk_holds (ae_worker t i)" using assms(4,5) by (auto simp: ae_inv_def)
  then have pc: "ae_worker t i = Wk_Top \<or> ae_worker t i = Wk_Woken" using assms(6) by (cases "ae_worker t i") simp_all
  let ?u = "t\<lparr>ae_mtx := Some (Worker i), ae_worker := (ae_worker t)(i := Wk_Check)\<rparr>"
  have "worker_step E oth i t = Some ?u" using pc assms(4) by (auto simp: worker_step_def Let_def)
  moreover have "worker_step E oth i ?u = Some (worker_check i ?u)" by (simp add: worker_step_def Let_def)
  ultimately show ?thesis using assms(5) by (simp add: worker_check_def)
qed

section \<open>A run on the simulated device\<close>

text \<open>A device that takes one vector per batch, so that every block is full.\<close>

definition one_iov_store :: nvm_kv_store where
  "one_iov_store = sim_store\<lparr>st_pm := sim_pm\<lparr>pm_device := sim_device\<lparr>dev_caps := sim_caps\<lparr>nvm_max_num_iovs := 1\<rparr>\<rparr>\<rparr>\<rparr>"

definition sim_expiry_threads :: "sectors ae_state" where
  "sim_expiry_threads =
     \<lparr>ae_st = one_iov_store, ae_world = (\<lambda>n. None), ae_mtx = None, ae_worker = (\<lambda>i. Wk_Top), ae_producer = (\<lambda>i. Pr_Idle)\<rparr>"

abbreviation sim_expired :: "nvm_iovec" where
  "sim_expired \<equiv> trim_iov 20480 512"

definition queued_state :: "sectors ae_state" where
  "queued_state = sim_expiry_threads\<lparr>ae_st := one_iov_store\<lparr>st_queue := [[sim_expired]]\<rparr>\<rparr>"

lemma one_iov: "store_iovs one_iov_store = 1" "st_queue one_iov_store = []" "get_sector_size one_iov_store = 512"
  by (simp_all add: store_iovs_def get_store_device_def one_iov_store_def get_sector_size_def sim_store_def sim_device_def sim_caps_def)

lemma one_iov_start: "ae_start sim_expiry_threads"
  by (simp add: ae_start_def sim_expiry_threads_def one_iov)

lemma one_iov_update:
  "update_expiry_queue sim_env 20480 (load_header []) one_iov_store w =
     (Inr (), True, one_iov_store\<lparr>st_queue := [[sim_expired]]\<rparr>)"
proof -
  have "expiry_trim_len (load_header []) 512 = 512" by code_simp
  then show ?thesis using one_iov
    by (simp add: update_expiry_queue_def queue_has_room_def store_iovs_def Let_def sim_env_def)
qed

lemma nobody_keeps_queue: "others_keep_queue (\<lambda>l s. s)"
  by (simp add: others_keep_queue_def)

lemma run_queued: "ae_run sim_env (\<lambda>l s. s) sim_expiry_threads [sim_expired] [] queued_state"
proof -
  let ?R = "ae_run sim_env (\<lambda>l s. s) sim_expiry_threads"
  let ?h = "load_header []"
  define s where "s = sim_expiry_threads"
  define s1 where "s1 = s\<lparr>ae_producer := (ae_producer s)(0 := Pr_Lock 20480 ?h)\<rparr>"
  define s2 where "s2 = s1\<lparr>ae_mtx := Some (Producer 0), ae_producer := (ae_producer s)(0 := Pr_Update 20480 ?h)\<rparr>"
  define s3 where "s3 = s2\<lparr>ae_st := one_iov_store\<lparr>st_queue := [[sim_expired]]\<rparr>, ae_producer := (ae_producer s)(0 := Pr_Unlock (Inr ()))\<rparr>"
  have "ae_step sim_env (\<lambda>l s. s) s s1" unfolding s1_def by (rule ae_call) (simp add: s_def sim_expiry_threads_def)
  from run_step [OF run_start this] have "?R [] [] s1"
    by (simp add: s1_def s_def taken_by_def queued_by_def sim_expiry_threads_def one_iov)
  moreover have "ae_step sim_env (\<lambda>l s. s) s1 s2"
    by (rule ae_producer [of _ 0]) (simp add: producer_step_def s2_def s1_def s_def sim_expiry_threads_def)
  ultimately have "?R ([] @ queued_by s1 s2) ([] @ taken_by s1 s2) s2" by (rule run_step)
  then have "?R [] [] s2" by (simp add: s2_def s1_def s_def taken_by_def queued_by_def sim_expiry_threads_def one_iov)
  moreover have "restart_workers (\<lambda>i. Wk_Top) = (\<lambda>i. Wk_Top)" by (simp add: restart_workers_def)
  then have "ae_step sim_env (\<lambda>l s. s) s2 s3"
    by (intro ae_producer [of _ 0])
      (simp add: producer_step_def s3_def s2_def s1_def s_def sim_expiry_threads_def one_iov_update)
  ultimately have "?R ([] @ queued_by s2 s3) ([] @ taken_by s2 s3) s3" by (rule run_step)
  then have "?R [sim_expired] [] s3"
    by (simp add: s3_def s2_def s1_def s_def taken_by_def queued_by_def sim_expiry_threads_def one_iov)
  moreover have "ae_step sim_env (\<lambda>l s. s) s3 queued_state"
    by (rule ae_producer [of _ 0])
      (simp add: producer_step_def s3_def s2_def s1_def s_def sim_expiry_threads_def queued_state_def fun_eq_iff)
  ultimately have "?R ([sim_expired] @ queued_by s3 queued_state) ([] @ taken_by s3 queued_state) queued_state" by (rule run_step)
  then show ?thesis by (simp add: s3_def queued_state_def taken_by_def queued_by_def)
qed

lemma queued_full:
  "ae_mtx queued_state = None" "front_full (store_iovs (ae_st queued_state)) (ae_queue queued_state)"
  "\<forall>b. ae_worker queued_state 3 \<noteq> Wk_Delete b" "ae_queue queued_state = [[sim_expired]]"
  using one_iov(1) by (simp_all add: queued_state_def sim_expiry_threads_def front_full_def store_iovs_def get_store_device_def)

corollary expired_blocks_taken_once_witness:
  "ae_run sim_env (\<lambda>l s. s) sim_expiry_threads [sim_expired] [] queued_state \<and> concat (ae_queue queued_state) = [sim_expired]"
  using run_queued expired_blocks_taken_once [OF one_iov_start nobody_keeps_queue run_queued] by simp

corollary full_block_is_taken_witness:
  "\<exists>u v. worker_step sim_env (\<lambda>l s. s) 3 queued_state = Some u \<and> worker_step sim_env (\<lambda>l s. s) 3 u = Some v \<and>
     ae_worker v 3 = Wk_Delete [sim_expired]"
  using full_block_is_taken [OF one_iov_start nobody_keeps_queue run_queued queued_full(1-3)] queued_full(4) by auto

end
