(* ===== verification/KvReopen.thy ===== *)
theory KvReopen
  imports KvOpenSpec PoolMedia
begin

text \<open>
  What survives a close: the pool manager restores its table from the device
  (\<open>restore_pools\<close>, \<open>restore_tags\<close>), a first open writes all of it, and an open
  of an existing store makes a store with the same pools, tags, addresses and contents.
  \<open>left_behind\<close> is what a store leaves on the device, \<open>opened_with\<close> says from
  which arguments its addresses come, \<open>reopen_laws\<close> what the device and the allocator owe.
\<close>

section \<open>Reading the table\<close>

lemma length_read: "sectors_sized k V \<Longrightarrow> length (read_sectors (2 ^ k) V first n) = n * 2 ^ k"
  by (rule length_read_sectors) (simp add: sectors_sized_def)

lemma read_bitmap:
  assumes "bitmap_on k V base bm" and "2 ^ k dvd 4 * length bm"
  shows "read_sectors (2 ^ k) V base (4 * length bm div 2 ^ k) = bitmap_bytes bm"
proof -
  have "read_sectors (2 ^ k) V base (4 * length bm div 2 ^ k) =
      concat (map (\<lambda>i. mem_read (i * 2 ^ k) (2 ^ k) (bitmap_bytes bm)) [0..<4 * length bm div 2 ^ k])"
    unfolding read_sectors_def
    using assms(1) by (intro arg_cong [of _ _ concat] map_cong refl) (simp add: bitmap_on_def sector_at_def)
  also have "\<dots> = bitmap_bytes bm" by (rule concat_mem_reads) (use assms(2) in simp)
  finally show ?thesis .
qed

lemma read_tag:
  assumes k: "9 \<le> k" and size: "sectors_sized k V" and on: "tag_on k V m t" and m: "m * POOL_TAG_SIZE div 2 ^ k < n"
  shows "mem_read (m * POOL_TAG_SIZE) POOL_TAG_SIZE (read_sectors (2 ^ k) V (tags_start k) n) = t"
proof -
  let ?q = "m * POOL_TAG_SIZE div 2 ^ k" and ?r = "m * POOL_TAG_SIZE mod 2 ^ k"
  let ?xss = "map (\<lambda>i. sector_at (2 ^ k) V (tags_start k + i)) [0..<n]"
  obtain s where s: "V (tags_start k + ?q) = Some s" "mem_read ?r POOL_TAG_SIZE s = t" using on by (auto simp: tag_on_def)
  have "mem_read (?q * 2 ^ k + ?r) POOL_TAG_SIZE (concat ?xss) = mem_read ?r POOL_TAG_SIZE (?xss ! ?q)"
    using m size tag_in_sector [OF k] by (intro mem_read_concat) (auto simp: length_sector_at)
  also have "?xss ! ?q = s" using m s(1) by (simp add: sector_at_def)
  finally show ?thesis by (simp only: read_sectors_def div_mult_mod_eq s(2))
qed

section \<open>The map of tags\<close>

lemma restore_tags_map:
  assumes sh: "pm_shape pm"
    and target: "\<And>i. i \<in> live_ids pm \<Longrightarrow> cstr (tag_at pm i) \<noteq> [] \<Longrightarrow> M (cstr (tag_at pm i)) = Some (int i)"
  shows "set ids \<subseteq> {1..<pm_max_pools pm} \<Longrightarrow> \<forall>t \<in> dom m. m t = M t \<Longrightarrow>
    restore_tags ids (pm\<lparr>pm_tags_map := m\<rparr>) =
      (Inr (), pm\<lparr>pm_tags_map := (\<lambda>t. if t \<noteq> [] \<and> (\<exists>i \<in> set ids. i \<in> live_ids pm \<and> cstr (tag_at pm i) = t) then M t else m t)\<rparr>)"
proof (induction ids arbitrary: m)
  case Nil
  then show ?case by simp
next
  case (Cons i ids)
  let ?pm = "pm\<lparr>pm_tags_map := m\<rparr>"
  have sh': "pm_shape ?pm" using sh by (simp add: pm_shape_def pm_max_pools_def)
  have i: "i < pm_max_pools pm" "i \<noteq> 0" using Cons.prems(1) by auto
  have sub: "bm_bits (pm_deleted pm) \<subseteq> bm_bits (pm_in_use pm)" using sh by (auto simp: pm_shape_def)
  have no_err: "\<not> (bitmap_test (pm_deleted pm) (of_nat i) \<noteq> 0 \<and> bitmap_test (pm_in_use pm) (of_nat i) = 0)"
    using pm_test [OF sh i(1)] sub by auto
  have str: "cstr (get_pool_tag ?pm i) = (if i \<in> live_ids pm then cstr (tag_at pm i) else [])"
    using pm_status [OF sh', of i] i
    by (simp add: get_pool_tag_def live_ids_def pm_max_pools_def tag_at_def)
  define s where "s = cstr (get_pool_tag ?pm i)"
  define m1 where "m1 = (if s \<noteq> [] \<and> s \<notin> dom m then m(s \<mapsto> int i) else m)"
  have s: "M s = Some (int i)" if "s \<noteq> []" using target [of i] that str by (simp add: s_def split: if_splits)
  have m1: "\<forall>t \<in> dom m1. m1 t = M t" using Cons.prems(2) s by (auto simp: m1_def)
  have upd: "(if s \<noteq> [] \<and> s \<notin> dom (pm_tags_map ?pm)
      then ?pm\<lparr>pm_tags_map := (pm_tags_map ?pm)(s \<mapsto> int i)\<rparr> else ?pm) = pm\<lparr>pm_tags_map := m1\<rparr>"
    by (simp add: m1_def)
  have "restore_tags (i # ids) ?pm = restore_tags ids (pm\<lparr>pm_tags_map := m1\<rparr>)"
    unfolding restore_tags.simps Let_def s_def [symmetric] upd using no_err by auto
  also have "\<dots> = (Inr (), pm\<lparr>pm_tags_map :=
      (\<lambda>t. if t \<noteq> [] \<and> (\<exists>j \<in> set ids. j \<in> live_ids pm \<and> cstr (tag_at pm j) = t) then M t else m1 t)\<rparr>)"
    using Cons.IH [OF _ m1] Cons.prems(1) by simp
  also have "(\<lambda>t. if t \<noteq> [] \<and> (\<exists>j \<in> set ids. j \<in> live_ids pm \<and> cstr (tag_at pm j) = t) then M t else m1 t) =
      (\<lambda>t. if t \<noteq> [] \<and> (\<exists>j \<in> set (i # ids). j \<in> live_ids pm \<and> cstr (tag_at pm j) = t) then M t else m t)"
  proof
    fix t
    have "m1 t = (if t \<noteq> [] \<and> i \<in> live_ids pm \<and> cstr (tag_at pm i) = t then M t else m t)"
      using Cons.prems(2) s str by (auto simp: m1_def s_def)
    then show "(if t \<noteq> [] \<and> (\<exists>j \<in> set ids. j \<in> live_ids pm \<and> cstr (tag_at pm j) = t) then M t else m1 t) =
      (if t \<noteq> [] \<and> (\<exists>j \<in> set (i # ids). j \<in> live_ids pm \<and> cstr (tag_at pm j) = t) then M t else m t)" by auto
  qed
  finally show ?case .
qed

section \<open>The pool table after a reopening\<close>

definition restored :: "nat \<Rightarrow> nvm_kv_pool_mgr \<Rightarrow> nvm_kv_pool_mgr \<Rightarrow> nvm_kv_pool_mgr \<Rightarrow> bool" where
  "restored k raw pm pm' \<longleftrightarrow>
     pm_in_use pm' = pm_in_use pm \<and> pm_deleted pm' = pm_deleted pm \<and> pm_tags_map pm' = pm_tags_map pm \<and>
     (\<forall>n \<in> live_ids pm. tag_at pm' n = tag_at pm n) \<and> pm_md pm' = pm_md pm \<and> pm_bm_len pm' = pm_bm_len pm \<and>
     POOL_TAG_SIZE * pm_max_pools pm \<le> length (pm_tags pm') \<and>
     pm_device pm' = pm_device raw \<and> pm_hash pm' = pm_hash raw \<and> pm_locked pm' = pm_locked raw \<and>
     pm_layout pm' = set_del_bm_lba (ucast (get_inuse_bm_lba (pm_layout raw)) + of_nat (pm_bm_len pm div 2 ^ k)) (pm_layout raw)"

lemma restored_wf:
  assumes wf: "pm_wf pm" and r: "restored k raw pm pm'"
  shows "pm_wf pm'" "pool_view pm' = pool_view pm"
proof -
  have live: "live_ids pm' = live_ids pm" using r by (simp add: restored_def live_ids_def)
  have max: "pm_max_pools pm' = pm_max_pools pm" using r by (simp add: restored_def pm_max_pools_def)
  have tag: "cstr (tag_at pm' n) = cstr (tag_at pm n)"
    if "n \<in> bm_bits (pm_in_use pm)" "n \<notin> bm_bits (pm_deleted pm)" "n \<noteq> 0" for n
    using r that by (simp add: restored_def live_ids_def)
  have "pm_shape pm'" using wf r max by (simp add: pm_wf_def pm_shape_def restored_def)
  moreover have "tags_map_ok pm'"
  proof -
    have "tags_map_ok pm" using wf by (simp add: pm_wf_def)
    then have ok: "pm_tags_map pm t = Some i \<longleftrightarrow> t \<noteq> [] \<and> (\<exists>n. i = int n \<and> n \<noteq> 0 \<and> n \<in> bm_bits (pm_in_use pm) \<and>
        n \<notin> bm_bits (pm_deleted pm) \<and> cstr (tag_at pm n) = t)" for t i by (simp add: tags_map_ok_def)
    have same: "pm_in_use pm' = pm_in_use pm" "pm_deleted pm' = pm_deleted pm" "pm_tags_map pm' = pm_tags_map pm"
      using r by (simp_all add: restored_def)
    show ?thesis unfolding tags_map_ok_def same ok using tag by fastforce
  qed
  ultimately show "pm_wf pm'" using wf r by (simp add: pm_wf_def restored_def)
  show "pool_view pm' = pool_view pm" using r tag by (auto simp: pool_view_def restored_def fun_eq_iff)
qed

lemma readv_aligned:
  assumes "read_law E dev capacity view" and "alloc_law E" and "iovec \<noteq> []" and "nvm_sector_size (dev_caps dev) = 2 ^ k"
    and "sum_list (map iov_len iovec) = n * 2 ^ k" and "unat (iov_lba (hd iovec)) + n \<le> capacity"
    and "length iovec \<le> nvm_max_num_iovs (dev_caps dev)" and "\<forall>iov \<in> set iovec. aligned k (iov_base iov)"
  shows "nvm_readv E dev iovec w = Inr (read_sectors (2 ^ k) (view w) (unat (iov_lba (hd iovec))) n)"
  using nvm_readv_cases [OF assms(1-3), of n w] assms(4-8)
  by (auto simp: aligned_def split: sum.splits)

lemma pools_restored:
  assumes wf: "pm_wf pm" and a: "areas_ok k pm" and st: "pools_stored k (view w) pm" and size: "sectors_sized k (view w)"
    and al: "allocated k raw pm1" and md: "pm_md raw = pm_md pm" and ss: "nvm_sector_size (dev_caps (pm_device raw)) = 2 ^ k"
    and none: "pm_tags_map raw = (\<lambda>t. None)"
    and lay: "unat (get_inuse_bm_lba (pm_layout raw)) = 1" "unat (get_pool_tags_lba (pm_layout raw)) = tags_start k"
    and read: "read_law E (pm_device raw) capacity view" "alloc_law E" and cap: "pool_table_end k pm \<le> capacity"
    and iovs: "2 \<le> nvm_max_num_iovs (dev_caps (pm_device raw))"
    and addr: "aligned k a1" "aligned k a2" "aligned k a3"
  obtains pm' where "restore_pools E a1 a2 a3 pm1 w = (Inr (), pm')" "restored k raw pm pm'"
proof -
  note f = allocated_dest [OF al] and b = media_len_bounds [OF a] and d = areas_dest [OF a]
  have sh: "pm_shape pm" and map: "tags_map_ok pm" using wf by (simp_all add: pm_wf_def)
  define n where "n = pm_bm_len pm"
  define L where "L = n div 2 ^ k"
  have nL: "n = L * 2 ^ k" using b(1) by (simp add: n_def L_def)
  have "bitmap_media_len pm1 = bitmap_media_len pm"
    using ss d(4) by (simp add: bitmap_media_len_def pm_sector_size_def f(1,2) md)
  then have len: "bitmap_media_len pm1 = n" "pm_bm_len pm1 = n" using f(8) d(9) by (simp_all add: n_def)
  have lay1: "get_inuse_bm_lba (pm_layout pm1) = get_inuse_bm_lba (pm_layout raw)"
    "get_pool_tags_lba (pm_layout pm1) = get_pool_tags_lba (pm_layout raw)"
    by (simp_all add: f(9) set_del_bm_lba_def get_inuse_bm_lba_def get_pool_tags_lba_def)
  have del: "deleted_start k pm = 1 + L" by (simp add: deleted_start_def L_def n_def)
  have max: "pm_max_pools raw = pm_max_pools pm" "pm_max_pools pm1 = pm_max_pools pm" by (simp_all add: pm_max_pools_def md f(2))
  define T where "T = pm_tag_size pm1 div 2 ^ k"
  have small: "POOL_TAG_SIZE * pm_max_pools pm \<le> 2 ^ 24" using d(10) by (simp add: POOL_TAG_SIZE_def NVM_KV_MAX_POOLS_def)
  have "(2::nat) ^ k \<le> 2 ^ 19" using d(2) by (intro power_increasing) simp_all
  then have "rnd (POOL_TAG_SIZE * pm_max_pools pm) (2 ^ k) = (POOL_TAG_SIZE * pm_max_pools pm + (2 ^ k - 1)) div 2 ^ k * 2 ^ k"
    using small d(2) by (intro rnd_eq) simp_all
  then have tsz: "pm_tag_size pm1 = T * 2 ^ k" "tags_start k + T = pool_table_end k pm"
    by (simp_all add: T_def f(10) max pool_table_end_def mult.commute)
  let ?V = "view w"
  have "bitmap_on k ?V 1 (pm_in_use pm)" "bitmap_on k ?V (1 + L) (pm_deleted pm)"
    using st del by (simp_all add: pools_stored_def)
  then have bms: "read_sectors (2 ^ k) ?V 1 L = bitmap_bytes (pm_in_use pm)"
    "read_sectors (2 ^ k) ?V (1 + L) L = bitmap_bytes (pm_deleted pm)"
    using read_bitmap [of k ?V 1 "pm_in_use pm"] read_bitmap [of k ?V "1 + L" "pm_deleted pm"] shape_lengths [OF sh] b(1)
    by (simp_all add: L_def n_def)
  have fits: "1 + (L + L) \<le> capacity" using b(2) cap tsz(2) del by (simp add: n_def [symmetric] L_def [symmetric])
  have r1: "nvm_readv E (pm_device pm1) [read_iov a1 n (get_inuse_bm_lba (pm_layout pm1)), read_iov a2 n (get_del_bm_lba (pm_layout pm1))] w =
      Inr (bitmap_bytes (pm_in_use pm) @ bitmap_bytes (pm_deleted pm))"
    using readv_aligned [of E "pm_device pm1" capacity view
        "[read_iov a1 n (get_inuse_bm_lba (pm_layout pm1)), read_iov a2 n (get_del_bm_lba (pm_layout pm1))]" k "L + L" w]
      read ss iovs addr fits lay bms read_sectors_append [of "2 ^ k" ?V 1 L L]
    by (simp add: f(1) lay1 nL distrib_right)
  have tags_in: "tags_start k + T \<le> capacity" using tsz(2) cap by simp
  define tags where "tags = read_sectors (2 ^ k) ?V (tags_start k) T"
  have r2: "nvm_readv E (pm_device pm1) [read_iov a3 (pm_tag_size pm1) (get_pool_tags_lba (pm_layout pm1))] w = Inr tags"
    using readv_aligned [of E "pm_device pm1" capacity view "[read_iov a3 (pm_tag_size pm1) (get_pool_tags_lba (pm_layout pm1))]" k T w]
      read ss iovs addr tags_in lay
    by (simp add: f(1) lay1 tsz(1) tags_def)
  define pm2 where "pm2 = pm1\<lparr>pm_in_use := pm_in_use pm, pm_deleted := pm_deleted pm, pm_tags := tags\<rparr>"
  have lens: "4 * length (pm_in_use pm) = n" "4 * length (pm_deleted pm) = n" using shape_lengths [OF sh] by (simp_all add: n_def)
  have "restore_pools E a1 a2 a3 pm1 w = restore_tags [1..<pm_max_pools pm1] pm2"
    using r1 r2 lens
    by (simp add: restore_pools_def len Let_def mem_read_def bytes_bitmap_bytes pm2_def pm_max_pools_def)
  moreover have ltags: "POOL_TAG_SIZE * pm_max_pools pm \<le> length tags"
    using f(12) length_read [OF size] by (simp add: tags_def tsz(1) [symmetric] max)
  moreover have tag: "tag_at pm2 i = tag_at pm i" if "i \<in> live_ids pm" for i
  proof -
    have "tag_on k ?V i (tag_at pm i)" using st that by (simp add: pools_stored_def)
    moreover have "i * POOL_TAG_SIZE div 2 ^ k < T"
      using tag_sector_below [OF live_below [OF sh that], of k] tsz(2) by simp
    ultimately show ?thesis using read_tag [OF d(1) size] by (simp add: tag_at_def pm2_def tags_def)
  qed
  moreover have live: "live_ids pm2 = live_ids pm" by (simp add: live_ids_def pm2_def)
  moreover have sh2: "pm_shape pm2"
    using sh ltags len by (simp add: pm_shape_def pm2_def pm_max_pools_def f(2) md n_def)
  moreover have bound: "pm_tags_map pm (cstr (tag_at pm2 i)) = Some (int i)"
    if "i \<in> live_ids pm2" "cstr (tag_at pm2 i) \<noteq> []" for i
    using that map tag [of i] live unfolding tags_map_ok_def live_ids_def by auto
  moreover have "pm2\<lparr>pm_tags_map := (\<lambda>t. None)\<rparr> = pm2" using none by (simp add: pm2_def f(4) [symmetric])
  moreover have max2: "pm_max_pools pm2 = pm_max_pools pm" using max by (simp add: pm2_def pm_max_pools_def)
  ultimately have "restore_pools E a1 a2 a3 pm1 w = (Inr (), pm2\<lparr>pm_tags_map := (\<lambda>t. if t \<noteq> [] \<and>
      (\<exists>i \<in> set [1..<pm_max_pools pm1]. i \<in> live_ids pm2 \<and> cstr (tag_at pm2 i) = t) then pm_tags_map pm t else None)\<rparr>)"
    using restore_tags_map [OF sh2, of "pm_tags_map pm" "[1..<pm_max_pools pm1]" "\<lambda>t. None"] max by simp
  moreover have "(\<lambda>t. if t \<noteq> [] \<and> (\<exists>i \<in> set [1..<pm_max_pools pm1]. i \<in> live_ids pm2 \<and> cstr (tag_at pm2 i) = t)
      then pm_tags_map pm t else None) = pm_tags_map pm"
  proof
    fix t
    show "(if t \<noteq> [] \<and> (\<exists>i \<in> set [1..<pm_max_pools pm1]. i \<in> live_ids pm2 \<and> cstr (tag_at pm2 i) = t)
      then pm_tags_map pm t else None) = pm_tags_map pm t"
    proof (cases "pm_tags_map pm t")
      case (Some i)
      then obtain j where j: "t \<noteq> []" "j \<in> live_ids pm" "cstr (tag_at pm j) = t"
        using map unfolding tags_map_ok_def live_ids_def by blast
      then have "j \<in> set [1..<pm_max_pools pm1]" using live_below [OF sh j(2)] max by (auto simp: live_ids_def)
      then show ?thesis using j tag live by auto
    qed simp
  qed
  ultimately have "restore_pools E a1 a2 a3 pm1 w = (Inr (), pm2\<lparr>pm_tags_map := pm_tags_map pm\<rparr>)" by simp
  moreover have "restored k raw pm (pm2\<lparr>pm_tags_map := pm_tags_map pm\<rparr>)"
    using tag ltags len f by (simp add: restored_def pm2_def tag_at_def md n_def)
  ultimately show thesis by (rule that)
qed

section \<open>The geometry of a store\<close>

text \<open>The layout and the hash function of a store opened with these capabilities, address bits and pools.\<close>

definition opened_with :: "nvm_kv_store_capabilities \<Rightarrow> u32 \<Rightarrow> u32 \<Rightarrow> nvm_kv_store \<Rightarrow> bool" where
  "opened_with cap sparse max_pools st \<longleftrightarrow>
     (\<exists>oa lba. get_layout st = set_del_bm_lba lba (store_layout oa cap sparse max_pools) \<and>
        get_hash_func st = store_hash oa cap sparse max_pools) \<and>
     sm_max_pools (get_store_metadata st) = max_pools"

lemma opened_same:
  assumes "opened_with cap sparse max_pools st" and "opened_with cap sparse max_pools st'"
  shows "key_lba st' = key_lba st" "probe_lba st' = probe_lba st" "search_range st' = search_range st"
proof -
  have lay: "get_key_bits (get_layout st') = get_key_bits (get_layout st)" "get_val_bits (get_layout st') = get_val_bits (get_layout st)"
    "get_max_search_range (get_layout st') = get_max_search_range (get_layout st)"
    using assms
    by (auto simp: opened_with_def set_del_bm_lba_def store_layout_def set_md_rec_def layout_new_def Let_def
        get_key_bits_def get_val_bits_def get_max_search_range_def)
  have hash: "get_hash_func st' = get_hash_func st" "sm_max_pools (get_store_metadata st') = sm_max_pools (get_store_metadata st)"
    using assms by (auto simp: opened_with_def store_hash_def hash_initialize_def hash_new_def)
  then have pool: "pool_hash_of st' = pool_hash_of st"
    using lay by (simp add: fun_eq_iff pool_hash_of_def get_poolid_hash_def get_layout_def get_hash_func_def
        get_store_metadata_def Let_def)
  have base: "key_base st' = key_base st" using lay hash by (simp add: fun_eq_iff key_base_def)
  show "key_lba st' = key_lba st" using base pool by (simp add: fun_eq_iff key_lba_def)
  show "probe_lba st' = probe_lba st" using base pool lay hash by (simp add: fun_eq_iff probe_lba_def next_key_lba_def)
  show "search_range st' = search_range st" using lay by (simp add: search_range_def)
qed

lemma opened_rep:
  assumes "opened_with cap sparse max_pools st" and "opened_with cap sparse max_pools st'"
  shows "kv_rep k st' K V m = kv_rep k st K V m"
proof -
  note same = opened_same [OF assms]
  have "cell_at st' = cell_at st"
    by (simp add: fun_eq_iff cell_at_def key_slot_def same split: option.split)
  then show ?thesis by (simp add: kv_rep_def same)
qed

lemma store_layout_areas:
  assumes k: "9 \<le> k" "k \<le> 20" and ss: "nvm_sector_size cap = 2 ^ k"
  shows "get_sect_bits (store_layout oa cap sparse max_pools) = of_nat k"
    "unat (get_inuse_bm_lba (store_layout oa cap sparse max_pools)) = 1"
    "unat (get_pool_tags_lba (store_layout oa cap sparse max_pools)) = tags_start k"
proof -
  note v = layout_new_values [OF k(2), of "oa_layout oa" sparse]
  have cast: "(of_nat (2 ^ k) :: u32) = 2 ^ k" by simp
  show "get_sect_bits (store_layout oa cap sparse max_pools) = of_nat k"
    using v(2) by (simp add: store_layout_def ss set_md_rec_def get_sect_bits_def)
  show "unat (get_pool_tags_lba (store_layout oa cap sparse max_pools)) = tags_start k"
    using v(8) by (simp add: store_layout_def ss set_md_rec_def get_pool_tags_lba_def tags_start_def)
  have u: "(ucast ((2::u32) ^ k) :: u64) = 2 ^ k" using k(2) by (intro bit_word_eqI) (auto simp: bit_simps)
  have "rnd KV_STORE_METADATA_SIZE (2 ^ k) = 2 ^ k" by (rule metadata_len [OF k])
  then have "unat (nvm_kv_round_upto_blk (of_nat KV_STORE_METADATA_SIZE) (2 ^ k) :: u64) = 2 ^ k" by (simp add: rnd_def)
  moreover have "unat ((2::u64) ^ k) = 2 ^ k"
    using power_strict_increasing [of k 64 "2::nat"] k(2) unat_of_nat_nowrap [of "2 ^ k", where ?'a = 64] by simp
  ultimately have "unat ((nvm_kv_round_upto_blk (of_nat KV_STORE_METADATA_SIZE) (2 ^ k) :: u64) div 2 ^ k) = 1"
    by (simp add: unat_div)
  then show "unat (get_inuse_bm_lba (store_layout oa cap sparse max_pools)) = 1"
    by (simp add: store_layout_def ss set_md_rec_def get_inuse_bm_lba_def layout_new_def Let_def u)
qed

lemma restored_place:
  assumes a: "areas_ok k pm" and st: "pools_stored k V pm" and r: "restored k raw pm pm'"
    and ss: "nvm_sector_size (dev_caps (pm_device raw)) = 2 ^ k"
    and lay: "get_sect_bits (pm_layout raw) = of_nat k" "unat (get_inuse_bm_lba (pm_layout raw)) = 1"
      "unat (get_pool_tags_lba (pm_layout raw)) = tags_start k"
  shows "areas_ok k pm'" "pools_stored k V pm'"
proof -
  note d = areas_dest [OF a] and b = media_len_bounds [OF a]
  have same: "pm_md pm' = pm_md pm" "pm_bm_len pm' = pm_bm_len pm" "pm_device pm' = pm_device raw" "pm_in_use pm' = pm_in_use pm"
    "pm_deleted pm' = pm_deleted pm" "\<forall>n \<in> live_ids pm. tag_at pm' n = tag_at pm n"
    using r by (simp_all add: restored_def)
  define L where "L = pm_bm_len pm div 2 ^ k"
  have lay': "pm_layout pm' = set_del_bm_lba (ucast (get_inuse_bm_lba (pm_layout raw)) + of_nat L) (pm_layout raw)"
    using r by (simp add: restored_def L_def)
  have ds: "deleted_start k pm' = 1 + L" "deleted_start k pm = 1 + L" by (simp_all add: deleted_start_def same L_def)
  have "1 + L < 2 ^ 32" using b(2,4) ds(2) by simp
  have "get_inuse_bm_lba (pm_layout raw) = 1" using lay(2) by (simp add: word_unat_eq_iff)
  then have "ucast (get_inuse_bm_lba (pm_layout raw)) + of_nat L = (of_nat (1 + L) :: u32)" by simp
  then have "unat (get_del_bm_lba (pm_layout pm')) = 1 + L"
    using \<open>1 + L < 2 ^ 32\<close> unfolding lay'
    by (simp only: set_del_bm_lba_def get_del_bm_lba_def nvm_kv_layout.simps) (simp add: unat_ucast_u64 unat_of_nat del: of_nat_add of_nat_Suc)
  moreover have "bitmap_media_len pm' = bitmap_media_len pm"
    using ss d(4) by (simp add: bitmap_media_len_def pm_sector_size_def same)
  moreover have "pm_max_pools pm' = pm_max_pools pm" by (simp add: pm_max_pools_def same)
  ultimately show "areas_ok k pm'"
    using d ss lay ds
    by (simp add: areas_ok_def pm_sector_size_def same) (simp add: lay' set_del_bm_lba_def get_sect_bits_def get_inuse_bm_lba_def get_pool_tags_lba_def)
  have "live_ids pm' = live_ids pm" by (simp add: live_ids_def same)
  then show "pools_stored k V pm'" using st ds same by (simp add: pools_stored_def)
qed

section \<open>Opening an existing store\<close>

definition reopen_laws ::
  "'w nvm_env \<Rightarrow> nat \<Rightarrow> nvm_kv_store_device \<Rightarrow> nat \<Rightarrow> ('w \<Rightarrow> sectors) \<Rightarrow> open_allocs \<Rightarrow> bool" where
  "reopen_laws E k dev capacity view oa \<longleftrightarrow>
     open_laws E k (dev_handle dev) (dev_caps dev) \<and> allocs_succeed oa \<and> read_law E dev capacity view \<and> alloc_law E \<and>
     2 \<le> nvm_max_num_iovs (dev_caps dev) \<and> aligned k (oa_in_use_addr oa) \<and> aligned k (oa_deleted_addr oa) \<and>
     (\<forall>w n mb. env_memalign E w n = Some mb \<longrightarrow> aligned k (mb_addr mb))"

text \<open>What a store leaves behind on the device: its own table, in this version of the format.\<close>

definition left_behind :: "nat \<Rightarrow> nat \<Rightarrow> sectors \<Rightarrow> u32 \<Rightarrow> nvm_kv_store \<Rightarrow> bool" where
  "left_behind k capacity V version st \<longleftrightarrow>
     pm_wf (st_pm st) \<and> areas_ok k (st_pm st) \<and> pools_stored k V (st_pm st) \<and> sectors_sized k V \<and>
     pool_table_end k (st_pm st) \<le> capacity \<and> NVM_KV_MIN_POOLS \<le> pm_max_pools (st_pm st) \<and>
     sm_version (get_store_metadata st) = version \<and> sm_kv_store_stamp (get_store_metadata st) = M_KV_STAMP"

lemma left_behind_dest:
  assumes "left_behind k capacity V version st"
  shows "pm_wf (st_pm st)" "areas_ok k (st_pm st)" "pools_stored k V (st_pm st)" "sectors_sized k V"
    "pool_table_end k (st_pm st) \<le> capacity" "NVM_KV_MIN_POOLS \<le> pm_max_pools (st_pm st)"
    "sm_version (pm_md (st_pm st)) = version" "sm_kv_store_stamp (pm_md (st_pm st)) = M_KV_STAMP"
  using assms by (simp_all add: left_behind_def get_store_metadata_def)

lemma metadata_read_back:
  assumes laws: "reopen_laws E k dev capacity view oa" and lb: "left_behind k capacity (view w) version st"
    and buf: "length (mb_mem mb) = 2 ^ k" "aligned k (mb_addr mb)" and lba: "get_kv_stamp lay = M_KV_STAMP"
  obtains tail where "init_metadata E dev lay False kv_id version max_pools expiry mb w = (Inr (pm_md (st_pm st), tail), w)"
proof -
  note l = left_behind_dest [OF lb]
  have o: "9 \<le> k" "k \<le> 20" "nvm_sector_size (dev_caps dev) = 2 ^ k" "read_law E dev capacity view" "alloc_law E"
    "2 \<le> nvm_max_num_iovs (dev_caps dev)"
    using laws by (simp_all add: reopen_laws_def open_laws_def)
  obtain tail where s: "view w 0 = Some (metadata_bytes (pm_md (st_pm st)) @ tail)" using l(3) by (auto simp: pools_stored_def)
  let ?sector = "metadata_bytes (pm_md (st_pm st)) @ tail"
  have size: "length ?sector = 2 ^ k" using l(4) s unfolding sectors_sized_def by blast
  have "tags_start k \<le> capacity" using l(5) by (simp add: pool_table_end_def)
  moreover have "1 \<le> tags_start k" by (simp add: tags_start_def)
  ultimately have "0 + 1 \<le> capacity" by linarith
  then have read: "nvm_readv E dev [read_iov (mb_addr mb) (2 ^ k) (get_metadata_lba lay)] w = Inr ?sector"
    using readv_aligned [of E dev capacity view "[read_iov (mb_addr mb) (2 ^ k) (get_metadata_lba lay)]" k 1 w] o buf(2) s
    by (simp add: get_metadata_lba_def M_KV_METADATA_LBA_def sector_at_def)
  have mem: "memcpy 0 (take (2 ^ k) ?sector) (mb_mem mb) = ?sector"
    using size buf(1) by (simp add: memcpy_def)
  have "init_metadata E dev lay False kv_id version max_pools expiry mb w =
      (Inr (pm_md (st_pm st), drop KV_STORE_METADATA_SIZE ?sector), w)"
    unfolding init_metadata_def Let_def o(3) metadata_len [OF o(1,2)] read sum.case mem
    using l(7,8) lba by (simp add: load_metadata_bytes)
  then show thesis by (rule that)
qed

lemma reopen_steps:
  assumes laws: "reopen_laws E k \<lparr>dev_fd = kv_id, dev_handle = handle, dev_caps = cap\<rparr> capacity view oa"
    and lb: "left_behind k capacity (view w) version st" and same: "opened_with cap sparse max_pools st"
    and old: "env_block_exists E handle 0 w = 1"
  obtains obj where
    "store_initialize E oa kv_id handle cap sparse max_pools version expiry cache_size w = Some (Inr obj, w)"
    "stored_id obj = sint (ucast (sm_kv_store_id (get_store_metadata st)) :: 32 word)"
    "left_behind k capacity (view w) version (so_store obj)" "opened_with cap sparse max_pools (so_store obj)"
    "\<not> pm_locked (st_pm (so_store obj))" "pool_view (st_pm (so_store obj)) = pool_view (st_pm st)"
    "pm_tags_map (st_pm (so_store obj)) = pm_tags_map (st_pm st)" "get_store_metadata (so_store obj) = get_store_metadata st"
    "get_store_device (so_store obj) = \<lparr>dev_fd = kv_id, dev_handle = handle, dev_caps = cap\<rparr>"
    "st_safe (so_store obj) = {}" "st_cache (so_store obj) = None \<longleftrightarrow> cache_size = 0"
    "\<forall>ca. st_cache (so_store obj) = Some ca \<longrightarrow> cache_wf ca" "regular_slots_free (so_iter obj)"
proof -
  note l = left_behind_dest [OF lb]
  define dev where "dev = \<lparr>dev_fd = kv_id, dev_handle = handle, dev_caps = cap\<rparr>"
  define lay where "lay = store_layout oa cap sparse max_pools"
  define hash where "hash = store_hash oa cap sparse max_pools"
  have dev: "dev_handle dev = handle" "dev_caps dev = cap" by (simp_all add: dev_def)
  have laws': "reopen_laws E k dev capacity view oa" using laws by (simp add: dev_def)
  have o: "open_laws E k handle cap" "allocs_succeed oa" "read_law E dev capacity view" "alloc_law E"
    "2 \<le> nvm_max_num_iovs cap" "aligned k (oa_in_use_addr oa)" "aligned k (oa_deleted_addr oa)"
    "\<forall>w n mb. env_memalign E w n = Some mb \<longrightarrow> aligned k (mb_addr mb)"
    using laws' dev by (simp_all add: reopen_laws_def)
  have k: "9 \<le> k" "k \<le> 20" "nvm_sector_size cap = 2 ^ k"
    and mem: "\<forall>n. \<exists>mb. env_memalign E w n = Some mb \<and> length (mb_mem mb) = n"
    using o(1) by (simp_all add: open_laws_def)
  obtain mb bufs bufs' where buf: "bp_initialize (env_memalign E w) 1 (2 ^ k) (2 ^ k) (bp_fresh (oa_pool oa)) = (Inr (), bufs)"
    "get_buf (env_memalign E w) (2 ^ k) bufs = Some (Some mb, 2 ^ k, bufs')" "length (mb_mem mb) = 2 ^ k"
    "env_memalign E w (2 ^ k) = Some mb"
    using one_buffer [OF mem] by metis
  have al: "aligned k (mb_addr mb)" using o(8) buf(4) by blast
  have stamp: "get_kv_stamp lay = M_KV_STAMP" by (simp add: get_kv_stamp_def)
  obtain tail where im: "init_metadata E dev lay False kv_id version max_pools expiry mb w = (Inr (pm_md (st_pm st), tail), w)"
    using metadata_read_back [OF laws' lb buf(3) al stamp] by blast
  define raw where "raw = pool_mgr_new oa dev lay hash (pm_md (st_pm st)) tail"
  have raw: "pm_md raw = pm_md (st_pm st)" "pm_device raw = dev" "pm_layout raw = lay" "pm_tags_map raw = (\<lambda>t. None)"
    "\<not> pm_locked raw" "pm_bufpool raw = bp_fresh (oa_pool oa)" "pm_hash raw = hash"
    by (simp_all add: raw_def pool_mgr_new_def)
  have fresh: "pm_fresh raw"
    using l(6) areas_dest(10) [OF l(2)] by (auto simp: pm_fresh_def raw pm_max_pools_def)
  have laws2: "open_laws E k (dev_handle (pm_device raw)) (dev_caps (pm_device raw))" using o(1) by (simp add: raw dev)
  note area = store_layout_areas [OF k, of oa sparse max_pools, folded lay_def]
  obtain mb2 pm1 where alloc: "pool_mgr_alloc E True True raw w = Some (Inr (), mb_addr mb2, pm1)" "allocated k raw pm1"
    "env_memalign E w (pm_tag_size pm1) = Some mb2"
    using pools_allocated [OF laws2 fresh] by metis
  have al2: "aligned k (mb_addr mb2)" using o(8) alloc(3) by blast
  have dr: "nvm_sector_size (dev_caps (pm_device raw)) = 2 ^ k" "unat (get_inuse_bm_lba (pm_layout raw)) = 1"
    "unat (get_pool_tags_lba (pm_layout raw)) = tags_start k" "read_law E (pm_device raw) capacity view"
    "2 \<le> nvm_max_num_iovs (dev_caps (pm_device raw))"
    using k(3) area(2,3) o(3,5) by (simp_all add: raw(2,3) dev)
  obtain pm' where res: "restore_pools E (oa_in_use_addr oa) (oa_deleted_addr oa) (mb_addr mb2) pm1 w = (Inr (), pm')"
    "restored k raw (st_pm st) pm'"
    using pools_restored [where view = view and w = w, OF l(1-4) alloc(2) raw(1) dr(1) raw(4) dr(2-4) o(4) l(5) dr(5) o(6,7) al2] by blast
  have "sm_max_pools (pm_md raw) \<noteq> 0" using l(6) by (auto simp: raw pm_max_pools_def NVM_KV_MIN_POOLS_def)
  then have init: "pool_mgr_initialize E True True (oa_in_use_addr oa) (oa_deleted_addr oa) False raw w = Some (Inr (), pm', w)"
    using alloc(1) res(1) by (simp add: pool_mgr_initialize_def)
  obtain obj where serv: "init_services E oa max_pools cache_size bufs' pm' w = Inr obj"
    "so_store obj = (store_of pm')\<lparr>st_exp_status := get_expiry (store_of pm') \<noteq> KV_DISABLE_EXPIRY, st_cache := st_cache (so_store obj)\<rparr>"
    "st_cache (so_store obj) = None \<longleftrightarrow> cache_size = 0" "\<forall>ca. st_cache (so_store obj) = Some ca \<longrightarrow> cache_wf ca"
    "regular_slots_free (so_iter obj)"
    using init_services_succeeds [OF o(2,1), of pm'] by (metis store_of_def nvm_kv_store.select_convs(5))
  have call: "store_initialize E oa kv_id handle cap sparse max_pools version expiry cache_size w = Some (Inr obj, w)"
    using o(2) old buf im init serv(1) metadata_len [OF k(1,2)] k(3)
    by (simp add: store_initialize_def Let_def dev_def [symmetric] lay_def [symmetric] hash_def [symmetric]
        allocs_succeed_def get_metadata_lba_def M_KV_METADATA_LBA_def init_pools_def raw_def [symmetric])
  have s: "st_pm (so_store obj) = pm'" "st_safe (so_store obj) = {}" by (subst serv(2), simp add: store_of_def)+
  note place = restored_place [OF l(2,3) res(2)]
  have same': "pm_md pm' = pm_md (st_pm st)" "pm_device pm' = dev" "pm_tags_map pm' = pm_tags_map (st_pm st)" "\<not> pm_locked pm'"
    "pm_hash pm' = hash" "\<exists>lba. pm_layout pm' = set_del_bm_lba lba lay"
    using res(2) raw by (auto simp: restored_def)
  have max: "pm_max_pools pm' = pm_max_pools (st_pm st)" by (simp add: pm_max_pools_def same')
  have "left_behind k capacity (view w) version (so_store obj)"
    using l restored_wf(1) [OF l(1) res(2)] place raw dev k(3) area
    by (simp add: left_behind_def s get_store_metadata_def same' max pool_table_end_def)
  moreover have "opened_with cap sparse max_pools (so_store obj)"
    using same same' by (auto simp: opened_with_def get_layout_def get_hash_func_def get_store_metadata_def s lay_def hash_def)
  ultimately show thesis
    using that [OF call] restored_wf(2) [OF l(1) res(2)] same' s serv(3-5)
    by (simp add: stored_id_def get_store_metadata_def get_store_device_def dev_def)
qed

section \<open>The table of a new store\<close>

text \<open>The vector with number \<open>j\<close> of the tag writer; it writes at or after the start of the tags.\<close>

definition tag_vector :: "nvm_kv_pool_mgr \<Rightarrow> nat \<Rightarrow> nvm_iovec" where
  "tag_vector pm j =
     (let W = unat (tags_write_size pm); n = min (pm_tag_size pm - j * W) W
      in write_iov (get_pool_tags_lba (pm_layout pm) + of_nat (j * (W div pm_sector_size pm))) n
           (mem_read (j * W) n (pm_tags pm)))"

text \<open>The \<open>int\<close> products of the writer do not overflow inside a table of less than 2 GB.\<close>

lemma sint_u32: "unat (w :: u32) < 2 ^ 31 \<Longrightarrow> sint w = int (unat w)"
proof -
  assume "unat w < 2 ^ 31"
  then have "int (unat w) < int (2 ^ 31)" by (simp only: of_nat_less_iff)
  then have l: "int (unat w) < 2 ^ 31" by simp
  have "- (2 ^ 31) \<le> (0::int)" by simp
  then have "- (2 ^ 31) \<le> int (unat w)" using of_nat_0_le_iff order_trans by blast
  then have "signed_take_bit 31 (int (unat w)) = int (unat w)" using l by (rule signed_take_bit_int_eq_self)
  moreover have "sint w = signed_take_bit 31 (uint w)" by (simp add: sint_uint)
  ultimately show ?thesis by (simp only: uint_nat)
qed

lemma scast_of_nat: "n < 2 ^ 31 \<Longrightarrow> (scast (of_nat n :: u32) :: u64) = of_nat n"
proof -
  assume n: "n < 2 ^ 31"
  then have "unat (of_nat n :: u32) = n" by (intro unat_of_nat_nowrap) simp
  then have "sint (of_nat n :: u32) = int n" using sint_u32 [of "of_nat n"] n by simp
  then show ?thesis by (simp add: scast_eq)
qed

lemma sdiv_of_nat: "int a sdiv int b = int (a div b)"
  by (cases "a = 0 \<or> b = 0") (auto simp: signed_divide_int_def zdiv_int)

lemma int_products:
  assumes "pm_sector_size pm = 2 ^ k" and "k \<le> 20" and "j * unat (tags_write_size pm) < 2 ^ 31"
  shows "(scast (of_nat j * tags_write_size pm) :: u64) = of_nat (j * unat (tags_write_size pm))"
    and "(scast (of_nat j * tags_vector_sectors pm) :: u64) = of_nat (j * (unat (tags_write_size pm) div pm_sector_size pm))"
proof -
  let ?W = "unat (tags_write_size pm)"
  have "of_nat j * tags_write_size pm = (of_nat (j * ?W) :: u32)" by simp
  then show "(scast (of_nat j * tags_write_size pm) :: u64) = of_nat (j * ?W)"
    using scast_of_nat [OF assms(3)] by (simp only:)
  show "(scast (of_nat j * tags_vector_sectors pm) :: u64) = of_nat (j * (?W div pm_sector_size pm))"
  proof (cases j)
    case (Suc i)
    have W: "?W < 2 ^ 31" using assms(3) by (simp add: Suc)
    have k: "(2::nat) ^ k \<le> 2 ^ 20" using assms(2) by (intro power_increasing) simp_all
    then have "unat (of_nat (2 ^ k) :: u32) = 2 ^ k" by (intro unat_of_nat_nowrap) simp
    then have s: "sint (of_nat (2 ^ k) :: u32) = int (2 ^ k)" "sint (tags_write_size pm) = int ?W"
      using sint_u32 [of "of_nat (2 ^ k)"] k sint_u32 [OF W] by (simp_all del: of_nat_power)
    have "tags_vector_sectors pm = word_of_int (int (?W div 2 ^ k))"
      unfolding tags_vector_sectors_def assms(1) s sdiv_of_nat ..
    then have "of_nat j * tags_vector_sectors pm = (of_nat (j * (?W div 2 ^ k)) :: u32)" by simp
    moreover have "j * (?W div 2 ^ k) \<le> j * ?W" by (intro mult_left_mono div_le_dividend) simp
    ultimately show ?thesis using scast_of_nat assms(1,3) by (metis order_le_less_trans)
  qed simp
qed

lemma tags_fill_vectors:
  assumes "pm_sector_size pm = 2 ^ k" and "k \<le> 20" and "pm_tag_size pm < 2 ^ 31"
  shows "unat r = pm_tag_size pm - c * unat (tags_write_size pm) \<Longrightarrow>
   tags_fill pm ic len (of_nat c) r = (iovs, c2, r') \<Longrightarrow>
   \<exists>c' \<ge> c. c2 = of_nat c' \<and> unat r' = pm_tag_size pm - c' * unat (tags_write_size pm) \<and>
     iovs = map (tag_vector pm) [c..<c'] \<and> (\<forall>j \<in> {c..<c'}. j * unat (tags_write_size pm) < pm_tag_size pm)"
proof (induction "nat (tags_max_iovs pm) - ic" arbitrary: ic len c r iovs c2 r' rule: less_induct)
  case less
  let ?W = "unat (tags_write_size pm)" and ?v = "tags_vector_size pm r"
  show ?case
  proof (cases "r \<noteq> 0 \<and> int ic < tags_max_iovs pm \<and> len < tags_max_total pm")
    case False
    then have "tags_fill pm ic len (of_nat c) r = ([], of_nat c, r)" by (subst tags_fill.simps) (simp only: if_False)
    then show ?thesis using less.prems by (intro exI [of _ c]) auto
  next
    case True
    have rest: "unat (r - ?v) = pm_tag_size pm - Suc c * ?W" using less.prems(1) by (simp add: unat_rest)
    obtain iovs1 c1 r1 where f: "tags_fill pm (Suc ic) (len + ?v) (of_nat (Suc c)) (r - ?v) = (iovs1, c1, r1)"
      by (metis prod_cases3)
    have "nat (tags_max_iovs pm) - Suc ic < nat (tags_max_iovs pm) - ic" using True by linarith
    from less.hyps [OF this rest f] obtain c' where c': "Suc c \<le> c'" "c1 = of_nat c'"
      "unat r1 = pm_tag_size pm - c' * ?W" "iovs1 = map (tag_vector pm) [Suc c..<c']"
      "\<forall>j \<in> {Suc c..<c'}. j * ?W < pm_tag_size pm" by blast
    have "0 < unat r" using True by (simp add: unat_gt_0)
    then have lt: "c * ?W < pm_tag_size pm" using less.prems(1) by linarith
    then have lt31: "c * ?W < 2 ^ 31" using assms(3) by linarith
    have off: "unat (of_nat (c * ?W) :: u64) = c * ?W" using lt31 by (intro unat_of_nat_nowrap) simp
    have size: "unat ?v = min (pm_tag_size pm - c * ?W) ?W" using less.prems(1) by (simp add: unat_vector_size)
    have vec: "tag_vector pm c = write_iov (get_pool_tags_lba (pm_layout pm) + scast (of_nat c * tags_vector_sectors pm))
        (unat ?v) (mem_read (unat (scast (of_nat c * tags_write_size pm) :: u64)) (unat ?v) (pm_tags pm))"
      unfolding tag_vector_def Let_def int_products [OF assms(1,2) lt31] off size ..
    have "tags_fill pm ic len (of_nat c) r = (tag_vector pm c # iovs1, c1, r1)"
      using True f unfolding vec by (subst tags_fill.simps) (simp add: Let_def tags_vector_size_def add.commute)
    then have e: "iovs = tag_vector pm c # iovs1" "c2 = c1" "r' = r1" using less.prems(2) by simp_all
    have "\<forall>j \<in> {c..<c'}. j * ?W < pm_tag_size pm" using c'(5) lt by (auto simp: le_less Suc_le_eq)
    then show ?thesis using c' e by (intro exI [of _ c']) (simp add: upt_conv_Cons)
  qed
qed

lemma disjoint_vectors:
  assumes "\<And>i j. a \<le> i \<Longrightarrow> i < j \<Longrightarrow> j < b \<Longrightarrow> iov_range ss (f i) \<inter> iov_range ss (f j) = {}"
  shows "disjoint_iovs ss (map f [a..<b])"
  using assms
proof (induction "b - a" arbitrary: a)
  case (Suc n)
  then have "[a..<b] = a # [Suc a..<b]" by (simp add: upt_conv_Cons)
  moreover have "disjoint_iovs ss (map f [Suc a..<b])" using Suc by (intro Suc.hyps(1)) simp_all
  ultimately show ?case using Suc.prems [of a] by (auto simp: list_all_iff)
qed simp

definition full_write :: "nat \<Rightarrow> nvm_iovec \<Rightarrow> bool" where
  "full_write ss iov \<longleftrightarrow> iov_opcode iov = NVM_IOV_WRITE \<and> iov_len iov \<le> length (iov_data iov)"

lemma sized_after_write:
  assumes "\<And>iov. iov \<in> set iovs \<Longrightarrow> full_write (2 ^ k) iov" and "sectors_sized k V"
  shows "sectors_sized k (foldl (apply_iov (2 ^ k)) V iovs)"
  using assms
proof (induction iovs arbitrary: V)
  case (Cons iov iovs)
  have w: "iov_opcode iov = NVM_IOV_WRITE" "iov_len iov \<le> length (iov_data iov)"
    using Cons.prems(1) [of iov] by (simp_all add: full_write_def)
  have "length (mem_read ((n - iov_first iov) * 2 ^ k) (2 ^ k) (iov_data iov)) = 2 ^ k" if "n \<in> iov_range (2 ^ k) iov" for n
  proof -
    have "Suc (n - iov_first iov) * 2 ^ k \<le> iov_len iov div 2 ^ k * 2 ^ k"
      using that by (intro mult_right_mono) (auto simp: iov_range_def iov_sectors_def)
    also have "\<dots> \<le> length (iov_data iov)" using w(2) div_times_less_eq_dividend order.trans by blast
    finally show ?thesis by (simp add: mem_read_def)
  qed
  then have "sectors_sized k (apply_iov (2 ^ k) V iov)"
    using Cons.prems(2) w(1) by (simp add: sectors_sized_def apply_iov_def)
  then show ?case using Cons by simp
qed simp

text \<open>The writes leave the sectors below the tags alone and keep every sector full.\<close>

definition below_tags :: "nat \<Rightarrow> sectors \<Rightarrow> sectors \<Rightarrow> bool" where
  "below_tags k V V' \<longleftrightarrow> (\<forall>x < tags_start k. V' x = V x) \<and> (sectors_sized k V \<longrightarrow> sectors_sized k V')"

lemma below_tags_refl [simp]: "below_tags k V V"
  by (simp add: below_tags_def)

lemma below_tags_trans: "below_tags k V V1 \<Longrightarrow> below_tags k V1 V2 \<Longrightarrow> below_tags k V V2"
  by (simp add: below_tags_def)

lemma tag_vector_range:
  assumes a: "areas_ok k pm" and tot: "pm_tag_size pm < 2 ^ 32" and j: "j * unat (tags_write_size pm) < pm_tag_size pm"
  defines "S \<equiv> unat (tags_write_size pm) div 2 ^ k"
  shows "iov_range (2 ^ k) (tag_vector pm j) \<subseteq> {tags_start k + j * S ..< tags_start k + Suc j * S}"
    and "length (pm_tags pm) = pm_tag_size pm \<Longrightarrow> full_write (2 ^ k) (tag_vector pm j)"
proof -
  note d = areas_dest [OF a] and b = media_len_bounds [OF a]
  have S: "S \<le> unat (tags_write_size pm)" unfolding S_def by (rule div_le_dividend)
  then have "j * S \<le> j * unat (tags_write_size pm)" by (rule mult_left_mono) simp
  then have "j * S < 2 ^ 32" using j tot by linarith
  then have "unat (get_pool_tags_lba (pm_layout pm)) + j * S < 2 ^ 64" using b(4) d(8) by simp
  then have first: "unat (get_pool_tags_lba (pm_layout pm) + of_nat (j * S)) = tags_start k + j * S"
    using d(8) by (subst unat_plus_of_nat) simp_all
  have "min (pm_tag_size pm - j * unat (tags_write_size pm)) (unat (tags_write_size pm)) div 2 ^ k \<le> S"
    unfolding S_def by (rule div_le_mono) simp
  then show "iov_range (2 ^ k) (tag_vector pm j) \<subseteq> {tags_start k + j * S ..< tags_start k + Suc j * S}"
    by (auto simp: tag_vector_def Let_def write_iov_def iov_range_def iov_first_def iov_sectors_def d(3) S_def [symmetric] first
        simp del: of_nat_mult)
  show "full_write (2 ^ k) (tag_vector pm j)" if "length (pm_tags pm) = pm_tag_size pm"
    using that j by (simp add: tag_vector_def Let_def write_iov_def full_write_def mem_read_def)
qed

lemma tag_vectors_write:
  assumes a: "areas_ok k pm" and tot: "pm_tag_size pm < 2 ^ 32" and len: "length (pm_tags pm) = pm_tag_size pm"
    and j: "\<forall>j \<in> {c..<c'}. j * unat (tags_write_size pm) < pm_tag_size pm"
  shows "disjoint_iovs (2 ^ k) (map (tag_vector pm) [c..<c'])"
    and "below_tags k V (foldl (apply_iov (2 ^ k)) V (map (tag_vector pm) [c..<c']))"
proof -
  let ?S = "unat (tags_write_size pm) div 2 ^ k" and ?iovs = "map (tag_vector pm) [c..<c']"
  have range: "iov_range (2 ^ k) (tag_vector pm i) \<subseteq> {tags_start k + i * ?S ..< tags_start k + Suc i * ?S}"
    if "c \<le> i" "i < c'" for i
    using tag_vector_range(1) [OF a tot] j that by simp
  show "disjoint_iovs (2 ^ k) ?iovs"
  proof (rule disjoint_vectors)
    fix i l assume il: "c \<le> i" "i < l" "l < c'"
    then have "Suc i * ?S \<le> l * ?S" by (intro mult_right_mono) simp_all
    moreover have "iov_range (2 ^ k) (tag_vector pm i) \<subseteq> {..<tags_start k + Suc i * ?S}"
      "iov_range (2 ^ k) (tag_vector pm l) \<subseteq> {tags_start k + l * ?S..}"
      using range [of i] range [of l] il by auto
    ultimately show "iov_range (2 ^ k) (tag_vector pm i) \<inter> iov_range (2 ^ k) (tag_vector pm l) = {}" by fastforce
  qed
  have "x \<notin> iov_range (2 ^ k) iov" if "x < tags_start k" "iov \<in> set ?iovs" for x iov
    using that range by fastforce
  then have "\<forall>x < tags_start k. foldl (apply_iov (2 ^ k)) V ?iovs x = V x"
    using foldl_apply_iov_outside [of ?iovs _ "2 ^ k" V] by blast
  moreover have "\<And>iov. iov \<in> set ?iovs \<Longrightarrow> full_write (2 ^ k) iov"
    using tag_vector_range(2) [OF a tot _ len] j by auto
  ultimately show "below_tags k V (foldl (apply_iov (2 ^ k)) V ?iovs)"
    using sized_after_write unfolding below_tags_def by blast
qed

lemma tags_loop_below:
  assumes a: "areas_ok k pm" and k: "k \<le> 20" and tot: "pm_tag_size pm < 2 ^ 31" and len: "length (pm_tags pm) = pm_tag_size pm"
    and laws: "open_laws E k (dev_handle (pm_device pm)) (dev_caps (pm_device pm))" and batch: "batch_law E (pm_device pm) view"
  shows "unat r = pm_tag_size pm - c * unat (tags_write_size pm) \<Longrightarrow>
    tags_loop E pm (of_nat c) r w = Some (Inr (), w') \<Longrightarrow> below_tags k (view w) (view w')"
proof (induction "unat r" arbitrary: c r w rule: less_induct)
  case less
  show ?case
  proof (cases "r = 0")
    case True
    then show ?thesis using less.prems by (simp add: tags_loop.simps)
  next
    case False
    have ss: "nvm_sector_size (dev_caps (pm_device pm)) = 2 ^ k" using laws by (simp add: open_laws_def)
    have ps: "pm_sector_size pm = 2 ^ k" using ss by (simp add: pm_sector_size_def)
    have tot': "pm_tag_size pm < 2 ^ 32" using tot by simp
    obtain iovs c2 r1 where f: "tags_fill pm 0 0 (of_nat c) r = (iovs, c2, r1)" by (metis prod_cases3)
    obtain c1 where v: "c2 = of_nat c1" "unat r1 = pm_tag_size pm - c1 * unat (tags_write_size pm)"
      "iovs = map (tag_vector pm) [c..<c1]" "\<forall>j \<in> {c..<c1}. j * unat (tags_write_size pm) < pm_tag_size pm"
      using tags_fill_vectors [OF ps k tot less.prems(1) f] by blast
    obtain n w1 where wr: "nvm_writev E (pm_device pm) iovs (length iovs) True w = (Inr n, w1)"
      using writev_succeeds [OF laws] by metis
    note t = tag_vectors_write [OF a tot' len v(4)]
    have "view w1 = foldl (apply_iov (2 ^ k)) (view w) iovs"
      using nvm_writev_atomic_ok [OF batch wr] t(1) ss v(3) by simp
    then have 1: "below_tags k (view w) (view w1)" using t(2) v(3) by simp
    have "unat r1 < unat r" using tags_fill_less [OF False open_laws_progress [OF laws], of "of_nat c"] f by simp
    moreover have "tags_loop E pm (of_nat c1) r1 w1 = Some (Inr (), w')"
      using less.prems(2) False f wr v(1) by (subst (asm) tags_loop.simps) (simp add: Let_def)
    ultimately have "below_tags k (view w1) (view w')" using less.hyps v(2) by blast
    then show ?thesis using below_tags_trans [OF 1] by blast
  qed
qed

lemma new_table_stored:
  assumes a: "areas_ok k pm" and k: "k \<le> 20" and sh: "pm_shape pm" and tot: "pm_tag_size pm < 2 ^ 31"
    and len: "length (pm_tags pm) = pm_tag_size pm"
    and laws: "open_laws E k (dev_handle (pm_device pm)) (dev_caps (pm_device pm))" and batch: "batch_law E (pm_device pm) view"
    and ok: "persist_store_info E (M_KV_BM_INUSE OR M_KV_BM_DELETED OR M_KV_POOL_TAGS) (-1) pm w = Some (Inr (), w')"
    and none: "live_ids pm = {}" and md: "\<exists>tail. view w 0 = Some (metadata_bytes (pm_md pm) @ tail)"
    and size: "sectors_sized k (view w)"
  shows "pools_stored k (view w') pm" "sectors_sized k (view w')"
proof -
  let ?type = "M_KV_BM_INUSE OR M_KV_BM_DELETED OR M_KV_POOL_TAGS :: u32"
  note d = areas_dest [OF a] and b = media_len_bounds [OF a]
  have idx: "idx_ok (-1) pm" by (simp add: idx_ok_def)
  define I where "I = bitmap_iov (-1) (get_inuse_bm_lba (pm_layout pm)) (pm_in_use pm) pm"
  define D where "D = bitmap_iov (-1) (get_del_bm_lba (pm_layout pm)) (pm_deleted pm) pm"
  have iovs: "persist_iovs ?type (-1) pm = [I, D]" by (simp add: persist_iovs_def pm_flags I_def D_def)
  obtain w1 n where w1: "tags_loop E pm 0 (of_nat (pm_tag_size pm)) w = Some (Inr (), w1)"
    and wr: "nvm_writev E (pm_device pm) [I, D] 2 True w1 = (Inr n, w')"
  proof -
    have "?type AND M_KV_POOL_TAGS \<noteq> 0" by (simp add: pm_flags)
    then show thesis using ok that
      by (auto simp: persist_store_info_def iovs persist_pool_tags_def Let_def numeral_2_eq_2
          split: option.splits prod.splits sum.splits)
  qed
  have "unat (of_nat (pm_tag_size pm) :: u32) = pm_tag_size pm" using tot by (intro unat_of_nat_nowrap) simp
  then have below: "below_tags k (view w) (view w1)"
    using tags_loop_below [OF a k tot len laws batch, of "of_nat (pm_tag_size pm)" 0] w1 by simp
  note r = persist_ranges [OF a idx]
  have dis: "disjoint_iovs (2 ^ k) [I, D]" using persist_disjoint [OF a idx, of ?type] iovs by simp
  have V: "view w' = foldl (apply_iov (2 ^ k)) (view w1) [I, D]"
    using nvm_writev_atomic_ok [OF batch wr] dis d(4) by simp
  have full: "full_write (2 ^ k) iov" if "iov \<in> set [I, D]" for iov
    using that shape_lengths [OF sh] d(9)
    by (auto simp: I_def D_def bitmap_iov_def write_iov_def full_write_def mem_read_def)
  show "sectors_sized k (view w')"
    unfolding V by (rule sized_after_write [OF full]) (use below size in \<open>simp_all add: below_tags_def\<close>)
  have at: "view w' x = apply_iov (2 ^ k) (view w1) iov x" if "iov \<in> set [I, D]" "x \<in> iov_range (2 ^ k) iov" for iov x
    unfolding V by (rule foldl_apply_iov_inside [OF dis that])
  have span: "iov_range (2 ^ k) I = {1..<1 + pm_bm_len pm div 2 ^ k}"
    "iov_range (2 ^ k) D = {deleted_start k pm..<deleted_start k pm + pm_bm_len pm div 2 ^ k}"
    using r(1,2) by (simp_all add: I_def D_def bitmap_span_def)
  have low: "1 \<le> tags_start k" "deleted_start k pm \<le> tags_start k" using b(2) by (simp_all add: tags_start_def)
  have "view w' 0 = view w1 0"
    unfolding V by (rule foldl_apply_iov_outside) (use span in \<open>auto simp: deleted_start_def\<close>)
  also have "\<dots> = view w 0" using below low(1) by (simp add: below_tags_def)
  finally have "\<exists>tail. view w' 0 = Some (metadata_bytes (pm_md pm) @ tail)" using md by simp
  moreover have "bitmap_on k (view w') 1 (pm_in_use pm)"
    unfolding bitmap_on_def
  proof (intro allI impI)
    fix i assume "i < 4 * length (pm_in_use pm) div 2 ^ k"
    then have i: "1 + i \<in> bitmap_span k 1 pm (-1)" using shape_lengths(1) [OF sh] by (simp add: bitmap_span_def)
    then show "view w' (1 + i) = Some (mem_read (i * 2 ^ k) (2 ^ k) (bitmap_bytes (pm_in_use pm)))"
      using at [of I "1 + i"] bitmap_iov_at(2) [OF a _ d(6) low(1) i] r(1) by (simp add: I_def)
  qed
  moreover have "bitmap_on k (view w') (deleted_start k pm) (pm_deleted pm)"
    unfolding bitmap_on_def
  proof (intro allI impI)
    fix i assume "i < 4 * length (pm_deleted pm) div 2 ^ k"
    then have i: "deleted_start k pm + i \<in> bitmap_span k (deleted_start k pm) pm (-1)"
      using shape_lengths(2) [OF sh] by (simp add: bitmap_span_def)
    then show "view w' (deleted_start k pm + i) = Some (mem_read (i * 2 ^ k) (2 ^ k) (bitmap_bytes (pm_deleted pm)))"
      using at [of D "deleted_start k pm + i"] bitmap_iov_at(2) [OF a _ d(7) low(2) i] r(2) by (simp add: D_def)
  qed
  ultimately show "pools_stored k (view w') pm" using none by (simp add: pools_stored_def)
qed

section \<open>What a first open leaves behind\<close>

lemma allocated_place:
  assumes k: "9 \<le> k" "k \<le> 19" and ss: "nvm_sector_size (dev_caps (pm_device raw)) = 2 ^ k"
    and al: "allocated k raw pm" and max: "pm_max_pools raw \<le> NVM_KV_MAX_POOLS"
    and lay: "get_sect_bits (pm_layout raw) = of_nat k" "unat (get_inuse_bm_lba (pm_layout raw)) = 1"
      "unat (get_pool_tags_lba (pm_layout raw)) = tags_start k"
  shows "areas_ok k pm" "pm_tag_size pm < 2 ^ 31"
proof -
  note f = allocated_dest [OF al]
  have max': "pm_max_pools pm = pm_max_pools raw" by (simp add: pm_max_pools_def f(2))
  define L where "L = pm_bm_len pm div 2 ^ k"
  have "L \<le> pm_bm_len pm" unfolding L_def by (rule div_le_dividend)
  have "(2::nat) ^ 9 \<le> 2 ^ k" using k(1) by (intro power_increasing) simp_all
  then have "L \<le> pm_bm_len pm div 2 ^ 9" unfolding L_def by (intro div_le_mono2) simp_all
  then have L: "1 + L < 2 ^ 32" using f(15) by simp
  have "get_inuse_bm_lba (pm_layout raw) = 1" using lay(2) by (simp add: word_unat_eq_iff)
  then have "ucast (get_inuse_bm_lba (pm_layout raw)) + of_nat L = (of_nat (1 + L) :: u32)" by simp
  then have del: "unat (get_del_bm_lba (pm_layout pm)) = 1 + L"
    using L unfolding f(9) L_def [symmetric]
    by (simp only: set_del_bm_lba_def get_del_bm_lba_def nvm_kv_layout.simps) (simp add: unat_ucast_u64 unat_of_nat del: of_nat_add of_nat_Suc)
  have "get_sect_bits (pm_layout pm) = get_sect_bits (pm_layout raw)" "get_inuse_bm_lba (pm_layout pm) = get_inuse_bm_lba (pm_layout raw)"
    "get_pool_tags_lba (pm_layout pm) = get_pool_tags_lba (pm_layout raw)"
    by (simp_all add: f(9) set_del_bm_lba_def get_sect_bits_def get_inuse_bm_lba_def get_pool_tags_lba_def)
  then show "areas_ok k pm"
    using k ss lay max max' f(8) del by (simp add: areas_ok_def pm_sector_size_def f(1) deleted_start_def L_def)
  have "POOL_TAG_SIZE * pm_max_pools raw \<le> 2 ^ 24" using max by (simp add: POOL_TAG_SIZE_def NVM_KV_MAX_POOLS_def)
  moreover have "(2::nat) ^ k \<le> 2 ^ 19" using k by (intro power_increasing) simp_all
  ultimately show "pm_tag_size pm < 2 ^ 31"
    using rnd_bounds(2) [of k "POOL_TAG_SIZE * pm_max_pools raw"] k unfolding f(10) by simp
qed

lemma metadata_written:
  assumes k: "9 \<le> k" and ss: "nvm_sector_size (dev_caps dev) = 2 ^ k" and batch: "batch_law E dev view"
    and tail: "length tail = 2 ^ k - KV_STORE_METADATA_SIZE"
    and ok: "nvm_writev E dev [write_iov 0 (2 ^ k) (metadata_bytes md @ tail)] 1 True w = (Inr c, w')"
  shows "view w' 0 = Some (metadata_bytes md @ tail)" "sectors_sized k (view w) \<Longrightarrow> sectors_sized k (view w')"
proof -
  have "(2::nat) ^ 9 \<le> 2 ^ k" using k by (intro power_increasing) simp_all
  then have len: "length (metadata_bytes md @ tail) = 2 ^ k" using tail by (simp add: KV_STORE_METADATA_SIZE_def)
  have V: "view w' = foldl (apply_iov (2 ^ k)) (view w) [write_iov 0 (2 ^ k) (metadata_bytes md @ tail)]"
    using nvm_writev_atomic_ok [OF batch ok] ss by simp
  show "view w' 0 = Some (metadata_bytes md @ tail)"
    using len unfolding V by (simp add: apply_iov_def write_iov_def iov_range_def iov_first_def iov_sectors_def mem_read_def)
  show "sectors_sized k (view w')" if "sectors_sized k (view w)"
    unfolding V using that len by (intro sized_after_write) (auto simp: full_write_def write_iov_def)
qed

lemma first_open_leaves:
  assumes laws: "open_laws E k (dev_handle (pm_device raw)) (dev_caps (pm_device raw))" and k: "k \<le> 19"
    and batch: "batch_law E (pm_device raw) view" and size: "sectors_sized k (view w)"
    and lay: "pm_layout raw = store_layout oa (dev_caps (pm_device raw)) sparse max_pools"
    and writes: "first_writes E k raw w pm w'" and bits: "bm_bits (pm_in_use pm) = {0}" "pm_wf pm"
  shows "areas_ok k pm" "pools_stored k (view w') pm" "sectors_sized k (view w')"
proof -
  obtain tail c w1 where al: "pm_raw raw" "allocated k raw pm" and tail: "length tail = 2 ^ k - KV_STORE_METADATA_SIZE"
    and md: "nvm_writev E (pm_device raw) [write_iov 0 (2 ^ k) (metadata_bytes (pm_md raw) @ tail)] 1 True w = (Inr c, w1)"
    and ok: "persist_store_info E (M_KV_BM_INUSE OR M_KV_BM_DELETED OR M_KV_POOL_TAGS) (-1) pm w1 = Some (Inr (), w')"
    using writes by (auto simp: first_writes_def)
  note f = allocated_dest [OF al(2)]
  have o: "9 \<le> k" "k \<le> 20" "nvm_sector_size (dev_caps (pm_device raw)) = 2 ^ k" using laws by (simp_all add: open_laws_def)
  have max: "pm_max_pools raw \<le> NVM_KV_MAX_POOLS" using al(1) by (simp add: pm_raw_def pm_fresh_def)
  note area = store_layout_areas [OF o, of oa sparse max_pools, folded lay]
  have k20: "k \<le> 20" using k by simp
  note place = allocated_place [OF o(1) k o(3) al(2) max area]
  show "areas_ok k pm" by (rule place(1))
  note m = metadata_written [OF o(1,3) batch tail md]
  have laws': "open_laws E k (dev_handle (pm_device pm)) (dev_caps (pm_device pm))" and batch': "batch_law E (pm_device pm) view"
    using laws batch by (simp_all add: f(1))
  have "live_ids pm = {}" by (simp add: live_ids_def bits)
  moreover have "\<exists>tail. view w1 0 = Some (metadata_bytes (pm_md pm) @ tail)" using m(1) by (simp add: f(2))
  moreover have "pm_shape pm" using bits(2) by (simp add: pm_wf_def)
  ultimately show "pools_stored k (view w') pm" "sectors_sized k (view w')"
    using new_table_stored [where view = view and w = w1, OF place(1) k20 _ place(2) f(11) laws' batch' ok _ _ m(2) [OF size]] by blast+
qed

lemma open_new_left:
  assumes laws: "open_laws E k handle cap" and oa: "allocs_succeed oa" and new: "env_block_exists E handle 0 w = 0"
    and pools: "NVM_KV_MIN_POOLS \<le> unat max_pools" "unat max_pools \<le> NVM_KV_MAX_POOLS" and exp: "expiry \<le> KV_GLOBAL_EXPIRY"
    and id: "0 \<le> kv_id" "kv_id < 2 ^ 31" and k: "k \<le> 19"
    and batch: "batch_law E \<lparr>dev_fd = kv_id, dev_handle = handle, dev_caps = cap\<rparr> view" and size: "sectors_sized k (view w)"
    and fits: "tags_start k + (unat max_pools * POOL_TAG_SIZE + (2 ^ k - 1)) div 2 ^ k \<le> capacity"
  obtains obj w' where
    "store_initialize E oa kv_id handle cap sparse max_pools version expiry cache_size w = Some (Inr obj, w')"
    "stored_id obj = kv_id" "left_behind k capacity (view w') version (so_store obj)"
    "opened_with cap sparse max_pools (so_store obj)"
    "get_store_device (so_store obj) = \<lparr>dev_fd = kv_id, dev_handle = handle, dev_caps = cap\<rparr>"
proof -
  obtain obj w' where o: "store_initialize E oa kv_id handle cap sparse max_pools version expiry cache_size w = Some (Inr obj, w')"
    "stored_id obj = kv_id" "pm_wf (st_pm (so_store obj))" "bm_bits (pm_in_use (st_pm (so_store obj))) = {0}"
    "pm_max_pools (st_pm (so_store obj)) = unat max_pools"
    "get_store_device (so_store obj) = \<lparr>dev_fd = kv_id, dev_handle = handle, dev_caps = cap\<rparr>"
    "\<exists>pm. first_writes E k pm w (st_pm (so_store obj)) w' \<and> pm_layout pm = store_layout oa cap sparse max_pools \<and>
      pm_hash pm = store_hash oa cap sparse max_pools \<and> pm_device pm = get_store_device (so_store obj) \<and>
      sm_max_pools (pm_md pm) = max_pools \<and> sm_version (pm_md pm) = version \<and> sm_kv_store_stamp (pm_md pm) = M_KV_STAMP"
    by (rule open_new_steps [OF laws oa new pools exp id, where sparse = sparse and version = version and cache_size = cache_size]) blast
  define pm where "pm = st_pm (so_store obj)"
  obtain raw where w: "first_writes E k raw w pm w'" "pm_layout raw = store_layout oa cap sparse max_pools"
    "pm_hash raw = store_hash oa cap sparse max_pools" "pm_device raw = \<lparr>dev_fd = kv_id, dev_handle = handle, dev_caps = cap\<rparr>"
    "sm_max_pools (pm_md raw) = max_pools" "sm_version (pm_md raw) = version" "sm_kv_store_stamp (pm_md raw) = M_KV_STAMP"
    using o(6,7) unfolding pm_def by auto
  have al: "allocated k raw pm" using w(1) by (simp add: first_writes_def)
  note f = allocated_dest [OF al]
  have laws': "open_laws E k (dev_handle (pm_device raw)) (dev_caps (pm_device raw))" using laws by (simp add: w(4))
  have batch': "batch_law E (pm_device raw) view" using batch by (simp add: w(4))
  have lay: "pm_layout raw = store_layout oa (dev_caps (pm_device raw)) sparse max_pools" using w(2,4) by simp
  note left = first_open_leaves [where view = view, OF laws' k batch' size lay w(1) o(4,3) [folded pm_def]]
  have "left_behind k capacity (view w') version (so_store obj)"
    using left o(3,5) pools(1) fits w(6,7) f(2)
    by (simp add: left_behind_def pm_def [symmetric] pool_table_end_def get_store_metadata_def)
  moreover have "opened_with cap sparse max_pools (so_store obj)"
    using w(2,3,5) f(2,3,9) by (auto simp: opened_with_def get_layout_def get_hash_func_def get_store_metadata_def pm_def [symmetric])
  ultimately show thesis using that o(1,2,6) by blast
qed

text \<open>A history of the pool manager keeps what a store leaves behind.\<close>

lemma left_behind_history:
  assumes lb: "left_behind k capacity (view w0) version st0" and ow: "opened_with cap sparse max_pools st0"
    and batch: "batch_law E (get_store_device st0) view"
    and run: "(pm_media_step E view k)\<^sup>*\<^sup>* (st_pm st0, w0) (st_pm st, w)" and size: "sectors_sized k (view w)"
  shows "left_behind k capacity (view w) version st" "opened_with cap sparse max_pools st"
    "sm_kv_store_id (get_store_metadata st) = sm_kv_store_id (get_store_metadata st0)"
proof -
  note l = left_behind_dest [OF lb]
  have r: "pools_stored k (view w) (st_pm st) \<and> same_place (st_pm st0) (st_pm st) \<and> pm_wf (st_pm st)"
    using media_run_stored [OF run] l(1-3) batch by (simp add: get_store_device_def)
  then have place: "same_place (st_pm st0) (st_pm st)" by simp
  note md = same_place_md [OF place]
  have max: "pm_max_pools (st_pm st) = pm_max_pools (st_pm st0)" by (simp add: pm_max_pools_def md)
  show "left_behind k capacity (view w) version st"
    using l r size md max same_place_areas [OF place]
    by (simp add: left_behind_def get_store_metadata_def pool_table_end_def)
  show "opened_with cap sparse max_pools st"
    using ow place md by (simp add: opened_with_def get_layout_def get_hash_func_def get_store_metadata_def same_place_def)
  show "sm_kv_store_id (get_store_metadata st) = sm_kv_store_id (get_store_metadata st0)"
    using md by (simp add: get_store_metadata_def)
qed

definition sparse_bits :: "nvm_capacity \<Rightarrow> nvm_kv_store_capabilities \<Rightarrow> u32" where
  "sparse_bits capacity cap =
     word_of_int (comp_sparse_addr_bits (device_size capacity cap) (of_nat (nvm_sector_size cap)))"


section \<open>A store on a simulated device\<close>

definition sim_cap :: nvm_kv_store_capabilities where
  "sim_cap = \<lparr>nvm_max_num_iovs = 8, nvm_atomic_write_multiplicity = 1, nvm_max_write_size_per_iov = 512,
     nvm_max_trim_size_per_iov = 512, nvm_sector_size = 512, nvm_max_num_logical_iter_ranges = 8,
     nvm_atomic_write_max_total_size = 4096\<rparr>"

definition sim_capacity :: nvm_capacity where
  "sim_capacity = \<lparr>cp_total_phys = 2 ^ 30, cp_used_phys = 2 ^ 20, cp_total_logical = 2 ^ 48\<rparr>"

definition sim_mgr :: kv_iter_mgr where
  "sim_mgr = \<lparr>mg_bufs = sim_bufs, mg_map = (\<lambda>i. None), mg_iter = (\<lambda>i. None)\<rparr>"

lemma sim_caps_read:
  "initialize_capabilities (oe_cap_values sim_open_env) (oe_cap_ret sim_open_env) (oe_feature_enabled sim_open_env) = Inr sim_cap"
proof -
  have "(\<exists>i < 3. P i) \<longleftrightarrow> P 0 \<or> P 1 \<or> P 2" for P :: "nat \<Rightarrow> bool"
    by (auto simp: numeral_3_eq_3 numeral_2_eq_2 less_Suc_eq)
  then show ?thesis by (simp add: initialize_capabilities_def sim_open_env_def sim_cap_def)
qed

lemma sim_open_laws: "open_laws sim_iter_env 9 handle sim_cap"
  by (simp add: open_laws_def sim_cap_def sim_iter_env_def sim_env_def)

lemma sim_allocs_succeed: "allocs_succeed sim_allocs"
  by (simp add: allocs_succeed_def sim_allocs_def)

lemma sim_open_answers: "oe_fstat_ok sim_open_env" "oe_handle sim_open_env \<noteq> -1"
  "env_capacity sim_iter_env h w = Some sim_capacity"
  "env_block_exists sim_iter_env h 0 w = (if w 0 = None then 0 else 1)"
  by (simp_all add: sim_open_env_def sim_iter_env_def sim_env_def sim_capacity_def)

lemma sim_batch_any: "batch_law sim_iter_env \<lparr>dev_fd = fd, dev_handle = h, dev_caps = sim_cap\<rparr> (\<lambda>w. w)"
  by (simp add: batch_law_def sim_iter_env_def sim_env_def sim_cap_def)

lemma sim_reopen_laws: "reopen_laws sim_iter_env 9 \<lparr>dev_fd = fd, dev_handle = h, dev_caps = sim_cap\<rparr> capacity (\<lambda>w. w) sim_allocs"
proof -
  have "read_law sim_iter_env \<lparr>dev_fd = fd, dev_handle = h, dev_caps = sim_cap\<rparr> capacity (\<lambda>w. w)"
    by (simp add: read_law_def sim_iter_env_def sim_env_def sim_cap_def)
  moreover have "alloc_law sim_iter_env" by (simp add: alloc_law_def memalign_ok_def sim_iter_env_def sim_env_def)
  moreover have "2 \<le> nvm_max_num_iovs sim_cap" by (simp add: sim_cap_def)
  moreover have "aligned 9 (oa_in_use_addr sim_allocs)" "aligned 9 (oa_deleted_addr sim_allocs)"
    "\<forall>w n mb. env_memalign sim_iter_env w n = Some mb \<longrightarrow> aligned 9 (mb_addr mb)"
    by (auto simp: aligned_def sim_allocs_def sim_iter_env_def sim_env_def)
  ultimately show ?thesis using sim_open_laws sim_allocs_succeed by (simp add: reopen_laws_def)
qed

lemma sim_open_args: "NVM_KV_MIN_POOLS \<le> unat (16 :: u32)" "unat (16 :: u32) \<le> NVM_KV_MAX_POOLS"
  "(0 :: u32) \<le> KV_GLOBAL_EXPIRY" "(0 :: int) \<le> 3" "(3 :: int) < 2 ^ 31" "(9 :: nat) \<le> 19"
  "tags_start 9 + (unat (16 :: u32) * POOL_TAG_SIZE + (2 ^ 9 - 1)) div 2 ^ 9 \<le> 2 ^ 20"
  "sectors_sized 9 (\<lambda>n. None)" "mg_map sim_mgr i = None"
  by (simp_all add: NVM_KV_MIN_POOLS_def NVM_KV_MAX_POOLS_def tags_start_def POOL_TAG_SIZE_def sectors_sized_def sim_mgr_def)

lemma sim_opened:
  obtains mg' w' st where "kv_open sim_iter_env sim_open_env sim_allocs 3 1 16 0 0 sim_mgr (\<lambda>n. None) = Some (Inr 3, mg', w')"
    "mg_map mg' 3 = Some st" "left_behind 9 (2 ^ 20) w' 1 st" "opened_with sim_cap (sparse_bits sim_capacity sim_cap) 16 st"
    "sint (ucast (sm_kv_store_id (get_store_metadata st)) :: 32 word) = 3"
    "get_store_device st = \<lparr>dev_fd = 3, dev_handle = oe_handle sim_open_env, dev_caps = sim_cap\<rparr>"
proof -
  let ?h = "oe_handle sim_open_env"
  have new: "env_block_exists sim_iter_env ?h 0 (\<lambda>n. None) = 0" by (simp add: sim_open_answers)
  obtain obj w' where o: "store_initialize sim_iter_env sim_allocs 3 ?h sim_cap (sparse_bits sim_capacity sim_cap) 16 1 0 0 (\<lambda>n. None) = Some (Inr obj, w')"
    "stored_id obj = 3" "left_behind 9 (2 ^ 20) w' 1 (so_store obj)"
    "opened_with sim_cap (sparse_bits sim_capacity sim_cap) 16 (so_store obj)"
    "get_store_device (so_store obj) = \<lparr>dev_fd = 3, dev_handle = ?h, dev_caps = sim_cap\<rparr>"
    using open_new_left [where view = "\<lambda>w. w" and sparse = "sparse_bits sim_capacity sim_cap" and version = 1 and cache_size = 0,
        OF sim_open_laws sim_allocs_succeed new sim_open_args(1-6) sim_batch_any [of 3 ?h] sim_open_args(8,7)] by blast
  have "kv_open sim_iter_env sim_open_env sim_allocs 3 1 16 0 0 sim_mgr (\<lambda>n. None) = Some (Inr 3, open_manager 3 obj sim_mgr, w')"
    using sim_caps_read sim_open_answers o(1,2) sim_allocs_succeed sim_open_args(9) [of 3]
    by (simp add: kv_open_def Let_def sparse_bits_def [symmetric] allocs_succeed_def)
  then show thesis using that [of "open_manager 3 obj sim_mgr" w' "so_store obj"] o(2-5)
    by (simp add: open_manager_def stored_id_def)
qed

section \<open>Properties\<close>

text \<open>
  C10: a first open writes everything that a later open reads. Setting: a device without a metadata block
  that obeys the batch law, every write and every allocation succeeds, sectors of 512 bytes to 512
  kilobytes, a legal number of pools whose table fits the capacity, a known expiry mode, an id the manager does
  not have, and capabilities that leave the tag writer a positive number of vectors, a total size and a vector
  size other than 0 after it has narrowed them to \<open>int\<close> and \<open>uint32_t\<close>. Then \<open>kv_open\<close>
  succeeds and leaves behind the metadata block with this version and stamp, the in-use bitmap with the default
  pool, the deleted bitmap, and full sectors only: the tag writer, which may go over many batches, touches
  no sector before the tags.
\<close>

theorem kv_open_leaves_table:
  assumes "open_laws E k (oe_handle oe) cap" and "allocs_succeed oa" and "oe_fstat_ok oe" and "oe_handle oe \<noteq> -1"
    and "initialize_capabilities (oe_cap_values oe) (oe_cap_ret oe) (oe_feature_enabled oe) = Inr cap"
    and "env_capacity E (oe_handle oe) w = Some cp" and "env_block_exists E (oe_handle oe) 0 w = 0"
    and "NVM_KV_MIN_POOLS \<le> unat max_pools" and "unat max_pools \<le> NVM_KV_MAX_POOLS"
    and "expiry \<le> KV_GLOBAL_EXPIRY" and "0 \<le> kv_id" and "kv_id < 2 ^ 31" and "mg_map mg kv_id = None"
    and "k \<le> 19" and "batch_law E \<lparr>dev_fd = kv_id, dev_handle = oe_handle oe, dev_caps = cap\<rparr> view"
    and "sectors_sized k (view w)"
    and "tags_start k + (unat max_pools * POOL_TAG_SIZE + (2 ^ k - 1)) div 2 ^ k \<le> capacity"
  shows "\<exists>mg' w' st. kv_open E oe oa kv_id version max_pools expiry cache_size mg w = Some (Inr kv_id, mg', w') \<and>
    mg_map mg' kv_id = Some st \<and> left_behind k capacity (view w') version st \<and>
    opened_with cap (sparse_bits cp cap) max_pools st"
proof -
  obtain obj w' where o: "store_initialize E oa kv_id (oe_handle oe) cap (sparse_bits cp cap) max_pools version expiry cache_size w = Some (Inr obj, w')"
    "stored_id obj = kv_id" "left_behind k capacity (view w') version (so_store obj)"
    "opened_with cap (sparse_bits cp cap) max_pools (so_store obj)"
    by (rule open_new_left [OF assms(1,2,7-12,14-17)]) blast
  have "kv_open E oe oa kv_id version max_pools expiry cache_size mg w = Some (Inr kv_id, open_manager kv_id obj mg, w')"
    using assms(2-6,11,13) o(1,2) by (simp add: kv_open_def Let_def sparse_bits_def [symmetric] allocs_succeed_def)
  then show ?thesis using o(3,4) by (simp add: open_manager_def)
qed

theorem kv_open_leaves_table_witness:
  "\<exists>mg' w' st. kv_open sim_iter_env sim_open_env sim_allocs 3 1 16 0 0 sim_mgr (\<lambda>n. None) = Some (Inr 3, mg', w') \<and>
     mg_map mg' 3 = Some st \<and> left_behind 9 (2 ^ 20) w' 1 st"
proof -
  have new: "env_block_exists sim_iter_env (oe_handle sim_open_env) 0 (\<lambda>n. None) = 0" by (simp add: sim_open_answers)
  show ?thesis
    using kv_open_leaves_table [where view = "\<lambda>w. w" and version = 1 and cache_size = 0, OF sim_open_laws sim_allocs_succeed
        sim_open_answers(1,2) sim_caps_read sim_open_answers(3) new sim_open_args(1-5) sim_open_args(9) [of 3] sim_open_args(6)
        sim_batch_any sim_open_args(8,7)]
    by blast
qed

text \<open>
  C6: a store survives being closed. Take a store \<open>st0\<close> that has left its table on the device,
  as a first open does, and any history of successful calls of its pool manager, with the writes of the rest of the
  store in between, up to a store \<open>st\<close>. An open of the device with the same version and number
  of pools, by a manager that does not have the store, when reads, writes and allocations succeed, returns the id in the
  metadata block, writes nothing, and makes a store whose pool table is that of \<open>st\<close>: each pool has the same status,
  each tag is bound to the same pool, and the invariant holds. Every map of keys to values that \<open>st\<close>
  represented on the sectors is represented by the new store, and its table is again on the device. The limits
  the tag writer takes from the device must be usable after it has narrowed them (\<open>open_laws\<close>).
\<close>

theorem kv_reopen:
  assumes "left_behind k capacity (view w0) version st0" and "opened_with cap (sparse_bits cp cap) max_pools st0"
    and "batch_law E (get_store_device st0) view"
    and "(pm_media_step E view k)\<^sup>*\<^sup>* (st_pm st0, w0) (st_pm st, w)" and "sectors_sized k (view w)"
    and "oe_fstat_ok oe" and "oe_handle oe \<noteq> -1"
    and "initialize_capabilities (oe_cap_values oe) (oe_cap_ret oe) (oe_feature_enabled oe) = Inr cap"
    and "env_capacity E (oe_handle oe) w = Some cp" and "env_block_exists E (oe_handle oe) 0 w = 1"
    and "reopen_laws E k \<lparr>dev_fd = kv_id, dev_handle = oe_handle oe, dev_caps = cap\<rparr> capacity view oa"
    and "sint (ucast (sm_kv_store_id (get_store_metadata st0)) :: 32 word) = store_id" and "0 \<le> store_id"
    and "mg_map mg store_id = None"
  shows "\<exists>mg' st'. kv_open E oe oa kv_id version max_pools expiry cache_size mg w = Some (Inr store_id, mg', w) \<and>
    mg_map mg' = (mg_map mg)(store_id \<mapsto> st') \<and> pm_wf (st_pm st') \<and> \<not> pm_locked (st_pm st') \<and>
    (\<forall>n < pm_max_pools (st_pm st). check_pool_status (int n) (st_pm st') = check_pool_status (int n) (st_pm st)) \<and>
    pm_tags_map (st_pm st') = pm_tags_map (st_pm st) \<and> get_expiry st' = get_expiry st \<and>
    (\<forall>K m. kv_rep k st' K (view w) m \<longleftrightarrow> kv_rep k st K (view w) m) \<and>
    left_behind k capacity (view w) version st' \<and> opened_with cap (sparse_bits cp cap) max_pools st'"
proof -
  note left = left_behind_history [OF assms(1-5)]
  obtain obj where o: "store_initialize E oa kv_id (oe_handle oe) cap (sparse_bits cp cap) max_pools version expiry cache_size w = Some (Inr obj, w)"
    "stored_id obj = sint (ucast (sm_kv_store_id (get_store_metadata st)) :: 32 word)"
    "left_behind k capacity (view w) version (so_store obj)" "opened_with cap (sparse_bits cp cap) max_pools (so_store obj)"
    "\<not> pm_locked (st_pm (so_store obj))" "pool_view (st_pm (so_store obj)) = pool_view (st_pm st)"
    "pm_tags_map (st_pm (so_store obj)) = pm_tags_map (st_pm st)" "get_store_metadata (so_store obj) = get_store_metadata st"
    by (rule reopen_steps [OF assms(11) left(1,2) assms(10), where expiry = expiry and cache_size = cache_size]) blast
  have id: "stored_id obj = store_id" unfolding o(2) left(3) by (rule assms(12))
  have "allocs_succeed oa" using assms(11) by (simp add: reopen_laws_def)
  then have call: "kv_open E oe oa kv_id version max_pools expiry cache_size mg w = Some (Inr store_id, open_manager store_id obj mg, w)"
    using assms(6-9,13,14) o(1) id by (simp add: kv_open_def Let_def sparse_bits_def [symmetric] allocs_succeed_def)
  have wf: "pm_wf (st_pm (so_store obj))" "pm_wf (st_pm st)" using o(3) left(1) by (simp_all add: left_behind_def)
  have max: "pm_max_pools (st_pm (so_store obj)) = pm_max_pools (st_pm st)"
    using o(8) by (simp add: pm_max_pools_def get_store_metadata_def)
  have "check_pool_status (int n) (st_pm (so_store obj)) = check_pool_status (int n) (st_pm st)" if "n < pm_max_pools (st_pm st)" for n
    using pool_status_view [of "st_pm (so_store obj)" n] pool_status_view [of "st_pm st" n] wf o(6) that max
    by (simp add: pm_wf_def)
  moreover have "kv_rep k (so_store obj) K (view w) m \<longleftrightarrow> kv_rep k st K (view w) m" for K m
    by (rule opened_rep [OF left(2) o(4)])
  ultimately show ?thesis
    unfolding call using o wf(1)
    by (intro exI [of _ "open_manager store_id obj mg"] exI [of _ "so_store obj"])
      (simp add: open_manager_def get_expiry_def)
qed

theorem kv_reopen_witness:
  "\<exists>mg1 w1 st1 mg2 st2. kv_open sim_iter_env sim_open_env sim_allocs 3 1 16 0 0 sim_mgr (\<lambda>n. None) = Some (Inr 3, mg1, w1) \<and>
     mg_map mg1 3 = Some st1 \<and> kv_open sim_iter_env sim_open_env sim_allocs 3 1 16 0 0 sim_mgr w1 = Some (Inr 3, mg2, w1) \<and>
     mg_map mg2 = [3 \<mapsto> st2] \<and> pm_wf (st_pm st2) \<and> pm_tags_map (st_pm st2) = pm_tags_map (st_pm st1)"
proof -
  obtain mg1 w1 st where o: "kv_open sim_iter_env sim_open_env sim_allocs 3 1 16 0 0 sim_mgr (\<lambda>n. None) = Some (Inr 3, mg1, w1)"
    "mg_map mg1 3 = Some st" "left_behind 9 (2 ^ 20) w1 1 st" "opened_with sim_cap (sparse_bits sim_capacity sim_cap) 16 st"
    "sint (ucast (sm_kv_store_id (get_store_metadata st)) :: 32 word) = 3"
    "get_store_device st = \<lparr>dev_fd = 3, dev_handle = oe_handle sim_open_env, dev_caps = sim_cap\<rparr>"
    by (rule sim_opened)
  have "w1 0 \<noteq> None" using o(3) by (auto simp: left_behind_def pools_stored_def)
  then have old: "env_block_exists sim_iter_env (oe_handle sim_open_env) 0 w1 = 1" by (simp add: sim_open_answers)
  have fresh: "mg_map sim_mgr = (\<lambda>i. None)" by (simp add: sim_mgr_def)
  have batch: "batch_law sim_iter_env (get_store_device st) (\<lambda>w. w)" unfolding o(6) by (rule sim_batch_any)
  have size: "sectors_sized 9 w1" using o(3) by (simp add: left_behind_def)
  show ?thesis
    using kv_reopen [where view = "\<lambda>w. w" and expiry = 0 and cache_size = 0, OF o(3,4) batch rtranclp.rtrancl_refl size
        sim_open_answers(1,2) sim_caps_read sim_open_answers(3) old sim_reopen_laws o(5) sim_open_args(4) sim_open_args(9) [of 3]] o(1,2)
    unfolding fresh by blast
qed

end
