(* ===== verification/Spec2Isabelle.thy ===== *)
theory Spec2Isabelle
  imports KvApi Threads AsyncThreads KvReopen
begin

text \<open>
  A verification development for NVMKV, a key-value store on flash devices with sparse addressing
  and atomic vectored writes (C++ under \<open>src/\<close>, \<open>util/\<close> and
  \<open>include/\<close>).

  \<^bold>\<open>The program.\<close> A store hashes a key and its pool to a slot of the sparse address space, writes
  header and value there with one atomic batch and finds them again by probing the same slots
  (\<open>kv_store_mgr.cpp\<close>, \<open>kv_hash_func.cpp\<close>, \<open>kv_layout.cpp\<close>). Pools share
  the slots, each at its own offset; the pool manager keeps the in-use and deleted bitmaps and the
  tags, in memory and on the device (\<open>kv_pool_manager.cpp\<close>, \<open>kv_bitmap.cpp\<close>). A
  collision cache remembers the addresses of keys (\<open>kv_cache.cpp\<close>); a list of LBAs serialises
  the writers of an address (\<open>kv_sync_list.cpp\<close>); buffers come from a pool
  (\<open>kv_buffer_pool.cpp\<close>). Iterators walk the ranges that the device reports
  (\<open>kv_iterator.cpp\<close>); the background threads use them to remove deleted pools
  (\<open>kv_pool_del_manager.cpp\<close>) and expired keys (\<open>kv_expiry_manager.cpp\<close>), and a
  queue trims the expired keys that a get comes across (\<open>kv_async_expiry.cpp\<close>). The manager is
  a singleton behind the C functions of \<open>nvm_kv.cpp\<close>.

  \<^bold>\<open>Theories and code.\<close> Each component theory has the component's state as a record, one definition
  per function, its invariant and lemmas, and the properties of the component alone; a theory
  \<open>...Spec\<close> has what holds of several components together.

  \<^item> \<open>Prelude\<close>: machine integers, raw memory, results, collections of lemmas.
  \<^item> \<open>KvUtil\<close> (\<open>util/kv_util.h\<close>), \<open>Bitmap\<close> (\<open>util/kv_bitmap.cpp\<close>),
    \<open>HashFunc\<close> (\<open>util/kv_hash_func.cpp\<close>), \<open>SyncList\<close>
    (\<open>util/kv_sync_list.cpp\<close>), \<open>BufferPool\<close> (\<open>util/kv_buffer_pool.cpp\<close>):
    the utilities. The list and the pool also as step relations over any number of threads, with
    reachability by rule induction.
  \<^item> \<open>KvTypes\<close>: error codes, limits and the packed structures with their byte layout
    (\<open>include/\<close>, \<open>src/kv_common.h\<close>). \<open>Layout\<close>: \<open>src/kv_layout.cpp\<close>.
  \<^item> \<open>Device\<close>: \<open>src/kv_wrappers.cpp\<close>, and the boundary to the NVM primitives: the record
    \<open>nvm_env\<close> of the functions of the device, and \<open>dev_laws\<close>, what the proofs use of them.
    \<open>sim_env\<close> is an executable device that meets the laws; the witnesses run on it.
  \<^item> \<open>Cache\<close> (\<open>src/kv_cache.cpp\<close>) and \<open>PoolMgr\<close> (\<open>src/kv_pool_manager.cpp\<close>).
  \<^item> \<open>Store\<close>: \<open>src/kv_store.cpp\<close> and \<open>src/kv_async_expiry.cpp\<close>. \<open>RangeTrim\<close> is the
    shared argument about passes that collect ranges and trim them in batches.
  \<^item> \<open>Media\<close>, \<open>KvOps\<close>, \<open>KvBatch\<close>, \<open>KvIterOps\<close>: \<open>src/kv_store_mgr.cpp\<close>,
    its internal routines, the calls on one key, the batched put, the iteration calls.
  \<^item> \<open>KvIterator\<close>, \<open>Scanner\<close>, \<open>PoolDel\<close>, \<open>ExpiryMgr\<close>: the iterators and the two
    background threads (\<open>kv_iterator.cpp\<close>, \<open>kv_scanner.cpp\<close>,
    \<open>kv_pool_del_manager.cpp\<close>, \<open>kv_expiry_manager.cpp\<close>).
  \<^item> \<open>KvOpen\<close>: constructors, \<open>NVM_KV_Store::initialize\<close>, \<open>kv_open\<close> and the singleton.
    \<open>KvApi\<close>: the functions of \<open>src/nvm_kv.cpp\<close>.
  \<^item> \<open>KvMap\<close>, \<open>KvSpec\<close>, \<open>KvBatchSpec\<close>, \<open>KvIterSpec\<close>, \<open>DeleteSpec\<close>,
    \<open>ExpirySpec\<close>, \<open>KvOpenSpec\<close>: the abstract specification and the refinements.
  \<^item> \<open>PoolMedia\<close>, \<open>KvReopen\<close>: what is on the device. Where each write of
    \<open>persist_store_info\<close> goes, that the pool table on the device is the one in memory
    after every history of calls, and that an open of an existing store restores it.
    \<open>PoolPass\<close>, \<open>AllPools\<close>: a pass of the deletion thread over single pools and over all,
    keys and table together.
  \<^item> \<open>Threads\<close>, \<open>AsyncThreads\<close>: the background threads as step relations with their mutexes,
    waits and wakeups: deletion thread, expiry thread and the callers of \<open>delete_pool\<close> (the
    \<open>start_thread\<close> of \<open>kv_pool_del_manager.cpp\<close> and \<open>kv_expiry_manager.cpp\<close>), and the threads
    and callers of the queue of \<open>kv_async_expiry.cpp\<close>.

  \<^bold>\<open>State and errors.\<close> Objects are records that are passed and returned; pointers to objects that a
  component owns are fields of its record, buffers are byte lists with their address. The device
  and the clock are a state \<open>w\<close> of any type, seen through \<open>nvm_env\<close>. An error code is
  \<open>Inl e\<close>, a result \<open>Inr r\<close>. What a call waits for from other threads is a parameter:
  \<open>others\<close> says when a taken LBA is freed. Allocations are arguments (their success, or
  what they return); uninitialised memory is an argument, too. A loop whose end depends on the
  device is a \<open>partial_function (option)\<close>: \<open>None\<close> is a call that never returns, or that
  follows a null pointer; the properties state that the calls return.

  \<^bold>\<open>Interfaces.\<close> \<open>bit_set\<close> (bitmaps as sets of numbers), \<open>pool_table\<close> (pool manager as a
  table of pool states), \<open>lossy_cache\<close> (the cache and the contexts of its callers, as a map that may forget),
  \<open>trimmer\<close> (a batched trim as a removal of sectors) and \<open>call_refinement\<close> (a call of the
  interface as an operation on a map) are locales; each is interpreted on the model's own
  definitions, and the properties rest on the interpretations.

  \<^bold>\<open>What the properties show.\<close> Histories of put, get and delete are explained by a sequential map,
  each call refines the operation on the map on every branch; the batched put is atomic on the map;
  deleting all keys empties it. A walk of an iterator visits exactly the ranges the device reports for
  its pool, deleting the keys of a pool trims exactly those, and a pass over the pools in deletion removes
  their keys and their entries of the table and nothing else; a pass of the expiry thread trims exactly
  the ranges that are reported as expired, or whose headers say so. A first open creates a store in the invariant
  of the pool manager and writes all that a later open reads; every successful call of the pool
  manager keeps the table on the device; so an open after any such history gives the same pools,
  tags and contents. Pools, cache and bitmaps refine abstract tables over all histories; the LBA
  list and the buffer pool keep their invariants under every interleaving. So do the background
  threads: the passes of deletion and expiry exclude each other, a deletion that was asked for is not
  overslept and the expiry makes way for it; every block of expired addresses is taken once, in order,
  and no full block is left to sleeping threads. Addresses, slots and hashes stay in their bounds; the
  writer of the pool tags, at the widths of the code, returns exactly when the narrowed limits of the
  device let it make progress. Several properties state what the code does where that is less than one
  expects: an insertion into the cache that keeps the old expiry, an iteration over all pools that misses
  them, a tag bound to no pool after a failed write, a pass that trims a range which the device did not
  report, a deletion of all pools that repeats for ever, a pass over all pools that takes the keys of a
  pool created meanwhile.

  \<^bold>\<open>Hypotheses.\<close> The map view (\<open>kv_env_ok\<close>, \<open>keys_spread\<close>) needs a store without a cache, with
  expiry disabled and no address held by another thread; keys whose slots are disjoint, inside the
  capacity and whose later probe slots are empty and apart from them, so keys that collide in the hash are
  outside it; puts that do not shrink the sectors of their key; sectors of \<open>2 ^ k\<close> bytes; and a device
  that keeps its laws: writes and trims are applied as a whole or not at all and may fail, reads inside the
  capacity and the allocations of vectors succeed. The cache is treated alone, through the contexts its callers
  use. A property about iteration needs that the range iterator hands out a fixed list of ranges, in
  order, and no more pools than the pool bits give, so that a pool id is its own hash; the deletion
  passes need the same of the pools and ranges no longer than the largest trim; the expiry passes a clock
  that stands still and an iterator without ranges of an earlier scan; opening a store that reads, writes and
  allocations succeed; reopening needs aligned buffers and the same number of pools as at
  the creation. The calls that run beside the background threads keep the deletion bitmap, the number of
  pools and the deletion status (\<open>pools_kept\<close>), and the queue of expired addresses
  (\<open>queue_kept\<close>). Each is met by a simulated device in a witness.

  \<^bold>\<open>Not modelled.\<close> Creation and cancellation of threads, the length of timed waits (a timeout
  may come at any time), and the read-write lock of the cache (the calls that hold it are one step);
  destructors (they free memory); messages on the
  error stream; tests, the sample program and build files; the macro of \<open>kv_macro.h\<close>. The
  used percentage of the expiry manager is a rational number, in the code a \<open>double\<close>. Calls of
  several threads interleave in \<open>SyncList\<close>, \<open>BufferPool\<close>, \<open>Threads\<close> and \<open>AsyncThreads\<close>, at
  their locks, and through \<open>others\<close>; elsewhere a call is one step. A pass of the deletion thread and a
  round of the expiry pass are one step of their relation, so calls that run meanwhile are ordered
  before or after them.

  \<^bold>\<open>Bounds.\<close> Sectors have \<open>2 ^ k\<close> bytes, \<open>k\<close> from 9 to 20. The theories on the
  pool table stop at 19: with sectors of one megabyte the deleted bitmap and the first tags would
  share a sector. Loops that depend on the device carry no fuel; their termination is part of the
  properties.

  \<^bold>\<open>Plan.\<close> What is left: the cancellation of the threads when a store is closed, whose handlers unlock
  mutexes that the thread may not hold, and passes that run beside changes of the same sectors, where the
  properties here take a pass as one step.
\<close>

end
